(* ===== verification/Prelude.thy ===== *)
theory Prelude
  imports Main "HOL-Library.Word" "HOL-Library.Monad_Syntax"
begin

text \<open>
  Shared vocabulary of the development: the C integer types as words, the bounded loop
  of the sources as a fold in the option monad, and little-endian encoding of 32-bit
  integers.  A value None of an option result stands for an execution that has no
  defined continuation (an invalid access, or the fuel of a recursion used up).
\<close>

unbundle bit_operations_syntax

type_synonym u8 = "8 word"
type_synonym u16 = "16 word"
type_synonym u32 = "32 word"
type_synonym u64 = "64 word"

text \<open>Pointers: None is NULL, Some a is the address a.\<close>

type_synonym ptr = "nat option"

text \<open>Bytes of C memory: None is a byte that was never written.\<close>

type_synonym mem = "u8 option list"

named_theorems c_simps \<open>rewrite rules for the operations of the models\<close>

section \<open>Guards and bounded loops\<close>

definition guard :: "bool \<Rightarrow> unit option" where
  "guard b = (if b then Some () else None)"

lemma guard_simps [simp]: "guard True = Some ()" "guard False = None"
  by (simp_all add: guard_def)

lemma guard_eq_Some [simp]: "guard b = Some u \<longleftrightarrow> b"
  by (cases b) auto

text \<open>\<open>for (i = ...) body\<close>: the loop body may fail, which stops the loop.\<close>

primrec foldM :: "('a \<Rightarrow> 's \<Rightarrow> 's option) \<Rightarrow> 'a list \<Rightarrow> 's \<Rightarrow> 's option" where
  "foldM f [] s = Some s"
| "foldM f (x # xs) s = Option.bind (f x s) (foldM f xs)"

lemma foldM_append: "foldM f (xs @ ys) s = Option.bind (foldM f xs s) (foldM f ys)"
  by (induction xs arbitrary: s) (auto split: bind_split)

lemma foldM_map: "foldM f (map g xs) s = foldM (f \<circ> g) xs s"
  by (induction xs arbitrary: s) (auto split: bind_split)

lemma foldM_cong:
  assumes "xs = ys" and "\<And>x s. x \<in> set ys \<Longrightarrow> f x s = g x s"
  shows "foldM f xs s = foldM g ys s"
  unfolding assms(1) using assms(2) 
proof (induction ys arbitrary: s)
  case (Cons y ys)
  then show ?case by (auto split: bind_split)
qed simp

lemma foldM_nth: "foldM (\<lambda>i. f (xs ! i)) [0..<length xs] s = foldM f xs s"
proof -
  have "foldM f (map ((!) xs) [0..<length xs]) s = foldM (f \<circ> (!) xs) [0..<length xs] s"
    by (rule foldM_map)
  then show ?thesis by (simp add: map_nth comp_def)
qed

text \<open>A loop that keeps an invariant ends with it; with a failing body there is no end.\<close>

lemma foldM_inv:
  assumes "P s" and "\<And>x s s'. x \<in> set xs \<Longrightarrow> P s \<Longrightarrow> f x s = Some s' \<Longrightarrow> P s'"
    and "foldM f xs s = Some t"
  shows "P t"
  using assms
proof (induction xs arbitrary: s)
  case (Cons x xs)
  from Cons.prems(3) obtain u where u: "f x s = Some u" "foldM f xs u = Some t"
    by (auto simp: bind_eq_Some_conv)
  have "P u" using Cons.prems(1,2) u(1) by auto
  then show ?case using Cons.prems(2) u(2) by (intro Cons.IH) auto
qed simp

text \<open>
  A loop with early exits: the body returns Inl for \<open>return\<close> (or \<open>break\<close> with a value)
  and Inr for the state of the next iteration.
\<close>

primrec loopM :: "('a \<Rightarrow> 's \<Rightarrow> ('r + 's) option) \<Rightarrow> 'a list \<Rightarrow> 's \<Rightarrow> ('r + 's) option" where
  "loopM f [] s = Some (Inr s)"
| "loopM f (x # xs) s =
     (case f x s of None \<Rightarrow> None | Some (Inl r) \<Rightarrow> Some (Inl r) | Some (Inr t) \<Rightarrow> loopM f xs t)"

lemma loopM_append:
  "loopM f (xs @ ys) s =
     (case loopM f xs s of None \<Rightarrow> None | Some (Inl r) \<Rightarrow> Some (Inl r) | Some (Inr t) \<Rightarrow> loopM f ys t)"
  by (induction xs arbitrary: s) (auto split: option.splits sum.splits)

lemma loopM_map: "loopM f (map g xs) s = loopM (f \<circ> g) xs s"
  by (induction xs arbitrary: s) (auto split: option.splits sum.splits)

lemma loopM_cong:
  assumes "xs = ys" and "\<And>x s. x \<in> set ys \<Longrightarrow> f x s = g x s"
  shows "loopM f xs s = loopM g ys s"
  unfolding assms(1) using assms(2)
  by (induction ys arbitrary: s) (auto split: option.splits sum.splits)

text \<open>The value of an initialised piece of memory; None when a byte was never written.\<close>

fun init_bytes :: "mem \<Rightarrow> u8 list option" where
  "init_bytes [] = Some []"
| "init_bytes (None # m) = None"
| "init_bytes (Some b # m) = map_option ((#) b) (init_bytes m)"

lemma init_bytes_map_Some [simp]: "init_bytes (map Some bs) = Some bs"
  by (induction bs) auto

lemma init_bytes_eq_Some: "init_bytes m = Some bs \<longleftrightarrow> m = map Some bs"
proof (induction m arbitrary: bs rule: init_bytes.induct)
  case (3 b m)
  then show ?case by (cases bs) auto
qed auto

section \<open>Little-endian 32-bit integers in memory\<close>

definition u32_bytes :: "u32 \<Rightarrow> u8 list" where
  "u32_bytes w = [ucast w, ucast (drop_bit 8 w), ucast (drop_bit 16 w), ucast (drop_bit 24 w)]"

fun bytes_u32 :: "u8 list \<Rightarrow> u32" where
  "bytes_u32 [a, b, c, d] =
     ucast a OR push_bit 8 (ucast b) OR push_bit 16 (ucast c) OR push_bit 24 (ucast d)"
| "bytes_u32 _ = 0"

lemma length_u32_bytes [simp]: "length (u32_bytes w) = 4"
  by (simp add: u32_bytes_def)

lemma bytes_u32_bytes [simp]: "bytes_u32 (u32_bytes w) = w"
proof (rule bit_word_eqI)
  fix n assume "n < LENGTH(32)"
  then show "bit (bytes_u32 (u32_bytes w)) n = bit w n"
    by (cases "n < 24"; cases "n < 16"; cases "n < 8")
      (auto simp: u32_bytes_def bit_simps not_less)
qed

lemma unat_u32_less [simp]: "unat (w::u32) < 4294967296"
  using unsigned_less [of w, where 'a=nat] by simp

lemma unat_u64_less [simp]: "unat (w::u64) < 18446744073709551616"
  using unsigned_less [of w, where 'a=nat] by simp

lemma unat_ucast_32_64 [simp]: "unat (ucast (w::u32) :: u64) = unat w"
  by (simp add: unsigned_ucast_eq take_bit_nat_eq_self_iff less_trans [OF unat_u32_less])

lemma unat_ucast_64_32: "unat (w::u64) < 2 ^ 32 \<Longrightarrow> unat (ucast w :: u32) = unat w"
  by (simp add: unsigned_ucast_eq take_bit_nat_eq_self_iff)

lemma unat_of_nat_u64: "n < 2 ^ 64 \<Longrightarrow> unat (of_nat n :: u64) = n"
  by (simp add: unat_of_nat)

lemma unat_of_nat_u32: "n < 2 ^ 32 \<Longrightarrow> unat (of_nat n :: u32) = n"
  by (simp add: unat_of_nat)

lemma unat_add_of_nat: "unat (w::u64) + n < 2 ^ 64 \<Longrightarrow> unat (w + of_nat n) = unat w + n"
  by (subst unat_add_lem [THEN iffD1]) (simp_all add: unat_of_nat)

lemma word_of_unat: "unat w = n \<Longrightarrow> w = of_nat n"
  by auto

lemma unat_two_power: "k < 64 \<Longrightarrow> unat (2 ^ k :: u64) = 2 ^ k"
proof -
  assume "k < 64"
  then have "(2::nat) ^ k < 2 ^ 64" by (rule power_strict_increasing) simp
  then have "unat (of_nat (2 ^ k) :: u64) = 2 ^ k"
    unfolding unat_of_nat by simp
  then show ?thesis by simp
qed

lemma unat_mask_u64: "k < 64 \<Longrightarrow> unat (mask k :: u64) = 2 ^ k - 1"
  using inc_mask_eq_exp [of k, where 'a=u64]
  by (metis unat_two_power add_diff_cancel_right' unat_eq_zero unat_minus_one
      zero_less_power zero_less_numeral less_numeral_extra(3))

lemma u32_bytes_inj: "u32_bytes v = u32_bytes w \<longleftrightarrow> v = w"
  by (metis bytes_u32_bytes)

end
