(* ===== verification/Helpers.thy ===== *)
theory Helpers
  imports Prelude
begin

text \<open>
  Growing buffers: \<open>next_pow2\<close> and \<open>maybe_grow\<close> of
  Grammar-Mutator/include/helpers.h, and the allocator the C functions share.
  The record alloc says how many more allocations succeed (None: all of them), so that
  every NULL result of malloc, calloc and realloc is a branch of the models.
\<close>

section \<open>The allocator\<close>

record alloc =
  avail :: "nat option"

definition try_alloc :: "'z alloc_scheme \<Rightarrow> bool \<times> 'z alloc_scheme" where
  "try_alloc h = (case avail h of
      None \<Rightarrow> (True, h)
    | Some 0 \<Rightarrow> (False, h)
    | Some (Suc k) \<Rightarrow> (True, h\<lparr>avail := Some k\<rparr>))"

text \<open>Memory never runs out: the condition under which operations are total.\<close>

abbreviation mem_ok :: "'z alloc_scheme \<Rightarrow> bool" where
  "mem_ok h \<equiv> avail h = None"

lemma try_alloc_ok [simp]: "mem_ok h \<Longrightarrow> try_alloc h = (True, h)"
  by (simp add: try_alloc_def)

lemma try_alloc_out [simp]: "avail h = Some 0 \<Longrightarrow> try_alloc h = (False, h)"
  by (simp add: try_alloc_def)

text \<open>\<open>realloc\<close> keeps the common prefix; new bytes are not initialised.\<close>

definition realloc_mem :: "mem option \<Rightarrow> nat \<Rightarrow> mem" where
  "realloc_mem b n = (let old = (case b of None \<Rightarrow> [] | Some m \<Rightarrow> m)
     in take n old @ replicate (n - length old) None)"

text \<open>\<open>memcpy(dst + off, src, length src)\<close>, None when it leaves the destination.\<close>

definition memcpy_at :: "mem \<Rightarrow> nat \<Rightarrow> mem \<Rightarrow> mem option" where
  "memcpy_at dst off src = (if off + length src \<le> length dst
     then Some (take off dst @ src @ drop (off + length src) dst) else None)"

text \<open>\<open>n\<close> bytes from offset \<open>off\<close>, None outside the buffer.\<close>

definition mem_slice :: "mem \<Rightarrow> nat \<Rightarrow> nat \<Rightarrow> mem option" where
  "mem_slice b off n = (if off + n \<le> length b then Some (take n (drop off b)) else None)"

lemma length_realloc_mem [simp]: "length (realloc_mem b n) = n"
  by (auto simp: realloc_mem_def split: option.splits)

lemma take_realloc_mem [simp]:
  "k \<le> n \<Longrightarrow> k \<le> length m \<Longrightarrow> take k (realloc_mem (Some m) n) = take k m"
  by (auto simp: realloc_mem_def min_def)

lemma memcpy_at_Some:
  "memcpy_at dst off src = Some d \<Longrightarrow> length d = length dst \<and> off + length src \<le> length dst
    \<and> take off d = take off dst \<and> take (length src) (drop off d) = src"
  by (auto simp: memcpy_at_def split: if_splits)

lemma memcpy_at_total: "off + length src \<le> length dst \<Longrightarrow> \<exists>d. memcpy_at dst off src = Some d"
  by (simp add: memcpy_at_def)

section \<open>next_pow2\<close>

definition next_pow2 :: "u64 \<Rightarrow> u64" where
  "next_pow2 n =
    (if n = 0 \<or> n > (-1) then 0
     else
       let out = n - 1;
           out = out OR drop_bit 1 out;
           out = out OR drop_bit 2 out;
           out = out OR drop_bit 4 out;
           out = out OR drop_bit 8 out;
           out = out OR drop_bit 16 out
       in out + 1)"

definition smear :: "u64 \<Rightarrow> u64" where
  "smear x = (let x = x OR drop_bit 1 x; x = x OR drop_bit 2 x; x = x OR drop_bit 4 x;
     x = x OR drop_bit 8 x in x OR drop_bit 16 x)"

lemma next_pow2_smear: "next_pow2 n = (if n = 0 then 0 else smear (n - 1) + 1)"
  by (simp add: next_pow2_def smear_def Let_def word_not_simps(3))

lemma bit_smear_step:
  assumes "\<And>i. bit (x::u64) i = (\<exists>j<k. bit y (i + j))"
  shows "bit (x OR drop_bit k x) i = (\<exists>j<k+k. bit y (i + j))"
proof -
  have "bit (x OR drop_bit k x) i \<longleftrightarrow> (\<exists>j<k. bit y (i + j)) \<or> (\<exists>j<k. bit y (k + i + j))"
    by (auto simp: bit_simps assms)
  also have "\<dots> \<longleftrightarrow> (\<exists>j<k+k. bit y (i + j))"
  proof
    assume "(\<exists>j<k. bit y (i + j)) \<or> (\<exists>j<k. bit y (k + i + j))"
    then show "\<exists>j<k+k. bit y (i + j)"
    proof
      assume "\<exists>j<k. bit y (i + j)"
      then obtain j where "j < k" "bit y (i + j)" by auto
      then show ?thesis by (intro exI [of _ j]) auto
    next
      assume "\<exists>j<k. bit y (k + i + j)"
      then obtain j where "j < k" "bit y (i + (k + j))" by (auto simp: ac_simps)
      then show ?thesis by (intro exI [of _ "k + j"]) auto
    qed
  next
    assume "\<exists>j<k+k. bit y (i + j)"
    then obtain j where j: "j < k + k" "bit y (i + j)" by auto
    show "(\<exists>j<k. bit y (i + j)) \<or> (\<exists>j<k. bit y (k + i + j))"
    proof (cases "j < k")
      case False
      with j show ?thesis by (intro disjI2 exI [of _ "j - k"]) auto
    next
      case True
      with j show ?thesis by auto
    qed
  qed
  finally show ?thesis .
qed

lemma bit_smear: "bit (smear y) i = (\<exists>j<32. bit y (i + j))"
proof -
  define x1 where "x1 = y OR drop_bit 1 y"
  define x2 where "x2 = x1 OR drop_bit 2 x1"
  define x3 where "x3 = x2 OR drop_bit 4 x2"
  define x4 where "x4 = x3 OR drop_bit 8 x3"
  have 1: "bit x1 i = (\<exists>j<2. bit y (i + j))" for i
    unfolding x1_def using bit_smear_step [of y 1 y i] by (auto simp: numeral_2_eq_2)
  have 2: "bit x2 i = (\<exists>j<4. bit y (i + j))" for i
    unfolding x2_def using bit_smear_step [of x1 2 y i, OF 1] by simp
  have 3: "bit x3 i = (\<exists>j<8. bit y (i + j))" for i
    unfolding x3_def using bit_smear_step [of x2 4 y i, OF 2] by simp
  have 4: "bit x4 i = (\<exists>j<16. bit y (i + j))" for i
    unfolding x4_def using bit_smear_step [of x3 8 y i, OF 3] by simp
  have "smear y = x4 OR drop_bit 16 x4"
    by (simp add: smear_def x1_def x2_def x3_def x4_def Let_def)
  then show ?thesis using bit_smear_step [of x4 16 y i, OF 4] by simp
qed

lemma smear_or: "smear y OR y = smear y"
  by (rule bit_word_eqI) (auto simp: bit_simps bit_smear intro: exI [of _ 0])

lemma smear_ge: "y \<le> smear y"
  using le_word_or1 [of y "smear y"] by (simp add: smear_or)

lemma smear_top_bit:
  assumes "bit y m" and "\<And>i. m < i \<Longrightarrow> \<not> bit y i" and "m < 32"
  shows "smear y = mask (Suc m)"
proof (rule bit_word_eqI)
  fix i assume i: "i < LENGTH(64)"
  have "(\<exists>j<32. bit y (i + j)) \<longleftrightarrow> i \<le> m"
  proof
    assume "\<exists>j<32. bit y (i + j)"
    then obtain j where "bit y (i + j)" by blast
    then have "\<not> m < i + j" using assms(2) by blast
    then show "i \<le> m" by simp
  next
    assume "i \<le> m"
    then show "\<exists>j<32. bit y (i + j)" using assms by (intro exI [of _ "m - i"]) auto
  qed
  then show "bit (smear y) i = bit (mask (Suc m) :: u64) i"
    using i assms(3) by (auto simp: bit_smear bit_simps)
qed

lemma word_top_bit:
  assumes "(y::u64) \<noteq> 0"
  obtains m where "bit y m" and "\<And>i. m < i \<Longrightarrow> \<not> bit y i"
proof -
  have "{i. bit y i} \<subseteq> {..<64}" by (auto dest: bit_imp_le_length)
  then have fin: "finite {i. bit y i}" by (rule finite_subset) simp
  have "\<exists>i. bit y i" using assms by (metis bit_word_eqI bit_0_eq bot_apply bot_bool_def)
  then have "{i. bit y i} \<noteq> {}" by blast
  with fin have "bit y (Max {i. bit y i})" using Max_in by blast
  moreover have "\<not> bit y i" if "Max {i. bit y i} < i" for i
    using that fin by (metis Max_ge leD mem_Collect_eq)
  ultimately show thesis using that by blast
qed

lemma top_bit_le: "bit (y::u64) m \<Longrightarrow> 2 ^ m \<le> y"
proof -
  assume "bit y m"
  then have "y OR 2 ^ m = y" by (intro bit_word_eqI) (auto simp: bit_simps)
  then show ?thesis using le_word_or1 [of "2 ^ m" y] by simp
qed

lemma next_pow2_least_aux:
  assumes "0 < n" and "n \<le> 2 ^ 32"
  shows "\<exists>k \<le> 32. next_pow2 n = 2 ^ k \<and> n \<le> 2 ^ k \<and> (k = 0 \<or> 2 ^ (k - 1) < n)"
proof (cases "n = 1")
  case True
  then have "next_pow2 n = 1" by (simp add: next_pow2_smear smear_def)
  with True show ?thesis by (intro exI [of _ 0]) simp
next
  case False
  define y where "y = n - 1"
  have y0: "y \<noteq> 0" using False by (simp add: y_def)
  then obtain m where m: "bit y m" "\<And>i. m < i \<Longrightarrow> \<not> bit y i" using word_top_bit by blast
  have yn: "unat y = unat n - 1" "0 < unat n"
    using assms(1) by (simp_all add: y_def unat_minus_one word_less_nat_alt unat_gt_0)
  have m64: "m < 64" using m(1) by (auto dest: bit_imp_le_length)
  have "2 ^ m \<le> unat y" using top_bit_le [OF m(1)] m64 by (simp add: word_le_nat_alt unat_two_power)
  moreover have "unat n \<le> 2 ^ 32" using assms(2) by (simp add: word_le_nat_alt)
  ultimately have "(2::nat) ^ m < 2 ^ 32" using yn by linarith
  then have m32: "m < 32" by (rule power_less_imp_less_exp [rotated]) simp
  have "n \<noteq> 0" using assms(1) by auto
  then have np: "next_pow2 n = 2 ^ Suc m"
    using smear_top_bit [OF m m32] by (simp add: next_pow2_smear inc_mask_eq_exp flip: y_def)
  have "y \<le> mask (Suc m)" using smear_ge [of y] smear_top_bit [OF m m32] by simp
  then have "unat y \<le> 2 ^ Suc m - 1"
    using m32 by (simp add: word_le_nat_alt unat_mask_u64)
  moreover have "(1::nat) \<le> 2 ^ Suc m" by simp
  ultimately have "unat n \<le> 2 ^ Suc m" using yn by linarith
  then have "n \<le> 2 ^ Suc m"
    using unat_two_power [of "Suc m"] m32 by (simp add: word_le_nat_alt del: power_Suc)
  moreover have "2 ^ m < n"
    using \<open>2 ^ m \<le> unat y\<close> yn m64 by (simp add: word_less_nat_alt unat_two_power)
  ultimately show ?thesis using np m32 by (intro exI [of _ "Suc m"]) simp
qed

text \<open>
  Above \<open>2 ^ 32\<close> the function still never returns less than its argument, except for
  the overflow value 0: the buffers below rely on this and on nothing more.
\<close>

lemma next_pow2_ge: "next_pow2 n = 0 \<or> n \<le> next_pow2 n"
proof (cases "n = 0 \<or> smear (n - 1) = -1")
  case True
  then show ?thesis by (auto simp: next_pow2_smear)
next
  case False
  then have n: "0 < unat n" and m: "smear (n - 1) \<noteq> -1" by (auto simp: unat_gt_0)
  have "unat (n - 1) \<le> unat (smear (n - 1))" using smear_ge word_le_nat_alt by blast
  moreover have "unat (n - 1) = unat n - 1" using n by (simp add: unat_minus_one unat_gt_0)
  moreover have "unat (smear (n - 1) + 1) = Suc (unat (smear (n - 1)))"
    using m by (metis add.commute add.inverse_inverse add_eq_0_iff unatSuc Suc_eq_plus1)
  ultimately have "unat n \<le> unat (smear (n - 1) + 1)" using n by linarith
  then show ?thesis using False by (simp add: next_pow2_smear word_le_nat_alt)
qed

section \<open>maybe_grow\<close>

text \<open>
  A buffer is its pointer (None: NULL; otherwise the bytes of the block) and its recorded
  size.  The result is the new buffer; the C function returns its pointer.  When
  \<open>realloc\<close> fails the pointer becomes NULL and the size 0.
\<close>

type_synonym buf = "mem option \<times> u64"

definition INITIAL_GROWTH_SIZE :: u64 where
  "INITIAL_GROWTH_SIZE = 64"

definition maybe_grow :: "buf \<Rightarrow> u64 \<Rightarrow> 'z alloc_scheme \<Rightarrow> buf \<times> 'z alloc_scheme" where
  "maybe_grow b size_needed h =
    (if size_needed \<noteq> 0 \<and> size_needed \<le> snd b then (b, h)
     else
       let size_needed =
             (if size_needed < INITIAL_GROWTH_SIZE then INITIAL_GROWTH_SIZE else size_needed);
           next_size = next_pow2 size_needed;
           next_size = (if next_size = 0 then size_needed else next_size)
       in case try_alloc h of
            (False, h') \<Rightarrow> ((None, 0), h')
          | (True, h') \<Rightarrow> ((Some (realloc_mem (fst b) (unat next_size)), next_size), h'))"

text \<open>A buffer is consistent when the block has exactly the recorded size.\<close>

definition buf_ok :: "buf \<Rightarrow> bool" where
  "buf_ok b = (case fst b of None \<Rightarrow> snd b = 0 | Some m \<Rightarrow> length m = unat (snd b))"

lemma buf_ok_simps [simp]:
  "buf_ok (None, n) \<longleftrightarrow> n = 0" "buf_ok (Some m, n) \<longleftrightarrow> length m = unat n"
  by (simp_all add: buf_ok_def)

definition grown_size :: "u64 \<Rightarrow> u64" where
  "grown_size n = (let n = (if n < INITIAL_GROWTH_SIZE then INITIAL_GROWTH_SIZE else n)
     in if next_pow2 n = 0 then n else next_pow2 n)"

lemma maybe_grow_alt:
  "maybe_grow b n h = (if n \<noteq> 0 \<and> n \<le> snd b then (b, h)
    else case try_alloc h of (False, h') \<Rightarrow> ((None, 0), h')
      | (True, h') \<Rightarrow> ((Some (realloc_mem (fst b) (unat (grown_size n))), grown_size n), h'))"
  unfolding maybe_grow_def grown_size_def Let_def by (rule refl)

lemma grown_size_ge: "n \<le> grown_size n"
proof -
  have "n \<le> (if n < INITIAL_GROWTH_SIZE then INITIAL_GROWTH_SIZE else n)" by auto
  also have "\<dots> \<le> grown_size n" using next_pow2_ge by (auto simp: grown_size_def Let_def)
  finally show ?thesis .
qed

lemma grown_size_pos: "0 < grown_size n"
proof -
  have "n < INITIAL_GROWTH_SIZE \<or> n \<noteq> 0" by (cases "n = 0") (auto simp: INITIAL_GROWTH_SIZE_def)
  then show ?thesis
    using next_pow2_ge [of n] next_pow2_ge [of INITIAL_GROWTH_SIZE]
    by (auto simp: grown_size_def Let_def word_neq_0_conv INITIAL_GROWTH_SIZE_def)
qed

lemma maybe_grow_buf_ok:
  "buf_ok b \<Longrightarrow> maybe_grow b n h = (b', h') \<Longrightarrow> buf_ok b'"
  by (cases b) (auto simp: maybe_grow_alt split: if_splits prod.splits bool.splits)

lemma maybe_grow_frame: "maybe_grow b n h = (b', h') \<Longrightarrow> mem_ok h \<Longrightarrow> h' = h"
  by (auto simp: maybe_grow_alt split: if_splits)

lemma maybe_grow_size:
  "maybe_grow (p, s) n h = ((Some m, s'), h') \<Longrightarrow> buf_ok (p, s) \<Longrightarrow> n \<le> s' \<and> length m = unat s'"
  using grown_size_ge [of n]
  by (auto simp: maybe_grow_alt split: if_splits prod.splits bool.splits)

lemma maybe_grow_prefix:
  assumes "maybe_grow (Some m, s) n h = ((Some m', s'), h')" and "length m = unat s"
    and "k \<le> unat s" and "k \<le> unat n"
  shows "take k m' = take k m"
proof (cases "n \<noteq> 0 \<and> n \<le> s")
  case True
  with assms show ?thesis by (auto simp: maybe_grow_alt)
next
  case False
  have "k \<le> unat (grown_size n)"
    using assms(4) grown_size_ge [of n] by (simp add: word_le_nat_alt)
  with False assms show ?thesis
    by (auto simp: maybe_grow_alt split: prod.splits bool.splits)
qed

lemma maybe_grow_total: "mem_ok h \<Longrightarrow> buf_ok b \<Longrightarrow> \<exists>m s. maybe_grow b n h = ((Some m, s), h)"
  using word_neq_0_conv
  by (cases b; cases "fst b") (auto simp: maybe_grow_alt)

end
