(* ===== verification/Linked_List.thy ===== *)
theory Linked_List
  imports Helpers
begin

text \<open>
  The doubly linked list of Grammar-Mutator/src/list.c over an explicit heap of list\_t and
  list\_node\_t records.  The abstraction \<open>list_at\<close> reads the sequence of data pointers off
  the heap; every operation is shown to act on it as the sequence operation it stands for,
  with all links, the tail pointer and the size right.  The locale \<open>fifo\<close> is the interface
  the clients use.
\<close>

section \<open>State\<close>

record list_node_t =
  next_ptr :: ptr
  prev :: ptr
  node_data :: ptr

record list_t =
  head :: ptr
  tail :: ptr
  size :: u64

record lheap = alloc +
  lnodes :: "nat \<Rightarrow> list_node_t option"
  lists :: "nat \<Rightarrow> list_t option"
  lbrk :: nat

definition lrd :: "'z lheap_scheme \<Rightarrow> ptr \<Rightarrow> list_node_t option" where
  "lrd h p = Option.bind p (lnodes h)"

definition lupd :: "ptr \<Rightarrow> (list_node_t \<Rightarrow> list_node_t) \<Rightarrow> 'z lheap_scheme \<Rightarrow> 'z lheap_scheme option" where
  "lupd p f h = do { a \<leftarrow> p; n \<leftarrow> lnodes h a; Some (h\<lparr>lnodes := (lnodes h)(a := Some (f n))\<rparr>) }"

text \<open>\<open>free(p)\<close>: freeing what is not allocated is an error.\<close>

definition lfree :: "ptr \<Rightarrow> 'z lheap_scheme \<Rightarrow> 'z lheap_scheme option" where
  "lfree p h = do { a \<leftarrow> p; n \<leftarrow> lnodes h a; Some (h\<lparr>lnodes := (lnodes h)(a := None)\<rparr>) }"

definition list_upd :: "nat \<Rightarrow> (list_t \<Rightarrow> list_t) \<Rightarrow> 'z lheap_scheme \<Rightarrow> 'z lheap_scheme option" where
  "list_upd l f h = do { L \<leftarrow> lists h l; Some (h\<lparr>lists := (lists h)(l := Some (f L))\<rparr>) }"

section \<open>The operations\<close>

definition list_create :: "'z lheap_scheme \<Rightarrow> ptr \<times> 'z lheap_scheme" where
  "list_create h = (case try_alloc h of
      (False, h) \<Rightarrow> (None, h)
    | (True, h) \<Rightarrow> (Some (lbrk h),
        h\<lparr>lists := (lists h)(lbrk h := Some \<lparr>head = None, tail = None, size = 0\<rparr>),
          lbrk := Suc (lbrk h)\<rparr>))"

primrec free_nodes ::
    "nat \<Rightarrow> (ptr \<Rightarrow> 'z lheap_scheme \<Rightarrow> 'z lheap_scheme option) option \<Rightarrow> ptr \<Rightarrow> 'z lheap_scheme
      \<Rightarrow> 'z lheap_scheme option" where
  "free_nodes 0 free_func cur h = None"
| "free_nodes (Suc k) free_func cur h =
    (if cur = None then Some h
     else do {
       n \<leftarrow> lrd h cur;
       h \<leftarrow> lupd cur (\<lambda>n. n\<lparr>next_ptr := None, prev := None\<rparr>) h;
       h \<leftarrow> (case free_func of None \<Rightarrow> Some h | Some f \<Rightarrow> f (node_data n) h);
       h \<leftarrow> lupd cur (node_data_update (\<lambda>_. None)) h;
       h \<leftarrow> lfree cur h;
       free_nodes k free_func (next_ptr n) h
     })"

definition list_free_with_data_free_func ::
    "nat \<Rightarrow> ptr \<Rightarrow> (ptr \<Rightarrow> 'z lheap_scheme \<Rightarrow> 'z lheap_scheme option) option \<Rightarrow> 'z lheap_scheme
      \<Rightarrow> 'z lheap_scheme option" where
  "list_free_with_data_free_func k list free_func h = (case list of None \<Rightarrow> Some h
   | Some l \<Rightarrow> do {
       L \<leftarrow> lists h l;
       h \<leftarrow> free_nodes k free_func (head L) h;
       h \<leftarrow> list_upd l (\<lambda>L. L\<lparr>head := None, tail := None, size := 0\<rparr>) h;
       Some (h\<lparr>lists := (lists h)(l := None)\<rparr>)
     })"

definition list_free :: "nat \<Rightarrow> ptr \<Rightarrow> 'z lheap_scheme \<Rightarrow> 'z lheap_scheme option" where
  "list_free k list h = list_free_with_data_free_func k list None h"

definition list_insert :: "ptr \<Rightarrow> ptr \<Rightarrow> 'z lheap_scheme \<Rightarrow> (ptr \<times> 'z lheap_scheme) option" where
  "list_insert list data h = (case list of None \<Rightarrow> Some (None, h)
   | Some l \<Rightarrow> (case try_alloc h of
       (False, h) \<Rightarrow> Some (None, h)
     | (True, h) \<Rightarrow> do {
         L \<leftarrow> lists h l;
         let a = lbrk h;
             h = h\<lparr>lnodes := (lnodes h)(a := Some \<lparr>next_ptr = head L, prev = None, node_data = data\<rparr>),
                   lbrk := Suc a\<rparr> in do {
         h \<leftarrow> (if tail L = None then list_upd l (tail_update (\<lambda>_. Some a)) h
                else lupd (head L) (prev_update (\<lambda>_. Some a)) h);
         h \<leftarrow> list_upd l (\<lambda>L. L\<lparr>head := Some a, size := size L + 1\<rparr>) h;
         Some (Some a, h)
       }}))"

definition list_append :: "ptr \<Rightarrow> ptr \<Rightarrow> 'z lheap_scheme \<Rightarrow> (ptr \<times> 'z lheap_scheme) option" where
  "list_append list data h = (case list of None \<Rightarrow> Some (None, h)
   | Some l \<Rightarrow> (case try_alloc h of
       (False, h) \<Rightarrow> Some (None, h)
     | (True, h) \<Rightarrow> do {
         L \<leftarrow> lists h l;
         let a = lbrk h;
             h = h\<lparr>lnodes := (lnodes h)(a := Some \<lparr>next_ptr = None, prev = tail L, node_data = data\<rparr>),
                   lbrk := Suc a\<rparr> in do {
         h \<leftarrow> (if head L = None then list_upd l (head_update (\<lambda>_. Some a)) h
                else lupd (tail L) (next_ptr_update (\<lambda>_. Some a)) h);
         h \<leftarrow> list_upd l (\<lambda>L. L\<lparr>tail := Some a, size := size L + 1\<rparr>) h;
         Some (Some a, h)
       }}))"

text \<open>The loop of \<open>list_remove\<close> from the cell \<open>cur\<close> on.\<close>

primrec remove_from ::
    "nat \<Rightarrow> nat \<Rightarrow> ptr \<Rightarrow> ptr \<Rightarrow> 'z lheap_scheme \<Rightarrow> (bool \<times> 'z lheap_scheme) option" where
  "remove_from 0 l data cur h = None"
| "remove_from (Suc k) l data cur h =
    (if cur = None then Some (False, h)
     else do {
       n \<leftarrow> lrd h cur;
       if node_data n = data then do {
         h \<leftarrow> list_upd l (\<lambda>L. if cur = head L then L\<lparr>head := next_ptr n\<rparr> else L) h;
         h \<leftarrow> list_upd l (\<lambda>L. if cur = tail L then L\<lparr>tail := prev n\<rparr> else L) h;
         h \<leftarrow> (if prev n \<noteq> None then lupd (prev n) (next_ptr_update (\<lambda>_. next_ptr n)) h else Some h);
         h \<leftarrow> (if next_ptr n \<noteq> None then lupd (next_ptr n) (prev_update (\<lambda>_. prev n)) h else Some h);
         h \<leftarrow> lupd cur (\<lambda>n. n\<lparr>next_ptr := None, prev := None, node_data := None\<rparr>) h;
         h \<leftarrow> lfree cur h;
         h \<leftarrow> list_upd l (\<lambda>L. L\<lparr>size := size L - 1\<rparr>) h;
         Some (True, h)
       } else remove_from k l data (next_ptr n) h
     })"

definition list_remove :: "nat \<Rightarrow> ptr \<Rightarrow> ptr \<Rightarrow> 'z lheap_scheme \<Rightarrow> (bool \<times> 'z lheap_scheme) option" where
  "list_remove k list data h = (case list of None \<Rightarrow> Some (False, h)
   | Some l \<Rightarrow> do {
       L \<leftarrow> lists h l;
       if size L = 0 \<or> head L = None then Some (False, h)
       else remove_from k l data (head L) h
     })"

definition list_pop_front :: "ptr \<Rightarrow> 'z lheap_scheme \<Rightarrow> (ptr \<times> 'z lheap_scheme) option" where
  "list_pop_front list h = (case list of None \<Rightarrow> Some (None, h)
   | Some l \<Rightarrow> do {
       L \<leftarrow> lists h l;
       if size L = 0 \<or> head L = None then Some (None, h)
       else do {
         let hd = head L;
         n \<leftarrow> lrd h hd;
         h \<leftarrow> list_upd l (head_update (\<lambda>_. next_ptr n)) h;
         h \<leftarrow> (if hd = tail L then list_upd l (tail_update (\<lambda>_. None)) h
                else lupd (next_ptr n) (prev_update (\<lambda>_. None)) h);
         h \<leftarrow> lupd hd (\<lambda>n. n\<lparr>next_ptr := None, prev := None, node_data := None\<rparr>) h;
         h \<leftarrow> lfree hd h;
         h \<leftarrow> list_upd l (\<lambda>L. L\<lparr>size := size L - 1\<rparr>) h;
         Some (node_data n, h)
       }})"

text \<open>
  \<open>list_get\<close>: the loop index is a 32-bit integer that is compared with a \<open>size_t\<close>, so for
  more than \<open>2 ^ 32\<close> elements it would never end; \<open>get_loop\<close> has fuel for that reason.
\<close>

primrec get_loop :: "nat \<Rightarrow> u32 \<Rightarrow> u64 \<Rightarrow> ptr \<Rightarrow> 'z lheap_scheme \<Rightarrow> ptr option" where
  "get_loop 0 j i cur h = None"
| "get_loop (Suc k) j i cur h =
    (if ucast j < i then do { n \<leftarrow> lrd h cur; get_loop k (j + 1) i (next_ptr n) h }
     else Some cur)"

definition list_get :: "nat \<Rightarrow> ptr \<Rightarrow> u64 \<Rightarrow> 'z lheap_scheme \<Rightarrow> ptr option" where
  "list_get k list i h = (case list of None \<Rightarrow> Some None
   | Some l \<Rightarrow> do {
       L \<leftarrow> lists h l;
       if size L = 0 \<or> head L = None then Some None
       else if i \<ge> size L then Some None
       else do {
         cur \<leftarrow> get_loop k 0 i (head L) h;
         n \<leftarrow> lrd h cur;
         Some (node_data n)
       }})"

definition list_empty :: "ptr \<Rightarrow> 'z lheap_scheme \<Rightarrow> bool option" where
  "list_empty list h = (case list of None \<Rightarrow> Some True
   | Some l \<Rightarrow> do { L \<leftarrow> lists h l; Some (size L = 0 \<or> head L = None) })"

section \<open>Sequences in the heap\<close>

text \<open>
  A chain of cells: the addresses with their data, the pointer that the first one must have
  as \<open>prev\<close>, and the one the last one must have as \<open>next\<close>.
\<close>

definition first_ptr :: "(nat \<times> ptr) list \<Rightarrow> ptr \<Rightarrow> ptr" where
  "first_ptr xs q = (case xs of [] \<Rightarrow> q | (a, d) # _ \<Rightarrow> Some a)"

definition last_ptr :: "ptr \<Rightarrow> (nat \<times> ptr) list \<Rightarrow> ptr" where
  "last_ptr p xs = (if xs = [] then p else Some (fst (last xs)))"

fun chain :: "(nat \<Rightarrow> list_node_t option) \<Rightarrow> ptr \<Rightarrow> (nat \<times> ptr) list \<Rightarrow> ptr \<Rightarrow> bool" where
  "chain m p [] q = True"
| "chain m p ((a, d) # xs) q =
     (m a = Some \<lparr>next_ptr = first_ptr xs q, prev = p, node_data = d\<rparr> \<and> chain m (Some a) xs q)"

lemma first_ptr_simps [simp]:
  "first_ptr [] q = q" "first_ptr ((a, d) # xs) q = Some a"
  by (simp_all add: first_ptr_def)

lemma last_ptr_simps [simp]:
  "last_ptr p [] = p" "last_ptr p (xs @ [(a, d)]) = Some a" "last_ptr p (x # xs) = last_ptr (Some (fst x)) xs"
  by (auto simp: last_ptr_def)

lemma first_ptr_append [simp]: "first_ptr (xs @ ys) q = first_ptr xs (first_ptr ys q)"
  by (cases xs) (auto simp: first_ptr_def split: list.splits)

lemma first_ptr_None [simp]: "first_ptr xs q = None \<longleftrightarrow> xs = [] \<and> q = None"
  by (cases xs) auto

lemma last_ptr_None [simp]: "last_ptr None xs = None \<longleftrightarrow> xs = []"
  by (auto simp: last_ptr_def)

lemma first_ptr_ex [simp]: "\<exists>y. first_ptr xs (Some b) = Some y"
  by (cases xs) (auto simp: first_ptr_def)

lemma last_ptr_ex [simp]: "\<exists>y. last_ptr (Some b) xs = Some y"
  by (auto simp: last_ptr_def)

lemma last_ptr_append [simp]: "last_ptr p (xs @ ys) = last_ptr (last_ptr p xs) ys"
  by (auto simp: last_ptr_def)

lemma chain_append:
  "chain m p (xs @ ys) q \<longleftrightarrow> chain m p xs (first_ptr ys q) \<and> chain m (last_ptr p xs) ys q"
  by (induction m p xs q rule: chain.induct) auto

lemma chain_cong:
  "(\<And>a. a \<in> fst ` set xs \<Longrightarrow> m' a = m a) \<Longrightarrow> chain m' p xs q = chain m p xs q"
  by (induction m p xs q rule: chain.induct) auto

lemma chain_frame [simp]: "a \<notin> fst ` set xs \<Longrightarrow> chain (m(a := n)) p xs q = chain m p xs q"
  by (rule chain_cong) auto

text \<open>Only the \<open>next\<close> of the last cell depends on what follows the chain.\<close>

lemma chain_relink_end:
  assumes "chain m p (xs @ [(b, d)]) q" and "b \<notin> fst ` set xs"
  shows "chain (m(b := Some \<lparr>next_ptr = q', prev = last_ptr p xs, node_data = d\<rparr>)) p (xs @ [(b, d)]) q'"
  using assms by (simp add: chain_append)

definition list_cells :: "'z lheap_scheme \<Rightarrow> nat \<Rightarrow> (nat \<times> ptr) list \<Rightarrow> bool" where
  "list_cells h l xs \<longleftrightarrow> lists h l = Some \<lparr>head = first_ptr xs None, tail = last_ptr None xs, size = of_nat (length xs)\<rparr>
     \<and> length xs < 2 ^ 64 \<and> chain (lnodes h) None xs None \<and> distinct (map fst xs)
     \<and> (\<forall>a\<in>fst ` set xs. a < lbrk h) \<and> l < lbrk h"

text \<open>The list at \<open>l\<close> holds the data \<open>ds\<close>.\<close>

definition list_at :: "'z lheap_scheme \<Rightarrow> ptr \<Rightarrow> ptr list \<Rightarrow> bool" where
  "list_at h list ds \<longleftrightarrow> (\<exists>l xs. list = Some l \<and> list_cells h l xs \<and> map snd xs = ds)"

lemma list_size_0: "length xs < 2 ^ 64 \<Longrightarrow> (of_nat (length xs) :: u64) = 0 \<longleftrightarrow> xs = []"
  by (auto simp: word_of_nat_eq_0_iff dest: dvd_imp_le)

lemma list_create_ok:
  assumes "mem_ok h"
  shows "\<exists>l h'. list_create h = (l, h') \<and> mem_ok h' \<and> list_at h' l []"
  using assms by (auto simp: list_create_def list_at_def list_cells_def)

text \<open>
  An operation on the list at \<open>l\<close> with cells \<open>xs\<close> leaves everything else alone that was
  allocated before: so two lists with different cells do not disturb each other.
\<close>

definition beside :: "'z lheap_scheme \<Rightarrow> 'z lheap_scheme \<Rightarrow> nat \<Rightarrow> (nat \<times> ptr) list \<Rightarrow> bool" where
  "beside h h' l xs \<longleftrightarrow> lbrk h \<le> lbrk h'
     \<and> (\<forall>a. a < lbrk h \<and> a \<notin> fst ` set xs \<longrightarrow> lnodes h' a = lnodes h a)
     \<and> (\<forall>m. m < lbrk h \<and> m \<noteq> l \<longrightarrow> lists h' m = lists h m)"

lemma beside_cells:
  assumes "beside h h' l xs" and "list_cells h m ys" and "m \<noteq> l" and "fst ` set xs \<inter> fst ` set ys = {}"
  shows "list_cells h' m ys"
proof -
  have "lnodes h' a = lnodes h a" if "a \<in> fst ` set ys" for a
    using assms that unfolding beside_def list_cells_def by (meson disjoint_iff)
  then have "chain (lnodes h') None ys None = chain (lnodes h) None ys None" by (rule chain_cong)
  then show ?thesis using assms by (auto simp: list_cells_def beside_def)
qed

lemma list_cells_insert:
  assumes "list_cells h l xs" and "mem_ok h" and "Suc (length xs) < 2 ^ 64"
  shows "\<exists>a h'. list_insert (Some l) d h = Some (Some a, h') \<and> mem_ok h'
    \<and> list_cells h' l ((a, d) # xs) \<and> beside h h' l xs \<and> lbrk h \<le> a"
proof (cases xs)
  case Nil
  with assms show ?thesis by (auto simp: list_insert_def list_cells_def list_upd_def beside_def Let_def)
next
  case (Cons x ys)
  then obtain b e where x: "xs = (b, e) # ys" by (cases x) auto
  have "lbrk h \<notin> fst ` set xs" using assms(1) by (auto simp: list_cells_def)
  then show ?thesis
    using assms by (auto simp: list_insert_def list_cells_def list_upd_def lupd_def x algebra_simps
      beside_def Let_def)
qed

lemma list_cells_append:
  assumes "list_cells h l xs" and "mem_ok h" and "Suc (length xs) < 2 ^ 64"
  shows "\<exists>a h'. list_append (Some l) d h = Some (Some a, h') \<and> mem_ok h'
    \<and> list_cells h' l (xs @ [(a, d)]) \<and> beside h h' l xs \<and> lbrk h \<le> a"
proof (cases xs rule: rev_cases)
  case Nil
  with assms show ?thesis by (auto simp: list_append_def list_cells_def list_upd_def beside_def Let_def)
next
  case (snoc ys x)
  then obtain b e where x: "xs = ys @ [(b, e)]" by (cases x) auto
  have "lbrk h \<notin> fst ` set xs" using assms(1) by (auto simp: list_cells_def)
  then show ?thesis
    using assms by (auto simp: list_append_def list_cells_def list_upd_def lupd_def x chain_append
      algebra_simps beside_def Let_def)
qed

lemma list_cells_pop:
  assumes "list_cells h l ((a, d) # xs)"
  shows "\<exists>h'. list_pop_front (Some l) h = Some (d, h') \<and> avail h' = avail h \<and> list_cells h' l xs
    \<and> beside h h' l ((a, d) # xs)"
proof -
  have sz: "size (the (lists h l)) \<noteq> 0"
    using assms list_size_0 [of "(a, d) # xs"] by (auto simp: list_cells_def)
  show ?thesis
  proof (cases xs)
    case Nil
    with assms sz show ?thesis
      by (auto simp: list_pop_front_def list_cells_def list_upd_def lupd_def lrd_def lfree_def beside_def)
  next
    case (Cons x ys)
    then obtain b e where x: "xs = (b, e) # ys" by (cases x) auto
    then have "last_ptr (Some b) ys \<noteq> Some a"
      using assms by (auto simp: list_cells_def last_ptr_def)
    with assms sz show ?thesis
      by (auto simp: list_pop_front_def list_cells_def list_upd_def lupd_def lrd_def lfree_def
        beside_def x last_ptr_def)
  qed
qed

lemma list_pop_empty: "list_cells h l [] \<Longrightarrow> list_pop_front (Some l) h = Some (None, h)"
  by (simp add: list_pop_front_def list_cells_def)

text \<open>\<open>list_remove\<close> takes out the first cell with the given data.\<close>

lemma remove_from_skip:
  assumes "chain (lnodes h) p xs q" and "data \<notin> snd ` set xs" 
  shows "remove_from (length xs + k) l data (first_ptr xs q) h = remove_from k l data q h"
  using assms
proof (induction xs arbitrary: p)
  case (Cons x xs)
  obtain a d where x: "x = (a, d)" by (cases x)
  from Cons.prems show ?case by (auto simp: x lrd_def Cons.IH)
qed simp

lemma list_cells_remove:
  assumes "list_cells h l (xs @ (a, data) # ys)" and "data \<notin> snd ` set xs" and "length xs < k"
  shows "\<exists>h'. list_remove k (Some l) data h = Some (True, h') \<and> avail h' = avail h
    \<and> list_cells h' l (xs @ ys) \<and> beside h h' l (xs @ (a, data) # ys)"
proof -
  have sz: "size (the (lists h l)) \<noteq> 0"
    using assms(1) list_size_0 [of "xs @ (a, data) # ys"] by (auto simp: list_cells_def)
  obtain j where k: "k = length xs + Suc j" using assms(3) less_iff_Suc_add by auto
  have ch: "chain (lnodes h) None xs (Some a)"
    and na: "lnodes h a = Some \<lparr>next_ptr = first_ptr ys None, prev = last_ptr None xs, node_data = data\<rparr>"
    and cy: "chain (lnodes h) (Some a) ys None"
    using assms(1) by (auto simp: list_cells_def chain_append)
  have "list_remove k (Some l) data h = remove_from (length xs + Suc j) l data (first_ptr xs (Some a)) h"
    using assms(1) sz by (auto simp: list_remove_def list_cells_def k)
  also have "\<dots> = remove_from (Suc j) l data (Some a) h"
    by (rule remove_from_skip [OF ch assms(2)])
  also have "\<exists>h'. \<dots> = Some (True, h') \<and> avail h' = avail h \<and> list_cells h' l (xs @ ys)
      \<and> beside h h' l (xs @ (a, data) # ys)"
  proof (cases xs rule: rev_cases)
    case Nil
    then show ?thesis
    proof (cases ys)
      case Nil
      with \<open>xs = []\<close> assms(1) na show ?thesis
        by (auto simp: list_cells_def list_upd_def lupd_def lrd_def lfree_def beside_def)
    next
      case (Cons y zs)
      then obtain b e where y: "ys = (b, e) # zs" by (cases y) auto
      with \<open>xs = []\<close> assms(1) na have "last_ptr (Some b) zs \<noteq> Some a"
        by (auto simp: list_cells_def last_ptr_def)
      with \<open>xs = []\<close> assms(1) na show ?thesis
        by (auto simp: list_cells_def list_upd_def lupd_def lrd_def lfree_def beside_def y last_ptr_def)
    qed
  next
    case (snoc us u)
    then obtain c f where u: "xs = us @ [(c, f)]" by (cases u) auto
    have hd: "first_ptr us (Some c) \<noteq> Some a"
      using assms(1) u by (cases us) (auto simp: list_cells_def)
    show ?thesis
    proof (cases ys)
      case Nil
      with assms(1) na hd show ?thesis
        by (auto simp: list_cells_def list_upd_def lupd_def lrd_def lfree_def beside_def u chain_append)
    next
      case (Cons y zs)
      then obtain b e where y: "ys = (b, e) # zs" by (cases y) auto
      with assms(1) have "last_ptr (Some b) zs \<noteq> Some a"
        by (auto simp: list_cells_def last_ptr_def)
      with assms(1) na hd show ?thesis
        by (auto simp: list_cells_def list_upd_def lupd_def lrd_def lfree_def beside_def u y chain_append)
    qed
  qed
  finally show ?thesis .
qed

text \<open>\<open>list_get\<close> below \<open>2 ^ 32\<close> elements.\<close>

lemma get_loop_ok:
  assumes "chain (lnodes h) p xs q" and "j + n < 2 ^ 32" and "n < length xs" and "n < k"
  shows "get_loop k (of_nat j) (of_nat (j + n)) (first_ptr xs q) h = Some (Some (fst (xs ! n)))"
  using assms
proof (induction n arbitrary: k j p xs)
  case 0
  then obtain a d ys where xs: "xs = (a, d) # ys" by (cases xs) auto
  from 0 obtain m where k: "k = Suc m" by (cases k) auto
  have "(ucast (of_nat j :: u32) :: u64) = of_nat j"
    using 0 by (simp add: word_eq_iff_unsigned unsigned_ucast_eq take_bit_nat_eq_self unsigned_of_nat)
  then show ?case by (simp add: xs k)
next
  case (Suc n)
  then obtain a d ys where xs: "xs = (a, d) # ys" by (cases xs) auto
  from Suc.prems obtain m where k: "k = Suc m" by (cases k) auto
  have u: "unat (ucast (of_nat j :: u32) :: u64) = j"
    using Suc.prems by (simp add: unsigned_ucast_eq unsigned_of_nat take_bit_nat_eq_self)
  have v: "unat (of_nat (j + Suc n) :: u64) = j + Suc n" using Suc.prems by (intro unat_of_nat_u64) simp
  have "(ucast (of_nat j :: u32) :: u64) < of_nat (j + Suc n)"
    unfolding word_less_nat_alt u v by simp
  then have "get_loop k (of_nat j) (of_nat (j + Suc n)) (first_ptr xs q) h
      = get_loop m (of_nat (Suc j)) (of_nat (Suc j + n)) (first_ptr ys q) h"
    using Suc.prems(1) by (simp add: xs k lrd_def add.commute)
  also have "\<dots> = Some (Some (fst (ys ! n)))"
    using Suc.prems by (intro Suc.IH) (auto simp: xs k)
  finally show ?case by (simp add: xs)
qed

lemma chain_nth:
  "chain m p xs q \<Longrightarrow> n < length xs \<Longrightarrow> \<exists>a b. m (fst (xs ! n)) = Some \<lparr>next_ptr = a, prev = b, node_data = snd (xs ! n)\<rparr>"
  by (induction xs arbitrary: p n) (auto simp: nth_Cons split: nat.splits)

lemma list_cells_get:
  assumes "list_cells h l xs" and "n < length xs" and "n < 2 ^ 32" and "n < k"
  shows "list_get k (Some l) (of_nat n) h = Some (snd (xs ! n))"
proof -
  have L: "lists h l = Some \<lparr>head = first_ptr xs None, tail = last_ptr None xs, size = of_nat (length xs)\<rparr>"
    and len: "length xs < 2 ^ 64" and ch: "chain (lnodes h) None xs None"
    using assms(1) by (auto simp: list_cells_def)
  have "get_loop k 0 (of_nat n) (first_ptr xs None) h = Some (Some (fst (xs ! n)))"
    using get_loop_ok [OF ch, of 0 n k] assms by simp
  moreover have "\<not> (of_nat (length xs) :: u64) \<le> of_nat n"
    using len assms(2) by (simp add: word_le_nat_alt unat_of_nat_u64)
  ultimately show ?thesis
    using L len assms(2) chain_nth [OF ch assms(2)] list_size_0 [OF len]
    by (auto simp: list_get_def lrd_def)
qed

lemma list_cells_get_out:
  "list_cells h l xs \<Longrightarrow> length xs \<le> n \<Longrightarrow> n < 2 ^ 64 \<Longrightarrow> list_get k (Some l) (of_nat n) h = Some None"
  by (auto simp: list_get_def list_cells_def word_le_nat_alt unat_of_nat_u64)

text \<open>Freeing the list calls the destructor on every element in order and releases all cells.\<close>

lemma free_nodes_ok:
  assumes "chain (lnodes h) p xs None" and "distinct (map fst xs)" and "length xs < k"
  shows "\<exists>h'. free_nodes k None (first_ptr xs None) h = Some h' \<and> avail h' = avail h
    \<and> lists h' = lists h \<and> lbrk h' = lbrk h
    \<and> lnodes h' = (\<lambda>a. if a \<in> fst ` set xs then None else lnodes h a)"
  using assms
proof (induction xs arbitrary: p h k)
  case Nil
  then show ?case by (cases k) auto
next
  case (Cons x xs)
  obtain a d where x: "x = (a, d)" by (cases x)
  from Cons.prems obtain m where k: "k = Suc m" "length xs < m" by (cases k) auto
  define h1 where "h1 = h\<lparr>lnodes := (lnodes h)(a := None)\<rparr>"
  have "chain (lnodes h1) (Some a) xs None" using Cons.prems by (auto simp: x h1_def)
  then obtain h' where h': "free_nodes m None (first_ptr xs None) h1 = Some h'"
    "avail h' = avail h1" "lists h' = lists h1" "lbrk h' = lbrk h1"
    "lnodes h' = (\<lambda>a. if a \<in> fst ` set xs then None else lnodes h1 a)"
    using Cons.IH [of h1 "Some a" m] Cons.prems k by auto
  moreover have "free_nodes k None (first_ptr (x # xs) None) h = free_nodes m None (first_ptr xs None) h1"
    using Cons.prems(1) by (simp add: x k lrd_def lupd_def lfree_def h1_def)
  ultimately show ?case by (auto simp: x h1_def fun_eq_iff)
qed

lemma list_cells_free:
  assumes "list_cells h l xs" and "length xs < k"
  shows "\<exists>h'. list_free k (Some l) h = Some h' \<and> lists h' l = None
    \<and> (\<forall>a\<in>fst ` set xs. lnodes h' a = None) \<and> beside h h' l xs"
proof -
  have L: "lists h l = Some \<lparr>head = first_ptr xs None, tail = last_ptr None xs, size = of_nat (length xs)\<rparr>"
    and ch: "chain (lnodes h) None xs None" and di: "distinct (map fst xs)"
    using assms(1) by (auto simp: list_cells_def)
  from free_nodes_ok [OF ch di assms(2)] L show ?thesis
    by (auto simp: list_free_def list_free_with_data_free_func_def list_upd_def beside_def)
qed

lemma list_cells_remove1:
  assumes "list_cells h l xs" and "length xs < k"
  shows "\<exists>h' ys. list_remove k (Some l) d h = Some (d \<in> snd ` set xs, h') \<and> avail h' = avail h
    \<and> list_cells h' l ys \<and> map snd ys = remove1 d (map snd xs) \<and> set ys \<subseteq> set xs \<and> beside h h' l xs"
proof (cases "d \<in> snd ` set xs")
  case True
  then have "\<exists>x\<in>set xs. snd x = d" by auto
  then obtain us x vs where xs: "xs = us @ x # vs" "snd x = d" "\<forall>u\<in>set us. snd u \<noteq> d"
    using split_list_first_prop [of xs "\<lambda>x. snd x = d"] by metis
  obtain a where x: "x = (a, d)" using xs(2) by (cases x) auto
  have d: "d \<notin> snd ` set us" using xs(3) by auto
  then have "remove1 d (map snd xs) = map snd (us @ vs)" by (auto simp: xs(1) x remove1_append)
  moreover from list_cells_remove [of h l us a d vs k] d assms obtain h' where
    "list_remove k (Some l) d h = Some (True, h')" "avail h' = avail h"
    "list_cells h' l (us @ vs)" "beside h h' l xs" by (auto simp: xs(1) x)
  ultimately show ?thesis using True by (intro exI [of _ h'] exI [of _ "us @ vs"]) (auto simp: xs(1))
next
  case False
  have ch: "chain (lnodes h) None xs None" using assms(1) by (simp add: list_cells_def)
  obtain j where k: "k = length xs + Suc j" using assms(2) less_iff_Suc_add by auto
  have "remove_from k l d (first_ptr xs None) h = Some (False, h)"
    using remove_from_skip [OF ch False, of "Suc j" l] by (simp add: k)
  then have "list_remove k (Some l) d h = Some (False, h)"
    using assms(1) by (auto simp: list_remove_def list_cells_def)
  moreover have "remove1 d (map snd xs) = map snd xs" using False by (intro remove1_idem) auto
  moreover have "beside h h l xs" by (simp add: beside_def)
  ultimately show ?thesis using assms(1) False by (intro exI [of _ h] exI [of _ xs]) auto
qed

section \<open>The interface of the clients\<close>

text \<open>
  The clients append at one end and take from the other; they skip what they have already
  tried by taking it out.  The laws are the ones that list.c promises in its header.
\<close>

locale fifo =
  fixes holds_seq :: "'s \<Rightarrow> 'l \<Rightarrow> 'a list \<Rightarrow> bool"
    and ready :: "'s \<Rightarrow> bool"
    and cap :: nat
    and push :: "'l \<Rightarrow> 'a \<Rightarrow> 's \<Rightarrow> ('r \<times> 's) option"
    and pop :: "'l \<Rightarrow> 's \<Rightarrow> ('a \<times> 's) option"
    and nothing :: 'a
  assumes push_law: "holds_seq s l ds \<Longrightarrow> ready s \<Longrightarrow> Suc (length ds) < cap
      \<Longrightarrow> \<exists>r s'. push l d s = Some (r, s') \<and> ready s' \<and> holds_seq s' l (ds @ [d])"
    and pop_law: "holds_seq s l (d # ds) \<Longrightarrow> ready s
      \<Longrightarrow> \<exists>s'. pop l s = Some (d, s') \<and> ready s' \<and> holds_seq s' l ds"
    and pop_nil_law: "holds_seq s l [] \<Longrightarrow> pop l s = Some (nothing, s)"
begin

lemma push_all:
  assumes "holds_seq s l ds" and "ready s" and "length ds + length es < cap"
  shows "\<exists>s'. foldM (\<lambda>d s. map_option snd (push l d s)) es s = Some s' \<and> ready s'
    \<and> holds_seq s' l (ds @ es)"
  using assms
proof (induction es arbitrary: s ds)
  case (Cons e es)
  from Cons.prems push_law [of s l ds e] obtain r s1 where
    "push l e s = Some (r, s1)" "ready s1" "holds_seq s1 l (ds @ [e])" by auto
  with Cons.IH [of s1 "ds @ [e]"] Cons.prems show ?case by auto
qed auto

text \<open>Taking \<open>n\<close> elements out yields the first \<open>n\<close> of them, then NULL pointers.\<close>

lemma pop_all:
  assumes "holds_seq s l ds" and "ready s"
  shows "\<exists>s'. foldM (\<lambda>_ (out, s). map_option (\<lambda>(d, s). (out @ [d], s)) (pop l s)) [0..<n] (out, s)
      = Some (out @ take n ds @ replicate (n - length ds) nothing, s')
    \<and> ready s' \<and> holds_seq s' l (drop n ds)"
proof (induction n)
  case 0
  with assms show ?case by auto
next
  case (Suc n)
  then obtain s1 where 1: "foldM (\<lambda>_ (out, s). map_option (\<lambda>(d, s). (out @ [d], s)) (pop l s)) [0..<n] (out, s)
      = Some (out @ take n ds @ replicate (n - length ds) nothing, s1)"
    "ready s1" "holds_seq s1 l (drop n ds)" by blast
  show ?case
  proof (cases "n < length ds")
    case True
    then have "drop n ds = ds ! n # drop (Suc n) ds" by (simp add: Cons_nth_drop_Suc)
    with 1 pop_law [of s1 l "ds ! n" "drop (Suc n) ds"] obtain s2 where
      "pop l s1 = Some (ds ! n, s2)" "ready s2" "holds_seq s2 l (drop (Suc n) ds)" by auto
    with True 1 show ?thesis by (simp add: foldM_append take_Suc_conv_app_nth)
  next
    case False
    with 1 pop_nil_law [of s1 l] have "pop l s1 = Some (nothing, s1)" by simp
    with False 1 show ?thesis by (simp add: foldM_append Suc_diff_le replicate_append_same)
  qed
qed

lemma skip_all:
  assumes "holds_seq s l ds" and "ready s"
  shows "\<exists>s'. foldM (\<lambda>_ s. map_option snd (pop l s)) [0..<n] s = Some s' \<and> ready s'
    \<and> holds_seq s' l (drop n ds)"
proof (induction n)
  case 0
  with assms show ?case by auto
next
  case (Suc n)
  then obtain s1 where 1: "foldM (\<lambda>_ s. map_option snd (pop l s)) [0..<n] s = Some s1"
    "ready s1" "holds_seq s1 l (drop n ds)" by blast
  show ?case
  proof (cases "drop n ds")
    case Nil
    with 1 pop_nil_law [of s1 l] show ?thesis by (auto simp: foldM_append)
  next
    case (Cons d es)
    with 1 pop_law [of s1 l d es] obtain s2 where
      "pop l s1 = Some (d, s2)" "ready s2" "holds_seq s2 l es" by auto
    moreover from Cons have "drop (Suc n) ds = es" by (metis drop_Suc drop_tl list.sel(3))
    ultimately show ?thesis using 1 by (auto simp: foldM_append)
  qed
qed

end

lemma list_at_append:
  "list_at h list ds \<Longrightarrow> mem_ok h \<Longrightarrow> Suc (length ds) < 2 ^ 64
    \<Longrightarrow> \<exists>r h'. list_append list d h = Some (r, h') \<and> mem_ok h' \<and> list_at h' list (ds @ [d])"
  using list_cells_append by (fastforce simp: list_at_def)

lemma list_at_pop:
  "list_at h list (d # ds) \<Longrightarrow> \<exists>h'. list_pop_front list h = Some (d, h') \<and> avail h' = avail h \<and> list_at h' list ds"
  using list_cells_pop by (fastforce simp: list_at_def map_eq_Cons_conv)

lemma list_at_pop_empty: "list_at h list [] \<Longrightarrow> list_pop_front list h = Some (None, h)"
  by (auto simp: list_at_def list_pop_empty)

interpretation ll: fifo list_at "\<lambda>h. mem_ok h" "2 ^ 64" list_append list_pop_front None
proof unfold_locales
  show "\<exists>r s'. list_append l d s = Some (r, s') \<and> mem_ok s' \<and> list_at s' l (ds @ [d])"
    if "list_at s l ds" and "mem_ok s" and "Suc (length ds) < 2 ^ 64" for s l ds d
    using that by (rule list_at_append)
  show "\<exists>s'. list_pop_front l s = Some (d, s') \<and> mem_ok s' \<and> list_at s' l ds"
    if "list_at s l (d # ds)" and "mem_ok s" for s l d ds
    using list_at_pop [OF that(1)] that(2) by auto
  show "list_pop_front l s = Some (None, s)" if "list_at s l []" for s l
    using that by (rule list_at_pop_empty)
qed

end
