(* ===== verification/Hash_Map.thy ===== *)
theory Hash_Map
  imports Helpers "HOL-Library.Multiset"
begin

text \<open>
  The hash map of Grammar-Mutator/third\_party/rxi\_map/map.c: an array of buckets, each a
  singly linked chain of nodes that only the map points to, so a chain is a list of nodes.
  Keys are C strings (their bytes without the final NUL).  The locale \<open>finite_map\<close> is the
  interface of the clients: after every operation \<open>map_get\<close> reads a finite map, also when
  an allocation failed half way.
\<close>

section \<open>State\<close>

type_synonym key = "u8 list"

record 'v map_node =
  hash :: u32
  mkey :: key
  mvalue :: 'v

record 'v map_base_t =
  buckets :: "'v map_node list list option"
  nbuckets :: u32
  nnodes :: u32

definition map_init :: "'v map_base_t" where
  "map_init = \<lparr>buckets = None, nbuckets = 0, nnodes = 0\<rparr>"

section \<open>The operations\<close>

text \<open>\<open>char\<close> is signed: a byte is sign-extended before the exclusive or.\<close>

definition map_hash :: "key \<Rightarrow> u32" where
  "map_hash str = fold (\<lambda>c hash. (push_bit 5 hash + hash) XOR scast c) str 5381"

definition map_newnode :: "key \<Rightarrow> 'v \<Rightarrow> 'z alloc_scheme \<Rightarrow> 'v map_node option \<times> 'z alloc_scheme" where
  "map_newnode key value h = (case try_alloc h of
      (False, h) \<Rightarrow> (None, h)
    | (True, h) \<Rightarrow> (Some \<lparr>hash = map_hash key, mkey = key, mvalue = value\<rparr>, h))"

definition map_bucketidx :: "'v map_base_t \<Rightarrow> u32 \<Rightarrow> nat" where
  "map_bucketidx m hs = unat (hs AND (nbuckets m - 1))"

definition map_addnode :: "'v map_base_t \<Rightarrow> 'v map_node \<Rightarrow> 'v map_base_t option" where
  "map_addnode m node = do {
     let n = map_bucketidx m (hash node);
     bs \<leftarrow> buckets m;
     guard (n < length bs);
     Some (m\<lparr>buckets := Some (bs[n := node # bs ! n])\<rparr>)
   }"

definition map_resize ::
    "'v map_base_t \<Rightarrow> u32 \<Rightarrow> 'z alloc_scheme \<Rightarrow> (bool \<times> 'v map_base_t \<times> 'z alloc_scheme) option" where
  "map_resize m n h = do {
     let nodes = (case buckets m of None \<Rightarrow> []
       | Some bs \<Rightarrow> fold (\<lambda>bucket nodes. fold (#) bucket nodes) (rev bs) []);
     let (ok, h) = try_alloc h in do {
     let m = (if ok then m\<lparr>buckets := Some (replicate (unat n) []), nbuckets := n\<rparr> else m);
     m \<leftarrow> (if buckets m \<noteq> None then
             foldM (\<lambda>node m. map_addnode m node) nodes
               (m\<lparr>buckets := Some (replicate (unat (nbuckets m)) [])\<rparr>)
           else Some m);
     Some (ok, m, h)
   }}"

text \<open>The reference to the link that points to the node: bucket and position in its chain.\<close>

primrec find_ref :: "u32 \<Rightarrow> key \<Rightarrow> 'v map_node list \<Rightarrow> nat option" where
  "find_ref hs key [] = None"
| "find_ref hs key (node # b) =
     (if hash node = hs \<and> mkey node = key then Some 0 else map_option Suc (find_ref hs key b))"

definition map_getref :: "'v map_base_t \<Rightarrow> key \<Rightarrow> (nat \<times> nat) option option" where
  "map_getref m key = (let hs = map_hash key in
     if nbuckets m > 0 then do {
       bs \<leftarrow> buckets m;
       guard (map_bucketidx m hs < length bs);
       Some (map_option (Pair (map_bucketidx m hs)) (find_ref hs key (bs ! map_bucketidx m hs)))
     } else Some None)"

definition map_deinit :: "'v map_base_t \<Rightarrow> 'v map_base_t" where
  "map_deinit m = \<lparr>buckets = None, nbuckets = 0, nnodes = 0\<rparr>"

definition map_get :: "'v map_base_t \<Rightarrow> key \<Rightarrow> 'v option option" where
  "map_get m key = do {
     r \<leftarrow> map_getref m key;
     case r of None \<Rightarrow> Some None
     | Some (n, j) \<Rightarrow> do { bs \<leftarrow> buckets m; Some (Some (mvalue (bs ! n ! j))) }
   }"

text \<open>The result says whether the C function returns 0 (or -1).\<close>

definition map_set ::
    "'v map_base_t \<Rightarrow> key \<Rightarrow> 'v \<Rightarrow> 'z alloc_scheme \<Rightarrow> (bool \<times> 'v map_base_t \<times> 'z alloc_scheme) option" where
  "map_set m key value h = do {
     r \<leftarrow> map_getref m key;
     case r of Some (n, j) \<Rightarrow> do {
         bs \<leftarrow> buckets m;
         Some (True, m\<lparr>buckets := Some (bs[n := (bs ! n)[j := (bs ! n ! j)\<lparr>mvalue := value\<rparr>]])\<rparr>, h)
       }
     | None \<Rightarrow> (case map_newnode key value h of
         (None, h) \<Rightarrow> Some (False, m, h)
       | (Some node, h) \<Rightarrow> do {
           (ok, m, h) \<leftarrow> (if nnodes m \<ge> nbuckets m
             then map_resize m (if nbuckets m > 0 then push_bit 1 (nbuckets m) else 1) h
             else Some (True, m, h));
           if \<not> ok then Some (False, m, h)
           else do {
             m \<leftarrow> map_addnode m node;
             Some (True, m\<lparr>nnodes := nnodes m + 1\<rparr>, h)
           }})
   }"

definition map_remove :: "'v map_base_t \<Rightarrow> key \<Rightarrow> 'v map_base_t option" where
  "map_remove m key = do {
     r \<leftarrow> map_getref m key;
     case r of None \<Rightarrow> Some m
     | Some (n, j) \<Rightarrow> do {
         bs \<leftarrow> buckets m;
         Some (m\<lparr>buckets := Some (bs[n := take j (bs ! n) @ drop (Suc j) (bs ! n)]),
                 nnodes := nnodes m - 1\<rparr>)
       }}"

text \<open>
  The iterator: the index of the bucket, and the rest of its chain from the current node on
  (empty for a NULL node).
\<close>

record 'v map_iter_t =
  bucketidx :: u32
  iter_node :: "'v map_node list"

definition map_iter :: "'v map_iter_t" where
  "map_iter = \<lparr>bucketidx = -1, iter_node = []\<rparr>"

primrec next_bucket :: "nat \<Rightarrow> 'v map_base_t \<Rightarrow> u32 \<Rightarrow> 'v map_iter_t option" where
  "next_bucket 0 m i = None"
| "next_bucket (Suc k) m i = (let i = i + 1 in
     if i \<ge> nbuckets m then Some \<lparr>bucketidx = i, iter_node = []\<rparr>
     else do {
       bs \<leftarrow> buckets m;
       guard (unat i < length bs);
       if bs ! unat i = [] then next_bucket k m i
       else Some \<lparr>bucketidx = i, iter_node = bs ! unat i\<rparr>
     })"

definition map_next :: "'v map_base_t \<Rightarrow> 'v map_iter_t \<Rightarrow> (key option \<times> 'v map_iter_t) option" where
  "map_next m iter = do {
     iter \<leftarrow> (if tl (iter_node iter) \<noteq> [] then Some (iter\<lparr>iter_node := tl (iter_node iter)\<rparr>)
              else next_bucket (Suc (unat (nbuckets m))) m (bucketidx iter));
     Some (case iter_node iter of [] \<Rightarrow> None | node # _ \<Rightarrow> Some (mkey node), iter)
   }"

section \<open>The finite map behind the buckets\<close>

definition entries :: "'v map_base_t \<Rightarrow> 'v map_node list" where
  "entries m = (case buckets m of None \<Rightarrow> [] | Some bs \<Rightarrow> concat bs)"

definition assoc :: "'v map_base_t \<Rightarrow> key \<Rightarrow> 'v option" where
  "assoc m = map_of (map (\<lambda>n. (mkey n, mvalue n)) (entries m))"

definition bucket_ok :: "'v map_base_t \<Rightarrow> nat \<Rightarrow> 'v map_node list \<Rightarrow> bool" where
  "bucket_ok m i b \<longleftrightarrow> (\<forall>n\<in>set b. hash n = map_hash (mkey n) \<and> map_bucketidx m (hash n) = i)"

definition buckets_ok :: "'v map_base_t \<Rightarrow> bool" where
  "buckets_ok m \<longleftrightarrow> (case buckets m of None \<Rightarrow> nbuckets m = 0
     | Some bs \<Rightarrow> (\<exists>k<32. nbuckets m = 2 ^ k) \<and> length bs = unat (nbuckets m)
         \<and> (\<forall>i<length bs. bucket_ok m i (bs ! i)) \<and> distinct (map mkey (concat bs)))"

definition map_ok :: "'v map_base_t \<Rightarrow> bool" where
  "map_ok m \<longleftrightarrow> buckets_ok m \<and> unat (nnodes m) = length (entries m)"

lemma two_power_pos: "k < 32 \<Longrightarrow> 0 < (2 :: u32) ^ k"
proof -
  assume "k < 32"
  then have "(2 :: u32) ^ k \<noteq> 0" by (simp add: exp_eq_zero_iff)
  then show "(0 :: u32) < 2 ^ k" by (rule word_neq_0_conv [THEN iffD1])
qed

lemma unat_power_u32: "k < 32 \<Longrightarrow> unat ((2 :: u32) ^ k) = 2 ^ k"
  using unat_of_nat_u32 [of "2 ^ k"] power_strict_increasing [of k 32 "2::nat"] by simp

lemma bucketidx_less:
  assumes "nbuckets m = 2 ^ k" and "k < 32"
  shows "map_bucketidx m hs < unat (nbuckets m)"
proof -
  have "(2::u32) ^ k - 1 = mask k" by (simp add: mask_eq_exp_minus_1)
  then have "hs AND (nbuckets m - 1) = take_bit k hs"
    using assms(1) by (simp add: take_bit_eq_mask)
  then show ?thesis
    using assms unat_power_u32 [OF assms(2)]
    by (simp add: map_bucketidx_def unsigned_take_bit_eq)
qed

lemma find_ref_Some:
  "find_ref hs key b = Some j \<Longrightarrow> j < length b \<and> hash (b ! j) = hs \<and> mkey (b ! j) = key"
  by (induction b arbitrary: j) (auto split: if_splits)

lemma find_ref_None:
  "find_ref hs key b = None \<longleftrightarrow> (\<forall>n\<in>set b. \<not> (hash n = hs \<and> mkey n = key))"
  by (induction b) auto

lemma entry_bucket:
  assumes "buckets_ok m" and "buckets m = Some bs" and "n \<in> set (concat bs)"
  shows "hash n = map_hash (mkey n) \<and> n \<in> set (bs ! map_bucketidx m (hash n))
    \<and> map_bucketidx m (hash n) < length bs"
proof -
  from assms(3) obtain b where "b \<in> set bs" "n \<in> set b" by auto
  then obtain i where i: "i < length bs" "n \<in> set (bs ! i)" by (metis in_set_conv_nth)
  then have "bucket_ok m i (bs ! i)" using assms(1,2) by (simp add: buckets_ok_def)
  with i show ?thesis by (auto simp: bucket_ok_def)
qed

text \<open>\<open>map_getref\<close> finds the node with the key, in its bucket, exactly when there is one.\<close>

lemma map_getref_ok:
  assumes "buckets_ok m"
  shows "(\<exists>bs i j. buckets m = Some bs \<and> map_getref m k = Some (Some (i, j)) \<and> i < length bs
      \<and> j < length (bs ! i) \<and> mkey (bs ! i ! j) = k)
    \<or> (map_getref m k = Some None \<and> k \<notin> mkey ` set (entries m))"
proof (cases "buckets m")
  case None
  with assms show ?thesis by (auto simp: map_getref_def buckets_ok_def entries_def)
next
  case (Some bs)
  with assms obtain e where e: "nbuckets m = 2 ^ e" "e < 32" and len: "length bs = unat (nbuckets m)"
    by (auto simp: buckets_ok_def)
  define i where "i = map_bucketidx m (map_hash k)"
  have i: "i < length bs" using bucketidx_less [OF e] by (simp add: i_def len)
  have pos: "nbuckets m > 0" using e two_power_pos by simp
  show ?thesis
  proof (cases "find_ref (map_hash k) k (bs ! i)")
    case None
    have "k \<notin> mkey ` set (entries m)"
    proof
      assume "k \<in> mkey ` set (entries m)"
      then obtain n where n: "n \<in> set (concat bs)" "mkey n = k" by (auto simp: entries_def Some)
      with entry_bucket [OF assms Some n(1)] None show False by (auto simp: i_def find_ref_None)
    qed
    with None pos i show ?thesis by (simp add: map_getref_def Let_def Some flip: i_def)
  next
    case (Some j)
    with find_ref_Some [OF this] i pos \<open>buckets m = Some bs\<close> show ?thesis
      by (auto simp: map_getref_def Let_def simp flip: i_def)
  qed
qed

lemma assoc_eq_Some:
  assumes "buckets_ok m"
  shows "assoc m k = Some v \<longleftrightarrow> (\<exists>n\<in>set (entries m). mkey n = k \<and> mvalue n = v)"
proof -
  have "distinct (map fst (map (\<lambda>n. (mkey n, mvalue n)) (entries m)))"
    using assms by (auto simp: buckets_ok_def entries_def comp_def split: option.splits)
  then show ?thesis by (auto simp: assoc_def)
qed

lemma assoc_eq_None: "assoc m k = None \<longleftrightarrow> k \<notin> mkey ` set (entries m)"
  by (force simp: assoc_def map_of_eq_None_iff)

lemma nth_concat_mem: "i < length bs \<Longrightarrow> j < length (bs ! i) \<Longrightarrow> bs ! i ! j \<in> set (concat bs)"
  by (auto simp: in_set_conv_nth) (metis nth_mem)

lemma map_get_assoc:
  assumes "buckets_ok m"
  shows "map_get m k = Some (assoc m k)"
  using map_getref_ok [OF assms, of k]
proof (elim disjE exE conjE)
  fix bs i j
  assume *: "buckets m = Some bs" "map_getref m k = Some (Some (i, j))" "i < length bs"
    "j < length (bs ! i)" "mkey (bs ! i ! j) = k"
  then have "assoc m k = Some (mvalue (bs ! i ! j))"
    using nth_concat_mem [OF *(3,4)] by (auto simp: assoc_eq_Some [OF assms] entries_def)
  with * show ?thesis by (simp add: map_get_def)
next
  assume "map_getref m k = Some None" "k \<notin> mkey ` set (entries m)"
  then show ?thesis by (simp add: map_get_def assoc_eq_None [THEN iffD2])
qed

section \<open>Adding nodes and resizing\<close>

lemma mset_concat_update:
  "i < length bs \<Longrightarrow> mset (concat (bs[i := b])) + mset (bs ! i) = mset (concat bs) + mset b"
  by (induction bs arbitrary: i) (auto split: nat.splits simp: ac_simps)

lemma map_addnode_ok:
  assumes "buckets_ok m" and "buckets m \<noteq> None" and "hash n = map_hash (mkey n)"
    and "mkey n \<notin> mkey ` set (entries m)"
  shows "\<exists>m'. map_addnode m n = Some m' \<and> buckets_ok m' \<and> mset (entries m') = add_mset n (mset (entries m))
    \<and> nnodes m' = nnodes m \<and> nbuckets m' = nbuckets m \<and> buckets m' \<noteq> None"
proof -
  obtain bs where bs: "buckets m = Some bs" using assms(2) by auto
  with assms(1) obtain e where e: "nbuckets m = 2 ^ e" "e < 32" and len: "length bs = unat (nbuckets m)"
    by (auto simp: buckets_ok_def)
  define i where "i = map_bucketidx m (hash n)"
  have i: "i < length bs" using bucketidx_less [OF e] by (simp add: i_def len)
  define bs' where "bs' = bs[i := n # bs ! i]"
  define m' where "m' = m\<lparr>buckets := Some bs'\<rparr>"
  have ms: "mset (concat bs') = add_mset n (mset (concat bs))"
    using mset_concat_update [OF i, of "n # bs ! i"] by (simp add: bs'_def)
  then have "mset (map mkey (concat bs')) = mset (mkey n # map mkey (concat bs))" by simp
  then have "distinct (map mkey (concat bs')) = distinct (mkey n # map mkey (concat bs))"
    by (rule mset_eq_imp_distinct_iff)
  then have "distinct (map mkey (concat bs'))"
    using assms(1,4) bs by (auto simp: buckets_ok_def entries_def)
  moreover have "bucket_ok m' j (bs' ! j)" if "j < length bs'" for j
  proof -
    have "bucket_ok m j (bs ! j)" using that assms(1) bs by (simp add: bs'_def buckets_ok_def)
    moreover have "map_bucketidx m' hs = map_bucketidx m hs" for hs
      by (simp add: map_bucketidx_def m'_def)
    ultimately show ?thesis
      using that assms(3) i by (cases "j = i") (auto simp: bs'_def bucket_ok_def i_def)
  qed
  ultimately have "buckets_ok m'"
    using e len by (auto simp: buckets_ok_def m'_def bs'_def)
  moreover have "map_addnode m n = Some m'"
    using i by (simp add: map_addnode_def bs m'_def bs'_def i_def Let_def)
  ultimately show ?thesis using ms bs by (auto simp: m'_def entries_def)
qed

lemma add_nodes_ok:
  assumes "buckets_ok m" and "buckets m \<noteq> None" and "\<forall>n\<in>set ns. hash n = map_hash (mkey n)"
    and "distinct (map mkey ns)" and "mkey ` set ns \<inter> mkey ` set (entries m) = {}"
  shows "\<exists>m'. foldM (\<lambda>n m. map_addnode m n) ns m = Some m' \<and> buckets_ok m'
    \<and> mset (entries m') = mset ns + mset (entries m)
    \<and> nnodes m' = nnodes m \<and> nbuckets m' = nbuckets m \<and> buckets m' \<noteq> None"
  using assms
proof (induction ns arbitrary: m)
  case (Cons n ns)
  from map_addnode_ok [of m n] Cons.prems obtain m1 where m1: "map_addnode m n = Some m1" "buckets_ok m1"
    "mset (entries m1) = add_mset n (mset (entries m))" "nnodes m1 = nnodes m" "nbuckets m1 = nbuckets m"
    "buckets m1 \<noteq> None" by auto
  have "set (entries m1) = insert n (set (entries m))"
    using m1(3) by (metis set_mset_add_mset_insert set_mset_mset)
  then have "mkey ` set ns \<inter> mkey ` set (entries m1) = {}" using Cons.prems by auto
  with Cons.IH [of m1] Cons.prems m1 show ?case by auto
qed auto

lemma mset_collect: "mset (fold (\<lambda>b ns. fold (#) b ns) bs ns) = mset (concat bs) + mset ns"
proof (induction bs arbitrary: ns)
  case (Cons b bs)
  have "mset (fold (#) b ns) = mset b + mset ns"
    by (induction b arbitrary: ns) auto
  with Cons show ?case by simp
qed simp

lemma mset_concat_rev [simp]: "mset (concat (rev bs)) = mset (concat bs)"
  by (induction bs) auto

lemma entries_empty: "entries (m\<lparr>buckets := Some (replicate n []), nbuckets := k\<rparr>) = []"
  by (simp add: entries_def)

text \<open>Resizing keeps all nodes, also when \<open>realloc\<close> fails: then they are put back.\<close>

lemma map_resize_ok:
  assumes "buckets_ok m" and "n = 2 ^ e" and "e < 32" and "try_alloc h = (ok, h')"
  shows "\<exists>m'. map_resize m n h = Some (ok, m', h') \<and> buckets_ok m' \<and> mset (entries m') = mset (entries m)
    \<and> nnodes m' = nnodes m \<and> nbuckets m' = (if ok then n else nbuckets m) \<and> (ok \<longrightarrow> buckets m' \<noteq> None)"
proof -
  define ns where "ns = (case buckets m of None \<Rightarrow> []
       | Some bs \<Rightarrow> fold (\<lambda>b ns. fold (#) b ns) (rev bs) [])"
  have ns: "mset ns = mset (entries m)"
    by (auto simp: ns_def entries_def mset_collect split: option.splits)
  then have hs: "\<forall>n\<in>set ns. hash n = map_hash (mkey n)"
    using assms(1) entry_bucket [OF assms(1)]
    by (auto simp: entries_def split: option.splits dest!: mset_eq_setD)
  have "mset (map mkey ns) = mset (map mkey (entries m))" using ns by simp
  then have di: "distinct (map mkey ns)"
    using assms(1) mset_eq_imp_distinct_iff [of "map mkey ns" "map mkey (entries m)"]
    by (auto simp: buckets_ok_def entries_def split: option.splits)
  define m1 where "m1 = (if ok then m\<lparr>buckets := Some (replicate (unat n) []), nbuckets := n\<rparr> else m)"
  show ?thesis
  proof (cases "buckets m1")
    case None
    then have "\<not> ok" "buckets m = None" by (auto simp: m1_def split: if_splits)
    then show ?thesis
      using assms(1,4) by (auto simp: map_resize_def Let_def)
  next
    case (Some bs1)
    define m2 where "m2 = m1\<lparr>buckets := Some (replicate (unat (nbuckets m1)) [])\<rparr>"
    have e0: "entries m2 = []" by (simp add: m2_def entries_def)
    have "\<exists>k<32. nbuckets m1 = 2 ^ k"
      using assms(1-3) Some by (auto simp: m1_def buckets_ok_def split: if_splits)
    then have "buckets_ok m2" by (auto simp: buckets_ok_def m2_def bucket_ok_def)
    then obtain m' where m': "foldM (\<lambda>n m. map_addnode m n) ns m2 = Some m'" "buckets_ok m'"
      "mset (entries m') = mset ns" "nnodes m' = nnodes m2" "nbuckets m' = nbuckets m2" "buckets m' \<noteq> None"
      using add_nodes_ok [of m2 ns] hs di e0 by (auto simp: m2_def)
    have "map_resize m n h = Some (ok, m', h')"
      using m'(1) Some by (simp add: map_resize_def Let_def assms(4) flip: ns_def m1_def m2_def)
    with m' ns show ?thesis by (auto simp: m2_def m1_def)
  qed
qed

section \<open>The laws\<close>

lemma mset_entries_assoc:
  assumes "buckets_ok m" and "buckets_ok m'" and "mset (entries m') = mset (entries m)"
  shows "assoc m' = assoc m"
proof
  fix k
  have "set (entries m') = set (entries m)" using assms(3) by (rule mset_eq_setD)
  then have "assoc m' k = Some v \<longleftrightarrow> assoc m k = Some v" for v
    by (simp add: assoc_eq_Some assms(1,2))
  then show "assoc m' k = assoc m k" by (metis option.exhaust)
qed

lemma mset_entries_add:
  assumes "buckets_ok m" and "buckets_ok m'" and "mset (entries m') = add_mset n (mset (entries m))"
    and "mkey n \<notin> mkey ` set (entries m)"
  shows "assoc m' = (assoc m)(mkey n \<mapsto> mvalue n)"
proof
  fix k
  have "set (entries m') = insert n (set (entries m))"
    using assms(3) by (metis set_mset_add_mset_insert set_mset_mset)
  then have "assoc m' k = Some v \<longleftrightarrow> ((assoc m)(mkey n \<mapsto> mvalue n)) k = Some v" for v
    using assms(4) by (auto simp: assoc_eq_Some assms(1,2)) (metis image_eqI)
  then show "assoc m' k = ((assoc m)(mkey n \<mapsto> mvalue n)) k" by (metis option.exhaust)
qed

lemma length_entries_mset: "mset (entries m') = mset (entries m) \<Longrightarrow> length (entries m') = length (entries m)"
  by (rule mset_eq_length)

lemma map_replace_ok:
  assumes "map_ok m" and "buckets m = Some bs" and "i < length bs" and "j < length (bs ! i)"
    and "mkey (bs ! i ! j) = k"
    and "m' = m\<lparr>buckets := Some (bs[i := (bs ! i)[j := (bs ! i ! j)\<lparr>mvalue := v\<rparr>]])\<rparr>"
  shows "map_ok m'" and "assoc m' = (assoc m)(k \<mapsto> v)"
proof -
  define n where "n = bs ! i ! j"
  define n' where "n' = n\<lparr>mvalue := v\<rparr>"
  define b' where "b' = (bs ! i)[j := n']"
  have m': "m' = m\<lparr>buckets := Some (bs[i := b'])\<rparr>" by (simp add: assms(6) b'_def n'_def n_def)
  have bo: "buckets_ok m" and nn: "unat (nnodes m) = length (concat bs)"
    using assms(1,2) by (auto simp: map_ok_def entries_def)
  have n: "n \<in> set (bs ! i)" "mkey n = k" using assms(4,5) by (auto simp: n_def)
  have nc: "n \<in># mset (concat bs)" using n(1) assms(3) by auto
  have "mset b' = add_mset n' (mset (bs ! i) - {#n#})"
    using assms(4) by (simp add: b'_def mset_update n_def)
  then have "mset (concat (bs[i := b'])) + mset (bs ! i)
      = mset (concat bs) + add_mset n' (mset (bs ! i) - {#n#})"
    using mset_concat_update [OF assms(3), of b'] by simp
  then have ms: "add_mset n (mset (concat (bs[i := b']))) = add_mset n' (mset (concat bs))"
    using n(1) by (metis add_mset_add_single diff_union_single_conv insert_DiffM set_mset_mset
        union_mset_add_mset_left union_mset_add_mset_right add_right_cancel)
  then have ms': "mset (concat (bs[i := b'])) = add_mset n' (mset (concat bs) - {#n#})"
    using nc by (metis add_mset_add_mset_same_iff add_mset_commute insert_DiffM)
  then have "image_mset mkey (mset (concat (bs[i := b']))) = image_mset mkey (add_mset n (mset (concat bs) - {#n#}))"
    by (simp add: n'_def)
  also have "add_mset n (mset (concat bs) - {#n#}) = mset (concat bs)"
    using nc by (rule insert_DiffM)
  finally have mk: "mset (map mkey (concat (bs[i := b']))) = mset (map mkey (concat bs))"
    by simp
  then have di: "distinct (map mkey (concat (bs[i := b'])))"
    using bo assms(2) mset_eq_imp_distinct_iff [OF mk] by (simp add: buckets_ok_def)
  have len: "length (concat (bs[i := b'])) = length (concat bs)"
    using mset_eq_length [OF mk] by simp
  have idx: "map_bucketidx m' hs = map_bucketidx m hs" for hs
    by (simp add: map_bucketidx_def m')
  have "bucket_ok m' l (bs[i := b'] ! l)" if "l < length bs" for l
  proof -
    have bl: "bucket_ok m l (bs ! l)" using that bo assms(2) by (simp add: buckets_ok_def)
    have sb: "set b' \<subseteq> insert n' (set (bs ! i))" by (simp add: b'_def set_update_subset_insert)
    show ?thesis
    proof (cases "l = i")
      case True
      define P where "P x \<longleftrightarrow> hash x = map_hash (mkey x) \<and> map_bucketidx m (hash x) = i" for x :: "'a map_node"
      have "P n' = P n" by (simp add: P_def n'_def)
      moreover have "\<forall>x\<in>set (bs ! i). P x" using bl True unfolding bucket_ok_def P_def by blast
      ultimately have "\<forall>x\<in>set b'. P x" using sb n(1) by blast
      then have "bucket_ok m' i b'" unfolding bucket_ok_def idx P_def by blast
      then show ?thesis using True assms(3) by simp
    next
      case False
      have "bucket_ok m' l (bs ! l)" using bl unfolding bucket_ok_def idx .
      with False show ?thesis by simp
    qed
  qed
  then have bo': "buckets_ok m'"
    using bo assms(2) di by (auto simp: buckets_ok_def m')
  then show "map_ok m'" using nn len by (simp add: map_ok_def m' entries_def)
  show "assoc m' = (assoc m)(k \<mapsto> v)"
  proof
    fix l
    have "set_mset (mset (concat (bs[i := b']))) = insert n' (set_mset (mset (concat bs) - {#n#}))"
      by (simp add: ms')
    moreover have "set_mset (mset (concat bs) - {#n#}) = set (concat bs) - {n}"
    proof -
      have "distinct (concat bs)" using bo assms(2) by (auto simp: buckets_ok_def distinct_map)
      then show ?thesis by (metis mset_remove1 set_mset_mset set_remove1_eq)
    qed
    ultimately have st: "set (entries m') = insert n' (set (entries m) - {n})"
      by (simp add: m' entries_def assms(2))
    have uniq: "x = n" if "x \<in> set (entries m)" "mkey x = k" for x
    proof -
      have "inj_on mkey (set (concat bs))" using bo assms(2) by (auto simp: buckets_ok_def distinct_map)
      then show ?thesis using that n nc assms(2) by (auto simp: inj_on_def entries_def)
    qed
    have "assoc m' l = Some w \<longleftrightarrow> ((assoc m)(k \<mapsto> v)) l = Some w" for w
      using n uniq by (auto simp: assoc_eq_Some [OF bo] assoc_eq_Some [OF bo'] st n'_def)
    then show "assoc m' l = ((assoc m)(k \<mapsto> v)) l" by (metis option.exhaust)
  qed
qed

text \<open>\<open>map_set\<close> sets the key, or reports a failed allocation and changes nothing.\<close>

lemma map_set_ok:
  assumes "map_ok m" and "length (entries m) < 2 ^ 30"
  shows "\<exists>ok m' h'. map_set m k v h = Some (ok, m', h') \<and> map_ok m' \<and> (mem_ok h \<longrightarrow> ok \<and> h' = h)
    \<and> assoc m' = (if ok then (assoc m)(k \<mapsto> v) else assoc m)
    \<and> length (entries m') \<le> Suc (length (entries m))"
proof -
  have bo: "buckets_ok m" and nn: "unat (nnodes m) = length (entries m)"
    using assms(1) by (auto simp: map_ok_def)
  from map_getref_ok [OF bo, of k] show ?thesis
  proof (elim disjE exE conjE)
    fix bs i j
    assume *: "buckets m = Some bs" "map_getref m k = Some (Some (i, j))" "i < length bs"
      "j < length (bs ! i)" "mkey (bs ! i ! j) = k"
    define m' where "m' = m\<lparr>buckets := Some (bs[i := (bs ! i)[j := (bs ! i ! j)\<lparr>mvalue := v\<rparr>]])\<rparr>"
    have "map_set m k v h = Some (True, m', h)" using * by (simp add: map_set_def m'_def)
    moreover note map_replace_ok [OF assms(1) *(1,3-5) m'_def]
    moreover have "length (entries m') \<le> Suc (length (entries m))"
      using map_replace_ok(1) [OF assms(1) *(1,3-5) m'_def] nn by (simp add: map_ok_def m'_def)
    ultimately show ?thesis by auto
  next
    assume ref: "map_getref m k = Some None" and k: "k \<notin> mkey ` set (entries m)"
    show ?thesis
    proof (cases "try_alloc h")
      case (Pair b h1)
      show ?thesis
      proof (cases b)
        case False
        then have "\<not> mem_ok h" using Pair by (metis try_alloc_ok prod.inject)
        moreover have "map_set m k v h = Some (False, m, h1)"
          using Pair False ref by (simp add: map_set_def map_newnode_def)
        ultimately show ?thesis
          using assms(1) by (intro exI [of _ False] exI [of _ m] exI [of _ h1]) simp
      next
        case True
        have h1: "mem_ok h \<longrightarrow> h1 = h" using Pair by auto
        define n where "n = \<lparr>hash = map_hash k, mkey = k, mvalue = v\<rparr>"
        define grow where "grow = (if nnodes m \<ge> nbuckets m
             then map_resize m (if nbuckets m > 0 then push_bit 1 (nbuckets m) else 1) h1
             else Some (True, m, h1))"
        have "\<exists>ok m2 h2. grow = Some (ok, m2, h2) \<and> buckets_ok m2 \<and> mset (entries m2) = mset (entries m)
            \<and> nnodes m2 = nnodes m \<and> (ok \<longrightarrow> buckets m2 \<noteq> None) \<and> (mem_ok h1 \<longrightarrow> ok \<and> h2 = h1)"
        proof (cases "nnodes m \<ge> nbuckets m")
          case True
          have "\<exists>e<32. (if nbuckets m > 0 then push_bit 1 (nbuckets m) else 1) = 2 ^ e"
          proof (cases "nbuckets m > 0")
            case True
            then obtain e where e: "nbuckets m = 2 ^ e" "e < 32"
              using bo by (auto simp: buckets_ok_def split: option.splits)
            have "(2::nat) ^ e \<le> length (entries m)"
              using \<open>nnodes m \<ge> nbuckets m\<close> nn e unat_power_u32 [OF e(2)] by (simp add: word_le_nat_alt)
            with assms(2) have "(2::nat) ^ e < 2 ^ 30" by linarith
            then have "e < 30" by (rule power_less_imp_less_exp [rotated]) simp
            then have "Suc e < 32" by simp
            moreover have "push_bit 1 (nbuckets m) = 2 ^ Suc e"
              by (simp add: e(1) push_bit_eq_mult)
            ultimately show ?thesis using True by (intro exI [of _ "Suc e"]) simp
          next
            case False
            then show ?thesis by (intro exI [of _ 0]) simp
          qed
          then obtain e where e: "e < 32" "(if nbuckets m > 0 then push_bit 1 (nbuckets m) else 1) = 2 ^ e"
            by blast
          obtain ok h2 where tr: "try_alloc h1 = (ok, h2)" by (cases "try_alloc h1")
          have "mem_ok h1 \<longrightarrow> ok \<and> h2 = h1" using tr by auto
          with map_resize_ok [OF bo e(2,1) tr] True show ?thesis by (auto simp: grow_def)
        next
          case False
          then have "nbuckets m \<noteq> 0" using word_le_def by auto
          then have "buckets m \<noteq> None" using bo by (auto simp: buckets_ok_def split: option.splits)
          with False bo show ?thesis
            by (intro exI [of _ True] exI [of _ m] exI [of _ h1]) (simp add: grow_def)
        qed
        then obtain ok m2 h2 where g: "grow = Some (ok, m2, h2)" "buckets_ok m2"
          "mset (entries m2) = mset (entries m)" "nnodes m2 = nnodes m" "ok \<longrightarrow> buckets m2 \<noteq> None"
          "mem_ok h1 \<longrightarrow> ok \<and> h2 = h1" by (elim exE conjE) (rule that; assumption)
        have set: "map_set m k v h = (if \<not> ok then Some (False, m2, h2)
            else do { m \<leftarrow> map_addnode m2 n; Some (True, m\<lparr>nnodes := nnodes m + 1\<rparr>, h2) })"
          using ref Pair True g(1) by (simp add: map_set_def map_newnode_def n_def flip: grow_def)
        have k2: "mkey n \<notin> mkey ` set (entries m2)"
          using k mset_eq_setD [OF g(3)] by (simp add: n_def)
        show ?thesis
        proof (cases ok)
          case False
          with set g h1 nn mset_entries_assoc [OF bo g(2,3)] length_entries_mset [OF g(3)]
          show ?thesis by (auto simp: map_ok_def)
        next
          case True
          then obtain m3 where m3: "map_addnode m2 n = Some m3" "buckets_ok m3"
            "mset (entries m3) = add_mset n (mset (entries m2))" "nnodes m3 = nnodes m2"
            using map_addnode_ok [OF g(2) _ _ k2] g(5) by (auto simp: n_def)
          define m4 where "m4 = m3\<lparr>nnodes := nnodes m3 + 1\<rparr>"
          have len: "length (entries m3) = Suc (length (entries m))"
            using m3(3) g(3) by (metis size_add_mset size_mset)
          have idx: "map_bucketidx m4 = map_bucketidx m3" by (auto simp: fun_eq_iff map_bucketidx_def m4_def)
          have sel: "nbuckets m4 = nbuckets m3" "buckets m4 = buckets m3" by (simp_all add: m4_def)
          have b4: "buckets_ok m4"
            using m3(2) unfolding buckets_ok_def bucket_ok_def idx sel .
          have e4: "entries m4 = entries m3" by (simp add: entries_def m4_def)
          have "nnodes m4 = of_nat (Suc (length (entries m)))"
            by (simp add: m4_def m3(4) g(4) flip: nn)
          then have "unat (nnodes m4) = Suc (length (entries m))"
            using assms(2) by (simp only:) (rule unat_of_nat_u32, simp)
          with b4 len nn have "map_ok m4" by (simp add: map_ok_def e4)
          moreover have "assoc m4 = (assoc m)(k \<mapsto> v)"
          proof -
            have "assoc m4 = assoc m3" by (simp add: assoc_def e4)
            also have "\<dots> = (assoc m2)(mkey n \<mapsto> mvalue n)"
              using mset_entries_add [OF g(2) m3(2,3) k2] .
            also have "assoc m2 = assoc m" using mset_entries_assoc [OF bo g(2,3)] .
            finally show ?thesis by (simp only: n_def map_node.select_convs)
          qed
          moreover have "map_set m k v h = Some (True, m4, h2)" using set True m3(1) by (simp add: m4_def)
          ultimately show ?thesis using len e4 h1 g(6) by auto
        qed
      qed
    qed
  qed
qed

lemma concat_update_split:
  "i < length bs \<Longrightarrow> concat (bs[i := b]) = concat (take i bs) @ b @ concat (drop (Suc i) bs)"
  by (simp add: upd_conv_take_nth_drop)

lemma concat_split:
  "i < length bs \<Longrightarrow> concat bs = concat (take i bs) @ bs ! i @ concat (drop (Suc i) bs)"
  using concat_update_split [of i bs "bs ! i"] by simp

lemma map_remove_ok:
  assumes "map_ok m"
  shows "\<exists>m'. map_remove m k = Some m' \<and> map_ok m' \<and> assoc m' = (assoc m)(k := None)
    \<and> length (entries m') \<le> length (entries m)"
proof -
  have bo: "buckets_ok m" and nn: "unat (nnodes m) = length (entries m)"
    using assms(1) by (auto simp: map_ok_def)
  from map_getref_ok [OF bo, of k] show ?thesis
  proof (elim disjE exE conjE)
    fix bs i j
    assume *: "buckets m = Some bs" "map_getref m k = Some (Some (i, j))" "i < length bs"
      "j < length (bs ! i)" "mkey (bs ! i ! j) = k"
    define b' where "b' = take j (bs ! i) @ drop (Suc j) (bs ! i)"
    define m' where "m' = m\<lparr>buckets := Some (bs[i := b']), nnodes := nnodes m - 1\<rparr>"
    define us where "us = concat (take i bs) @ take j (bs ! i)"
    define vs where "vs = drop (Suc j) (bs ! i) @ concat (drop (Suc i) bs)"
    have bsi: "bs ! i = take j (bs ! i) @ bs ! i ! j # drop (Suc j) (bs ! i)"
      using *(4) by (simp add: id_take_nth_drop)
    have old: "entries m = us @ bs ! i ! j # vs"
      using *(1) concat_split [OF *(3)] bsi by (simp add: entries_def us_def vs_def)
    have new: "entries m' = us @ vs"
      using *(1) concat_update_split [OF *(3), of b'] by (simp add: entries_def m'_def b'_def us_def vs_def)
    have di: "distinct (map mkey (entries m))" using bo *(1) by (simp add: buckets_ok_def entries_def)
    have sb: "set b' \<subseteq> set (bs ! i)" by (auto simp: b'_def dest: in_set_takeD in_set_dropD)
    have idx: "map_bucketidx m' hs = map_bucketidx m hs" for hs by (simp add: map_bucketidx_def m'_def)
    have "bucket_ok m' l (bs[i := b'] ! l)" if "l < length bs" for l
    proof -
      have "bucket_ok m l (bs ! l)" using that bo *(1) by (simp add: buckets_ok_def)
      then show ?thesis using sb *(3) by (cases "l = i") (auto simp: bucket_ok_def idx)
    qed
    then have bo': "buckets_ok m'"
      using bo *(1) di new old by (auto simp: buckets_ok_def m'_def entries_def)
    have "unat (nnodes m) \<noteq> 0" using nn old by simp
    then have "unat (nnodes m - 1) = unat (nnodes m) - 1"
      by (intro unat_minus_one) auto
    then have "map_ok m'" using bo' nn old new by (simp add: map_ok_def m'_def)
    moreover have "assoc m' = (assoc m)(k := None)"
    proof -
      have "k \<notin> mkey ` set us" "k \<notin> mkey ` set vs" using di old *(5) by auto
      then have none: "map_of (map (\<lambda>n. (mkey n, mvalue n)) us) k = None" 
        "map_of (map (\<lambda>n. (mkey n, mvalue n)) vs) k = None"
        by (auto simp: map_of_eq_None_iff image_image)
      show ?thesis
      proof
        fix l
        show "assoc m' l = ((assoc m)(k := None)) l"
          using none *(5) by (cases "l = k") (auto simp: assoc_def old new map_add_def split: option.splits)
      qed
    qed
    moreover have "map_remove m k = Some m'" using * by (simp add: map_remove_def m'_def b'_def)
    ultimately show ?thesis using old new by (intro exI [of _ m']) simp
  next
    assume "map_getref m k = Some None" "k \<notin> mkey ` set (entries m)"
    then have "map_remove m k = Some m" "assoc m k = None"
      by (simp_all add: map_remove_def assoc_eq_None)
    with assms show ?thesis by (auto simp: fun_upd_idem)
  qed
qed

section \<open>Iteration\<close>

text \<open>
  Calling \<open>map_next\<close> until it returns NULL yields every key once, bucket after bucket.
\<close>

primrec map_keys_from :: "nat \<Rightarrow> 'v map_base_t \<Rightarrow> 'v map_iter_t \<Rightarrow> key list option" where
  "map_keys_from 0 m it = None"
| "map_keys_from (Suc k) m it = do {
     (r, it) \<leftarrow> map_next m it;
     case r of None \<Rightarrow> Some []
     | Some key \<Rightarrow> map_option ((#) key) (map_keys_from k m it)
   }"

text \<open>What is left to visit from an iterator on.\<close>

definition to_visit :: "'v map_node list list \<Rightarrow> 'v map_iter_t \<Rightarrow> 'v map_node list" where
  "to_visit bs it = tl (iter_node it) @ concat (drop (unat (bucketidx it + 1)) bs)"

lemma next_bucket_ok:
  assumes "buckets m = Some bs" and "length bs = unat (nbuckets m)" 
    and "length bs - unat (i + 1) < k"
  shows "\<exists>it. next_bucket k m i = Some it \<and>
    (case iter_node it of [] \<Rightarrow> concat (drop (unat (i + 1)) bs) = []
     | n # ns \<Rightarrow> concat (drop (unat (i + 1)) bs) = n # to_visit bs it \<and> unat (bucketidx it) < length bs
        \<and> bucketidx it \<noteq> -1)"
  using assms(3)
proof (induction k arbitrary: i)
  case (Suc k)
  show ?case
  proof (cases "i + 1 \<ge> nbuckets m")
    case True
    then have "length bs \<le> unat (i + 1)" using assms(2) by (simp add: word_le_nat_alt)
    with True show ?thesis by (simp add: Let_def)
  next
    case False
    define j where "j = i + 1"
    have j: "unat j < length bs" using False assms(2) by (simp add: j_def not_le word_less_nat_alt)
    have jn: "j \<noteq> -1"
      using False word_order.extremum [of "nbuckets m"] by (metis j_def)
    have dj: "drop (unat j) bs = bs ! unat j # drop (Suc (unat j)) bs"
      using j by (simp add: Cons_nth_drop_Suc)
    have sj: "unat (j + 1) = Suc (unat j)"
      using jn by (metis add.commute add.inverse_inverse add_eq_0_iff unatSuc)
    show ?thesis
    proof (cases "bs ! unat j")
      case Nil
      have "length bs - unat (j + 1) < k" using Suc.prems(1) j sj by (simp flip: j_def)
      from Suc.IH [OF this] j obtain it where nb: "next_bucket k m j = Some it"
        and cs: "case iter_node it of [] \<Rightarrow> concat (drop (unat (j + 1)) bs) = []
         | n # ns \<Rightarrow> concat (drop (unat (j + 1)) bs) = n # to_visit bs it \<and> unat (bucketidx it) < length bs
            \<and> bucketidx it \<noteq> -1" by auto
      have st: "next_bucket (Suc k) m i = next_bucket k m j"
        using False j Nil assms(1) by (simp add: Let_def flip: j_def)
      have cc: "concat (drop (unat j) bs) = concat (drop (unat (j + 1)) bs)"
        using dj Nil sj by simp
      show ?thesis unfolding j_def [symmetric] cc
        by (intro exI [of _ it] conjI) (simp only: st nb, rule cs)
    next
      case (Cons n ns)
      then have "next_bucket (Suc k) m i = Some \<lparr>bucketidx = j, iter_node = n # ns\<rparr>"
        using False j assms(1) by (simp add: Let_def flip: j_def)
      moreover have "concat (drop (unat j) bs) = n # to_visit bs \<lparr>bucketidx = j, iter_node = n # ns\<rparr>"
        using dj Cons sj by (simp add: to_visit_def)
      ultimately show ?thesis using j jn unfolding j_def [symmetric] by simp
    qed
  qed
qed simp

definition iter_ok :: "'v map_node list list \<Rightarrow> 'v map_iter_t \<Rightarrow> bool" where
  "iter_ok bs it \<longleftrightarrow> (if bucketidx it = -1 then iter_node it = [] else unat (bucketidx it) < length bs)"

lemma map_next_ok:
  assumes "buckets m = Some bs" and "length bs = unat (nbuckets m)" and "iter_ok bs it"
  shows "\<exists>it'. map_next m it = Some (case to_visit bs it of [] \<Rightarrow> None | n # _ \<Rightarrow> Some (mkey n), it')
    \<and> (to_visit bs it \<noteq> [] \<longrightarrow> to_visit bs it' = tl (to_visit bs it) \<and> iter_ok bs it')"
proof (cases "tl (iter_node it)")
  case Nil
  have tv: "to_visit bs it = concat (drop (unat (bucketidx it + 1)) bs)"
    using Nil by (simp add: to_visit_def)
  have "length bs - unat (bucketidx it + 1) < Suc (unat (nbuckets m))" using assms(2) by simp
  from next_bucket_ok [OF assms(1,2) this] assms(3) obtain it' where it':
    "next_bucket (Suc (unat (nbuckets m))) m (bucketidx it) = Some it'"
    "case iter_node it' of [] \<Rightarrow> to_visit bs it = []
     | n # ns \<Rightarrow> to_visit bs it = n # to_visit bs it'
        \<and> unat (bucketidx it') < length bs \<and> bucketidx it' \<noteq> -1"
    unfolding tv by (auto simp: iter_ok_def split: if_splits)
  have "map_next m it = Some (case iter_node it' of [] \<Rightarrow> None | n # _ \<Rightarrow> Some (mkey n), it')"
    using Nil it'(1) by (simp add: map_next_def del: next_bucket.simps)
  with it'(2) show ?thesis by (auto simp: iter_ok_def split: list.splits)
next
  case (Cons n ns)
  then have "iter_node it \<noteq> []" by auto
  with assms(3) Cons show ?thesis
    by (auto simp: map_next_def to_visit_def iter_ok_def split: if_splits)
qed

lemma map_keys_from_ok:
  assumes "buckets m = Some bs" and "length bs = unat (nbuckets m)" and "iter_ok bs it"
    and "length (to_visit bs it) < k"
  shows "map_keys_from k m it = Some (map mkey (to_visit bs it))"
  using assms(3,4)
proof (induction k arbitrary: it)
  case (Suc k)
  from map_next_ok [OF assms(1,2) Suc.prems(1)] obtain it' where it':
    "map_next m it = Some (case to_visit bs it of [] \<Rightarrow> None | n # _ \<Rightarrow> Some (mkey n), it')"
    "to_visit bs it \<noteq> [] \<longrightarrow> to_visit bs it' = tl (to_visit bs it) \<and> iter_ok bs it'" by blast
  show ?case
  proof (cases "to_visit bs it")
    case Nil
    with it'(1) show ?thesis by simp
  next
    case (Cons n ns)
    with it'(2) Suc.prems Suc.IH [of it'] have "map_keys_from k m it' = Some (map mkey ns)" by simp
    with it'(1) Cons show ?thesis by simp
  qed
qed simp

lemma map_keys_ok:
  assumes "map_ok m" and "length (entries m) < k"
  shows "map_keys_from k m map_iter = Some (map mkey (entries m))"
proof (cases "buckets m")
  case None
  obtain j where k: "k = Suc j" using assms(2) by (cases k) auto
  from None assms(1) have "nbuckets m = 0" by (simp add: map_ok_def buckets_ok_def)
  with None show ?thesis
    by (simp add: k map_next_def map_iter_def entries_def Let_def)
next
  case (Some bs)
  then have "length bs = unat (nbuckets m)" using assms(1) by (simp add: map_ok_def buckets_ok_def)
  moreover have "to_visit bs map_iter = entries m" by (simp add: to_visit_def map_iter_def entries_def Some)
  ultimately show ?thesis
    using map_keys_from_ok [OF Some, of map_iter k] assms(2) by (simp add: iter_ok_def map_iter_def)
qed

lemma distinct_map_keys: "map_ok m \<Longrightarrow> distinct (map mkey (entries m))"
  by (auto simp: map_ok_def buckets_ok_def entries_def split: option.splits)

section \<open>The interface of the clients\<close>

text \<open>The map that a sequence of requests (a key with a value, or with None to remove it) leaves.\<close>

definition outcome :: "('k \<times> 'v option) list \<Rightarrow> 'k \<Rightarrow> 'v option" where
  "outcome reqs = fold (\<lambda>(k, ov) f. f(k := ov)) reqs (\<lambda>_. None)"

lemma outcome_Nil [simp]: "outcome [] k = None"
  by (simp add: outcome_def)

lemma outcome_snoc [simp]: "outcome (reqs @ [(k, ov)]) l = (if l = k then ov else outcome reqs l)"
  by (simp add: outcome_def)

text \<open>
  \<open>perform\<close> runs requests on a map and collects those that were carried out: an insertion
  may fail for lack of memory.
\<close>

definition perform ::
    "('m \<Rightarrow> 'k \<Rightarrow> 'v \<Rightarrow> 's \<Rightarrow> (bool \<times> 'm \<times> 's) option) \<Rightarrow> ('m \<Rightarrow> 'k \<Rightarrow> 'm option)
      \<Rightarrow> ('k \<times> 'v option) list \<Rightarrow> 'm \<times> 's \<times> ('k \<times> 'v option) list
      \<Rightarrow> ('m \<times> 's \<times> ('k \<times> 'v option) list) option" where
  "perform set_key remove = foldM (\<lambda>(k, ov) (m, s, dn). case ov of
       Some v \<Rightarrow> do { (b, m, s) \<leftarrow> set_key m k v s; Some (m, s, if b then dn @ [(k, ov)] else dn) }
     | None \<Rightarrow> do { m \<leftarrow> remove m k; Some (m, s, dn @ [(k, ov)]) })"

lemma perform_Cons:
  "perform set_key remove (r # rs) x = Option.bind (perform set_key remove [r] x) (perform set_key remove rs)"
  unfolding perform_def using foldM_append [of _ "[r]" rs x] by simp

locale finite_map =
  fixes get :: "'m \<Rightarrow> 'k \<Rightarrow> 'v option option"
    and set_key :: "'m \<Rightarrow> 'k \<Rightarrow> 'v \<Rightarrow> 's \<Rightarrow> (bool \<times> 'm \<times> 's) option"
    and remove :: "'m \<Rightarrow> 'k \<Rightarrow> 'm option"
    and empty :: 'm
    and ok :: "'m \<Rightarrow> bool"
    and load :: "'m \<Rightarrow> nat"
    and cap :: nat
    and ready :: "'s \<Rightarrow> bool"
  assumes ok_empty: "ok empty"
    and get_empty: "get empty k = Some None"
    and load_empty: "load empty = 0"
    and get_total: "ok m \<Longrightarrow> get m k \<noteq> None"
    and set_law: "ok m \<Longrightarrow> load m < cap \<Longrightarrow> \<exists>b m' s'. set_key m k v s = Some (b, m', s') \<and> ok m'
      \<and> (ready s \<longrightarrow> b \<and> s' = s) \<and> load m' \<le> Suc (load m)
      \<and> (\<forall>l. get m' l = (if b \<and> l = k then Some (Some v) else get m l))"
    and remove_law: "ok m \<Longrightarrow> \<exists>m'. remove m k = Some m' \<and> ok m' \<and> load m' \<le> load m
      \<and> (\<forall>l. get m' l = (if l = k then Some None else get m l))"
begin

text \<open>The content as a HOL map.\<close>

definition view_map :: "'m \<Rightarrow> 'k \<Rightarrow> 'v option" where
  "view_map m k = Option.bind (get m k) id"

lemma get_view: "ok m \<Longrightarrow> get m k = Some (view_map m k)"
  using get_total [of m k] by (auto simp: view_map_def)

lemma view_empty: "view_map empty = (\<lambda>_. None)"
  by (simp add: view_map_def get_empty fun_eq_iff)

lemma view_set:
  assumes "ok m" and "load m < cap" and "ready s"
  shows "\<exists>m'. set_key m k v s = Some (True, m', s) \<and> ok m' \<and> view_map m' = (view_map m)(k \<mapsto> v)
    \<and> load m' \<le> Suc (load m)"
proof -
  from set_law [OF assms(1,2), of k v s] assms(3) obtain m' where
    "set_key m k v s = Some (True, m', s)" "ok m'" "load m' \<le> Suc (load m)"
    "\<forall>l. get m' l = (if l = k then Some (Some v) else get m l)" by auto
  then show ?thesis by (auto simp: view_map_def fun_eq_iff)
qed

text \<open>A sequence of insertions builds the map of the sequence.\<close>

lemma set_all:
  assumes "ok m" and "load m + length kvs \<le> cap" and "ready s"
  shows "\<exists>m'. foldM (\<lambda>(k, v) m. map_option (\<lambda>(_, m, _). m) (set_key m k v s)) kvs m = Some m' \<and> ok m'
    \<and> view_map m' = view_map m ++ map_of (rev kvs) \<and> load m' \<le> load m + length kvs"
  using assms(1,2)
proof (induction kvs arbitrary: m)
  case (Cons kv kvs)
  obtain k v where kv: "kv = (k, v)" by (cases kv)
  from Cons.prems view_set [OF _ _ assms(3), of m k v] obtain m1 where m1:
    "set_key m k v s = Some (True, m1, s)" "ok m1" "view_map m1 = (view_map m)(k \<mapsto> v)"
    "load m1 \<le> Suc (load m)" by auto
  have "load m1 + length kvs \<le> cap" using Cons.prems(2) m1(4) by simp
  from Cons.IH [OF m1(2) this] obtain m2 where
    "foldM (\<lambda>(k, v) m. map_option (\<lambda>(_, m, _). m) (set_key m k v s)) kvs m1 = Some m2" "ok m2"
    "view_map m2 = view_map m1 ++ map_of (rev kvs)" "load m2 \<le> load m1 + length kvs" by blast
  with m1 show ?case by (simp add: kv)
qed simp

lemma perform_ok:
  assumes "ok m" and "load m + length reqs \<le> cap"
    and "\<forall>k. get m k = Some (outcome dn k)"
  shows "\<exists>m' s' dn'. perform set_key remove reqs (m, s, dn) = Some (m', s', dn') \<and> ok m'
    \<and> load m' \<le> load m + length reqs \<and> (ready s \<longrightarrow> s' = s \<and> dn' = dn @ reqs)
    \<and> (\<forall>k. get m' k = Some (outcome dn' k))"
  using assms
proof (induction reqs arbitrary: m s dn)
  case Nil
  then show ?case by (simp add: perform_def)
next
  case (Cons req reqs)
  obtain k ov where req: "req = (k, ov)" by (cases req)
  have "\<exists>m1 s1 dn1. perform set_key remove [(k, ov)] (m, s, dn) = Some (m1, s1, dn1) \<and> ok m1
    \<and> load m1 \<le> Suc (load m) \<and> (ready s \<longrightarrow> s1 = s \<and> dn1 = dn @ [(k, ov)])
    \<and> (\<forall>l. get m1 l = Some (outcome dn1 l))"
  proof (cases ov)
    case None
    from remove_law [OF Cons.prems(1), of k] obtain m1 where "remove m k = Some m1" "ok m1"
      "load m1 \<le> load m" "\<forall>l. get m1 l = (if l = k then Some None else get m l)" by blast
    with None Cons.prems(3) show ?thesis by (auto simp: perform_def)
  next
    case (Some v)
    have "load m < cap" using Cons.prems(2) by simp
    from set_law [OF Cons.prems(1) this, of k v s] obtain b m1 s1 where "set_key m k v s = Some (b, m1, s1)"
      "ok m1" "ready s \<longrightarrow> b \<and> s1 = s" "load m1 \<le> Suc (load m)"
      "\<forall>l. get m1 l = (if b \<and> l = k then Some (Some v) else get m l)" by blast
    with Some Cons.prems(3) show ?thesis by (auto simp: perform_def)
  qed
  then obtain m1 s1 dn1 where 1: "perform set_key remove [(k, ov)] (m, s, dn) = Some (m1, s1, dn1)" "ok m1"
    "load m1 \<le> Suc (load m)" "ready s \<longrightarrow> s1 = s \<and> dn1 = dn @ [(k, ov)]"
    "\<forall>l. get m1 l = Some (outcome dn1 l)" by blast
  have "load m1 + length reqs \<le> cap" using Cons.prems(2) 1(3) by simp
  from Cons.IH [OF 1(2) this 1(5), of s1] obtain m2 s2 dn2 where
    "perform set_key remove reqs (m1, s1, dn1) = Some (m2, s2, dn2)" "ok m2" "load m2 \<le> load m1 + length reqs"
    "ready s1 \<longrightarrow> s2 = s1 \<and> dn2 = dn1 @ reqs"
    "\<forall>l. get m2 l = Some (outcome dn2 l)" by blast
  moreover from 1(1) have "perform set_key remove (req # reqs) (m, s, dn) = perform set_key remove reqs (m1, s1, dn1)"
    by (subst perform_Cons) (simp add: req)
  ultimately show ?case using 1(3,4) by (intro exI [of _ m2] exI [of _ s2] exI [of _ dn2]) (auto simp: req)
qed

text \<open>
  Get or create: read a key, insert a default when it is missing, and read again: the
  second read never returns NULL.
\<close>

lemma get_or_create:
  assumes "ok m" and "load m < cap" and "ready s" and "get m k = Some None"
  shows "\<exists>m'. set_key m k v s = Some (True, m', s) \<and> ok m' \<and> get m' k = Some (Some v)
    \<and> (\<forall>l. l \<noteq> k \<longrightarrow> get m' l = get m l)"
  using set_law [OF assms(1,2), of k v s] assms(3) by auto

end

interpretation hm: finite_map map_get map_set map_remove map_init map_ok "\<lambda>m. length (entries m)"
  "2 ^ 30" "\<lambda>s. mem_ok s"
proof unfold_locales
  show "map_ok map_init" by (simp add: map_ok_def buckets_ok_def map_init_def entries_def)
  show "map_get map_init k = Some None" for k :: key
    by (simp add: map_get_def map_getref_def map_init_def)
  show "length (entries map_init) = 0" by (simp add: map_init_def entries_def)
  show "map_get m k \<noteq> None" if "map_ok m" for m :: "'a map_base_t" and k
    using that map_get_assoc [of m k] by (simp add: map_ok_def)
  show "\<exists>b m' s'. map_set m k v s = Some (b, m', s') \<and> map_ok m' \<and> (mem_ok s \<longrightarrow> b \<and> s' = s)
      \<and> length (entries m') \<le> Suc (length (entries m))
      \<and> (\<forall>l. map_get m' l = (if b \<and> l = k then Some (Some v) else map_get m l))"
    if "map_ok m" and "length (entries m) < 2 ^ 30" for m :: "'a map_base_t" and k v and s :: "'b alloc_scheme"
  proof -
    from map_set_ok [OF that, of k v s] obtain b m' s' where *: "map_set m k v s = Some (b, m', s')"
      "map_ok m'" "mem_ok s \<longrightarrow> b \<and> s' = s" "assoc m' = (if b then (assoc m)(k \<mapsto> v) else assoc m)"
      "length (entries m') \<le> Suc (length (entries m))" by metis
    have "map_get m' l = (if b \<and> l = k then Some (Some v) else map_get m l)" for l
      using map_get_assoc [of m l] map_get_assoc [of m' l] * that(1) by (simp add: map_ok_def)
    with * show ?thesis by (intro exI [of _ b] exI [of _ m'] exI [of _ s']) simp
  qed
  show "\<exists>m'. map_remove m k = Some m' \<and> map_ok m' \<and> length (entries m') \<le> length (entries m)
      \<and> (\<forall>l. map_get m' l = (if l = k then Some None else map_get m l))"
    if "map_ok m" for m :: "'a map_base_t" and k
  proof -
    from map_remove_ok [OF that, of k] obtain m' where *: "map_remove m k = Some m'" "map_ok m'"
      "assoc m' = (assoc m)(k := None)" "length (entries m') \<le> length (entries m)" by blast
    have "map_get m' l = (if l = k then Some None else map_get m l)" for l
      using map_get_assoc [of m l] map_get_assoc [of m' l] * that by (simp add: map_ok_def)
    with * show ?thesis by blast
  qed
qed

end
