(* ===== verification/Container_Theorems.thy ===== *)
theory Container_Theorems
  imports Linked_List Hash_Map
begin

text \<open>
  The properties of the containers: the doubly linked list of list.c and the hash map of
  map.c, each with a witness on a concrete heap.
\<close>

section \<open>The doubly linked list\<close>

definition no_lists :: lheap where
  "no_lists = \<lparr>avail = None, lnodes = (\<lambda>_. None), lists = (\<lambda>_. None), lbrk = 0\<rparr>"

text \<open>
  What is appended to a list comes out at the front in the same order, for every list in
  the heap whose links are right and any number of elements; after that the list is empty
  and \<open>list_pop_front\<close> returns NULL; no step dereferences an invalid pointer.
\<close>

theorem list_first_in_first_out:
  assumes "list_at h l ds" and "mem_ok h" and "length ds + length es < 2 ^ 64"
  shows "\<exists>h1 h2. foldM (\<lambda>d h. map_option snd (list_append l d h)) es h = Some h1
    \<and> list_at h1 l (ds @ es)
    \<and> foldM (\<lambda>_ (out, h). map_option (\<lambda>(d, h). (out @ [d], h)) (list_pop_front l h))
        [0..<length (ds @ es)] ([], h1) = Some (ds @ es, h2)
    \<and> list_at h2 l [] \<and> list_pop_front l h2 = Some (None, h2)"
proof -
  from ll.push_all [OF assms] obtain h1 where 1: "foldM (\<lambda>d h. map_option snd (list_append l d h)) es h = Some h1"
    "mem_ok h1" "list_at h1 l (ds @ es)" by blast
  from ll.pop_all [OF 1(3,2), of "length (ds @ es)" "[]"] obtain h2 where
    "foldM (\<lambda>_ (out, h). map_option (\<lambda>(d, h). (out @ [d], h)) (list_pop_front l h))
        [0..<length (ds @ es)] ([], h1) = Some (ds @ es, h2)"
    "list_at h2 l []" by auto
  with 1 list_at_pop_empty [of h2 l] show ?thesis by blast
qed

definition one_list :: "ptr \<times> lheap" where
  "one_list = list_create no_lists"

lemma one_list: "list_at (snd one_list) (fst one_list) []" "mem_ok (snd one_list)"
  using list_create_ok [of no_lists] by (auto simp: one_list_def no_lists_def)

theorem list_first_in_first_out_witness:
  "\<exists>h1 h2. foldM (\<lambda>d h. map_option snd (list_append (fst one_list) d h)) [Some 7, None, Some 9] (snd one_list) = Some h1
    \<and> list_at h1 (fst one_list) ([] @ [Some 7, None, Some 9])
    \<and> foldM (\<lambda>_ (out, h). map_option (\<lambda>(d, h). (out @ [d], h)) (list_pop_front (fst one_list) h))
        [0..<length ([] @ [Some 7, None, Some (9::nat)])] ([], h1) = Some ([] @ [Some 7, None, Some 9], h2)
    \<and> list_at h2 (fst one_list) [] \<and> list_pop_front (fst one_list) h2 = Some (None, h2)"
  by (rule list_first_in_first_out [OF one_list]) simp

text \<open>
  C12: \<open>list_remove\<close> finds the first cell with the given data, unlinks and frees it: the
  others keep their order, head, tail, size and the links in both directions are right
  again, and a list with other cells is not touched.  It returns false and changes nothing
  when the data is not there.  \<open>list_get\<close> reads by index, NULL out of range.
\<close>

theorem list_remove_first:
  assumes "list_cells h l xs" and "length xs < k"
    and "list_cells h m zs" and "m \<noteq> l" and "fst ` set xs \<inter> fst ` set zs = {}"
  shows "\<exists>h' ys. list_remove k (Some l) d h = Some (d \<in> set (map snd xs), h')
    \<and> list_cells h' l ys \<and> map snd ys = remove1 d (map snd xs) \<and> list_cells h' m zs
    \<and> (\<forall>n. n < k \<and> n < 2 ^ 32 \<longrightarrow>
         list_get k (Some l) (of_nat n) h' = Some (if n < length ys then snd (ys ! n) else None))"
proof -
  from list_cells_remove1 [OF assms(1,2), of d] obtain h' ys where *:
    "list_remove k (Some l) d h = Some (d \<in> snd ` set xs, h')" "list_cells h' l ys"
    "map snd ys = remove1 d (map snd xs)" "beside h h' l xs" by blast
  moreover have "list_cells h' m zs" by (rule beside_cells [OF *(4) assms(3-5)])
  moreover have "list_get k (Some l) (of_nat n) h' = Some (if n < length ys then snd (ys ! n) else None)"
    if "n < k" "n < 2 ^ 32" for n
    using that list_cells_get [OF *(2), of n k] list_cells_get_out [OF *(2), of n k] by auto
  ultimately show ?thesis by (intro exI [of _ h'] exI [of _ ys]) auto
qed

definition two_lists :: lheap where
  "two_lists = \<lparr>avail = None,
     lnodes = [2 \<mapsto> \<lparr>next_ptr = Some 3, prev = None, node_data = Some 50\<rparr>,
               3 \<mapsto> \<lparr>next_ptr = None, prev = Some 2, node_data = Some 60\<rparr>,
               4 \<mapsto> \<lparr>next_ptr = None, prev = None, node_data = Some 60\<rparr>],
     lists = [0 \<mapsto> \<lparr>head = Some 2, tail = Some 3, size = 2\<rparr>, 1 \<mapsto> \<lparr>head = Some 4, tail = Some 4, size = 1\<rparr>],
     lbrk = 5\<rparr>"

theorem list_remove_first_witness:
  "\<exists>h' ys. list_remove 5 (Some 0) (Some 60) two_lists = Some (Some 60 \<in> set (map snd [(2::nat, Some (50::nat)), (3, Some 60)]), h')
    \<and> list_cells h' 0 ys \<and> map snd ys = remove1 (Some 60) (map snd [(2::nat, Some 50), (3, Some 60)])
    \<and> list_cells h' 1 [(4, Some 60)]
    \<and> (\<forall>n. n < 5 \<and> n < 2 ^ 32 \<longrightarrow>
         list_get 5 (Some 0) (of_nat n) h' = Some (if n < length ys then snd (ys ! n) else None))"
  by (rule list_remove_first) (simp_all add: list_cells_def two_lists_def)

section \<open>The hash map\<close>

text \<open>
  C11: The hash map implements a finite map.  After any sequence of fewer than \<open>2 ^ 30\<close>
  insertions and removals on a new map, \<open>map_get\<close> returns for every key what the requests
  that were carried out leave, across all collisions of hashes and resizings of the bucket
  array; a failed allocation only loses the insertion it happened in; and iterating with
  \<open>map_next\<close> visits exactly the present keys, each once.
\<close>

theorem hash_map_refines:
  assumes "length reqs < 2 ^ 30"
  shows "\<exists>m s' dn keys. perform map_set map_remove reqs (map_init, s, []) = Some (m, s', dn)
    \<and> (mem_ok s \<longrightarrow> dn = reqs) \<and> (\<forall>k. map_get m k = Some (outcome dn k))
    \<and> map_keys_from (Suc (length reqs)) m map_iter = Some keys \<and> distinct keys
    \<and> (\<forall>k. k \<in> set keys \<longleftrightarrow> outcome dn k \<noteq> None)"
proof -
  have "length (entries (map_init :: 'a map_base_t)) + length reqs \<le> 2 ^ 30"
    using assms by (simp add: entries_def map_init_def)
  moreover have "\<forall>k. map_get (map_init :: 'a map_base_t) k = Some (outcome [] k)"
    by (simp add: hm.get_empty)
  ultimately have "\<exists>m s' dn. perform map_set map_remove reqs (map_init, s, []) = Some (m, s', dn)
    \<and> map_ok m \<and> length (entries m) \<le> length (entries (map_init :: 'a map_base_t)) + length reqs
    \<and> (mem_ok s \<longrightarrow> s' = s \<and> dn = [] @ reqs) \<and> (\<forall>k. map_get m k = Some (outcome dn k))"
    by (rule hm.perform_ok [OF hm.ok_empty])
  then obtain m s' dn where *: "perform map_set map_remove reqs (map_init, s, []) = Some (m, s', dn)"
    "map_ok m" "length (entries m) \<le> length reqs" "mem_ok s \<longrightarrow> dn = reqs"
    "\<forall>k. map_get m k = Some (outcome dn k)"
    by (auto simp: hm.load_empty)
  have "map_keys_from (Suc (length reqs)) m map_iter = Some (map mkey (entries m))"
    using *(2,3) by (intro map_keys_ok) simp_all
  moreover have "k \<in> set (map mkey (entries m)) \<longleftrightarrow> outcome dn k \<noteq> None" for k
  proof -
    have "map_get m k = Some (assoc m k)" using *(2) by (intro map_get_assoc) (simp add: map_ok_def)
    with *(5) have "assoc m k = outcome dn k" by simp
    then show ?thesis using assoc_eq_None [of m k] by auto
  qed
  ultimately show ?thesis
    using * distinct_map_keys [OF *(2)]
    by (intro exI [of _ m] exI [of _ s'] exI [of _ dn] exI [of _ "map mkey (entries m)"]) blast
qed

theorem hash_map_refines_witness:
  "\<exists>m s' dn keys. perform map_set map_remove [([65], Some True), ([66, 67], Some False), ([65], None)]
      (map_init, \<lparr>avail = Some 1\<rparr>, []) = Some (m, s', dn)
    \<and> (mem_ok \<lparr>avail = Some 1\<rparr> \<longrightarrow> dn = [([65], Some True), ([66, 67], Some False), ([65], None)])
    \<and> (\<forall>k. map_get m k = Some (outcome dn k))
    \<and> map_keys_from (Suc (length [([65::u8], Some True), ([66, 67], Some False), ([65], None)])) m map_iter = Some keys
    \<and> distinct keys \<and> (\<forall>k. k \<in> set keys \<longleftrightarrow> outcome dn k \<noteq> None)"
  by (rule hash_map_refines) simp

end
