(* ===== verification/Tree_Heap.thy ===== *)
theory Tree_Heap
  imports Helpers
begin

text \<open>
  The parse trees of Grammar-Mutator/include/tree.h and the node operations of
  Grammar-Mutator/src/tree.c, over an explicit heap: a map from addresses to node\_t
  records.  Reading a NULL or freed node has no continuation (None).  A recursive
  function of the source takes fuel, the depth of the recursion it may use; loops run over
  the index range that the source runs over.
\<close>

section \<open>Nodes and the heap\<close>

text \<open>
  A cell of a subnode array is None while it is not initialised, and otherwise the pointer
  stored there, which may be NULL.
\<close>

record node_t =
  node_id :: u32
  rule_id :: u32
  val_buf :: "mem option"
  val_size :: u64
  val_len :: u32
  parent :: ptr
  subnodes :: "ptr option list option"
  subnode_count :: u32
  recursion_edge_size :: u64
  non_term_size :: u64

record heap = alloc +
  nodes :: "nat \<Rightarrow> node_t option"
  brk :: nat

definition zero_node :: node_t where
  "zero_node = \<lparr>node_id = 0, rule_id = 0, val_buf = None, val_size = 0, val_len = 0,
     parent = None, subnodes = None, subnode_count = 0, recursion_edge_size = 0,
     non_term_size = 0\<rparr>"

definition rd :: "'z heap_scheme \<Rightarrow> ptr \<Rightarrow> node_t option" where
  "rd h p = Option.bind p (nodes h)"

definition wr :: "nat \<Rightarrow> node_t \<Rightarrow> 'z heap_scheme \<Rightarrow> 'z heap_scheme" where
  "wr a n h = h\<lparr>nodes := (nodes h)(a := Some n)\<rparr>"

definition del :: "nat \<Rightarrow> 'z heap_scheme \<Rightarrow> 'z heap_scheme" where
  "del a h = h\<lparr>nodes := (nodes h)(a := None)\<rparr>"

text \<open>\<open>p->field = ...\<close>: fails on a NULL or dangling pointer.\<close>

definition upd :: "ptr \<Rightarrow> (node_t \<Rightarrow> node_t) \<Rightarrow> 'z heap_scheme \<Rightarrow> 'z heap_scheme option" where
  "upd p f h = (case p of None \<Rightarrow> None
     | Some a \<Rightarrow> (case nodes h a of None \<Rightarrow> None | Some n \<Rightarrow> Some (wr a (f n) h)))"

text \<open>\<open>p->subnodes[i]\<close>\<close>

definition sub_at :: "'z heap_scheme \<Rightarrow> ptr \<Rightarrow> nat \<Rightarrow> ptr option" where
  "sub_at h p i = do {
     n \<leftarrow> rd h p;
     arr \<leftarrow> subnodes n;
     if i < length arr then arr ! i else None
   }"

text \<open>\<open>p->subnodes[i] = q\<close>\<close>

definition set_sub_at :: "ptr \<Rightarrow> nat \<Rightarrow> ptr \<Rightarrow> 'z heap_scheme \<Rightarrow> 'z heap_scheme option" where
  "set_sub_at p i q h = do {
     n \<leftarrow> rd h p;
     arr \<leftarrow> subnodes n;
     guard (i < length arr);
     upd p (subnodes_update (\<lambda>_. Some (arr[i := Some q]))) h
   }"

section \<open>Creating and filling nodes\<close>

definition node_create :: "u32 \<Rightarrow> 'z heap_scheme \<Rightarrow> ptr \<times> 'z heap_scheme" where
  "node_create i h = (case try_alloc h of
      (False, h) \<Rightarrow> (None, h)
    | (True, h) \<Rightarrow>
        (let a = brk h;
             n = zero_node\<lparr>node_id := i, recursion_edge_size := 0\<rparr>;
             n = (if i \<noteq> 0 then n\<lparr>non_term_size := 1\<rparr> else n)
         in (Some a, (wr a n h)\<lparr>brk := Suc a\<rparr>)))"

definition node_create_with_rule_id ::
    "u32 \<Rightarrow> u32 \<Rightarrow> 'z heap_scheme \<Rightarrow> (ptr \<times> 'z heap_scheme) option" where
  "node_create_with_rule_id i r h = (case node_create i h of (p, h) \<Rightarrow> do {
     h \<leftarrow> upd p (rule_id_update (\<lambda>_. r)) h;
     Some (p, h)
   })"

text \<open>
  The value is copied from a source block; the length argument is a \<open>size_t\<close>, the field
  \<open>val_len\<close> has 32 bits.
\<close>

definition node_set_val ::
    "ptr \<Rightarrow> mem option \<Rightarrow> u64 \<Rightarrow> 'z heap_scheme \<Rightarrow> 'z heap_scheme option" where
  "node_set_val node src len h =
    (if node = None then Some h
     else if len = 0 then Some h
     else case src of None \<Rightarrow> Some h
       | Some src \<Rightarrow> do {
           n \<leftarrow> rd h node;
           let (b, h) = maybe_grow (val_buf n, val_size n) len h in do {
           h \<leftarrow> upd node (\<lambda>n. n\<lparr>val_buf := fst b, val_size := snd b\<rparr>) h;
           case fst b of None \<Rightarrow> Some h
           | Some dst \<Rightarrow> do {
               h \<leftarrow> upd node (val_len_update (\<lambda>_. ucast len)) h;
               bytes \<leftarrow> mem_slice src 0 (unat len);
               dst \<leftarrow> memcpy_at dst 0 bytes;
               upd node (val_buf_update (\<lambda>_. Some dst)) h
             }}})"

definition node_create_with_val ::
    "u32 \<Rightarrow> mem option \<Rightarrow> u64 \<Rightarrow> 'z heap_scheme \<Rightarrow> (ptr \<times> 'z heap_scheme) option" where
  "node_create_with_val i v len h = do {
     (p, h) \<leftarrow> node_create_with_rule_id i 0 h;
     h \<leftarrow> (if v \<noteq> None then node_set_val p v len h else Some h);
     Some (p, h)
   }"

definition node_init_subnodes :: "ptr \<Rightarrow> u64 \<Rightarrow> 'z heap_scheme \<Rightarrow> 'z heap_scheme option" where
  "node_init_subnodes node n h =
    (if node = None then Some h
     else do {
       nd \<leftarrow> rd h node;
       if node_id nd = 0 then Some h
       else if n = 0 then
         upd node (\<lambda>nd. nd\<lparr>subnodes := None, subnode_count := 0\<rparr>) h
       else case try_alloc h of
         (False, h) \<Rightarrow> upd node (subnodes_update (\<lambda>_. None)) h
       | (True, h) \<Rightarrow>
           let arr = (case subnodes nd of
                 Some old \<Rightarrow> take (unat n) old @ replicate (unat n - length old) None
               | None \<Rightarrow> replicate (unat n) (Some None))
           in upd node (\<lambda>nd. nd\<lparr>subnodes := Some arr, subnode_count := ucast n\<rparr>) h
     })"

definition node_set_subnode ::
    "ptr \<Rightarrow> u64 \<Rightarrow> ptr \<Rightarrow> 'z heap_scheme \<Rightarrow> 'z heap_scheme option" where
  "node_set_subnode node i subnode h =
    (if node = None then Some h
     else do {
       nd \<leftarrow> rd h node;
       if node_id nd = 0 then Some h
       else if ucast (subnode_count nd) \<le> i then Some h
       else if subnodes nd = None then Some h
       else do {
         h \<leftarrow> set_sub_at node (unat i) subnode h;
         if subnode \<noteq> None then upd subnode (parent_update (\<lambda>_. node)) h else Some h
       }})"

section \<open>Freeing nodes\<close>

primrec node_free :: "nat \<Rightarrow> ptr \<Rightarrow> 'z heap_scheme \<Rightarrow> 'z heap_scheme option" where
  "node_free 0 p h = None"
| "node_free (Suc k) p h =
    (case p of None \<Rightarrow> Some h
     | Some a \<Rightarrow> do {
         h \<leftarrow> upd p (\<lambda>n. n\<lparr>node_id := 0, rule_id := 0, recursion_edge_size := 0,
                              non_term_size := 0\<rparr>) h;
         h \<leftarrow> upd p (\<lambda>n. if val_buf n \<noteq> None
                          then n\<lparr>val_buf := None, val_size := 0, val_len := 0\<rparr> else n) h;
         h \<leftarrow> upd p (parent_update (\<lambda>_. None)) h;
         n \<leftarrow> rd h p;
         h \<leftarrow> foldM (\<lambda>i h. do {
                 s \<leftarrow> sub_at h p i;
                 if s = None then Some h else node_free k s h
               }) [0..<unat (subnode_count n)] h;
         h \<leftarrow> upd p (\<lambda>n. n\<lparr>subnode_count := 0, subnodes := None\<rparr>) h;
         Some (del a h)
       })"

definition node_free_only_self :: "ptr \<Rightarrow> 'z heap_scheme \<Rightarrow> 'z heap_scheme option" where
  "node_free_only_self p h = do {
     h \<leftarrow> upd p (subnode_count_update (\<lambda>_. 0)) h;
     node_free 1 p h
   }"

section \<open>Cloning and comparing\<close>

primrec node_clone ::
    "nat \<Rightarrow> ptr \<Rightarrow> 'z heap_scheme \<Rightarrow> (ptr \<times> 'z heap_scheme) option" where
  "node_clone 0 p h = None"
| "node_clone (Suc k) p h =
    (if p = None then Some (None, h)
     else do {
       n \<leftarrow> rd h p;
       let (q, h) = node_create (node_id n) h in do {
       h \<leftarrow> upd q (\<lambda>m. m\<lparr>rule_id := rule_id n, recursion_edge_size := recursion_edge_size n,
                         non_term_size := non_term_size n\<rparr>) h;
       h \<leftarrow> node_set_val q (val_buf n) (ucast (val_len n)) h;
       h \<leftarrow> upd q (val_len_update (\<lambda>_. val_len n)) h;
       h \<leftarrow> (if subnode_count n \<noteq> 0 then do {
               h \<leftarrow> node_init_subnodes q (ucast (subnode_count n)) h;
               foldM (\<lambda>i h. do {
                 s \<leftarrow> sub_at h p i;
                 (c, h) \<leftarrow> node_clone k s h;
                 node_set_subnode q (of_nat i) c h
               }) [0..<unat (subnode_count n)] h
             } else Some h);
       Some (q, h)
     }})"

text \<open>The \<open>len\<close> bytes that \<open>memcmp\<close> reads; reading uninitialised bytes is an error.\<close>

definition mem_read :: "mem option \<Rightarrow> nat \<Rightarrow> u8 list option" where
  "mem_read b len = (if len = 0 then Some [] else do {
     m \<leftarrow> b;
     s \<leftarrow> mem_slice m 0 len;
     init_bytes s
   })"

primrec node_equal :: "nat \<Rightarrow> ptr \<Rightarrow> ptr \<Rightarrow> 'z heap_scheme \<Rightarrow> bool option" where
  "node_equal 0 a b h = None"
| "node_equal (Suc k) a b h =
    (if a = b then Some True
     else if a = None \<or> b = None then Some False
     else do {
       na \<leftarrow> rd h a;
       nb \<leftarrow> rd h b;
       if node_id na \<noteq> node_id nb then Some False
       else if rule_id na \<noteq> rule_id nb then Some False
       else if val_len na \<noteq> val_len nb then Some False
       else do {
         va \<leftarrow> mem_read (val_buf na) (unat (val_len na));
         vb \<leftarrow> mem_read (val_buf nb) (unat (val_len na));
         if va \<noteq> vb then Some False
         else if subnode_count na \<noteq> subnode_count nb then Some False
         else do {
           r \<leftarrow> loopM (\<lambda>i _. do {
               sa \<leftarrow> sub_at h a i;
               sb \<leftarrow> sub_at h b i;
               e \<leftarrow> node_equal k sa sb h;
               Some (if e then Inr () else Inl False)
             }) [0..<unat (subnode_count na)] ();
           Some (case r of Inl b \<Rightarrow> b | Inr _ \<Rightarrow> True)
         }}})"

section \<open>Sizes\<close>

primrec node_get_size :: "nat \<Rightarrow> ptr \<Rightarrow> 'z heap_scheme \<Rightarrow> 'z heap_scheme option" where
  "node_get_size 0 p h = None"
| "node_get_size (Suc k) p h =
    (if p = None then Some h
     else do {
       n \<leftarrow> rd h p;
       if node_id n = 0 then
         upd p (\<lambda>n. n\<lparr>non_term_size := 0, recursion_edge_size := 0\<rparr>) h
       else do {
         h \<leftarrow> upd p (\<lambda>n. n\<lparr>non_term_size := 1, recursion_edge_size := 0\<rparr>) h;
         foldM (\<lambda>i h. do {
           s \<leftarrow> sub_at h p i;
           if s = None then Some h
           else do {
             sn \<leftarrow> rd h s;
             h \<leftarrow> (if node_id n = node_id sn
                   then upd p (recursion_edge_size_update (\<lambda>c. c + 1)) h else Some h);
             h \<leftarrow> node_get_size k s h;
             sn \<leftarrow> rd h s;
             upd p (\<lambda>n. n\<lparr>recursion_edge_size := recursion_edge_size n + recursion_edge_size sn,
                         non_term_size := non_term_size n + non_term_size sn\<rparr>) h
           }}) [0..<unat (subnode_count n)] h
       }})"

section \<open>Replacing a subnode, finding its edge\<close>

definition node_replace_subnode ::
    "ptr \<Rightarrow> ptr \<Rightarrow> ptr \<Rightarrow> 'z heap_scheme \<Rightarrow> (bool \<times> 'z heap_scheme) option" where
  "node_replace_subnode root subnode new_subnode h =
    (if root = None \<or> subnode = None \<or> new_subnode = None then Some (False, h)
     else do {
       s \<leftarrow> rd h subnode;
       t \<leftarrow> rd h new_subnode;
       if node_id s \<noteq> node_id t then Some (False, h)
       else if root \<noteq> parent s then Some (False, h)
       else do {
         rt \<leftarrow> rd h root;
         r \<leftarrow> loopM (\<lambda>i _. do {
             cur \<leftarrow> sub_at h root i;
             if cur = subnode then do {
               h \<leftarrow> set_sub_at root i new_subnode h;
               h \<leftarrow> upd new_subnode (parent_update (\<lambda>_. root)) h;
               h \<leftarrow> upd cur (parent_update (\<lambda>_. None)) h;
               Some (Inl (True, h))
             } else Some (Inr ())
           }) [0..<unat (subnode_count rt)] ();
         Some (case r of Inl x \<Rightarrow> x | Inr _ \<Rightarrow> (False, h))
       }})"

record edge_t =
  e_parent :: ptr
  e_subnode :: ptr
  e_offset :: nat

definition null_edge :: edge_t where
  "null_edge = \<lparr>e_parent = None, e_subnode = None, e_offset = 0\<rparr>"

definition node_get_parent_edge :: "ptr \<Rightarrow> 'z heap_scheme \<Rightarrow> edge_t option" where
  "node_get_parent_edge node h =
    (if node = None then Some null_edge
     else do {
       n \<leftarrow> rd h node;
       if parent n = None then Some null_edge
       else do {
         p \<leftarrow> rd h (parent n);
         r \<leftarrow> loopM (\<lambda>i _. do {
             s \<leftarrow> sub_at h (parent n) i;
             Some (if node = s then Inl i else Inr ())
           }) [0..<unat (subnode_count p)] ();
         Some \<lparr>e_parent = parent n, e_subnode = node,
               e_offset = (case r of Inl i \<Rightarrow> i | Inr _ \<Rightarrow> 0)\<rparr>
       }})"

end
