(* ===== verification/Tree_Obj.thy ===== *)
theory Tree_Obj
  imports Tree_Heap
begin

text \<open>
  tree\_t and the operations of Grammar-Mutator/src/tree.c on whole trees: the test case
  buffer, the serialised form, deserialisation, cloning, and the lists of nonterminal nodes
  and recursion edges.  A tree\_t is a record that is passed and returned; its nodes live in
  the heap.  The list\_t fields hold the sequences that the doubly linked lists stand for
  (theory Linked\_List); None is a NULL list pointer.
\<close>

record tree_t =
  root :: ptr
  data :: buf
  data_len :: u64
  ser_buf :: buf
  ser_len :: u64
  non_terminal_node_list :: "ptr list option"
  recursion_edge_list :: "edge_t list option"

definition TREE_BUF_PREALLOC_SIZE :: u64 where
  "TREE_BUF_PREALLOC_SIZE = 64"

definition empty_tree :: tree_t where
  "empty_tree = \<lparr>root = None, data = (None, 0), data_len = 0, ser_buf = (None, 0), ser_len = 0,
     non_terminal_node_list = None, recursion_edge_list = None\<rparr>"

text \<open>\<open>list_create\<close> and \<open>list_append\<close> on sequences, with their allocations.\<close>

definition seq_create :: "'z alloc_scheme \<Rightarrow> 'a list option \<times> 'z alloc_scheme" where
  "seq_create h = (case try_alloc h of (False, h) \<Rightarrow> (None, h) | (True, h) \<Rightarrow> (Some [], h))"

definition seq_append ::
    "'a list option \<Rightarrow> 'a \<Rightarrow> 'z alloc_scheme \<Rightarrow> 'a list option \<times> 'z alloc_scheme" where
  "seq_append l d h = (case l of None \<Rightarrow> (None, h)
     | Some xs \<Rightarrow> (case try_alloc h of (False, h) \<Rightarrow> (Some xs, h) | (True, h) \<Rightarrow> (Some (xs @ [d]), h)))"

section \<open>The test case of a tree\<close>

primrec node_to_buf ::
    "nat \<Rightarrow> ptr \<Rightarrow> tree_t \<times> 'z heap_scheme \<Rightarrow> (tree_t \<times> 'z heap_scheme) option" where
  "node_to_buf 0 p th = None"
| "node_to_buf (Suc k) p th =
    (case th of (tree, h) \<Rightarrow>
     if p = None then Some (tree, h)
     else do {
       n \<leftarrow> rd h p;
       if subnode_count n = 0 then
         if val_len n = 0 then Some (tree, h)
         else (case maybe_grow (data tree) (data_len tree + ucast (val_len n)) h of (b, h) \<Rightarrow>
           case fst b of None \<Rightarrow> Some (tree\<lparr>data := b\<rparr>, h)
           | Some buf \<Rightarrow> do {
               v \<leftarrow> val_buf n;
               bytes \<leftarrow> mem_slice v 0 (unat (val_len n));
               buf \<leftarrow> memcpy_at buf (unat (data_len tree)) bytes;
               Some (tree\<lparr>data := (Some buf, snd b),
                          data_len := data_len tree + ucast (val_len n)\<rparr>, h)
             })
       else foldM (\<lambda>i (tree, h). do {
              s \<leftarrow> sub_at h p i;
              node_to_buf k s (tree, h)
            }) [0..<unat (subnode_count n)] (tree, h)
     })"

definition tree_to_buf ::
    "nat \<Rightarrow> tree_t \<Rightarrow> 'z heap_scheme \<Rightarrow> (tree_t \<times> 'z heap_scheme) option" where
  "tree_to_buf k tree h =
    (case maybe_grow (data tree) TREE_BUF_PREALLOC_SIZE h of (b, h) \<Rightarrow>
       node_to_buf k (root tree) (tree\<lparr>data := b, data_len := 0\<rparr>, h))"

section \<open>Serialisation\<close>

text \<open>\<open>sizeof(node->id) + sizeof(node->rule_id) + sizeof(node->subnode_count) + sizeof(node->val_len)\<close>\<close>

definition min_len :: u64 where
  "min_len = 4 + 4 + 4 + 4"

primrec node_serialize ::
    "nat \<Rightarrow> ptr \<Rightarrow> tree_t \<times> 'z heap_scheme \<Rightarrow> (tree_t \<times> 'z heap_scheme) option" where
  "node_serialize 0 p th = None"
| "node_serialize (Suc k) p th =
    (case th of (tree, h) \<Rightarrow>
     if p = None then Some (tree, h)
     else do {
       n \<leftarrow> rd h p;
       let len = min_len + ucast (val_len n); l = ser_len tree in
       (case maybe_grow (ser_buf tree) (l + len) h of (b, h) \<Rightarrow>
         case fst b of None \<Rightarrow> Some (tree\<lparr>ser_buf := b\<rparr>, h)
         | Some buf \<Rightarrow> do {
             buf \<leftarrow> memcpy_at buf (unat l) (map Some (u32_bytes (node_id n)));
             let l = l + 4 in do {
             buf \<leftarrow> memcpy_at buf (unat l) (map Some (u32_bytes (rule_id n)));
             let l = l + 4 in do {
             buf \<leftarrow> memcpy_at buf (unat l) (map Some (u32_bytes (subnode_count n)));
             let l = l + 4 in do {
             buf \<leftarrow> memcpy_at buf (unat l) (map Some (u32_bytes (val_len n)));
             let l = l + 4 in do {
             bytes \<leftarrow> (if val_len n = 0 then Some []
                        else Option.bind (val_buf n) (\<lambda>v. mem_slice v 0 (unat (val_len n))));
             buf \<leftarrow> memcpy_at buf (unat l) bytes;
             let l = l + ucast (val_len n) in
             foldM (\<lambda>i (tree, h). do {
               s \<leftarrow> sub_at h p i;
               node_serialize k s (tree, h)
             }) [0..<unat (subnode_count n)] (tree\<lparr>ser_buf := (Some buf, snd b), ser_len := l\<rparr>, h)
           }}}}})
     })"

definition tree_serialize ::
    "nat \<Rightarrow> tree_t \<Rightarrow> 'z heap_scheme \<Rightarrow> (tree_t \<times> 'z heap_scheme) option" where
  "tree_serialize k tree h =
    (case maybe_grow (ser_buf tree) TREE_BUF_PREALLOC_SIZE h of (b, h) \<Rightarrow>
       node_serialize k (root tree) (tree\<lparr>ser_buf := b, ser_len := 0\<rparr>, h))"

text \<open>
  Deserialisation.  The source reads from \<open>data_buf\<close>, whose accessible bytes are the list
  \<open>buf\<close>; \<open>data_size\<close> is the size it was told, and \<open>consumed\<close> the value of
  \<open>*consumed_size\<close>.  Differences of \<open>size_t\<close> wrap around as in C.  The result is the
  node pointer, the new \<open>*consumed_size\<close> and the heap.
\<close>

definition read_u32 :: "mem \<Rightarrow> u64 \<Rightarrow> u32 option" where
  "read_u32 buf off = do {
     m \<leftarrow> mem_slice buf (unat off) 4;
     bs \<leftarrow> init_bytes m;
     Some (bytes_u32 bs)
   }"

primrec node_deserialize ::
    "nat \<Rightarrow> mem option \<Rightarrow> u64 \<Rightarrow> u64 \<times> 'z heap_scheme \<Rightarrow> (ptr \<times> u64 \<times> 'z heap_scheme) option" where
  "node_deserialize 0 data_buf data_size ch = None"
| "node_deserialize (Suc k) data_buf data_size ch =
    (case ch of (consumed, h) \<Rightarrow>
     case data_buf of None \<Rightarrow> Some (None, consumed, h)
     | Some buf \<Rightarrow>
       (case node_create 0 h of (node, h) \<Rightarrow>
        if data_size - consumed < min_len then do {
          h \<leftarrow> node_free (Suc k) node h;
          Some (None, consumed, h)
        } else do {
          i \<leftarrow> read_u32 buf consumed;
          h \<leftarrow> upd node (node_id_update (\<lambda>_. i)) h;
          let l = consumed + 4 in do {
          r \<leftarrow> read_u32 buf l;
          h \<leftarrow> upd node (rule_id_update (\<lambda>_. r)) h;
          let l = l + 4 in do {
          c \<leftarrow> read_u32 buf l;
          h \<leftarrow> upd node (subnode_count_update (\<lambda>_. c)) h;
          let l = l + 4 in do {
          vl \<leftarrow> read_u32 buf l;
          h \<leftarrow> upd node (val_len_update (\<lambda>_. vl)) h;
          let l = l + 4 in do {
          h \<leftarrow> node_set_val node (Some (drop (unat l) buf)) (ucast vl) h;
          n \<leftarrow> rd h node;
          let consumed = l + ucast (val_len n) in
          if subnode_count n = 0 then Some (node, consumed, h)
          else do {
            h \<leftarrow> node_init_subnodes node (ucast (subnode_count n)) h;
            n \<leftarrow> rd h node;
            res \<leftarrow> loopM (\<lambda>i (consumed, h). do {
                (s, consumed, h) \<leftarrow> node_deserialize k data_buf data_size (consumed, h);
                if s = None then do {
                  h \<leftarrow> node_free (Suc k) node h;
                  Some (Inl (None, consumed, h))
                } else do {
                  h \<leftarrow> node_set_subnode node (of_nat i) s h;
                  Some (Inr (consumed, h))
                }}) [0..<unat (subnode_count n)] (consumed, h);
            Some (case res of Inl r \<Rightarrow> r | Inr (consumed, h) \<Rightarrow> (node, consumed, h))
          }}}}}}))"

definition tree_create :: "'z heap_scheme \<Rightarrow> tree_t option \<times> 'z heap_scheme" where
  "tree_create h = (case try_alloc h of (False, h) \<Rightarrow> (None, h) | (True, h) \<Rightarrow> (Some empty_tree, h))"

definition tree_deserialize ::
    "nat \<Rightarrow> mem option \<Rightarrow> u64 \<Rightarrow> 'z heap_scheme \<Rightarrow> (tree_t option \<times> 'z heap_scheme) option" where
  "tree_deserialize k data_buf data_size h = do {
     (rt, consumed, h) \<leftarrow> node_deserialize k data_buf data_size (0, h);
     if rt = None then Some (None, h)
     else if consumed > data_size then do {
       h \<leftarrow> node_free k rt h;
       Some (None, h)
     } else (case tree_create h of (t, h) \<Rightarrow> do {
       tree \<leftarrow> t;
       Some (Some (tree\<lparr>root := rt\<rparr>), h)
     })
   }"

section \<open>Whole trees\<close>

definition tree_free :: "nat \<Rightarrow> tree_t option \<Rightarrow> 'z heap_scheme \<Rightarrow> 'z heap_scheme option" where
  "tree_free k tree h = (case tree of None \<Rightarrow> Some h | Some t \<Rightarrow> node_free k (root t) h)"

definition tree_clone ::
    "nat \<Rightarrow> tree_t \<Rightarrow> 'z heap_scheme \<Rightarrow> (tree_t \<times> 'z heap_scheme) option" where
  "tree_clone k tree h = (case tree_create h of (t, h) \<Rightarrow> do {
     (p, h) \<leftarrow> node_clone k (root tree) h;
     new_tree \<leftarrow> t;
     Some (new_tree\<lparr>root := p, data := (None, 0), data_len := 0\<rparr>, h)
   })"

definition tree_equal ::
    "nat \<Rightarrow> tree_t option \<Rightarrow> tree_t option \<Rightarrow> 'z heap_scheme \<Rightarrow> bool option" where
  "tree_equal k a b h = (case (a, b) of
      (None, None) \<Rightarrow> Some True
    | (Some ta, Some tb) \<Rightarrow> node_equal k (root ta) (root tb) h
    | _ \<Rightarrow> Some False)"

definition tree_get_size ::
    "nat \<Rightarrow> tree_t \<Rightarrow> 'z heap_scheme \<Rightarrow> (u64 \<times> 'z heap_scheme) option" where
  "tree_get_size k tree h = do {
     n \<leftarrow> rd h (root tree);
     if node_id n = 0 then Some (0, h)
     else do {
       h \<leftarrow> node_get_size k (root tree) h;
       n \<leftarrow> rd h (root tree);
       Some (non_term_size n, h)
     }}"

primrec node_get_recursion_edges ::
    "nat \<Rightarrow> ptr \<Rightarrow> tree_t \<times> 'z heap_scheme \<Rightarrow> (tree_t \<times> 'z heap_scheme) option" where
  "node_get_recursion_edges 0 p th = None"
| "node_get_recursion_edges (Suc k) p th =
    (case th of (tree, h) \<Rightarrow>
     if p = None then Some (tree, h)
     else do {
       n \<leftarrow> rd h p;
       if subnode_count n = 0 then Some (tree, h)
       else foldM (\<lambda>i (tree, h). do {
           s \<leftarrow> sub_at h p i;
           if s = None then Some (tree, h)
           else do {
             sn \<leftarrow> rd h s;
             (tree, h) \<leftarrow>
               (if node_id n = node_id sn then
                  (case try_alloc h of (False, h) \<Rightarrow> None
                   | (True, h) \<Rightarrow>
                     (case seq_append (recursion_edge_list tree)
                              \<lparr>e_parent = p, e_subnode = s, e_offset = i\<rparr> h of
                        (l, h) \<Rightarrow> Some (tree\<lparr>recursion_edge_list := l\<rparr>, h)))
                else Some (tree, h));
             node_get_recursion_edges k s (tree, h)
           }}) [0..<unat (subnode_count n)] (tree, h)
     })"

definition tree_get_recursion_edges ::
    "nat \<Rightarrow> tree_t \<Rightarrow> 'z heap_scheme \<Rightarrow> (tree_t \<times> 'z heap_scheme) option" where
  "tree_get_recursion_edges k tree h =
    (case seq_create h of (l, h) \<Rightarrow>
       node_get_recursion_edges k (root tree) (tree\<lparr>recursion_edge_list := l\<rparr>, h))"

primrec node_get_non_terminal_nodes ::
    "nat \<Rightarrow> ptr \<Rightarrow> tree_t \<times> 'z heap_scheme \<Rightarrow> (tree_t \<times> 'z heap_scheme) option" where
  "node_get_non_terminal_nodes 0 p th = None"
| "node_get_non_terminal_nodes (Suc k) p th =
    (case th of (tree, h) \<Rightarrow>
     if p = None then Some (tree, h)
     else do {
       n \<leftarrow> rd h p;
       if node_id n = 0 then Some (tree, h)
       else (case seq_append (non_terminal_node_list tree) p h of (l, h) \<Rightarrow>
         foldM (\<lambda>i (tree, h). do {
           s \<leftarrow> sub_at h p i;
           node_get_non_terminal_nodes k s (tree, h)
         }) [0..<unat (subnode_count n)] (tree\<lparr>non_terminal_node_list := l\<rparr>, h))
     })"

definition tree_get_non_terminal_nodes ::
    "nat \<Rightarrow> tree_t \<Rightarrow> 'z heap_scheme \<Rightarrow> (tree_t \<times> 'z heap_scheme) option" where
  "tree_get_non_terminal_nodes k tree h =
    (case seq_create h of (l, h) \<Rightarrow>
       node_get_non_terminal_nodes k (root tree) (tree\<lparr>non_terminal_node_list := l\<rparr>, h))"

end
