(* ===== verification/Tree_Spec.thy ===== *)
theory Tree_Spec
  imports Prelude
begin

text \<open>
  The abstract syntax trees that the pointer structures of Grammar-Mutator/src/tree.c stand
  for: a NULL pointer is Null, a node carries an annotation (its address, or nothing), its
  type, its rule, its value and its subnodes.  The functions here are the specification of
  the recursive functions over pointers of the theory Tree\_Heap.
\<close>

datatype 'a tree = Null | Node (ann: 'a) (tid: u32) (trule: u32) (tval: "u8 list") (kids: "'a tree list")

fun anns :: "'a tree \<Rightarrow> 'a list" where
  "anns Null = []"
| "anns (Node a i r v ts) = a # concat (map anns ts)"

fun height :: "'a tree \<Rightarrow> nat" where
  "height Null = 0"
| "height (Node a i r v ts) = Suc (fold max (map height ts) 0)"

definition root_ptr :: "nat tree \<Rightarrow> ptr" where
  "root_ptr t = (case t of Null \<Rightarrow> None | Node a _ _ _ _ \<Rightarrow> Some a)"

lemma root_ptr_simps [simp]:
  "root_ptr Null = None" "root_ptr (Node a i r v ts) = Some a"
  by (simp_all add: root_ptr_def)

lemma root_ptr_eq_None [simp]: "root_ptr t = None \<longleftrightarrow> t = Null"
  by (cases t) auto

lemma root_ptr_in_anns: "root_ptr t = Some a \<Longrightarrow> a \<in> set (anns t)"
  by (cases t) auto

lemma fold_max_ge: "(x::nat) \<in> set xs \<Longrightarrow> x \<le> fold max xs m"
proof -
  have "m \<le> fold max xs m \<and> (\<forall>x\<in>set xs. x \<le> fold max xs m)"
  proof (induction xs arbitrary: m)
    case (Cons y ys)
    from Cons.IH [of "max y m"] show ?case by auto
  qed simp
  then show "x \<in> set xs \<Longrightarrow> x \<le> fold max xs m" by blast
qed

lemma fold_max_less: "(m::nat) < k \<Longrightarrow> (\<And>x. x \<in> set xs \<Longrightarrow> x < k) \<Longrightarrow> fold max xs m < k"
  by (induction xs arbitrary: m) auto

lemma height_kid: "t \<in> set ts \<Longrightarrow> height t < height (Node a i r v ts)"
  by (auto simp: less_Suc_eq_le intro: fold_max_ge)

text \<open>The tree without its annotations.\<close>

abbreviation erase :: "'a tree \<Rightarrow> unit tree" where
  "erase \<equiv> map_tree (\<lambda>_. ())"

section \<open>Sizes\<close>

text \<open>The number of nonterminal nodes, and of recursion edges (parent and child of one type).\<close>

fun nt_size :: "'a tree \<Rightarrow> nat" where
  "nt_size Null = 0"
| "nt_size (Node a i r v ts) = (if i = 0 then 0 else Suc (sum_list (map nt_size ts)))"

definition rec_edge :: "u32 \<Rightarrow> 'a tree \<Rightarrow> nat" where
  "rec_edge i t = (case t of Null \<Rightarrow> 0 | Node _ j _ _ _ \<Rightarrow> if i = j then 1 else 0)"

fun re_size :: "'a tree \<Rightarrow> nat" where
  "re_size Null = 0"
| "re_size (Node a i r v ts) =
     (if i = 0 then 0 else sum_list (map (\<lambda>t. rec_edge i t + re_size t) ts))"

section \<open>The test case of a tree\<close>

fun flatten :: "'a tree \<Rightarrow> u8 list" where
  "flatten Null = []"
| "flatten (Node a i r v ts) = (if ts = [] then v else concat (map flatten ts))"

section \<open>Serialisation\<close>

fun ser :: "'a tree \<Rightarrow> u8 list" where
  "ser Null = []"
| "ser (Node a i r v ts) =
     u32_bytes i @ u32_bytes r @ u32_bytes (of_nat (length ts)) @ u32_bytes (of_nat (length v))
       @ v @ concat (map ser ts)"

text \<open>
  A tree that a serialised file can hold: no NULL subnode, terminals without subnodes, and
  counts that fit their 32 bits.
\<close>

fun storable :: "'a tree \<Rightarrow> bool" where
  "storable Null = False"
| "storable (Node a i r v ts) =
     ((i = 0 \<longrightarrow> ts = []) \<and> length ts < 2 ^ 32 \<and> length v < 2 ^ 32 \<and> (\<forall>t\<in>set ts. storable t))"

text \<open>All nodes of the tree in preorder, as the traversals of the sources visit them.\<close>

fun subtrees :: "'a tree \<Rightarrow> 'a tree list" where
  "subtrees Null = []"
| "subtrees (Node a i r v ts) = Node a i r v ts # concat (map subtrees ts)"

text \<open>The nonterminal nodes the fuzzer can mutate: the traversal stops at a terminal.\<close>

fun nonterms :: "'a tree \<Rightarrow> 'a list" where
  "nonterms Null = []"
| "nonterms (Node a i r v ts) = (if i = 0 then [] else a # concat (map nonterms ts))"

lemma length_nonterms: "length (nonterms t) = nt_size t"
  by (induction t) (auto simp: length_concat comp_def cong: map_cong)

lemma nt_size_map [simp]: "nt_size (map_tree f t) = nt_size t"
  by (induction t) (auto simp: comp_def cong: map_cong)

lemma rec_edge_map [simp]: "rec_edge i (map_tree f t) = rec_edge i t"
  by (cases t) (auto simp: rec_edge_def)

lemma re_size_map [simp]: "re_size (map_tree f t) = re_size t"
  by (induction t) (auto simp: comp_def cong: map_cong)

lemma flatten_map [simp]: "flatten (map_tree f t) = flatten t"
  by (induction t) (auto simp: comp_def intro: arg_cong [where f = concat] cong: map_cong)

lemma ser_map [simp]: "ser (map_tree f t) = ser t"
  by (induction t) (auto simp: comp_def cong: map_cong)

lemma height_map [simp]: "height (map_tree f t) = height t"
  by (induction t) (auto simp: comp_def cong: map_cong)

lemma storable_map [simp]: "storable (map_tree f t) = storable t"
  by (induction t) auto

lemma anns_map [simp]: "anns (map_tree f t) = map f (anns t)"
  by (induction t) (auto simp: comp_def map_concat intro: arg_cong [where f = concat] cong: map_cong)

lemma tid_map: "t \<noteq> Null \<Longrightarrow> tid (map_tree f t) = tid t"
  by (cases t) auto

end
