(* ===== verification/Tree_Rep.thy ===== *)
theory Tree_Rep
  imports Tree_Spec Tree_Heap
begin

text \<open>
  The pointer structures of Tree\_Heap stand for the trees of Tree\_Spec: the representation
  predicates, their frame rules, and the refinement of the read-only operations and of
  \<open>node_clone\<close>.
\<close>

section \<open>The heap\<close>

lemma heap_simps [simp]:
  "nodes (wr a n h) = (nodes h)(a := Some n)" "brk (wr a n h) = brk h"
  "avail (wr a n h) = avail h" "heap.more (wr a n h) = heap.more h"
  "nodes (del a h) = (nodes h)(a := None)" "brk (del a h) = brk h"
  "avail (del a h) = avail h" "heap.more (del a h) = heap.more h"
  by (simp_all add: wr_def del_def)

lemma rd_Some [simp]: "rd h (Some a) = nodes h a"
  by (simp add: rd_def)

lemma rd_None [simp]: "rd h None = None"
  by (simp add: rd_def)

lemma upd_None [simp]: "upd None f h = None"
  by (simp add: upd_def)

lemma upd_Some: "nodes h a = Some n \<Longrightarrow> upd (Some a) f h = Some (wr a (f n) h)"
  by (simp add: upd_def)

lemma wr_wr [simp]: "wr a m (wr a n h) = wr a m h"
  by (simp add: wr_def)

lemma wr_same: "nodes h a = Some n \<Longrightarrow> wr a n h = h"
  by (simp add: wr_def fun_upd_idem)

text \<open>Addresses from \<open>brk\<close> on are not allocated.\<close>

definition heap_ok :: "'z heap_scheme \<Rightarrow> bool" where
  "heap_ok h \<longleftrightarrow> (\<forall>a\<ge>brk h. nodes h a = None)"

lemma heap_ok_wr [simp]: "heap_ok h \<Longrightarrow> a < brk h \<Longrightarrow> heap_ok (wr a n h)"
  by (auto simp: heap_ok_def)

lemma heap_okD: "heap_ok h \<Longrightarrow> nodes h a = Some n \<Longrightarrow> a < brk h"
  by (metis heap_ok_def not_le option.distinct(1))

text \<open>An execution that only adds nodes.\<close>

definition grows :: "'z heap_scheme \<Rightarrow> 'z heap_scheme \<Rightarrow> bool" where
  "grows h h' \<longleftrightarrow> heap_ok h' \<and> avail h' = avail h \<and> brk h \<le> brk h' \<and>
     (\<forall>a<brk h. nodes h' a = nodes h a) \<and> heap.more h' = heap.more h"

lemma grows_refl [simp]: "grows h h \<longleftrightarrow> heap_ok h"
  by (simp add: grows_def)

lemma grows_trans: "grows h1 h2 \<Longrightarrow> grows h2 h3 \<Longrightarrow> grows h1 h3"
  by (auto simp: grows_def)

lemma growsD:
  assumes "grows h h'"
  shows "heap_ok h'" "avail h' = avail h" "brk h \<le> brk h'" "heap.more h' = heap.more h"
    "a < brk h \<Longrightarrow> nodes h' a = nodes h a"
  using assms by (auto simp: grows_def)

section \<open>Representation\<close>

definition val_ok :: "node_t \<Rightarrow> u8 list \<Rightarrow> bool" where
  "val_ok n v \<longleftrightarrow> unat (val_len n) = length v \<and> buf_ok (val_buf n, val_size n) \<and>
     (v = [] \<or> (\<exists>m. val_buf n = Some m \<and> length v \<le> length m \<and> take (length v) m = map Some v))"

definition kids_ok :: "node_t \<Rightarrow> nat tree list \<Rightarrow> bool" where
  "kids_ok n ts \<longleftrightarrow> unat (subnode_count n) = length ts \<and>
     (ts = [] \<or> subnodes n = Some (map (\<lambda>t. Some (root_ptr t)) ts)) \<and> (node_id n = 0 \<longrightarrow> ts = [])"

text \<open>\<open>view h t\<close>: the nodes of \<open>t\<close> are in the heap; parent pointers are left open.\<close>

fun view :: "'z heap_scheme \<Rightarrow> nat tree \<Rightarrow> bool" where
  "view h Null = True"
| "view h (Node a i r v ts) =
     (\<exists>n. nodes h a = Some n \<and> node_id n = i \<and> rule_id n = r \<and> val_ok n v \<and> kids_ok n ts \<and>
        (\<forall>t\<in>set ts. view h t))"

fun parents :: "'z heap_scheme \<Rightarrow> ptr \<Rightarrow> nat tree \<Rightarrow> bool" where
  "parents h par Null = True"
| "parents h par (Node a i r v ts) =
     ((\<exists>n. nodes h a = Some n \<and> parent n = par) \<and> (\<forall>t\<in>set ts. parents h (Some a) t))"

text \<open>The cached size fields of every node are right (modulo the 64 bits of the fields).\<close>

fun sized :: "'z heap_scheme \<Rightarrow> nat tree \<Rightarrow> bool" where
  "sized h Null = True"
| "sized h (Node a i r v ts) =
     ((\<exists>n. nodes h a = Some n \<and> non_term_size n = of_nat (nt_size (Node a i r v ts)) \<and>
         recursion_edge_size n = of_nat (re_size (Node a i r v ts))) \<and> (\<forall>t\<in>set ts. sized h t))"

text \<open>A tree of its own: no sharing, and parent pointers that point to the parents.\<close>

definition rep :: "'z heap_scheme \<Rightarrow> ptr \<Rightarrow> nat tree \<Rightarrow> bool" where
  "rep h par t \<longleftrightarrow> view h t \<and> parents h par t \<and> distinct (anns t)"

lemma view_in_heap: "view h t \<Longrightarrow> a \<in> set (anns t) \<Longrightarrow> \<exists>n. nodes h a = Some n"
  by (induction t) auto

lemma view_brk: "view h t \<Longrightarrow> heap_ok h \<Longrightarrow> a \<in> set (anns t) \<Longrightarrow> a < brk h"
  using view_in_heap heap_okD by metis

definition strip :: "node_t \<Rightarrow> node_t" where
  "strip n = n\<lparr>parent := None, recursion_edge_size := 0, non_term_size := 0\<rparr>"

lemma strip_eqD:
  assumes "strip m = strip n"
  shows "node_id m = node_id n" "rule_id m = rule_id n" "val_ok m v = val_ok n v"
    "kids_ok m ts = kids_ok n ts"
proof -
  have "f m = f n" if "\<And>k. f (strip k) = f k" for f :: "node_t \<Rightarrow> 'b"
    using assms that by metis
  note * = this
  show "node_id m = node_id n" by (rule *) (simp add: strip_def)
  show "rule_id m = rule_id n" by (rule *) (simp add: strip_def)
  show "val_ok m v = val_ok n v" by (rule *) (simp add: strip_def val_ok_def)
  show "kids_ok m ts = kids_ok n ts" by (rule *) (simp add: strip_def kids_ok_def)
qed

text \<open>
  The frame rule: a view survives every change outside its nodes, and every change of the
  parent pointers and size fields of its own nodes.
\<close>

lemma view_frame:
  assumes "view h t"
    and "\<And>a n. a \<in> set (anns t) \<Longrightarrow> nodes h a = Some n \<Longrightarrow> \<exists>m. nodes h' a = Some m \<and> strip m = strip n"
  shows "view h' t"
  using assms
proof (induction t)
  case (Node a i r v ts)
  from Node.prems(1) obtain n where n: "nodes h a = Some n" "node_id n = i" "rule_id n = r"
    "val_ok n v" "kids_ok n ts" "\<forall>t\<in>set ts. view h t" by auto
  from Node.prems(2) [OF _ n(1)] obtain m where m: "nodes h' a = Some m" "strip m = strip n" by auto
  have "\<forall>t\<in>set ts. view h' t" using Node.IH Node.prems(2) n(6) by fastforce
  then show ?case using n m strip_eqD [OF m(2)] by auto
qed simp

lemma view_cong:
  assumes "view h t" and "\<And>a. a \<in> set (anns t) \<Longrightarrow> nodes h' a = nodes h a"
  shows "view h' t"
  using assms(1) by (rule view_frame) (use assms(2) in auto)

lemma parents_cong:
  "parents h par t \<Longrightarrow> (\<And>a. a \<in> set (anns t) \<Longrightarrow> nodes h' a = nodes h a) \<Longrightarrow> parents h' par t"
proof (induction t arbitrary: par)
  case (Node a i r v ts)
  then show ?case by fastforce
qed simp

lemma sized_cong:
  "sized h t \<Longrightarrow> (\<And>a. a \<in> set (anns t) \<Longrightarrow> nodes h' a = nodes h a) \<Longrightarrow> sized h' t"
proof (induction t)
  case (Node a i r v ts)
  then show ?case by fastforce
qed simp

lemma rep_cong:
  "rep h par t \<Longrightarrow> (\<And>a. a \<in> set (anns t) \<Longrightarrow> nodes h' a = nodes h a) \<Longrightarrow> rep h' par t"
  unfolding rep_def using view_cong parents_cong by blast

lemma grows_same:
  assumes "view h t" and "heap_ok h" and "grows h h'" and "a \<in> set (anns t)"
  shows "nodes h' a = nodes h a"
  using growsD(5) [OF assms(3)] view_brk [OF assms(1,2,4)] by simp

lemma view_grows: "view h t \<Longrightarrow> heap_ok h \<Longrightarrow> grows h h' \<Longrightarrow> view h' t"
  using view_cong grows_same by blast

lemma rep_grows: "rep h par t \<Longrightarrow> heap_ok h \<Longrightarrow> grows h h' \<Longrightarrow> rep h' par t"
  unfolding rep_def using view_grows parents_cong grows_same by blast

lemma view_node:
  "view h (Node a i r v ts) \<Longrightarrow> nodes h a = Some n \<Longrightarrow>
     node_id n = i \<and> rule_id n = r \<and> val_ok n v \<and> kids_ok n ts \<and> (\<forall>t\<in>set ts. view h t)"
  by auto

lemma kids_ok_sub_at:
  "nodes h a = Some n \<Longrightarrow> kids_ok n ts \<Longrightarrow> j < length ts \<Longrightarrow> sub_at h (Some a) j = Some (root_ptr (ts ! j))"
  by (auto simp: sub_at_def kids_ok_def)

lemma val_ok_unique: "val_ok n v \<Longrightarrow> val_ok n w \<Longrightarrow> v = w"
proof (cases "v = []")
  case False
  assume *: "val_ok n v" "val_ok n w"
  then have "length v = length w" by (simp add: val_ok_def)
  moreover have "w \<noteq> []" using False calculation by auto
  ultimately have "map Some v = map Some w" using * False by (auto simp: val_ok_def)
  then show ?thesis by (simp add: inj_map_eq_map)
qed (auto simp: val_ok_def)

text \<open>A heap shows at most one tree at an address.\<close>

lemma view_unique: "view h s \<Longrightarrow> view h t \<Longrightarrow> root_ptr s = root_ptr t \<Longrightarrow> s = t"
proof (induction s arbitrary: t)
  case Null
  then show ?case by (metis root_ptr_eq_None root_ptr_simps(1))
next
  case (Node a i r v ts)
  from Node.prems(3) obtain j q w us where t: "t = Node a j q w us" by (cases t) auto
  from Node.prems obtain n where n: "nodes h a = Some n" by auto
  have s': "node_id n = i \<and> rule_id n = r \<and> val_ok n v \<and> kids_ok n ts \<and> (\<forall>t\<in>set ts. view h t)"
    and t': "node_id n = j \<and> rule_id n = q \<and> val_ok n w \<and> kids_ok n us \<and> (\<forall>t\<in>set us. view h t)"
    using view_node Node.prems(1,2) n t by blast+
  have len: "length ts = length us" using s' t' by (simp add: kids_ok_def)
  have "ts ! k = us ! k" if k: "k < length ts" for k
  proof (rule Node.IH)
    show "root_ptr (ts ! k) = root_ptr (us ! k)"
      using kids_ok_sub_at [OF n] s' t' k len by (metis option.inject)
  qed (use s' t' k len in auto)
  then have "ts = us" using len by (simp add: list_eq_iff_nth_eq)
  then show ?case using t s' t' val_ok_unique by auto
qed

section \<open>Comparing trees\<close>

lemma loopM_check:
  assumes "\<And>i. i \<in> set xs \<Longrightarrow> f i () = Some (if P i then Inr () else Inl r)"
  shows "loopM f xs () = Some (if \<forall>i\<in>set xs. P i then Inr () else Inl r)"
  using assms by (induction xs) auto

lemma mem_read_ok: "val_ok n v \<Longrightarrow> mem_read (val_buf n) (unat (val_len n)) = Some v"
  by (auto simp: val_ok_def mem_read_def mem_slice_def)

lemma node_equal_view:
  assumes "view h s" and "view h t" and "height s < k"
  shows "node_equal k (root_ptr s) (root_ptr t) h = Some (erase s = erase t)"
  using assms
proof (induction k arbitrary: s t)
  case (Suc k)
  show ?case
  proof (cases "root_ptr s = root_ptr t")
    case True
    then have "s = t" using view_unique Suc.prems by blast
    then show ?thesis by simp
  next
    case ne: False
    show ?thesis
    proof (cases "s = Null \<or> t = Null")
      case True
      then show ?thesis using ne by (cases s; cases t) auto
    next
      case False
      then obtain a i r v ts b j q w us where st: "s = Node a i r v ts" "t = Node b j q w us"
        by (meson tree.exhaust)
      from Suc.prems st obtain m n where m: "nodes h a = Some m" and n: "nodes h b = Some n" by auto
      have sm: "node_id m = i \<and> rule_id m = r \<and> val_ok m v \<and> kids_ok m ts \<and> (\<forall>t\<in>set ts. view h t)"
        and tn: "node_id n = j \<and> rule_id n = q \<and> val_ok n w \<and> kids_ok n us \<and> (\<forall>t\<in>set us. view h t)"
        using view_node Suc.prems m n st by blast+
      have len: "unat (val_len m) = length v" "unat (val_len n) = length w"
        "unat (subnode_count m) = length ts" "unat (subnode_count n) = length us"
        using sm tn by (auto simp: val_ok_def kids_ok_def)
      have vl: "val_len m = val_len n \<longleftrightarrow> length v = length w"
        and sc: "subnode_count m = subnode_count n \<longleftrightarrow> length ts = length us"
        using len by (metis word_unat_eq_iff)+
      have IH: "node_equal k (root_ptr (ts ! x)) (root_ptr (us ! x)) h = Some (erase (ts ! x) = erase (us ! x))"
        if "x < length ts" "length ts = length us" for x
        using that sm tn Suc.prems(3) st height_kid [of "ts ! x" ts a i r v]
        by (intro Suc.IH) (auto simp: less_Suc_eq_le)
      have loop: "loopM (\<lambda>i _. do {
               sa \<leftarrow> sub_at h (Some a) i;
               sb \<leftarrow> sub_at h (Some b) i;
               e \<leftarrow> node_equal k sa sb h;
               Some (if e then Inr () else Inl False)
             }) [0..<length ts] () =
          Some (if \<forall>x<length ts. erase (ts ! x) = erase (us ! x) then Inr () else Inl False)"
        if "length ts = length us"
        by (subst loopM_check [where P = "\<lambda>x. erase (ts ! x) = erase (us ! x)"])
          (use sm tn that in \<open>auto simp: kids_ok_sub_at [OF m] kids_ok_sub_at [OF n] IH\<close>)
      have me: "map erase ts = map erase us \<longleftrightarrow>
          length ts = length us \<and> (\<forall>x<length ts. erase (ts ! x) = erase (us ! x))"
        by (auto simp: list_eq_iff_nth_eq)
      have mrm: "mem_read (val_buf m) (unat (val_len m)) = Some v" using sm mem_read_ok by blast
      have mrn: "mem_read (val_buf n) (unat (val_len m)) = Some w" if "length v = length w"
        using tn mem_read_ok vl that by metis
      show ?thesis
        using ne st m n sm tn len(3) mrm mrn loop by (auto simp: vl sc me)
    qed
  qed
qed simp

end
