(* ===== verification/Tree_Clone.thy ===== *)
theory Tree_Clone
  imports Tree_Rep
begin

text \<open>
  \<open>node_clone\<close> of Grammar-Mutator/src/tree.c: while memory lasts, the clone is a new tree
  of the same shape and values, with parent pointers of its own, and nothing that existed
  before changes.
\<close>

section \<open>Building nodes\<close>

definition new_node :: "u32 \<Rightarrow> node_t" where
  "new_node i = zero_node\<lparr>node_id := i, non_term_size := (if i = 0 then 0 else 1)\<rparr>"

lemma node_create_ok:
  "mem_ok h \<Longrightarrow> node_create i h = (Some (brk h), (wr (brk h) (new_node i) h)\<lparr>brk := Suc (brk h)\<rparr>)"
  by (simp add: node_create_def new_node_def zero_node_def Let_def)

lemma node_create_fail: "avail h = Some 0 \<Longrightarrow> node_create i h = (None, h)"
  by (simp add: node_create_def)

lemma brk_upd_simps [simp]:
  "nodes (h\<lparr>brk := b\<rparr>) = nodes h" "avail (h\<lparr>brk := b\<rparr>) = avail h"
  "heap.more (h\<lparr>brk := b\<rparr>) = heap.more h"
  by simp_all

lemma grows_create:
  "heap_ok h \<Longrightarrow> grows h ((wr (brk h) n h)\<lparr>brk := Suc (brk h)\<rparr>)"
  by (auto simp: grows_def heap_ok_def)

lemma grows_wr_new: "grows h0 h \<Longrightarrow> brk h0 \<le> a \<Longrightarrow> a < brk h \<Longrightarrow> grows h0 (wr a n h)"
  by (auto simp: grows_def heap_ok_def)

text \<open>The value is stored: the length and the bytes become those of the source.\<close>

lemma node_set_val_ok:
  assumes "mem_ok h" and "nodes h a = Some n" and "buf_ok (val_buf n, val_size n)"
    and "take (length v) src = map Some v" and "length v \<le> length src"
    and "len = of_nat (length v)" and "length v < 2 ^ 32" and "v \<noteq> []"
  shows "\<exists>m. node_set_val (Some a) (Some src) len h = Some (wr a m h) \<and> val_ok m v \<and>
    m = n\<lparr>val_buf := val_buf m, val_size := val_size m, val_len := val_len m\<rparr>"
proof -
  have ul: "unat len = length v" and u32: "unat (ucast len :: u32) = length v"
    using assms(6,7) by (auto simp: unat_of_nat_u64 unat_ucast_64_32)
  then have l0: "len \<noteq> 0" using assms(8) by auto
  obtain dst s where g: "maybe_grow (val_buf n, val_size n) len h = ((Some dst, s), h)"
    using maybe_grow_total assms(1,3) by blast
  have sz: "len \<le> s" "length dst = unat s"
    using maybe_grow_size [OF g assms(3)] by auto
  then have ld: "length v \<le> length dst" using ul by (simp add: word_le_nat_alt)
  then obtain d where d: "memcpy_at dst 0 (map Some v) = Some d"
    using memcpy_at_total [of 0 "map Some v" dst] by auto
  note dp = memcpy_at_Some [OF d]
  have sl: "mem_slice src 0 (unat len) = Some (map Some v)"
    using assms(4,5) ul by (simp add: mem_slice_def)
  define m where "m = n\<lparr>val_buf := Some d, val_size := s, val_len := ucast len\<rparr>"
  have eq: "n\<lparr>val_size := s, val_len := ucast len, val_buf := Some d\<rparr> = m"
    by (cases n) (simp add: m_def)
  have "node_set_val (Some a) (Some src) len h = Some (wr a m h)"
    using l0 assms(2) g sl d by (simp add: node_set_val_def upd_Some eq)
  moreover have "val_ok m v"
    using u32 dp sz ld by (auto simp: val_ok_def m_def)
  ultimately show ?thesis by (auto simp: m_def)
qed

lemma node_set_val_empty [simp]: "node_set_val p src 0 h = Some h"
  by (simp add: node_set_val_def)

section \<open>Parents and sizes\<close>

lemma parents_root:
  assumes "parents h par t" and "distinct (anns t)"
    and "\<And>a. a \<in> set (anns t) \<Longrightarrow> root_ptr t \<noteq> Some a \<Longrightarrow> nodes h' a = nodes h a"
    and "\<And>a. root_ptr t = Some a \<Longrightarrow> \<exists>n. nodes h' a = Some n \<and> parent n = par'"
  shows "parents h' par' t"
proof (cases t)
  case (Node a i r v ts)
  have "parents h' (Some a) u" if u: "u \<in> set ts" for u
  proof (rule parents_cong)
    show "parents h (Some a) u" using assms(1) u Node by auto
    fix b assume "b \<in> set (anns u)"
    then show "nodes h' b = nodes h b"
      using assms(2,3) u Node by fastforce
  qed
  then show ?thesis using assms(4) Node by auto
qed simp

lemma sized_frame:
  assumes "sized h t"
    and "\<And>a n. a \<in> set (anns t) \<Longrightarrow> nodes h a = Some n \<Longrightarrow> \<exists>m. nodes h' a = Some m \<and>
      non_term_size m = non_term_size n \<and> recursion_edge_size m = recursion_edge_size n"
  shows "sized h' t"
  using assms
proof (induction t)
  case (Node a i r v ts)
  from Node.prems(1) obtain n where n: "nodes h a = Some n"
    "non_term_size n = of_nat (nt_size (Node a i r v ts))"
    "recursion_edge_size n = of_nat (re_size (Node a i r v ts))" "\<forall>t\<in>set ts. sized h t" by auto
  from Node.prems(2) [OF _ n(1)] obtain m where m: "nodes h' a = Some m"
    "non_term_size m = non_term_size n" "recursion_edge_size m = recursion_edge_size n" by auto
  have "\<forall>t\<in>set ts. sized h' t" using Node.IH Node.prems(2) n(4) by fastforce
  then show ?case using n m by simp
qed simp

lemma nt_size_erase: "erase s = erase t \<Longrightarrow> nt_size s = nt_size t"
  by (metis nt_size_map)

lemma re_size_erase: "erase s = erase t \<Longrightarrow> re_size s = re_size t"
  by (metis re_size_map)

lemma erase_sizes:
  assumes "map erase us = map erase ts"
  shows "map nt_size us = map nt_size ts"
    and "map (\<lambda>t. rec_edge i t + re_size t) us = map (\<lambda>t. rec_edge i t + re_size t) ts"
proof -
  have "map nt_size (map erase us) = map nt_size (map erase ts)"
    "map (\<lambda>t. rec_edge i t + re_size t) (map erase us) = map (\<lambda>t. rec_edge i t + re_size t) (map erase ts)"
    using assms by simp_all
  then show "map nt_size us = map nt_size ts"
    "map (\<lambda>t. rec_edge i t + re_size t) us = map (\<lambda>t. rec_edge i t + re_size t) ts"
    by (simp_all add: comp_def)
qed

section \<open>The loop over the subnodes\<close>

definition clone_body ::
    "(ptr \<Rightarrow> 'z heap_scheme \<Rightarrow> (ptr \<times> 'z heap_scheme) option) \<Rightarrow> ptr \<Rightarrow> ptr \<Rightarrow> nat
      \<Rightarrow> 'z heap_scheme \<Rightarrow> 'z heap_scheme option" where
  "clone_body rec p q i h = do {
     s \<leftarrow> sub_at h p i;
     (c, h) \<leftarrow> rec s h;
     node_set_subnode q (of_nat i) c h
   }"

lemma node_clone_unfold:
  "node_clone (Suc k) p h =
    (if p = None then Some (None, h)
     else do {
       n \<leftarrow> rd h p;
       let (q, h) = node_create (node_id n) h in do {
       h \<leftarrow> upd q (\<lambda>m. m\<lparr>rule_id := rule_id n, recursion_edge_size := recursion_edge_size n,
                         non_term_size := non_term_size n\<rparr>) h;
       h \<leftarrow> node_set_val q (val_buf n) (ucast (val_len n)) h;
       h \<leftarrow> upd q (val_len_update (\<lambda>_. val_len n)) h;
       h \<leftarrow> (if subnode_count n \<noteq> 0 then do {
               h \<leftarrow> node_init_subnodes q (ucast (subnode_count n)) h;
               foldM (clone_body (node_clone k) p q) [0..<unat (subnode_count n)] h
             } else Some h);
       Some (q, h)
     }})"
  unfolding node_clone.simps clone_body_def [abs_def] by (rule refl)

definition fresh_copy :: "'z heap_scheme \<Rightarrow> nat tree \<Rightarrow> 'z heap_scheme \<Rightarrow> nat tree \<Rightarrow> bool" where
  "fresh_copy h t h' t' \<longleftrightarrow> grows h h' \<and> rep h' None t' \<and>
     (\<forall>a\<in>set (anns t'). brk h \<le> a \<and> a < brk h') \<and> erase t' = erase t \<and> (sized h t \<longrightarrow> sized h' t')"

definition copying ::
    "bool \<Rightarrow> 'z heap_scheme \<Rightarrow> nat \<Rightarrow> node_t \<Rightarrow> nat tree list \<Rightarrow> nat \<Rightarrow> 'z heap_scheme \<Rightarrow> bool" where
  "copying sz h0 q m us k h \<longleftrightarrow> grows h0 h \<and> brk h0 \<le> q \<and> q < brk h \<and>
     nodes h q = Some (m\<lparr>subnodes := Some (map (\<lambda>t. Some (root_ptr t)) us @ replicate k (Some None))\<rparr>) \<and>
     (\<forall>t\<in>set us. view h t \<and> parents h (Some q) t \<and> (sz \<longrightarrow> sized h t)) \<and> distinct (concat (map anns us)) \<and>
     (\<forall>a\<in>set (concat (map anns us)). q < a \<and> a < brk h)"

lemma set_subnode_ok:
  assumes "nodes h q = Some m" and "node_id m \<noteq> 0" and "subnodes m = Some arr"
    and "i < length arr" and "i < unat (subnode_count m)"
    and "\<And>a. root_ptr t = Some a \<Longrightarrow> a \<noteq> q \<and> nodes h a \<noteq> None"
  shows "node_set_subnode (Some q) (of_nat i) (root_ptr t) h =
    Some (let h1 = wr q (m\<lparr>subnodes := Some (arr[i := Some (root_ptr t)])\<rparr>) h in
      case root_ptr t of None \<Rightarrow> h1 | Some a \<Rightarrow> wr a ((the (nodes h a))\<lparr>parent := Some q\<rparr>) h1)"
proof -
  have "i < 2 ^ 32" using less_trans [OF assms(5) unat_u32_less] by simp
  then have i64: "unat (of_nat i :: u64) = i" by (simp add: unat_of_nat_u64)
  have "\<not> ucast (subnode_count m) \<le> (of_nat i :: u64)"
    using assms(5) i64 by (simp add: word_le_nat_alt)
  then show ?thesis
    using assms i64 by (cases "root_ptr t") (auto simp: node_set_subnode_def set_sub_at_def upd_def Let_def)
qed

lemma copying_step:
  assumes inv: "copying sz h0 q m us (Suc k) h" and fc: "fresh_copy h t h1 t'"
    and m: "node_id m \<noteq> 0" "unat (subnode_count m) = length us + Suc k"
    and sz: "sz \<Longrightarrow> sized h t"
  shows "\<exists>h2. node_set_subnode (Some q) (of_nat (length us)) (root_ptr t') h1 = Some h2 \<and>
     copying sz h0 q m (us @ [t']) k h2"
proof -
  define arr where "arr = map (\<lambda>t. Some (root_ptr t)) us @ replicate (Suc k) (Some None)"
  note iv = inv [unfolded copying_def, folded arr_def]
  note fr = fc [unfolded fresh_copy_def]
  have g: "grows h h1" and r: "view h1 t'" "parents h1 None t'" "distinct (anns t')"
    and new: "\<And>a. a \<in> set (anns t') \<Longrightarrow> brk h \<le> a \<and> a < brk h1"
    using fr by (auto simp: rep_def)
  have qh: "q < brk h" and hq: "nodes h1 q = Some (m\<lparr>subnodes := Some arr\<rparr>)"
    using iv growsD(5) [OF g, of q] by auto
  have nq: "a \<noteq> q \<and> nodes h1 a \<noteq> None" if "root_ptr t' = Some a" for a
    using that new [OF root_ptr_in_anns [OF that]] qh view_in_heap [OF r(1) root_ptr_in_anns [OF that]]
    by auto
  define arr' where "arr' = arr[length us := Some (root_ptr t')]"
  define hq1 where "hq1 = wr q (m\<lparr>subnodes := Some arr'\<rparr>) h1"
  define h2 where "h2 = (case root_ptr t' of None \<Rightarrow> hq1
     | Some a \<Rightarrow> wr a ((the (nodes h1 a))\<lparr>parent := Some q\<rparr>) hq1)"
  have arr': "arr' = map (\<lambda>t. Some (root_ptr t)) (us @ [t']) @ replicate k (Some None)"
    by (simp add: arr'_def arr_def list_update_append)
  have step: "node_set_subnode (Some q) (of_nat (length us)) (root_ptr t') h1 = Some h2"
  proof -
    have "length us < length arr" by (simp add: arr_def)
    moreover have "a \<noteq> q \<and> nodes h1 a \<noteq> None" if "root_ptr t' = Some a" for a using nq that by blast
    ultimately have "node_set_subnode (Some q) (of_nat (length us)) (root_ptr t') h1 =
       Some (let h1' = wr q ((m\<lparr>subnodes := Some arr\<rparr>)\<lparr>subnodes := Some (arr[length us := Some (root_ptr t')])\<rparr>) h1
        in case root_ptr t' of None \<Rightarrow> h1' | Some a \<Rightarrow> wr a ((the (nodes h1 a))\<lparr>parent := Some q\<rparr>) h1')"
      using m by (intro set_subnode_ok [OF hq]) auto
    then show ?thesis by (simp add: Let_def flip: arr'_def h2_def hq1_def)
  qed
  have n2: "nodes h2 a = nodes h1 a" if "a \<noteq> q" "root_ptr t' \<noteq> Some a" for a
    using that by (auto simp: h2_def hq1_def split: option.splits)
  have n2r: "nodes h2 a = Some ((the (nodes h1 a))\<lparr>parent := Some q\<rparr>)" if "root_ptr t' = Some a" for a
    using that by (auto simp: h2_def hq1_def)
  have n2q: "nodes h2 q = Some (m\<lparr>subnodes := Some arr'\<rparr>)"
    using nq by (auto simp: h2_def hq1_def split: option.splits)
  have b2: "brk h2 = brk h1" "avail h2 = avail h1" "heap.more h2 = heap.more h1"
    by (auto simp: h2_def hq1_def split: option.splits)
  have q1: "q < brk h1" and q0: "brk h0 \<le> q" using iv qh growsD(3) [OF g] by auto
  have "grows h0 h1" using iv grows_trans [OF _ g] by blast
  then have "grows h0 hq1" unfolding hq1_def using q1 q0 by (intro grows_wr_new) auto
  moreover have "brk hq1 = brk h1" by (simp add: hq1_def)
  ultimately have g2: "grows h0 h2"
    unfolding h2_def using new root_ptr_in_anns [of t'] qh q0
    by (auto split: option.splits intro!: grows_wr_new) (meson le_trans less_imp_le)
  have old: "view h2 u \<and> parents h2 (Some q) u \<and> (sz \<longrightarrow> sized h2 u)" if u: "u \<in> set us" for u
  proof -
    have same: "nodes h2 a = nodes h a" if a: "a \<in> set (anns u)" for a
    proof -
      have "q < a \<and> a < brk h" using iv u a by auto
      then show ?thesis using n2 [of a] growsD(5) [OF g, of a] new root_ptr_in_anns [of t' a] by fastforce
    qed
    have "view h u \<and> parents h (Some q) u \<and> (sz \<longrightarrow> sized h u)" using iv u by blast
    then show ?thesis using view_cong parents_cong sized_cong same by blast
  qed
  have nr: "\<exists>m'. nodes h2 a = Some m' \<and> strip m' = strip n \<and> non_term_size m' = non_term_size n \<and>
      recursion_edge_size m' = recursion_edge_size n"
    if "a \<in> set (anns t')" "nodes h1 a = Some n" for a n
    using that n2 [of a] n2r [of a] new [OF that(1)] qh by (cases "root_ptr t' = Some a") (auto simp: strip_def)
  have "view h2 t'" using r(1) by (rule view_frame) (use nr in blast)
  moreover have "parents h2 (Some q) t'"
  proof (rule parents_root [OF r(2,3)])
    fix a assume "a \<in> set (anns t')" "root_ptr t' \<noteq> Some a"
    then show "nodes h2 a = nodes h1 a" using n2 [of a] new [of a] qh by auto
  next
    fix a assume "root_ptr t' = Some a"
    then show "\<exists>n. nodes h2 a = Some n \<and> parent n = Some q" using n2r by simp
  qed
  moreover have "sz \<longrightarrow> sized h2 t'"
  proof
    assume sz
    then have "sized h1 t'" using fr assms(5) by blast
    then show "sized h2 t'" by (rule sized_frame) (use nr in blast)
  qed
  moreover have "distinct (concat (map anns (us @ [t'])))"
    using iv r(3) new by fastforce
  moreover have "\<forall>a\<in>set (concat (map anns (us @ [t']))). q < a \<and> a < brk h2"
    using iv new qh b2 growsD(3) [OF g] by fastforce
  ultimately have "copying sz h0 q m (us @ [t']) k h2"
    unfolding copying_def using g2 q0 q1 b2 n2q arr' old by auto
  with step show ?thesis by blast
qed


lemma copying_loop:
  fixes h h0 :: "'z heap_scheme"
  assumes inv: "copying sz h0 q m us (length ts) h" and h0: "heap_ok h0" "mem_ok h0"
    and m: "node_id m \<noteq> 0" "unat (subnode_count m) = length us + length ts"
    and orig: "\<And>j. j < length ts \<Longrightarrow> sub_at h0 p (length us + j) = Some (root_ptr (ts ! j))"
    and p: "p = Some a" "a < brk h0"
    and views: "\<forall>t\<in>set ts. view h0 t \<and> (sz \<longrightarrow> sized h0 t)"
    and IH: "\<And>t (h :: 'z heap_scheme). t \<in> set ts \<Longrightarrow> view h t \<Longrightarrow> heap_ok h \<Longrightarrow> mem_ok h \<Longrightarrow>
      \<exists>t' h'. node_clone k (root_ptr t) h = Some (root_ptr t', h') \<and> fresh_copy h t h' t'"
  shows "\<exists>us' h'. foldM (clone_body (node_clone k) p (Some q)) [length us..<length us + length ts] h = Some h' \<and>
      copying sz h0 q m (us @ us') 0 h' \<and> map erase us' = map erase ts"
  using inv m orig views IH
proof (induction ts arbitrary: us h)
  case Nil
  then show ?case by (intro exI [of _ "[]"] exI [of _ h]) simp
next
  case (Cons t ts)
  have g: "grows h0 h" using Cons.prems(1) by (simp add: copying_def)
  have hk: "heap_ok h" "mem_ok h" using growsD [OF g] h0 by auto
  have vt: "view h t" "sz \<Longrightarrow> sized h t"
    using Cons.prems(5) view_grows [OF _ h0(1) g] sized_cong grows_same [OF _ h0(1) g] by auto blast
  have s0: "sub_at h p (length us) = Some (root_ptr t)"
    using Cons.prems(4) [of 0] growsD(5) [OF g p(2)] p(1) by (simp add: sub_at_def)
  obtain t' h1 where c: "node_clone k (root_ptr t) h = Some (root_ptr t', h1)" "fresh_copy h t h1 t'"
    using Cons.prems(6) [of t h] vt hk by auto
  obtain h2 where h2: "node_set_subnode (Some q) (of_nat (length us)) (root_ptr t') h1 = Some h2"
    "copying sz h0 q m (us @ [t']) (length ts) h2"
    using copying_step [OF _ c(2), of sz h0 q m us "length ts"] Cons.prems(1,2,3) vt(2) by auto
  have step: "clone_body (node_clone k) p (Some q) (length us) h = Some h2"
    using s0 c(1) h2(1) by (simp add: clone_body_def)
  have "\<exists>us' h'. foldM (clone_body (node_clone k) p (Some q)) [length (us @ [t'])..<length (us @ [t']) + length ts] h2 = Some h' \<and>
      copying sz h0 q m ((us @ [t']) @ us') 0 h' \<and> map erase us' = map erase ts"
  proof (rule Cons.IH)
    show "sub_at h0 p (length (us @ [t']) + j) = Some (root_ptr (ts ! j))" if "j < length ts" for j
      using Cons.prems(4) [of "Suc j"] that by simp
  qed (use Cons.prems h2 in auto)
  then obtain us' h' where f: "foldM (clone_body (node_clone k) p (Some q)) [Suc (length us)..<length us + Suc (length ts)] h2 = Some h'"
      "copying sz h0 q m (us @ t' # us') 0 h'" "map erase us' = map erase ts"
    by auto
  have "[length us..<length us + length (t # ts)] = length us # [Suc (length us)..<length us + length (t # ts)]"
    by (rule upt_conv_Cons) simp
  then show ?case
    using f c(2) step
    by (intro exI [of _ "t' # us'"] exI [of _ h']) (auto simp: fresh_copy_def)
qed

section \<open>node_clone\<close>

lemma init_subnodes_ok:
  assumes "mem_ok h" and "nodes h q = Some m" and "node_id m \<noteq> 0" and "subnodes m = None"
    and "c \<noteq> (0::u32)"
  shows "node_init_subnodes (Some q) (ucast c) h = Some (wr q (m\<lparr>subnodes :=
    Some (replicate (unat c) (Some None)), subnode_count := c\<rparr>) h)"
proof -
  have "(ucast c :: u64) \<noteq> 0" using assms(5) by (metis unat_ucast_32_64 unat_eq_zero)
  moreover have "ucast (ucast c :: u64) = c"
    by (rule word_unat_eq_iff [THEN iffD2]) (simp add: unat_ucast_64_32)
  ultimately show ?thesis
    using assms by (simp add: node_init_subnodes_def upd_Some)
qed

lemma clone_value:
  assumes "mem_ok h" and "nodes h q = Some m" and "val_ok n v"
    and "val_buf m = None" "val_size m = 0" "val_len m = 0"
  shows "\<exists>m'. Option.bind (node_set_val (Some q) (val_buf n) (ucast (val_len n)) h)
        (upd (Some q) (val_len_update (\<lambda>_. val_len n))) = Some (wr q m' h) \<and>
      val_ok m' v \<and> m' = m\<lparr>val_buf := val_buf m', val_size := val_size m', val_len := val_len m'\<rparr>"
proof (cases "v = []")
  case True
  then have 0: "val_len n = 0" using assms(3) by (simp add: val_ok_def unat_eq_zero)
  have "wr q (m\<lparr>val_len := 0\<rparr>) h = wr q m h" using assms(6) by (cases m) simp
  with 0 True assms show ?thesis by (intro exI [of _ m]) (auto simp: upd_Some val_ok_def)
next
  case False
  then obtain b where b: "val_buf n = Some b" "length v \<le> length b" "take (length v) b = map Some v"
    and len: "unat (val_len n) = length v"
    using assms(3) by (auto simp: val_ok_def)
  have l: "length v < 2 ^ 32" using unat_u32_less [of "val_len n"] len by simp
  have ol: "(ucast (val_len n) :: u64) = of_nat (length v)"
    by (rule word_unat_eq_iff [THEN iffD2]) (use len l in \<open>simp add: unat_of_nat_u64\<close>)
  obtain m' where m': "node_set_val (Some q) (Some b) (ucast (val_len n)) h = Some (wr q m' h)"
    "val_ok m' v" "m' = m\<lparr>val_buf := val_buf m', val_size := val_size m', val_len := val_len m'\<rparr>"
    using node_set_val_ok [OF assms(1,2) _ b(3,2) ol l False] assms(4,5) by auto
  have "val_len m' = val_len n"
    using m'(2) len by (simp add: val_ok_def word_unat_eq_iff)
  then have "m'\<lparr>val_len := val_len n\<rparr> = m'" by (cases m') simp
  then show ?thesis using m' b(1) by (intro exI [of _ m']) (simp add: upd_Some)
qed

lemma node_clone_view:
  fixes h :: "'z heap_scheme"
  assumes "view h t" and "heap_ok h" and "mem_ok h" and "height t < k"
  shows "\<exists>t' h'. node_clone k (root_ptr t) h = Some (root_ptr t', h') \<and> fresh_copy h t h' t'"
  using assms
proof (induction k arbitrary: t h)
  case (Suc k)
  show ?case
  proof (cases t)
    case Null
    then show ?thesis
      using Suc.prems(2) by (intro exI [of _ Null] exI [of _ h]) (auto simp: fresh_copy_def rep_def)
  next
    case (Node a i r v ts)
    then obtain n where n: "nodes h a = Some n" using Suc.prems(1) by auto
    have nv: "node_id n = i \<and> rule_id n = r \<and> val_ok n v \<and> kids_ok n ts \<and> (\<forall>t\<in>set ts. view h t)"
      using view_node Suc.prems(1) n Node by blast
    have a: "a < brk h" using heap_okD Suc.prems(2) n by blast
    define q where "q = brk h"
    define h1 where "h1 = (wr q (new_node i) h)\<lparr>brk := Suc q\<rparr>"
    have c: "node_create (node_id n) h = (Some q, h1)"
      using Suc.prems(3) nv by (simp add: node_create_ok q_def h1_def)
    define m1 where "m1 = (new_node i)\<lparr>rule_id := r, recursion_edge_size := recursion_edge_size n,
      non_term_size := non_term_size n\<rparr>"
    define h2 where "h2 = wr q m1 h1"
    have u1: "upd (Some q) (\<lambda>m. m\<lparr>rule_id := rule_id n, recursion_edge_size := recursion_edge_size n,
        non_term_size := non_term_size n\<rparr>) h1 = Some h2"
      using nv by (simp add: upd_def h1_def h2_def m1_def)
    have h2q: "nodes h2 q = Some m1" "mem_ok h2" using Suc.prems(3) by (simp_all add: h2_def h1_def)
    have m1z: "val_buf m1 = None" "val_size m1 = 0" "val_len m1 = 0" "parent m1 = None"
      "subnodes m1 = None" "subnode_count m1 = 0" "node_id m1 = i" "rule_id m1 = r"
      by (simp_all add: m1_def new_node_def zero_node_def)
    obtain m2 where m2: "Option.bind (node_set_val (Some q) (val_buf n) (ucast (val_len n)) h2)
        (upd (Some q) (val_len_update (\<lambda>_. val_len n))) = Some (wr q m2 h2)" "val_ok m2 v"
      and m2m: "m2 = m1\<lparr>val_buf := val_buf m2, val_size := val_size m2, val_len := val_len m2\<rparr>"
      using clone_value [OF h2q(2,1) _ m1z(1,2,3), of n v] nv by blast
    define h3 where "h3 = wr q m2 h2"
    have m2f: "node_id m2 = i" "rule_id m2 = r" "parent m2 = None" "subnodes m2 = None"
      "subnode_count m2 = 0" "recursion_edge_size m2 = recursion_edge_size n"
      "non_term_size m2 = non_term_size n"
      using m1z by (subst m2m; simp add: m1_def)+
    have h3e: "h3 = (wr q m2 h)\<lparr>brk := Suc q\<rparr>"
      by (simp add: h3_def h2_def h1_def wr_def)
    have g3: "grows h h3" unfolding h3e q_def using Suc.prems(2) by (rule grows_create)
    have h3: "nodes h3 q = Some m2" "mem_ok h3" "brk h3 = Suc q" using Suc.prems(3) by (simp_all add: h3e)
    have sz: "sized h t \<Longrightarrow> non_term_size n = of_nat (nt_size t) \<and>
        recursion_edge_size n = of_nat (re_size t) \<and> (\<forall>u\<in>set ts. sized h u)"
      using Node n by auto
    show ?thesis
    proof (cases "ts = []")
      case True
      then have "subnode_count n = 0" using nv by (simp add: kids_ok_def unat_eq_zero)
      then have run: "node_clone (Suc k) (root_ptr t) h = Some (Some q, h3)"
        using Node n c u1 m2(1) by (simp add: node_clone_unfold h3_def del: node_clone.simps flip: bind_assoc)
      have "fresh_copy h t h3 (Node q i r v [])"
        using g3 h3 m2f m2(2) sz True Node q_def
        by (auto simp: fresh_copy_def rep_def kids_ok_def)
      with run show ?thesis by (metis root_ptr_simps(2))
    next
      case False
      have cnt: "unat (subnode_count n) = length ts" "subnode_count n \<noteq> 0" "i \<noteq> 0"
        using nv False by (auto simp: kids_ok_def)
      define m where "m = m2\<lparr>subnode_count := subnode_count n\<rparr>"
      define h4 where "h4 = wr q (m\<lparr>subnodes := Some (replicate (length ts) (Some None))\<rparr>) h3"
      have "m2\<lparr>subnodes := Some (replicate (length ts) (Some None)), subnode_count := subnode_count n\<rparr>
          = m\<lparr>subnodes := Some (replicate (length ts) (Some None))\<rparr>"
        by (cases m2) (simp add: m_def)
      then have init: "node_init_subnodes (Some q) (ucast (subnode_count n)) h3 = Some h4"
        using init_subnodes_ok [OF h3(2,1) _ m2f(4) cnt(2)] cnt m2f(1) by (simp add: h4_def)
      have cp: "copying (sized h t) h q m [] (length ts) h4"
        using g3 h3 by (auto simp: copying_def h4_def q_def intro!: grows_wr_new)
      have "\<exists>us h'. foldM (clone_body (node_clone k) (Some a) (Some q)) [length ([]::nat tree list)..<length ([]::nat tree list) + length ts] h4 = Some h' \<and>
          copying (sized h t) h q m ([] @ us) 0 h' \<and> map erase us = map erase ts"
      proof (rule copying_loop [OF cp Suc.prems(2,3)])
        show "node_id m \<noteq> 0" "unat (subnode_count m) = length ([]::nat tree list) + length ts"
          using cnt m2f by (simp_all add: m_def)
        show "sub_at h (Some a) (length ([]::nat tree list) + j) = Some (root_ptr (ts ! j))"
          if "j < length ts" for j
          using kids_ok_sub_at [OF n] nv that by simp
        show "\<forall>u\<in>set ts. view h u \<and> (sized h t \<longrightarrow> sized h u)" using nv sz by blast
        fix u and h' :: "'z heap_scheme" assume "u \<in> set ts" "view h' u" "heap_ok h'" "mem_ok h'"
        then show "\<exists>t' h''. node_clone k (root_ptr u) h' = Some (root_ptr t', h'') \<and> fresh_copy h' u h'' t'"
          using Suc.prems(4) Node height_kid [of u ts a i r v] by (intro Suc.IH) auto
      qed (use a in auto)
      then obtain us h5 where loop: "foldM (clone_body (node_clone k) (Some a) (Some q)) [0..<length ts] h4 = Some h5"
        and us: "copying (sized h t) h q m us 0 h5" "map erase us = map erase ts" by auto
      have run: "node_clone (Suc k) (root_ptr t) h = Some (Some q, h5)"
        using Node n c u1 m2(1) cnt init loop by (simp add: node_clone_unfold h3_def del: node_clone.simps flip: bind_assoc)
      have len: "length us = length ts" using us(2) map_eq_imp_length_eq by blast
      have "kids_ok (m\<lparr>subnodes := Some (map (\<lambda>t. Some (root_ptr t)) us)\<rparr>) us"
        using cnt len m2f by (simp add: kids_ok_def m_def)
      moreover have "val_ok (m\<lparr>subnodes := Some (map (\<lambda>t. Some (root_ptr t)) us)\<rparr>) v"
        using m2(2) by (simp add: val_ok_def m_def)
      moreover have "sum_list (map nt_size us) = sum_list (map nt_size ts)"
        "sum_list (map (\<lambda>t. rec_edge i t + re_size t) us) = sum_list (map (\<lambda>t. rec_edge i t + re_size t) ts)"
        using erase_sizes [OF us(2)] by simp_all
      ultimately have "fresh_copy h t h5 (Node q i r v us)"
        using us sz Node q_def m2f cnt(3)
        by (auto simp: fresh_copy_def rep_def copying_def m_def intro: less_imp_le)
      with run show ?thesis by (metis root_ptr_simps(2))
    qed
  qed
qed simp

end
