(* ===== verification/Tree_Size.thy ===== *)
theory Tree_Size
  imports Tree_Clone
begin

text \<open>
  \<open>node_get_size\<close> and \<open>node_free\<close> of Grammar-Mutator/src/tree.c, on trees without sharing:
  the cached sizes become the numbers of nonterminals and recursion edges, and freeing
  releases exactly the nodes of the tree.
\<close>

section \<open>node\_get\_size\<close>

definition set_sizes :: "u64 \<Rightarrow> u64 \<Rightarrow> node_t \<Rightarrow> node_t" where
  "set_sizes x y n = n\<lparr>recursion_edge_size := x, non_term_size := y\<rparr>"

lemma set_sizes_simps [simp]:
  "strip (set_sizes x y n) = strip n" "parent (set_sizes x y n) = parent n"
  "node_id (set_sizes x y n) = node_id n" "subnodes (set_sizes x y n) = subnodes n"
  "set_sizes x y (set_sizes z w n) = set_sizes x y n"
  "recursion_edge_size (set_sizes x y n) = x" "non_term_size (set_sizes x y n) = y"
  "set_sizes (recursion_edge_size n) (non_term_size n) n = n"
  by (simp_all add: set_sizes_def strip_def)

text \<open>A change of the size fields of the nodes in \<open>S\<close> and of nothing else.\<close>

definition sizes_only :: "nat set \<Rightarrow> 'z heap_scheme \<Rightarrow> 'z heap_scheme \<Rightarrow> bool" where
  "sizes_only S h h' \<longleftrightarrow> brk h' = brk h \<and> avail h' = avail h \<and> heap.more h' = heap.more h \<and>
     (\<forall>a. a \<notin> S \<longrightarrow> nodes h' a = nodes h a) \<and>
     (\<forall>a n. nodes h a = Some n \<longrightarrow>
        (\<exists>x y. nodes h' a = Some (set_sizes x y n)))"

lemma sizes_onlyD:
  assumes "sizes_only S h h'" and "nodes h a = Some n"
  obtains x y where "nodes h' a = Some (set_sizes x y n)"
  using assms unfolding sizes_only_def by blast

lemma sizes_only_refl [simp]: "sizes_only S h h"
  unfolding sizes_only_def using set_sizes_simps(8) by metis

lemma sizes_only_trans:
  assumes "sizes_only S h1 h2" and "sizes_only T h2 h3"
  shows "sizes_only (S \<union> T) h1 h3"
proof -
  have "\<exists>x y. nodes h3 a = Some (set_sizes x y n)"
    if n: "nodes h1 a = Some n" for a n
  proof -
    obtain x y where "nodes h2 a = Some (set_sizes x y n)"
      using sizes_onlyD [OF assms(1) n] by blast
    then show ?thesis by (rule sizes_onlyD [OF assms(2)]) (metis set_sizes_simps(5))
  qed
  then show ?thesis using assms by (auto simp: sizes_only_def)
qed

lemma sizes_only_wr:
  assumes "nodes h a = Some n"
  shows "sizes_only {a} h (wr a (set_sizes x y n) h)"
  unfolding sizes_only_def
proof (intro conjI allI impI)
  fix b m assume b: "nodes h b = Some m"
  show "\<exists>x' y'. nodes (wr a (set_sizes x y n) h) b = Some (set_sizes x' y' m)"
  proof (cases "b = a")
    case True
    with b assms show ?thesis by auto
  next
    case False
    with b have "nodes (wr a (set_sizes x y n) h) b =
        Some (set_sizes (recursion_edge_size m) (non_term_size m) m)" by simp
    then show ?thesis by blast
  qed
qed auto

lemma sizes_only_view: "view h t \<Longrightarrow> sizes_only S h h' \<Longrightarrow> view h' t"
  by (erule view_frame) (metis sizes_onlyD set_sizes_simps(1))

lemma sizes_only_parents: "parents h par t \<Longrightarrow> sizes_only S h h' \<Longrightarrow> parents h' par t"
proof (induction t arbitrary: par)
  case (Node a i r v ts)
  then obtain n where n: "nodes h a = Some n" "parent n = par" by auto
  have "\<exists>n. nodes h' a = Some n \<and> parent n = par"
    using sizes_onlyD [OF Node.prems(2) n(1)] n(2) by (metis set_sizes_simps(2))
  then show ?case using Node by auto
qed simp

lemma sizes_only_heap_ok:
  "sizes_only S h h' \<Longrightarrow> heap_ok h \<Longrightarrow> \<forall>a\<in>S. nodes h a \<noteq> None \<Longrightarrow> heap_ok h'"
  unfolding heap_ok_def sizes_only_def by metis

lemma of_nat_rec_edge:
  "(of_nat (rec_edge i (Node b j r v us)) :: u64) = (if i = j then 1 else 0)"
  by (simp add: rec_edge_def)

text \<open>The body of the loop, over the recursive call.\<close>

definition size_body ::
    "(ptr \<Rightarrow> 'z heap_scheme \<Rightarrow> 'z heap_scheme option) \<Rightarrow> u32 \<Rightarrow> ptr \<Rightarrow> nat
      \<Rightarrow> 'z heap_scheme \<Rightarrow> 'z heap_scheme option" where
  "size_body rec i p j h = do {
     s \<leftarrow> sub_at h p j;
     if s = None then Some h
     else do {
       sn \<leftarrow> rd h s;
       h \<leftarrow> (if i = node_id sn
             then upd p (recursion_edge_size_update (\<lambda>c. c + 1)) h else Some h);
       h \<leftarrow> rec s h;
       sn \<leftarrow> rd h s;
       upd p (\<lambda>n. n\<lparr>recursion_edge_size := recursion_edge_size n + recursion_edge_size sn,
                   non_term_size := non_term_size n + non_term_size sn\<rparr>) h
     }}"

lemma node_get_size_unfold:
  "node_get_size (Suc k) p h =
    (if p = None then Some h
     else do {
       n \<leftarrow> rd h p;
       if node_id n = 0 then
         upd p (\<lambda>n. n\<lparr>non_term_size := 0, recursion_edge_size := 0\<rparr>) h
       else do {
         h \<leftarrow> upd p (\<lambda>n. n\<lparr>non_term_size := 1, recursion_edge_size := 0\<rparr>) h;
         foldM (size_body (node_get_size k) (node_id n) p) [0..<unat (subnode_count n)] h
       }})"
  unfolding node_get_size.simps size_body_def [abs_def] by (rule refl)

text \<open>One iteration of the loop, on a child that is not NULL.\<close>

lemma get_size_step:
  fixes h :: "'z heap_scheme"
  assumes a: "nodes h a = Some n" and na: "a \<notin> set (anns t)"
    and t: "t = Node b j r v us" and vt: "view h t" and d: "distinct (anns t)"
    and rc: "node_get_size k (root_ptr t) h0 = Some h1" "sizes_only (set (anns t)) h0 h1" "sized h1 t"
    and h0: "h0 = (if i = j then wr a (n\<lparr>recursion_edge_size := recursion_edge_size n + 1\<rparr>) h else h)"
  shows "\<exists>h'. (do {
             sn \<leftarrow> rd h (root_ptr t);
             h \<leftarrow> (if i = node_id sn
                   then upd (Some a) (recursion_edge_size_update (\<lambda>c. c + 1)) h else Some h);
             h \<leftarrow> node_get_size k (root_ptr t) h;
             sn \<leftarrow> rd h (root_ptr t);
             upd (Some a) (\<lambda>n. n\<lparr>recursion_edge_size := recursion_edge_size n + recursion_edge_size sn,
                         non_term_size := non_term_size n + non_term_size sn\<rparr>) h
           }) = Some h' \<and> sizes_only (insert a (set (anns t))) h h' \<and> sized h' t \<and>
      nodes h' a = Some (set_sizes (recursion_edge_size n + of_nat (rec_edge i t + re_size t))
        (non_term_size n + of_nat (nt_size t)) n)" (is "\<exists>h'. ?run = Some h' \<and> _")
proof -
  obtain sn where sn: "nodes h b = Some sn" "node_id sn = j" using vt t by auto
  have ab: "a \<noteq> b" using na t by auto
  have u0: "(if i = node_id sn then upd (Some a) (recursion_edge_size_update (\<lambda>c. c + 1)) h else Some h) = Some h0"
    using sn h0 a upd_Some [OF a] by (cases n) auto
  define n0 where "n0 = (if i = j then n\<lparr>recursion_edge_size := recursion_edge_size n + 1\<rparr> else n)"
  have h0a: "nodes h0 a = Some n0" using h0 a by (auto simp: n0_def)
  have h1a: "nodes h1 a = Some n0" using rc(2) na h0a by (simp add: sizes_only_def)
  obtain sn' where sn': "nodes h1 b = Some sn'" "non_term_size sn' = of_nat (nt_size t)"
    "recursion_edge_size sn' = of_nat (re_size t)" using rc(3) t by auto
  define n' where "n' = n0\<lparr>recursion_edge_size := recursion_edge_size n0 + recursion_edge_size sn',
                         non_term_size := non_term_size n0 + non_term_size sn'\<rparr>"
  define h' where "h' = wr a n' h1"
  have n'e: "n' = set_sizes (recursion_edge_size n + of_nat (rec_edge i t + re_size t))
        (non_term_size n + of_nat (nt_size t)) n"
    by (cases n) (simp add: n'_def n0_def sn' t rec_edge_def set_sizes_def)
  have s0: "sizes_only {a} h h0"
  proof -
    have "h0 = wr a (set_sizes (recursion_edge_size n0) (non_term_size n) n) h"
      using h0 wr_same [OF a] by (cases n) (auto simp: n0_def set_sizes_def)
    then show ?thesis using sizes_only_wr [OF a] by simp
  qed
  have s1: "sizes_only (insert a (set (anns t))) h h1"
    using sizes_only_trans [OF s0 rc(2)] by simp
  have s2: "sizes_only {a} h1 h'"
    using sizes_only_wr [OF h1a] by (simp add: h'_def n'_def set_sizes_def)
  have s3: "sizes_only (insert a (set (anns t))) h h'"
    using sizes_only_trans [OF s1 s2] by (simp add: insert_absorb)
  have "sized h' t" using rc(3) by (rule sized_cong) (use na in \<open>auto simp: h'_def\<close>)
  moreover have "nodes h' a = Some n'" by (simp add: h'_def)
  moreover have "?run = Some h'"
    using sn u0 rc(1) sn'(1) t h1a by (simp add: upd_Some h'_def n'_def)
  ultimately show ?thesis using s3 n'e by blast
qed

lemma get_size_loop:
  fixes h :: "'z heap_scheme"
  assumes a: "nodes h a = Some n" "subnodes n = Some (map (\<lambda>t. Some (root_ptr t)) (us @ ts))"
    and na: "a \<notin> set (concat (map anns (us @ ts)))"
    and d: "distinct (concat (map anns (us @ ts)))" and v: "\<forall>t\<in>set ts. view h t"
    and IH: "\<And>t (h :: 'z heap_scheme). t \<in> set ts \<Longrightarrow> view h t \<Longrightarrow> distinct (anns t) \<Longrightarrow>
      \<exists>h'. node_get_size k (root_ptr t) h = Some h' \<and> sizes_only (set (anns t)) h h' \<and> sized h' t"
  shows "\<exists>h'. foldM (size_body (node_get_size k) i (Some a)) [length us..<length us + length ts] h = Some h' \<and>
      sizes_only (insert a (set (concat (map anns ts)))) h h' \<and> (\<forall>t\<in>set ts. sized h' t) \<and>
      nodes h' a = Some (set_sizes
        (recursion_edge_size n + of_nat (\<Sum>t\<leftarrow>ts. rec_edge i t + re_size t))
        (non_term_size n + of_nat (sum_list (map nt_size ts))) n)"
  using assms
proof (induction ts arbitrary: us h n)
  case Nil
  then show ?case
    by simp
next
  case (Cons t ts)
  let ?body = "size_body (node_get_size k) i (Some a)"
  define n1 where "n1 = set_sizes (recursion_edge_size n + of_nat (rec_edge i t + re_size t))
        (non_term_size n + of_nat (nt_size t)) n"
  have at: "a \<notin> set (anns t)" "distinct (anns t)" "view h t" using Cons.prems by auto
  have sub: "sub_at h (Some a) (length us) = Some (root_ptr t)"
    using Cons.prems(1,2) by (simp add: sub_at_def nth_append)
  have "\<exists>h1. ?body (length us) h = Some h1 \<and> sizes_only (insert a (set (anns t))) h h1 \<and>
      sized h1 t \<and> nodes h1 a = Some n1"
  proof (cases t)
    case Null
    then have "?body (length us) h = Some h" using sub by (simp add: size_body_def)
    moreover have "n1 = n" using Null by (simp add: n1_def rec_edge_def)
    ultimately show ?thesis
      using Cons.prems(1) Null by simp
  next
    case (Node b j r v vs)
    define h0 where "h0 = (if i = j then wr a (n\<lparr>recursion_edge_size := recursion_edge_size n + 1\<rparr>) h else h)"
    have "view h0 t" using at(3) by (rule view_cong) (use at(1) in \<open>auto simp: h0_def\<close>)
    then obtain h1 where h1: "node_get_size k (root_ptr t) h0 = Some h1"
      "sizes_only (set (anns t)) h0 h1" "sized h1 t"
      using Cons.prems(6) [of t h0] at by auto
    show ?thesis
      using get_size_step [OF Cons.prems(1) at(1) Node at(3,2) h1 h0_def] sub Node
      by (simp add: n1_def size_body_def)
  qed
  then obtain h1 where h1: "?body (length us) h = Some h1" "sizes_only (insert a (set (anns t))) h h1"
    "sized h1 t" "nodes h1 a = Some n1" by blast
  have v1: "\<forall>u\<in>set ts. view h1 u" using Cons.prems(5) sizes_only_view [OF _ h1(2)] by auto
  have upts: "length (us @ [t]) = Suc (length us)" "length (us @ [t]) + length ts = length us + length (t # ts)"
    by simp_all
  have "\<exists>h'. foldM ?body [length (us @ [t])..<length (us @ [t]) + length ts] h1 = Some h' \<and>
      sizes_only (insert a (set (concat (map anns ts)))) h1 h' \<and> (\<forall>t\<in>set ts. sized h' t) \<and>
      nodes h' a = Some (set_sizes
        (recursion_edge_size n1 + of_nat (\<Sum>t\<leftarrow>ts. rec_edge i t + re_size t))
        (non_term_size n1 + of_nat (sum_list (map nt_size ts))) n1)"
    by (rule Cons.IH [OF h1(4)]) (use Cons.prems v1 in \<open>auto simp: n1_def\<close>)
  then obtain h' where h': "foldM ?body [Suc (length us)..<length us + length (t # ts)] h1 = Some h'"
      "sizes_only (insert a (set (concat (map anns ts)))) h1 h'" "\<forall>t\<in>set ts. sized h' t"
      "nodes h' a = Some (set_sizes
        (recursion_edge_size n1 + of_nat (\<Sum>t\<leftarrow>ts. rec_edge i t + re_size t))
        (non_term_size n1 + of_nat (sum_list (map nt_size ts))) n1)"
    unfolding upts(2) by (auto simp del: upt_Suc)
  have dis: "set (anns t) \<inter> insert a (set (concat (map anns ts))) = {}"
    using Cons.prems(3,4) by auto
  have "sized h' t"
    using h1(3) by (rule sized_cong) (use h'(2) dis in \<open>unfold sizes_only_def, blast\<close>)
  moreover have "sizes_only (insert a (set (concat (map anns (t # ts))))) h h'"
    using sizes_only_trans [OF h1(2) h'(2)] by (simp add: Un_commute insert_commute Un_left_commute)
  moreover have "[length us..<length us + length (t # ts)] = length us # [Suc (length us)..<length us + length (t # ts)]"
    by (rule upt_conv_Cons) simp
  then have "foldM ?body [length us..<length us + length (t # ts)] h = Some h'"
    using h1(1) h'(1) by simp
  moreover have "set_sizes
        (recursion_edge_size n1 + of_nat (\<Sum>t\<leftarrow>ts. rec_edge i t + re_size t))
        (non_term_size n1 + of_nat (sum_list (map nt_size ts))) n1 =
      set_sizes (recursion_edge_size n + of_nat (\<Sum>t\<leftarrow>t # ts. rec_edge i t + re_size t))
        (non_term_size n + of_nat (sum_list (map nt_size (t # ts)))) n"
    by (simp add: n1_def ac_simps)
  ultimately show ?case using h'(3,4) by auto
qed

lemma node_get_size_rep:
  fixes h :: "'z heap_scheme"
  assumes "view h t" and "distinct (anns t)" and "height t < k"
  shows "\<exists>h'. node_get_size k (root_ptr t) h = Some h' \<and> sizes_only (set (anns t)) h h' \<and> sized h' t"
  using assms
proof (induction k arbitrary: t h)
  case (Suc k)
  show ?case
  proof (cases t)
    case Null
    then show ?thesis by simp
  next
    case (Node a i r v ts)
    then obtain n where n: "nodes h a = Some n" using Suc.prems(1) by auto
    have nv: "node_id n = i \<and> kids_ok n ts \<and> (\<forall>t\<in>set ts. view h t)"
      using view_node Suc.prems(1) n Node by blast
    show ?thesis
    proof (cases "i = 0")
      case True
      then have ts: "ts = []" using nv by (simp add: kids_ok_def)
      define h' where "h' = wr a (set_sizes 0 0 n) h"
      have "n\<lparr>non_term_size := 0, recursion_edge_size := 0\<rparr> = set_sizes 0 0 n"
        by (cases n) (simp add: set_sizes_def)
      then have "node_get_size (Suc k) (root_ptr t) h = Some h'"
        using n nv True Node by (simp add: upd_Some h'_def)
      then show ?thesis
        using sizes_only_wr [OF n, of 0 0] Node ts True by (auto simp: h'_def)
    next
      case False
      define n1 where "n1 = set_sizes 0 1 n"
      define h1 where "h1 = wr a n1 h"
      have n1: "n\<lparr>non_term_size := 1, recursion_edge_size := 0\<rparr> = n1"
        by (cases n) (simp add: n1_def set_sizes_def)
      have h1: "nodes h1 a = Some n1" "sizes_only {a} h h1"
        using sizes_only_wr [OF n, of 0 1] by (simp_all add: h1_def n1_def)
      have cnt: "unat (subnode_count n) = length ts" using nv by (simp add: kids_ok_def)
      have h1_eq: "nodes h1 a = Some n1" and u: "upd (Some a) (\<lambda>n. n\<lparr>non_term_size := 1, recursion_edge_size := 0\<rparr>) h = Some h1"
        using n h1 by (simp_all add: upd_Some n1 h1_def)
      have *: "\<exists>h'. foldM (size_body (node_get_size k) i (Some a)) [length ([]::nat tree list)..<length ([]::nat tree list) + length ts] h1 = Some h' \<and>
          sizes_only (insert a (set (concat (map anns ts)))) h1 h' \<and> (\<forall>t\<in>set ts. sized h' t) \<and>
          nodes h' a = Some (set_sizes
            (recursion_edge_size n1 + of_nat (\<Sum>t\<leftarrow>ts. rec_edge i t + re_size t))
            (non_term_size n1 + of_nat (sum_list (map nt_size ts))) n1)" if ts: "ts \<noteq> []"
      proof (rule get_size_loop [OF h1(1)])
        show "subnodes n1 = Some (map (\<lambda>t. Some (root_ptr t)) ([] @ ts))"
          using nv ts by (simp add: kids_ok_def n1_def)
        show "\<forall>t\<in>set ts. view h1 t" using nv sizes_only_view [OF _ h1(2)] by auto
        fix u and h' :: "'z heap_scheme" assume "u \<in> set ts" "view h' u" "distinct (anns u)"
        then show "\<exists>h''. node_get_size k (root_ptr u) h' = Some h'' \<and> sizes_only (set (anns u)) h' h'' \<and> sized h'' u"
          using Suc.prems(3) Node height_kid [of u ts a i r v] by (intro Suc.IH) auto
      qed (use Suc.prems Node in auto)
      then obtain h' where h': "foldM (size_body (node_get_size k) i (Some a)) [0..<length ts] h1 = Some h'"
          "sizes_only (insert a (set (concat (map anns ts)))) h1 h'" "\<forall>t\<in>set ts. sized h' t"
          "nodes h' a = Some (set_sizes
            (of_nat (\<Sum>t\<leftarrow>ts. rec_edge i t + re_size t))
            (1 + of_nat (sum_list (map nt_size ts))) n)"
      proof (cases "ts = []")
        case True
        then show ?thesis using h1 that [of h1] by (auto simp: n1_def)
      next
        case False
        from * [OF False] show ?thesis using that by (auto simp: n1_def)
      qed
      have "node_get_size (Suc k) (root_ptr t) h = Some h'"
        using h'(1) n nv False Node u cnt by (simp add: node_get_size_unfold del: node_get_size.simps)
      moreover have "sizes_only (set (anns t)) h h'"
        using sizes_only_trans [OF h1(2) h'(2)] Node by simp
      moreover have "sized h' t" using h'(3,4) Node False by simp
      ultimately show ?thesis by blast
    qed
  qed
qed simp

section \<open>node\_free\<close>

text \<open>The nodes in \<open>S\<close> are released, everything else stays.\<close>

definition freed :: "nat set \<Rightarrow> 'z heap_scheme \<Rightarrow> 'z heap_scheme \<Rightarrow> bool" where
  "freed S h h' \<longleftrightarrow> brk h' = brk h \<and> avail h' = avail h \<and> heap.more h' = heap.more h \<and>
     (\<forall>a. nodes h' a = (if a \<in> S then None else nodes h a))"

lemma freed_refl [simp]: "freed {} h h"
  by (simp add: freed_def)

lemma freed_trans: "freed S h1 h2 \<Longrightarrow> freed T h2 h3 \<Longrightarrow> freed (S \<union> T) h1 h3"
  by (auto simp: freed_def)

lemma freed_nodes: "freed S h h' \<Longrightarrow> a \<notin> S \<Longrightarrow> nodes h' a = nodes h a"
  by (simp add: freed_def)

lemma freed_heap_ok: "freed S h h' \<Longrightarrow> heap_ok h \<Longrightarrow> heap_ok h'"
  by (auto simp: freed_def heap_ok_def)

definition free_body ::
    "(ptr \<Rightarrow> 'z heap_scheme \<Rightarrow> 'z heap_scheme option) \<Rightarrow> ptr \<Rightarrow> nat
      \<Rightarrow> 'z heap_scheme \<Rightarrow> 'z heap_scheme option" where
  "free_body rec p i h = do {
     s \<leftarrow> sub_at h p i;
     if s = None then Some h else rec s h
   }"

lemma node_free_unfold:
  "node_free (Suc k) p h =
    (case p of None \<Rightarrow> Some h
     | Some a \<Rightarrow> do {
         h \<leftarrow> upd p (\<lambda>n. n\<lparr>node_id := 0, rule_id := 0, recursion_edge_size := 0,
                              non_term_size := 0\<rparr>) h;
         h \<leftarrow> upd p (\<lambda>n. if val_buf n \<noteq> None
                          then n\<lparr>val_buf := None, val_size := 0, val_len := 0\<rparr> else n) h;
         h \<leftarrow> upd p (parent_update (\<lambda>_. None)) h;
         n \<leftarrow> rd h p;
         h \<leftarrow> foldM (free_body (node_free k) p) [0..<unat (subnode_count n)] h;
         h \<leftarrow> upd p (\<lambda>n. n\<lparr>subnode_count := 0, subnodes := None\<rparr>) h;
         Some (del a h)
       })"
  unfolding node_free.simps free_body_def [abs_def] by (rule refl)

lemma free_loop:
  fixes h :: "'z heap_scheme"
  assumes a: "nodes h a = Some n" "subnodes n = Some (map (\<lambda>t. Some (root_ptr t)) (us @ ts))"
    and na: "a \<notin> set (concat (map anns ts))" and d: "distinct (concat (map anns ts))"
    and v: "\<forall>t\<in>set ts. view h t"
    and IH: "\<And>t (h :: 'z heap_scheme). t \<in> set ts \<Longrightarrow> view h t \<Longrightarrow> distinct (anns t) \<Longrightarrow>
      \<exists>h'. node_free k (root_ptr t) h = Some h' \<and> freed (set (anns t)) h h'"
  shows "\<exists>h'. foldM (free_body (node_free k) (Some a)) [length us..<length us + length ts] h = Some h' \<and>
      freed (set (concat (map anns ts))) h h'"
  using assms
proof (induction ts arbitrary: us h)
  case (Cons t ts)
  have sub: "sub_at h (Some a) (length us) = Some (root_ptr t)"
    using Cons.prems(1,2) by (simp add: sub_at_def nth_append)
  have "\<exists>h1. free_body (node_free k) (Some a) (length us) h = Some h1 \<and> freed (set (anns t)) h h1"
    using Cons.prems(4,5) Cons.prems(6) [of t h] sub by (cases "t = Null") (auto simp: free_body_def)
  then obtain h1 where h1: "free_body (node_free k) (Some a) (length us) h = Some h1"
    "freed (set (anns t)) h h1" by blast
  have v1: "view h1 u" if "u \<in> set ts" for u
  proof (rule view_cong)
    show "view h u" using Cons.prems(5) that by simp
    fix b assume "b \<in> set (anns u)"
    then show "nodes h1 b = nodes h b" using that Cons.prems(4) by (intro freed_nodes [OF h1(2)]) auto
  qed
  have upts: "length (us @ [t]) = Suc (length us)" "length (us @ [t]) + length ts = length us + length (t # ts)"
    by simp_all
  have "\<exists>h'. foldM (free_body (node_free k) (Some a)) [length (us @ [t])..<length (us @ [t]) + length ts] h1 = Some h' \<and>
      freed (set (concat (map anns ts))) h1 h'"
    by (rule Cons.IH) (use Cons.prems v1 freed_nodes [OF h1(2), of a] in auto)
  then obtain h' where h': "foldM (free_body (node_free k) (Some a)) [Suc (length us)..<length us + length (t # ts)] h1 = Some h'"
      "freed (set (concat (map anns ts))) h1 h'"
    unfolding upts(2) by (auto simp del: upt_Suc)
  have "[length us..<length us + length (t # ts)] = length us # [Suc (length us)..<length us + length (t # ts)]"
    by (rule upt_conv_Cons) simp
  then show ?case using h1 h' freed_trans [OF h1(2) h'(2)] by auto
qed simp

lemma node_free_view:
  fixes h :: "'z heap_scheme"
  assumes "view h t" and "distinct (anns t)" and "height t < k"
  shows "\<exists>h'. node_free k (root_ptr t) h = Some h' \<and> freed (set (anns t)) h h'"
  using assms
proof (induction k arbitrary: t h)
  case (Suc k)
  show ?case
  proof (cases t)
    case (Node a i r v ts)
    then obtain n where n: "nodes h a = Some n" using Suc.prems(1) by auto
    have nv: "kids_ok n ts \<and> (\<forall>t\<in>set ts. view h t)"
      using view_node Suc.prems(1) n Node by blast
    define n1 where "n1 = n\<lparr>node_id := 0, rule_id := 0, recursion_edge_size := 0, non_term_size := 0\<rparr>"
    define n2 where "n2 = (if val_buf n1 \<noteq> None then n1\<lparr>val_buf := None, val_size := 0, val_len := 0\<rparr> else n1)"
    define n3 where "n3 = n2\<lparr>parent := None\<rparr>"
    define h3 where "h3 = wr a n3 h"
    have n3: "subnodes n3 = subnodes n" "subnode_count n3 = subnode_count n"
      by (simp_all add: n3_def n2_def n1_def)
    have cnt: "unat (subnode_count n) = length ts" using nv by (simp add: kids_ok_def)
    have na: "a \<notin> set (concat (map anns ts))" "distinct (concat (map anns ts))"
      using Suc.prems(2) Node by auto
    have "\<exists>h'. foldM (free_body (node_free k) (Some a)) [0..<length ts] h3 = Some h' \<and>
        freed (set (concat (map anns ts))) h3 h'"
    proof (cases "ts = []")
      case False
      have "\<exists>h'. foldM (free_body (node_free k) (Some a))
          [length ([]::nat tree list)..<length ([]::nat tree list) + length ts] h3 = Some h' \<and>
          freed (set (concat (map anns ts))) h3 h'"
      proof (rule free_loop)
        show "nodes h3 a = Some n3" by (simp add: h3_def)
        show "subnodes n3 = Some (map (\<lambda>t. Some (root_ptr t)) ([] @ ts))"
          using nv False n3 by (simp add: kids_ok_def)
        show "\<forall>t\<in>set ts. view h3 t"
        proof
          fix u assume u: "u \<in> set ts"
          show "view h3 u" by (rule view_cong [of h]) (use nv u na(1) in \<open>auto simp: h3_def\<close>)
        qed
        fix u and h' :: "'z heap_scheme" assume "u \<in> set ts" "view h' u" "distinct (anns u)"
        then show "\<exists>h''. node_free k (root_ptr u) h' = Some h'' \<and> freed (set (anns u)) h' h''"
          using Suc.prems(3) Node height_kid [of u ts a i r v] by (intro Suc.IH) auto
      qed (use na in auto)
      then show ?thesis by simp
    qed simp
    then obtain h4 where h4: "foldM (free_body (node_free k) (Some a)) [0..<length ts] h3 = Some h4"
      "freed (set (concat (map anns ts))) h3 h4" by blast
    have h4a: "nodes h4 a = Some n3" using freed_nodes [OF h4(2) na(1)] by (simp add: h3_def)
    define h5 where "h5 = del a (wr a (n3\<lparr>subnode_count := 0, subnodes := None\<rparr>) h4)"
    have u1: "upd (Some a) (\<lambda>n. n\<lparr>node_id := 0, rule_id := 0, recursion_edge_size := 0,
        non_term_size := 0\<rparr>) h = Some (wr a n1 h)"
      using upd_Some [OF n] by (simp add: n1_def)
    have u2: "upd (Some a) (\<lambda>n. if val_buf n \<noteq> None
        then n\<lparr>val_buf := None, val_size := 0, val_len := 0\<rparr> else n) (wr a n1 h) = Some (wr a n2 h)"
      using upd_Some [of "wr a n1 h" a n1] unfolding n2_def by simp
    have u3: "upd (Some a) (parent_update (\<lambda>_. None)) (wr a n2 h) = Some h3"
      using upd_Some [of "wr a n2 h" a n2] by (simp add: h3_def n3_def)
    have r3: "rd h3 (Some a) = Some n3" by (simp add: h3_def)
    have u5: "upd (Some a) (\<lambda>n. n\<lparr>subnode_count := 0, subnodes := None\<rparr>) h4 =
        Some (wr a (n3\<lparr>subnode_count := 0, subnodes := None\<rparr>) h4)"
      using upd_Some [OF h4a] by simp
    have "node_free (Suc k) (root_ptr t) h = Some h5"
      unfolding node_free_unfold Node root_ptr_simps
      by (simp only: option.case bind.bind_lunit u1 u2 u3 r3 n3 cnt h4(1) u5 h5_def)
    moreover have "freed (set (anns t)) h h5"
      using h4(2) Node by (auto simp: freed_def h5_def h3_def)
    ultimately show ?thesis by blast
  qed simp
qed simp

end
