(* ===== verification/Tree_Buf.thy ===== *)
theory Tree_Buf
  imports Tree_Obj Tree_Size
begin

text \<open>
  \<open>tree_to_buf\<close> and \<open>tree_serialize\<close> of Grammar-Mutator/src/tree.c: the growing output buffer
  holds exactly the test case (\<open>flatten\<close>) or the serialised form (\<open>ser\<close>) of the tree, every
  byte of it initialised and inside the block.
\<close>

section \<open>The growing output buffer\<close>

text \<open>The first \<open>len\<close> bytes of the buffer are \<open>bs\<close>, and there is room for \<open>n\<close> more.\<close>

definition holds :: "nat \<Rightarrow> buf \<Rightarrow> u64 \<Rightarrow> u8 list \<Rightarrow> bool" where
  "holds n b len bs \<longleftrightarrow> (\<exists>m. fst b = Some m \<and> buf_ok b \<and> unat len = length bs \<and>
     length bs + n \<le> length m \<and> take (length bs) m = map Some bs)"

lemma holds_mono: "holds n b len bs \<Longrightarrow> k \<le> n \<Longrightarrow> holds k b len bs"
  by (auto simp: holds_def)

lemma holds_nil: "buf_ok b \<Longrightarrow> fst b = Some m \<Longrightarrow> n \<le> length m \<Longrightarrow> holds n b 0 []"
  by (simp add: holds_def)

lemma holds_grow:
  assumes "holds k b len bs" and "mem_ok h" and "length bs + n < 2 ^ 64"
  obtains m s where "maybe_grow b (len + of_nat n) h = ((Some m, s), h)" "holds n (Some m, s) len bs"
proof -
  obtain p q where b: "b = (Some p, q)" using assms(1) by (cases b) (auto simp: holds_def)
  have bok: "buf_ok b" and lq: "length p = unat q" and pre: "take (length bs) p = map Some bs"
    and ul: "unat len = length bs" and le: "length bs \<le> length p"
    using assms(1) b by (auto simp: holds_def)
  have sz: "unat (len + of_nat n) = length bs + n"
    using unat_add_of_nat [of len n] ul assms(3) by simp
  obtain m s where g: "maybe_grow b (len + of_nat n) h = ((Some m, s), h)"
    using maybe_grow_total [OF assms(2) bok] by blast
  have s: "len + of_nat n \<le> s \<and> length m = unat s"
    using maybe_grow_size [of "Some p" q] g b bok by simp
  then have "length bs + n \<le> length m" using sz by (simp add: word_le_nat_alt)
  moreover have "take (length bs) m = take (length bs) p"
    using maybe_grow_prefix [of p q "len + of_nat n" h m s h "length bs"] g b lq le sz by simp
  ultimately have "holds n (Some m, s) len bs"
    using pre ul s by (simp add: holds_def)
  with g show ?thesis using that by blast
qed

lemma holds_put:
  assumes "holds k (Some m, s) len bs" and "length v + n \<le> k"
  obtains m' where "memcpy_at m (unat len) (map Some v) = Some m'"
    "holds n (Some m', s) (len + of_nat (length v)) (bs @ v)"
proof -
  have le: "length bs + length v + n \<le> length m" and ul: "unat len = length bs"
    and s: "length m = unat s" and pre: "take (length bs) m = map Some bs"
    using assms by (auto simp: holds_def)
  have "\<exists>m'. memcpy_at m (unat len) (map Some v) = Some m'"
    by (rule memcpy_at_total) (use le ul in simp)
  then obtain m' where m': "memcpy_at m (unat len) (map Some v) = Some m'" by blast
  then have m'e: "m' = take (length bs) m @ map Some v @ drop (length bs + length v) m"
    using le ul by (auto simp: memcpy_at_def split: if_splits)
  have "unat (len + of_nat (length v)) = length bs + length v"
    using unat_add_of_nat [of len "length v"] ul le s unat_u64_less [of s] by simp
  then have "holds n (Some m', s) (len + of_nat (length v)) (bs @ v)"
    using m'e pre le s by (simp add: holds_def)
  with m' show ?thesis using that by blast
qed

lemma val_ok_slice:
  assumes "val_ok n v" and "v \<noteq> []"
  obtains m where "val_buf n = Some m" "mem_slice m 0 (length v) = Some (map Some v)"
  using assms by (auto simp: val_ok_def mem_slice_def)

section \<open>Unparsing\<close>

definition to_buf_body ::
    "(ptr \<Rightarrow> tree_t \<times> 'z heap_scheme \<Rightarrow> (tree_t \<times> 'z heap_scheme) option) \<Rightarrow> ptr \<Rightarrow> nat
      \<Rightarrow> tree_t \<times> 'z heap_scheme \<Rightarrow> (tree_t \<times> 'z heap_scheme) option" where
  "to_buf_body rec p i th = (case th of (tree, h) \<Rightarrow> do {
     s \<leftarrow> sub_at h p i;
     rec s (tree, h)
   })"

lemma kids_loop:
  fixes h :: "'z heap_scheme"
  assumes "nodes h a = Some n" and "kids_ok n ts"
  shows "foldM (to_buf_body rec (Some a)) [0..<unat (subnode_count n)] (tree, h) =
     foldM (\<lambda>i (tree, h'). do {s \<leftarrow> sub_at h' (Some a) i; rec s (tree, h')}) [0..<length ts] (tree, h)"
  using assms by (simp add: kids_ok_def to_buf_body_def [abs_def])

text \<open>
  A traversal that leaves the heap alone: when each recursive call extends an accumulated
  output by the output of its subtree, the loop over the subnodes extends it by theirs.
\<close>

lemma traverse_loop:
  fixes h :: "'z heap_scheme"
  assumes n: "nodes h a = Some n" and ok: "kids_ok n ts" and ts: "length us + length vs = length ts"
    and split: "ts = us @ vs" and P: "P tree pre"
    and step: "\<And>t tree pre. t \<in> set vs \<Longrightarrow> P tree pre \<Longrightarrow> size_ok (pre @ out t) \<Longrightarrow>
      \<exists>tree'. rec (root_ptr t) (tree, h) = Some (tree', h) \<and> P tree' (pre @ out t)"
    and size: "size_ok (pre @ concat (map out vs))"
    and mono: "\<And>xs ys. size_ok (xs @ ys) \<Longrightarrow> size_ok xs"
  shows "\<exists>tree'. foldM (to_buf_body rec (Some a)) [length us..<length ts] (tree, h) = Some (tree', h) \<and>
      P tree' (pre @ concat (map out vs))"
  using assms(3-7)
proof (induction vs arbitrary: us tree pre)
  case (Cons t vs)
  have sub: "sub_at h (Some a) (length us) = Some (root_ptr t)"
    using kids_ok_sub_at [OF n ok, of "length us"] Cons.prems(1,2) by (simp add: nth_append)
  have "size_ok (pre @ out t)" using Cons.prems(5) mono [of "pre @ out t"] by simp
  then obtain tree1 where t1: "rec (root_ptr t) (tree, h) = Some (tree1, h)" "P tree1 (pre @ out t)"
    using Cons.prems(3) Cons.prems(4) [of t tree pre] by auto
  have "\<exists>tree'. foldM (to_buf_body rec (Some a)) [length (us @ [t])..<length ts] (tree1, h) = Some (tree', h) \<and>
      P tree' ((pre @ out t) @ concat (map out vs))"
    by (rule Cons.IH) (use Cons.prems t1 in auto)
  moreover have "[length us..<length ts] = length us # [length (us @ [t])..<length ts]"
    using Cons.prems(1) by (simp add: upt_conv_Cons)
  ultimately show ?case using sub t1 by (simp add: to_buf_body_def [of rec "Some a" "length us"])
qed simp

lemma node_to_buf_unfold:
  "node_to_buf (Suc k) p th =
    (case th of (tree, h) \<Rightarrow>
     if p = None then Some (tree, h)
     else do {
       n \<leftarrow> rd h p;
       if subnode_count n = 0 then
         if val_len n = 0 then Some (tree, h)
         else (case maybe_grow (data tree) (data_len tree + ucast (val_len n)) h of (b, h) \<Rightarrow>
           case fst b of None \<Rightarrow> Some (tree\<lparr>data := b\<rparr>, h)
           | Some buf \<Rightarrow> do {
               v \<leftarrow> val_buf n;
               bytes \<leftarrow> mem_slice v 0 (unat (val_len n));
               buf \<leftarrow> memcpy_at buf (unat (data_len tree)) bytes;
               Some (tree\<lparr>data := (Some buf, snd b),
                          data_len := data_len tree + ucast (val_len n)\<rparr>, h)
             })
       else foldM (to_buf_body (node_to_buf k) p) [0..<unat (subnode_count n)] (tree, h)
     })"
  unfolding node_to_buf.simps to_buf_body_def [abs_def] by (rule refl)

definition out_data :: "tree_t \<Rightarrow> tree_t \<Rightarrow> u8 list \<Rightarrow> bool" where
  "out_data tree0 tree bs \<longleftrightarrow> holds 0 (data tree) (data_len tree) bs \<and>
     tree = tree0\<lparr>data := data tree, data_len := data_len tree\<rparr>"

lemma ucast_of_nat: "unat (w::u32) = k \<Longrightarrow> (ucast w :: u64) = of_nat k"
  using word_of_unat [of "ucast w :: u64" k] by simp

lemma node_to_buf_view:
  fixes h :: "'z heap_scheme"
  assumes "view h t" and "mem_ok h" and "height t < k"
    and "out_data tree0 tree pre" and "length (pre @ flatten t) < 2 ^ 64"
  shows "\<exists>tree'. node_to_buf k (root_ptr t) (tree, h) = Some (tree', h) \<and>
      out_data tree0 tree' (pre @ flatten t)"
  using assms
proof (induction k arbitrary: t tree pre)
  case (Suc k)
  show ?case
  proof (cases t)
    case Null
    then show ?thesis using Suc.prems by simp
  next
    case (Node a i r v ts)
    then obtain n where n: "nodes h a = Some n" using Suc.prems(1) by auto
    have nv: "val_ok n v \<and> kids_ok n ts \<and> (\<forall>t\<in>set ts. view h t)"
      using view_node Suc.prems(1) n Node by blast
    have cnt: "unat (subnode_count n) = length ts" and vl: "unat (val_len n) = length v"
      using nv by (simp_all add: kids_ok_def val_ok_def)
    show ?thesis
    proof (cases "ts = []")
      case False
      then have sc: "subnode_count n \<noteq> 0" using cnt by auto
      have "\<exists>tree'. foldM (to_buf_body (node_to_buf k) (Some a)) [length ([]::nat tree list)..<length ts] (tree, h) = Some (tree', h) \<and>
          out_data tree0 tree' (pre @ concat (map flatten ts))"
      proof (rule traverse_loop [where size_ok = "\<lambda>bs. length bs < 2 ^ 64" and n = n and ts = ts])
        fix u tree2 pre2
        assume u: "u \<in> set ts" "out_data tree0 tree2 pre2" "length (pre2 @ flatten u) < 2 ^ 64"
        have "height u < k" using Suc.prems(3) Node height_kid [OF u(1), of a i r v] by simp
        then show "\<exists>tree'. node_to_buf k (root_ptr u) (tree2, h) = Some (tree', h) \<and> out_data tree0 tree' (pre2 @ flatten u)"
          using Suc.IH [of u] nv u Suc.prems(2) by blast
      qed (use n nv Suc.prems Node False in auto)
      then show ?thesis using Node False n cnt sc
        by (simp add: node_to_buf_unfold del: node_to_buf.simps)
    next
      case True
      then have sc: "subnode_count n = 0" using cnt by (simp add: unat_eq_zero)
      show ?thesis
      proof (cases "v = []")
        case True
        then have "val_len n = 0" using vl by (simp add: unat_eq_zero)
        then show ?thesis using Node \<open>ts = []\<close> n sc True Suc.prems(4)
          by (simp add: node_to_buf_unfold del: node_to_buf.simps)
      next
        case False
        then have v0: "val_len n \<noteq> 0" using vl by auto
        have uc: "(ucast (val_len n) :: u64) = of_nat (length v)" using ucast_of_nat [OF vl] .
        have hd: "holds 0 (data tree) (data_len tree) pre" and tr: "tree = tree0\<lparr>data := data tree, data_len := data_len tree\<rparr>"
          using Suc.prems(4) by (auto simp: out_data_def)
        obtain m s where g: "maybe_grow (data tree) (data_len tree + of_nat (length v)) h = ((Some m, s), h)"
            "holds (length v) (Some m, s) (data_len tree) pre"
          using holds_grow [OF hd Suc.prems(2), of "length v"] Suc.prems(5) Node \<open>ts = []\<close> by auto
        obtain m' where m': "memcpy_at m (unat (data_len tree)) (map Some v) = Some m'"
            "holds 0 (Some m', s) (data_len tree + of_nat (length v)) (pre @ v)"
          using holds_put [OF g(2), of v 0] by auto
        obtain mv where mv: "val_buf n = Some mv" "mem_slice mv 0 (length v) = Some (map Some v)"
          using val_ok_slice nv False by blast
        define tree' where "tree' = tree\<lparr>data := (Some m', s), data_len := data_len tree + of_nat (length v)\<rparr>"
        have "node_to_buf (Suc k) (Some a) (tree, h) = Some (tree', h)"
          unfolding node_to_buf_unfold using n sc v0 g(1) mv m'(1) vl uc by (simp add: tree'_def)
        moreover have "tree' = tree0\<lparr>data := data tree', data_len := data_len tree'\<rparr>"
          using arg_cong [OF tr, where f = "\<lambda>x. x\<lparr>data := (Some m', s), data_len := data_len tree + of_nat (length v)\<rparr>"]
          by (simp add: tree'_def)
        then have "out_data tree0 tree' (pre @ v)"
          using m'(2) by (simp add: out_data_def tree'_def)
        ultimately show ?thesis using Node \<open>ts = []\<close> by auto
      qed
    qed
  qed
qed simp

text \<open>The test case of a whole tree.\<close>

lemma prealloc:
  assumes "mem_ok h" and "buf_ok b"
  obtains m s where "maybe_grow b TREE_BUF_PREALLOC_SIZE h = ((Some m, s), h)" "holds 0 (Some m, s) 0 []"
proof -
  obtain m s where g: "maybe_grow b TREE_BUF_PREALLOC_SIZE h = ((Some m, s), h)"
    using maybe_grow_total [OF assms] by blast
  moreover have "buf_ok (Some m, s)" using maybe_grow_buf_ok [OF assms(2) g] .
  ultimately show ?thesis using that holds_nil [of "(Some m, s)"] by simp
qed

lemma tree_to_buf_view:
  assumes "view h t" and "mem_ok h" and "height t < k" and "root tree = root_ptr t"
    and "buf_ok (data tree)" and "length (flatten t) < 2 ^ 64"
  shows "\<exists>tree'. tree_to_buf k tree h = Some (tree', h) \<and> out_data tree tree' (flatten t)"
proof -
  obtain m s where g: "maybe_grow (data tree) TREE_BUF_PREALLOC_SIZE h = ((Some m, s), h)"
      "holds 0 (Some m, s) 0 []"
    using prealloc assms(2,5) by blast
  have "\<exists>tree'. node_to_buf k (root_ptr t) (tree\<lparr>data := (Some m, s), data_len := 0\<rparr>, h) = Some (tree', h) \<and>
      out_data tree tree' ([] @ flatten t)"
    by (rule node_to_buf_view) (use assms g in \<open>auto simp: out_data_def\<close>)
  then show ?thesis using g assms(4) by (simp add: tree_to_buf_def)
qed

section \<open>Serialising\<close>

lemma node_serialize_unfold:
  "node_serialize (Suc k) p th =
    (case th of (tree, h) \<Rightarrow>
     if p = None then Some (tree, h)
     else do {
       n \<leftarrow> rd h p;
       let len = min_len + ucast (val_len n); l = ser_len tree in
       (case maybe_grow (ser_buf tree) (l + len) h of (b, h) \<Rightarrow>
         case fst b of None \<Rightarrow> Some (tree\<lparr>ser_buf := b\<rparr>, h)
         | Some buf \<Rightarrow> do {
             buf \<leftarrow> memcpy_at buf (unat l) (map Some (u32_bytes (node_id n)));
             let l = l + 4 in do {
             buf \<leftarrow> memcpy_at buf (unat l) (map Some (u32_bytes (rule_id n)));
             let l = l + 4 in do {
             buf \<leftarrow> memcpy_at buf (unat l) (map Some (u32_bytes (subnode_count n)));
             let l = l + 4 in do {
             buf \<leftarrow> memcpy_at buf (unat l) (map Some (u32_bytes (val_len n)));
             let l = l + 4 in do {
             bytes \<leftarrow> (if val_len n = 0 then Some []
                        else Option.bind (val_buf n) (\<lambda>v. mem_slice v 0 (unat (val_len n))));
             buf \<leftarrow> memcpy_at buf (unat l) bytes;
             let l = l + ucast (val_len n) in
             foldM (to_buf_body (node_serialize k) p) [0..<unat (subnode_count n)]
               (tree\<lparr>ser_buf := (Some buf, snd b), ser_len := l\<rparr>, h)
           }}}}})
     })"
  unfolding node_serialize.simps to_buf_body_def [abs_def] by (rule refl)

definition out_ser :: "tree_t \<Rightarrow> tree_t \<Rightarrow> u8 list \<Rightarrow> bool" where
  "out_ser tree0 tree bs \<longleftrightarrow> holds 0 (ser_buf tree) (ser_len tree) bs \<and>
     tree = tree0\<lparr>ser_buf := ser_buf tree, ser_len := ser_len tree\<rparr>"

lemma out_ser_update:
  "out_ser tree0 tree bs \<Longrightarrow> holds 0 b l cs \<Longrightarrow> out_ser tree0 (tree\<lparr>ser_buf := b, ser_len := l\<rparr>) cs"
  by (cases tree; cases tree0) (simp add: out_ser_def)

text \<open>The fixed part of a node: four 32-bit fields, then the value.\<close>

lemma put_header:
  assumes "holds k (Some m, s) l bs" and "length v + 16 \<le> k"
  obtains m1 m2 m3 m4 m5 where
    "memcpy_at m (unat l) (map Some (u32_bytes w1)) = Some m1"
    "memcpy_at m1 (unat (l + 4)) (map Some (u32_bytes w2)) = Some m2"
    "memcpy_at m2 (unat (l + 4 + 4)) (map Some (u32_bytes w3)) = Some m3"
    "memcpy_at m3 (unat (l + 4 + 4 + 4)) (map Some (u32_bytes w4)) = Some m4"
    "memcpy_at m4 (unat (l + 4 + 4 + 4 + 4)) (map Some v) = Some m5"
    "holds 0 (Some m5, s) (l + 4 + 4 + 4 + 4 + of_nat (length v))
      (bs @ u32_bytes w1 @ u32_bytes w2 @ u32_bytes w3 @ u32_bytes w4 @ v)"
proof -
  obtain m1 where 1: "memcpy_at m (unat l) (map Some (u32_bytes w1)) = Some m1"
    "holds (12 + length v) (Some m1, s) (l + 4) (bs @ u32_bytes w1)"
    using holds_put [OF assms(1), of "u32_bytes w1" "12 + length v"] assms(2) by auto
  obtain m2 where 2: "memcpy_at m1 (unat (l + 4)) (map Some (u32_bytes w2)) = Some m2"
    "holds (8 + length v) (Some m2, s) (l + 4 + 4) ((bs @ u32_bytes w1) @ u32_bytes w2)"
    using holds_put [OF 1(2), of "u32_bytes w2" "8 + length v"] by auto
  obtain m3 where 3: "memcpy_at m2 (unat (l + 4 + 4)) (map Some (u32_bytes w3)) = Some m3"
    "holds (4 + length v) (Some m3, s) (l + 4 + 4 + 4) (((bs @ u32_bytes w1) @ u32_bytes w2) @ u32_bytes w3)"
    using holds_put [OF 2(2), of "u32_bytes w3" "4 + length v"] by auto
  obtain m4 where 4: "memcpy_at m3 (unat (l + 4 + 4 + 4)) (map Some (u32_bytes w4)) = Some m4"
    "holds (length v) (Some m4, s) (l + 4 + 4 + 4 + 4) ((((bs @ u32_bytes w1) @ u32_bytes w2) @ u32_bytes w3) @ u32_bytes w4)"
    using holds_put [OF 3(2), of "u32_bytes w4" "length v"] by auto
  obtain m5 where 5: "memcpy_at m4 (unat (l + 4 + 4 + 4 + 4)) (map Some v) = Some m5"
    "holds 0 (Some m5, s) (l + 4 + 4 + 4 + 4 + of_nat (length v))
      (((((bs @ u32_bytes w1) @ u32_bytes w2) @ u32_bytes w3) @ u32_bytes w4) @ v)"
    using holds_put [OF 4(2), of v 0] by auto
  show ?thesis by (rule that [OF 1(1) 2(1) 3(1) 4(1) 5(1)]) (use 5(2) in simp)
qed

lemma node_serialize_view:
  fixes h :: "'z heap_scheme"
  assumes "view h t" and "mem_ok h" and "height t < k"
    and "out_ser tree0 tree pre" and "length (pre @ ser t) < 2 ^ 64"
  shows "\<exists>tree'. node_serialize k (root_ptr t) (tree, h) = Some (tree', h) \<and>
      out_ser tree0 tree' (pre @ ser t)"
  using assms
proof (induction k arbitrary: t tree pre)
  case (Suc k)
  show ?case
  proof (cases t)
    case Null
    then show ?thesis using Suc.prems by simp
  next
    case (Node a i r v ts)
    then obtain n where n: "nodes h a = Some n" using Suc.prems(1) by auto
    have nv: "node_id n = i \<and> rule_id n = r \<and> val_ok n v \<and> kids_ok n ts \<and> (\<forall>t\<in>set ts. view h t)"
      using view_node Suc.prems(1) n Node by blast
    have cnt: "unat (subnode_count n) = length ts" and vl: "unat (val_len n) = length v"
      using nv by (simp_all add: kids_ok_def val_ok_def)
    have sc: "subnode_count n = of_nat (length ts)" and vn: "val_len n = of_nat (length v)"
      using word_of_unat [OF cnt] word_of_unat [OF vl] by auto
    have uc: "(ucast (val_len n) :: u64) = of_nat (length v)" using ucast_of_nat [OF vl] .
    define hd where "hd = u32_bytes i @ u32_bytes r @ u32_bytes (subnode_count n) @ u32_bytes (val_len n) @ v"
    have ser: "ser t = hd @ concat (map ser ts)" using Node sc vn by (simp add: hd_def)
    have ml: "ser_len tree + (min_len + of_nat (length v)) = ser_len tree + of_nat (16 + length v)"
      by (simp add: min_len_def)
    have ho: "holds 0 (ser_buf tree) (ser_len tree) pre" using Suc.prems(4) by (simp add: out_ser_def)
    obtain m s where g: "maybe_grow (ser_buf tree) (ser_len tree + of_nat (16 + length v)) h = ((Some m, s), h)"
        "holds (16 + length v) (Some m, s) (ser_len tree) pre"
      using holds_grow [OF ho Suc.prems(2), of "16 + length v"] Suc.prems(5) ser by (auto simp: hd_def)
    obtain m1 m2 m3 m4 m5 where p:
      "memcpy_at m (unat (ser_len tree)) (map Some (u32_bytes i)) = Some m1"
      "memcpy_at m1 (unat (ser_len tree + 4)) (map Some (u32_bytes r)) = Some m2"
      "memcpy_at m2 (unat (ser_len tree + 4 + 4)) (map Some (u32_bytes (subnode_count n))) = Some m3"
      "memcpy_at m3 (unat (ser_len tree + 4 + 4 + 4)) (map Some (u32_bytes (val_len n))) = Some m4"
      "memcpy_at m4 (unat (ser_len tree + 4 + 4 + 4 + 4)) (map Some v) = Some m5"
      "holds 0 (Some m5, s) (ser_len tree + 4 + 4 + 4 + 4 + of_nat (length v)) (pre @ hd)"
      unfolding hd_def
      by (rule put_header [OF g(2), of v i r "subnode_count n" "val_len n"]) (simp, blast)
    have bytes: "(if val_len n = 0 then Some []
        else Option.bind (val_buf n) (\<lambda>v. mem_slice v 0 (unat (val_len n)))) = Some (map Some v)"
    proof (cases "v = []")
      case False
      then obtain mv where "val_buf n = Some mv" "mem_slice mv 0 (length v) = Some (map Some v)"
        using val_ok_slice nv by blast
      moreover have "val_len n \<noteq> 0" using False vl by auto
      ultimately show ?thesis using vl by simp
    next
      case True
      then have "val_len n = 0" using vl by (simp add: unat_eq_zero)
      then show ?thesis using True by simp
    qed
    define tree1 where "tree1 = tree\<lparr>ser_buf := (Some m5, s), ser_len := ser_len tree + 4 + 4 + 4 + 4 + of_nat (length v)\<rparr>"
    have o1: "out_ser tree0 tree1 (pre @ hd)"
      unfolding tree1_def by (rule out_ser_update [OF Suc.prems(4) p(6)])
    have "\<exists>tree'. foldM (to_buf_body (node_serialize k) (Some a)) [length ([]::nat tree list)..<length ts] (tree1, h) = Some (tree', h) \<and>
        out_ser tree0 tree' ((pre @ hd) @ concat (map ser ts))"
    proof (rule traverse_loop [where size_ok = "\<lambda>bs. length bs < 2 ^ 64" and n = n and ts = ts])
      fix u tree2 pre2
      assume u: "u \<in> set ts" "out_ser tree0 tree2 pre2" "length (pre2 @ ser u) < 2 ^ 64"
      have "height u < k" using Suc.prems(3) Node height_kid [OF u(1), of a i r v] by simp
      then show "\<exists>tree'. node_serialize k (root_ptr u) (tree2, h) = Some (tree', h) \<and> out_ser tree0 tree' (pre2 @ ser u)"
        using Suc.IH [of u] nv u Suc.prems(2) by blast
    qed (use n nv Suc.prems(5) Node o1 ser in auto)
    then obtain tree' where t': "foldM (to_buf_body (node_serialize k) (Some a)) [0..<length ts] (tree1, h) = Some (tree', h)"
      "out_ser tree0 tree' (pre @ ser t)" using ser by auto
    have rdn: "rd h (Some a) = Some n" and ids: "node_id n = i" "rule_id n = r" using n nv by auto
    have "node_serialize (Suc k) (root_ptr t) (tree, h) = Some (tree', h)"
      unfolding node_serialize_unfold Node root_ptr_simps
      by (simp only: rdn ids option.distinct if_False bind.bind_lunit Let_def ml g(1) prod.case
          fst_conv snd_conv option.case p(1-5) bytes uc cnt t'(1) [unfolded tree1_def])
    then show ?thesis using t'(2) by blast
  qed
qed simp

lemma tree_serialize_view:
  assumes "view h t" and "mem_ok h" and "height t < k" and "root tree = root_ptr t"
    and "buf_ok (ser_buf tree)" and "length (ser t) < 2 ^ 64"
  shows "\<exists>tree'. tree_serialize k tree h = Some (tree', h) \<and> out_ser tree tree' (ser t)"
proof -
  obtain m s where g: "maybe_grow (ser_buf tree) TREE_BUF_PREALLOC_SIZE h = ((Some m, s), h)"
      "holds 0 (Some m, s) 0 []"
    using prealloc assms(2,5) by blast
  have "\<exists>tree'. node_serialize k (root_ptr t) (tree\<lparr>ser_buf := (Some m, s), ser_len := 0\<rparr>, h) = Some (tree', h) \<and>
      out_ser tree tree' ([] @ ser t)"
    by (rule node_serialize_view) (use assms g in \<open>auto simp: out_ser_def\<close>)
  then show ?thesis using g assms(4) by (simp add: tree_serialize_def)
qed

end
