(* ===== verification/Tree_Lists.thy ===== *)
theory Tree_Lists
  imports Tree_Buf
begin

text \<open>
  The lists of mutation points that Grammar-Mutator/src/tree.c collects from a tree: all
  nonterminal nodes (\<open>tree_get_non_terminal_nodes\<close>) and all recursion edges
  (\<open>tree_get_recursion_edges\<close>), both in preorder, and their agreement with the cached sizes.
\<close>

section \<open>Nonterminal nodes\<close>

lemma node_get_non_terminal_nodes_unfold:
  "node_get_non_terminal_nodes (Suc k) p th =
    (case th of (tree, h) \<Rightarrow>
     if p = None then Some (tree, h)
     else do {
       n \<leftarrow> rd h p;
       if node_id n = 0 then Some (tree, h)
       else (case seq_append (non_terminal_node_list tree) p h of (l, h) \<Rightarrow>
         foldM (to_buf_body (node_get_non_terminal_nodes k) p) [0..<unat (subnode_count n)]
           (tree\<lparr>non_terminal_node_list := l\<rparr>, h))
     })"
  unfolding node_get_non_terminal_nodes.simps to_buf_body_def [abs_def] by (rule refl)

definition out_nonterms :: "tree_t \<Rightarrow> tree_t \<Rightarrow> ptr list \<Rightarrow> bool" where
  "out_nonterms tree0 tree ps \<longleftrightarrow> tree = tree0\<lparr>non_terminal_node_list := Some ps\<rparr>"

lemma node_get_non_terminal_nodes_view:
  fixes h :: "'z heap_scheme"
  assumes "view h t" and "mem_ok h" and "height t < k" and "out_nonterms tree0 tree pre"
  shows "\<exists>tree'. node_get_non_terminal_nodes k (root_ptr t) (tree, h) = Some (tree', h) \<and>
      out_nonterms tree0 tree' (pre @ map Some (nonterms t))"
  using assms
proof (induction k arbitrary: t tree pre)
  case (Suc k)
  show ?case
  proof (cases t)
    case Null
    then show ?thesis using Suc.prems by simp
  next
    case (Node a i r v ts)
    then obtain n where n: "nodes h a = Some n" using Suc.prems(1) by auto
    have nv: "node_id n = i \<and> kids_ok n ts \<and> (\<forall>t\<in>set ts. view h t)"
      using view_node Suc.prems(1) n Node by blast
    have cnt: "unat (subnode_count n) = length ts" using nv by (simp add: kids_ok_def)
    define tree1 where "tree1 = tree\<lparr>non_terminal_node_list := Some (pre @ [Some a])\<rparr>"
    have ap: "seq_append (non_terminal_node_list tree) (Some a) h = (Some (pre @ [Some a]), h)"
      using Suc.prems(2,4) by (simp add: seq_append_def out_nonterms_def)
    have "\<exists>tree'. foldM (to_buf_body (node_get_non_terminal_nodes k) (Some a))
          [length ([]::nat tree list)..<length ts] (tree1, h) = Some (tree', h) \<and>
        out_nonterms tree0 tree' ((pre @ [Some a]) @ concat (map (\<lambda>t. map Some (nonterms t)) ts))"
    proof (rule traverse_loop [where size_ok = "\<lambda>_. True" and n = n and ts = ts])
      fix u tree2 pre2
      assume u: "u \<in> set ts" "out_nonterms tree0 tree2 pre2"
      have "height u < k" using Suc.prems(3) Node height_kid [OF u(1), of a i r v] by simp
      then show "\<exists>tree'. node_get_non_terminal_nodes k (root_ptr u) (tree2, h) = Some (tree', h) \<and>
          out_nonterms tree0 tree' (pre2 @ map Some (nonterms u))"
        using Suc.IH [of u] nv u Suc.prems(2) by blast
    qed (use n nv Suc.prems(4) in \<open>auto simp: tree1_def out_nonterms_def\<close>)
    then obtain tree' where t': "foldM (to_buf_body (node_get_non_terminal_nodes k) (Some a)) [0..<length ts] (tree1, h) = Some (tree', h)"
      "out_nonterms tree0 tree' (pre @ Some a # concat (map (\<lambda>t. map Some (nonterms t)) ts))" by auto
    show ?thesis
    proof (cases "i = 0")
      case True
      then show ?thesis using Node n nv Suc.prems(4)
        by (simp add: node_get_non_terminal_nodes_unfold del: node_get_non_terminal_nodes.simps)
    next
      case False
      have "node_get_non_terminal_nodes (Suc k) (root_ptr t) (tree, h) = Some (tree', h)"
        using Node n nv False ap t'(1) cnt
        by (simp add: node_get_non_terminal_nodes_unfold tree1_def del: node_get_non_terminal_nodes.simps)
      then show ?thesis using t'(2) Node False by (auto simp: map_concat comp_def)
    qed
  qed
qed simp

lemma tree_get_non_terminal_nodes_view:
  assumes "view h t" and "mem_ok h" and "height t < k" and "root tree = root_ptr t"
  shows "tree_get_non_terminal_nodes k tree h =
    Some (tree\<lparr>non_terminal_node_list := Some (map Some (nonterms t))\<rparr>, h)"
proof -
  have "\<exists>tree'. node_get_non_terminal_nodes k (root_ptr t) (tree\<lparr>non_terminal_node_list := Some []\<rparr>, h) = Some (tree', h) \<and>
      out_nonterms tree tree' ([] @ map Some (nonterms t))"
    by (rule node_get_non_terminal_nodes_view) (use assms in \<open>auto simp: out_nonterms_def\<close>)
  then show ?thesis using assms by (auto simp: tree_get_non_terminal_nodes_def seq_create_def out_nonterms_def)
qed

section \<open>Recursion edges\<close>

text \<open>The edges from a node to subnodes of its own type, in the order of the traversal.\<close>

function rec_edges :: "nat tree \<Rightarrow> edge_t list" where
  "rec_edges Null = []"
| "rec_edges (Node a i r v ts) =
     concat (map2 (\<lambda>j t.
       (if rec_edge i t = 1 then [\<lparr>e_parent = Some a, e_subnode = root_ptr t, e_offset = j\<rparr>] else [])
         @ rec_edges t) [0..<length ts] ts)"
  by pat_completeness auto
termination
  by (relation "measure size") (auto dest!: set_zip_rightD intro: le_imp_less_Suc size_list_estimation')

definition kid_edges :: "nat \<Rightarrow> u32 \<Rightarrow> nat \<Rightarrow> nat tree \<Rightarrow> edge_t list" where
  "kid_edges a i j t =
     (if rec_edge i t = 1 then [\<lparr>e_parent = Some a, e_subnode = root_ptr t, e_offset = j\<rparr>] else [])
       @ rec_edges t"

lemma rec_edges_Node:
  "rec_edges (Node a i r v ts) = concat (map2 (kid_edges a i) [0..<length ts] ts)"
  by (simp add: kid_edges_def)

definition edge_body ::
    "(ptr \<Rightarrow> tree_t \<times> 'z heap_scheme \<Rightarrow> (tree_t \<times> 'z heap_scheme) option) \<Rightarrow> u32 \<Rightarrow> ptr \<Rightarrow> nat
      \<Rightarrow> tree_t \<times> 'z heap_scheme \<Rightarrow> (tree_t \<times> 'z heap_scheme) option" where
  "edge_body rec nid p i th = (case th of (tree, h) \<Rightarrow> do {
     s \<leftarrow> sub_at h p i;
     if s = None then Some (tree, h)
     else do {
       sn \<leftarrow> rd h s;
       (tree, h) \<leftarrow>
         (if nid = node_id sn then
            (case try_alloc h of (False, h) \<Rightarrow> None
             | (True, h) \<Rightarrow>
               (case seq_append (recursion_edge_list tree)
                        \<lparr>e_parent = p, e_subnode = s, e_offset = i\<rparr> h of
                  (l, h) \<Rightarrow> Some (tree\<lparr>recursion_edge_list := l\<rparr>, h)))
          else Some (tree, h));
       rec s (tree, h)
     }})"

lemma node_get_recursion_edges_unfold:
  "node_get_recursion_edges (Suc k) p th =
    (case th of (tree, h) \<Rightarrow>
     if p = None then Some (tree, h)
     else do {
       n \<leftarrow> rd h p;
       if subnode_count n = 0 then Some (tree, h)
       else foldM (edge_body (node_get_recursion_edges k) (node_id n) p) [0..<unat (subnode_count n)] (tree, h)
     })"
  unfolding node_get_recursion_edges.simps edge_body_def [abs_def] by (rule refl)

definition out_edges :: "tree_t \<Rightarrow> tree_t \<Rightarrow> edge_t list \<Rightarrow> bool" where
  "out_edges tree0 tree es \<longleftrightarrow> tree = tree0\<lparr>recursion_edge_list := Some es\<rparr>"

lemma edge_loop:
  fixes h :: "'z heap_scheme"
  assumes n: "nodes h a = Some n" "kids_ok n (us @ ts)" and mem: "mem_ok h"
    and v: "\<forall>t\<in>set ts. view h t" and P: "out_edges tree0 tree pre"
    and step: "\<And>t tree pre. t \<in> set ts \<Longrightarrow> out_edges tree0 tree pre \<Longrightarrow>
      \<exists>tree'. rec (root_ptr t) (tree, h) = Some (tree', h) \<and> out_edges tree0 tree' (pre @ rec_edges t)"
  shows "\<exists>tree'. foldM (edge_body rec i (Some a)) [length us..<length us + length ts] (tree, h) = Some (tree', h) \<and>
      out_edges tree0 tree' (pre @ concat (map2 (kid_edges a i) [length us..<length us + length ts] ts))"
  using n(2) v P step
proof (induction ts arbitrary: us tree pre)
  case (Cons t ts)
  have sub: "sub_at h (Some a) (length us) = Some (root_ptr t)"
    using kids_ok_sub_at [OF n(1) Cons.prems(1), of "length us"] by (simp add: nth_append)
  have "\<exists>tree1. edge_body rec i (Some a) (length us) (tree, h) = Some (tree1, h) \<and>
      out_edges tree0 tree1 (pre @ kid_edges a i (length us) t)"
  proof (cases t)
    case Null
    then show ?thesis using sub Cons.prems(3) by (simp add: edge_body_def kid_edges_def rec_edge_def)
  next
    case (Node b j r v us')
    then obtain sn where sn: "nodes h b = Some sn" "node_id sn = j" using Cons.prems(2) by auto
    define e where "e = \<lparr>e_parent = Some a, e_subnode = Some b, e_offset = length us\<rparr>"
    define tree2 where "tree2 = (if i = j then tree\<lparr>recursion_edge_list := Some (pre @ [e])\<rparr> else tree)"
    have "out_edges tree0 tree2 (if i = j then pre @ [e] else pre)"
      using Cons.prems(3) by (simp add: out_edges_def tree2_def)
    then obtain tree1 where t1: "rec (Some b) (tree2, h) = Some (tree1, h)"
        "out_edges tree0 tree1 ((if i = j then pre @ [e] else pre) @ rec_edges t)"
      using Cons.prems(4) [of t tree2] Node by auto
    have "recursion_edge_list tree = Some pre" using Cons.prems(3) by (simp add: out_edges_def)
    then have "edge_body rec i (Some a) (length us) (tree, h) = Some (tree1, h)"
      using sub sn mem Node t1(1) by (cases "i = j") (simp_all add: edge_body_def seq_append_def tree2_def e_def)
    moreover have "(if i = j then pre @ [e] else pre) @ rec_edges t = pre @ kid_edges a i (length us) t"
      using Node by (simp add: kid_edges_def rec_edge_def e_def)
    ultimately show ?thesis using t1(2) by auto
  qed
  then obtain tree1 where t1: "edge_body rec i (Some a) (length us) (tree, h) = Some (tree1, h)"
      "out_edges tree0 tree1 (pre @ kid_edges a i (length us) t)" by blast
  have "\<exists>tree'. foldM (edge_body rec i (Some a)) [length (us @ [t])..<length (us @ [t]) + length ts] (tree1, h) = Some (tree', h) \<and>
      out_edges tree0 tree' ((pre @ kid_edges a i (length us) t) @
        concat (map2 (kid_edges a i) [length (us @ [t])..<length (us @ [t]) + length ts] ts))"
    by (rule Cons.IH) (use Cons.prems t1 in auto)
  moreover have "[length us..<length us + length (t # ts)] = length us # [length (us @ [t])..<length (us @ [t]) + length ts]"
    by (subst upt_conv_Cons) simp_all
  ultimately show ?case using t1(1) by simp
qed simp

lemma node_get_recursion_edges_view:
  fixes h :: "'z heap_scheme"
  assumes "view h t" and "mem_ok h" and "height t < k" and "out_edges tree0 tree pre"
  shows "\<exists>tree'. node_get_recursion_edges k (root_ptr t) (tree, h) = Some (tree', h) \<and>
      out_edges tree0 tree' (pre @ rec_edges t)"
  using assms
proof (induction k arbitrary: t tree pre)
  case (Suc k)
  show ?case
  proof (cases t)
    case Null
    then show ?thesis using Suc.prems by simp
  next
    case (Node a i r v ts)
    then obtain n where n: "nodes h a = Some n" using Suc.prems(1) by auto
    have nv: "node_id n = i \<and> kids_ok n ts \<and> (\<forall>t\<in>set ts. view h t)"
      using view_node Suc.prems(1) n Node by blast
    have cnt: "unat (subnode_count n) = length ts" using nv by (simp add: kids_ok_def)
    have "\<exists>tree'. foldM (edge_body (node_get_recursion_edges k) i (Some a))
          [length ([]::nat tree list)..<length ([]::nat tree list) + length ts] (tree, h) = Some (tree', h) \<and>
        out_edges tree0 tree' (pre @ concat (map2 (kid_edges a i)
          [length ([]::nat tree list)..<length ([]::nat tree list) + length ts] ts))"
    proof (rule edge_loop [OF n])
      fix u tree2 pre2
      assume u: "u \<in> set ts" "out_edges tree0 tree2 pre2"
      have "height u < k" using Suc.prems(3) Node height_kid [OF u(1), of a i r v] by simp
      then show "\<exists>tree'. node_get_recursion_edges k (root_ptr u) (tree2, h) = Some (tree', h) \<and>
          out_edges tree0 tree' (pre2 @ rec_edges u)"
        using Suc.IH [of u] nv u Suc.prems(2) by blast
    qed (use nv Suc.prems(2,4) in auto)
    moreover have "subnode_count n = 0 \<longleftrightarrow> ts = []" using cnt by (metis length_0_conv unat_eq_zero)
    ultimately show ?thesis using Node n nv cnt
      by (auto simp: node_get_recursion_edges_unfold rec_edges_Node
          simp del: node_get_recursion_edges.simps rec_edges.simps)
  qed
qed simp

lemma tree_get_recursion_edges_view:
  assumes "view h t" and "mem_ok h" and "height t < k" and "root tree = root_ptr t"
  shows "tree_get_recursion_edges k tree h =
    Some (tree\<lparr>recursion_edge_list := Some (rec_edges t)\<rparr>, h)"
proof -
  have "\<exists>tree'. node_get_recursion_edges k (root_ptr t) (tree\<lparr>recursion_edge_list := Some []\<rparr>, h) = Some (tree', h) \<and>
      out_edges tree tree' ([] @ rec_edges t)"
    by (rule node_get_recursion_edges_view) (use assms in \<open>auto simp: out_edges_def\<close>)
  then show ?thesis using assms by (auto simp: tree_get_recursion_edges_def seq_create_def out_edges_def)
qed

text \<open>The counts agree with the cached sizes of \<open>node_get_size\<close>.\<close>

lemma length_concat_map2:
  "length xs = length ys \<Longrightarrow> (\<And>x y. y \<in> set ys \<Longrightarrow> length (f x y) = g y) \<Longrightarrow>
     length (concat (map2 f xs ys)) = sum_list (map g ys)"
  by (induction xs ys rule: list_induct2) auto

lemma length_rec_edges: "view h t \<Longrightarrow> length (rec_edges t) = re_size t"
proof (induction t)
  case (Node a i r v ts)
  then obtain n where n: "nodes h a = Some n" by auto
  have nv: "kids_ok n ts \<and> node_id n = i \<and> (\<forall>t\<in>set ts. view h t)"
    using view_node Node.prems n by blast
  have "length (rec_edges (Node a i r v ts)) = (\<Sum>t\<leftarrow>ts. rec_edge i t + re_size t)"
    unfolding rec_edges_Node
    by (rule length_concat_map2) (use Node.IH nv in \<open>auto simp: kid_edges_def rec_edge_def split: tree.splits\<close>)
  then show ?case using nv by (auto simp: kids_ok_def simp del: rec_edges.simps)
qed simp

end
