(* ===== verification/Tree_Edit.thy ===== *)
theory Tree_Edit
  imports Tree_Size "HOL-Library.Multiset"
begin

text \<open>
  Replacing a subtree through the pointers: the specification \<open>subst\<close>, its frame rules over
  the heap, and \<open>node_get_parent_edge\<close> and \<open>node_replace_subnode\<close> of
  Grammar-Mutator/src/tree.c.
\<close>

section \<open>Children and substitution\<close>

text \<open>The node at address \<open>p\<close> has the subtree \<open>s\<close> at index \<open>j\<close>.\<close>

fun child_at :: "nat tree \<Rightarrow> nat \<Rightarrow> nat \<Rightarrow> nat tree \<Rightarrow> bool" where
  "child_at Null p j s = False"
| "child_at (Node a i r v ts) p j s =
     ((a = p \<and> j < length ts \<and> ts ! j = s) \<or> (\<exists>t\<in>set ts. child_at t p j s))"

text \<open>The tree with the subtree rooted at \<open>a\<close> replaced by \<open>u\<close>.\<close>

fun subst :: "nat \<Rightarrow> nat tree \<Rightarrow> nat tree \<Rightarrow> nat tree" where
  "subst b u Null = Null"
| "subst b u (Node a i r v ts) = (if a = b then u else Node a i r v (map (subst b u) ts))"

lemma subst_notin [simp]: "b \<notin> set (anns t) \<Longrightarrow> subst b u t = t"
  by (induction t) (auto simp: map_idI)

lemma child_at_anns: "child_at t p j s \<Longrightarrow> p \<in> set (anns t) \<and> set (anns s) \<subseteq> set (anns t)"
  by (induction t) (auto dest: nth_mem)

lemma distinct_kids:
  assumes "distinct (concat (map anns ts))"
  shows "t \<in> set ts \<Longrightarrow> distinct (anns t)"
    and "t \<in> set ts \<Longrightarrow> u \<in> set ts \<Longrightarrow> x \<in> set (anns t) \<Longrightarrow> x \<in> set (anns u) \<Longrightarrow> t = u"
  using assms by (induction ts) auto

lemma distinct_kids_nth:
  assumes "distinct (concat (map anns ts))" and "j < length ts" "k < length ts"
    and "x \<in> set (anns (ts ! j))" "x \<in> set (anns (ts ! k))"
  shows "j = k"
  using assms
proof (induction ts arbitrary: j k)
  case (Cons t ts)
  have *: "x \<notin> set (anns (ts ! l))" if "x \<in> set (anns t)" "l < length ts" for l
    using Cons.prems(1) that nth_mem by fastforce
  from Cons * show ?case by (cases j; cases k) auto
qed simp

lemma child_at_root:
  assumes "child_at t p j (Node b i' r' v' ss)" and "distinct (anns t)"
  shows "root_ptr t \<noteq> Some b"
proof (cases t)
  case (Node a i r v ts)
  have "b \<in> set (concat (map anns ts))" if "child_at u p j (Node b i' r' v' ss)" "u \<in> set ts" for u
    using child_at_anns [OF that(1)] that(2) by auto
  moreover have "b \<in> set (concat (map anns ts))" if "j < length ts" "ts ! j = Node b i' r' v' ss"
    using nth_mem [OF that(1)] that(2) by force
  ultimately have "b \<in> set (concat (map anns ts))" using assms(1) Node by auto
  then show ?thesis using assms(2) Node by auto
qed simp

lemma child_at_distinct: "child_at t p j s \<Longrightarrow> distinct (anns t) \<Longrightarrow> distinct (anns s)"
proof (induction t)
  case (Node a i r v ts)
  have "distinct (anns u)" if "u \<in> set ts" for u using Node.prems(2) distinct_kids(1) [of ts] that by simp
  then show ?case using Node by (auto dest: nth_mem)
qed simp

text \<open>The place of a subtree in a node without sharing: at the node itself, or in one child.\<close>

lemma child_at_cases:
  assumes "child_at (Node a i r v ts) p j (Node b i' r' v' ss)" and "distinct (anns (Node a i r v ts))"
  obtains (here) "a = p" "j < length ts" "ts ! j = Node b i' r' v' ss" "a \<noteq> b"
      "map (subst b u) ts = ts[j := u]"
  | (below) k where "a \<noteq> p" "a \<noteq> b" "k < length ts" "child_at (ts ! k) p j (Node b i' r' v' ss)"
      "map (subst b u) ts = ts[k := subst b u (ts ! k)]"
      "root_ptr (ts ! k) \<noteq> Some b"
proof -
  have d: "distinct (concat (map anns ts))" and na: "a \<notin> set (concat (map anns ts))"
    using assms(2) by auto
  have other: "subst b u (ts ! l) = ts ! l" if "l < length ts" "k < length ts" "l \<noteq> k"
    "b \<in> set (anns (ts ! k))" for k l
    using distinct_kids_nth [OF d that(1,2)] that by (intro subst_notin) auto
  show ?thesis
  proof (cases "a = p")
    case True
    have nb: "\<not> child_at t p j (Node b i' r' v' ss)" if "t \<in> set ts" for t
      using child_at_anns [of t p j "Node b i' r' v' ss"] na that True by auto
    then have j: "j < length ts" "ts ! j = Node b i' r' v' ss" using assms(1) by auto
    then have "a \<noteq> b" using na nth_mem [of j ts] by fastforce
    moreover have "map (subst b u) ts = ts[j := u]"
      by (rule nth_equalityI) (use j other [of _ j] in \<open>auto simp: nth_list_update\<close>)
    ultimately show ?thesis using here True j by blast
  next
    case False
    then obtain k where k: "k < length ts" "child_at (ts ! k) p j (Node b i' r' v' ss)"
      using assms(1) by (auto simp: in_set_conv_nth)
    then have p: "p \<in> set (anns (ts ! k))" and b: "b \<in> set (anns (ts ! k))"
      using child_at_anns [OF k(2)] by auto
    have "a \<noteq> b" using na b nth_mem [OF k(1)] by auto
    moreover have "map (subst b u) ts = ts[k := subst b u (ts ! k)]"
      by (rule nth_equalityI) (use k b other [of _ k] in \<open>auto simp: nth_list_update\<close>)
    moreover have "root_ptr (ts ! k) \<noteq> Some b"
      using child_at_root [OF k(2)] distinct_kids(1) [OF d] k(1) by simp
    ultimately show ?thesis using below False k by blast
  qed
qed

lemma multiset_exchange:
  fixes A :: "'b multiset"
  assumes "C' + A = C + A'" and "A' + S = A + U"
  shows "C' + S = C + U"
proof -
  have "C' + S + A = (C' + A) + S" by (simp add: ac_simps)
  also have "\<dots> = C + (A' + S)" by (simp add: assms(1) add.assoc)
  also have "\<dots> = C + U + A" by (simp add: assms(2) ac_simps)
  finally show ?thesis by simp
qed

lemma mset_subst:
  assumes "child_at t p j (Node b i' r' v' ss)" and "distinct (anns t)"
  shows "mset (anns (subst b u t)) + mset (anns (Node b i' r' v' ss)) = mset (anns t) + mset (anns u)"
  using assms
proof (induction t)
  case (Node a i r v ts)
  have upd: "mset (concat (map anns (ts[k := w]))) + mset (anns (ts ! k)) =
      mset (concat (map anns ts)) + mset (anns w)" if "k < length ts" for k and w :: "nat tree"
    using that
  proof (induction ts arbitrary: k)
    case (Cons t ts)
    then show ?case by (cases k) (auto simp: ac_simps)
  qed simp
  from Node.prems show ?case
  proof (cases rule: child_at_cases [where u = u])
    case here
    then show ?thesis using upd [OF here(2), of u] by simp
  next
    case (below k)
    have "distinct (anns (ts ! k))" using Node.prems(2) below(3) distinct_kids(1) [of ts "ts ! k"] by simp
    then have "mset (anns (subst b u (ts ! k))) + mset (anns (Node b i' r' v' ss)) = mset (anns (ts ! k)) + mset (anns u)"
      using Node.IH [of "ts ! k"] below(3,4) by simp
    then have x: "mset (concat (map anns (ts[k := subst b u (ts ! k)]))) + mset (anns (Node b i' r' v' ss)) =
        mset (concat (map anns ts)) + mset (anns u)"
      by (rule multiset_exchange [OF upd [OF below(3)]])
    have "subst b u (Node a i r v ts) = Node a i r v (ts[k := subst b u (ts ! k)])"
      using below(2,5) by simp
    then have e: "mset (anns (subst b u (Node a i r v ts))) =
        add_mset a (mset (concat (map anns (ts[k := subst b u (ts ! k)]))))"
      by (simp only: anns.simps mset.simps)
    show ?thesis
      unfolding e anns.simps(2) [of a i r v ts] mset.simps union_mset_add_mset_left x ..
  qed
qed simp

lemma mset_eq_mset_set:
  assumes "mset xs = mset_set A" and "finite A"
  shows "set xs = A" and "distinct xs"
proof -
  show A: "set xs = A" using assms by (metis finite_set_mset_mset_set set_mset_mset)
  have "length xs = card A" using assms by (metis size_mset size_mset_set)
  then show "distinct xs" using A by (metis card_distinct)
qed

lemma anns_subst:
  assumes "child_at t p j (Node b i' r' v' ss)" and "distinct (anns t)" and "distinct (anns u)"
    and "set (anns u) \<inter> (set (anns t) - set (anns (Node b i' r' v' ss))) = {}"
  shows "set (anns (subst b u t)) = (set (anns t) - set (anns (Node b i' r' v' ss))) \<union> set (anns u)"
    and "distinct (anns (subst b u t))"
proof -
  define s where "s = Node b i' r' v' ss"
  have c: "child_at t p j s" using assms(1) by (simp add: s_def)
  have ds: "distinct (anns s)" and st: "set (anns s) \<subseteq> set (anns t)"
    using child_at_distinct [OF c assms(2)] child_at_anns [OF c] by auto
  have "mset (anns (subst b u t)) + mset_set (set (anns s)) = mset_set (set (anns t)) + mset_set (set (anns u))"
    using mset_subst [OF assms(1,2), of u, folded s_def]
    unfolding mset_set_set [OF ds] mset_set_set [OF assms(2)] mset_set_set [OF assms(3)] .
  then have "mset (anns (subst b u t)) = (mset_set (set (anns t)) + mset_set (set (anns u))) - mset_set (set (anns s))"
    by (metis add_diff_cancel_right')
  also have "\<dots> = (mset_set (set (anns t)) - mset_set (set (anns s))) + mset_set (set (anns u))"
    using st by (simp add: subset_imp_msubset_mset_set union_commute
        multiset_diff_union_assoc)
  also have "\<dots> = mset_set (set (anns t) - set (anns s)) + mset_set (set (anns u))"
    using st by (simp add: mset_set_Diff)
  also have "\<dots> = mset_set ((set (anns t) - set (anns s)) \<union> set (anns u))"
    using assms(4) by (intro mset_set_Union [symmetric]) (auto simp: s_def)
  finally have "mset (anns (subst b u t)) = mset_set ((set (anns t) - set (anns s)) \<union> set (anns u))" .
  note * = mset_eq_mset_set [OF this]
  show "set (anns (subst b u t)) = (set (anns t) - set (anns (Node b i' r' v' ss))) \<union> set (anns u)"
    using *(1) by (simp add: s_def)
  show "distinct (anns (subst b u t))" using *(2) by simp
qed

section \<open>Substitution in the heap\<close>

definition swing :: "nat \<Rightarrow> ptr \<Rightarrow> node_t \<Rightarrow> node_t" where
  "swing j q n = n\<lparr>subnodes := map_option (\<lambda>arr. arr[j := Some q]) (subnodes n)\<rparr>"

lemma swing_simps [simp]:
  "node_id (swing j q n) = node_id n" "rule_id (swing j q n) = rule_id n"
  "val_ok (swing j q n) v = val_ok n v" "parent (swing j q n) = parent n"
  "non_term_size (swing j q n) = non_term_size n"
  "recursion_edge_size (swing j q n) = recursion_edge_size n"
  "subnode_count (swing j q n) = subnode_count n"
  by (simp_all add: swing_def val_ok_def)

lemma kids_ok_swing: "kids_ok n ts \<Longrightarrow> kids_ok (swing j (root_ptr u) n) (ts[j := u])"
  by (auto simp: kids_ok_def swing_def map_update)

lemma swing_swing: "subnodes n = Some arr \<Longrightarrow> j < length arr \<Longrightarrow> arr ! j = Some q \<Longrightarrow>
    swing j q (swing j p n) = n"
  by (cases n) (auto simp: swing_def list_update_same_conv)

lemma parents_frame:
  assumes "parents h par t"
    and "\<And>a n. a \<in> set (anns t) \<Longrightarrow> nodes h a = Some n \<Longrightarrow> \<exists>m. nodes h' a = Some m \<and> parent m = parent n"
  shows "parents h' par t"
  using assms
proof (induction t arbitrary: par)
  case (Node a i r v ts)
  from Node.prems(1) obtain n where n: "nodes h a = Some n" "parent n = par"
    "\<forall>t\<in>set ts. parents h (Some a) t" by auto
  from Node.prems(2) [OF _ n(1)] obtain m where m: "nodes h' a = Some m" "parent m = parent n" by auto
  have "parents h' (Some a) t" if t: "t \<in> set ts" for t
  proof (rule Node.IH [OF t])
    show "parents h (Some a) t" using n(3) t by blast
    fix b m assume "b \<in> set (anns t)" "nodes h b = Some m"
    then show "\<exists>m'. nodes h' b = Some m' \<and> parent m' = parent m" using t by (intro Node.prems(2)) auto
  qed
  then show ?case using n(2) m by auto
qed simp

lemma view_subst:
  assumes "view h t" and "distinct (anns t)" and "child_at t p j s" and "s = Node b i' r' v' ss"
    and "view h' u"
    and "\<And>x n. x \<in> set (anns t) \<Longrightarrow> x \<notin> set (anns s) \<Longrightarrow> nodes h x = Some n \<Longrightarrow>
      \<exists>m. nodes h' x = Some m \<and> strip m = strip (if x = p then swing j (root_ptr u) n else n)"
  shows "view h' (subst b u t)"
  using assms(1-3,6)
proof (induction t)
  case (Node a i r v ts)
  have d: "distinct (concat (map anns ts))" and na: "a \<notin> set (concat (map anns ts))"
    using Node.prems(2) by auto
  from Node.prems(1) obtain n where n: "nodes h a = Some n" by auto
  have nv: "node_id n = i \<and> rule_id n = r \<and> val_ok n v \<and> kids_ok n ts \<and> (\<forall>t\<in>set ts. view h t)"
    using view_node Node.prems(1) n by blast
  have s: "set (anns s) \<subseteq> set (anns (Node a i r v ts))" using child_at_anns [OF Node.prems(3)] by blast
  have other: "view h' (ts ! l)" if l: "l < length ts" "k < length ts" "l \<noteq> k"
    "set (anns s) \<subseteq> set (anns (ts ! k))" "p = a \<or> p \<in> set (anns (ts ! k))" for l k
  proof (rule view_frame)
    show "view h (ts ! l)" using nv l by simp
    fix x m assume x: "x \<in> set (anns (ts ! l))" "nodes h x = Some m"
    have "x \<notin> set (anns (ts ! k))" using distinct_kids_nth [OF d l(1,2) x(1)] l(3) by blast
    then have "x \<notin> set (anns s)" using l(4) by auto
    moreover have "x \<noteq> p" using l(5) na x(1) nth_mem [OF l(1)] \<open>x \<notin> set (anns (ts ! k))\<close> by auto
    moreover have "x \<in> set (anns (Node a i r v ts))" using x(1) nth_mem [OF l(1)] by auto
    ultimately show "\<exists>m'. nodes h' x = Some m' \<and> strip m' = strip m"
      using Node.prems(4) [of x m] x(2) by presburger
  qed
  show ?case
    using Node.prems(3) [unfolded assms(4)] Node.prems(2)
  proof (cases rule: child_at_cases [where u = u])
    case here
    have sj: "ts ! j = s" using here assms(4) by simp
    have "a \<notin> set (anns s)" using na sj nth_mem [OF here(2)] by auto
    then obtain m where m: "nodes h' a = Some m" "strip m = strip (swing j (root_ptr u) n)"
      using Node.prems(4) [of a n] n here(1) by auto
    have "view h' t" if "t \<in> set (ts[j := u])" for t
    proof -
      from that obtain l where l: "l < length ts" "t = (if l = j then u else ts ! l)"
        by (auto simp: in_set_conv_nth nth_list_update split: if_splits)
      then show ?thesis using assms(5) other [of l j] here sj by auto
    qed
    then show ?thesis
      using m strip_eqD [OF m(2)] nv here(4,5) kids_ok_swing by auto
  next
    case (below k)
    have as: "set (anns s) \<subseteq> set (anns (ts ! k))" and p: "p \<in> set (anns (ts ! k))"
      using child_at_anns [OF below(4)] assms(4) by auto
    have "a \<notin> set (anns s)" using na as nth_mem [OF below(3)] by auto
    then obtain m where m: "nodes h' a = Some m" "strip m = strip n"
      using Node.prems(4) [of a n] n below(1) by auto
    have vk: "view h' (subst b u (ts ! k))"
    proof (rule Node.IH)
      show "distinct (anns (ts ! k))" using distinct_kids(1) [OF d] below(3) by simp
      show "child_at (ts ! k) p j s" using below(4) assms(4) by simp
      fix x n assume x: "x \<in> set (anns (ts ! k))" "x \<notin> set (anns s)" "nodes h x = Some n"
      then have "x \<in> set (anns (Node a i r v ts))" using nth_mem [OF below(3)] by auto
      then show "\<exists>m. nodes h' x = Some m \<and> strip m = strip (if x = p then swing j (root_ptr u) n else n)"
        using Node.prems(4) x by blast
    qed (use nv below(3) in auto)
    have rp: "root_ptr (subst b u (ts ! k)) = root_ptr (ts ! k)"
      using below(6) by (cases "ts ! k") auto
    have "view h' t" if "t \<in> set (ts[k := subst b u (ts ! k)])" for t
    proof -
      from that obtain l where l: "l < length ts" "t = (if l = k then subst b u (ts ! k) else ts ! l)"
        by (auto simp: in_set_conv_nth nth_list_update split: if_splits)
      then show ?thesis using vk other [of l k] below as p by auto
    qed
    moreover have "kids_ok n (ts[k := subst b u (ts ! k)])"
    proof -
      have "map (\<lambda>t. Some (root_ptr t)) (ts[k := subst b u (ts ! k)]) = map (\<lambda>t. Some (root_ptr t)) ts"
        using below(3) rp by (intro nth_equalityI) (auto simp: nth_list_update)
      then show ?thesis using nv by (auto simp: kids_ok_def)
    qed
    ultimately show ?thesis using m strip_eqD [OF m(2)] nv below(2,5) by auto
  qed
qed simp

lemma parents_subst:
  assumes "parents h par t" and "distinct (anns t)" and "child_at t p j s" and "s = Node b i' r' v' ss"
    and "parents h' (Some p) u"
    and "\<And>x n. x \<in> set (anns t) \<Longrightarrow> x \<notin> set (anns s) \<Longrightarrow> nodes h x = Some n \<Longrightarrow>
      \<exists>m. nodes h' x = Some m \<and> parent m = parent n"
  shows "parents h' par (subst b u t)"
  using assms(1-3,6)
proof (induction t arbitrary: par)
  case (Node a i r v ts)
  have d: "distinct (concat (map anns ts))" and na: "a \<notin> set (concat (map anns ts))"
    using Node.prems(2) by auto
  from Node.prems(1) obtain n where n: "nodes h a = Some n" "parent n = par" by auto
  have other: "parents h' (Some a) (ts ! l)" if l: "l < length ts" "k < length ts" "l \<noteq> k"
    "set (anns s) \<subseteq> set (anns (ts ! k))" for l k
  proof (rule parents_frame)
    show "parents h (Some a) (ts ! l)" using Node.prems(1) l by simp
    fix x m assume x: "x \<in> set (anns (ts ! l))" "nodes h x = Some m"
    have "x \<notin> set (anns (ts ! k))" using distinct_kids_nth [OF d l(1,2) x(1)] l(3) by blast
    then have "x \<notin> set (anns s)" using l(4) by auto
    moreover have "x \<in> set (anns (Node a i r v ts))" using x(1) nth_mem [OF l(1)] by auto
    ultimately show "\<exists>m'. nodes h' x = Some m' \<and> parent m' = parent m" using Node.prems(4) [of x m] x(2) by blast
  qed
  show ?case
    using Node.prems(3) [unfolded assms(4)] Node.prems(2)
  proof (cases rule: child_at_cases [where u = u])
    case here
    have sj: "ts ! j = s" using here assms(4) by simp
    have "a \<notin> set (anns s)" using na sj nth_mem [OF here(2)] by auto
    then obtain m where m: "nodes h' a = Some m" "parent m = par"
      using Node.prems(4) [of a n] n by auto
    have "parents h' (Some a) t" if "t \<in> set (ts[j := u])" for t
    proof -
      from that obtain l where l: "l < length ts" "t = (if l = j then u else ts ! l)"
        by (auto simp: in_set_conv_nth nth_list_update split: if_splits)
      then show ?thesis using assms(5) other [of l j] here sj by auto
    qed
    then show ?thesis using m here(4,5) by auto
  next
    case (below k)
    have as: "set (anns s) \<subseteq> set (anns (ts ! k))"
      using child_at_anns [OF below(4)] assms(4) by auto
    have "a \<notin> set (anns s)" using na as nth_mem [OF below(3)] by auto
    then obtain m where m: "nodes h' a = Some m" "parent m = par"
      using Node.prems(4) [of a n] n by auto
    have vk: "parents h' (Some a) (subst b u (ts ! k))"
    proof (rule Node.IH)
      show "distinct (anns (ts ! k))" using distinct_kids(1) [OF d] below(3) by simp
      show "child_at (ts ! k) p j s" using below(4) assms(4) by simp
      fix x n assume x: "x \<in> set (anns (ts ! k))" "x \<notin> set (anns s)" "nodes h x = Some n"
      then have "x \<in> set (anns (Node a i r v ts))" using nth_mem [OF below(3)] by auto
      then show "\<exists>m. nodes h' x = Some m \<and> parent m = parent n"
        using Node.prems(4) x by blast
    qed (use Node.prems(1) below(3) in auto)
    have "parents h' (Some a) t" if "t \<in> set (ts[k := subst b u (ts ! k)])" for t
    proof -
      from that obtain l where l: "l < length ts" "t = (if l = k then subst b u (ts ! k) else ts ! l)"
        by (auto simp: in_set_conv_nth nth_list_update split: if_splits)
      then show ?thesis using vk other [of l k] below as by auto
    qed
    then show ?thesis using m below(2,5) by auto
  qed
qed simp

text \<open>A child, seen through the pointers.\<close>

lemma child_at_heap:
  assumes "view h t" and "parents h par t" and "child_at t p j s" and "s \<noteq> Null"
  obtains n i r v ts where "nodes h p = Some n" "kids_ok n ts" "j < length ts" "ts ! j = s"
    "node_id n = i" "view h s" "parents h (Some p) s" "distinct (anns t) \<Longrightarrow> distinct (concat (map anns ts))"
    "distinct (anns t) \<Longrightarrow> p \<notin> set (concat (map anns ts))"
proof -
  have "\<exists>n ts. nodes h p = Some n \<and> kids_ok n ts \<and> j < length ts \<and> ts ! j = s \<and> view h s \<and>
      parents h (Some p) s \<and> (distinct (anns t) \<longrightarrow> distinct (concat (map anns ts)) \<and> p \<notin> set (concat (map anns ts)))"
    using assms(1-3)
  proof (induction t arbitrary: par)
    case (Node a i r v ts)
    obtain n where n: "nodes h a = Some n" using Node.prems(1) by auto
    have nv: "kids_ok n ts \<and> (\<forall>t\<in>set ts. view h t)"
      using view_node Node.prems(1) n by blast
    from Node.prems(3) consider "a = p" "j < length ts" "ts ! j = s" | u where "u \<in> set ts" "child_at u p j s"
      by auto
    then show ?case
    proof cases
      case 1
      then show ?thesis using n nv Node.prems(2) by (intro exI [of _ n] exI [of _ ts]) auto
    next
      case 2
      then show ?thesis using Node.IH [OF 2(1) _ _ 2(2)] nv Node.prems(2) distinct_kids(1) [of ts u] by fastforce
    qed
  qed simp
  then show ?thesis using that by blast
qed

section \<open>node\_get\_parent\_edge and node\_replace\_subnode\<close>

lemma loopM_find:
  assumes "j \<in> set xs" and "f j () = Some (Inl x)" and "\<And>i. i \<in> set xs \<Longrightarrow> i \<noteq> j \<Longrightarrow> f i () = Some (Inr ())"
  shows "loopM f xs () = Some (Inl x)"
  using assms
proof (induction xs)
  case (Cons y ys)
  then show ?case by (cases "y = j") auto
qed simp

lemma root_ptr_nth_inj:
  assumes "distinct (concat (map anns ts))" and "i < length ts" "j < length ts" and "ts ! j \<noteq> Null"
  shows "root_ptr (ts ! i) = root_ptr (ts ! j) \<longleftrightarrow> i = j"
proof
  assume e: "root_ptr (ts ! i) = root_ptr (ts ! j)"
  obtain a where a: "root_ptr (ts ! j) = Some a" using assms(4) by (cases "ts ! j") auto
  then show "i = j"
    using distinct_kids_nth [OF assms(1-3)] root_ptr_in_anns [of "ts ! i" a] root_ptr_in_anns [OF a] e
    by auto
qed simp

lemma node_get_parent_edge_ok:
  assumes "rep h par t" and "child_at t p j s" and "s \<noteq> Null"
  shows "node_get_parent_edge (root_ptr s) h =
    Some \<lparr>e_parent = Some p, e_subnode = root_ptr s, e_offset = j\<rparr>"
proof -
  have v: "view h t" "parents h par t" "distinct (anns t)" using assms(1) by (auto simp: rep_def)
  obtain n ts where n: "nodes h p = Some n" "kids_ok n ts" "j < length ts" "ts ! j = s"
    "parents h (Some p) s" "distinct (concat (map anns ts))"
    using child_at_heap [OF v(1,2) assms(2,3)] v(3) by metis
  obtain a sn where s: "root_ptr s = Some a" "nodes h a = Some sn" "parent sn = Some p"
    using n(5) assms(3) by (cases s) auto
  have cnt: "unat (subnode_count n) = length ts" using n(2) by (simp add: kids_ok_def)
  have "loopM (\<lambda>i _. do {
             s \<leftarrow> sub_at h (Some p) i;
             Some (if Some a = s then Inl i else Inr ())
           }) [0..<length ts] () = Some (Inl j)"
  proof (rule loopM_find)
    show "Option.bind (sub_at h (Some p) j) (\<lambda>s. Some (if Some a = s then Inl j else Inr ())) = Some (Inl j)"
      using kids_ok_sub_at [OF n(1,2,3)] n(4) s(1) by simp
    fix i assume "i \<in> set [0..<length ts]" "i \<noteq> j"
    then show "Option.bind (sub_at h (Some p) i) (\<lambda>s. Some (if Some a = s then Inl i else Inr ())) = Some (Inr ())"
      using kids_ok_sub_at [OF n(1,2), of i] root_ptr_nth_inj [OF n(6) _ n(3), of i] n(4) s(1) assms(3)
      by auto
  qed (use n(3) in simp)
  then show ?thesis
    using s n(1) cnt by (simp add: node_get_parent_edge_def)
qed

lemma node_replace_subnode_ok:
  assumes "rep h par t" and "child_at t p j s" and "rep h None u" and "s \<noteq> Null" "u \<noteq> Null"
    and "tid u = tid s" and "set (anns u) \<inter> set (anns t) = {}"
  shows "\<exists>h'. node_replace_subnode (Some p) (root_ptr s) (root_ptr u) h = Some (True, h') \<and>
    rep h' par (subst (ann s) u t) \<and> rep h' None s \<and> brk h' = brk h \<and> avail h' = avail h \<and>
    heap.more h' = heap.more h \<and>
    (\<forall>a. a \<notin> set (anns t) \<union> set (anns u) \<longrightarrow> nodes h' a = nodes h a)"
proof -
  have v: "view h t" "parents h par t" "distinct (anns t)" and u: "view h u" "parents h None u" "distinct (anns u)"
    using assms(1,3) by (auto simp: rep_def)
  obtain n ts where n: "nodes h p = Some n" "kids_ok n ts" "j < length ts" "ts ! j = s" "view h s"
    "parents h (Some p) s" "distinct (concat (map anns ts))" "p \<notin> set (concat (map anns ts))"
    using child_at_heap [OF v(1,2) assms(2,4)] v(3) by metis
  obtain a i r w ss where s: "s = Node a i r w ss" using assms(4) by (cases s) auto
  obtain b i' r' w' us where uu: "u = Node b i' r' w' us" using assms(5) by (cases u) auto
  obtain sn where sn: "nodes h a = Some sn" "parent sn = Some p" "node_id sn = i" using n(5,6) s by auto
  obtain un where un: "nodes h b = Some un" "node_id un = i'" using u(1) uu by auto
  have ct: "p \<in> set (anns t)" "set (anns s) \<subseteq> set (anns t)" using child_at_anns [OF assms(2)] by auto
  have ps: "p \<notin> set (anns s)" using n(3,4,8) nth_mem [OF n(3)] by auto
  have ne: "a \<noteq> p" "b \<noteq> p" "a \<noteq> b" using ps s ct assms(7) uu by auto
  have cnt: "unat (subnode_count n) = length ts" using n(2) by (simp add: kids_ok_def)
  have arr: "subnodes n = Some (map (\<lambda>t. Some (root_ptr t)) ts)" using n(2,3) by (auto simp: kids_ok_def)
  define n' where "n' = swing j (Some b) n"
  define h' where "h' = wr a (sn\<lparr>parent := None\<rparr>) (wr b (un\<lparr>parent := Some p\<rparr>) (wr p n' h))"
  have set: "set_sub_at (Some p) j (Some b) h = Some (wr p n' h)"
    using n(1,3) arr by (simp add: set_sub_at_def upd_Some n'_def swing_def)
  have loop: "loopM (\<lambda>i _. do {
             cur \<leftarrow> sub_at h (Some p) i;
             if cur = Some a then do {
               h \<leftarrow> set_sub_at (Some p) i (Some b) h;
               h \<leftarrow> upd (Some b) (parent_update (\<lambda>_. Some p)) h;
               h \<leftarrow> upd cur (parent_update (\<lambda>_. None)) h;
               Some (Inl (True, h))
             } else Some (Inr ())
           }) [0..<length ts] () = Some (Inl (True, h'))"
  proof (rule loopM_find [where j = j], goal_cases)
    case 2
    show ?case
      using kids_ok_sub_at [OF n(1-3)] n(4) s set un sn ne by (simp add: upd_Some h'_def)
  next
    case (3 i)
    then show ?case
      using kids_ok_sub_at [OF n(1,2), of i] root_ptr_nth_inj [OF n(7) _ n(3), of i] n(4) s assms(4)
      by auto
  qed (use n(3) in simp)
  have run: "node_replace_subnode (Some p) (Some a) (Some b) h = Some (True, h')"
    using sn un n(1) assms(6) s uu loop cnt by (simp add: node_replace_subnode_def)
  have nh: "nodes h' x = (if x = a then Some (sn\<lparr>parent := None\<rparr>) else if x = b then Some (un\<lparr>parent := Some p\<rparr>)
      else if x = p then Some n' else nodes h x)" for x by (simp add: h'_def)
  have vu: "view h' u"
    using u(1) by (rule view_frame) (use nh un ne assms(7) ct s in \<open>auto simp: strip_def\<close>)
  have pu: "parents h' (Some p) u"
    by (rule parents_root [OF u(2,3)]) (use nh uu ne assms(7) ct s in auto)
  have "view h' (subst a u t)"
    by (rule view_subst [OF v(1,3) assms(2) s vu])
      (use nh s uu n(1) ne assms(7) in \<open>auto simp: n'_def\<close>)
  moreover have "parents h' par (subst a u t)"
    by (rule parents_subst [OF v(2,3) assms(2) s pu])
      (use nh s uu n(1) ne assms(7) in \<open>auto simp: n'_def\<close>)
  moreover have "distinct (anns (subst a u t))"
    by (rule anns_subst(2) [OF assms(2) [unfolded s] v(3) u(3)]) (use assms(7) in auto)
  moreover have "view h' s"
    using n(5) by (rule view_frame) (use nh sn ps ct assms(7) uu in \<open>auto simp: strip_def\<close>)
  moreover have "parents h' None s"
    by (rule parents_root [OF n(6) child_at_distinct [OF assms(2) v(3)]])
      (use nh s ps ct assms(7) uu in auto)
  ultimately have "rep h' par (subst a u t) \<and> rep h' None s"
    using child_at_distinct [OF assms(2) v(3)] by (simp add: rep_def)
  moreover have "\<forall>x. x \<notin> set (anns t) \<union> set (anns u) \<longrightarrow> nodes h' x = nodes h x"
    using nh ct s uu by auto
  moreover have "brk h' = brk h \<and> avail h' = avail h \<and> heap.more h' = heap.more h" by (simp add: h'_def)
  ultimately show ?thesis using run s uu by auto
qed

text \<open>A node of another type, or one that is not a child, is not attached.\<close>

lemma node_replace_subnode_refused:
  assumes "rd h s = Some sn" and "rd h u = Some un"
    and "node_id sn \<noteq> node_id un \<or> p \<noteq> parent sn"
  shows "node_replace_subnode p s u h = Some (False, h)"
  using assms by (auto simp: node_replace_subnode_def)

end
