(* ===== verification/Rng.thy ===== *)
theory Rng
  imports Prelude
begin

text \<open>
  The random numbers of Grammar-Mutator/src/utils.c: seeding, the romuDuoJr generator of
  64-bit targets and RomuTrio32 of the others, and \<open>random_below\<close>, which draws until a value
  falls below the largest multiple of the limit.  The loop of \<open>random_below\<close> may run for
  ever, so it is a partial function: None is the loop that does not end.
\<close>

section \<open>The generators\<close>

text \<open>The static array \<open>random_seed\<close>; the 64-bit generator leaves its third cell alone.\<close>

type_synonym seeds = "u64 \<times> u64 \<times> u64"

text \<open>\<open>XXH64\<close> is code of the xxhash library: the hash of the seed is a parameter.\<close>

definition random_set_seed :: "(u64 \<Rightarrow> u64) \<Rightarrow> u64 \<Rightarrow> seeds" where
  "random_set_seed xxh64 seed =
    (let s0 = xxh64 seed;
         s1 = s0 XOR 0x1234567890abcdef;
         s2 = (s0 AND 0x1234567890abcdef) XOR (s1 OR 0xfedcba9876543210)
     in (s0, s1, s2))"

definition rotl64 :: "nat \<Rightarrow> u64 \<Rightarrow> u64" where
  "rotl64 k d = (push_bit k d OR drop_bit (64 - k) d)"

definition random_next :: "seeds \<Rightarrow> u64 \<times> seeds" where
  "random_next s = (case s of (s0, s1, s2) \<Rightarrow>
     let xp = s0;
         s0 = 15241094284759029579 * s1;
         s1 = s1 - xp;
         s1 = rotl64 27 s1
     in (xp, (s0, s1, s2)))"

definition rotl32 :: "nat \<Rightarrow> u32 \<Rightarrow> u32" where
  "rotl32 k d = (push_bit k d OR drop_bit (32 - k) d)"

definition random_next32 :: "u32 \<times> u32 \<times> u32 \<Rightarrow> u32 \<times> (u32 \<times> u32 \<times> u32)" where
  "random_next32 s = (case s of (s0, s1, s2) \<Rightarrow>
     let xp = s0; yp = s1; zp = s2;
         s0 = 3323815723 * zp;
         s1 = yp - xp;
         s1 = rotl32 6 s1;
         s2 = zp - yp;
         s2 = rotl32 22 s2
     in (xp, (s0, s1, s2)))"

text \<open>The rejection bound \<open>UINT64_MAX - (UINT64_MAX % limit)\<close>.\<close>

definition rnd_bound :: "u32 \<Rightarrow> u64" where
  "rnd_bound limit = (- 1) - ((- 1) mod ucast limit)"

partial_function (option) random_draw :: "u64 \<Rightarrow> seeds \<Rightarrow> (u64 \<times> seeds) option" where
  "random_draw bound s =
    (case random_next s of (x, s') \<Rightarrow> if x \<ge> bound then random_draw bound s' else Some (x, s'))"

definition random_below :: "u32 \<Rightarrow> seeds \<Rightarrow> (u32 \<times> seeds) option" where
  "random_below limit s =
    (if limit \<le> 1 then Some (0, s)
     else do {
       (x, s) \<leftarrow> random_draw (rnd_bound limit) s;
       Some (ucast (x mod ucast limit), s)
     })"

section \<open>The generator runs through a cycle\<close>

definition next_seeds :: "seeds \<Rightarrow> seeds" where
  "next_seeds s = snd (random_next s)"

lemma bit_rotl64: "k < 64 \<Longrightarrow> n < 64 \<Longrightarrow>
    bit (rotl64 k d) n \<longleftrightarrow> (if n < k then bit d (64 - k + n) else bit d (n - k))"
  by (auto simp: rotl64_def bit_simps dest: bit_imp_le_length)

lemma inj_rotl64:
  assumes "rotl64 k d = rotl64 k e" and "k < 64"
  shows "d = e"
proof (rule bit_word_eqI)
  fix n assume n: "n < LENGTH(64)"
  have e: "(if m < k then bit d (64 - k + m) else bit d (m - k)) =
      (if m < k then bit e (64 - k + m) else bit e (m - k))" if "m < 64" for m
    using arg_cong [OF assms(1), of "\<lambda>w. bit w m"] bit_rotl64 [OF assms(2) that] by simp
  show "bit d n = bit e n"
  proof (cases "n + k < 64")
    case True
    then show ?thesis using e [of "n + k"] by simp
  next
    case False
    then have "n + k - 64 < k" "64 - k + (n + k - 64) = n" "n + k - 64 < 64" using n assms(2) by auto
    then show ?thesis using e [of "n + k - 64"] by simp
  qed
qed

lemma inj_next_seeds: "inj next_seeds"
proof (rule injI)
  fix s t assume e: "next_seeds s = next_seeds t"
  obtain s0 s1 s2 t0 t1 t2 where st: "s = (s0, s1, s2)" "t = (t0, t1, t2)" by (cases s; cases t) auto
  have m: "15241094284759029579 * s1 = 15241094284759029579 * t1" "rotl64 27 (s1 - s0) = rotl64 27 (t1 - t0)"
    "s2 = t2" using e st by (simp_all add: next_seeds_def random_next_def Let_def)
  have "4888251478366616163 * (15241094284759029579 * s1) = 4888251478366616163 * (15241094284759029579 * t1)"
    using m(1) by simp
  moreover have "4888251478366616163 * 15241094284759029579 = (1 :: u64)" by simp
  ultimately have "s1 = t1" by (simp only: mult.assoc [symmetric] mult_1)
  moreover have "s1 - s0 = t1 - t0" using inj_rotl64 m(2) by simp
  ultimately show "s = t" using st m(3) by simp
qed

lemma finite_words: "finite (UNIV :: 'a::len word set)"
proof -
  have "w \<in> word_of_nat ` {..<2 ^ LENGTH('a)}" for w :: "'a word"
    by (rule image_eqI [of _ _ "unat w"]) (simp_all add: unsigned_less)
  then show ?thesis by (metis UNIV_I finite_imageI finite_lessThan finite_subset subsetI)
qed

lemma finite_seeds: "finite (UNIV :: seeds set)"
  by (intro finite_Prod_UNIV finite_words)

lemma next_seeds_cycle: "\<exists>n>0. (next_seeds ^^ n) s = s"
proof -
  have "\<not> inj (\<lambda>n. (next_seeds ^^ n) s)"
  proof
    assume "inj (\<lambda>n. (next_seeds ^^ n) s)"
    with finite_subset [OF subset_UNIV finite_seeds] have "finite (UNIV :: nat set)" by (rule finite_imageD)
    then show False by simp
  qed
  then obtain x y where xy: "x \<noteq> y" "(next_seeds ^^ x) s = (next_seeds ^^ y) s"
    by (auto simp: inj_on_def)
  define i where "i = min x y"
  define j where "j = max x y"
  have ij: "i < j" "(next_seeds ^^ i) s = (next_seeds ^^ j) s"
    using xy by (auto simp: i_def j_def min_def max_def)
  moreover have "(next_seeds ^^ (i + (j - i))) s = (next_seeds ^^ i) ((next_seeds ^^ (j - i)) s)"
    by (simp only: funpow_add comp_apply)
  ultimately have "(next_seeds ^^ i) s = (next_seeds ^^ i) ((next_seeds ^^ (j - i)) s)" by simp
  then have "(next_seeds ^^ (j - i)) s = s"
    using inj_fn [OF inj_next_seeds, of i] by (metis injD)
  then show ?thesis using ij(1) by (metis zero_less_diff)
qed

text \<open>
  A state is live when some later draw is below 2 to 64 minus 2 to 32, which no limit of 32
  bits rejects.  As the generator runs through a cycle, a live state stays live.
\<close>

definition rng_live :: "seeds \<Rightarrow> bool" where
  "rng_live s \<longleftrightarrow> (\<exists>n. fst (random_next ((next_seeds ^^ n) s)) < 0xffffffff00000000)"

lemma rng_live_next: "rng_live s \<Longrightarrow> rng_live (next_seeds s)"
proof -
  assume "rng_live s"
  then obtain n where n: "fst (random_next ((next_seeds ^^ n) s)) < 0xffffffff00000000"
    by (auto simp: rng_live_def)
  obtain m where m: "(next_seeds ^^ Suc m) s = s"
    using next_seeds_cycle [of s] gr0_implies_Suc by blast
  have "(next_seeds ^^ (n + m)) (next_seeds s) = (next_seeds ^^ n) ((next_seeds ^^ Suc m) s)"
    by (simp only: funpow_add comp_apply funpow_Suc_right)
  then show ?thesis using n m unfolding rng_live_def by metis
qed

lemma rng_live_now: "fst s < 0xffffffff00000000 \<Longrightarrow> rng_live s"
  by (auto simp: rng_live_def random_next_def split: prod.splits intro!: exI [of _ 0])

section \<open>Drawing below a limit\<close>

lemma random_draw_step:
  "random_draw b s = (if fst (random_next s) \<ge> b then random_draw b (next_seeds s)
     else Some (fst (random_next s), next_seeds s))"
  by (subst random_draw.simps) (simp add: next_seeds_def split: prod.splits)

lemma random_draw_live:
  assumes "rng_live s" and "0xffffffff00000000 \<le> b"
  shows "\<exists>x s'. random_draw b s = Some (x, s') \<and> x < b \<and> rng_live s'"
proof -
  have "fst (random_next ((next_seeds ^^ n) s)) < 0xffffffff00000000 \<Longrightarrow> rng_live s \<Longrightarrow>
      \<exists>x s'. random_draw b s = Some (x, s') \<and> x < b \<and> rng_live s'" for n
  proof (induction n arbitrary: s)
    case 0
    then have "\<not> b \<le> fst (random_next s)" using assms(2) by simp
    then show ?case using random_draw_step [of b s] rng_live_next [OF 0(2)] by simp
  next
    case (Suc n)
    show ?case
    proof (cases "b \<le> fst (random_next s)")
      case True
      have "fst (random_next ((next_seeds ^^ n) (next_seeds s))) < 0xffffffff00000000"
        using Suc.prems(1) by (simp add: funpow_swap1)
      then show ?thesis using Suc.IH [OF _ rng_live_next [OF Suc.prems(2)]] True random_draw_step [of b s] by simp
    next
      case False
      then show ?thesis using random_draw_step [of b s] rng_live_next [OF Suc.prems(2)] by simp
    qed
  qed
  then show ?thesis using assms(1) by (auto simp: rng_live_def)
qed

text \<open>The bound is the largest multiple of the limit that 64 bits hold (short of the top).\<close>

lemma unat_rnd_bound: "unat (rnd_bound limit) = (2 ^ 64 - 1) div unat limit * unat limit"
proof -
  have m: "unat (- 1 :: u64) = 2 ^ 64 - 1" by (simp add: unsigned_minus_1_eq_mask mask_eq_exp_minus_1)
  have "unat (rnd_bound limit) = (2 ^ 64 - 1) - (2 ^ 64 - 1) mod unat limit"
    unfolding rnd_bound_def
    by (subst unat_sub) (simp_all add: m unat_mod_distrib word_le_nat_alt)
  then show ?thesis by (metis minus_mod_eq_div_mult)
qed

lemma rnd_bound_ge:
  assumes "limit \<noteq> 0"
  shows "0xffffffff00000000 \<le> rnd_bound limit"
proof -
  have l: "0 < unat limit" using assms by (simp add: unat_gt_0)
  have "unat (rnd_bound limit) + (2 ^ 64 - 1) mod unat limit = 2 ^ 64 - 1"
    unfolding unat_rnd_bound by (rule div_mult_mod_eq)
  moreover have "(2 ^ 64 - 1) mod unat limit < 2 ^ 32"
    using less_trans [OF mod_less_divisor [OF l] unat_u32_less] by simp
  ultimately show ?thesis by (simp add: word_le_nat_alt)
qed

lemma unat_random_mod: "unat (ucast ((x :: u64) mod ucast (limit :: u32)) :: u32) = unat x mod unat limit"
  if "limit \<noteq> 0"
proof -
  have "unat (x mod ucast limit) = unat x mod unat limit" by (simp add: unat_mod_distrib)
  moreover have "unat x mod unat limit < 2 ^ 32"
    using less_trans [OF mod_less_divisor unat_u32_less] that by (simp add: unat_gt_0)
  ultimately show ?thesis by (simp add: unat_ucast_64_32)
qed

lemma random_below_live:
  assumes "rng_live s"
  shows "\<exists>r s'. random_below limit s = Some (r, s') \<and> rng_live s' \<and> (limit \<noteq> 0 \<longrightarrow> r < limit) \<and>
    (limit \<le> 1 \<longrightarrow> r = 0)"
proof (cases "limit \<le> 1")
  case True
  then show ?thesis using assms by (auto simp: random_below_def word_neq_0_conv)
next
  case False
  then have l: "limit \<noteq> 0" by auto
  obtain x s' where x: "random_draw (rnd_bound limit) s = Some (x, s')" "rng_live s'"
    using random_draw_live [OF assms rnd_bound_ge [OF l]] by blast
  have "(ucast (x mod ucast limit) :: u32) < limit"
    using unat_random_mod [OF l, of x] l by (simp add: word_less_nat_alt unat_gt_0)
  then show ?thesis using x False by (simp add: random_below_def)
qed

text \<open>The loop ends exactly when the generator reaches a value below the bound.\<close>

lemma random_draw_ends:
  assumes "fst (random_next ((next_seeds ^^ n) s)) < b"
  shows "random_draw b s \<noteq> None"
  using assms
proof (induction n arbitrary: s)
  case 0
  then have "\<not> b \<le> fst (random_next s)" by (simp add: not_le)
  then show ?case using random_draw_step [of b s] by simp
next
  case (Suc n)
  have "fst (random_next ((next_seeds ^^ n) (next_seeds s))) < b"
    using Suc.prems by (simp add: funpow_swap1)
  then show ?case using Suc.IH [of "next_seeds s"] random_draw_step [of b s]
    by (simp split: if_splits del: not_None_eq)
qed

lemma random_draw_starves:
  assumes "\<And>n. b \<le> fst (random_next ((next_seeds ^^ n) s))"
  shows "random_draw b s = None"
proof -
  have "\<exists>n. fst (random_next ((next_seeds ^^ n) t)) < b" if "random_draw b t = Some r" for t r
  proof (rule random_draw.raw_induct [where P = "\<lambda>b t r. \<exists>n. fst (random_next ((next_seeds ^^ n) t)) < b", OF _ that])
    fix draw :: "u64 \<Rightarrow> seeds \<Rightarrow> (u64 \<times> seeds) option" and b t r
    assume 1: "\<And>b t r. draw b t = Some r \<Longrightarrow> \<exists>n. fst (random_next ((next_seeds ^^ n) t)) < b"
      "(case random_next t of (x, s') \<Rightarrow> if b \<le> x then draw b s' else Some (x, s')) = Some r"
    show "\<exists>n. fst (random_next ((next_seeds ^^ n) t)) < b"
    proof (cases "b \<le> fst (random_next t)")
      case True
      then have "draw b (next_seeds t) = Some r" using 1(2) by (simp add: next_seeds_def split: prod.splits)
      then obtain n where "fst (random_next ((next_seeds ^^ n) (next_seeds t))) < b" using 1(1) by blast
      then show ?thesis by (intro exI [of _ "Suc n"]) (simp add: funpow_swap1)
    next
      case False
      then show ?thesis by (intro exI [of _ 0]) simp
    qed
  qed
  then show ?thesis using assms by (metis not_le option.exhaust)
qed

text \<open>Every residue is the image of equally many accepted values.\<close>

lemma residues: "0 < (l::nat) \<Longrightarrow> r < l \<Longrightarrow> card {k. k < q * l \<and> k mod l = r} = q"
proof -
  assume l: "0 < l" "r < l"
  have "{k. k < q * l \<and> k mod l = r} = (\<lambda>i. i * l + r) ` {..<q}"
  proof (intro equalityI subsetI)
    fix k assume "k \<in> {k. k < q * l \<and> k mod l = r}"
    then show "k \<in> (\<lambda>i. i * l + r) ` {..<q}"
      by (intro image_eqI [of _ _ "k div l"]) (auto simp: less_mult_imp_div_less)
  next
    fix k assume "k \<in> (\<lambda>i. i * l + r) ` {..<q}"
    then obtain i where i: "i < q" "k = i * l + r" by auto
    have "i * l + r < Suc i * l" using l by simp
    also have "\<dots> \<le> q * l" using i(1) by (intro mult_le_mono1) simp
    finally show "k \<in> {k. k < q * l \<and> k mod l = r}" using i l by simp
  qed
  moreover have "inj_on (\<lambda>i. i * l + r) {..<q}" using l by (intro inj_onI) simp
  ultimately show ?thesis by (simp add: card_image)
qed

lemma random_unbiased:
  assumes "r < limit"
  shows "card {x. x < rnd_bound limit \<and> (ucast (x mod ucast limit) :: u32) = r} = (2 ^ 64 - 1) div unat limit"
proof -
  have l: "limit \<noteq> 0" using assms by auto
  have ul: "0 < unat limit" "unat r < unat limit" using l assms by (simp_all add: unat_gt_0 word_less_nat_alt)
  have "unat ` {x. x < rnd_bound limit \<and> (ucast (x mod ucast limit) :: u32) = r} =
      {k. k < (2 ^ 64 - 1) div unat limit * unat limit \<and> k mod unat limit = unat r}" (is "_ ` ?A = ?B")
  proof (intro equalityI subsetI)
    fix k assume "k \<in> unat ` ?A"
    then show "k \<in> ?B"
      using unat_random_mod [OF l] by (auto simp: word_less_nat_alt unat_rnd_bound)
  next
    fix k assume k: "k \<in> ?B"
    have "(2 ^ 64 - 1) div unat limit * unat limit \<le> (2::nat) ^ 64 - 1" by (rule div_times_less_eq_dividend)
    moreover have "k < (2 ^ 64 - 1) div unat limit * unat limit" using k by blast
    ultimately have "k < 2 ^ 64" by linarith
    then have u: "unat (of_nat k :: u64) = k" by (rule unat_of_nat_u64)
    have "(of_nat k :: u64) \<in> ?A"
      using k u unat_random_mod [OF l, of "of_nat k"]
      by (auto simp: word_less_nat_alt unat_rnd_bound word_unat_eq_iff)
    then show "k \<in> unat ` ?A" by (rule image_eqI [where f = unat, OF u [symmetric]])
  qed
  moreover have "inj_on (unat :: u64 \<Rightarrow> nat) ?A" by (intro inj_onI) (simp add: word_unat_eq_iff)
  then have "card (unat ` ?A) = card ?A" by (rule card_image)
  ultimately have "card ?A = card ?B" by simp
  then show ?thesis using residues [OF ul] by simp
qed

end
