(* ===== verification/Tree_Pick.thy ===== *)
theory Tree_Pick
  imports Tree_Lists Tree_Edit Rng
begin

text \<open>
  The random choice of a mutation point in Grammar-Mutator/src/tree.c:
  \<open>node_pick_non_term_subnode\<close> and \<open>node_pick_recursion_edge\<close> walk down the tree with the
  cached sizes.  With right sizes and a generator that does not starve they never reach the
  "should not reach here" exits.
\<close>

section \<open>The heap with the state of the generator\<close>

record rheap = heap +
  random_seed :: seeds

definition rnd_below :: "u32 \<Rightarrow> 'z rheap_scheme \<Rightarrow> (u32 \<times> 'z rheap_scheme) option" where
  "rnd_below limit h = do {
     (r, s) \<leftarrow> random_below limit (random_seed h);
     Some (r, h\<lparr>random_seed := s\<rparr>)
   }"

text \<open>The argument of \<open>random_below\<close> has 32 bits, the sizes have 64.\<close>

primrec node_pick_non_term_subnode ::
    "nat \<Rightarrow> ptr \<Rightarrow> 'z rheap_scheme \<Rightarrow> (ptr \<times> 'z rheap_scheme) option" where
  "node_pick_non_term_subnode 0 p h = None"
| "node_pick_non_term_subnode (Suc k) p h =
    (if p = None then Some (None, h)
     else do {
       n \<leftarrow> rd h p;
       if non_term_size n = 0 then Some (None, h)
       else do {
         (r, h) \<leftarrow> rnd_below (ucast (non_term_size n)) h;
         let prob = ucast r in
         if prob < 1 then Some (p, h)
         else do {
           res \<leftarrow> loopM (\<lambda>i prob. do {
               s \<leftarrow> sub_at h p i;
               if s = None then Some (Inr prob)
               else do {
                 sn \<leftarrow> rd h s;
                 if node_id sn = 0 then Some (Inr prob)
                 else if prob < non_term_size sn
                   then map_option Inl (node_pick_non_term_subnode k s h)
                 else Some (Inr (prob - non_term_size sn))
               }}) [0..<unat (subnode_count n)] (prob - 1);
           Some (case res of Inl x \<Rightarrow> x | Inr _ \<Rightarrow> (None, h))
         }}})"

primrec node_pick_recursion_edge ::
    "nat \<Rightarrow> ptr \<Rightarrow> 'z rheap_scheme \<Rightarrow> (edge_t \<times> 'z rheap_scheme) option" where
  "node_pick_recursion_edge 0 p h = None"
| "node_pick_recursion_edge (Suc k) p h =
    (if p = None then Some (null_edge, h)
     else do {
       n \<leftarrow> rd h p;
       if recursion_edge_size n = 0 then Some (null_edge, h)
       else do {
         (r, h) \<leftarrow> rnd_below (ucast (recursion_edge_size n)) h;
         res \<leftarrow> loopM (\<lambda>i prob. do {
             s \<leftarrow> sub_at h p i;
             if s = None then Some (Inr prob)
             else do {
               sn \<leftarrow> rd h s;
               if node_id n = node_id sn \<and> prob < 1 then
                 Some (Inl (\<lparr>e_parent = p, e_subnode = s, e_offset = i\<rparr>, h))
               else
                 let prob = (if node_id n = node_id sn then prob - 1 else prob) in
                 if prob < recursion_edge_size sn
                   then map_option Inl (node_pick_recursion_edge k s h)
                 else Some (Inr (prob - recursion_edge_size sn))
             }}) [0..<unat (subnode_count n)] (ucast r);
         Some (case res of Inl x \<Rightarrow> x | Inr _ \<Rightarrow> (null_edge, h))
       }})"

section \<open>Frames\<close>

lemma random_seed_upd [simp]:
  "nodes (h\<lparr>random_seed := s\<rparr>) = nodes h" "brk (h\<lparr>random_seed := s\<rparr>) = brk h"
  "avail (h\<lparr>random_seed := s\<rparr>) = avail h"
  by simp_all

lemma seed_frame [simp]:
  "view (h\<lparr>random_seed := s\<rparr>) t = view h t"
  "parents (h\<lparr>random_seed := s\<rparr>) par t = parents h par t"
  "sized (h\<lparr>random_seed := s\<rparr>) t = sized h t"
  "rep (h\<lparr>random_seed := s\<rparr>) par t = rep h par t"
  "heap_ok (h\<lparr>random_seed := s\<rparr>) = heap_ok h"
proof -
  let ?h = "h\<lparr>random_seed := s\<rparr>"
  show v: "view ?h t = view h t"
    using view_cong [of h t ?h] view_cong [of ?h t h] by auto
  show p: "parents ?h par t = parents h par t"
    using parents_cong [of h par t ?h] parents_cong [of ?h par t h] by auto
  show "sized ?h t = sized h t"
    using sized_cong [of h t ?h] sized_cong [of ?h t h] by auto
  show "rep ?h par t = rep h par t" using v p by (simp add: rep_def)
  show "heap_ok ?h = heap_ok h" by (simp add: heap_ok_def)
qed

lemma rnd_below_live:
  assumes "rng_live (random_seed h)"
  obtains r s where "rnd_below limit h = Some (r, h\<lparr>random_seed := s\<rparr>)" "rng_live s"
    "limit \<noteq> 0 \<Longrightarrow> r < limit" "limit \<le> 1 \<Longrightarrow> r = 0"
proof -
  obtain r s where "random_below limit (random_seed h) = Some (r, s)" "rng_live s"
    "limit \<noteq> 0 \<Longrightarrow> r < limit" "limit \<le> 1 \<Longrightarrow> r = 0"
    using random_below_live [OF assms, of limit] by metis
  then show ?thesis by (intro that [of r s]) (simp_all add: rnd_below_def)
qed

section \<open>Choosing a nonterminal\<close>

definition pick_body ::
    "(ptr \<Rightarrow> 'z rheap_scheme \<Rightarrow> (ptr \<times> 'z rheap_scheme) option) \<Rightarrow> ptr \<Rightarrow> 'z rheap_scheme \<Rightarrow> nat
      \<Rightarrow> u64 \<Rightarrow> ((ptr \<times> 'z rheap_scheme) + u64) option" where
  "pick_body rec p h i prob = do {
     s \<leftarrow> sub_at h p i;
     if s = None then Some (Inr prob)
     else do {
       sn \<leftarrow> rd h s;
       if node_id sn = 0 then Some (Inr prob)
       else if prob < non_term_size sn then map_option Inl (rec s h)
       else Some (Inr (prob - non_term_size sn))
     }}"

lemma node_pick_non_term_subnode_unfold:
  "node_pick_non_term_subnode (Suc k) p h =
    (if p = None then Some (None, h)
     else do {
       n \<leftarrow> rd h p;
       if non_term_size n = 0 then Some (None, h)
       else do {
         (r, h) \<leftarrow> rnd_below (ucast (non_term_size n)) h;
         let prob = ucast r in
         if prob < 1 then Some (p, h)
         else do {
           res \<leftarrow> loopM (pick_body (node_pick_non_term_subnode k) p h) [0..<unat (subnode_count n)] (prob - 1);
           Some (case res of Inl x \<Rightarrow> x | Inr _ \<Rightarrow> (None, h))
         }}})"
  unfolding node_pick_non_term_subnode.simps pick_body_def [abs_def] by (rule refl)

lemma pick_loop:
  assumes n: "nodes h a = Some n" "kids_ok n (us @ ts)"
    and v: "\<forall>t\<in>set ts. view h t \<and> sized h t"
    and p: "unat prob < sum_list (map nt_size ts)" and b: "sum_list (map nt_size ts) < 2 ^ 64"
  shows "\<exists>t\<in>set ts. 0 < nt_size t \<and>
    loopM (pick_body rec (Some a) h) [length us..<length us + length ts] prob = map_option Inl (rec (root_ptr t) h)"
  using n(2) v p b
proof (induction ts arbitrary: us prob)
  case (Cons t ts)
  have sub: "sub_at h (Some a) (length us) = Some (root_ptr t)"
    using kids_ok_sub_at [OF n(1) Cons.prems(1), of "length us"] by (simp add: nth_append)
  have upt: "[length us..<length us + length (t # ts)] = length us # [length (us @ [t])..<length (us @ [t]) + length ts]"
    by (subst upt_conv_Cons) simp_all
  have more: "\<exists>u\<in>set ts. 0 < nt_size u \<and> loopM (pick_body rec (Some a) h)
      [length (us @ [t])..<length (us @ [t]) + length ts] q = map_option Inl (rec (root_ptr u) h)"
    if "unat q < sum_list (map nt_size ts)" for q
    by (rule Cons.IH) (use Cons.prems that in auto)
  show ?case
  proof (cases "nt_size t = 0")
    case True
    then have "pick_body rec (Some a) h (length us) prob = Some (Inr prob)"
      using sub Cons.prems(2) by (cases t) (auto simp: pick_body_def split: if_splits)
    then show ?thesis unfolding upt using more [of prob] Cons.prems(3) True by auto
  next
    case False
    then obtain b j r w ss where t: "t = Node b j r w ss" "j \<noteq> 0" by (cases t) (auto split: if_splits)
    have "view h t" "sized h t" using Cons.prems(2) by auto
    then obtain sn where sn: "nodes h b = Some sn" "node_id sn = j" "non_term_size sn = of_nat (nt_size t)"
      using t by auto
    have ns: "unat (non_term_size sn) = nt_size t" using Cons.prems(4) sn(3) by (simp add: unat_of_nat_u64)
    show ?thesis
    proof (cases "prob < non_term_size sn")
      case True
      then have "pick_body rec (Some a) h (length us) prob = map_option Inl (rec (root_ptr t) h)"
        using sub t sn by (simp add: pick_body_def)
      then have "loopM (pick_body rec (Some a) h) [length us..<length us + length (t # ts)] prob =
          map_option Inl (rec (root_ptr t) h)"
        unfolding upt by (cases "rec (root_ptr t) h") auto
      then show ?thesis using False by auto
    next
      case ge: False
      then have "pick_body rec (Some a) h (length us) prob = Some (Inr (prob - non_term_size sn))"
        using sub t sn by (simp add: pick_body_def)
      moreover have "unat (prob - non_term_size sn) = unat prob - nt_size t"
        using ge ns by (simp add: unat_sub not_less)
      then have "unat (prob - non_term_size sn) < sum_list (map nt_size ts)"
        using Cons.prems(3) ge ns by (simp add: word_less_nat_alt)
      ultimately show ?thesis unfolding upt using more by auto
    qed
  qed
qed simp

lemma nt_size_kid: "t \<in> set ts \<Longrightarrow> nt_size t \<le> sum_list (map nt_size ts)"
  by (rule member_le_sum_list) simp_all

lemma pick_non_term_view:
  assumes "view h t" and "sized h t" and "0 < nt_size t" and "nt_size t < 2 ^ 32"
    and "rng_live (random_seed h)" and "height t < k"
  shows "\<exists>a s. node_pick_non_term_subnode k (root_ptr t) h = Some (Some a, h\<lparr>random_seed := s\<rparr>) \<and>
    a \<in> set (nonterms t) \<and> rng_live s"
  using assms
proof (induction k arbitrary: t h)
  case (Suc k)
  obtain a i r v ts where t: "t = Node a i r v ts" "i \<noteq> 0" using Suc.prems(3) by (cases t) (auto split: if_splits)
  obtain n where n: "nodes h a = Some n" "non_term_size n = of_nat (nt_size t)" using Suc.prems(2) t by auto
  have nv: "kids_ok n ts \<and> (\<forall>t\<in>set ts. view h t)" using view_node Suc.prems(1) n t by blast
  have sz: "\<forall>u\<in>set ts. sized h u" using Suc.prems(2) t by auto
  have cnt: "unat (subnode_count n) = length ts" using nv by (simp add: kids_ok_def)
  have un: "unat (non_term_size n) = nt_size t" using n(2) Suc.prems(4) by (simp add: unat_of_nat_u64)
  then have ul: "unat (ucast (non_term_size n) :: u32) = nt_size t"
    using Suc.prems(4) by (simp add: unat_ucast_64_32)
  have n0: "non_term_size n \<noteq> 0" "(ucast (non_term_size n) :: u32) \<noteq> 0" using un ul Suc.prems(3) by auto
  obtain x s where x: "rnd_below (ucast (non_term_size n)) h = Some (x, h\<lparr>random_seed := s\<rparr>)" "rng_live s"
    "x < ucast (non_term_size n)"
    using rnd_below_live [OF Suc.prems(5), of "ucast (non_term_size n)"] n0(2) by metis
  have ux: "unat (ucast x :: u64) < nt_size t" using x(3) ul by (simp add: word_less_nat_alt)
  let ?h = "h\<lparr>random_seed := s\<rparr>"
  show ?case
  proof (cases "(ucast x :: u64) < 1")
    case True
    then have "node_pick_non_term_subnode (Suc k) (root_ptr t) h = Some (Some a, ?h)"
      using t n n0 x(1) by (simp add: node_pick_non_term_subnode_unfold del: node_pick_non_term_subnode.simps)
    then show ?thesis using t x(2) by (intro exI [of _ a] exI [of _ s]) simp
  next
    case False
    then have "unat (ucast x - 1 :: u64) = unat (ucast x :: u64) - 1"
      by (subst unat_sub) (auto simp: word_le_nat_alt word_less_nat_alt)
    then have up: "unat (ucast x - 1 :: u64) < sum_list (map nt_size ts)"
      using ux False t by (auto simp: word_less_nat_alt)
    have "\<exists>u\<in>set ts. 0 < nt_size u \<and>
        loopM (pick_body (node_pick_non_term_subnode k) (Some a) ?h)
          [length ([]::nat tree list)..<length ([]::nat tree list) + length ts] (ucast x - 1) =
        map_option Inl (node_pick_non_term_subnode k (root_ptr u) ?h)"
      by (rule pick_loop) (use n nv sz up Suc.prems(4) t in auto)
    then obtain u where u: "u \<in> set ts" "0 < nt_size u"
      "loopM (pick_body (node_pick_non_term_subnode k) (Some a) ?h) [0..<length ts] (ucast x - 1) =
        map_option Inl (node_pick_non_term_subnode k (root_ptr u) ?h)" by auto
    have "\<exists>b s'. node_pick_non_term_subnode k (root_ptr u) ?h = Some (Some b, ?h\<lparr>random_seed := s'\<rparr>) \<and>
        b \<in> set (nonterms u) \<and> rng_live s'"
      by (rule Suc.IH) (use u nv sz x(2) Suc.prems(4,6) t nt_size_kid [OF u(1)]
        height_kid [OF u(1), of a i r v] in auto)
    then obtain b s' where b: "node_pick_non_term_subnode k (root_ptr u) ?h = Some (Some b, h\<lparr>random_seed := s'\<rparr>)"
      "b \<in> set (nonterms u)" "rng_live s'" by (auto simp del: split_paired_Ex)
    have "node_pick_non_term_subnode (Suc k) (root_ptr t) h = Some (Some b, h\<lparr>random_seed := s'\<rparr>)"
      using t n n0 x(1) False cnt u(3) b(1)
      by (simp add: node_pick_non_term_subnode_unfold Let_def del: node_pick_non_term_subnode.simps)
    then show ?thesis using b u t by (intro exI [of _ b] exI [of _ s']) auto
  qed
qed simp

section \<open>Choosing a recursion edge\<close>

definition pick_edge_body ::
    "(ptr \<Rightarrow> 'z rheap_scheme \<Rightarrow> (edge_t \<times> 'z rheap_scheme) option) \<Rightarrow> u32 \<Rightarrow> ptr \<Rightarrow> 'z rheap_scheme \<Rightarrow> nat
      \<Rightarrow> u64 \<Rightarrow> ((edge_t \<times> 'z rheap_scheme) + u64) option" where
  "pick_edge_body rec nid p h i prob = do {
     s \<leftarrow> sub_at h p i;
     if s = None then Some (Inr prob)
     else do {
       sn \<leftarrow> rd h s;
       if nid = node_id sn \<and> prob < 1 then
         Some (Inl (\<lparr>e_parent = p, e_subnode = s, e_offset = i\<rparr>, h))
       else
         let prob = (if nid = node_id sn then prob - 1 else prob) in
         if prob < recursion_edge_size sn then map_option Inl (rec s h)
         else Some (Inr (prob - recursion_edge_size sn))
     }}"

lemma node_pick_recursion_edge_unfold:
  "node_pick_recursion_edge (Suc k) p h =
    (if p = None then Some (null_edge, h)
     else do {
       n \<leftarrow> rd h p;
       if recursion_edge_size n = 0 then Some (null_edge, h)
       else do {
         (r, h) \<leftarrow> rnd_below (ucast (recursion_edge_size n)) h;
         res \<leftarrow> loopM (pick_edge_body (node_pick_recursion_edge k) (node_id n) p h)
           [0..<unat (subnode_count n)] (ucast r);
         Some (case res of Inl x \<Rightarrow> x | Inr _ \<Rightarrow> (null_edge, h))
       }})"
  unfolding node_pick_recursion_edge.simps pick_edge_body_def [abs_def] by (rule refl)

abbreviation edge_weight :: "u32 \<Rightarrow> nat tree \<Rightarrow> nat" where
  "edge_weight i t \<equiv> rec_edge i t + re_size t"

lemma pick_edge_loop:
  assumes n: "nodes h a = Some n" "kids_ok n (us @ ts)"
    and v: "\<forall>t\<in>set ts. view h t \<and> sized h t"
    and p: "unat prob < sum_list (map (edge_weight i) ts)" and b: "sum_list (map (edge_weight i) ts) < 2 ^ 64"
    and rec: "\<And>t. t \<in> set ts \<Longrightarrow> 0 < re_size t \<Longrightarrow> \<exists>e h'. rec (root_ptr t) h = Some (e, h') \<and> e \<in> set (rec_edges t) \<and> Q h'"
    and Q: "Q h"
  shows "\<exists>e h'. loopM (pick_edge_body rec i (Some a) h) [length us..<length us + length ts] prob = Some (Inl (e, h')) \<and>
    e \<in> set (concat (map2 (kid_edges a i) [length us..<length us + length ts] ts)) \<and> Q h'"
  using n(2) v p b rec
proof (induction ts arbitrary: us prob)
  case (Cons t ts)
  have sub: "sub_at h (Some a) (length us) = Some (root_ptr t)"
    using kids_ok_sub_at [OF n(1) Cons.prems(1), of "length us"] by (simp add: nth_append)
  have upt: "[length us..<length us + length (t # ts)] = length us # [length (us @ [t])..<length (us @ [t]) + length ts]"
    by (subst upt_conv_Cons) simp_all
  have more: "\<exists>e h'. loopM (pick_edge_body rec i (Some a) h) [length (us @ [t])..<length (us @ [t]) + length ts] q = Some (Inl (e, h')) \<and>
      e \<in> set (concat (map2 (kid_edges a i) [length (us @ [t])..<length (us @ [t]) + length ts] ts)) \<and> Q h'"
    if "unat q < sum_list (map (edge_weight i) ts)" for q
    by (rule Cons.IH) (use Cons.prems that in auto)
  define js where "js = [length (us @ [t])..<length (us @ [t]) + length ts]"
  note upt = upt [folded js_def] and more = more [folded js_def]
  show ?case
  proof (cases t)
    case Null
    then have "pick_edge_body rec i (Some a) h (length us) prob = Some (Inr prob)"
      using sub by (simp add: pick_edge_body_def)
    moreover have "edge_weight i t = 0" using Null by (simp add: rec_edge_def)
    ultimately show ?thesis unfolding upt using more [of prob] Cons.prems(3) by auto
  next
    case (Node b j r w ss)
    have "view h t" "sized h t" using Cons.prems(2) by auto
    then obtain sn where sn: "nodes h b = Some sn" "node_id sn = j" "recursion_edge_size sn = of_nat (re_size t)"
      using Node by auto
    have ns: "unat (recursion_edge_size sn) = re_size t" using Cons.prems(4) sn(3) by (simp add: unat_of_nat_u64)
    have re: "rec_edge i t = (if i = j then 1 else 0)" using Node by (simp add: rec_edge_def)
    show ?thesis
    proof (cases "i = j \<and> prob < 1")
      case True
      then have "pick_edge_body rec i (Some a) h (length us) prob =
          Some (Inl (\<lparr>e_parent = Some a, e_subnode = root_ptr t, e_offset = length us\<rparr>, h))"
        using sub Node sn by (simp add: pick_edge_body_def)
      then show ?thesis unfolding upt using True re Q by (simp add: kid_edges_def)
    next
      case f: False
      define q where "q = (if i = j then prob - 1 else prob)"
      have q: "unat q = unat prob - rec_edge i t" "rec_edge i t \<le> unat prob"
        using f re by (auto simp: q_def unat_sub word_less_nat_alt word_le_nat_alt not_less)
      have step: "pick_edge_body rec i (Some a) h (length us) prob =
          (if q < recursion_edge_size sn then map_option Inl (rec (root_ptr t) h)
           else Some (Inr (q - recursion_edge_size sn)))"
        using sub Node sn f by (auto simp: pick_edge_body_def q_def)
      show ?thesis
      proof (cases "q < recursion_edge_size sn")
        case True
        then have "0 < re_size t" using ns by (auto simp: word_less_nat_alt)
        then obtain e h' where "rec (root_ptr t) h = Some (e, h')" "e \<in> set (rec_edges t)" "Q h'"
          using Cons.prems(5) [of t] by auto
        then show ?thesis unfolding upt using True step by (auto simp: kid_edges_def)
      next
        case False
        have "unat (q - recursion_edge_size sn) = unat q - re_size t"
          using False ns by (simp add: unat_sub not_less)
        then have "unat (q - recursion_edge_size sn) < sum_list (map (edge_weight i) ts)"
          using Cons.prems(3) False ns q by (simp add: word_less_nat_alt)
        from more [OF this] show ?thesis unfolding upt using False step by auto
      qed
    qed
  qed
qed simp

lemma re_size_kid: "t \<in> set ts \<Longrightarrow> re_size t \<le> sum_list (map (edge_weight i) ts)"
  by (rule order_trans [OF _ member_le_sum_list [of "edge_weight i t"]]) simp_all

lemma pick_recursion_edge_view:
  assumes "view h t" and "sized h t" and "0 < re_size t" and "re_size t < 2 ^ 32"
    and "rng_live (random_seed h)" and "height t < k"
  shows "\<exists>e s. node_pick_recursion_edge k (root_ptr t) h = Some (e, h\<lparr>random_seed := s\<rparr>) \<and>
    e \<in> set (rec_edges t) \<and> rng_live s"
  using assms
proof (induction k arbitrary: t h)
  case (Suc k)
  obtain a i r v ts where t: "t = Node a i r v ts" "i \<noteq> 0" using Suc.prems(3) by (cases t) (auto split: if_splits)
  obtain n where n: "nodes h a = Some n" "recursion_edge_size n = of_nat (re_size t)" using Suc.prems(2) t by auto
  have nv: "node_id n = i \<and> kids_ok n ts \<and> (\<forall>t\<in>set ts. view h t)" using view_node Suc.prems(1) n t by blast
  have sz: "\<forall>u\<in>set ts. sized h u" using Suc.prems(2) t by auto
  have cnt: "unat (subnode_count n) = length ts" using nv by (simp add: kids_ok_def)
  have un: "unat (recursion_edge_size n) = re_size t" using n(2) Suc.prems(4) by (simp add: unat_of_nat_u64)
  then have ul: "unat (ucast (recursion_edge_size n) :: u32) = re_size t"
    using Suc.prems(4) by (simp add: unat_ucast_64_32)
  have n0: "recursion_edge_size n \<noteq> 0" "(ucast (recursion_edge_size n) :: u32) \<noteq> 0" using un ul Suc.prems(3) by auto
  obtain x s where x: "rnd_below (ucast (recursion_edge_size n)) h = Some (x, h\<lparr>random_seed := s\<rparr>)" "rng_live s"
    "x < ucast (recursion_edge_size n)"
    using rnd_below_live [OF Suc.prems(5), of "ucast (recursion_edge_size n)"] n0(2) by metis
  let ?h = "h\<lparr>random_seed := s\<rparr>"
  have ux: "unat (ucast x :: u64) < sum_list (map (edge_weight i) ts)"
    using x(3) ul t by (simp add: word_less_nat_alt)
  have "\<exists>e h'. loopM (pick_edge_body (node_pick_recursion_edge k) i (Some a) ?h)
      [length ([]::nat tree list)..<length ([]::nat tree list) + length ts] (ucast x) = Some (Inl (e, h')) \<and>
    e \<in> set (concat (map2 (kid_edges a i) [length ([]::nat tree list)..<length ([]::nat tree list) + length ts] ts)) \<and>
    (\<exists>s'. h' = h\<lparr>random_seed := s'\<rparr> \<and> rng_live s')"
  proof (rule pick_edge_loop)
    fix u assume u: "u \<in> set ts" "0 < re_size u"
    have "\<exists>e s'. node_pick_recursion_edge k (root_ptr u) ?h = Some (e, ?h\<lparr>random_seed := s'\<rparr>) \<and>
        e \<in> set (rec_edges u) \<and> rng_live s'"
      by (rule Suc.IH) (use u nv sz x(2) Suc.prems(4,6) t re_size_kid [OF u(1), of i]
        height_kid [OF u(1), of a i r v] in auto)
    then obtain e s' where "node_pick_recursion_edge k (root_ptr u) ?h = Some (e, ?h\<lparr>random_seed := s'\<rparr>)"
        "e \<in> set (rec_edges u)" "rng_live s'" by blast
    then show "\<exists>e h'. node_pick_recursion_edge k (root_ptr u) ?h = Some (e, h') \<and> e \<in> set (rec_edges u) \<and>
        (\<exists>s'. h' = h\<lparr>random_seed := s'\<rparr> \<and> rng_live s')"
      by (intro exI [of _ e] exI [of _ "h\<lparr>random_seed := s'\<rparr>"] conjI exI [of _ s']) simp_all
  next
    show "\<exists>s'. ?h = h\<lparr>random_seed := s'\<rparr> \<and> rng_live s'" using x(2) by (intro exI [of _ s]) simp
  qed (use n nv sz ux Suc.prems(4) t in auto)
  then obtain e s' where e: "loopM (pick_edge_body (node_pick_recursion_edge k) i (Some a) ?h) [0..<length ts] (ucast x) =
      Some (Inl (e, h\<lparr>random_seed := s'\<rparr>))" "rng_live s'"
    "e \<in> set (concat (map2 (kid_edges a i) [0..<length ts] ts))" by (auto simp del: split_paired_Ex set_concat)
  have "node_pick_recursion_edge (Suc k) (root_ptr t) h = Some (e, h\<lparr>random_seed := s'\<rparr>)"
    using t n n0 x(1) nv cnt e(1)
    by (simp add: node_pick_recursion_edge_unfold del: node_pick_recursion_edge.simps)
  then show ?case using e(2,3) t(1) unfolding t(1) rec_edges_Node
    by (intro exI [of _ e] exI [of _ s']) simp
qed simp

text \<open>Without recursion edges, the result is the empty edge.\<close>

lemma pick_recursion_edge_none:
  assumes "view h t" and "sized h t" and "re_size t = 0" and "0 < k"
  shows "node_pick_recursion_edge k (root_ptr t) h = Some (null_edge, h)"
  using assms by (cases k; cases t) auto

text \<open>A recursion edge is an edge of the tree, between nodes of one type.\<close>

lemma rec_edges_child:
  "e \<in> set (rec_edges t) \<Longrightarrow> \<exists>p j i r v ts s. e = \<lparr>e_parent = Some p, e_subnode = root_ptr s, e_offset = j\<rparr> \<and>
     child_at t p j s \<and> s \<noteq> Null \<and> Node p i r v ts \<in> set (subtrees t) \<and> i = tid s \<and> j < length ts \<and> ts ! j = s"
proof (induction t)
  case (Node a i r v ts)
  then obtain j where j: "j < length ts" "e \<in> set (kid_edges a i j (ts ! j))"
    unfolding rec_edges_Node by (auto simp: set_zip)
  show ?case
  proof (cases "e \<in> set (rec_edges (ts ! j))")
    case True
    then obtain p j' i' r' v' ts' s where "e = \<lparr>e_parent = Some p, e_subnode = root_ptr s, e_offset = j'\<rparr> \<and>
      child_at (ts ! j) p j' s \<and> s \<noteq> Null \<and> Node p i' r' v' ts' \<in> set (subtrees (ts ! j)) \<and> i' = tid s \<and>
      j' < length ts' \<and> ts' ! j' = s"
      using Node.IH [of "ts ! j"] j(1) by fastforce
    moreover have "ts ! j \<in> set ts" using j(1) by simp
    ultimately show ?thesis by fastforce
  next
    case False
    then have "e = \<lparr>e_parent = Some a, e_subnode = root_ptr (ts ! j), e_offset = j\<rparr>" "rec_edge i (ts ! j) = 1"
      using j(2) by (auto simp: kid_edges_def split: if_splits)
    then show ?thesis using j(1)
      by (intro exI [of _ a] exI [of _ j] exI [of _ i] exI [of _ r] exI [of _ v] exI [of _ ts] exI [of _ "ts ! j"])
        (auto simp: rec_edge_def split: tree.splits if_splits)
  qed
qed simp

end
