(* ===== verification/Mutation.thy ===== *)
theory Mutation
  imports Tree_Pick
begin

text \<open>
  The mutation strategies of Grammar-Mutator/src/tree\_mutation.c, except the splicing that
  needs the chunk store (theory Chunk\_Store).  The generator functions \<open>gen_funcs\<close> and the
  table \<open>node_num_rules\<close> are generated from a grammar: they are parameters.
\<close>

section \<open>State and parameters\<close>

record mheap = rheap +
  max_tree_len :: u64

text \<open>
  \<open>gen_funcs[id](max_len, &consumed, rule_index)\<close>; the C ints are 32-bit words, and no
  caller reads \<open>consumed\<close>.
\<close>

type_synonym 'z gen = "u32 \<Rightarrow> u32 \<Rightarrow> u32 \<Rightarrow> 'z mheap_scheme \<Rightarrow> (ptr \<times> 'z mheap_scheme) option"

text \<open>A run that returns a value, or one that ends the process.\<close>

datatype 'a result = Ret 'a | Exit int

definition tree_set_max_len :: "u64 \<Rightarrow> 'z mheap_scheme \<Rightarrow> 'z mheap_scheme" where
  "tree_set_max_len n h = h\<lparr>max_tree_len := n\<rparr>"

section \<open>Random mutation\<close>

definition random_mutation ::
    "'z gen \<Rightarrow> nat \<Rightarrow> tree_t option \<Rightarrow> 'z mheap_scheme \<Rightarrow> ((tree_t option \<times> 'z mheap_scheme) result) option" where
  "random_mutation gen k tree h = (case tree of None \<Rightarrow> Some (Ret (None, h))
   | Some tree \<Rightarrow> do {
       (mutated_tree, h) \<leftarrow> tree_clone k tree h;
       (node, h) \<leftarrow> node_pick_non_term_subnode k (root mutated_tree) h;
       if node = None then Some (Exit 1)
       else do {
         n \<leftarrow> rd h node;
         let par = parent n in do {
         (replace_node, h) \<leftarrow> gen (node_id n) (ucast (max_tree_len h)) (- 1) h;
         if par = None then do {
           h \<leftarrow> node_free k node h;
           Some (Ret (Some (mutated_tree\<lparr>root := replace_node\<rparr>), h))
         } else do {
           (b, h) \<leftarrow> node_replace_subnode par node replace_node h;
           h \<leftarrow> node_free k (if b then node else replace_node) h;
           Some (Ret (Some mutated_tree, h))
         }}}})"

section \<open>Rules mutation\<close>

definition rules_mutation ::
    "'z gen \<Rightarrow> (u32 \<Rightarrow> u64) \<Rightarrow> nat \<Rightarrow> tree_t option \<Rightarrow> ptr \<Rightarrow> u32 \<Rightarrow> 'z mheap_scheme
      \<Rightarrow> (tree_t option \<times> 'z mheap_scheme) option" where
  "rules_mutation gen node_num_rules k tree node rule h = (case tree of None \<Rightarrow> Some (None, h)
   | Some tree \<Rightarrow>
     if node = None then Some (None, h)
     else do {
       n \<leftarrow> rd h node;
       if node_id n = 0 then Some (None, h)
       else if ucast rule \<ge> node_num_rules (node_id n) then Some (None, h)
       else if rule_id n = rule then Some (None, h)
       else let par = parent n in do {
         (replace_node, h) \<leftarrow> gen (node_id n) (ucast (max_tree_len h)) rule h;
         if par = None then
           (case tree_create h of (t, h) \<Rightarrow> do {
              mutated_tree \<leftarrow> t;
              Some (Some (mutated_tree\<lparr>root := replace_node\<rparr>), h)
            })
         else do {
           edge \<leftarrow> node_get_parent_edge node h;
           h \<leftarrow> upd node (parent_update (\<lambda>_. None)) h;
           h \<leftarrow> set_sub_at par (e_offset edge) replace_node h;
           h \<leftarrow> upd replace_node (parent_update (\<lambda>_. par)) h;
           (mutated_tree, h) \<leftarrow> tree_clone k tree h;
           h \<leftarrow> set_sub_at par (e_offset edge) node h;
           h \<leftarrow> upd node (parent_update (\<lambda>_. par)) h;
           h \<leftarrow> node_free k replace_node h;
           Some (Some mutated_tree, h)
         }}})"

primrec node_rules_mutation_count ::
    "(u32 \<Rightarrow> u64) \<Rightarrow> nat \<Rightarrow> ptr \<Rightarrow> 'z heap_scheme \<Rightarrow> u64 option" where
  "node_rules_mutation_count node_num_rules 0 p h = None"
| "node_rules_mutation_count node_num_rules (Suc k) p h =
    (if p = None then Some 0
     else do {
       n \<leftarrow> rd h p;
       if node_id n = 0 then Some 0
       else if node_num_rules (node_id n) = 0 then Some 0
       else foldM (\<lambda>i ret. do {
              s \<leftarrow> sub_at h p i;
              c \<leftarrow> node_rules_mutation_count node_num_rules k s h;
              Some (ret + c)
            }) [0..<unat (subnode_count n)] (node_num_rules (node_id n) - 1)
     })"

definition rules_mutation_count ::
    "(u32 \<Rightarrow> u64) \<Rightarrow> nat \<Rightarrow> tree_t option \<Rightarrow> 'z heap_scheme \<Rightarrow> u64 option" where
  "rules_mutation_count node_num_rules k tree h =
    (case tree of None \<Rightarrow> Some 0
     | Some tree \<Rightarrow> node_rules_mutation_count node_num_rules k (root tree) h)"

section \<open>Random recursive mutation\<close>

text \<open>
  \<open>1 << n\<close> shifts a C int: for n = 31 the result is not representable, and for more the
  shift is undefined.
\<close>

definition random_recursive_mutation ::
    "nat \<Rightarrow> tree_t option \<Rightarrow> u8 \<Rightarrow> 'z rheap_scheme \<Rightarrow> (tree_t option \<times> 'z rheap_scheme) option" where
  "random_recursive_mutation k tree n h = (case tree of None \<Rightarrow> Some (None, h)
   | Some tree \<Rightarrow> do {
       (mutated_tree, h) \<leftarrow> tree_clone k tree h;
       (picked_edge, h) \<leftarrow> node_pick_recursion_edge k (root mutated_tree) h;
       if e_parent picked_edge = None \<or> e_subnode picked_edge = None then Some (Some mutated_tree, h)
       else let par = e_parent picked_edge; tail = e_subnode picked_edge; offset = e_offset picked_edge in do {
         h \<leftarrow> upd tail (parent_update (\<lambda>_. None)) h;
         h \<leftarrow> set_sub_at par offset None h;
         guard (n < 31);
         (tail, h) \<leftarrow> foldM (\<lambda>_ (tail, h). do {
             (cloned_part, h) \<leftarrow> node_clone k par h;
             h \<leftarrow> upd tail (parent_update (\<lambda>_. cloned_part)) h;
             h \<leftarrow> set_sub_at cloned_part offset tail h;
             Some (cloned_part, h)
           }) [0..<2 ^ unat n] (tail, h);
         h \<leftarrow> upd tail (parent_update (\<lambda>_. par)) h;
         h \<leftarrow> set_sub_at par offset tail h;
         Some (Some mutated_tree, h)
       }})"

section \<open>Heaps that grow and draw random numbers\<close>

definition rgrows :: "'z rheap_scheme \<Rightarrow> 'z rheap_scheme \<Rightarrow> bool" where
  "rgrows h h' \<longleftrightarrow> grows (h\<lparr>random_seed := random_seed h'\<rparr>) h' \<and> rng_live (random_seed h')"

lemma rgrowsD:
  assumes "rgrows h h'"
  shows "heap_ok h'" "avail h' = avail h" "brk h \<le> brk h'" "rng_live (random_seed h')"
    "a < brk h \<Longrightarrow> nodes h' a = nodes h a" "rheap.more h' = rheap.more h"
proof -
  have g: "grows (h\<lparr>random_seed := random_seed h'\<rparr>) h'" using assms by (simp add: rgrows_def)
  show "heap_ok h'" "avail h' = avail h" "brk h \<le> brk h'" using growsD [OF g] by simp_all
  show "a < brk h \<Longrightarrow> nodes h' a = nodes h a" using growsD(5) [OF g, of a] by simp
  show "rng_live (random_seed h')" using assms by (simp add: rgrows_def)
  show "rheap.more h' = rheap.more h" using growsD(4) [OF g] by (cases h; cases h') simp
qed

lemma rgrowsI:
  assumes "heap_ok h'" "avail h' = avail h" "brk h \<le> brk h'" "rng_live (random_seed h')"
    "\<And>a. a < brk h \<Longrightarrow> nodes h' a = nodes h a" "rheap.more h' = rheap.more h"
  shows "rgrows h h'"
  using assms by (cases h; cases h') (auto simp: rgrows_def grows_def)

lemma rgrows_trans: "rgrows h1 h2 \<Longrightarrow> rgrows h2 h3 \<Longrightarrow> rgrows h1 h3"
proof -
  assume a: "rgrows h1 h2" and b: "rgrows h2 h3"
  show ?thesis
    by (rule rgrowsI) (use rgrowsD [OF a] rgrowsD [OF b] less_le_trans [OF _ rgrowsD(3) [OF a]] in simp_all)
qed

lemma grows_rgrows: "grows h h' \<Longrightarrow> rng_live (random_seed h) \<Longrightarrow> rgrows h h'"
proof -
  assume a: "grows h h'" "rng_live (random_seed h)"
  have m: "heap.more h' = heap.more h" using growsD(4) [OF a(1)] .
  then have "random_seed h' = random_seed h" "rheap.more h' = rheap.more h" by (cases h; cases h'; simp)+
  then show ?thesis using a growsD [OF a(1)] by (intro rgrowsI) auto
qed

lemma view_same: "view h t \<Longrightarrow> heap_ok h \<Longrightarrow> (\<And>a. a < brk h \<Longrightarrow> nodes h' a = nodes h a) \<Longrightarrow> view h' t"
  using view_cong view_brk by metis

lemma rep_same: "rep h par t \<Longrightarrow> heap_ok h \<Longrightarrow> (\<And>a. a < brk h \<Longrightarrow> nodes h' a = nodes h a) \<Longrightarrow> rep h' par t"
proof -
  assume "rep h par t" "heap_ok h" and same: "\<And>a. a < brk h \<Longrightarrow> nodes h' a = nodes h a"
  moreover have "nodes h' a = nodes h a" if "a \<in> set (anns t)" for a
    using view_brk [of h t a] calculation that same by (simp add: rep_def)
  ultimately show ?thesis using rep_cong by blast
qed

section \<open>What the generators promise\<close>

text \<open>
  A generator called with a nonterminal of the grammar returns a new tree of that type,
  whose nodes are all new, of bounded height; it may draw random numbers.
\<close>

definition new_tree_in :: "'z rheap_scheme \<Rightarrow> 'z rheap_scheme \<Rightarrow> nat tree \<Rightarrow> bool" where
  "new_tree_in h h' u \<longleftrightarrow> rgrows h h' \<and> rep h' None u \<and> (\<forall>a\<in>set (anns u). brk h \<le> a \<and> a < brk h')"

definition gen_ok :: "'z gen \<Rightarrow> u32 set \<Rightarrow> nat \<Rightarrow> bool" where
  "gen_ok gen I H \<longleftrightarrow> (\<forall>i m r h. i \<in> I \<and> heap_ok h \<and> mem_ok h \<and> rng_live (random_seed h) \<longrightarrow>
     (\<exists>u h'. gen i m r h = Some (root_ptr u, h') \<and> new_tree_in h h' u \<and> u \<noteq> Null \<and> tid u = i \<and> height u \<le> H))"

lemma gen_okE:
  assumes "gen_ok gen I H" "i \<in> I" "heap_ok h" "mem_ok h" "rng_live (random_seed h)"
  obtains u h' where "gen i m r h = Some (root_ptr u, h')" "new_tree_in h h' u" "u \<noteq> Null" "tid u = i" "height u \<le> H"
  using assms unfolding gen_ok_def by blast

text \<open>All nonterminals of a tree belong to the grammar.\<close>

definition in_grammar :: "u32 set \<Rightarrow> 'a tree \<Rightarrow> bool" where
  "in_grammar I t \<longleftrightarrow> (\<forall>s\<in>set (subtrees t). tid s \<noteq> 0 \<longrightarrow> tid s \<in> I)"

text \<open>The place of a nonterminal node: the root, or a child of another node.\<close>

lemma subtrees_kid: "u \<in> set ts \<Longrightarrow> s \<in> set (subtrees u) \<Longrightarrow> s \<in> set (subtrees (Node a i r v ts))"
  by auto

lemma nonterm_place:
  "a \<in> set (nonterms t) \<Longrightarrow> \<exists>s. s \<in> set (subtrees t) \<and> root_ptr s = Some a \<and> tid s \<noteq> 0 \<and>
     (s = t \<or> (\<exists>p j. child_at t p j s))"
proof (induction t)
  case (Node b i r v ts)
  then have i: "i \<noteq> 0" by (auto split: if_splits)
  show ?case
  proof (cases "a = b")
    case True
    then show ?thesis using i by (intro exI [of _ "Node b i r v ts"]) auto
  next
    case False
    then obtain u where u: "u \<in> set ts" "a \<in> set (nonterms u)" using Node.prems i by auto
    then obtain s where s: "s \<in> set (subtrees u)" "root_ptr s = Some a" "tid s \<noteq> 0"
      "s = u \<or> (\<exists>p j. child_at u p j s)" using Node.IH by blast
    have "\<exists>p j. child_at (Node b i r v ts) p j s"
    proof (cases "s = u")
      case True
      then obtain j where "j < length ts" "ts ! j = s" using u(1) by (auto simp: in_set_conv_nth)
      then show ?thesis by auto
    next
      case False
      then show ?thesis using s(4) u(1) by auto
    qed
    then show ?thesis using s u(1) by (intro exI [of _ s]) auto
  qed
qed simp

lemma height_subst: "height (subst b u t) \<le> height t + height u"
proof (induction t)
  case (Node a i r v ts)
  have "fold max (map height (map (subst b u) ts)) 0 < Suc (fold max (map height ts) 0 + height u)"
  proof (rule fold_max_less)
    fix x assume "x \<in> set (map height (map (subst b u) ts))"
    then obtain t where t: "t \<in> set ts" "x = height (subst b u t)" by auto
    have "height t \<le> fold max (map height ts) 0" using t(1) by (intro fold_max_ge) simp
    then show "x < Suc (fold max (map height ts) 0 + height u)" using Node.IH [OF t(1)] t(2) by simp
  qed simp
  then show ?case by simp
qed simp

lemma height_subtree: "s \<in> set (subtrees t) \<Longrightarrow> height s \<le> height t"
proof (induction t)
  case (Node a i r v ts)
  then consider "s = Node a i r v ts" | t where "t \<in> set ts" "s \<in> set (subtrees t)" by auto
  then show ?case
  proof cases
    case 2
    then show ?thesis using Node.IH [OF 2] height_kid [OF 2(1), of a i r v] by simp
  qed simp
qed simp

lemma erase_height: "erase s = erase t \<Longrightarrow> height s = height t"
  by (metis height_map)

section \<open>Random mutation replaces one nonterminal subtree\<close>

lemma tree_clone_view:
  fixes h :: "'z heap_scheme"
  assumes "view h t" and "heap_ok h" and "mem_ok h" and "height t < k" and "root tree = root_ptr t"
  shows "\<exists>t' h'. tree_clone k tree h = Some (empty_tree\<lparr>root := root_ptr t'\<rparr>, h') \<and> fresh_copy h t h' t'"
proof -
  obtain t' h' where "node_clone k (root_ptr t) h = Some (root_ptr t', h')" "fresh_copy h t h' t'"
    using node_clone_view [OF assms(1-4)] by blast
  then show ?thesis using assms(3,5)
    by (auto simp: tree_clone_def tree_create_def empty_tree_def)
qed

text \<open>
  \<open>c\<close> is a new copy of the tree \<open>t\<close> of the heap \<open>h\<close>, and \<open>s\<close> is the nonterminal subtree of it that the random choice
  gave; the heap \<open>h2\<close> is that after the choice.
\<close>

definition picked_in_copy :: "nat \<Rightarrow> 'z rheap_scheme \<Rightarrow> nat tree \<Rightarrow> nat tree \<Rightarrow> nat tree \<Rightarrow> 'z rheap_scheme \<Rightarrow> bool" where
  "picked_in_copy k h t c s h2 \<longleftrightarrow> erase c = erase t \<and> rep h2 None c \<and> rgrows h h2 \<and> (\<forall>x\<in>set (anns c). brk h \<le> x) \<and>
     s \<in> set (subtrees c) \<and> tid s \<noteq> 0 \<and> (\<exists>h1. rep h1 None c \<and> node_pick_non_term_subnode k (root_ptr c) h1 = Some (root_ptr s, h2))"

text \<open>
  \<open>t'\<close> is a new copy of \<open>t\<close> in which the picked subtree gave way to what the generator of its type returned, called with
  any rule and the bound on the length of trees; all nodes of the generated tree are new.
\<close>

definition one_replaced :: "'z gen \<Rightarrow> nat \<Rightarrow> 'z mheap_scheme \<Rightarrow> nat tree \<Rightarrow> nat tree \<Rightarrow> bool" where
  "one_replaced gen k h t t' \<longleftrightarrow> (\<exists>c s h2 u h3. picked_in_copy k h t c s h2 \<and>
     gen (tid s) (ucast (max_tree_len h)) (- 1) h2 = Some (root_ptr u, h3) \<and> new_tree_in h2 h3 u \<and> u \<noteq> Null \<and>
     tid u = tid s \<and> t' = subst (ann s) u c)"

text \<open>A new tree beside an old one, which stays as it was.\<close>

definition new_beside :: "'z rheap_scheme \<Rightarrow> 'z rheap_scheme \<Rightarrow> nat tree \<Rightarrow> bool" where
  "new_beside h h' t' \<longleftrightarrow> rep h' None t' \<and> (\<forall>a\<in>set (anns t'). brk h \<le> a) \<and>
     (\<forall>a<brk h. nodes h' a = nodes h a) \<and> heap_ok h' \<and> avail h' = avail h \<and> brk h \<le> brk h' \<and>
     rng_live (random_seed h') \<and> rheap.more h' = rheap.more h"

definition same_outside :: "nat set \<Rightarrow> 'z heap_scheme \<Rightarrow> 'z heap_scheme \<Rightarrow> bool" where
  "same_outside S h h' \<longleftrightarrow> brk h' = brk h \<and> avail h' = avail h \<and> heap.more h' = heap.more h \<and>
     (\<forall>x. x \<notin> S \<longrightarrow> nodes h' x = nodes h x)"

lemma same_outside_heap_ok: "same_outside S h h' \<Longrightarrow> heap_ok h \<Longrightarrow> \<forall>x\<in>S. x < brk h \<Longrightarrow> heap_ok h'"
  unfolding same_outside_def heap_ok_def by (metis not_le)

lemma same_outside_freed: "freed T h h' \<Longrightarrow> T \<subseteq> S \<Longrightarrow> same_outside S h h'"
  by (auto simp: same_outside_def freed_def)

lemma same_outside_trans: "same_outside S h1 h2 \<Longrightarrow> same_outside S h2 h3 \<Longrightarrow> same_outside S h1 h3"
  by (simp add: same_outside_def)

lemma new_besideI:
  assumes "rgrows h h3" and "rep h4 None t'" and "same_outside S h3 h4"
    and "\<And>x. x \<in> S \<Longrightarrow> brk h \<le> x \<and> x < brk h3" and "set (anns t') \<subseteq> S"
  shows "new_beside h h4 t'"
proof -
  have m: "heap.more h4 = heap.more h3" "brk h4 = brk h3" "avail h4 = avail h3"
    using assms(3) by (auto simp: same_outside_def)
  have "random_seed h4 = random_seed h3 \<and> rheap.more h4 = rheap.more h3" using m(1) by (cases h4; cases h3) simp
  moreover have "heap_ok h4"
    using same_outside_heap_ok [OF assms(3) rgrowsD(1) [OF assms(1)]] assms(4) by blast
  moreover have "nodes h4 x = nodes h x" if "x < brk h" for x
  proof -
    have "x \<notin> S" using assms(4) [of x] that by auto
    then show ?thesis using assms(3) rgrowsD(5) [OF assms(1) that] by (simp add: same_outside_def)
  qed
  ultimately show ?thesis
    using assms(2,4,5) m rgrowsD(2-4,6) [OF assms(1)] by (auto simp: new_beside_def)
qed

lemma new_beside_view: "view h t \<Longrightarrow> heap_ok h \<Longrightarrow> new_beside h h' t' \<Longrightarrow> view h' t"
  using view_same unfolding new_beside_def by metis

lemma subtrees_not_Null: "s \<in> set (subtrees t) \<Longrightarrow> s \<noteq> Null"
  by (induction t) auto

lemma subtrees_erase: "set (map erase (subtrees t)) = set (subtrees (erase t))"
proof -
  have "map erase (subtrees t) = subtrees (erase t)"
    by (induction t) (auto simp: map_concat comp_def intro: arg_cong [where f = concat] cong: map_cong)
  then show ?thesis by simp
qed

lemma in_grammar_erase: "in_grammar I (erase t) \<longleftrightarrow> in_grammar I t"
proof -
  have "tid (erase s) = tid s" if "s \<in> set (subtrees t)" for s
    using tid_map subtrees_not_Null that by blast
  then show ?thesis unfolding in_grammar_def subtrees_erase [symmetric] by simp
qed

lemma view_subtree: "view h t \<Longrightarrow> s \<in> set (subtrees t) \<Longrightarrow> view h s \<and> s \<noteq> Null"
  by (induction t) auto

lemma subtrees_anns: "s \<in> set (subtrees t) \<Longrightarrow> set (anns s) \<subseteq> set (anns t)"
  by (induction t) auto

lemma subtrees_distinct: "s \<in> set (subtrees t) \<Longrightarrow> distinct (anns t) \<Longrightarrow> distinct (anns s)"
proof (induction t)
  case (Node a i r v ts)
  then consider "s = Node a i r v ts" | t where "t \<in> set ts" "s \<in> set (subtrees t)" by auto
  then show ?case
  proof cases
    case 2
    then show ?thesis using Node distinct_kids(1) [of ts t] by simp
  qed (use Node in simp)
qed simp

text \<open>Putting a new tree in the place of a node and freeing what was there.\<close>

definition replace_picked ::
    "nat \<Rightarrow> ptr \<Rightarrow> ptr \<Rightarrow> ptr \<Rightarrow> ptr \<Rightarrow> 'z heap_scheme \<Rightarrow> (ptr \<times> 'z heap_scheme) option" where
  "replace_picked k rt par node new h =
    (if par = None then do {
       h \<leftarrow> node_free k node h;
       Some (new, h)
     } else do {
       (b, h) \<leftarrow> node_replace_subnode par node new h;
       h \<leftarrow> node_free k (if b then node else new) h;
       Some (rt, h)
     })"

lemma replace_picked_ok:
  fixes h :: "'z heap_scheme"
  assumes c: "rep h None c" and s: "s \<in> set (subtrees c)" "root_ptr s = Some a" "s = c \<or> (\<exists>p j. child_at c p j s)"
    and u: "rep h None u" "u \<noteq> Null" "tid u = tid s" and disj: "set (anns u) \<inter> set (anns c) = {}"
    and k: "height c < k" and n: "nodes h a = Some n"
  shows "\<exists>h'. replace_picked k (root_ptr c) (parent n) (Some a) (root_ptr u) h = Some (root_ptr (subst a u c), h') \<and>
    rep h' None (subst a u c) \<and> same_outside (set (anns c) \<union> set (anns u)) h h' \<and>
    set (anns (subst a u c)) \<subseteq> set (anns c) \<union> set (anns u)"
proof -
  obtain i r w ss where se: "s = Node a i r w ss" using s(2) by (cases s) auto
  show ?thesis
  proof (cases "s = c")
    case True
    have par: "parent n = None" using c n True se by (auto simp: rep_def)
    obtain h' where h': "node_free k (root_ptr c) h = Some h'" "freed (set (anns c)) h h'"
      using node_free_view [of h c k] c k by (auto simp: rep_def)
    have su: "subst a u c = u" using se [unfolded True] by simp
    have "rep h' None u" by (rule rep_cong [OF u(1)]) (use freed_nodes [OF h'(2)] disj in blast)
    then show ?thesis
      using h'(1) par True s(2) same_outside_freed [OF h'(2), of "set (anns c) \<union> set (anns u)"] su
      by (auto simp: replace_picked_def)
  next
    case False
    then obtain pp j where ch: "child_at c pp j s" using s(3) by blast
    have sN: "s \<noteq> Null" and dc: "distinct (anns c)" using se c by (auto simp: rep_def)
    have par: "parent n = Some pp"
      using child_at_heap [OF _ _ ch sN, of h None] c n se by (auto simp: rep_def)
    obtain h1 where h1: "node_replace_subnode (Some pp) (root_ptr s) (root_ptr u) h = Some (True, h1)"
      "rep h1 None (subst (ann s) u c)" "rep h1 None s" "brk h1 = brk h" "avail h1 = avail h"
      "heap.more h1 = heap.more h" "\<And>x. x \<notin> set (anns c) \<union> set (anns u) \<Longrightarrow> nodes h1 x = nodes h x"
      using node_replace_subnode_ok [OF c ch u(1) sN u(2,3) disj] by blast
    have sub: "set (anns s) \<subseteq> set (anns c)" using child_at_anns [OF ch] by blast
    obtain h2 where h2: "node_free k (root_ptr s) h1 = Some h2" "freed (set (anns s)) h1 h2"
      using node_free_view [of h1 s k] h1(3) height_subtree [OF s(1)] k by (auto simp: rep_def)
    have an: "set (anns (subst a u c)) = (set (anns c) - set (anns s)) \<union> set (anns u)"
      using anns_subst(1) [OF ch [unfolded se] dc, of u] u(1) disj se by (auto simp: rep_def)
    have "rep h2 None (subst a u c)"
    proof (rule rep_cong)
      show "rep h1 None (subst a u c)" using h1(2) se by simp
      fix x assume "x \<in> set (anns (subst a u c))"
      then have "x \<notin> set (anns s)" using an sub disj by blast
      then show "nodes h2 x = nodes h1 x" by (rule freed_nodes [OF h2(2)])
    qed
    moreover have "root_ptr (subst a u c) = root_ptr c"
      using child_at_root [OF ch [unfolded se] dc] by (cases c) auto
    moreover have "same_outside (set (anns c) \<union> set (anns u)) h h2"
      using h1(4-7) h2(2) sub by (auto simp: same_outside_def freed_def)
    ultimately show ?thesis using par h1(1) h2(1) s(2) an by (auto simp: replace_picked_def)
  qed
qed

lemma random_mutation_unfold:
  "random_mutation gen k (Some tree) h = do {
     (mutated_tree, h) \<leftarrow> tree_clone k tree h;
     (node, h) \<leftarrow> node_pick_non_term_subnode k (root mutated_tree) h;
     if node = None then Some (Exit 1)
     else do {
       n \<leftarrow> rd h node;
       (replace_node, h) \<leftarrow> gen (node_id n) (ucast (max_tree_len h)) (- 1) h;
       (rt, h) \<leftarrow> replace_picked k (root mutated_tree) (parent n) node replace_node h;
       Some (Ret (Some (mutated_tree\<lparr>root := rt\<rparr>), h))
     }}"
proof -
  have [simp]: "t\<lparr>root := root t\<rparr> = t" for t :: tree_t by (cases t) simp
  show ?thesis
    by (auto simp: random_mutation_def replace_picked_def Let_def split: bind_split)
qed

text \<open>The clone of a tree beside it, then the choice of one of its nonterminals.\<close>

lemma clone_and_pick:
  fixes h :: "'z rheap_scheme"
  assumes v: "view h t" "sized h t" and hk: "heap_ok h" "mem_ok h" "rng_live (random_seed h)"
    and nt: "0 < nt_size t" "nt_size t < 2 ^ 32" and k: "height t < k" and rt: "root tree = root_ptr t"
  obtains c h1 h2 s a n where "tree_clone k tree h = Some (empty_tree\<lparr>root := root_ptr c\<rparr>, h1)"
    "node_pick_non_term_subnode k (root_ptr c) h1 = Some (Some a, h2)"
    "rep h2 None c" "erase c = erase t" "rgrows h h2" "\<forall>x\<in>set (anns c). brk h \<le> x \<and> x < brk h2"
    "s \<in> set (subtrees c)" "root_ptr s = Some a" "tid s \<noteq> 0" "s = c \<or> (\<exists>p j. child_at c p j s)"
    "nodes h2 a = Some n" "node_id n = tid s" "picked_in_copy k h t c s h2"
proof -
  obtain c h1 where c: "tree_clone k tree h = Some (empty_tree\<lparr>root := root_ptr c\<rparr>, h1)" "fresh_copy h t h1 c"
    using tree_clone_view [OF v(1) hk(1,2) k rt] by auto
  have rc: "rep h1 None c" "erase c = erase t" "sized h1 c" and gr: "grows h h1"
    and ca: "\<And>a. a \<in> set (anns c) \<Longrightarrow> brk h \<le> a \<and> a < brk h1"
    using c(2) v(2) by (auto simp: fresh_copy_def)
  have rg: "rgrows h h1" using grows_rgrows [OF gr hk(3)] .
  have vc: "view h1 c" using rc by (auto simp: rep_def)
  have "nt_size c = nt_size t" "height c < k"
    using nt_size_erase [OF rc(2)] erase_height [OF rc(2)] k by auto
  then obtain a s0 where p: "node_pick_non_term_subnode k (root_ptr c) h1 = Some (Some a, h1\<lparr>random_seed := s0\<rparr>)"
    "a \<in> set (nonterms c)" "rng_live s0"
    using pick_non_term_view [OF vc rc(3) _ _ rgrowsD(4) [OF rg]] nt by metis
  obtain s where s: "s \<in> set (subtrees c)" "root_ptr s = Some a" "tid s \<noteq> 0" "s = c \<or> (\<exists>p j. child_at c p j s)"
    using nonterm_place [OF p(2)] by blast
  let ?h2 = "h1\<lparr>random_seed := s0\<rparr>"
  have rg2: "rgrows h ?h2"
    by (rule rgrowsI) (use rgrowsD [OF rg] p(3) in simp_all)
  obtain n where n: "nodes ?h2 a = Some n" "node_id n = tid s"
    using view_subtree [OF vc s(1)] s(2) by (cases s) auto
  show ?thesis
    by (rule that [OF c(1) p(1) _ rc(2) rg2 _ s n]) (use rc ca rg2 s p(1) in \<open>auto simp: picked_in_copy_def\<close>)
qed

lemma random_mutation_view:
  fixes h :: "'z mheap_scheme"
  assumes v: "view h t" "sized h t" and hk: "heap_ok h" "mem_ok h" "rng_live (random_seed h)"
    and nt: "0 < nt_size t" "nt_size t < 2 ^ 32" and g: "gen_ok gen I H" "in_grammar I t"
    and k: "height t < k" and rt: "root tree = root_ptr t"
  shows "\<exists>tree' h' t'. random_mutation gen k (Some tree) h = Some (Ret (Some tree', h')) \<and>
    root tree' = root_ptr t' \<and> new_beside h h' t' \<and> one_replaced gen k h t t'"
proof -
  obtain c h1 h2 s a n where c: "tree_clone k tree h = Some (empty_tree\<lparr>root := root_ptr c\<rparr>, h1)"
    "node_pick_non_term_subnode k (root_ptr c) h1 = Some (Some a, h2)"
    "rep h2 None c" "erase c = erase t" "rgrows h h2" "\<forall>x\<in>set (anns c). brk h \<le> x \<and> x < brk h2"
    and s: "s \<in> set (subtrees c)" "root_ptr s = Some a" "tid s \<noteq> 0" "s = c \<or> (\<exists>p j. child_at c p j s)"
    and n: "nodes h2 a = Some n" "node_id n = tid s" and pk: "picked_in_copy k h t c s h2"
    by (rule clone_and_pick [OF v hk nt k rt])
  have "rheap.more h2 = rheap.more h" using rgrowsD(6) [OF c(5)] .
  then have mx: "max_tree_len h2 = max_tree_len h" by (cases h2; cases h) simp
  have "tid s \<in> I" using g(2) s(1,3) in_grammar_erase c(4) by (metis in_grammar_def)
  then obtain u h3 where u: "gen (node_id n) (ucast (max_tree_len h2)) (- 1) h2 = Some (root_ptr u, h3)"
    "new_tree_in h2 h3 u" "u \<noteq> Null" "tid u = tid s"
    using gen_okE [OF g(1) _ rgrowsD(1) [OF c(5)] _ rgrowsD(4) [OF c(5)]] n(2) rgrowsD(2) [OF c(5)] hk(2) by metis
  have ru: "rep h3 None u" and rg3: "rgrows h2 h3" and ua: "\<And>x. x \<in> set (anns u) \<Longrightarrow> brk h2 \<le> x \<and> x < brk h3"
    using u(2) by (auto simp: new_tree_in_def)
  have rg: "rgrows h h3" using rgrows_trans [OF c(5) rg3] .
  have rc3: "rep h3 None c" using rep_same [OF c(3) rgrowsD(1) [OF c(5)]] rgrowsD(5) [OF rg3] by blast
  have n3: "nodes h3 a = Some n" using n(1) rgrowsD(5) [OF rg3] heap_okD [OF rgrowsD(1) [OF c(5)]] by metis
  have disj: "set (anns u) \<inter> set (anns c) = {}" using ua c(6) by fastforce
  have "height c < k" using erase_height [OF c(4)] k by simp
  then obtain h4 where h4: "replace_picked k (root_ptr c) (parent n) (Some a) (root_ptr u) h3 = Some (root_ptr (subst a u c), h4)"
    "rep h4 None (subst a u c)" "same_outside (set (anns c) \<union> set (anns u)) h3 h4"
    "set (anns (subst a u c)) \<subseteq> set (anns c) \<union> set (anns u)"
    using replace_picked_ok [OF rc3 s(1,2,4) ru u(3,4) disj _ n3] by blast
  have "random_mutation gen k (Some tree) h = Some (Ret (Some (empty_tree\<lparr>root := root_ptr (subst a u c)\<rparr>), h4))"
    using c(1,2) n u(1) h4(1) by (simp add: random_mutation_unfold)
  moreover have "new_beside h h4 (subst a u c)"
    by (rule new_besideI [OF rg h4(2,3)])
      (use c(6) ua h4(4) rgrowsD(3) [OF c(5)] rgrowsD(3) [OF rg3] in fastforce)+
  moreover have "one_replaced gen k h t (subst a u c)"
  proof -
    have "gen (tid s) (ucast (max_tree_len h)) (- 1) h2 = Some (root_ptr u, h3)" using u(1) unfolding n(2) mx .
    moreover have "ann s = a" using s(2) by (cases s) auto
    ultimately show ?thesis unfolding one_replaced_def using pk u(2-4) by blast
  qed
  ultimately show ?thesis by (intro exI [of _ "empty_tree\<lparr>root := root_ptr (subst a u c)\<rparr>"]) auto
qed

end
