(* ===== verification/Chunk_Store.thy ===== *)
theory Chunk_Store
  imports Mutation Hash_Map
begin

text \<open>
  The chunk store of Grammar-Mutator/src/chunk\_store.c, which keeps one copy of every subtree
  seen so far, and the splicing mutation of Grammar-Mutator/src/tree\_mutation.c that reuses
  them.  The two global maps are hash maps of the theory Hash\_Map; a value of the first is
  the list\_t that the pointer in the map stands for, so appending to that list replaces the
  value.  The XXH3 digest of a byte stream and the generated array \<open>node_type_str\<close> are
  parameters.
\<close>

section \<open>State\<close>

record cheap = mheap +
  chunk_store :: "ptr list option map_base_t"
  seen_chunks :: "ptr map_base_t"

section \<open>Hashes\<close>

definition hex_digits :: "u8 list" where
  "hex_digits = [48, 49, 50, 51, 52, 53, 54, 55, 56, 57, 65, 66, 67, 68, 69, 70]"

definition uint64_to_hex :: "u64 \<Rightarrow> key" where
  "uint64_to_hex num = fst (fold (\<lambda>_ (dest, num).
     (hex_digits ! unat (num AND 0xF) # dest, drop_bit 4 num)) [0..<16] ([], num))"

text \<open>The state of the digest is the sequence of the bytes fed to it.\<close>

primrec node_update_hash :: "nat \<Rightarrow> ptr \<Rightarrow> 'z heap_scheme \<Rightarrow> u8 list \<Rightarrow> u8 list option" where
  "node_update_hash 0 p h bs = None"
| "node_update_hash (Suc k) p h bs = do {
     n \<leftarrow> rd h p;
     v \<leftarrow> mem_read (val_buf n) (unat (val_len n));
     foldM (\<lambda>i bs. do {
         s \<leftarrow> sub_at h p i;
         node_update_hash k s h bs
       }) [0..<unat (subnode_count n)]
       (bs @ u32_bytes (node_id n) @ u32_bytes (rule_id n) @ u32_bytes (val_len n) @ v)
   }"

definition hash_node :: "(u8 list \<Rightarrow> u64) \<Rightarrow> nat \<Rightarrow> ptr \<Rightarrow> 'z heap_scheme \<Rightarrow> key option" where
  "hash_node digest k p h = do {
     bs \<leftarrow> node_update_hash k p h [];
     Some (uint64_to_hex (digest bs))
   }"

section \<open>The operations\<close>

text \<open>\<open>map_set(&seen_chunks, key, node)\<close> and the same for the lists.\<close>

definition set_seen :: "key \<Rightarrow> ptr \<Rightarrow> 'z cheap_scheme \<Rightarrow> 'z cheap_scheme option" where
  "set_seen key p h = do {
     (_, m, h) \<leftarrow> map_set (seen_chunks h) key p h;
     Some (h\<lparr>seen_chunks := m\<rparr>)
   }"

definition set_chunks :: "key \<Rightarrow> ptr list option \<Rightarrow> 'z cheap_scheme \<Rightarrow> 'z cheap_scheme option" where
  "set_chunks key l h = do {
     (_, m, h) \<leftarrow> map_set (chunk_store h) key l h;
     Some (h\<lparr>chunk_store := m\<rparr>)
   }"

primrec chunk_store_take_node ::
    "(u8 list \<Rightarrow> u64) \<Rightarrow> (u32 \<Rightarrow> key) \<Rightarrow> nat \<Rightarrow> ptr \<Rightarrow> 'z cheap_scheme \<Rightarrow> 'z cheap_scheme option" where
  "chunk_store_take_node digest node_type_str 0 node h = None"
| "chunk_store_take_node digest node_type_str (Suc k) node h =
    (if node = None then Some h
     else do {
       n \<leftarrow> rd h node;
       let node_type = node_type_str (node_id n) in do {
       node_hash \<leftarrow> hash_node digest (Suc k) node h;
       seen \<leftarrow> map_get (seen_chunks h) node_hash;
       case seen of
         Some seen_node \<Rightarrow> do {
           h \<leftarrow> (if parent n \<noteq> None
                  then map_option snd (node_replace_subnode (parent n) node seen_node h) else Some h);
           node_free (Suc k) node h
         }
       | None \<Rightarrow> do {
           h \<leftarrow> set_seen node_hash node h;
           p_node_list \<leftarrow> map_get (chunk_store h) node_type;
           h \<leftarrow> (if p_node_list = None then (case seq_create h of (l, h) \<Rightarrow> set_chunks node_type l h)
                  else Some h);
           p_node_list \<leftarrow> map_get (chunk_store h) node_type;
           node_list \<leftarrow> p_node_list;
           h \<leftarrow> (case seq_append node_list node h of (l, h) \<Rightarrow> set_chunks node_type l h);
           foldM (\<lambda>i h. do {
             subnode \<leftarrow> sub_at h node i;
             chunk_store_take_node digest node_type_str k subnode h
           }) [0..<unat (subnode_count n)] h
         }}})"

definition chunk_store_init :: "'z cheap_scheme \<Rightarrow> 'z cheap_scheme" where
  "chunk_store_init h = h\<lparr>chunk_store := map_init, seen_chunks := map_init\<rparr>"

definition chunk_store_add_tree ::
    "(u8 list \<Rightarrow> u64) \<Rightarrow> (u32 \<Rightarrow> key) \<Rightarrow> nat \<Rightarrow> tree_t option \<Rightarrow> 'z cheap_scheme \<Rightarrow> 'z cheap_scheme option" where
  "chunk_store_add_tree digest node_type_str k tree h = (case tree of None \<Rightarrow> Some h
   | Some tree \<Rightarrow>
     if root tree = None then Some h
     else do {
       (p, h) \<leftarrow> node_clone k (root tree) h;
       chunk_store_take_node digest node_type_str k p h
     })"

text \<open>\<open>random_below\<close> gets a \<open>size_t\<close> cut to 32 bits; its result goes through an \<open>int\<close> to an index.\<close>

definition chunk_store_get_alternative_node ::
    "(u32 \<Rightarrow> key) \<Rightarrow> nat \<Rightarrow> ptr \<Rightarrow> 'z cheap_scheme \<Rightarrow> (ptr \<times> 'z cheap_scheme) option" where
  "chunk_store_get_alternative_node node_type_str k node h =
    (if node = None then Some (None, h)
     else do {
       nd \<leftarrow> rd h node;
       p_node_list \<leftarrow> map_get (chunk_store h) (node_type_str (node_id nd));
       case p_node_list of None \<Rightarrow> Some (None, h)
       | Some l \<Rightarrow> do {
           node_list \<leftarrow> l;
           let n = (of_nat (length node_list) :: u64) in do {
           (prob, h) \<leftarrow> rnd_below (ucast n) h;
           let i = (scast prob :: u64) in
           node_clone k (if unat i < length node_list then node_list ! unat i else None) h
         }}})"

text \<open>The loop over the keys: every list and the nodes in it are freed, each node once.\<close>

primrec clear_loop :: "nat \<Rightarrow> ptr list option map_iter_t \<Rightarrow> 'z cheap_scheme \<Rightarrow> 'z cheap_scheme option" where
  "clear_loop 0 iter h = None"
| "clear_loop (Suc k) iter h = do {
     (key, iter) \<leftarrow> map_next (chunk_store h) iter;
     case key of None \<Rightarrow> Some h
     | Some key \<Rightarrow> do {
         p \<leftarrow> map_get (chunk_store h) key;
         l \<leftarrow> p;
         h \<leftarrow> (case l of None \<Rightarrow> Some h | Some node_list \<Rightarrow> foldM node_free_only_self node_list h);
         clear_loop k iter h
       }}"

definition chunk_store_clear :: "nat \<Rightarrow> 'z cheap_scheme \<Rightarrow> 'z cheap_scheme option" where
  "chunk_store_clear k h = do {
     let h = h\<lparr>seen_chunks := map_deinit (seen_chunks h)\<rparr>;
     h \<leftarrow> clear_loop k map_iter h;
     Some (h\<lparr>chunk_store := map_deinit (chunk_store h)\<rparr>)
   }"

section \<open>Splicing\<close>

definition splicing_mutation ::
    "(u32 \<Rightarrow> key) \<Rightarrow> nat \<Rightarrow> tree_t option \<Rightarrow> 'z cheap_scheme \<Rightarrow> ((tree_t option \<times> 'z cheap_scheme) result) option" where
  "splicing_mutation node_type_str k tree h = (case tree of None \<Rightarrow> Some (Ret (None, h))
   | Some tree \<Rightarrow> do {
       (mutated_tree, h) \<leftarrow> tree_clone k tree h;
       (node, h) \<leftarrow> node_pick_non_term_subnode k (root mutated_tree) h;
       if node = None then Some (Exit 1)
       else do {
         n \<leftarrow> rd h node;
         let par = parent n in do {
         (replace_node, h) \<leftarrow> chunk_store_get_alternative_node node_type_str k node h;
         if replace_node = None then Some (Ret (Some mutated_tree, h))
         else if par = None then do {
           h \<leftarrow> node_free k node h;
           Some (Ret (Some (mutated_tree\<lparr>root := replace_node\<rparr>), h))
         } else do {
           (b, h) \<leftarrow> node_replace_subnode par node replace_node h;
           h \<leftarrow> node_free k (if b then node else replace_node) h;
           Some (Ret (Some mutated_tree, h))
         }}}})"

section \<open>Hashes of trees\<close>

fun hash_input :: "'a tree \<Rightarrow> u8 list" where
  "hash_input Null = []"
| "hash_input (Node a i r v ts) =
     u32_bytes i @ u32_bytes r @ u32_bytes (of_nat (length v)) @ v @ concat (map hash_input ts)"

lemma hash_input_map [simp]: "hash_input (map_tree f t) = hash_input t"
  by (induction t) (auto simp: comp_def cong: map_cong)

text \<open>No NULL subnodes: the chunk store dereferences all of them.\<close>

fun full :: "'a tree \<Rightarrow> bool" where
  "full Null = False"
| "full (Node a i r v ts) = (\<forall>t\<in>set ts. full t)"

lemma full_map [simp]: "full (map_tree f t) = full t"
  by (induction t) auto

lemma full_not_Null: "full t \<Longrightarrow> t \<noteq> Null"
  by auto

definition tree_key :: "(u8 list \<Rightarrow> u64) \<Rightarrow> 'a tree \<Rightarrow> key" where
  "tree_key digest t = uint64_to_hex (digest (hash_input t))"

lemma tree_key_map [simp]: "tree_key digest (map_tree f t) = tree_key digest t"
  by (simp add: tree_key_def)

lemma foldM_concat:
  "(\<And>x bs. x \<in> set xs \<Longrightarrow> f x bs = Some (bs @ g x)) \<Longrightarrow> foldM f xs bs = Some (bs @ concat (map g xs))"
  by (induction xs arbitrary: bs) auto

lemma node_update_hash_view:
  assumes "view h t" and "full t" and "height t < k"
  shows "node_update_hash k (root_ptr t) h bs = Some (bs @ hash_input t)"
  using assms
proof (induction k arbitrary: t bs)
  case (Suc k)
  then obtain a i r v ts where t: "t = Node a i r v ts" by (cases t) auto
  with Suc.prems obtain n where n: "nodes h a = Some n" by auto
  have nv: "node_id n = i \<and> rule_id n = r \<and> val_ok n v \<and> kids_ok n ts \<and> (\<forall>t\<in>set ts. view h t)"
    using view_node Suc.prems(1) n t by blast
  have vl: "val_len n = of_nat (length v)" and cnt: "unat (subnode_count n) = length ts"
    using nv word_of_unat [of "val_len n"] by (auto simp: val_ok_def kids_ok_def)
  have l1: "foldM (\<lambda>i bs. do { s \<leftarrow> sub_at h (Some a) i; node_update_hash k s h bs }) [0..<length ts] cs
      = Some (cs @ concat (map (\<lambda>i. hash_input (ts ! i)) [0..<length ts]))" for cs
  proof (rule foldM_concat)
    fix j and bs assume j: "j \<in> set [0..<length ts]"
    then have "node_update_hash k (root_ptr (ts ! j)) h bs = Some (bs @ hash_input (ts ! j))"
      using nv Suc.prems(2,3) t height_kid [of "ts ! j" ts a i r v] by (intro Suc.IH) auto
    then show "Option.bind (sub_at h (Some a) j) (\<lambda>s. node_update_hash k s h bs) = Some (bs @ hash_input (ts ! j))"
      using kids_ok_sub_at [OF n, of ts j] nv j by simp
  qed
  have l2: "map (\<lambda>i. hash_input (ts ! i)) [0..<length ts] = map hash_input ts"
    by (rule nth_equalityI) simp_all
  have loop: "foldM (\<lambda>i bs. do { s \<leftarrow> sub_at h (Some a) i; node_update_hash k s h bs }) [0..<length ts] cs
      = Some (cs @ concat (map hash_input ts))" for cs
    using l1 [of cs] unfolding l2 .
  have mr: "mem_read (val_buf n) (unat (val_len n)) = Some v" using nv mem_read_ok by blast
  have "node_update_hash (Suc k) (root_ptr t) h bs =
      Some ((bs @ u32_bytes (node_id n) @ u32_bytes (rule_id n) @ u32_bytes (val_len n) @ v) @ concat (map hash_input ts))"
    unfolding t root_ptr_simps node_update_hash.simps
    by (simp only: rd_Some n bind.bind_lunit mr cnt loop)
  then show ?case using nv by (simp only: t hash_input.simps vl append_assoc)
qed simp

lemma hash_node_view:
  "view h t \<Longrightarrow> full t \<Longrightarrow> height t < k \<Longrightarrow> hash_node digest k (root_ptr t) h = Some (tree_key digest t)"
  by (simp add: hash_node_def node_update_hash_view tree_key_def)

end
