(* ===== verification/Base64.thy ===== *)
theory Base64
  imports Prelude
begin

text \<open>
  The base64 codec of Grammar-Mutator/src/base64.c (leakage\_test/base64.c is a copy of it).
  C strings are the accessible bytes at a pointer; reading past them and writing past the
  output buffer give None, and so does an \<open>int\<close> that overflows.  \<open>char\<close> is signed, so the
  encoder widens it with its sign.
\<close>

section \<open>Tables\<close>

definition pr2six :: "u8 list" where
  "pr2six =
     replicate 43 64 @ [62, 64, 64, 64, 63]
     @ [52, 53, 54, 55, 56, 57, 58, 59, 60, 61] @ replicate 7 64
     @ [0, 1, 2, 3, 4, 5, 6, 7, 8, 9, 10, 11, 12, 13, 14, 15, 16, 17, 18, 19, 20, 21, 22, 23, 24, 25] @ replicate 6 64
     @ [26, 27, 28, 29, 30, 31, 32, 33, 34, 35, 36, 37, 38, 39, 40, 41, 42, 43, 44, 45, 46, 47, 48, 49, 50, 51]
     @ replicate 133 64"

definition basis_64 :: "u8 list" where
  "basis_64 = map (of_char :: char \<Rightarrow> u8)
     ''ABCDEFGHIJKLMNOPQRSTUVWXYZabcdefghijklmnopqrstuvwxyz0123456789+/''"

definition six :: "u8 \<Rightarrow> u8" where
  "six c = pr2six ! unat c"

text \<open>The values of \<open>int\<close>; a result outside them is an overflow.\<close>

definition as_int :: "int \<Rightarrow> int option" where
  "as_int i = (if - (2 ^ 31) \<le> i \<and> i < 2 ^ 31 then Some i else None)"

text \<open>\<open>*(p++) = b\<close> into a buffer.\<close>

definition put :: "u8 \<Rightarrow> mem \<times> nat \<Rightarrow> (mem \<times> nat) option" where
  "put b bp = (case bp of (buf, p) \<Rightarrow> if p < length buf then Some (buf[p := Some b], Suc p) else None)"

section \<open>Decoding\<close>

text \<open>\<open>while (pr2six[*(bufin++)] <= 63);\<close>: the number of digits in front of the first other byte.\<close>

primrec digits :: "u8 list \<Rightarrow> nat option" where
  "digits [] = None"
| "digits (c # cs) = (if six c \<le> 63 then map_option Suc (digits cs) else Some 0)"

definition Base64decode_len :: "u8 list \<Rightarrow> int option" where
  "Base64decode_len bufcoded = do {
     n \<leftarrow> digits bufcoded;
     nprbytes \<leftarrow> as_int (int n);
     up \<leftarrow> as_int (nprbytes + 3);
     nbytesdecoded \<leftarrow> as_int (up div 4 * 3);
     as_int (nbytesdecoded + 1)
   }"

text \<open>The bytes that four digits stand for; \<open><<\<close> is done on \<open>int\<close> and cut to a byte.\<close>

definition dec1 :: "u8 \<Rightarrow> u8 \<Rightarrow> u8" where
  "dec1 a b = ucast ((push_bit 2 (ucast (six a)) OR drop_bit 4 (ucast (six b))) :: u32)"

definition dec2 :: "u8 \<Rightarrow> u8 \<Rightarrow> u8" where
  "dec2 b c = ucast ((push_bit 4 (ucast (six b)) OR drop_bit 2 (ucast (six c))) :: u32)"

definition dec3 :: "u8 \<Rightarrow> u8 \<Rightarrow> u8" where
  "dec3 c d = ucast ((push_bit 6 (ucast (six c)) OR ucast (six d)) :: u32)"

function decode_loop :: "int \<Rightarrow> u8 list \<Rightarrow> mem \<times> nat \<Rightarrow> (int \<times> u8 list \<times> mem \<times> nat) option" where
  "decode_loop nprbytes bufin out =
    (if nprbytes > 4 then do {
       out \<leftarrow> put (dec1 (bufin ! 0) (bufin ! 1)) out;
       out \<leftarrow> put (dec2 (bufin ! 1) (bufin ! 2)) out;
       out \<leftarrow> put (dec3 (bufin ! 2) (bufin ! 3)) out;
       decode_loop (nprbytes - 4) (drop 4 bufin) out
     } else Some (nprbytes, bufin, out))"
  by pat_completeness auto

termination by (relation "measure (\<lambda>(n, _, _). nat n)") auto

declare decode_loop.simps [simp del]

definition Base64decode :: "mem \<Rightarrow> u8 list \<Rightarrow> (int \<times> mem) option" where
  "Base64decode bufplain bufcoded = do {
     n \<leftarrow> digits bufcoded;
     nprbytes \<leftarrow> as_int (int n);
     up \<leftarrow> as_int (nprbytes + 3);
     nbytesdecoded \<leftarrow> as_int (up div 4 * 3);
     (nprbytes, bufin, out) \<leftarrow> decode_loop nprbytes bufcoded (bufplain, 0);
     out \<leftarrow> (if nprbytes > 1 then put (dec1 (bufin ! 0) (bufin ! 1)) out else Some out);
     out \<leftarrow> (if nprbytes > 2 then put (dec2 (bufin ! 1) (bufin ! 2)) out else Some out);
     out \<leftarrow> (if nprbytes > 3 then put (dec3 (bufin ! 2) (bufin ! 3)) out else Some out);
     out \<leftarrow> put 0 out;
     Some (nbytesdecoded - (4 - nprbytes) mod 4, fst out)
   }"

section \<open>Encoding\<close>

definition Base64encode_len :: "int \<Rightarrow> int option" where
  "Base64encode_len len = do {
     l \<leftarrow> as_int (len + 2);
     l \<leftarrow> as_int (l div 3 * 4);
     as_int (l + 1)
   }"

text \<open>The four digits of three characters, each character widened to \<open>int\<close>.\<close>

definition enc1 :: "u8 \<Rightarrow> u8" where
  "enc1 a = basis_64 ! unat (signed_drop_bit 2 (scast a :: u32) AND 0x3F)"

definition enc2 :: "u8 \<Rightarrow> u8 \<Rightarrow> u8" where
  "enc2 a b = basis_64 ! unat (push_bit 4 ((scast a :: u32) AND 0x3) OR signed_drop_bit 4 ((scast b :: u32) AND 0xF0))"

definition enc3 :: "u8 \<Rightarrow> u8 \<Rightarrow> u8" where
  "enc3 b c = basis_64 ! unat (push_bit 2 ((scast b :: u32) AND 0xF) OR signed_drop_bit 6 ((scast c :: u32) AND 0xC0))"

definition enc4 :: "u8 \<Rightarrow> u8" where
  "enc4 c = basis_64 ! unat ((scast c :: u32) AND 0x3F)"

function encode_loop :: "u8 list \<Rightarrow> int \<Rightarrow> int \<Rightarrow> mem \<times> nat \<Rightarrow> (int \<times> mem \<times> nat) option" where
  "encode_loop string len i p =
    (if i < len - 2 then do {
       guard (nat i + 2 < length string);
       let a = string ! nat i; b = string ! (nat i + 1); c = string ! (nat i + 2) in do {
       p \<leftarrow> put (enc1 a) p;
       p \<leftarrow> put (enc2 a b) p;
       p \<leftarrow> put (enc3 b c) p;
       p \<leftarrow> put (enc4 c) p;
       encode_loop string len (i + 3) p
     }} else Some (i, p))"
  by pat_completeness auto

termination by (relation "measure (\<lambda>(_, len, i, _). nat (len - i))") auto

declare encode_loop.simps [simp del]

text \<open>The last digit of a pair of characters has no third character: \<open>(string[i + 1] & 0xF) << 2\<close>.\<close>

definition Base64encode :: "mem \<Rightarrow> u8 list \<Rightarrow> int \<Rightarrow> (int \<times> mem) option" where
  "Base64encode encoded string len = do {
     (i, p) \<leftarrow> encode_loop string len 0 (encoded, 0);
     p \<leftarrow> (if i < len then do {
         guard (nat i < length string);
         p \<leftarrow> put (enc1 (string ! nat i)) p;
         p \<leftarrow> (if i = len - 1 then do {
             p \<leftarrow> put (basis_64 ! unat (push_bit 4 ((scast (string ! nat i) :: u32) AND 0x3))) p;
             put (of_char CHR ''='') p
           } else do {
             guard (nat i + 1 < length string);
             p \<leftarrow> put (enc2 (string ! nat i) (string ! (nat i + 1))) p;
             put (basis_64 ! unat (push_bit 2 ((scast (string ! (nat i + 1)) :: u32) AND 0xF))) p
           });
         put (of_char CHR ''='') p
       } else Some p);
     p \<leftarrow> put 0 p;
     Some (int (snd p), fst p)
   }"

end
