(* ===== verification/Base64_Proofs.thy ===== *)
theory Base64_Proofs
  imports Base64
begin

text \<open>
  The base64 codec against two reference functions on lists: the digits of a byte string and
  the bytes of a digit string, which are inverse to each other.
\<close>

section \<open>Digits\<close>

definition is_digit64 :: "u8 \<Rightarrow> bool" where
  "is_digit64 c \<longleftrightarrow> six c \<le> 63"

lemma six_basis: "i < 64 \<Longrightarrow> six (basis_64 ! i) = of_nat i"
proof -
  have "\<forall>i\<in>set [0..<64]. six (basis_64 ! i) = of_nat i" by code_simp
  then show "i < 64 \<Longrightarrow> six (basis_64 ! i) = of_nat i" by simp
qed

lemma no_digits [simp]: "\<not> is_digit64 0" "\<not> is_digit64 (of_char CHR ''='')" "\<not> is_digit64 61"
  by code_simp+

text \<open>The four numbers of six bits that three bytes are cut into.\<close>

definition six1 :: "u8 \<Rightarrow> u8" where "six1 a = drop_bit 2 a"
definition six2 :: "u8 \<Rightarrow> u8 \<Rightarrow> u8" where "six2 a b = push_bit 4 (a AND 3) OR drop_bit 4 b"
definition six3 :: "u8 \<Rightarrow> u8 \<Rightarrow> u8" where "six3 b c = push_bit 2 (b AND 15) OR drop_bit 6 c"
definition six4 :: "u8 \<Rightarrow> u8" where "six4 c = c AND 63"

lemmas six_defs = six1_def six2_def six3_def six4_def

lemma bit_byte_high [simp]: "8 \<le> n \<Longrightarrow> \<not> bit (b::u8) n"
  using bit_imp_le_length [of b n] by auto

lemma byte_eqI:
  fixes v w :: u8
  assumes "bit v 0 = bit w 0" "bit v 1 = bit w 1" "bit v 2 = bit w 2" "bit v 3 = bit w 3"
    "bit v 4 = bit w 4" "bit v 5 = bit w 5" "bit v 6 = bit w 6" "bit v 7 = bit w 7"
  shows "v = w"
proof (rule bit_word_eqI)
  fix n :: nat assume "n < LENGTH(8)"
  then have "n \<in> {0, 1, 2, 3, 4, 5, 6, 7}" by auto
  then show "bit v n = bit w n" using assms by auto
qed

lemma int_eqI:
  fixes v w :: u32
  assumes "\<And>n. n \<in> {0, 1, 2, 3, 4, 5, 6, 7, 8, 9, 10, 11, 12, 13, 14, 15, 16, 17, 18, 19, 20, 21, 22, 23, 24, 25,
     26, 27, 28, 29, 30, 31} \<Longrightarrow> bit v n = bit w n"
  shows "v = w"
proof (rule bit_word_eqI)
  fix n :: nat assume "n < LENGTH(32)"
  then show "bit v n = bit w n" by (intro assms) (simp, presburger)
qed

lemma six_of_int:
  "signed_drop_bit 2 (scast a :: u32) AND 0x3F = ucast (six1 a)"
  "push_bit 4 ((scast a :: u32) AND 0x3) OR signed_drop_bit 4 ((scast b :: u32) AND 0xF0) = ucast (six2 a b)"
  "push_bit 2 ((scast b :: u32) AND 0xF) OR signed_drop_bit 6 ((scast c :: u32) AND 0xC0) = ucast (six3 b c)"
  "(scast c :: u32) AND 0x3F = ucast (six4 c)"
  by (rule int_eqI; elim insertE emptyE; simp add: six_defs bit_simps)+

lemma six_of_last:
  "push_bit 4 ((scast a :: u32) AND 0x3) = ucast (six2 a 0)"
  "push_bit 2 ((scast b :: u32) AND 0xF) = ucast (six3 b 0)"
  by (rule int_eqI; elim insertE emptyE; simp add: six_defs bit_simps)+

lemma six_small [simp]: "unat (six1 a) < 64" "unat (six2 a b) < 64" "unat (six3 b c) < 64" "unat (six4 c) < 64"
proof -
  have *: "unat w < 64" if "w AND 63 = w" for w :: u8
    using that word_and_le1 [of w 63] by (simp add: word_le_nat_alt)
  show "unat (six1 a) < 64" "unat (six2 a b) < 64" "unat (six3 b c) < 64" "unat (six4 c) < 64"
    by (rule *, rule byte_eqI; simp add: six_defs bit_simps)+
qed

lemma unat_ucast_8_32 [simp]: "unat (ucast (w::u8) :: u32) = unat w"
  using unsigned_less [of w, where 'a = nat] by (simp add: unsigned_ucast_eq take_bit_nat_eq_self)

lemma enc_basis:
  "enc1 a = basis_64 ! unat (six1 a)" "enc2 a b = basis_64 ! unat (six2 a b)"
  "enc3 b c = basis_64 ! unat (six3 b c)" "enc4 c = basis_64 ! unat (six4 c)"
  unfolding enc1_def enc2_def enc3_def enc4_def six_of_int by simp_all

lemma six_enc [simp]: "six (enc1 a) = six1 a" "six (enc2 a b) = six2 a b" "six (enc3 b c) = six3 b c" "six (enc4 c) = six4 c"
  by (simp_all add: enc_basis six_basis)

lemma enc_digits [simp]: "is_digit64 (enc1 a)" "is_digit64 (enc2 a b)" "is_digit64 (enc3 b c)" "is_digit64 (enc4 c)"
  using six_small(1) [of a] six_small(2) [of a b] six_small(3) [of b c] six_small(4) [of c]
  by (simp_all add: is_digit64_def word_le_nat_alt del: six_small)

lemma dec_enc [simp]:
  "dec1 (enc1 a) (enc2 a b) = a" "dec2 (enc2 a b) (enc3 b c) = b" "dec3 (enc3 b c) (enc4 c) = c"
  by (simp_all add: dec1_def dec2_def dec3_def; rule byte_eqI; simp add: six_defs bit_simps)+

section \<open>The reference functions\<close>

fun b64 :: "u8 list \<Rightarrow> u8 list" where
  "b64 (a # b # c # cs) = enc1 a # enc2 a b # enc3 b c # enc4 c # b64 cs"
| "b64 [a, b] = [enc1 a, enc2 a b, enc3 b 0, 61]"
| "b64 [a] = [enc1 a, enc2 a 0, 61, 61]"
| "b64 [] = []"

fun un64 :: "u8 list \<Rightarrow> u8 list" where
  "un64 (a # b # c # d # ds) = dec1 a b # dec2 b c # dec3 c d # un64 ds"
| "un64 [a, b, c] = [dec1 a b, dec2 b c]"
| "un64 [a, b] = [dec1 a b]"
| "un64 _ = []"

lemma un64_b64: "un64 (takeWhile is_digit64 (b64 bs)) = bs"
  by (induction bs rule: b64.induct) simp_all

lemma length_b64: "length (b64 bs) = (length bs + 2) div 3 * 4"
  by (induction bs rule: b64.induct) (simp_all, presburger)

lemma length_un64: "length (un64 ds) = length ds div 4 * 3 + (length ds mod 4 - 1)"
  by (induction ds rule: un64.induct) (simp_all, presburger)

text \<open>Writing bytes one after the other.\<close>

primrec puts :: "u8 list \<Rightarrow> mem \<times> nat \<Rightarrow> (mem \<times> nat) option" where
  "puts [] bp = Some bp"
| "puts (b # bs) bp = Option.bind (put b bp) (puts bs)"

lemma puts_append: "puts (bs @ cs) bp = Option.bind (puts bs bp) (puts cs)"
  by (induction bs arbitrary: bp) (auto split: bind_split)

lemma puts_ok:
  "p + length bs \<le> length buf \<Longrightarrow>
     puts bs (buf, p) = Some (take p buf @ map Some bs @ drop (p + length bs) buf, p + length bs)"
proof (induction bs arbitrary: buf p)
  case (Cons b bs)
  then have "puts bs (buf[p := Some b], Suc p) =
      Some (take (Suc p) (buf[p := Some b]) @ map Some bs @ drop (Suc p + length bs) (buf[p := Some b]), Suc p + length bs)"
    by (intro Cons.IH) simp
  moreover have "take (Suc p) (buf[p := Some b]) = take p buf @ [Some b]"
    using Cons.prems by (simp add: take_Suc_conv_app_nth)
  ultimately show ?case using Cons.prems by (simp add: put_def)
qed simp

section \<open>The encoder\<close>

fun full_triples :: "u8 list \<Rightarrow> u8 list" where
  "full_triples (a # b # c # cs) = enc1 a # enc2 a b # enc3 b c # enc4 c # full_triples cs"
| "full_triples _ = []"

fun last_two :: "u8 list \<Rightarrow> u8 list" where
  "last_two (a # b # c # cs) = last_two cs"
| "last_two cs = cs"

lemma b64_split: "b64 bs = full_triples bs @ b64 (last_two bs)"
  by (induction bs rule: b64.induct) simp_all

lemma length_last_two: "length (last_two bs) = length bs mod 3"
  by (induction bs rule: last_two.induct) (simp_all, presburger?)

lemma last_two_suffix: "\<exists>cs. bs = cs @ last_two bs"
proof (induction bs rule: last_two.induct)
  case (1 a b c cs)
  then obtain ds where "cs = ds @ last_two cs" by blast
  then show ?case by (intro exI [of _ "a # b # c # ds"]) simp
qed simp_all

lemma encode_loop_end:
  "length (drop i s) < 3 \<Longrightarrow> i \<le> length s \<Longrightarrow> encode_loop s (int (length s)) (int i) out =
     map_option (\<lambda>out. (int (length s - length (drop i s)), out)) (puts [] out)"
  by (subst encode_loop.simps) auto

lemma encode_loop_few:
  assumes "length (drop i s) < 3" and "i \<le> length s"
  shows "encode_loop s (int (length s)) (int i) out =
     map_option (\<lambda>out. (int (length s - length (last_two (drop i s))), out)) (puts (full_triples (drop i s)) out)"
proof -
  have "full_triples r = [] \<and> last_two r = r" if "length r < 3" for r
    using that by (cases r rule: full_triples.cases) auto
  then show ?thesis using encode_loop_end [OF assms, of out] assms(1) by metis
qed

lemma encode_loop_puts:
  "i \<le> length s \<Longrightarrow> encode_loop s (int (length s)) (int i) out =
     map_option (\<lambda>out. (int (length s - length (last_two (drop i s))), out)) (puts (full_triples (drop i s)) out)"
proof (induction "drop i s" arbitrary: i out rule: full_triples.induct)
  case (1 a b c cs)
  note d = 1(2) [symmetric]
  have len: "length s - i = length cs + 3" using arg_cong [OF d, of length] by simp
  have "length (take i s) = i" using 1(3) by simp
  moreover have "s = take i s @ a # b # c # cs" by (metis append_take_drop_id d)
  ultimately have nth: "s ! i = a" "s ! (i + 1) = b" "s ! (i + 2) = c" and cs: "drop (i + 3) s = cs"
    by (metis nth_append_length, metis nth_append_length_plus nth_Cons_Suc nth_Cons_0 One_nat_def,
        metis nth_append_length_plus nth_Cons_Suc nth_Cons_0 numeral_2_eq_2,
        metis append_eq_conv_conj drop_append d drop_drop add.commute drop_Suc_Cons drop0 numeral_3_eq_3)
  have lt: "int i < int (length s) - 2" using len by simp
  have nat: "nat (int i) = i" by simp
  have IH: "encode_loop s (int (length s)) (int (i + 3)) out =
      map_option (\<lambda>out. (int (length s - length (last_two cs)), out)) (puts (full_triples cs) out)" for out
    using 1(1) [of "i + 3" out] cs len by simp
  show ?case
    unfolding encode_loop.simps [of s "int (length s)" "int i"] d if_P [OF lt] nat
    using IH len nth by (auto simp: Let_def guard_def add.commute split: bind_split)
qed (rule encode_loop_few; simp; drule arg_cong [of _ _ length]; simp)+

lemma Base64encode_puts:
  "Base64encode buf s (int (length s)) = map_option (\<lambda>out. (int (snd out), fst out)) (puts (b64 s @ [0]) (buf, 0))"
proof -
  obtain cs where cs: "s = cs @ last_two s" using last_two_suffix by blast
  define r where "r = last_two s"
  have len: "length s - length r = length cs" "length s = length cs + length r"
    using cs unfolding r_def by (metis length_append add_diff_cancel_right', metis length_append)
  have nth: "s ! (length cs + j) = r ! j" for j using cs unfolding r_def by (metis nth_append_length_plus)
  have r: "r = [] \<or> (\<exists>a. r = [a]) \<or> (\<exists>a b. r = [a, b])"
    using length_last_two [of s] unfolding r_def
    by (cases "last_two s" rule: b64.cases) simp_all
  have loop: "encode_loop s (int (length s)) 0 (buf, 0) =
      map_option (\<lambda>out. (int (length cs), out)) (puts (full_triples s) (buf, 0))"
    using encode_loop_puts [of 0 s "(buf, 0)"] len(1) by (simp add: r_def)
  have *: "Base64encode buf s (int (length s)) = do {
      p \<leftarrow> puts (full_triples s) (buf, 0);
      p \<leftarrow> puts (b64 r @ [0]) p;
      Some (int (snd p), fst p) }"
    unfolding Base64encode_def loop
    using r len nth [of 0] nth [of 1]
    by (cases "puts (full_triples s) (buf, 0)")
      (auto simp: enc2_def enc3_def six_of_last six_of_int(2,3) Let_def)
  show ?thesis
    unfolding * b64_split [of s] r_def append_assoc puts_append [of "full_triples s"]
    by (auto split: bind_split)
qed

text \<open>Encoding needs \<open>Base64encode_len\<close> bytes, fills them, and returns their number.\<close>

lemma Base64encode_ok:
  assumes "length (b64 s) < length buf"
  shows "Base64encode buf s (int (length s)) =
    Some (int (length (b64 s) + 1), map Some (b64 s @ [0]) @ drop (length (b64 s) + 1) buf)"
  using assms puts_ok [of 0 "b64 s @ [0]" buf] by (simp add: Base64encode_puts)

lemma Base64encode_len_ok:
  assumes "length (b64 s) + 2 < 2 ^ 31"
  shows "Base64encode_len (int (length s)) = Some (int (length (b64 s) + 1))"
proof -
  have "(int (length s) + 2) div 3 * 4 = int (length (b64 s))" unfolding length_b64 by simp
  moreover have "length s + 2 < 2 ^ 31" using assms unfolding length_b64 by (simp; presburger)
  ultimately show ?thesis using assms by (simp add: Base64encode_len_def as_int_def)
qed

section \<open>The decoder\<close>

fun full_quads :: "u8 list \<Rightarrow> u8 list" where
  "full_quads (a # b # c # d # e # ds) = dec1 a b # dec2 b c # dec3 c d # full_quads (e # ds)"
| "full_quads _ = []"

fun last_four :: "u8 list \<Rightarrow> u8 list" where
  "last_four (a # b # c # d # e # ds) = last_four (e # ds)"
| "last_four ds = ds"

lemma un64_split: "un64 ds = full_quads ds @ un64 (last_four ds)"
  by (induction ds rule: last_four.induct) simp_all

lemma length_last_four: "length (last_four ds) = (if ds = [] then 0 else (length ds - 1) mod 4 + 1)"
  by (induction ds rule: last_four.induct) simp_all

lemma decode_loop_puts:
  "decode_loop (int (length ds)) (ds @ r) out =
     map_option (\<lambda>out. (int (length (last_four ds)), last_four ds @ r, out)) (puts (full_quads ds) out)"
proof (induction ds arbitrary: out rule: last_four.induct)
  case (1 a b c d e ds)
  have "int (length (a # b # c # d # e # ds)) - 4 = int (length (e # ds))" by simp
  then show ?case
    by (subst decode_loop.simps) (use 1 in \<open>auto simp: numeral_eq_Suc split: bind_split\<close>)
qed (subst decode_loop.simps; simp)+

lemma digits_takeWhile:
  "digits s = (if \<forall>c\<in>set s. is_digit64 c then None else Some (length (takeWhile is_digit64 s)))"
proof (induction s)
  case (Cons c s)
  have "digits (c # s) = (if is_digit64 c then map_option Suc (digits s) else Some 0)" by (simp add: is_digit64_def)
  with Cons show ?case by auto
qed simp

lemma decoded_length:
  "(int n + 3) div 4 * 3 - (4 - int (if n = 0 then 0 else (n - 1) mod 4 + 1)) mod 4 = int (n div 4 * 3 + (n mod 4 - 1))"
proof -
  define q r where "q = n div 4" and "r = n mod 4"
  have n: "n = 4 * q + r" and r: "r = 0 \<or> r = 1 \<or> r = 2 \<or> r = 3" unfolding q_def r_def by auto
  have up: "(int n + 3) div 4 = (if r = 0 then int q else int q + 1)"
    using r unfolding n by (elim disjE) simp_all
  have m: "(n - 1) mod 4 = (if r = 0 then 3 else r - 1)" if "n \<noteq> 0"
  proof (cases q)
    case (Suc p)
    have "n - 1 = 4 * p + (3 + r)" unfolding n Suc by simp
    then show ?thesis using r by (elim disjE) (simp_all add: mod_add_eq)
  qed (use r n that in auto)
  show ?thesis
  proof (cases "n = 0")
    case False
    show ?thesis unfolding up if_not_P [OF False] m [OF False] q_def [symmetric] r_def [symmetric]
      using r by (elim disjE) simp_all
  qed simp
qed

lemma Base64decode_puts:
  assumes "digits s = Some n" and "n + 3 < 2 ^ 31"
  shows "Base64decode buf s = map_option (\<lambda>out. (int (length (un64 (takeWhile is_digit64 s))), fst out))
     (puts (un64 (takeWhile is_digit64 s) @ [0]) (buf, 0))"
proof -
  define ds where "ds = takeWhile is_digit64 s"
  have n: "n = length ds" using assms(1) by (auto simp: digits_takeWhile ds_def split: if_splits)
  obtain r where s: "s = ds @ r" unfolding ds_def by (metis takeWhile_dropWhile_id)
  have up: "(int n + 3) div 4 * 3 < 2 ^ 31" 
  proof -
    have "int n + 3 < 2147483648" using assms(2) by simp
    then have "(int n + 3) div 4 * 3 < 2147483648" by presburger
    then show ?thesis by simp
  qed
  define qs where "qs = last_four ds"
  have lq: "length qs = (if n = 0 then 0 else (n - 1) mod 4 + 1)" using length_last_four [of ds] by (simp add: qs_def n)
  have qs: "qs = [] \<or> (\<exists>a. qs = [a]) \<or> (\<exists>a b. qs = [a, b]) \<or> (\<exists>a b c. qs = [a, b, c]) \<or> (\<exists>a b c d. qs = [a, b, c, d])"
  proof -
    have "length qs \<le> 4" using lq mod_less_divisor [of 4 "n - 1"] by (simp split: if_splits)
    then show ?thesis by (cases qs rule: un64.cases) auto
  qed
  have res: "(int n + 3) div 4 * 3 - (4 - int (length qs)) mod 4 = int (length (un64 ds))"
    unfolding lq length_un64 n [symmetric] by (rule decoded_length)
  have loop: "decode_loop (int n) s (buf, 0) =
      map_option (\<lambda>out. (int (length qs), qs @ r, out)) (puts (full_quads ds) (buf, 0))"
    unfolding s n qs_def by (rule decode_loop_puts)
  have i: "as_int (int n) = Some (int n)" "as_int (int n + 3) = Some (int n + 3)"
    "as_int ((int n + 3) div 4 * 3) = Some ((int n + 3) div 4 * 3)"
    using assms(2) up by (simp_all add: as_int_def)
  have tail: "do {
       out \<leftarrow> (if int (length qs) > 1 then put (dec1 ((qs @ r) ! 0) ((qs @ r) ! 1)) p else Some p);
       out \<leftarrow> (if int (length qs) > 2 then put (dec2 ((qs @ r) ! 1) ((qs @ r) ! 2)) out else Some out);
       out \<leftarrow> (if int (length qs) > 3 then put (dec3 ((qs @ r) ! 2) ((qs @ r) ! 3)) out else Some out);
       out \<leftarrow> put 0 out;
       Some (V, fst out)
     } = do {
       p \<leftarrow> puts (un64 qs @ [0]) p;
       Some (V, fst p) }" for p V
    using qs by (elim disjE exE) (simp_all add: numeral_eq_Suc bind_assoc)
  have "Base64decode buf s = do {
      p \<leftarrow> puts (full_quads ds) (buf, 0);
      p \<leftarrow> puts (un64 qs @ [0]) p;
      Some (int (length (un64 ds)), fst p) }"
    unfolding Base64decode_def assms(1) bind.bind_lunit i loop
    by (cases "puts (full_quads ds) (buf, 0)")
      (simp_all only: option.map bind.bind_lunit bind.bind_lzero prod.case tail res)
  then show ?thesis
    unfolding ds_def [symmetric] un64_split [of ds] append_assoc puts_append [of "full_quads ds"] qs_def
    by (auto split: bind_split)
qed

text \<open>The buffer that \<open>Base64decode_len\<close> asks for is always large enough.\<close>

lemma Base64decode_ok:
  assumes "Base64decode_len s = Some m" and "nat m \<le> length buf"
  shows "Base64decode buf s = Some (int (length (un64 (takeWhile is_digit64 s))),
      map Some (un64 (takeWhile is_digit64 s) @ [0]) @ drop (length (un64 (takeWhile is_digit64 s)) + 1) buf)
    \<and> int (length (un64 (takeWhile is_digit64 s))) < m"
proof -
  let ?v = "un64 (takeWhile is_digit64 s)"
  obtain n where n: "digits s = Some n" "int n + 3 < 2 ^ 31" "m = (int n + 3) div 4 * 3 + 1"
    using assms(1) by (auto simp: Base64decode_len_def as_int_def bind_eq_Some_conv split: if_splits)
  have len: "n = length (takeWhile is_digit64 s)" using n(1) by (auto simp: digits_takeWhile split: if_splits)
  have lt: "int (length ?v) < m" unfolding length_un64 len [symmetric] n(3) by (simp, presburger)
  have "puts (?v @ [0]) (buf, 0) = Some (map Some (?v @ [0]) @ drop (length ?v + 1) buf, length ?v + 1)"
    using puts_ok [of 0 "?v @ [0]" buf] lt assms(2) by simp
  moreover have "n + 3 < 2 ^ 31" using n(2) by simp
  ultimately show ?thesis using Base64decode_puts [OF n(1)] lt by simp
qed

end
