(* ===== verification/Decode_Inputs.thy ===== *)
theory Decode_Inputs
  imports Base64_Proofs Mutation
begin

text \<open>
  decode\_inputs.c: the test cases of the fuzzer are JSON objects with a PUBLIC and a SECRET
  string, both in base64.  There are two copies, of Grammar-Mutator/src and of leakage\_test;
  they differ in the check for a NULL result of the parser.  The parser, json.c, is a
  parameter: a function from the text to a value, None for NULL.  A string of a value is its
  content; the C string at its pointer is the content followed by a NUL byte.
\<close>

section \<open>JSON values\<close>

datatype json_value =
    json_none
  | json_object "(u8 list \<times> json_value) list"
  | json_array "json_value list"
  | json_integer int
  | json_double
  | json_string "u8 list"
  | json_boolean bool
  | json_null

text \<open>\<open>strcmp(a, b) == 0\<close> on the C strings in two arrays that end with a NUL byte.\<close>

definition c_str :: "u8 list \<Rightarrow> u8 list" where
  "c_str bs = takeWhile (\<lambda>b. b \<noteq> 0) bs"

definition PUBLIC_KEY :: "u8 list" where
  "PUBLIC_KEY = map of_char ''PUBLIC''"

definition SECRET_KEY :: "u8 list" where
  "SECRET_KEY = map of_char ''SECRET''"

section \<open>Finding the inputs\<close>

text \<open>The loop over the members; every branch that prints and exits gives Inl.\<close>

fun find_raw ::
    "(u8 list \<times> json_value) list \<Rightarrow> u8 list option \<times> u8 list option \<Rightarrow> int + (u8 list option \<times> u8 list option)" where
  "find_raw [] raw = Inr raw"
| "find_raw ((name, json_string str) # values) (raw_public, raw_secret) =
    (if c_str name = PUBLIC_KEY then find_raw values (Some str, raw_secret)
     else if c_str name = SECRET_KEY then find_raw values (raw_public, Some str)
     else Inl 1)"
| "find_raw ((name, v) # values) raw = Inl 1"

text \<open>
  One half of the end: the buffer of the estimated size is filled; a failed \<open>malloc\<close> lets the
  decoder write to NULL.  The length of the input becomes a \<open>uint32_t\<close>.
\<close>

definition decode_raw :: "u8 list \<Rightarrow> 'z alloc_scheme \<Rightarrow> ((mem \<times> u32) \<times> 'z alloc_scheme) option" where
  "decode_raw raw h = do {
     len \<leftarrow> Base64decode_len (raw @ [0]);
     case try_alloc h of
       (False, h) \<Rightarrow> None
     | (True, h) \<Rightarrow> do {
         (len, input) \<leftarrow> Base64decode (replicate (unat (of_int len :: u32)) None) (raw @ [0]);
         Some ((input, of_int len), h)
       }
   }"

type_synonym inputs = "(mem option \<times> u32) \<times> (mem option \<times> u32)"

definition find_inputs :: "json_value \<Rightarrow> 'z alloc_scheme \<Rightarrow> ((inputs \<times> 'z alloc_scheme) result) option" where
  "find_inputs value h = (case value of
     json_object values \<Rightarrow>
       (case find_raw values (None, None) of
          Inl c \<Rightarrow> Some (Exit c)
        | Inr (None, _) \<Rightarrow> Some (Exit 1)
        | Inr (Some raw_public, None) \<Rightarrow> Some (Exit 1)
        | Inr (Some raw_public, Some raw_secret) \<Rightarrow> do {
            (pub, h) \<leftarrow> decode_raw raw_public h;
            (sec, h) \<leftarrow> decode_raw raw_secret h;
            Some (Ret (((Some (fst pub), snd pub), (Some (fst sec), snd sec)), h))
          })
   | _ \<Rightarrow> Some (Exit 1))"

text \<open>The copy of the grammar mutator dereferences the result of the parser at once.\<close>

definition find_public_and_secret_inputs ::
    "(u8 list \<Rightarrow> json_value option) \<Rightarrow> u8 list \<Rightarrow> 'z alloc_scheme \<Rightarrow> ((inputs \<times> 'z alloc_scheme) result) option" where
  "find_public_and_secret_inputs json_parse testcase_buf h = do {
     value \<leftarrow> json_parse testcase_buf;
     find_inputs value h
   }"

definition find_public_and_secret_inputs_checked ::
    "(u8 list \<Rightarrow> json_value option) \<Rightarrow> u8 list \<Rightarrow> 'z alloc_scheme \<Rightarrow> ((inputs \<times> 'z alloc_scheme) result) option" where
  "find_public_and_secret_inputs_checked json_parse testcase_buf h =
     (case json_parse testcase_buf of
        None \<Rightarrow> Some (Ret (((None, 0), (None, 0)), h))
      | Some value \<Rightarrow> find_inputs value h)"

end
