(* ===== verification/Files.thy ===== *)
theory Files
  imports Chunk_Store Decode_Inputs "HOL-Library.AList"
begin

text \<open>
  Files: the directory and string functions of Grammar-Mutator/src/utils.c and the functions
  of Grammar-Mutator/src/tree.c that read and write tree files, on a model of the POSIX calls
  they make.
\<close>

section \<open>The file system\<close>

text \<open>
  Files and directories are listed by their paths, which are strings in canonical form; a path
  without a slash is below the working directory.  \<open>quota\<close> is the room left on the disk in
  bytes (None: no limit), \<open>sys\<close> the number of system calls before every further one fails
  (None: they never do) and \<open>fds\<close> the number of open file descriptors.
\<close>

type_synonym path = string

datatype inode = Regular "u8 list" | Directory

record fsheap = cheap +
  files :: "(path \<times> inode) list"
  quota :: "nat option"
  sys :: "nat option"
  fds :: nat

definition lookup :: "path \<Rightarrow> 'z fsheap_scheme \<Rightarrow> inode option" where
  "lookup p h = map_of (files h) p"

text \<open>The directory part of a path and its last component.\<close>

definition dirname :: "path \<Rightarrow> path" where
  "dirname p = rev (tl (dropWhile (\<lambda>c. c \<noteq> CHR ''/'') (rev p)))"

definition basename :: "path \<Rightarrow> path" where
  "basename p = rev (takeWhile (\<lambda>c. c \<noteq> CHR ''/'') (rev p))"

definition is_dir :: "path \<Rightarrow> 'z fsheap_scheme \<Rightarrow> bool" where
  "is_dir p h \<longleftrightarrow> p = [] \<or> lookup p h = Some Directory"

definition try_sys :: "'z fsheap_scheme \<Rightarrow> bool \<times> 'z fsheap_scheme" where
  "try_sys h = (case sys h of
      None \<Rightarrow> (True, h)
    | Some 0 \<Rightarrow> (False, h)
    | Some (Suc k) \<Rightarrow> (True, h\<lparr>sys := Some k\<rparr>))"

definition set_file :: "path \<Rightarrow> inode \<Rightarrow> 'z fsheap_scheme \<Rightarrow> 'z fsheap_scheme" where
  "set_file p i h = h\<lparr>files := AList.update p i (files h)\<rparr>"

text \<open>\<open>stat\<close>, \<open>mkdir\<close>, \<open>unlink\<close> and \<open>rmdir\<close>; the last three give True for 0.\<close>

definition sys_stat :: "path \<Rightarrow> 'z fsheap_scheme \<Rightarrow> inode option \<times> 'z fsheap_scheme" where
  "sys_stat p h = (case try_sys h of (False, h) \<Rightarrow> (None, h) | (True, h) \<Rightarrow> (lookup p h, h))"

definition sys_mkdir :: "path \<Rightarrow> 'z fsheap_scheme \<Rightarrow> bool \<times> 'z fsheap_scheme" where
  "sys_mkdir p h = (case try_sys h of (False, h) \<Rightarrow> (False, h)
     | (True, h) \<Rightarrow> if lookup p h = None \<and> is_dir (dirname p) h then (True, set_file p Directory h) else (False, h))"

definition sys_unlink :: "path \<Rightarrow> 'z fsheap_scheme \<Rightarrow> bool \<times> 'z fsheap_scheme" where
  "sys_unlink p h = (case try_sys h of (False, h) \<Rightarrow> (False, h)
     | (True, h) \<Rightarrow> (case lookup p h of
         Some (Regular bs) \<Rightarrow> (True, h\<lparr>files := AList.delete p (files h)\<rparr>) | _ \<Rightarrow> (False, h)))"

definition children :: "path \<Rightarrow> 'z fsheap_scheme \<Rightarrow> string list" where
  "children p h = map basename (filter (\<lambda>q. dirname q = p) (map fst (files h)))"

definition sys_rmdir :: "path \<Rightarrow> 'z fsheap_scheme \<Rightarrow> bool \<times> 'z fsheap_scheme" where
  "sys_rmdir p h = (case try_sys h of (False, h) \<Rightarrow> (False, h)
     | (True, h) \<Rightarrow> if lookup p h = Some Directory \<and> children p h = []
         then (True, h\<lparr>files := AList.delete p (files h)\<rparr>) else (False, h))"

text \<open>\<open>open(p, O_RDONLY)\<close> succeeds on directories too; the descriptor stands for what it opened.\<close>

definition sys_open :: "path \<Rightarrow> 'z fsheap_scheme \<Rightarrow> inode option \<times> 'z fsheap_scheme" where
  "sys_open p h = (case try_sys h of (False, h) \<Rightarrow> (None, h)
     | (True, h) \<Rightarrow> (case lookup p h of None \<Rightarrow> (None, h) | Some i \<Rightarrow> (Some i, h\<lparr>fds := Suc (fds h)\<rparr>)))"

definition sys_close :: "'z fsheap_scheme \<Rightarrow> 'z fsheap_scheme" where
  "sys_close h = h\<lparr>fds := fds h - 1\<rparr>"

definition sys_fstat :: "inode \<Rightarrow> 'z fsheap_scheme \<Rightarrow> u64 option \<times> 'z fsheap_scheme" where
  "sys_fstat i h = (case try_sys h of (False, h) \<Rightarrow> (None, h)
     | (True, h) \<Rightarrow> (Some (case i of Regular bs \<Rightarrow> of_nat (length bs) | Directory \<Rightarrow> 4096), h))"

text \<open>
  \<open>mmap\<close> of a whole file: it fails for length 0 and for a directory; the last page is filled
  with zeros.
\<close>

definition PAGE :: nat where
  "PAGE = 4096"

definition pages :: "u8 list \<Rightarrow> mem" where
  "pages bs = map Some (bs @ replicate ((PAGE - length bs mod PAGE) mod PAGE) 0)"

definition sys_mmap :: "u64 \<Rightarrow> inode \<Rightarrow> 'z fsheap_scheme \<Rightarrow> mem option \<times> 'z fsheap_scheme" where
  "sys_mmap len i h = (case try_sys h of (False, h) \<Rightarrow> (None, h)
     | (True, h) \<Rightarrow> (case i of
         Regular bs \<Rightarrow> (if len = 0 then (None, h) else (Some (pages bs), h))
       | Directory \<Rightarrow> (None, h)))"

definition stored_len :: "path \<Rightarrow> 'z fsheap_scheme \<Rightarrow> nat" where
  "stored_len p h = (case lookup p h of Some (Regular bs) \<Rightarrow> length bs | _ \<Rightarrow> 0)"

text \<open>\<open>open(p, O_WRONLY | O_CREAT | O_TRUNC, 0600)\<close>.\<close>

definition sys_creat :: "path \<Rightarrow> 'z fsheap_scheme \<Rightarrow> bool \<times> 'z fsheap_scheme" where
  "sys_creat p h = (case try_sys h of (False, h) \<Rightarrow> (False, h)
     | (True, h) \<Rightarrow>
         if lookup p h \<noteq> Some Directory \<and> (lookup p h \<noteq> None \<or> is_dir (dirname p) h)
         then (True, (set_file p (Regular []) h)\<lparr>fds := Suc (fds h), quota := map_option (\<lambda>q. q + stored_len p h) (quota h)\<rparr>)
         else (False, h))"

text \<open>
  \<open>write\<close> of a whole buffer into a file that was just truncated: at most what is left on the
  disk and at most \<open>0x7ffff000\<close> bytes; \<open>-1\<close> when nothing can be written.  The count is kept
  in an \<open>int\<close>.
\<close>

definition write_max :: nat where
  "write_max = 0x7ffff000"

definition sys_write :: "path \<Rightarrow> u8 list \<Rightarrow> 'z fsheap_scheme \<Rightarrow> 32 word \<times> 'z fsheap_scheme" where
  "sys_write p bs h = (case try_sys h of (False, h) \<Rightarrow> (-1, h)
     | (True, h) \<Rightarrow>
         let n = (case quota h of None \<Rightarrow> min (length bs) write_max | Some q \<Rightarrow> min (min (length bs) write_max) q)
         in if n = 0 \<and> bs \<noteq> [] then (-1, h)
            else (of_nat n, (set_file p (Regular (take n bs)) h)\<lparr>quota := map_option (\<lambda>q. q - n) (quota h)\<rparr>))"

section \<open>Directories and strings\<close>

definition create_directory :: "path \<Rightarrow> 'z fsheap_scheme \<Rightarrow> bool \<times> 'z fsheap_scheme" where
  "create_directory path h = (case sys_stat path h of
     (None, h) \<Rightarrow> (case sys_mkdir path h of (b, h) \<Rightarrow> (b, h))
   | (Some Directory, h) \<Rightarrow> (True, h)
   | (Some (Regular _), h) \<Rightarrow> (False, h))"

text \<open>
  \<open>opendir\<close> takes a snapshot of the entries; the variables \<open>r\<close> and \<open>r2\<close> of the source are
  the integer in the state of the loop.  The result is the C result, which is false when
  everything has been removed.
\<close>

definition sys_opendir :: "path \<Rightarrow> 'z fsheap_scheme \<Rightarrow> string list option \<times> 'z fsheap_scheme" where
  "sys_opendir p h = (case try_sys h of (False, h) \<Rightarrow> (None, h)
     | (True, h) \<Rightarrow> if lookup p h = Some Directory
         then (Some (''.'' # ''..'' # children p h), h\<lparr>fds := Suc (fds h)\<rparr>) else (None, h))"

primrec remove_directory :: "nat \<Rightarrow> path \<Rightarrow> 'z fsheap_scheme \<Rightarrow> (bool \<times> 'z fsheap_scheme) option" where
  "remove_directory 0 path h = None"
| "remove_directory (Suc k) path h = do {
     (r, h) \<leftarrow> (case sys_opendir path h of
         (None, h) \<Rightarrow> Some (-1 :: int, h)
       | (Some names, h) \<Rightarrow> do {
           (r, h) \<leftarrow> foldM (\<lambda>d_name (r, h).
               if r \<noteq> 0 then Some (r, h)
               else if d_name = ''.'' \<or> d_name = ''..'' then Some (r, h)
               else (case try_alloc h of
                   (False, h) \<Rightarrow> Some (-1, h)
                 | (True, h) \<Rightarrow>
                     let buf = path @ ''/'' @ d_name
                     in (case sys_stat buf h of
                         (None, h) \<Rightarrow> Some (-1, h)
                       | (Some Directory, h) \<Rightarrow> do {
                           (b, h) \<leftarrow> remove_directory k buf h;
                           Some (if b then 1 else 0, h)
                         }
                       | (Some (Regular _), h) \<Rightarrow>
                           (case sys_unlink buf h of (b, h) \<Rightarrow> Some (if b then 0 else -1, h))))) names (0, h);
           Some (r, sys_close h)
         });
     (r, h) \<leftarrow> (if r = 0 then (case sys_rmdir path h of (b, h) \<Rightarrow> Some (if b then 0 else -1, h)) else Some (r, h));
     Some (r \<noteq> 0, h)
   }"

text \<open>
  \<open>strrstr\<close> gives the index of the match in the haystack.  The loop ends at
  \<open>s != haystack\<close>, before index 0 has been compared.
\<close>

primrec strrstr_loop :: "string \<Rightarrow> string \<Rightarrow> nat \<Rightarrow> nat option" where
  "strrstr_loop haystack needle 0 = None"
| "strrstr_loop haystack needle (Suc s) =
    (if take (length needle) (drop (Suc s) haystack) = needle then Some (Suc s) else strrstr_loop haystack needle s)"

definition strrstr :: "string option \<Rightarrow> string option \<Rightarrow> nat option" where
  "strrstr haystack needle = (case (haystack, needle) of
     (Some haystack, Some needle) \<Rightarrow>
       if length needle = 0 \<or> length haystack = 0 \<or> length haystack < length needle then None
       else strrstr_loop haystack needle (length haystack - length needle)
   | _ \<Rightarrow> None)"

section \<open>Tree files\<close>

definition read_tree_from_file :: "nat \<Rightarrow> path \<Rightarrow> 'z fsheap_scheme \<Rightarrow> (tree_t option \<times> 'z fsheap_scheme) option" where
  "read_tree_from_file k filename h = (case sys_open filename h of
     (None, h) \<Rightarrow> Some (None, h)
   | (Some fd, h) \<Rightarrow> (case sys_fstat fd h of
       (None, h) \<Rightarrow> Some (None, h)
     | (Some tree_file_size, h) \<Rightarrow> (case sys_mmap tree_file_size fd h of
         (None, h) \<Rightarrow> Some (None, h)
       | (Some tree_buf, h) \<Rightarrow>
           let h = sys_close h
           in tree_deserialize k (Some tree_buf) tree_file_size h)))"

type_synonym 'h buf_parser = "mem option \<Rightarrow> u64 \<Rightarrow> 'h \<Rightarrow> (tree_t option \<times> 'h) option"

text \<open>
  The test case is the PUBLIC input of a JSON file; the length of the file is cut to 32 bits on
  the way.  The generated parser \<open>tree_from_buf\<close> is a parameter.
\<close>

definition load_tree_from_test_case ::
    "(u8 list \<Rightarrow> json_value option) \<Rightarrow> 'z fsheap_scheme buf_parser \<Rightarrow> path \<Rightarrow> 'z fsheap_scheme
      \<Rightarrow> ((tree_t option \<times> 'z fsheap_scheme) result) option" where
  "load_tree_from_test_case json_parse tree_from_buf filename h = (case sys_open filename h of
     (None, h) \<Rightarrow> Some (Ret (None, h))
   | (Some fd, h) \<Rightarrow> (case sys_fstat fd h of
       (None, h) \<Rightarrow> Some (Ret (None, h))
     | (Some file_size, h) \<Rightarrow> (case sys_mmap file_size fd h of
         (None, h) \<Rightarrow> Some (Ret (None, h))
       | (Some buf, h) \<Rightarrow>
           let h = sys_close h in do {
           testcase \<leftarrow> mem_read (Some buf) (unat (ucast file_size :: u32));
           inputs \<leftarrow> find_public_and_secret_inputs json_parse testcase h;
           case inputs of
             Exit c \<Rightarrow> Some (Exit c)
           | Ret (((public_in, public_len), secret_in), h) \<Rightarrow> do {
               (tree, h) \<leftarrow> tree_from_buf public_in (ucast public_len) h;
               Some (Ret (tree, h))
             }
         })))"

text \<open>\<open>write(fd, buf, len)\<close> from a buffer of the tree; a NULL buffer with a length is a bad address.\<close>

definition write_buf :: "path \<Rightarrow> mem option \<Rightarrow> u64 \<Rightarrow> 'z fsheap_scheme \<Rightarrow> (32 word \<times> 'z fsheap_scheme) option" where
  "write_buf filename m len h =
    (if m = None \<and> len \<noteq> 0 then Some (-1, h)
     else do {
       bytes \<leftarrow> mem_read m (unat len);
       Some (sys_write filename bytes h)
     })"

definition write_tree_to_file :: "nat \<Rightarrow> tree_t \<Rightarrow> path \<Rightarrow> 'z fsheap_scheme \<Rightarrow> (tree_t \<times> 'z fsheap_scheme) option" where
  "write_tree_to_file k tree filename h = do {
     (tree, h) \<leftarrow> tree_serialize k tree h;
     case sys_creat filename h of
       (False, h) \<Rightarrow> Some (tree, h)
     | (True, h) \<Rightarrow> do {
         (ret, h) \<leftarrow> write_buf filename (fst (ser_buf tree)) (ser_len tree) h;
         if ret <s 0 then Some (tree, h)
         else if (scast ret :: u64) \<noteq> ser_len tree then Some (tree, h)
         else Some (tree, sys_close h)
       }
   }"

definition dump_tree_to_test_case ::
    "nat \<Rightarrow> tree_t \<Rightarrow> path \<Rightarrow> 'z fsheap_scheme \<Rightarrow> ((tree_t \<times> 'z fsheap_scheme) result) option" where
  "dump_tree_to_test_case k tree filename h = do {
     (tree, h) \<leftarrow> tree_to_buf k tree h;
     case sys_creat filename h of
       (False, h) \<Rightarrow> Some (Exit 1)
     | (True, h) \<Rightarrow> do {
         (ret, h) \<leftarrow> write_buf filename (fst (data tree)) (data_len tree) h;
         if ret <s 0 then Some (Ret (tree, h))
         else if (scast ret :: u64) \<noteq> data_len tree then Some (Ret (tree, h))
         else Some (Ret (tree, sys_close h))
       }
   }"

end
