(* ===== verification/Trimming.thy ===== *)
theory Trimming
  imports Mutation
begin

text \<open>
  \<open>rules_mutation\<close> of Grammar-Mutator/src/tree\_mutation.c and the trimming strategies of
  Grammar-Mutator/src/tree\_trimming.c.  They edit the pointers of the given tree, clone it,
  and undo the edit: the result is a clone of the edited tree, and the given tree is back as
  it was.
\<close>

section \<open>Trimming\<close>

definition subtree_trimming ::
    "'z gen \<Rightarrow> nat \<Rightarrow> tree_t \<Rightarrow> ptr \<Rightarrow> 'z mheap_scheme \<Rightarrow> (tree_t \<times> 'z mheap_scheme) option" where
  "subtree_trimming gen k tree node h = do {
     n \<leftarrow> rd h node;
     (min_node, h) \<leftarrow> gen (node_id n) 0 (- 1) h;
     n \<leftarrow> rd h node;
     let par = parent n in
     if par = None then
       (case tree_create h of (t, h) \<Rightarrow> do {
          trimmed_tree \<leftarrow> t;
          Some (trimmed_tree\<lparr>root := min_node\<rparr>, h)
        })
     else do {
       edge \<leftarrow> node_get_parent_edge node h;
       h \<leftarrow> upd node (parent_update (\<lambda>_. None)) h;
       h \<leftarrow> set_sub_at par (e_offset edge) min_node h;
       h \<leftarrow> upd min_node (parent_update (\<lambda>_. par)) h;
       (trimmed_tree, h) \<leftarrow> tree_clone k tree h;
       h \<leftarrow> set_sub_at par (e_offset edge) node h;
       h \<leftarrow> upd node (parent_update (\<lambda>_. par)) h;
       h \<leftarrow> node_free k min_node h;
       Some (trimmed_tree, h)
     }}"

definition recursive_trimming ::
    "nat \<Rightarrow> tree_t \<Rightarrow> edge_t \<Rightarrow> 'z heap_scheme \<Rightarrow> (tree_t \<times> 'z heap_scheme) option" where
  "recursive_trimming k tree edge h =
    (let par = e_parent edge; tail = e_subnode edge in
     if par = None \<or> tail = None then tree_clone k tree h
     else do {
       pn \<leftarrow> rd h par;
       let pre_parent = parent pn in
       if pre_parent = None then
         (case tree_create h of (t, h) \<Rightarrow> do {
            (p, h) \<leftarrow> node_clone k tail h;
            trimmed_tree \<leftarrow> t;
            Some (trimmed_tree\<lparr>root := p\<rparr>, h)
          })
       else do {
         h \<leftarrow> upd tail (parent_update (\<lambda>_. None)) h;
         pre_edge \<leftarrow> node_get_parent_edge par h;
         let pre_offset = e_offset pre_edge in do {
         h \<leftarrow> upd par (parent_update (\<lambda>_. None)) h;
         h \<leftarrow> set_sub_at pre_parent pre_offset tail h;
         h \<leftarrow> upd tail (parent_update (\<lambda>_. pre_parent)) h;
         (trimmed_tree, h) \<leftarrow> tree_clone k tree h;
         h \<leftarrow> set_sub_at pre_parent pre_offset par h;
         h \<leftarrow> upd par (parent_update (\<lambda>_. pre_parent)) h;
         h \<leftarrow> upd tail (parent_update (\<lambda>_. par)) h;
         Some (trimmed_tree, h)
       }}})"

section \<open>Cloning with a replaced part\<close>

definition clone_with ::
    "nat \<Rightarrow> tree_t \<Rightarrow> ptr \<Rightarrow> ptr \<Rightarrow> ptr \<Rightarrow> 'z heap_scheme \<Rightarrow> (tree_t \<times> 'z heap_scheme) option" where
  "clone_with k tree par node new h = do {
     edge \<leftarrow> node_get_parent_edge node h;
     h \<leftarrow> upd node (parent_update (\<lambda>_. None)) h;
     h \<leftarrow> set_sub_at par (e_offset edge) new h;
     h \<leftarrow> upd new (parent_update (\<lambda>_. par)) h;
     (t, h) \<leftarrow> tree_clone k tree h;
     h \<leftarrow> set_sub_at par (e_offset edge) node h;
     h \<leftarrow> upd node (parent_update (\<lambda>_. par)) h;
     h \<leftarrow> node_free k new h;
     Some (t, h)
   }"

lemma set_sub_at_swing:
  "nodes h p = Some n \<Longrightarrow> subnodes n = Some arr \<Longrightarrow> j < length arr \<Longrightarrow>
     set_sub_at (Some p) j q h = Some (wr p (swing j q n) h)"
  by (simp add: set_sub_at_def upd_Some swing_def)

lemma swing_subnodes: "subnodes n = Some arr \<Longrightarrow> subnodes (swing j q n) = Some (arr[j := Some q])"
  by (simp add: swing_def)

lemma parent_upd_simps [simp]:
  "strip (n\<lparr>parent := p\<rparr>) = strip n" "swing j q (n\<lparr>parent := p\<rparr>) = (swing j q n)\<lparr>parent := p\<rparr>"
  by (simp_all add: strip_def swing_def)

text \<open>The result of an edit, a clone and the undoing of the edit.\<close>

definition cloned_as :: "'z heap_scheme \<Rightarrow> 'z heap_scheme \<Rightarrow> nat tree \<Rightarrow> nat tree \<Rightarrow> nat set \<Rightarrow> bool" where
  "cloned_as h h' t t' S \<longleftrightarrow> rep h' None t' \<and> erase t' = erase t \<and>
     (\<forall>x\<in>set (anns t'). brk h \<le> x \<and> x < brk h') \<and> brk h \<le> brk h' \<and> avail h' = avail h \<and> heap.more h' = heap.more h \<and>
     heap_ok h' \<and> (\<forall>x<brk h. nodes h' x = (if x \<in> S then None else nodes h x))"

lemma clone_with_ok:
  fixes h :: "'z heap_scheme"
  assumes t: "rep h None t" and hk: "heap_ok h" "mem_ok h" and ch: "child_at t p j s"
    and s: "s = Node a i r w ss" and u: "rep h None u" "u \<noteq> Null"
    and disj: "set (anns u) \<inter> set (anns t) = {}" and k: "height t + height u < k" and rt: "root tree = root_ptr t"
  shows "\<exists>t' h'. clone_with k tree (Some p) (Some a) (root_ptr u) h =
      Some (empty_tree\<lparr>root := root_ptr t'\<rparr>, h') \<and> cloned_as h h' (subst a u t) t' (set (anns u))"
proof -
  have v: "view h t" "parents h None t" "distinct (anns t)" using t by (auto simp: rep_def)
  have sN: "s \<noteq> Null" using s by simp
  obtain b i' r' w' us where uu: "u = Node b i' r' w' us" using u(2) by (cases u) auto
  obtain n ts where n: "nodes h p = Some n" "kids_ok n ts" "j < length ts" "ts ! j = s"
    "view h s" "parents h (Some p) s" "p \<notin> set (concat (map anns ts))"
    using child_at_heap [OF v(1,2) ch sN] v(3) by metis
  have arr: "subnodes n = Some (map (\<lambda>t. Some (root_ptr t)) ts)" using n(2,3) by (auto simp: kids_ok_def)
  obtain sn where sn: "nodes h a = Some sn" "parent sn = Some p" using n(6) s by auto
  obtain un where un: "nodes h b = Some un" using u(1) uu by (auto simp: rep_def)
  have ct: "p \<in> set (anns t)" "a \<in> set (anns t)" using child_at_anns [OF ch] s by auto
  have ps: "p \<notin> set (anns s)" using n(3,4,7) nth_mem [OF n(3)] by auto
  have ne: "a \<noteq> p" "b \<noteq> p" "a \<noteq> b" using ps s ct disj uu by auto
  have lt: "p < brk h" "a < brk h" "\<And>x. x \<in> set (anns u) \<Longrightarrow> x < brk h"
    using view_brk [OF v(1) hk(1)] ct view_brk [OF _ hk(1), of u] u(1) by (auto simp: rep_def)
  have edge: "node_get_parent_edge (Some a) h = Some \<lparr>e_parent = Some p, e_subnode = Some a, e_offset = j\<rparr>"
    using node_get_parent_edge_ok [OF t ch sN] s by simp
  define h1 where "h1 = wr b (un\<lparr>parent := Some p\<rparr>) (wr p (swing j (Some b) n) (wr a (sn\<lparr>parent := None\<rparr>) h))"
  have n1: "nodes h1 x = (if x = b then Some (un\<lparr>parent := Some p\<rparr>) else if x = p then Some (swing j (Some b) n)
      else if x = a then Some (sn\<lparr>parent := None\<rparr>) else nodes h x)" for x by (simp add: h1_def)
  have h1: "heap_ok h1" "mem_ok h1" "brk h1 = brk h" "heap.more h1 = heap.more h" "avail h1 = avail h"
    using hk lt uu unfolding h1_def by auto
  have vu: "view h1 u"
    by (rule view_frame [of h]) (use u(1) n1 un ne ct disj uu in \<open>auto simp: rep_def\<close>)
  have v1: "view h1 (subst a u t)"
    by (rule view_subst [OF v(1,3) ch s vu]) (use n1 n(1) sn ne s uu disj in auto)
  have rtu: "root_ptr (subst a u t) = root_ptr t"
    using child_at_root [OF ch [unfolded s] v(3)] by (cases t) auto
  have "height (subst a u t) < k" using height_subst [of a u t] k by simp
  then obtain t' h2 where t': "tree_clone k tree h1 = Some (empty_tree\<lparr>root := root_ptr t'\<rparr>, h2)"
    "fresh_copy h1 (subst a u t) h2 t'"
    using tree_clone_view [OF v1 h1(1,2)] rt rtu by metis
  have g: "grows h1 h2" and r2: "rep h2 None t'" "erase t' = erase (subst a u t)"
    "\<And>x. x \<in> set (anns t') \<Longrightarrow> brk h \<le> x \<and> x < brk h2" using t'(2) h1(3) by (auto simp: fresh_copy_def)
  have n2: "nodes h2 x = nodes h1 x" if "x < brk h" for x using growsD(5) [OF g, of x] that h1(3) by simp
  define h3 where "h3 = wr a sn (wr p n h2)"
  have set2: "set_sub_at (Some p) j (Some a) h2 = Some (wr p n h2)"
  proof -
    have "swing j (Some a) (swing j (Some b) n) = n"
      by (rule swing_swing [OF arr]) (use n(3,4) s in auto)
    then show ?thesis
      using set_sub_at_swing [of h2 p "swing j (Some b) n"] n2 lt n1 ne arr n(3) by (simp add: swing_subnodes)
  qed
  have sn': "sn\<lparr>parent := Some p\<rparr> = sn" using sn(2) by (cases sn) simp
  have up3: "upd (Some a) (parent_update (\<lambda>_. Some p)) (wr p n h2) = Some h3"
    using n2 [OF lt(2)] n1 [of a] ne sn' by (simp add: upd_def h3_def)
  have vu3: "view h3 u"
    by (rule view_frame [of h1]) (use vu n2 lt n1 un ne ct disj uu in \<open>auto simp: h3_def\<close>)
  have du: "distinct (anns u)" "height u < k" using u(1) k by (auto simp: rep_def)
  obtain h4 where h4: "node_free k (root_ptr u) h3 = Some h4" "freed (set (anns u)) h3 h4"
    using node_free_view [OF vu3 du] by blast
  have "clone_with k tree (Some p) (Some a) (root_ptr u) h = Some (empty_tree\<lparr>root := root_ptr t'\<rparr>, h4)"
    using edge set_sub_at_swing [of "wr a (sn\<lparr>parent := None\<rparr>) h" p n _ j "Some b"] n(1,3) arr ne sn un t'(1) set2 up3 h4(1) uu
    by (simp add: clone_with_def upd_Some h1_def)
  moreover have "cloned_as h h4 (subst a u t) t' (set (anns u))"
    unfolding cloned_as_def
  proof (intro conjI allI ballI impI)
    have "nodes h4 x = nodes h2 x" if "x \<in> set (anns t')" for x
      using freed_nodes [OF h4(2), of x] r2(3) [OF that] lt by (fastforce simp: h3_def)
    then show "rep h4 None t'" by (rule rep_cong [OF r2(1)])
    show "nodes h4 x = (if x \<in> set (anns u) then None else nodes h x)" if "x < brk h" for x
      using h4(2) n2 [OF that] n1 [of x] n(1) sn(1) uu by (auto simp: freed_def h3_def)
    have "heap_ok h3" unfolding h3_def using growsD(1,3) [OF g] lt h1(3) by simp
    then show "heap_ok h4" by (rule freed_heap_ok [OF h4(2)])
  qed (use r2 growsD [OF g] h1 h4(2) in \<open>auto simp: freed_def h3_def\<close>)
  ultimately show ?thesis by blast
qed

lemma cloned_beside:
  assumes "rgrows h h1" and "cloned_as h1 h' t t' S" and "\<And>x. x \<in> S \<Longrightarrow> brk h \<le> x"
  shows "new_beside h h' t'"
proof -
  have "heap.more h' = heap.more h1" using assms(2) by (simp add: cloned_as_def)
  then have m: "random_seed h' = random_seed h1 \<and> rheap.more h' = rheap.more h1" by (cases h'; cases h1) simp
  have "nodes h' x = nodes h x" if "x < brk h" for x
    using assms(2) rgrowsD(5) [OF assms(1) that] rgrowsD(3) [OF assms(1)] assms(3) [of x] that
    by (auto simp: cloned_as_def)
  then show ?thesis
    using assms(2) m rgrowsD(2-4,6) [OF assms(1)] by (fastforce simp: new_beside_def cloned_as_def)
qed

text \<open>The common part of \<open>rules_mutation\<close> and \<open>subtree_trimming\<close>, once the new subtree is there.\<close>

definition clone_replacing ::
    "nat \<Rightarrow> tree_t \<Rightarrow> ptr \<Rightarrow> ptr \<Rightarrow> ptr \<Rightarrow> 'z heap_scheme \<Rightarrow> (tree_t \<times> 'z heap_scheme) option" where
  "clone_replacing k tree par node new h =
    (if par = None then
       (case tree_create h of (t, h) \<Rightarrow> do {
          tree' \<leftarrow> t;
          Some (tree'\<lparr>root := new\<rparr>, h)
        })
     else clone_with k tree par node new h)"

lemma rules_mutation_unfold:
  "rules_mutation gen num k (Some tree) node rule h =
    (if node = None then Some (None, h)
     else do {
       n \<leftarrow> rd h node;
       if node_id n = 0 then Some (None, h)
       else if ucast rule \<ge> num (node_id n) then Some (None, h)
       else if rule_id n = rule then Some (None, h)
       else do {
         (r, h) \<leftarrow> gen (node_id n) (ucast (max_tree_len h)) rule h;
         (t, h) \<leftarrow> clone_replacing k tree (parent n) node r h;
         Some (Some t, h)
       }})"
  by (auto simp: rules_mutation_def clone_replacing_def clone_with_def Let_def split: bind_split prod.splits)

lemma subtree_trimming_unfold:
  "subtree_trimming gen k tree node h = do {
     n \<leftarrow> rd h node;
     (r, h) \<leftarrow> gen (node_id n) 0 (- 1) h;
     n \<leftarrow> rd h node;
     clone_replacing k tree (parent n) node r h
   }"
  unfolding subtree_trimming_def clone_replacing_def clone_with_def Let_def by (rule refl)

lemma clone_replacing_ok:
  fixes h :: "'z rheap_scheme"
  assumes t: "rep h None t" and hk: "heap_ok h" "mem_ok h"
    and s: "s \<in> set (subtrees t)" "root_ptr s = Some a" "s = t \<or> (\<exists>p j. child_at t p j s)"
    and u: "new_tree_in h h1 u" "u \<noteq> Null" and k: "height t + height u < k" and rt: "root tree = root_ptr t"
    and n: "nodes h1 a = Some n"
  shows "\<exists>tree' t' h'. clone_replacing k tree (parent n) (Some a) (root_ptr u) h1 = Some (tree', h') \<and>
    root tree' = root_ptr t' \<and> new_beside h h' t' \<and> erase t' = erase (subst a u t)"
proof -
  have rg: "rgrows h h1" and ru: "rep h1 None u" and ua: "\<And>x. x \<in> set (anns u) \<Longrightarrow> brk h \<le> x"
    using u(1) by (auto simp: new_tree_in_def)
  have t1: "rep h1 None t" using rep_same [OF t hk(1)] rgrowsD(5) [OF rg] by blast
  have hk1: "heap_ok h1" "mem_ok h1" using rgrowsD(1,2) [OF rg] hk(2) by auto
  have disj: "set (anns u) \<inter> set (anns t) = {}"
    using ua view_brk [of h t] t hk(1) by (fastforce simp: rep_def)
  obtain i r w ss where se: "s = Node a i r w ss" using s(2) by (cases s) auto
  show ?thesis
  proof (cases "s = t")
    case True
    then have "parent n = None" using t1 n se by (auto simp: rep_def)
    then have "clone_replacing k tree (parent n) (Some a) (root_ptr u) h1 = Some (empty_tree\<lparr>root := root_ptr u\<rparr>, h1)"
      using hk1(2) by (simp add: clone_replacing_def tree_create_def)
    moreover have "subst a u t = u" using se [unfolded True] by simp
    moreover have "new_beside h h1 u"
      by (rule new_besideI [OF rg ru, of "set (anns u)"])
        (use ua view_brk [OF _ hk1(1), of u] ru in \<open>auto simp: same_outside_def rep_def\<close>)
    ultimately show ?thesis by (intro exI [of _ "empty_tree\<lparr>root := root_ptr u\<rparr>"] exI [of _ u]) auto
  next
    case False
    then obtain p j where ch: "child_at t p j s" using s(3) by blast
    have "parent n = Some p"
      using child_at_heap [OF _ _ ch, of h1 None] t1 n se by (auto simp: rep_def)
    moreover obtain t' h' where c: "clone_with k tree (Some p) (Some a) (root_ptr u) h1 =
        Some (empty_tree\<lparr>root := root_ptr t'\<rparr>, h')" "cloned_as h1 h' (subst a u t) t' (set (anns u))"
      using clone_with_ok [OF t1 hk1 ch se ru u(2) disj k rt] by blast
    ultimately show ?thesis using cloned_beside [OF rg c(2) ua] c(2)
      by (intro exI [of _ "empty_tree\<lparr>root := root_ptr t'\<rparr>"] exI [of _ t'] exI [of _ h'])
        (auto simp: clone_replacing_def cloned_as_def)
  qed
qed

lemma rules_mutation_view:
  fixes h :: "'z mheap_scheme"
  assumes t: "rep h None t" and hk: "heap_ok h" "mem_ok h" "rng_live (random_seed h)"
    and s: "s \<in> set (subtrees t)" "root_ptr s = Some a" "tid s \<noteq> 0" "s = t \<or> (\<exists>p j. child_at t p j s)"
    and rule: "ucast rule < num (tid s)" "rule \<noteq> trule s"
    and g: "gen_ok gen I H" "tid s \<in> I" and k: "height t + H < k" and rt: "root tree = root_ptr t"
  shows "\<exists>tree' h' t' u h1. rules_mutation gen num k (Some tree) (Some a) rule h = Some (Some tree', h') \<and>
    root tree' = root_ptr t' \<and> new_beside h h' t' \<and> erase t' = erase (subst a u t) \<and> u \<noteq> Null \<and> tid u = tid s \<and>
    gen (tid s) (ucast (max_tree_len h)) rule h = Some (root_ptr u, h1) \<and> new_tree_in h h1 u"
proof -
  obtain i r w ss where se: "s = Node a i r w ss" using s(2) by (cases s) auto
  obtain n where n: "nodes h a = Some n" "node_id n = tid s" "rule_id n = trule s"
    using view_subtree [OF _ s(1), of h] t se by (auto simp: rep_def)
  obtain u h1 where u: "gen (node_id n) (ucast (max_tree_len h)) rule h = Some (root_ptr u, h1)"
    "new_tree_in h h1 u" "u \<noteq> Null" "tid u = tid s" "height u \<le> H"
    using gen_okE [OF g hk] n(2) by metis
  have n1: "nodes h1 a = Some n"
    using u(2) rgrowsD(5) [of h h1 a] heap_okD [OF hk(1) n(1)] n(1) by (simp add: new_tree_in_def)
  have "height t + height u < k" using k u(5) by simp
  then obtain tree' t' h' where c: "clone_replacing k tree (parent n) (Some a) (root_ptr u) h1 = Some (tree', h')"
    "root tree' = root_ptr t'" "new_beside h h' t'" "erase t' = erase (subst a u t)"
    using clone_replacing_ok [OF t hk(1,2) s(1,2,4) u(2,3) _ rt n1] by blast
  have "rules_mutation gen num k (Some tree) (Some a) rule h = Some (Some tree', h')"
    using n s(3) rule u(1) c(1) by (auto simp: rules_mutation_unfold)
  then show ?thesis using c u(1-4) n(2) by metis
qed

lemma subtree_trimming_view:
  fixes h :: "'z mheap_scheme"
  assumes t: "rep h None t" and hk: "heap_ok h" "mem_ok h" "rng_live (random_seed h)"
    and s: "s \<in> set (subtrees t)" "root_ptr s = Some a" "s = t \<or> (\<exists>p j. child_at t p j s)"
    and g: "gen_ok gen I H" "tid s \<in> I" and k: "height t + H < k" and rt: "root tree = root_ptr t"
  shows "\<exists>tree' h' t' u h1. subtree_trimming gen k tree (Some a) h = Some (tree', h') \<and>
    root tree' = root_ptr t' \<and> new_beside h h' t' \<and> erase t' = erase (subst a u t) \<and> u \<noteq> Null \<and> tid u = tid s \<and>
    gen (tid s) 0 (- 1) h = Some (root_ptr u, h1) \<and> new_tree_in h h1 u"
proof -
  obtain i r w ss where se: "s = Node a i r w ss" using s(2) by (cases s) auto
  obtain n where n: "nodes h a = Some n" "node_id n = tid s"
    using view_subtree [OF _ s(1), of h] t se by (auto simp: rep_def)
  obtain u h1 where u: "gen (node_id n) 0 (- 1) h = Some (root_ptr u, h1)"
    "new_tree_in h h1 u" "u \<noteq> Null" "tid u = tid s" "height u \<le> H"
    using gen_okE [OF g hk] n(2) by metis
  have n1: "nodes h1 a = Some n"
    using u(2) rgrowsD(5) [of h h1 a] heap_okD [OF hk(1) n(1)] n(1) by (simp add: new_tree_in_def)
  have "height t + height u < k" using k u(5) by simp
  then obtain tree' t' h' where c: "clone_replacing k tree (parent n) (Some a) (root_ptr u) h1 = Some (tree', h')"
    "root tree' = root_ptr t'" "new_beside h h' t'" "erase t' = erase (subst a u t)"
    using clone_replacing_ok [OF t hk(1,2) s(1,2,3) u(2,3) _ rt n1] by blast
  have "subtree_trimming gen k tree (Some a) h = Some (tree', h')"
    using n n1 u(1) c(1) by (simp add: subtree_trimming_unfold)
  then show ?thesis using c u(1-4) n(2) by metis
qed

section \<open>Recursive trimming\<close>

lemma child_place:
  "child_at t p j s \<Longrightarrow> \<exists>i r v ts. j < length ts \<and> ts ! j = s \<and> Node p i r v ts \<in> set (subtrees t) \<and>
     (Node p i r v ts = t \<or> (\<exists>q l. child_at t q l (Node p i r v ts)))"
proof (induction t)
  case (Node a i r v ts)
  from Node.prems consider "a = p" "j < length ts" "ts ! j = s" | u where "u \<in> set ts" "child_at u p j s"
    by auto
  then show ?case
  proof cases
    case 1
    then show ?thesis by (intro exI [of _ i] exI [of _ r] exI [of _ v] exI [of _ ts]) auto
  next
    case 2
    then obtain i' r' v' ts' where P: "j < length ts'" "ts' ! j = s" "Node p i' r' v' ts' \<in> set (subtrees u)"
      "Node p i' r' v' ts' = u \<or> (\<exists>q l. child_at u q l (Node p i' r' v' ts'))"
      using Node.IH [OF 2] by (elim exE conjE)
    have "\<exists>q l. child_at (Node a i r v ts) q l (Node p i' r' v' ts')"
    proof (cases "Node p i' r' v' ts' = u")
      case True
      then obtain l where "l < length ts" "ts ! l = Node p i' r' v' ts'" using 2(1) by (auto simp: in_set_conv_nth)
      then have "child_at (Node a i r v ts) a l (Node p i' r' v' ts')" by simp
      then show ?thesis by blast
    next
      case False
      then obtain q l where "child_at u q l (Node p i' r' v' ts')" using P(4) by blast
      then have "child_at (Node a i r v ts) q l (Node p i' r' v' ts')" using 2(1) by auto
      then show ?thesis by blast
    qed
    moreover have "Node p i' r' v' ts' \<in> set (subtrees (Node a i r v ts))" using P(3) 2(1) by auto
    ultimately show ?thesis using P(1,2) by blast
  qed
qed simp

lemma node_get_parent_edge_frame:
  assumes "nodes h a = Some n" and "nodes h' a = Some n" and "parent n = Some p" and "nodes h' p = nodes h p"
  shows "node_get_parent_edge (Some a) h' = node_get_parent_edge (Some a) h"
  using assms by (simp add: node_get_parent_edge_def sub_at_def)

text \<open>The branch in the middle of the tree: \<open>tail\<close> takes the place of its parent.\<close>

lemma recursive_trimming_inner:
  fixes h :: "'z heap_scheme"
  assumes t: "rep h None t" and hk: "heap_ok h" "mem_ok h"
    and P: "P = Node p i r v ts" "j < length ts" "ts ! j = s" and s: "s = Node a i' r' v' ss"
    and ch: "child_at t pp l P" and k: "height t + height s < k" and rt: "root tree = root_ptr t"
  shows "\<exists>t' h'. recursive_trimming k tree \<lparr>e_parent = Some p, e_subnode = Some a, e_offset = j\<rparr> h =
      Some (empty_tree\<lparr>root := root_ptr t'\<rparr>, h') \<and> cloned_as h h' (subst p s t) t' {}"
proof -
  have w: "view h t" "parents h None t" "distinct (anns t)" using t by (auto simp: rep_def)
  have PN: "P \<noteq> Null" using P by simp
  obtain n us where n: "nodes h pp = Some n" "kids_ok n us" "l < length us" "us ! l = P"
    "view h P" "parents h (Some pp) P" "pp \<notin> set (concat (map anns us))"
    using child_at_heap [OF w(1,2) ch PN] w(3) by metis
  have arr: "subnodes n = Some (map (\<lambda>t. Some (root_ptr t)) us)" using n(2,3) by (auto simp: kids_ok_def)
  have dP: "distinct (anns P)" using child_at_distinct [OF ch w(3)] .
  have sP: "set (anns s) \<subseteq> set (anns P)" "p \<notin> set (anns s)" "s \<in> set ts"
    using P dP nth_mem [OF P(2)] by auto
  have pP: "pp \<notin> set (anns P)" using n(3,4,7) nth_mem [OF n(3)] by auto
  have ne: "a \<noteq> p" "a \<noteq> pp" "p \<noteq> pp" using sP pP s P by auto
  obtain pn where pn: "nodes h p = Some pn" "parent pn = Some pp" using n(6) P by auto
  obtain sn where sn: "nodes h a = Some sn" "parent sn = Some p"
    using n(6) sP(3) s P(1) by fastforce
  have vs: "view h s" using n(5) sP(3) P(1) by auto
  have lt: "pp < brk h" "p < brk h" "a < brk h"
    using view_brk [OF w(1) hk(1)] child_at_anns [OF ch] P sP s by auto
  have edge: "node_get_parent_edge (Some p) h = Some \<lparr>e_parent = Some pp, e_subnode = Some p, e_offset = l\<rparr>"
    using node_get_parent_edge_ok [OF t ch PN] P by simp
  define h0 where "h0 = wr a (sn\<lparr>parent := None\<rparr>) h"
  have edge0: "node_get_parent_edge (Some p) h0 = Some \<lparr>e_parent = Some pp, e_subnode = Some p, e_offset = l\<rparr>"
    using node_get_parent_edge_frame [OF pn(1) _ pn(2), of h0] ne edge pn by (simp add: h0_def)
  define h1 where "h1 = wr a (sn\<lparr>parent := Some pp\<rparr>) (wr pp (swing l (Some a) n) (wr p (pn\<lparr>parent := None\<rparr>) h0))"
  have n1: "nodes h1 x = (if x = a then Some (sn\<lparr>parent := Some pp\<rparr>) else if x = pp then Some (swing l (Some a) n)
      else if x = p then Some (pn\<lparr>parent := None\<rparr>) else nodes h x)" for x by (simp add: h1_def h0_def)
  have h1: "heap_ok h1" "mem_ok h1" "brk h1 = brk h" "heap.more h1 = heap.more h" "avail h1 = avail h"
    using hk lt unfolding h1_def h0_def by auto
  have vs1: "view h1 s"
    by (rule view_frame [OF vs]) (use n1 sn sP pP in auto)
  have v1: "view h1 (subst p s t)"
    by (rule view_subst [OF w(1,3) ch P(1) vs1]) (use n1 n(1) pn ne s sP P(1) in auto)
  have rtu: "root_ptr (subst p s t) = root_ptr t"
    using child_at_root [OF ch [unfolded P(1)] w(3)] by (cases t) auto
  have "height (subst p s t) < k" using height_subst [of p s t] k by simp
  then obtain t' h2 where t': "tree_clone k tree h1 = Some (empty_tree\<lparr>root := root_ptr t'\<rparr>, h2)"
    "fresh_copy h1 (subst p s t) h2 t'"
    using tree_clone_view [OF v1 h1(1,2)] rt rtu by metis
  have g: "grows h1 h2" and r2: "rep h2 None t'" "erase t' = erase (subst p s t)"
    "\<And>x. x \<in> set (anns t') \<Longrightarrow> brk h \<le> x \<and> x < brk h2" using t'(2) h1(3) by (auto simp: fresh_copy_def)
  have n2: "nodes h2 x = nodes h1 x" if "x < brk h" for x using growsD(5) [OF g, of x] that h1(3) by simp
  have set2: "set_sub_at (Some pp) l (Some p) h2 = Some (wr pp n h2)"
  proof -
    have "swing l (Some p) (swing l (Some a) n) = n"
      by (rule swing_swing [OF arr]) (use n(3,4) P in auto)
    then show ?thesis
      using set_sub_at_swing [of h2 pp "swing l (Some a) n"] n2 lt n1 ne arr n(3) by (simp add: swing_subnodes)
  qed
  have eqs: "pn\<lparr>parent := Some pp\<rparr> = pn" "sn\<lparr>parent := Some p\<rparr> = sn" using pn(2) sn(2) by (cases pn, simp, cases sn, simp)
  define h3 where "h3 = wr a sn (wr p pn (wr pp n h2))"
  have "recursive_trimming k tree \<lparr>e_parent = Some p, e_subnode = Some a, e_offset = j\<rparr> h =
      Some (empty_tree\<lparr>root := root_ptr t'\<rparr>, h3)"
    using pn sn(1) edge0 ne n(1,3) arr t'(1) set2 n2 [OF lt(2)] n2 [OF lt(3)] n1 [of p] n1 [of a]
      set_sub_at_swing [of "wr p (pn\<lparr>parent := None\<rparr>) h0" pp n _ l "Some a"]
    by (simp add: recursive_trimming_def Let_def upd_Some h0_def h1_def h3_def eqs)
  moreover have "cloned_as h h3 (subst p s t) t' {}"
    unfolding cloned_as_def
  proof (intro conjI allI ballI impI)
    have "nodes h3 x = nodes h2 x" if "x \<in> set (anns t')" for x
      using r2(3) [OF that] lt by (auto simp: h3_def)
    then show "rep h3 None t'" by (rule rep_cong [OF r2(1)])
    show "nodes h3 x = (if x \<in> {} then None else nodes h x)" if "x < brk h" for x
      using n2 [OF that] n1 [of x] n(1) sn(1) pn(1) by (auto simp: h3_def)
    show "heap_ok h3" unfolding h3_def using growsD(1,3) [OF g] lt h1(3) by simp
  qed (use r2 growsD [OF g] h1 in \<open>auto simp: h3_def\<close>)
  ultimately show ?thesis by blast
qed

lemma recursive_trimming_view:
  fixes h :: "'z heap_scheme"
  assumes t: "rep h None t" and hk: "heap_ok h" "mem_ok h" and ch: "child_at t p j s" and sN: "s \<noteq> Null"
    and k: "height t + height s < k" and rt: "root tree = root_ptr t"
  shows "\<exists>tree' t' h'. recursive_trimming k tree \<lparr>e_parent = Some p, e_subnode = root_ptr s, e_offset = j\<rparr> h =
      Some (tree', h') \<and> root tree' = root_ptr t' \<and> cloned_as h h' (subst p s t) t' {}"
proof -
  obtain a i' r' v' ss where s: "s = Node a i' r' v' ss" using sN by (cases s) auto
  obtain i r v ts where P: "j < length ts" "ts ! j = s" "Node p i r v ts = t \<or> (\<exists>q l. child_at t q l (Node p i r v ts))"
    using child_place [OF ch] by blast
  show ?thesis
  proof (cases "Node p i r v ts = t")
    case True
    have sk: "height s < k" using k by simp
    have sv: "view h s" using t True P(1,2) by (auto simp: rep_def)
    obtain n where n: "nodes h p = Some n" "parent n = None" using t True by (auto simp: rep_def)
    obtain t' h' where c: "node_clone k (root_ptr s) h = Some (root_ptr t', h')" "fresh_copy h s h' t'"
      using node_clone_view [OF sv hk sk] by blast
    have "recursive_trimming k tree \<lparr>e_parent = Some p, e_subnode = root_ptr s, e_offset = j\<rparr> h =
        Some (empty_tree\<lparr>root := root_ptr t'\<rparr>, h')"
      using n c(1) s hk(2) by (simp add: recursive_trimming_def tree_create_def)
    moreover have "subst p s t = s" using True by auto
    ultimately show ?thesis using c(2)
      by (intro exI [of _ "empty_tree\<lparr>root := root_ptr t'\<rparr>"] exI [of _ t'] exI [of _ h'])
        (auto simp: cloned_as_def fresh_copy_def dest: growsD)
  next
    case False
    then obtain q l where q: "child_at t q l (Node p i r v ts)" using P(3) by blast
    obtain t' h' where "recursive_trimming k tree \<lparr>e_parent = Some p, e_subnode = Some a, e_offset = j\<rparr> h =
      Some (empty_tree\<lparr>root := root_ptr t'\<rparr>, h') \<and> cloned_as h h' (subst p s t) t' {}"
      using recursive_trimming_inner [OF t hk refl P(1,2) s q k rt] by blast
    then show ?thesis using s
      by (intro exI [of _ "empty_tree\<lparr>root := root_ptr t'\<rparr>"] exI [of _ t'] exI [of _ h']) auto
  qed
qed

end
