(* ===== verification/Grammar_Mutator.thy ===== *)
theory Grammar_Mutator
  imports Files Trimming
begin

text \<open>
  The AFL++ custom mutator of Grammar-Mutator/src/grammar\_mutator.c: the callbacks of the
  fuzzer over the state my\_mutator\_t, with the trimming and fuzzing stages as counters in
  that state.  What is generated from a grammar (gen\_funcs, gen\_init\_\_, node\_num\_rules,
  node\_type\_str, tree\_from\_buf), the XXH digests, the JSON parser and the environment are
  collected in a record of parameters.
\<close>

section \<open>State\<close>

record gmheap = fsheap +
  default_random_mutation_steps :: u64
  default_random_recursive_mutation_steps :: u64
  default_splicing_mutation_steps :: u64

record 'h params =
  gen_funcs :: "u32 \<Rightarrow> u32 \<Rightarrow> u32 \<Rightarrow> 'h \<Rightarrow> (ptr \<times> 'h) option"
  gen_init :: "u32 \<Rightarrow> 'h \<Rightarrow> (tree_t \<times> 'h) option"
  node_num_rules :: "u32 \<Rightarrow> u64"
  node_type_str :: "u32 \<Rightarrow> key"
  tree_from_buf :: "mem option \<Rightarrow> u64 \<Rightarrow> 'h \<Rightarrow> (tree_t option \<times> 'h) option"
  xxh3 :: "u8 list \<Rightarrow> u64"
  xxh64 :: "u64 \<Rightarrow> u64"
  json_parse :: "u8 list \<Rightarrow> json_value option"
  getenv :: "string \<Rightarrow> string option"

text \<open>
  A pointer to a tree\_t that the state owns is the record of that tree; no two fields ever
  hold the same pointer.  The fields of the directory are C strings.
\<close>

record my_mutator_t =
  afl :: ptr
  tree_out_dir_exist :: bool
  filename_cur :: "path option"
  tree_cur :: "tree_t option"
  mutated_tree :: "tree_t option"
  trimmed_tree :: "tree_t option"
  cur_trimming_stage :: u8
  trim_was_effective :: bool
  cur_subtree_trimming_step :: u64
  finished_subtree_trimming_nodes :: u64
  total_subtree_trimming_steps :: u64
  cur_recursive_trimming_step :: u64
  finished_recursive_trimming_edges :: u64
  total_recursive_trimming_steps :: u64
  cur_fuzzing_stage :: u8
  cur_fuzzing_step :: u64
  total_rules_mutation_steps :: u64
  total_random_mutation_steps :: u64
  total_random_recursive_mutation_steps :: u64
  total_splicing_mutation_steps :: u64
  cur_rules_mutation_node :: ptr
  cur_rules_mutation_rule_id :: u32
  fuzz :: buf
  tree_fn_cur :: path
  new_tree_fn :: path

definition PATH_MAX :: nat where
  "PATH_MAX = 4096"

text \<open>\<open>snprintf(buf, n, "%s", s)\<close>.\<close>

definition snprintf :: "nat \<Rightarrow> string \<Rightarrow> string" where
  "snprintf n s = take (n - 1) s"

text \<open>\<open>list_pop_front\<close> on the sequence of a list.\<close>

definition seq_pop :: "'a list option \<Rightarrow> 'a option \<times> 'a list option" where
  "seq_pop l = (case l of Some (x # xs) \<Rightarrow> (Some x, Some xs) | _ \<Rightarrow> (None, l))"

section \<open>Start and end\<close>

text \<open>\<open>strtol(s, NULL, 10)\<close>, which saturates.\<close>

definition is_space :: "char \<Rightarrow> bool" where
  "is_space c \<longleftrightarrow> c = CHR '' '' \<or> (9 \<le> (of_char c :: nat) \<and> (of_char c :: nat) \<le> 13)"

definition dec_value :: "string \<Rightarrow> int" where
  "dec_value s = foldl (\<lambda>n c. 10 * n + (of_char c - 48)) 0
     (takeWhile (\<lambda>c. 48 \<le> (of_char c :: nat) \<and> (of_char c :: nat) \<le> 57) s)"

definition strtol :: "string \<Rightarrow> int" where
  "strtol s = (let s = dropWhile is_space s;
       v = (case s of [] \<Rightarrow> 0
          | c # cs \<Rightarrow> if c = CHR ''-'' then - dec_value cs else if c = CHR ''+'' then dec_value cs else dec_value s)
     in max (- (2 ^ 63)) (min (2 ^ 63 - 1) v))"

definition load_env_configs :: "(string \<Rightarrow> string option) \<Rightarrow> 'z gmheap_scheme \<Rightarrow> 'z gmheap_scheme" where
  "load_env_configs env h =
    (let conf = (\<lambda>env_var old. case env env_var of None \<Rightarrow> old
           | Some ptr \<Rightarrow> if ptr = [] then old else of_int (strtol ptr))
     in h\<lparr>default_random_mutation_steps := conf ''RANDOM_MUTATION_STEPS'' (default_random_mutation_steps h),
          default_random_recursive_mutation_steps :=
            conf ''RANDOM_RECURSIVE_MUTATION_STEPS'' (default_random_recursive_mutation_steps h),
          default_splicing_mutation_steps := conf ''SPLICING_MUTATION_STEPS'' (default_splicing_mutation_steps h)\<rparr>)"

definition zero_mutator :: my_mutator_t where
  "zero_mutator = \<lparr>afl = None, tree_out_dir_exist = False, filename_cur = None, tree_cur = None,
     mutated_tree = None, trimmed_tree = None, cur_trimming_stage = 0, trim_was_effective = False,
     cur_subtree_trimming_step = 0, finished_subtree_trimming_nodes = 0, total_subtree_trimming_steps = 0,
     cur_recursive_trimming_step = 0, finished_recursive_trimming_edges = 0, total_recursive_trimming_steps = 0,
     cur_fuzzing_stage = 0, cur_fuzzing_step = 0, total_rules_mutation_steps = 0, total_random_mutation_steps = 0,
     total_random_recursive_mutation_steps = 0, total_splicing_mutation_steps = 0,
     cur_rules_mutation_node = None, cur_rules_mutation_rule_id = 0, fuzz = (None, 0), tree_fn_cur = [], new_tree_fn = []\<rparr>"

definition afl_custom_init ::
    "('z gmheap_scheme) params \<Rightarrow> ptr \<Rightarrow> u32 \<Rightarrow> 'z gmheap_scheme \<Rightarrow> my_mutator_t option \<times> 'z gmheap_scheme" where
  "afl_custom_init P afl_ptr seed h =
    (let h = h\<lparr>random_seed := random_set_seed (xxh64 P) (ucast seed)\<rparr>;
         h = load_env_configs (getenv P) h;
         h = chunk_store_init h
     in case try_alloc h of
          (False, h) \<Rightarrow> (None, h)
        | (True, h) \<Rightarrow> (Some (zero_mutator\<lparr>afl := afl_ptr\<rparr>), h))"

text \<open>The record is dead afterwards; its buffer goes with it.\<close>

definition afl_custom_deinit :: "nat \<Rightarrow> my_mutator_t \<Rightarrow> 'z gmheap_scheme \<Rightarrow> 'z gmheap_scheme option" where
  "afl_custom_deinit k d h = do {
     h \<leftarrow> tree_free k (tree_cur d) h;
     h \<leftarrow> tree_free k (mutated_tree d) h;
     h \<leftarrow> tree_free k (trimmed_tree d) h;
     chunk_store_clear k h
   }"

section \<open>The queue\<close>

definition strrchr :: "string \<Rightarrow> char \<Rightarrow> nat option" where
  "strrchr s c = (if c \<in> set s then Some (length s - 1 - length (takeWhile (\<lambda>x. x \<noteq> c) (rev s))) else None)"

primrec strstr_from :: "string \<Rightarrow> string \<Rightarrow> nat \<Rightarrow> nat option" where
  "strstr_from [] needle i = (if needle = [] then Some i else None)"
| "strstr_from (c # s) needle i =
     (if take (length needle) (c # s) = needle then Some i else strstr_from s needle (Suc i))"

definition strstr :: "string \<Rightarrow> string \<Rightarrow> nat option" where
  "strstr s needle = strstr_from s needle 0"

text \<open>The part of \<open>afl_custom_queue_get\<close> that computes names: the name of the test case.\<close>

definition use_name :: "path \<Rightarrow> nat \<Rightarrow> string" where
  "use_name fn slash_basename = (case strstr (drop slash_basename fn) '',orig:'' of
       Some i \<Rightarrow> drop (slash_basename + i + 6) fn
     | None \<Rightarrow> drop (slash_basename + 1) fn)"

definition afl_custom_queue_get ::
    "('z gmheap_scheme) params \<Rightarrow> nat \<Rightarrow> my_mutator_t \<Rightarrow> path \<Rightarrow> 'z gmheap_scheme
      \<Rightarrow> ((u8 \<times> my_mutator_t \<times> 'z gmheap_scheme) result) option" where
  "afl_custom_queue_get P k d fn h = do {
     let d = d\<lparr>filename_cur := Some fn\<rparr>;
     h \<leftarrow> tree_free k (tree_cur d) h;
     let d = d\<lparr>tree_cur := None\<rparr>;
     case strrchr fn CHR ''/'' of None \<Rightarrow> Some (Ret (0, d, h))
     | Some slash_basename \<Rightarrow>
       let name = use_name fn slash_basename; tree_out_dir = take slash_basename fn in
       (case strrchr tree_out_dir CHR ''/'' of None \<Rightarrow> Some (Ret (0, d, h))
        | Some last_dir \<Rightarrow>
          let folder = drop last_dir tree_out_dir;
              keep = (folder = ''/queue'' \<or> folder = ''/_resume'');
              out_dir = take last_dir tree_out_dir @ ''/trees'';
              d = d\<lparr>tree_fn_cur := if keep then snprintf (PATH_MAX - 1) (out_dir @ ''/'' @ name) else []\<rparr> in
          (case (if keep \<and> \<not> tree_out_dir_exist d then create_directory out_dir h else (True, h)) of
             (False, h) \<Rightarrow> Some (Ret (0, d, h))
           | (True, h) \<Rightarrow> do {
               (tree, h) \<leftarrow> (if tree_fn_cur d \<noteq> [] then read_tree_from_file k (tree_fn_cur d) h else Some (None, h));
               case tree of
                 Some tree \<Rightarrow> do {
                   (_, h) \<leftarrow> tree_get_size k tree h;
                   h \<leftarrow> chunk_store_add_tree (xxh3 P) (node_type_str P) k (Some tree) h;
                   Some (Ret (1, d\<lparr>tree_cur := Some tree\<rparr>, h))
                 }
               | None \<Rightarrow> do {
                   loaded \<leftarrow> load_tree_from_test_case (json_parse P) (tree_from_buf P) fn h;
                   case loaded of
                     Exit c \<Rightarrow> Some (Exit c)
                   | Ret (None, h) \<Rightarrow> Some (Ret (0, d\<lparr>tree_cur := None\<rparr>, h))
                   | Ret (Some tree, h) \<Rightarrow> do {
                       (_, h) \<leftarrow> tree_get_size k tree h;
                       (tree, h) \<leftarrow> (if tree_fn_cur d \<noteq> [] then write_tree_to_file k tree (tree_fn_cur d) h
                                      else Some (tree, h));
                       h \<leftarrow> chunk_store_add_tree (xxh3 P) (node_type_str P) k (Some tree) h;
                       Some (Ret (1, d\<lparr>tree_cur := Some tree\<rparr>, h))
                     }
                 }
             }))
   }"

text \<open>
  \<open>memcpy(found, "/trees", 6)\<close> replaces six of the seven characters of \<open>/queue/\<close>.
  A NULL name of the original test case, or no mutated tree, means an imported test case.
\<close>

definition afl_custom_queue_new_entry ::
    "('z gmheap_scheme) params \<Rightarrow> nat \<Rightarrow> my_mutator_t \<Rightarrow> path \<Rightarrow> path option \<Rightarrow> 'z gmheap_scheme
      \<Rightarrow> ((my_mutator_t \<times> 'z gmheap_scheme) result) option" where
  "afl_custom_queue_new_entry P k d filename_new_queue filename_orig_queue h =
    (if filename_orig_queue = None \<or> mutated_tree d = None then do {
       r \<leftarrow> afl_custom_queue_get P k d filename_new_queue h;
       Some (case r of Exit c \<Rightarrow> Exit c | Ret (_, d, h) \<Rightarrow> Ret (d, h))
     } else
       let d = d\<lparr>new_tree_fn := snprintf (PATH_MAX - 1) filename_new_queue\<rparr> in
       (case strrstr (Some (new_tree_fn d)) (Some ''/queue/'') of
          None \<Rightarrow> Some (Ret (d, h))
        | Some found \<Rightarrow>
          let fn = new_tree_fn d; d = d\<lparr>new_tree_fn := take found fn @ ''/trees'' @ drop (found + 6) fn\<rparr> in do {
            tree \<leftarrow> mutated_tree d;
            (tree, h) \<leftarrow> write_tree_to_file k tree (new_tree_fn d) h;
            h \<leftarrow> chunk_store_add_tree (xxh3 P) (node_type_str P) k (Some tree) h;
            h \<leftarrow> tree_free k (Some tree) h;
            Some (Ret (d\<lparr>mutated_tree := None\<rparr>, h))
          }))"

section \<open>Trimming\<close>

text \<open>The sums of \<open>size_t\<close> are cut to the \<open>int32_t\<close> of the result.\<close>

definition afl_custom_init_trim ::
    "nat \<Rightarrow> my_mutator_t \<Rightarrow> 'z gmheap_scheme \<Rightarrow> (32 word \<times> my_mutator_t \<times> 'z gmheap_scheme) option" where
  "afl_custom_init_trim k d h = (case tree_cur d of None \<Rightarrow> Some (0, d, h)
   | Some tree \<Rightarrow> do {
       (tree, h) \<leftarrow> tree_get_non_terminal_nodes k tree h;
       (tree, h) \<leftarrow> tree_get_recursion_edges k tree h;
       n \<leftarrow> rd h (root tree);
       let d = d\<lparr>tree_cur := Some tree, cur_trimming_stage := 0, trim_was_effective := False,
           cur_subtree_trimming_step := 0, finished_subtree_trimming_nodes := 0,
           total_subtree_trimming_steps := non_term_size n,
           cur_recursive_trimming_step := 0, finished_recursive_trimming_edges := 0,
           total_recursive_trimming_steps := recursion_edge_size n\<rparr> in
       Some (ucast (total_subtree_trimming_steps d + total_recursive_trimming_steps d), d, h)
     })"

text \<open>\<open>*out_buf\<close> is the value that the caller reads: None for NULL, else the block of \<open>fuzz\<close>.\<close>

definition trim_output ::
    "nat \<Rightarrow> my_mutator_t \<Rightarrow> tree_t \<Rightarrow> 'z gmheap_scheme \<Rightarrow> (u64 \<times> mem option \<times> my_mutator_t \<times> 'z gmheap_scheme) option" where
  "trim_output k d ttree h = do {
     (ttree, h) \<leftarrow> tree_to_buf k ttree h;
     (_, h) \<leftarrow> tree_get_size k ttree h;
     let d = d\<lparr>trimmed_tree := Some ttree\<rparr>; trimmed_size = data_len ttree in
     (case maybe_grow (fuzz d) trimmed_size h of (b, h) \<Rightarrow>
       (case fst b of None \<Rightarrow> Some (0, None, d\<lparr>fuzz := b\<rparr>, h)
        | Some trimmed_out \<Rightarrow> do {
            bytes \<leftarrow> (if trimmed_size = 0 then Some []
               else Option.bind (fst (data ttree)) (\<lambda>m. mem_slice m 0 (unat trimmed_size)));
            out \<leftarrow> memcpy_at trimmed_out 0 bytes;
            Some (trimmed_size, Some out, d\<lparr>fuzz := (Some out, snd b)\<rparr>, h)
          }))
   }"

text \<open>A NULL that the list gives back for want of elements is dereferenced.\<close>

definition afl_custom_trim ::
    "('z gmheap_scheme) params \<Rightarrow> nat \<Rightarrow> my_mutator_t \<Rightarrow> 'z gmheap_scheme
      \<Rightarrow> (u64 \<times> mem option \<times> my_mutator_t \<times> 'z gmheap_scheme) option" where
  "afl_custom_trim P k d h =
    (if cur_trimming_stage d = 0 then do {
       tree \<leftarrow> tree_cur d;
       let (node, l) = seq_pop (non_terminal_node_list tree); tree = tree\<lparr>non_terminal_node_list := l\<rparr> in do {
       node \<leftarrow> node;
       (ttree, h) \<leftarrow> subtree_trimming (gen_funcs P) k tree node h;
       trim_output k (d\<lparr>tree_cur := Some tree\<rparr>) ttree h
     }} else if cur_trimming_stage d = 1 then do {
       tree \<leftarrow> tree_cur d;
       let (edge, l) = seq_pop (recursion_edge_list tree); tree = tree\<lparr>recursion_edge_list := l\<rparr> in do {
       edge \<leftarrow> edge;
       (ttree, h) \<leftarrow> recursive_trimming k tree edge h;
       trim_output k (d\<lparr>tree_cur := Some tree\<rparr>) ttree h
     }} else Some (0, None, d, h))"

text \<open>
  \<open>for (uint32_t i = 0; i < n; ++i) list_pop_front(l)\<close>: the counter never reaches a bound
  of 2 to 32 or more, so that the loop does not end.
\<close>

definition seq_drop :: "u64 \<Rightarrow> 'a list option \<Rightarrow> 'a list option option" where
  "seq_drop n l = (if unat n < 2 ^ 32 then Some (((\<lambda>l. snd (seq_pop l)) ^^ unat n) l) else None)"

text \<open>The branch of a successful trim; \<open>tree\<close> is the trimmed tree, which becomes the current one.\<close>

definition trim_success ::
    "nat \<Rightarrow> my_mutator_t \<Rightarrow> 'z gmheap_scheme \<Rightarrow> (my_mutator_t \<times> 'z gmheap_scheme) option" where
  "trim_success k d h = do {
     h \<leftarrow> tree_free k (tree_cur d) h;
     tree \<leftarrow> trimmed_tree d;
     (tree, h) \<leftarrow> tree_get_non_terminal_nodes k tree h;
     let d = d\<lparr>trim_was_effective := True\<rparr> in do {
     l \<leftarrow> seq_drop (finished_subtree_trimming_nodes d) (non_terminal_node_list tree);
     let (node, l) = seq_pop l in do {
     (d, l) \<leftarrow> (case node of
         None \<Rightarrow> Some (d, l)
       | Some None \<Rightarrow> Some (d, l)
       | Some (Some a) \<Rightarrow> do {
           n \<leftarrow> rd h (Some a);
           l \<leftarrow> seq_drop (non_term_size n) l;
           Some (d\<lparr>finished_subtree_trimming_nodes := finished_subtree_trimming_nodes d + (1 + non_term_size n)\<rparr>, l)
         });
     nodes_left \<leftarrow> l;
     let d = d\<lparr>cur_subtree_trimming_step := total_subtree_trimming_steps d - of_nat (length nodes_left)\<rparr> in do {
     (tree, h) \<leftarrow> tree_get_recursion_edges k (tree\<lparr>non_terminal_node_list := Some nodes_left\<rparr>) h;
     l \<leftarrow> seq_drop (finished_recursive_trimming_edges d) (recursion_edge_list tree);
     edges_left \<leftarrow> l;
     Some (d\<lparr>tree_cur := Some (tree\<lparr>recursion_edge_list := Some edges_left\<rparr>),
             cur_recursive_trimming_step := total_recursive_trimming_steps d - of_nat (length edges_left)\<rparr>, h)
   }}}}"

definition trim_failure ::
    "nat \<Rightarrow> my_mutator_t \<Rightarrow> 'z gmheap_scheme \<Rightarrow> (my_mutator_t \<times> 'z gmheap_scheme) option" where
  "trim_failure k d h = do {
     h \<leftarrow> tree_free k (trimmed_tree d) h;
     let d = (if cur_trimming_stage d = 0
           then d\<lparr>cur_subtree_trimming_step := cur_subtree_trimming_step d + 1,
                  finished_subtree_trimming_nodes := finished_subtree_trimming_nodes d + 1\<rparr> else d);
         d = (if cur_trimming_stage d = 1
           then d\<lparr>cur_recursive_trimming_step := cur_recursive_trimming_step d + 1,
                  finished_recursive_trimming_edges := finished_recursive_trimming_edges d + 1\<rparr> else d) in
     Some (d, h)
   }"

definition next_trimming_stage :: "my_mutator_t \<Rightarrow> my_mutator_t" where
  "next_trimming_stage d =
    (let d = (if cur_trimming_stage d = 0 \<and> cur_subtree_trimming_step d \<ge> total_subtree_trimming_steps d
              then d\<lparr>cur_trimming_stage := cur_trimming_stage d + 1\<rparr> else d)
     in if cur_trimming_stage d = 1 \<and> cur_recursive_trimming_step d \<ge> total_recursive_trimming_steps d
        then d\<lparr>cur_trimming_stage := cur_trimming_stage d + 1\<rparr> else d)"

definition afl_custom_post_trim ::
    "('z gmheap_scheme) params \<Rightarrow> nat \<Rightarrow> my_mutator_t \<Rightarrow> bool \<Rightarrow> 'z gmheap_scheme
      \<Rightarrow> (32 word \<times> my_mutator_t \<times> 'z gmheap_scheme) option" where
  "afl_custom_post_trim P k d success h = do {
     (d, h) \<leftarrow> (if success then trim_success k d h else trim_failure k d h);
     let d = next_trimming_stage (d\<lparr>trimmed_tree := None\<rparr>) in do {
     (d, h) \<leftarrow> (if trim_was_effective d \<and> cur_trimming_stage d > 1 then do {
         tree \<leftarrow> tree_cur d;
         (tree, h) \<leftarrow> write_tree_to_file k tree (tree_fn_cur d) h;
         h \<leftarrow> chunk_store_add_tree (xxh3 P) (node_type_str P) k (Some tree) h;
         Some (d\<lparr>tree_cur := Some tree\<rparr>, h)
       } else Some (d, h));
     Some (ucast (cur_subtree_trimming_step d + cur_recursive_trimming_step d), d, h)
   }}"

section \<open>Fuzzing\<close>

text \<open>
  The loop that looks for the next node and rule of the rules mutation, which both callbacks
  contain.  It dereferences the current node, so it must find a pair before the list of nodes
  ends.  Every turn but the last skips a rule; \<open>m\<close> bounds the number of turns.
\<close>

primrec next_rule ::
    "(u32 \<Rightarrow> u64) \<Rightarrow> nat \<Rightarrow> 'z heap_scheme \<Rightarrow> ptr \<times> u32 \<times> ptr list option \<Rightarrow> (ptr \<times> u32 \<times> ptr list option) option" where
  "next_rule num_rules 0 h st = None"
| "next_rule num_rules (Suc m) h st = (case st of (node, rule, l) \<Rightarrow> do {
     n \<leftarrow> rd h node;
     let (node, rule, l) = (if ucast rule \<ge> num_rules (node_id n)
         then (case seq_pop l of (p, l) \<Rightarrow> (Option.bind p id, 0, l)) else (node, rule, l)) in do {
     n \<leftarrow> rd h node;
     if rule \<noteq> rule_id n then Some (node, rule, l)
     else next_rule num_rules m h (node, rule + 1, l)
   }})"

definition afl_custom_fuzz_count ::
    "('z gmheap_scheme) params \<Rightarrow> nat \<Rightarrow> nat \<Rightarrow> my_mutator_t \<Rightarrow> 'z gmheap_scheme
      \<Rightarrow> (u32 \<times> my_mutator_t \<times> 'z gmheap_scheme) option" where
  "afl_custom_fuzz_count P k m d h = (case tree_cur d of None \<Rightarrow> Some (0, d, h)
   | Some tree \<Rightarrow> do {
       (tree, h) \<leftarrow> tree_get_non_terminal_nodes k tree h;
       (tree, h) \<leftarrow> tree_get_recursion_edges k tree h;
       c \<leftarrow> rules_mutation_count (node_num_rules P) k (Some tree) h;
       edges \<leftarrow> recursion_edge_list tree;
       let d = d\<lparr>cur_fuzzing_stage := 0, cur_fuzzing_step := 0,
           total_rules_mutation_steps := c,
           total_random_mutation_steps := default_random_mutation_steps h,
           total_random_recursive_mutation_steps :=
             (if 0 < length edges then default_random_recursive_mutation_steps h else 0),
           total_splicing_mutation_steps := default_splicing_mutation_steps h\<rparr> in do {
       (d, tree) \<leftarrow> (if 0 < total_rules_mutation_steps d then
           (case seq_pop (non_terminal_node_list tree) of (p, l) \<Rightarrow> do {
              (node, rule, l) \<leftarrow> next_rule (node_num_rules P) m h (Option.bind p id, 0, l);
              Some (d\<lparr>cur_rules_mutation_node := node, cur_rules_mutation_rule_id := rule\<rparr>,
                    tree\<lparr>non_terminal_node_list := l\<rparr>)
            })
         else Some (d\<lparr>cur_fuzzing_stage := cur_fuzzing_stage d + 1, cur_fuzzing_step := 0\<rparr>, tree));
       let d = d\<lparr>tree_cur := Some tree\<rparr> in
       Some (ucast (total_rules_mutation_steps d + total_random_mutation_steps d +
               total_random_recursive_mutation_steps d + total_splicing_mutation_steps d), d, h)
     }})"

text \<open>
  The repetition of the random recursive mutation until the test case grows by at most
  \<open>2 ^ RRM_GROWTH\<close> bytes.  Nothing bounds the number of attempts in the source; \<open>m\<close> does here.
\<close>

definition RRM_GROWTH :: u32 where
  "RRM_GROWTH = 10"

primrec rrm_loop ::
    "nat \<Rightarrow> nat \<Rightarrow> tree_t \<Rightarrow> 'z gmheap_scheme \<Rightarrow> (tree_t \<times> 'z gmheap_scheme) option" where
  "rrm_loop 0 k tree h = None"
| "rrm_loop (Suc m) k tree h = do {
     (n, h) \<leftarrow> rnd_below (RRM_GROWTH + 1) h;
     (rrm, h) \<leftarrow> random_recursive_mutation k (Some tree) (ucast n) h;
     rrm_tree \<leftarrow> rrm;
     (rrm_tree, h) \<leftarrow> tree_to_buf k rrm_tree h;
     if data_len rrm_tree > push_bit (unat RRM_GROWTH) 1 + data_len tree then do {
       h \<leftarrow> tree_free k (Some rrm_tree) h;
       rrm_loop m k tree h
     } else Some (rrm_tree, h)
   }"

text \<open>
  The switch over the stages: the new tree (None for NULL), the tree the mutation started from,
  whose buffer the third stage fills, and the heap.  Inl is the default branch.
\<close>

definition mutate ::
    "('z gmheap_scheme) params \<Rightarrow> nat \<Rightarrow> nat \<Rightarrow> my_mutator_t \<Rightarrow> tree_t \<Rightarrow> 'z gmheap_scheme
      \<Rightarrow> ((unit + tree_t option \<times> tree_t \<times> 'z gmheap_scheme) result) option" where
  "mutate P k m d tree h =
    (if cur_fuzzing_stage d = 0 then do {
       (t, h) \<leftarrow> rules_mutation (gen_funcs P) (node_num_rules P) k (Some tree) (cur_rules_mutation_node d)
                 (cur_rules_mutation_rule_id d) h;
       Some (Ret (Inr (t, tree, h)))
     } else if cur_fuzzing_stage d = 1 then do {
       r \<leftarrow> random_mutation (gen_funcs P) k (Some tree) h;
       Some (case r of Exit c \<Rightarrow> Exit c | Ret (t, h) \<Rightarrow> Ret (Inr (t, tree, h)))
     } else if cur_fuzzing_stage d = 2 then do {
       (tree, h) \<leftarrow> tree_to_buf k tree h;
       (t, h) \<leftarrow> rrm_loop m k tree h;
       Some (Ret (Inr (Some t, tree, h)))
     } else if cur_fuzzing_stage d = 3 then do {
       r \<leftarrow> splicing_mutation (node_type_str P) k (Some tree) h;
       Some (case r of Exit c \<Rightarrow> Exit c | Ret (t, h) \<Rightarrow> Ret (Inr (t, tree, h)))
     } else Some (Ret (Inl ())))"

text \<open>The update of the internal status after a mutation.\<close>

definition update_rules_stage ::
    "('z gmheap_scheme) params \<Rightarrow> nat \<Rightarrow> my_mutator_t \<Rightarrow> 'z gmheap_scheme \<Rightarrow> my_mutator_t option" where
  "update_rules_stage P m d h =
    (if cur_fuzzing_stage d = 0 then
       if cur_fuzzing_step d \<ge> total_rules_mutation_steps d
       then Some (d\<lparr>cur_fuzzing_stage := cur_fuzzing_stage d + 1, cur_fuzzing_step := 0\<rparr>)
       else do {
         tree \<leftarrow> tree_cur d;
         (node, rule, l) \<leftarrow> next_rule (node_num_rules P) m h
             (cur_rules_mutation_node d, cur_rules_mutation_rule_id d + 1, non_terminal_node_list tree);
         Some (d\<lparr>cur_rules_mutation_node := node, cur_rules_mutation_rule_id := rule,
                 tree_cur := Some (tree\<lparr>non_terminal_node_list := l\<rparr>)\<rparr>)
       }
     else Some d)"

definition leave_stage :: "u8 \<Rightarrow> u64 \<Rightarrow> my_mutator_t \<Rightarrow> my_mutator_t" where
  "leave_stage stage steps d =
    (if cur_fuzzing_stage d = stage \<and> cur_fuzzing_step d \<ge> steps
     then d\<lparr>cur_fuzzing_stage := cur_fuzzing_stage d + 1, cur_fuzzing_step := 0\<rparr> else d)"

definition update_other_stages :: "my_mutator_t \<Rightarrow> my_mutator_t" where
  "update_other_stages d =
     leave_stage 3 (total_splicing_mutation_steps d)
       (leave_stage 2 (total_random_recursive_mutation_steps d)
         (leave_stage 1 (total_random_mutation_steps d) d))"

text \<open>The test case is written to the reused buffer, cut to \<open>max_size\<close>.\<close>

definition fuzz_output ::
    "nat \<Rightarrow> my_mutator_t \<Rightarrow> tree_t \<Rightarrow> u64 \<Rightarrow> 'z gmheap_scheme
      \<Rightarrow> (u64 \<times> mem option \<times> my_mutator_t \<times> 'z gmheap_scheme) option" where
  "fuzz_output k d tree max_size h = do {
     (tree, h) \<leftarrow> tree_to_buf k tree h;
     (_, h) \<leftarrow> tree_get_size k tree h;
     let d = d\<lparr>mutated_tree := Some tree\<rparr>;
         mutated_size = (if data_len tree \<le> max_size then data_len tree else max_size) in
     (case maybe_grow (fuzz d) mutated_size h of (b, h) \<Rightarrow>
       (case fst b of None \<Rightarrow> Some (0, None, d\<lparr>fuzz := b\<rparr>, h)
        | Some mutated_out \<Rightarrow> do {
            bytes \<leftarrow> (if mutated_size = 0 then Some []
               else Option.bind (fst (data tree)) (\<lambda>m. mem_slice m 0 (unat mutated_size)));
            out \<leftarrow> memcpy_at mutated_out 0 bytes;
            Some (mutated_size, Some out, d\<lparr>fuzz := (Some out, snd b)\<rparr>, h)
          }))
   }"

text \<open>The tree to mutate: the current one, or a new one when there is none.\<close>

definition fuzz_tree ::
    "('z gmheap_scheme) params \<Rightarrow> nat \<Rightarrow> my_mutator_t \<Rightarrow> 'z gmheap_scheme \<Rightarrow> (tree_t \<times> 'z gmheap_scheme) option" where
  "fuzz_tree P k d h = (case tree_cur d of Some tree \<Rightarrow> Some (tree, h)
     | None \<Rightarrow> do {
         (tree, h) \<leftarrow> gen_init P 500 h;
         (tree, h) \<leftarrow> tree_get_non_terminal_nodes k tree h;
         (_, h) \<leftarrow> tree_get_size k tree h;
         Some (tree, h)
       })"

definition afl_custom_fuzz ::
    "('z gmheap_scheme) params \<Rightarrow> nat \<Rightarrow> nat \<Rightarrow> my_mutator_t \<Rightarrow> mem option \<Rightarrow> u64 \<Rightarrow> 'z gmheap_scheme
      \<Rightarrow> ((u64 \<times> mem option \<times> my_mutator_t \<times> 'z gmheap_scheme) result) option" where
  "afl_custom_fuzz P k m d out_buf max_size h = do {
     h \<leftarrow> tree_free k (mutated_tree d) h;
     let d = d\<lparr>mutated_tree := None\<rparr> in do {
     (tree, h) \<leftarrow> fuzz_tree P k d h;
     r \<leftarrow> mutate P k m d tree h;
     case r of
       Exit c \<Rightarrow> Some (Exit c)
     | Ret (Inl _) \<Rightarrow> Some (Ret (0, out_buf, d, h))
     | Ret (Inr (mut, tree, h)) \<Rightarrow>
         let d = (if tree_cur d = None then d else d\<lparr>tree_cur := Some tree\<rparr>) in
         (case mut of None \<Rightarrow> Some (Ret (0, out_buf, d, h))
          | Some tree \<Rightarrow> do {
              d \<leftarrow> update_rules_stage P m (d\<lparr>cur_fuzzing_step := cur_fuzzing_step d + 1\<rparr>) h;
              r \<leftarrow> fuzz_output k (update_other_stages d) tree max_size h;
              Some (Ret r)
            })
   }}"

section \<open>The generator program\<close>

text \<open>Grammar-Mutator/src/grammar\_generator.c.  \<open>atoi\<close> cuts the result of \<open>strtol\<close> to an int.\<close>

definition atoi :: "string \<Rightarrow> 32 word" where
  "atoi s = of_int (strtol s)"

fun dec_string :: "nat \<Rightarrow> string" where
  "dec_string n = (if n < 10 then [char_of (48 + n)] else dec_string (n div 10) @ [char_of (48 + n mod 10)])"

declare dec_string.simps [simp del]

text \<open>\<open>create_directory\<close> of a pointer: the system calls fail for NULL.\<close>

definition create_directory_ptr :: "path option \<Rightarrow> 'z fsheap_scheme \<Rightarrow> bool \<times> 'z fsheap_scheme" where
  "create_directory_ptr path h = (case path of None \<Rightarrow> (False, h) | Some p \<Rightarrow> create_directory p h)"

definition generate_one ::
    "('z gmheap_scheme) params \<Rightarrow> nat \<Rightarrow> 32 word \<Rightarrow> path \<Rightarrow> path \<Rightarrow> nat \<Rightarrow> 'z gmheap_scheme
      \<Rightarrow> (('z gmheap_scheme) result) option" where
  "generate_one P k max_len out_dir tree_out_dir i h = do {
     (tree, h) \<leftarrow> gen_init P max_len h;
     r \<leftarrow> dump_tree_to_test_case k tree (snprintf PATH_MAX (out_dir @ ''/'' @ dec_string i)) h;
     case r of Exit c \<Rightarrow> Some (Exit c)
     | Ret (tree, h) \<Rightarrow> do {
         (tree, h) \<leftarrow> write_tree_to_file k tree (snprintf PATH_MAX (tree_out_dir @ ''/'' @ dec_string i)) h;
         h \<leftarrow> tree_free k (Some tree) h;
         Some (Ret h)
       }
   }"

text \<open>\<open>argv[argc]\<close> is NULL; \<open>now\<close> is the time.  The result is the exit status.\<close>

definition generator_main ::
    "('z gmheap_scheme) params \<Rightarrow> nat \<Rightarrow> int \<Rightarrow> string list \<Rightarrow> 'z gmheap_scheme \<Rightarrow> (int \<times> 'z gmheap_scheme option) option" where
  "generator_main P k now argv h =
    (if length argv < 4 then Some (0, Some h)
     else let max_num = atoi (argv ! 1); max_len = atoi (argv ! 2); out_dir = argv ! 3;
              tree_out_dir = (if 4 < length argv then Some (argv ! 4) else None);
              seed = (if 5 < length argv then atoi (argv ! 5) else of_int now);
              h = h\<lparr>random_seed := random_set_seed (xxh64 P) (scast seed)\<rparr> in
       (case create_directory out_dir h of
          (False, h) \<Rightarrow> Some (1, Some h)
        | (True, h) \<Rightarrow>
          (case create_directory_ptr tree_out_dir h of
             (False, h) \<Rightarrow> Some (1, Some h)
           | (True, h) \<Rightarrow> do {
               trees \<leftarrow> tree_out_dir;
               r \<leftarrow> loopM (\<lambda>i h. do {
                   r \<leftarrow> generate_one P k max_len out_dir trees i h;
                   Some (case r of Exit c \<Rightarrow> Inl c | Ret h \<Rightarrow> Inr h)
                 }) [0..<nat (sint max_num)] h;
               Some (case r of Inl c \<Rightarrow> (c, None) | Inr h \<Rightarrow> (0, Some h))
             })))"

end
