(* ===== verification/Mutator_Stages.thy ===== *)
theory Mutator_Stages
  imports Grammar_Mutator
begin

text \<open>
  The fuzzing stages as a state machine: a run of the fuzzer calls \<open>afl_custom_fuzz\<close> again
  and again, and \<open>afl_custom_queue_new_entry\<close> after the calls whose test case is interesting.
  The counters of the state follow a schedule that depends on the four totals only.
\<close>

section \<open>The schedule\<close>

definition schedule :: "nat \<Rightarrow> nat \<Rightarrow> nat \<Rightarrow> nat \<Rightarrow> nat \<Rightarrow> nat \<times> nat" where
  "schedule A B C D i =
    (if i < A then (0, i)
     else if i < A + B then (1, i - A)
     else if i < A + B + C then (2, i - A - B)
     else if i < A + B + C + D then (3, i - A - B - C)
     else (4, 0))"

definition counters :: "my_mutator_t \<Rightarrow> nat \<times> nat" where
  "counters d = (unat (cur_fuzzing_stage d), unat (cur_fuzzing_step d))"

definition totals :: "my_mutator_t \<Rightarrow> nat \<times> nat \<times> nat \<times> nat" where
  "totals d = (unat (total_rules_mutation_steps d), unat (total_random_mutation_steps d),
     unat (total_random_recursive_mutation_steps d), unat (total_splicing_mutation_steps d))"

section \<open>One call\<close>

lemma unat_eq: "unat v = unat w \<longleftrightarrow> v = w"
  by (auto intro: unsigned_word_eqI)

lemma totals_simps [simp]:
  "totals (d\<lparr>mutated_tree := a\<rparr>) = totals d" "totals (d\<lparr>fuzz := b\<rparr>) = totals d" "totals (d\<lparr>tree_cur := c\<rparr>) = totals d"
  "totals (d\<lparr>cur_fuzzing_step := s\<rparr>) = totals d" "totals (d\<lparr>cur_fuzzing_stage := u\<rparr>) = totals d"
  "totals (d\<lparr>cur_rules_mutation_node := p\<rparr>) = totals d" "totals (d\<lparr>cur_rules_mutation_rule_id := r\<rparr>) = totals d"
  "totals (d\<lparr>new_tree_fn := f\<rparr>) = totals d"
  by (simp_all add: totals_def)

lemma totals_update_other [simp]: "totals (update_other_stages d) = totals d"
  by (simp add: update_other_stages_def leave_stage_def)

text \<open>The counters after \<open>++cur_fuzzing_step\<close> and the cascade over the stages.\<close>

definition next_counters :: "nat \<times> nat \<times> nat \<times> nat \<Rightarrow> nat \<times> nat \<Rightarrow> nat \<times> nat" where
  "next_counters T c = (case (T, c) of ((A, B, C, D), (g, s)) \<Rightarrow>
     let c = (g, Suc s);
         leave = (\<lambda>stage total (g, s). if g = stage \<and> total \<le> s then (Suc g, 0) else (g, s))
     in leave 3 D (leave 2 C (leave 1 B (leave (0::nat) A c))))"

lemma next_schedule:
  assumes "i < A + B + C + D" and "0 < A \<or> 0 < B"
  shows "next_counters (A, B, C, D) (schedule A B C D i) = schedule A B C D (Suc i)"
  using assms by (auto simp: next_counters_def schedule_def)

lemma leave_stage_counters:
  assumes "unat stage < 4"
  shows "counters (leave_stage stage n d) =
    (case counters d of (g, s) \<Rightarrow> if g = unat stage \<and> unat n \<le> s then (Suc g, 0) else (g, s))"
proof -
  have "unat (stage + 1) = Suc (unat stage)" using assms unat_add_lem [of stage 1] by simp
  then show ?thesis by (auto simp: leave_stage_def counters_def word_le_nat_alt unat_eq)
qed

lemma update_counters:
  assumes "update_rules_stage P m (d\<lparr>cur_fuzzing_step := cur_fuzzing_step d + 1\<rparr>) h = Some d1"
    and "unat (cur_fuzzing_step d) + 1 < 2 ^ 64"
  shows "counters (update_other_stages d1) = next_counters (totals d) (counters d)" "totals d1 = totals d"
proof -
  have s: "unat (cur_fuzzing_step d + 1) = Suc (unat (cur_fuzzing_step d))"
    using assms(2) unat_add_lem [of "cur_fuzzing_step d" 1] by simp
  have g0: "cur_fuzzing_stage d = 0 \<longleftrightarrow> unat (cur_fuzzing_stage d) = 0" by (simp add: unat_eq_0)
  have 1: "counters d1 = (case counters d of (g, s) \<Rightarrow>
      if g = 0 \<and> unat (total_rules_mutation_steps d) \<le> Suc s then (1, 0) else (g, Suc s)) \<and> totals d1 = totals d"
    using assms(1) s g0
    by (auto simp: update_rules_stage_def counters_def word_le_nat_alt bind_eq_Some_conv split: if_splits prod.splits)
  then show t: "totals d1 = totals d" ..
  have n: "total_random_mutation_steps d1 = total_random_mutation_steps d"
    "total_random_recursive_mutation_steps d1 = total_random_recursive_mutation_steps d"
    "total_splicing_mutation_steps d1 = total_splicing_mutation_steps d"
    using t by (simp_all add: totals_def unat_eq)
  show "counters (update_other_stages d1) = next_counters (totals d) (counters d)"
    unfolding update_other_stages_def
    by (simp add: leave_stage_counters conjunct1 [OF 1] n next_counters_def totals_def Let_def split: prod.splits)
qed

text \<open>A call that made a test case has gone through the update of the counters.\<close>

lemma fuzz_output_state:
  assumes "fuzz_output k d tree ms h = Some (n, out, d', h')"
  shows "\<exists>a b. d' = d\<lparr>mutated_tree := a, fuzz := b\<rparr>"
proof -
  obtain tree1 h1 h2 x where 1: "tree_to_buf k tree h = Some (tree1, h1)" "tree_get_size k tree1 h1 = Some (x, h2)"
    using assms by (auto simp: fuzz_output_def bind_eq_Some_conv)
  let ?n = "if data_len tree1 \<le> ms then data_len tree1 else ms"
  obtain b h3 where 2: "maybe_grow (fuzz d) ?n h2 = (b, h3)" by (metis surj_pair)
  show ?thesis
  proof (cases "fst b")
    case None
    then have "d' = d\<lparr>mutated_tree := Some tree1, fuzz := b\<rparr>"
      using assms 1 2 by (simp add: fuzz_output_def Let_def)
    then show ?thesis by blast
  next
    case (Some m)
    then obtain w where "d' = d\<lparr>mutated_tree := Some tree1, fuzz := (w, snd b)\<rparr>"
      using assms 1 2 by (auto simp: fuzz_output_def Let_def bind_eq_Some_conv split del: if_split)
    then show ?thesis by blast
  qed
qed

lemma mutate_stage:
  assumes "mutate P k m d tree h = Some (Ret (Inr x))"
  shows "cur_fuzzing_stage d < 4"
proof -
  have "unat (cur_fuzzing_stage d) \<in> {0, 1, 2, 3}"
    using assms by (auto simp: mutate_def unat_eq [symmetric] split: if_splits)
  then show ?thesis by (auto simp: word_less_nat_alt)
qed

lemma fuzz_call:
  assumes "afl_custom_fuzz P k m d ob ms h = Some (Ret (n, out, d', h'))" and "mutated_tree d' \<noteq> None"
  shows "cur_fuzzing_stage d < 4 \<and> (\<exists>c h0 d1 a b. update_rules_stage P m
      (d\<lparr>mutated_tree := None, tree_cur := c, cur_fuzzing_step := cur_fuzzing_step d + 1\<rparr>) h0 = Some d1
    \<and> d' = (update_other_stages d1)\<lparr>mutated_tree := a, fuzz := b\<rparr>)"
proof -
  let ?d = "d\<lparr>mutated_tree := None\<rparr>"
  obtain h1 tree h2 r where 1: "tree_free k (mutated_tree d) h = Some h1" "fuzz_tree P k ?d h1 = Some (tree, h2)"
    "mutate P k m ?d tree h2 = Some r"
    using assms(1) unfolding afl_custom_fuzz_def Let_def by (clarsimp simp: bind_eq_Some_conv)
  note run = assms(1) [unfolded afl_custom_fuzz_def 1(1) bind.bind_lunit Let_def 1(2) prod.case 1(3)]
  obtain mut tree2 h3 where r: "r = Ret (Inr (mut, tree2, h3))"
    using run assms(2) by (cases r) (auto split: sum.splits)
  define c where "c = (if tree_cur ?d = None then tree_cur d else Some tree2)"
  have d: "(if tree_cur ?d = None then ?d else ?d\<lparr>tree_cur := Some tree2\<rparr>) = d\<lparr>mutated_tree := None, tree_cur := c\<rparr>"
    by (cases d) (simp add: c_def)
  obtain t where t: "mut = Some t"
    using run assms(2) unfolding r by (cases mut) (auto split: if_splits)
  obtain d1 where 2: "update_rules_stage P m (d\<lparr>mutated_tree := None, tree_cur := c, cur_fuzzing_step := cur_fuzzing_step d + 1\<rparr>) h3 = Some d1"
    "fuzz_output k (update_other_stages d1) t ms h3 = Some (n, out, d', h')"
    using run unfolding r t result.case sum.case prod.case option.case d by (auto simp: bind_eq_Some_conv)
  have "cur_fuzzing_stage ?d < 4" using 1(3) unfolding r by (rule mutate_stage)
  then have "cur_fuzzing_stage d < 4" by simp
  then show ?thesis using 2(1) fuzz_output_state [OF 2(2)] by blast
qed

lemma fuzz_call_counters:
  assumes "afl_custom_fuzz P k m d ob ms h = Some (Ret (n, out, d', h'))" and "mutated_tree d' \<noteq> None"
    and "unat (cur_fuzzing_step d) + 1 < 2 ^ 64"
  shows "counters d' = next_counters (totals d) (counters d)" "totals d' = totals d" "cur_fuzzing_stage d < 4"
proof -
  obtain c h0 d1 a b where 1: "update_rules_stage P m
      (d\<lparr>mutated_tree := None, tree_cur := c, cur_fuzzing_step := cur_fuzzing_step d + 1\<rparr>) h0 = Some d1"
    "d' = (update_other_stages d1)\<lparr>mutated_tree := a, fuzz := b\<rparr>"
    using fuzz_call [OF assms(1,2)] by blast
  define e where "e = d\<lparr>mutated_tree := None, tree_cur := c\<rparr>"
  have e: "update_rules_stage P m (e\<lparr>cur_fuzzing_step := cur_fuzzing_step e + 1\<rparr>) h0 = Some d1"
    "unat (cur_fuzzing_step e) + 1 < 2 ^ 64" "totals e = totals d" "counters e = counters d"
    using 1(1) assms(3) by (simp_all add: e_def counters_def)
  show "counters d' = next_counters (totals d) (counters d)" "totals d' = totals d"
    using update_counters [OF e(1,2)] e(3,4) by (simp_all add: 1(2) counters_def)
  show "cur_fuzzing_stage d < 4" using fuzz_call [OF assms(1,2)] by blast
qed

section \<open>Runs\<close>

text \<open>
  \<open>fuzz_run P k m s i s'\<close>: from \<open>s\<close> the fuzzer has got \<open>i\<close> test cases and the mutator is in
  the state \<open>s'\<close>.  A test case that is kept is handed back with its name before the next call.
\<close>

inductive fuzz_run ::
    "('z gmheap_scheme) params \<Rightarrow> nat \<Rightarrow> nat \<Rightarrow> my_mutator_t \<times> 'z gmheap_scheme \<Rightarrow> nat
      \<Rightarrow> my_mutator_t \<times> 'z gmheap_scheme \<Rightarrow> bool" for P k m s where
  start: "fuzz_run P k m s 0 s"
| call: "fuzz_run P k m s i (d, h) \<Longrightarrow> afl_custom_fuzz P k m d ob ms h = Some (Ret (n, out, d', h')) \<Longrightarrow>
    mutated_tree d' \<noteq> None \<Longrightarrow> fuzz_run P k m s (Suc i) (d', h')"
| entry: "fuzz_run P k m s i (d, h) \<Longrightarrow> mutated_tree d \<noteq> None \<Longrightarrow>
    afl_custom_queue_new_entry P k d fn (Some orig) h = Some (Ret (d', h')) \<Longrightarrow> fuzz_run P k m s i (d', h')"

lemma new_entry_counters:
  assumes "afl_custom_queue_new_entry P k d fn (Some orig) h = Some (Ret (d', h'))" and "mutated_tree d \<noteq> None"
  shows "counters d' = counters d" "totals d' = totals d"
  using assms
  by (auto simp: afl_custom_queue_new_entry_def Let_def bind_eq_Some_conv counters_def totals_def split: option.splits)

lemma fuzz_run_schedule:
  assumes "fuzz_run P k m s i s'" and "counters (fst s) = schedule A B C D i0" and "i0 \<le> A + B + C + D"
    and "totals (fst s) = (A, B, C, D)" and "0 < A \<or> 0 < B"
  shows "counters (fst s') = schedule A B C D (i0 + i) \<and> totals (fst s') = (A, B, C, D) \<and> i0 + i \<le> A + B + C + D"
  using assms(1)
proof (induction rule: fuzz_run.induct)
  case start
  show ?case using assms(2-4) by simp
next
  case (call i d h ob ms n out d' h')
  then have c: "counters d = schedule A B C D (i0 + i)" "totals d = (A, B, C, D)" by simp_all
  have lt: "i0 + i < A + B + C + D"
  proof (rule ccontr)
    assume "\<not> ?thesis"
    then have "unat (cur_fuzzing_stage d) = 4" using c(1) by (simp add: counters_def schedule_def)
    then show False using fuzz_call [OF call.hyps(2,3)] by (simp add: word_less_nat_alt)
  qed
  have "unat (cur_fuzzing_step d) < A \<or> unat (cur_fuzzing_step d) < B \<or> unat (cur_fuzzing_step d) < C \<or> unat (cur_fuzzing_step d) < D"
    using c(1) lt by (auto simp: counters_def schedule_def split: if_splits)
  moreover have "A < 2 ^ 64" "B < 2 ^ 64" "C < 2 ^ 64" "D < 2 ^ 64" using c(2) by (auto simp: totals_def)
  ultimately have "unat (cur_fuzzing_step d) + 1 < 2 ^ 64" by linarith
  note f = fuzz_call_counters [OF call.hyps(2,3) this]
  show ?case using f c lt next_schedule [OF lt assms(5)] by simp
next
  case (entry i d h fn orig d' h')
  then show ?case using new_entry_counters [OF entry.hyps(3,2)] by simp
qed

end
