(* ===== verification/Rules_Stage.thy ===== *)
theory Rules_Stage
  imports Grammar_Mutator Tree_Lists
begin

text \<open>
  The deterministic stage of the mutator: the pairs of a nonterminal node and another rule of
  its type, in the order in which \<open>next_rule\<close> visits them, and the count that
  \<open>rules_mutation_count\<close> computes.
\<close>

section \<open>Pairs of nodes and rules\<close>

definition rules_from :: "nat \<Rightarrow> u32 \<Rightarrow> u64 \<Rightarrow> u32 list" where
  "rules_from j r num = filter (\<lambda>q. q \<noteq> r) (map of_nat [j..<unat num])"

fun rule_pairs :: "(u32 \<Rightarrow> u64) \<Rightarrow> nat tree \<Rightarrow> (ptr \<times> u32) list" where
  "rule_pairs num Null = []"
| "rule_pairs num (Node a i r v ts) =
     (if i = 0 then [] else map (Pair (Some a)) (rules_from 0 r (num i)) @ concat (map (rule_pairs num) ts))"

text \<open>Every nonterminal has a rule of its type, and the numbers of rules fit 32 bits.\<close>

fun ruled :: "(u32 \<Rightarrow> u64) \<Rightarrow> 'a tree \<Rightarrow> bool" where
  "ruled num Null = True"
| "ruled num (Node a i r v ts) \<longleftrightarrow>
     (i \<noteq> 0 \<longrightarrow> unat r < unat (num i) \<and> unat (num i) < 2 ^ 32 \<and> (\<forall>t\<in>set ts. ruled num t))"

lemma rules_from_Nil [simp]: "unat num \<le> j \<Longrightarrow> rules_from j r num = []"
  by (simp add: rules_from_def)

lemma rules_from_Cons:
  "j < unat num \<Longrightarrow> rules_from j r num = (if of_nat j = r then rules_from (Suc j) r num else of_nat j # rules_from (Suc j) r num)"
  by (simp add: rules_from_def upt_conv_Cons)

lemma length_rules_from:
  assumes "unat r < unat num" and "unat num < 2 ^ 32"
  shows "length (rules_from 0 r num) = unat num - 1"
proof -
  have inj: "inj_on (of_nat :: nat \<Rightarrow> u32) (set [0..<unat num])"
  proof (rule inj_onI)
    fix x y assume "x \<in> set [0..<unat num]" "y \<in> set [0..<unat num]" "(of_nat x :: u32) = of_nat y"
    moreover from this have "x < 2 ^ 32" "y < 2 ^ 32" using assms(2) by simp_all
    ultimately show "x = y" using unat_of_nat_u32 [of x] unat_of_nat_u32 [of y] by metis
  qed
  then have d: "distinct (map (of_nat :: nat \<Rightarrow> u32) [0..<unat num])" by (simp add: distinct_map)
  have m: "r \<in> set (map (of_nat :: nat \<Rightarrow> u32) [0..<unat num])"
    using assms(1) by (auto intro!: image_eqI [of _ _ "unat r"])
  have "rules_from 0 r num = remove1 r (map of_nat [0..<unat num])"
    using distinct_remove1_removeAll [OF d] by (simp add: rules_from_def removeAll_filter_not_eq)
      (metis (mono_tags, lifting) filter_cong)
  then show ?thesis using m by (simp add: length_remove1)
qed

text \<open>The same pairs, read from the heap along a list of nodes.\<close>

definition node_pairs :: "(u32 \<Rightarrow> u64) \<Rightarrow> 'z heap_scheme \<Rightarrow> ptr \<Rightarrow> (ptr \<times> u32) list" where
  "node_pairs num h p = (case rd h p of None \<Rightarrow> [] | Some n \<Rightarrow> map (Pair p) (rules_from 0 (rule_id n) (num (node_id n))))"

lemma node_pairs_nonterms:
  "view h t \<Longrightarrow> concat (map (node_pairs num h) (map Some (nonterms t))) = rule_pairs num t"
proof (induction t)
  case (Node a i r v ts)
  then obtain n where n: "nodes h a = Some n" by auto
  have nv: "node_id n = i \<and> rule_id n = r \<and> (\<forall>t\<in>set ts. view h t)"
    using view_node Node.prems n by blast
  have "concat (map (node_pairs num h) (map Some (concat (map nonterms ts)))) = concat (map (rule_pairs num) ts)"
    using Node.IH nv by (induction ts) auto
  moreover have "node_pairs num h (Some a) = map (Pair (Some a)) (rules_from 0 r (num i))"
    using nv n by (simp add: node_pairs_def rd_Some)
  ultimately show ?case by simp
qed simp

section \<open>The count\<close>

lemma node_rules_mutation_count_view:
  fixes h :: "'z heap_scheme"
  assumes "view h t" and "height t < k" and "ruled num t"
  shows "node_rules_mutation_count num k (root_ptr t) h = Some (of_nat (length (rule_pairs num t)))"
  using assms
proof (induction k arbitrary: t)
  case (Suc k)
  show ?case
  proof (cases t)
    case (Node a i r v ts)
    then obtain n where n: "nodes h a = Some n" using Suc.prems(1) by auto
    have nv: "node_id n = i \<and> kids_ok n ts \<and> (\<forall>t\<in>set ts. view h t)"
      using view_node Suc.prems(1) n Node by blast
    show ?thesis
    proof (cases "i = 0")
      case False
      then have r: "unat r < unat (num i)" "unat (num i) < 2 ^ 32" "\<forall>t\<in>set ts. ruled num t"
        using Suc.prems(3) Node by auto
      have "foldM (\<lambda>i ret. do { s \<leftarrow> sub_at h (Some a) i; c \<leftarrow> node_rules_mutation_count num k s h; Some (ret + c) })
          [0..<j] w = Some (w + of_nat (length (concat (map (rule_pairs num) (take j ts)))))"
        if "j \<le> length ts" for j and w :: u64
        using that
      proof (induction j)
        case (Suc j)
        then have j: "j < length ts" by simp
        then have "node_rules_mutation_count num k (root_ptr (ts ! j)) h = Some (of_nat (length (rule_pairs num (ts ! j))))"
          using nv r(3) Suc.prems Node height_kid [of "ts ! j" ts a i r v] \<open>height t < Suc k\<close>
          by (intro \<open>\<And>t. view h t \<Longrightarrow> height t < k \<Longrightarrow> ruled num t \<Longrightarrow> _\<close>) auto
        then show ?case
          using Suc.IH j kids_ok_sub_at [OF n, of ts j] nv by (simp add: foldM_append take_Suc_conv_app_nth)
      qed simp
      from this [of "length ts"] have loop: "foldM (\<lambda>i ret. do { s \<leftarrow> sub_at h (Some a) i;
            c \<leftarrow> node_rules_mutation_count num k s h; Some (ret + c) }) [0..<length ts] w =
          Some (w + of_nat (length (concat (map (rule_pairs num) ts))))" for w by simp
      have "unat (subnode_count n) = length ts" using nv by (simp add: kids_ok_def)
      moreover have "num i - 1 = of_nat (unat (num i) - 1)"
        using r(1) by (simp add: of_nat_diff)
      moreover have "num i \<noteq> 0" using r(1) by auto
      ultimately show ?thesis
        using n nv False loop length_rules_from [OF r(1,2)] by (simp add: Node rd_Some)
    qed (use n nv Node in \<open>simp add: rd_Some\<close>)
  qed simp
qed simp

section \<open>Finding the next pair\<close>

definition good_node :: "(u32 \<Rightarrow> u64) \<Rightarrow> 'z heap_scheme \<Rightarrow> ptr \<Rightarrow> bool" where
  "good_node num h p \<longleftrightarrow> (\<exists>n. rd h p = Some n \<and> unat (rule_id n) < unat (num (node_id n)) \<and> unat (num (node_id n)) < 2 ^ 32)"

definition pairs_left :: "(u32 \<Rightarrow> u64) \<Rightarrow> 'z heap_scheme \<Rightarrow> ptr \<Rightarrow> u32 \<Rightarrow> ptr list \<Rightarrow> (ptr \<times> u32) list" where
  "pairs_left num h node rule xs =
     (case rd h node of None \<Rightarrow> [] | Some n \<Rightarrow> map (Pair node) (rules_from (unat rule) (rule_id n) (num (node_id n))))
     @ concat (map (node_pairs num h) xs)"

lemma pairs_left_start: "pairs_left num h p 0 xs = concat (map (node_pairs num h) (p # xs))"
  by (cases "rd h p") (simp_all add: pairs_left_def node_pairs_def)

lemma pairs_left_step:
  assumes "rd h p = Some n" and "unat rule < unat (num (node_id n))" and "unat (num (node_id n)) < 2 ^ 32"
  shows "pairs_left num h p rule xs =
    (if rule = rule_id n then pairs_left num h p (rule + 1) xs else (p, rule) # pairs_left num h p (rule + 1) xs)"
proof -
  have "unat rule + 1 < 2 ^ 32" using assms(2,3) by simp
  then have "unat (rule + 1) = Suc (unat rule)"
    using unat_add_lem [of rule 1] by simp
  then show ?thesis using assms(1) rules_from_Cons [OF assms(2), of "rule_id n"]
    by (cases "rule = rule_id n") (simp_all add: pairs_left_def)
qed

lemma next_rule_settled:
  assumes "good_node num h node" and "\<forall>p\<in>set xs. good_node num h p" and "pairs_left num h node rule xs \<noteq> []"
    and "length xs < m" and "\<And>n. rd h node = Some n \<Longrightarrow> rule = rule_id n \<Longrightarrow> unat (num (node_id n)) \<le> unat rule"
  shows "\<exists>node' rule' xs'. next_rule num m h (node, rule, Some xs) = Some (node', rule', Some xs')
    \<and> pairs_left num h node rule xs = (node', rule') # pairs_left num h node' (rule' + 1) xs'
    \<and> good_node num h node' \<and> set xs' \<subseteq> set xs"
  using assms
proof (induction xs arbitrary: node rule m)
  case Nil
  then obtain n where n: "rd h node = Some n" "unat (num (node_id n)) < 2 ^ 32" by (auto simp: good_node_def)
  with Nil have lt: "unat rule < unat (num (node_id n))"
    by (cases "unat rule < unat (num (node_id n))") (auto simp: pairs_left_def)
  then have "rule \<noteq> rule_id n" using Nil.prems(5) [OF n(1)] by auto
  moreover have "\<not> ucast rule \<ge> num (node_id n)" using lt by (simp add: word_le_nat_alt)
  moreover obtain m' where "m = Suc m'" using Nil.prems(4) by (cases m) auto
  ultimately show ?case using n pairs_left_step [of h node n rule num, OF n(1) lt n(2)] Nil.prems(1) by simp
next
  case (Cons p xs)
  obtain n where n: "rd h node = Some n" "unat (num (node_id n)) < 2 ^ 32" using Cons.prems(1) by (auto simp: good_node_def)
  obtain m' where m: "m = Suc m'" "length xs < m'" using Cons.prems(4) by (cases m) auto
  show ?case
  proof (cases "unat rule < unat (num (node_id n))")
    case True
    then have "rule \<noteq> rule_id n" using Cons.prems(5) [OF n(1)] by auto
    moreover have "\<not> ucast rule \<ge> num (node_id n)" using True by (simp add: word_le_nat_alt)
    ultimately show ?thesis using n pairs_left_step [of h node n rule num, OF n(1) True n(2)] Cons.prems(1) m(1) by simp
  next
    case False
    obtain q where q: "rd h p = Some q" "unat (rule_id q) < unat (num (node_id q))" "unat (num (node_id q)) < 2 ^ 32"
      using Cons.prems(2) by (auto simp: good_node_def)
    have left: "pairs_left num h node rule (p # xs) = pairs_left num h p 0 xs"
      unfolding pairs_left_start using False n by (simp add: pairs_left_def)
    have ge: "ucast rule \<ge> num (node_id n)" using False by (simp add: word_le_nat_alt)
    have z: "unat (0 :: u32) < unat (num (node_id q))" using q(2) by simp
    note st = pairs_left_step [of h p q 0 num, OF q(1) z q(3), of xs]
    show ?thesis
    proof (cases "0 = rule_id q")
      case False
      then show ?thesis using n q ge m(1) left st Cons.prems(2) by (auto simp: seq_pop_def)
    next
      case True
      have st': "pairs_left num h p 0 xs = pairs_left num h p 1 xs" using st True by simp
      have "\<exists>node' rule' xs'. next_rule num m' h (p, 1, Some xs) = Some (node', rule', Some xs')
        \<and> pairs_left num h p 1 xs = (node', rule') # pairs_left num h node' (rule' + 1) xs'
        \<and> good_node num h node' \<and> set xs' \<subseteq> set xs"
      proof (rule Cons.IH)
        show "pairs_left num h p 1 xs \<noteq> []" using Cons.prems(3) left st' by simp
        fix n assume "rd h p = Some n" "1 = rule_id n"
        then show "unat (num (node_id n)) \<le> unat (1 :: u32)" using True q(1) by simp
      qed (use Cons.prems m in auto)
      moreover have "next_rule num m h (node, rule, Some (p # xs)) = next_rule num m' h (p, 1, Some xs)"
        using n q ge m(1) True by (simp add: seq_pop_def)
      ultimately show ?thesis using left st' by auto
    qed
  qed
qed

text \<open>From any state the loop finds the first pair that is left, in one turn more than there are nodes.\<close>

lemma next_rule_finds:
  assumes "good_node num h node" and "\<forall>p\<in>set xs. good_node num h p" and "pairs_left num h node rule xs \<noteq> []"
    and "length xs + 1 < m"
  shows "\<exists>node' rule' xs'. next_rule num m h (node, rule, Some xs) = Some (node', rule', Some xs')
    \<and> pairs_left num h node rule xs = (node', rule') # pairs_left num h node' (rule' + 1) xs'
    \<and> good_node num h node' \<and> set xs' \<subseteq> set xs"
proof -
  obtain n where n: "rd h node = Some n" "unat (num (node_id n)) < 2 ^ 32" using assms(1) by (auto simp: good_node_def)
  show ?thesis
  proof (cases "rule = rule_id n \<and> unat rule < unat (num (node_id n))")
    case False
    show ?thesis by (rule next_rule_settled [OF assms(1-3)]) (use assms(4) False n in auto)
  next
    case True
    obtain m' where m: "m = Suc m'" "length xs < m'" using assms(4) by (cases m) auto
    have st: "pairs_left num h node rule xs = pairs_left num h node (rule + 1) xs"
      using pairs_left_step [of h node n rule num, OF n(1) conjunct2 [OF True] n(2), of xs] True by simp
    have "rule + 1 \<noteq> rule_id n" using True by simp
    then have "\<exists>node' rule' xs'. next_rule num m' h (node, rule + 1, Some xs) = Some (node', rule', Some xs')
      \<and> pairs_left num h node (rule + 1) xs = (node', rule') # pairs_left num h node' (rule' + 1) xs'
      \<and> good_node num h node' \<and> set xs' \<subseteq> set xs"
      by (intro next_rule_settled [OF assms(1,2)]) (use assms(3) st m n in auto)
    moreover have "next_rule num m h (node, rule, Some xs) = next_rule num m' h (node, rule + 1, Some xs)"
    proof -
      have "\<not> ucast rule \<ge> num (node_id n)" using conjunct2 [OF True] unfolding word_le_nat_alt by simp
      then show ?thesis using True n m(1) by simp
    qed
    ultimately show ?thesis using st by simp
  qed
qed

lemma good_nonterms:
  "view h t \<Longrightarrow> ruled num t \<Longrightarrow> \<forall>p\<in>set (map Some (nonterms t)). good_node num h p"
proof (induction t)
  case (Node a i r v ts)
  then obtain n where n: "nodes h a = Some n" by auto
  have nv: "node_id n = i \<and> rule_id n = r \<and> (\<forall>t\<in>set ts. view h t)"
    using view_node Node.prems(1) n by blast
  show ?case using Node nv n by (auto simp: good_node_def rd_Some split: if_splits)
qed simp

text \<open>The pairs belong to nonterminals of the tree and name another rule of them.\<close>

lemma rule_pairs_sound:
  "(p, q) \<in> set (rule_pairs num t) \<Longrightarrow> ruled num t \<Longrightarrow>
    \<exists>s\<in>set (subtrees t). p = root_ptr s \<and> s \<noteq> Null \<and> tid s \<noteq> 0 \<and> ucast q < num (tid s) \<and> q \<noteq> trule s"
proof (induction t)
  case (Node a i r v ts)
  have i: "i \<noteq> 0" "unat (num i) < 2 ^ 32" "\<forall>t\<in>set ts. ruled num t" using Node.prems by (auto split: if_splits)
  consider "p = Some a" "q \<in> set (rules_from 0 r (num i))" | t where "t \<in> set ts" "(p, q) \<in> set (rule_pairs num t)"
    using Node.prems(1) i(1) by auto
  then show ?case
  proof cases
    case 1
    then obtain j where j: "j < unat (num i)" "q = of_nat j" "q \<noteq> r" by (auto simp: rules_from_def)
    then have "ucast q < num i" using i(2) by (simp add: word_less_nat_alt unat_of_nat_u32)
    then show ?thesis using 1 j(3) i(1) by (intro bexI [of _ "Node a i r v ts"]) auto
  next
    case 2
    then show ?thesis using Node.IH i(3) by fastforce
  qed
qed simp

section \<open>The stage\<close>

text \<open>The mutator is about to mutate with the \<open>j\<close>-th pair.\<close>

definition rules_at :: "(u32 \<Rightarrow> u64) \<Rightarrow> 'z heap_scheme \<Rightarrow> nat tree \<Rightarrow> my_mutator_t \<Rightarrow> nat \<Rightarrow> bool" where
  "rules_at num h t d j \<longleftrightarrow> j < length (rule_pairs num t)
     \<and> (cur_rules_mutation_node d, cur_rules_mutation_rule_id d) = rule_pairs num t ! j
     \<and> (\<exists>tree xs. tree_cur d = Some tree \<and> root tree = root_ptr t \<and> non_terminal_node_list tree = Some xs
          \<and> pairs_left num h (cur_rules_mutation_node d) (cur_rules_mutation_rule_id d + 1) xs = drop (Suc j) (rule_pairs num t)
          \<and> good_node num h (cur_rules_mutation_node d) \<and> set xs \<subseteq> Some ` set (nonterms t) \<and> length xs \<le> nt_size t)"

lemma next_rule_length:
  "next_rule num m h (node, rule, Some xs) = Some (node', rule', Some xs') \<Longrightarrow> length xs' \<le> length xs"
proof (induction m arbitrary: node rule xs)
  case (Suc m)
  show ?case
  proof (cases xs)
    case Nil
    then show ?thesis using Suc by (fastforce simp: seq_pop_def bind_eq_Some_conv split: if_splits)
  next
    case (Cons p ps)
    then show ?thesis using Suc by (fastforce simp: seq_pop_def bind_eq_Some_conv split: if_splits)
  qed
qed simp

lemma next_rule_node:
  "next_rule num m h (node, rule, Some xs) = Some (node', rule', Some xs') \<Longrightarrow> node' \<in> insert node (set xs)"
proof (induction m arbitrary: node rule xs)
  case (Suc m)
  show ?case
  proof (cases xs)
    case Nil
    then show ?thesis using Suc by (fastforce simp: seq_pop_def bind_eq_Some_conv split: if_splits)
  next
    case (Cons p ps)
    then show ?thesis using Suc by (fastforce simp: seq_pop_def bind_eq_Some_conv split: if_splits)
  qed
qed simp

lemma good_node_cong: "rd h' p = rd h p \<Longrightarrow> good_node num h' p = good_node num h p"
  by (simp add: good_node_def)

lemma pairs_left_cong:
  assumes "rd h' p = rd h p" and "\<And>q. q \<in> set xs \<Longrightarrow> rd h' q = rd h q"
  shows "pairs_left num h' p rule xs = pairs_left num h p rule xs"
  using assms by (simp add: pairs_left_def node_pairs_def cong: map_cong)

lemma fuzz_count_ok:
  fixes h :: "'z gmheap_scheme"
  assumes v: "view h t" "mem_ok h" "height t < k" and r: "ruled (node_num_rules P) t"
    and d: "tree_cur d = Some tree" "root tree = root_ptr t"
    and n: "length (rule_pairs (node_num_rules P) t) < 2 ^ 64" and m: "nt_size t + 1 < m"
  shows "\<exists>d'. afl_custom_fuzz_count P k m d h =
      Some (ucast (total_rules_mutation_steps d' + total_random_mutation_steps d' +
        total_random_recursive_mutation_steps d' + total_splicing_mutation_steps d'), d', h)
    \<and> total_rules_mutation_steps d' = of_nat (length (rule_pairs (node_num_rules P) t))
    \<and> total_random_mutation_steps d' = default_random_mutation_steps h
    \<and> total_random_recursive_mutation_steps d' = (if re_size t = 0 then 0 else default_random_recursive_mutation_steps h)
    \<and> total_splicing_mutation_steps d' = default_splicing_mutation_steps h
    \<and> cur_fuzzing_step d' = 0 \<and> mutated_tree d' = mutated_tree d \<and> fuzz d' = fuzz d
    \<and> (\<exists>tree'. tree_cur d' = Some tree' \<and> root tree' = root_ptr t \<and> data tree' = data tree)
    \<and> (if rule_pairs (node_num_rules P) t = [] then cur_fuzzing_stage d' = 1
       else cur_fuzzing_stage d' = 0 \<and> rules_at (node_num_rules P) h t d' 0)"
proof -
  let ?num = "node_num_rules P" and ?ps = "rule_pairs (node_num_rules P) t"
  define tree1 where "tree1 = tree\<lparr>non_terminal_node_list := Some (map Some (nonterms t))\<rparr>"
  have 1: "tree_get_non_terminal_nodes k tree h = Some (tree1, h)"
    unfolding tree1_def by (rule tree_get_non_terminal_nodes_view [OF v d(2)])
  have rt1: "root tree1 = root_ptr t" using d(2) by (simp add: tree1_def)
  define tree2 where "tree2 = tree1\<lparr>recursion_edge_list := Some (rec_edges t)\<rparr>"
  have 2: "tree_get_recursion_edges k tree1 h = Some (tree2, h)"
    unfolding tree2_def by (rule tree_get_recursion_edges_view [OF v rt1])
  have 3: "rules_mutation_count ?num k (Some tree2) h = Some (of_nat (length ?ps))"
    using node_rules_mutation_count_view [OF v(1,3) r] d(2)
    by (simp add: rules_mutation_count_def tree2_def tree1_def)
  have e: "0 < length (rec_edges t) \<longleftrightarrow> re_size t \<noteq> 0" using length_rec_edges [OF v(1)] by simp
  have z: "(0 :: u64) < of_nat (length ?ps) \<longleftrightarrow> ?ps \<noteq> []"
    using unat_of_nat_u64 [OF n] by (simp add: word_less_nat_alt)
  define d1 where "d1 = d\<lparr>cur_fuzzing_stage := 0, cur_fuzzing_step := 0,
           total_rules_mutation_steps := of_nat (length ?ps),
           total_random_mutation_steps := default_random_mutation_steps h,
           total_random_recursive_mutation_steps := (if 0 < length (rec_edges t) then default_random_recursive_mutation_steps h else 0),
           total_splicing_mutation_steps := default_splicing_mutation_steps h\<rparr>"
  have fields: "recursion_edge_list tree2 = Some (rec_edges t)" "root tree2 = root_ptr t" "data tree2 = data tree"
    "non_terminal_node_list tree2 = Some (map Some (nonterms t))"
    using d(2) by (simp_all add: tree2_def tree1_def)
  show ?thesis
  proof (cases "?ps = []")
    case True
    then have "\<not> 0 < total_rules_mutation_steps d1" using z by (simp add: d1_def)
    define d2 where "d2 = d1\<lparr>cur_fuzzing_stage := 1, cur_fuzzing_step := 0, tree_cur := Some tree2\<rparr>"
    from \<open>\<not> _\<close> have "afl_custom_fuzz_count P k m d h = Some (ucast (total_rules_mutation_steps d2 + total_random_mutation_steps d2 +
        total_random_recursive_mutation_steps d2 + total_splicing_mutation_steps d2), d2, h)"
      unfolding afl_custom_fuzz_count_def d(1) option.case 1 2 3 bind.bind_lunit prod.case fields(1)
      by (simp add: Let_def d1_def d2_def)
    then show ?thesis using True fields e by (intro exI [of _ d2]) (simp add: d1_def d2_def)
  next
    case False
    obtain p xs where xs: "map Some (nonterms t) = p # xs"
      using False node_pairs_nonterms [OF v(1), of ?num] by (cases "map Some (nonterms t)") auto
    note good = good_nonterms [OF v(1) r, unfolded xs]
    have left: "pairs_left ?num h p 0 xs = ?ps"
      unfolding pairs_left_start xs [symmetric] by (rule node_pairs_nonterms [OF v(1)])
    have lx: "length (p # xs) = nt_size t" using arg_cong [OF xs, of length] by (simp add: length_nonterms)
    obtain node rule ys where nr: "next_rule ?num m h (p, 0, Some xs) = Some (node, rule, Some ys)"
      "?ps = (node, rule) # pairs_left ?num h node (rule + 1) ys" "good_node ?num h node" "set ys \<subseteq> set xs"
      using next_rule_finds [of ?num h p xs 0 m] good left False lx m by auto
    define d2 where "d2 = d1\<lparr>cur_rules_mutation_node := node, cur_rules_mutation_rule_id := rule,
      tree_cur := Some (tree2\<lparr>non_terminal_node_list := Some ys\<rparr>)\<rparr>"
    have "0 < total_rules_mutation_steps d1" using z False by (simp add: d1_def)
    then have "afl_custom_fuzz_count P k m d h = Some (ucast (total_rules_mutation_steps d2 + total_random_mutation_steps d2 +
        total_random_recursive_mutation_steps d2 + total_splicing_mutation_steps d2), d2, h)"
      unfolding afl_custom_fuzz_count_def d(1) option.case 1 2 3 bind.bind_lunit prod.case fields(1)
      using fields(4) xs nr(1) by (simp add: Let_def d1_def d2_def seq_pop_def)
    moreover have "rules_at ?num h t d2 0"
    proof -
      have "length ys \<le> length xs" by (rule next_rule_length [OF nr(1)])
      moreover have "set (p # xs) = Some ` set (nonterms t)" using xs by (metis list.set_map)
      ultimately show ?thesis
        using False nr(2-4) lx fields(2) by (auto simp: rules_at_def d2_def hd_conv_nth)
    qed
    ultimately show ?thesis using False fields e by (intro exI [of _ d2]) (simp add: d1_def d2_def)
  qed
qed

text \<open>After a mutation the stage moves on to the next pair, or is left after the last one.\<close>

lemma update_rules_stage_ok:
  fixes h h' :: "'z gmheap_scheme"
  assumes at: "rules_at (node_num_rules P) h t d j" and good: "\<forall>p\<in>Some ` set (nonterms t). good_node (node_num_rules P) h p"
    and same: "\<And>p. p \<in> Some ` set (nonterms t) \<Longrightarrow> rd h' p = rd h p" "rd h' (cur_rules_mutation_node d) = rd h (cur_rules_mutation_node d)"
    and st: "cur_fuzzing_stage d = 0" "cur_fuzzing_step d = of_nat (Suc j)"
    and tot: "total_rules_mutation_steps d = of_nat (length (rule_pairs (node_num_rules P) t))"
    and n: "length (rule_pairs (node_num_rules P) t) < 2 ^ 64" and m: "nt_size t + 1 < m"
  shows "\<exists>d'. update_rules_stage P m d h' = Some d' \<and>
    (if Suc j < length (rule_pairs (node_num_rules P) t)
     then \<exists>node rule tree. d' = d\<lparr>cur_rules_mutation_node := node, cur_rules_mutation_rule_id := rule, tree_cur := Some tree\<rparr>
        \<and> rules_at (node_num_rules P) h t d' (Suc j)
     else d' = d\<lparr>cur_fuzzing_stage := 1, cur_fuzzing_step := 0\<rparr>)"
proof -
  let ?num = "node_num_rules P" and ?ps = "rule_pairs (node_num_rules P) t"
  let ?node = "cur_rules_mutation_node d" and ?rule = "cur_rules_mutation_rule_id d"
  obtain tree xs where a: "j < length ?ps" "tree_cur d = Some tree" "root tree = root_ptr t"
    "non_terminal_node_list tree = Some xs" "pairs_left ?num h ?node (?rule + 1) xs = drop (Suc j) ?ps"
    "good_node ?num h ?node" "set xs \<subseteq> Some ` set (nonterms t)" "length xs \<le> nt_size t"
    using at unfolding rules_at_def by blast
  have le: "cur_fuzzing_step d \<ge> total_rules_mutation_steps d \<longleftrightarrow> length ?ps \<le> Suc j"
    using n a(1) unfolding st tot word_le_nat_alt by (simp add: unat_of_nat_u64 del: of_nat_Suc)
  show ?thesis
  proof (cases "Suc j < length ?ps")
    case False
    then show ?thesis using le st(1) by (simp add: update_rules_stage_def)
  next
    case True
    have left': "pairs_left ?num h' ?node (?rule + 1) xs = drop (Suc j) ?ps"
      using pairs_left_cong [OF same(2), of xs ?num "?rule + 1"] same(1) a(5,7) by (metis subsetD)
    have "\<exists>node' rule' xs'. next_rule ?num m h' (?node, ?rule + 1, Some xs) = Some (node', rule', Some xs')
      \<and> pairs_left ?num h' ?node (?rule + 1) xs = (node', rule') # pairs_left ?num h' node' (rule' + 1) xs'
      \<and> good_node ?num h' node' \<and> set xs' \<subseteq> set xs"
    proof (rule next_rule_finds)
      show "good_node ?num h' ?node" using a(6) good_node_cong [OF same(2)] by simp
      show "\<forall>p\<in>set xs. good_node ?num h' p" using a(7) good good_node_cong [OF same(1)] by blast
      show "pairs_left ?num h' ?node (?rule + 1) xs \<noteq> []" using left' True by simp
      show "length xs + 1 < m" using a(8) m by simp
    qed
    then obtain node rule ys where nr: "next_rule ?num m h' (?node, ?rule + 1, Some xs) = Some (node, rule, Some ys)"
      "drop (Suc j) ?ps = (node, rule) # pairs_left ?num h' node (rule + 1) ys"
      "good_node ?num h' node" "set ys \<subseteq> set xs" unfolding left' by blast
    define d' where "d' = d\<lparr>cur_rules_mutation_node := node, cur_rules_mutation_rule_id := rule,
      tree_cur := Some (tree\<lparr>non_terminal_node_list := Some ys\<rparr>)\<rparr>"
    have hd: "?ps ! Suc j = (node, rule)" using nr(2) True by (metis nth_via_drop)
    have tl: "pairs_left ?num h' node (rule + 1) ys = drop (Suc (Suc j)) ?ps"
      using nr(2) by (metis drop_Suc tl_drop list.sel(3))
    have "(node, rule) \<in> set ?ps" using hd True nth_mem by metis
    have rdn: "rd h' node = rd h node"
    proof -
      have "node \<in> insert ?node (set xs)" using nr(1) by (rule next_rule_node)
      then consider "node = ?node" | "node \<in> Some ` set (nonterms t)" using a(7) by blast
      then show ?thesis by cases (simp_all add: same)
    qed
    have "rules_at ?num h t d' (Suc j)"
      unfolding rules_at_def
    proof (intro conjI exI [of _ "tree\<lparr>non_terminal_node_list := Some ys\<rparr>"] exI [of _ ys])
      show "pairs_left ?num h (cur_rules_mutation_node d') (cur_rules_mutation_rule_id d' + 1) ys = drop (Suc (Suc j)) ?ps"
      proof -
        have "rd h' q = rd h q" if "q \<in> set ys" for q using that same(1) nr(4) a(7) by blast
        then show ?thesis using tl pairs_left_cong [OF rdn, of ys ?num "rule + 1"] by (simp add: d'_def)
      qed
      show "good_node ?num h (cur_rules_mutation_node d')" using nr(3) good_node_cong [OF rdn] by (simp add: d'_def)
      show "length ys \<le> nt_size t" using next_rule_length [OF nr(1)] a(8) by simp
    qed (use True hd a(3,7) nr(4) in \<open>auto simp: d'_def\<close>)
    moreover have "update_rules_stage P m d h' = Some d'"
      using le True st(1) a(2,4) nr(1) by (simp add: update_rules_stage_def d'_def not_le)
    ultimately show ?thesis using True by (auto simp: d'_def)
  qed
qed

end
