(* ===== verification/Chunk_Inv.thy ===== *)
theory Chunk_Inv
  imports Chunk_Store
begin

text \<open>
  The invariant of the chunk store.  A store with content c (a map from the addresses of the
  kept nodes to the trees they stand for) has exactly these nodes in its two maps; every
  kept node still shows its tree, and all nodes below it are kept nodes too.  Subtrees are
  shared, so the parent pointers of kept nodes mean nothing.
\<close>

section \<open>The invariant\<close>

definition dag :: "'z heap_scheme \<Rightarrow> nat set \<Rightarrow> nat \<Rightarrow> unit tree \<Rightarrow> bool" where
  "dag h D a e \<longleftrightarrow> (\<exists>t. view h t \<and> root_ptr t = Some a \<and> erase t = e \<and> set (anns t) \<subseteq> D)"

text \<open>The kept nodes whose type has the name \<open>key\<close>.\<close>

definition chunks_of :: "(u32 \<Rightarrow> key) \<Rightarrow> (nat \<Rightarrow> unit tree option) \<Rightarrow> key \<Rightarrow> ptr set" where
  "chunks_of ty c key = Some ` {a. case c a of None \<Rightarrow> False | Some e \<Rightarrow> ty (tid e) = key}"

definition maps_ok ::
    "(u8 list \<Rightarrow> u64) \<Rightarrow> (u32 \<Rightarrow> key) \<Rightarrow> 'z cheap_scheme \<Rightarrow> (nat \<Rightarrow> unit tree option) \<Rightarrow> bool" where
  "maps_ok digest ty h c \<longleftrightarrow> map_ok (seen_chunks h) \<and> map_ok (chunk_store h)
     \<and> (\<forall>key p. map_get (seen_chunks h) key = Some (Some p) \<longleftrightarrow>
          (\<exists>a e. p = Some a \<and> c a = Some e \<and> key = tree_key digest e))
     \<and> (\<forall>key. (map_get (chunk_store h) key = Some None \<and> chunks_of ty c key = {})
          \<or> (\<exists>xs. map_get (chunk_store h) key = Some (Some (Some xs)) \<and> distinct xs \<and> xs \<noteq> []
               \<and> set xs = chunks_of ty c key))"

text \<open>
  \<open>P\<close> is the set of the kept nodes that are still being worked on: their subnodes may not be
  in the store yet.
\<close>

definition store_inv ::
    "(u8 list \<Rightarrow> u64) \<Rightarrow> (u32 \<Rightarrow> key) \<Rightarrow> unit tree set \<Rightarrow> 'z cheap_scheme \<Rightarrow> (nat \<Rightarrow> unit tree option)
      \<Rightarrow> nat set \<Rightarrow> bool" where
  "store_inv digest ty U h c P \<longleftrightarrow> heap_ok h \<and> mem_ok h \<and> maps_ok digest ty h c
     \<and> ran c \<subseteq> U \<and> P \<subseteq> dom c \<and> (\<forall>a\<in>dom c - P. dag h (dom c - P) a (the (c a)))"

text \<open>
  What taking a subtree in may change: its own nodes \<open>S\<close>, parent pointers of kept nodes
  \<open>D\<close>, and the link from the parent.
\<close>

definition aside :: "'z cheap_scheme \<Rightarrow> 'z cheap_scheme \<Rightarrow> bool" where
  "aside h h' \<longleftrightarrow> brk h' = brk h \<and> random_seed h' = random_seed h \<and> max_tree_len h' = max_tree_len h
     \<and> cheap.more h' = cheap.more h"

definition took ::
    "nat set \<Rightarrow> nat set \<Rightarrow> ptr \<Rightarrow> nat \<Rightarrow> nat \<Rightarrow> 'z cheap_scheme \<Rightarrow> 'z cheap_scheme \<Rightarrow> bool" where
  "took S D par j b h h' \<longleftrightarrow> aside h h'
     \<and> (\<forall>x. x \<notin> S \<and> x \<notin> D \<longrightarrow>
          nodes h' x = (if par = Some x then map_option (swing j (Some b)) (nodes h x) else nodes h x))
     \<and> (\<forall>x\<in>D. \<forall>n. nodes h x = Some n \<longrightarrow> (\<exists>m. nodes h' x = Some m \<and> strip m = strip n))"

lemma dag_mono: "dag h D a e \<Longrightarrow> D \<subseteq> E \<Longrightarrow> dag h E a e"
  unfolding dag_def by blast

lemma dag_frame:
  assumes "dag h D a e"
    and "\<And>x n. x \<in> D \<Longrightarrow> nodes h x = Some n \<Longrightarrow> \<exists>m. nodes h' x = Some m \<and> strip m = strip n"
  shows "dag h' D a e"
proof -
  obtain t where t: "view h t" "root_ptr t = Some a" "erase t = e" "set (anns t) \<subseteq> D"
    using assms(1) by (auto simp: dag_def)
  have "view h' t" by (rule view_frame [OF t(1)]) (use t(4) assms(2) in blast)
  then show ?thesis using t by (auto simp: dag_def)
qed

lemma dag_root: "dag h D a e \<Longrightarrow> a \<in> D \<and> e \<noteq> Null"
  by (auto simp: dag_def dest: root_ptr_in_anns)

section \<open>The maps\<close>

lemma set_seen_ok:
  assumes "mem_ok h" and "map_ok (seen_chunks h)" and "length (entries (seen_chunks h)) < 2 ^ 30"
  shows "\<exists>m. set_seen key p h = Some (h\<lparr>seen_chunks := m\<rparr>) \<and> map_ok m
    \<and> (\<forall>l. map_get m l = (if l = key then Some (Some p) else map_get (seen_chunks h) l))
    \<and> length (entries m) \<le> Suc (length (entries (seen_chunks h)))"
proof -
  from hm.set_law [OF assms(2,3), of key p h] assms(1) obtain m where
    "map_set (seen_chunks h) key p h = Some (True, m, h)" "map_ok m"
    "length (entries m) \<le> Suc (length (entries (seen_chunks h)))"
    "\<forall>l. map_get m l = (if l = key then Some (Some p) else map_get (seen_chunks h) l)" by auto
  then show ?thesis by (intro exI [of _ m]) (simp add: set_seen_def)
qed

lemma set_chunks_ok:
  assumes "mem_ok h" and "map_ok (chunk_store h)" and "length (entries (chunk_store h)) < 2 ^ 30"
  shows "\<exists>m. set_chunks key p h = Some (h\<lparr>chunk_store := m\<rparr>) \<and> map_ok m
    \<and> (\<forall>l. map_get m l = (if l = key then Some (Some p) else map_get (chunk_store h) l))
    \<and> length (entries m) \<le> Suc (length (entries (chunk_store h)))"
proof -
  from hm.set_law [OF assms(2,3), of key p h] assms(1) obtain m where
    "map_set (chunk_store h) key p h = Some (True, m, h)" "map_ok m"
    "length (entries m) \<le> Suc (length (entries (chunk_store h)))"
    "\<forall>l. map_get m l = (if l = key then Some (Some p) else map_get (chunk_store h) l)" by auto
  then show ?thesis by (intro exI [of _ m]) (simp add: set_chunks_def)
qed

text \<open>Entering a new node: the part of \<open>chunk_store_take_node\<close> before the loop.\<close>

definition register ::
    "(u32 \<Rightarrow> key) \<Rightarrow> key \<Rightarrow> node_t \<Rightarrow> ptr \<Rightarrow> 'z cheap_scheme \<Rightarrow> 'z cheap_scheme option" where
  "register node_type_str node_hash n node h = do {
     h \<leftarrow> set_seen node_hash node h;
     p_node_list \<leftarrow> map_get (chunk_store h) (node_type_str (node_id n));
     h \<leftarrow> (if p_node_list = None then (case seq_create h of (l, h) \<Rightarrow> set_chunks (node_type_str (node_id n)) l h)
            else Some h);
     p_node_list \<leftarrow> map_get (chunk_store h) (node_type_str (node_id n));
     node_list \<leftarrow> p_node_list;
     (case seq_append node_list node h of (l, h) \<Rightarrow> set_chunks (node_type_str (node_id n)) l h)
   }"

definition room :: "'z cheap_scheme \<Rightarrow> nat \<Rightarrow> bool" where
  "room h n \<longleftrightarrow> length (entries (seen_chunks h)) + n < 2 ^ 30 \<and> length (entries (chunk_store h)) + n < 2 ^ 30"

lemma chunks_of_new:
  "c a = None \<Longrightarrow> chunks_of ty (c(a \<mapsto> e)) key = (if ty (tid e) = key then insert (Some a) (chunks_of ty c key) else chunks_of ty c key)"
  by (auto simp: chunks_of_def split: option.splits if_splits)

text \<open>The number of entries grows by at most one: the list of a type is created once.\<close>

lemma entries_set_existing:
  assumes "map_ok m" and "map_get m k = Some (Some w)" and "mem_ok s" and "length (entries m) < 2 ^ 30"
  shows "\<exists>m'. map_set m k v s = Some (True, m', s) \<and> length (entries m') = length (entries m)"
proof -
  have bo: "buckets_ok m" and nn: "unat (nnodes m) = length (entries m)"
    using assms(1) by (auto simp: map_ok_def)
  from assms(2) map_get_assoc [OF bo, of k] have "k \<in> mkey ` set (entries m)"
    using assoc_eq_None [of m k] by auto
  then obtain bs i j where *: "buckets m = Some bs" "map_getref m k = Some (Some (i, j))" "i < length bs"
    "j < length (bs ! i)" "mkey (bs ! i ! j) = k" using map_getref_ok [OF bo, of k] by blast
  define m' where "m' = m\<lparr>buckets := Some (bs[i := (bs ! i)[j := (bs ! i ! j)\<lparr>mvalue := v\<rparr>]])\<rparr>"
  have "map_ok m'" by (rule map_replace_ok(1) [OF assms(1) *(1,3-5) m'_def])
  then have "length (entries m') = length (entries m)" using nn by (simp add: map_ok_def m'_def)
  moreover have "map_set m k v s = Some (True, m', s)" using * by (simp add: map_set_def m'_def)
  ultimately show ?thesis by blast
qed

lemma register_ok:
  assumes inv: "maps_ok digest ty h c" and mem: "mem_ok h" and new: "c a = None"
    and seen: "map_get (seen_chunks h) (tree_key digest e) = Some None"
    and id: "node_id n = tid e" and rm: "room h 1"
  shows "\<exists>ms mc. register ty (tree_key digest e) n (Some a) h = Some (h\<lparr>seen_chunks := ms, chunk_store := mc\<rparr>)
    \<and> maps_ok digest ty (h\<lparr>seen_chunks := ms, chunk_store := mc\<rparr>) (c(a \<mapsto> e))
    \<and> length (entries ms) \<le> Suc (length (entries (seen_chunks h)))
    \<and> length (entries mc) \<le> Suc (length (entries (chunk_store h)))"
proof -
  let ?k = "tree_key digest e" and ?t = "ty (tid e)"
  have mo: "map_ok (seen_chunks h)" "map_ok (chunk_store h)" using inv by (auto simp: maps_ok_def)
  have len: "length (entries (seen_chunks h)) < 2 ^ 30" "length (entries (chunk_store h)) < 2 ^ 30"
    using rm by (auto simp: room_def)
  obtain ms where ms: "set_seen ?k (Some a) h = Some (h\<lparr>seen_chunks := ms\<rparr>)" "map_ok ms"
    "\<And>l. map_get ms l = (if l = ?k then Some (Some (Some a)) else map_get (seen_chunks h) l)"
    "length (entries ms) \<le> Suc (length (entries (seen_chunks h)))"
    using set_seen_ok [OF mem mo(1) len(1), of ?k "Some a"] by auto
  let ?h1 = "h\<lparr>seen_chunks := ms\<rparr>"
  have m1: "mem_ok ?h1" using mem by simp
  have seen': "map_get ms key = Some (Some p) \<longleftrightarrow>
      (\<exists>b e'. p = Some b \<and> (c(a \<mapsto> e)) b = Some e' \<and> key = tree_key digest e')" for key p
  proof -
    have old: "map_get (seen_chunks h) l = Some (Some q) \<longleftrightarrow> (\<exists>b e'. q = Some b \<and> c b = Some e' \<and> l = tree_key digest e')" for l q
      using inv by (simp add: maps_ok_def)
    show ?thesis
    proof (cases "key = ?k")
      case True
      have no: "\<not> (c b = Some e' \<and> key = tree_key digest e')" for b e'
        using old [of key "Some b"] seen True by auto
      have "map_get ms key = Some (Some (Some a))" using ms(3) [of key] True by simp
      then have "map_get ms key = Some (Some p) \<longleftrightarrow> p = Some a" by auto
      also have "\<dots> \<longleftrightarrow> (\<exists>b e'. p = Some b \<and> (c(a \<mapsto> e)) b = Some e' \<and> key = tree_key digest e')"
      proof
        assume "p = Some a"
        then show "\<exists>b e'. p = Some b \<and> (c(a \<mapsto> e)) b = Some e' \<and> key = tree_key digest e'"
          using True by (intro exI [of _ a] exI [of _ e]) simp
      next
        assume "\<exists>b e'. p = Some b \<and> (c(a \<mapsto> e)) b = Some e' \<and> key = tree_key digest e'"
        then obtain b e' where "p = Some b" "(c(a \<mapsto> e)) b = Some e'" "key = tree_key digest e'" by blast
        with no [of b e'] show "p = Some a" by (cases "b = a") simp_all
      qed
      finally show ?thesis .
    next
      case False
      then have "map_get ms key = map_get (seen_chunks h) key" using ms(3) [of key] by simp
      moreover have "(c(a \<mapsto> e)) b = Some e' \<and> key = tree_key digest e' \<longleftrightarrow> c b = Some e' \<and> key = tree_key digest e'" for b e'
        using False new by (cases "b = a") auto
      ultimately show ?thesis using old [of key p] by (simp only:)
    qed
  qed
  have old: "(map_get (chunk_store h) key = Some None \<and> chunks_of ty c key = {})
          \<or> (\<exists>xs. map_get (chunk_store h) key = Some (Some (Some xs)) \<and> distinct xs \<and> xs \<noteq> []
               \<and> set xs = chunks_of ty c key)" for key
    using inv by (simp add: maps_ok_def)
  have na: "Some a \<notin> chunks_of ty c key" for key using new by (auto simp: chunks_of_def)
  have "\<exists>xs mc. register ty ?k n (Some a) h = Some (?h1\<lparr>chunk_store := mc\<rparr>) \<and> map_ok mc
      \<and> (\<forall>l. map_get mc l = (if l = ?t then Some (Some (Some (xs @ [Some a]))) else map_get (chunk_store h) l))
      \<and> distinct xs \<and> set xs = chunks_of ty c ?t
      \<and> length (entries mc) \<le> Suc (length (entries (chunk_store h)))"
  proof (cases "map_get (chunk_store h) ?t = Some None")
    case True
    then have ch: "chunks_of ty c ?t = {}" using old [of ?t] by auto
    obtain m2 where m2: "set_chunks ?t (Some []) ?h1 = Some (?h1\<lparr>chunk_store := m2\<rparr>)" "map_ok m2"
      "\<And>l. map_get m2 l = (if l = ?t then Some (Some (Some [])) else map_get (chunk_store h) l)"
      "length (entries m2) \<le> Suc (length (entries (chunk_store h)))"
      using set_chunks_ok [OF m1, of ?t "Some []"] mo(2) len(2) by auto
    let ?h2 = "?h1\<lparr>chunk_store := m2\<rparr>"
    have l2: "length (entries m2) < 2 ^ 30" using m2(4) rm by (simp add: room_def)
    obtain m3 where m3: "set_chunks ?t (Some [Some a]) ?h2 = Some (?h2\<lparr>chunk_store := m3\<rparr>)" "map_ok m3"
      "\<And>l. map_get m3 l = (if l = ?t then Some (Some (Some [Some a])) else map_get m2 l)"
      using set_chunks_ok [of ?h2 ?t "Some [Some a]"] mem m2(2) l2 by auto
    have "length (entries m3) = length (entries m2)"
    proof -
      have "map_get m2 ?t = Some (Some (Some []))" using m2(3) by simp
      from entries_set_existing [OF m2(2) this _ l2, of ?h2 "Some [Some a]"] mem obtain m' where
        "map_set m2 ?t (Some [Some a]) ?h2 = Some (True, m', ?h2)" "length (entries m') = length (entries m2)"
        by auto
      moreover from this have "?h2\<lparr>chunk_store := m'\<rparr> = ?h2\<lparr>chunk_store := m3\<rparr>"
        using m3(1) by (simp add: set_chunks_def)
      then have "chunk_store (?h2\<lparr>chunk_store := m'\<rparr>) = chunk_store (?h2\<lparr>chunk_store := m3\<rparr>)" by (rule arg_cong)
      ultimately show ?thesis by simp
    qed
    moreover have "register ty ?k n (Some a) h = Some (?h1\<lparr>chunk_store := m3\<rparr>)"
      using ms(1) True m2(1,3) m3(1) mem id by (simp add: register_def seq_create_def seq_append_def)
    ultimately show ?thesis using m3(2,3) m2(3,4) ch by (intro exI [of _ "[]"] exI [of _ m3]) auto
  next
    case False
    then obtain xs where xs: "map_get (chunk_store h) ?t = Some (Some (Some xs))" "distinct xs"
      "set xs = chunks_of ty c ?t" using old [of ?t] by auto
    obtain m3 where m3: "set_chunks ?t (Some (xs @ [Some a])) ?h1 = Some (?h1\<lparr>chunk_store := m3\<rparr>)" "map_ok m3"
      "\<And>l. map_get m3 l = (if l = ?t then Some (Some (Some (xs @ [Some a]))) else map_get (chunk_store h) l)"
      "length (entries m3) \<le> Suc (length (entries (chunk_store h)))"
      using set_chunks_ok [OF m1, of ?t "Some (xs @ [Some a])"] mo(2) len(2) by auto
    have "register ty ?k n (Some a) h = Some (?h1\<lparr>chunk_store := m3\<rparr>)"
      using ms(1) xs(1) m3(1) mem id by (simp add: register_def seq_append_def)
    then show ?thesis using m3 xs by (intro exI [of _ xs] exI [of _ m3]) auto
  qed
  then obtain xs mc where mc: "register ty ?k n (Some a) h = Some (?h1\<lparr>chunk_store := mc\<rparr>)" "map_ok mc"
    "\<And>l. map_get mc l = (if l = ?t then Some (Some (Some (xs @ [Some a]))) else map_get (chunk_store h) l)"
    "distinct xs" "set xs = chunks_of ty c ?t"
    "length (entries mc) \<le> Suc (length (entries (chunk_store h)))" by blast
  have "maps_ok digest ty (?h1\<lparr>chunk_store := mc\<rparr>) (c(a \<mapsto> e))"
    unfolding maps_ok_def
  proof (intro conjI allI)
    fix key
    show "(map_get (chunk_store (?h1\<lparr>chunk_store := mc\<rparr>)) key = Some None \<and> chunks_of ty (c(a \<mapsto> e)) key = {})
      \<or> (\<exists>xs. map_get (chunk_store (?h1\<lparr>chunk_store := mc\<rparr>)) key = Some (Some (Some xs)) \<and> distinct xs
            \<and> xs \<noteq> [] \<and> set xs = chunks_of ty (c(a \<mapsto> e)) key)"
    proof (cases "key = ?t")
      case True
      then show ?thesis
        using mc(3) [of key] mc(4,5) na [of ?t] by (intro disjI2 exI [of _ "xs @ [Some a]"]) (auto simp: chunks_of_new [where c = c and a = a, OF new])
    next
      case False
      then show ?thesis using mc(3) [of key] old [of key] by (simp add: chunks_of_new [where c = c and a = a, OF new])
    qed
  qed (use ms(2) mc(2) seen' in auto)
  with mc(1,6) ms(4) show ?thesis by auto
qed

section \<open>Taking a subtree in\<close>

definition take_body ::
    "(ptr \<Rightarrow> 'z cheap_scheme \<Rightarrow> 'z cheap_scheme option) \<Rightarrow> ptr \<Rightarrow> nat \<Rightarrow> 'z cheap_scheme \<Rightarrow> 'z cheap_scheme option" where
  "take_body rec node i h = do { subnode \<leftarrow> sub_at h node i; rec subnode h }"

lemma take_node_unfold:
  "chunk_store_take_node digest ty (Suc k) (Some a) h = do {
     n \<leftarrow> rd h (Some a);
     node_hash \<leftarrow> hash_node digest (Suc k) (Some a) h;
     seen \<leftarrow> map_get (seen_chunks h) node_hash;
     case seen of
       Some seen_node \<Rightarrow> do {
         h \<leftarrow> (if parent n \<noteq> None
                then map_option snd (node_replace_subnode (parent n) (Some a) seen_node h) else Some h);
         node_free (Suc k) (Some a) h
       }
     | None \<Rightarrow> do {
         h \<leftarrow> register ty node_hash n (Some a) h;
         foldM (take_body (chunk_store_take_node digest ty k) (Some a)) [0..<unat (subnode_count n)] h
       }
   }"
  unfolding chunk_store_take_node.simps take_body_def [abs_def] register_def Let_def
  by (simp add: Option.bind_assoc case_prod_beta cong: option.case_cong Option.bind_cong)

text \<open>Where a subtree hangs: no parent, or a cell of a node that is being worked on.\<close>

definition hangs :: "'z cheap_scheme \<Rightarrow> nat set \<Rightarrow> ptr \<Rightarrow> nat \<Rightarrow> nat \<Rightarrow> bool" where
  "hangs h P par j b \<longleftrightarrow> (\<forall>p. par = Some p \<longrightarrow> p \<in> P \<and> (\<exists>np arr. nodes h p = Some np \<and> subnodes np = Some arr
     \<and> length arr = unat (subnode_count np) \<and> j < length arr \<and> arr ! j = Some (Some b)
     \<and> (\<forall>i<j. \<exists>q. arr ! i = Some q \<and> q \<noteq> Some b)))"

lemma sub_at_arr: "nodes h p = Some np \<Longrightarrow> subnodes np = Some arr \<Longrightarrow> i < length arr \<Longrightarrow> sub_at h (Some p) i = arr ! i"
  by (simp add: sub_at_def)

text \<open>\<open>node_replace_subnode\<close> where the new node is kept elsewhere already.\<close>

lemma replace_shared_ok:
  fixes h :: "'z cheap_scheme"
  assumes b: "nodes h b = Some nb" "parent nb = Some p" and s: "nodes h s = Some ns" "node_id ns = node_id nb"
    and p: "nodes h p = Some np" "subnodes np = Some arr" "length arr = unat (subnode_count np)" "j < length arr"
      "arr ! j = Some (Some b)" "\<forall>i<j. \<exists>q. arr ! i = Some q \<and> q \<noteq> Some b"
    and ne: "s \<noteq> p" "b \<noteq> p" "s \<noteq> b"
  shows "\<exists>h'. node_replace_subnode (Some p) (Some b) (Some s) h = Some (True, h')
    \<and> h' = wr b (nb\<lparr>parent := None\<rparr>) (wr s (ns\<lparr>parent := Some p\<rparr>) (wr p (swing j (Some s) np) h))"
proof -
  define h1 where "h1 = wr p (swing j (Some s) np) h"
  have sw: "np\<lparr>subnodes := Some (arr[j := Some (Some s)])\<rparr> = swing j (Some s) np"
    using p(2) by (simp add: swing_def)
  have 1: "set_sub_at (Some p) j (Some s) h = Some h1"
    using p sw by (simp add: set_sub_at_def upd_Some [OF p(1)] h1_def)
  have 2: "upd (Some s) (parent_update (\<lambda>_. Some p)) h1 = Some (wr s (ns\<lparr>parent := Some p\<rparr>) h1)"
    using s(1) ne(1) by (intro upd_Some) (simp add: h1_def)
  have 3: "upd (Some b) (parent_update (\<lambda>_. None)) (wr s (ns\<lparr>parent := Some p\<rparr>) h1)
      = Some (wr b (nb\<lparr>parent := None\<rparr>) (wr s (ns\<lparr>parent := Some p\<rparr>) h1))"
    using b(1) ne by (intro upd_Some) (simp add: h1_def)
  let ?body = "\<lambda>i (_::unit). do {
             cur \<leftarrow> sub_at h (Some p) i;
             if cur = Some b then do {
               h \<leftarrow> set_sub_at (Some p) i (Some s) h;
               h \<leftarrow> upd (Some s) (parent_update (\<lambda>_. Some p)) h;
               h \<leftarrow> upd cur (parent_update (\<lambda>_. None)) h;
               Some (Inl (True, h))
             } else Some (Inr ())
           }"
  let ?r = "(True, wr b (nb\<lparr>parent := None\<rparr>) (wr s (ns\<lparr>parent := Some p\<rparr>) h1))"
  have bj: "?body j () = Some (Inl ?r)"
    using sub_at_arr [OF p(1,2,4)] p(5) 1 2 3 by simp
  have bi: "?body i () = Some (Inr ())" if i: "i < j" for i
  proof -
    from p(6) i obtain q where q: "arr ! i = Some q" "q \<noteq> Some b" by blast
    have "i < length arr" using i p(4) by simp
    then show ?thesis using sub_at_arr [OF p(1,2), of i] q by simp
  qed
  have "loopM ?body [0..<j] () = Some (Inr ())"
    using loopM_check [where P = "\<lambda>_. True" and f = ?body and xs = "[0..<j]"] bi by simp
  moreover have "[0..<length arr] = [0..<j] @ j # [Suc j..<length arr]"
    using p(4) by (metis upt_conv_Cons upt_add_eq_append less_imp_le_nat le_add_diff_inverse zero_le)
  ultimately have "loopM ?body [0..<length arr] () = Some (Inl ?r)"
    using bj by (simp add: loopM_append del: bind.simps)
  then show ?thesis using b s p(1,3) by (simp add: node_replace_subnode_def h1_def)
qed

text \<open>The result of taking the subtree \<open>u\<close> in: a kept node that stands for the same tree.\<close>

definition taken ::
    "(u8 list \<Rightarrow> u64) \<Rightarrow> (u32 \<Rightarrow> key) \<Rightarrow> unit tree set \<Rightarrow> nat set \<Rightarrow> nat tree \<Rightarrow> ptr \<Rightarrow> nat
      \<Rightarrow> 'z cheap_scheme \<Rightarrow> (nat \<Rightarrow> unit tree option) \<Rightarrow> 'z cheap_scheme option \<Rightarrow> bool" where
  "taken digest ty U P u par j h c res \<longleftrightarrow> (\<exists>h' c' b. res = Some h' \<and> store_inv digest ty U h' c' P
     \<and> c \<subseteq>\<^sub>m c' \<and> dom c' \<subseteq> dom c \<union> set (anns u) \<and> b \<in> dom c' - P \<and> c' b = Some (erase u)
     \<and> took (set (anns u)) (dom c - P) par j b h h'
     \<and> (\<forall>m. room h (length (anns u) + m) \<longrightarrow> room h' m))"

lemma take_loop:
  fixes rec :: "ptr \<Rightarrow> 'z cheap_scheme \<Rightarrow> 'z cheap_scheme option"
  assumes "store_inv digest ty U h c P" and "a \<in> P"
    and "nodes h a = Some n" "subnodes n = Some (map (\<lambda>b. Some (Some b)) ds @ map (\<lambda>t. Some (root_ptr t)) us)"
      "unat (subnode_count n) = length ds + length us"
    and "set ds \<subseteq> dom c" and "\<forall>u\<in>set us. view h u \<and> full u \<and> parents h (Some a) u"
    and "distinct (concat (map anns us))" "set (concat (map anns us)) \<inter> dom c = {}"
    and "\<forall>x\<in>P. \<forall>u\<in>set us. height u < height (the (c x))"
    and "room h (length (concat (map anns us)))"
    and "\<And>u h c j. u \<in> set us \<Longrightarrow> store_inv digest ty U h c P \<Longrightarrow> view h u \<Longrightarrow> parents h (Some a) u
      \<Longrightarrow> set (anns u) \<inter> dom c = {} \<Longrightarrow> distinct (anns u) \<Longrightarrow> \<forall>x\<in>P. height u < height (the (c x))
      \<Longrightarrow> room h (length (anns u)) \<Longrightarrow> hangs h P (Some a) j (ann u)
      \<Longrightarrow> taken digest ty U P u (Some a) j h c (rec (root_ptr u) h)"
  shows "\<exists>h' c' bs. foldM (take_body rec (Some a)) [length ds..<length ds + length us] h = Some h'
    \<and> store_inv digest ty U h' c' P \<and> c \<subseteq>\<^sub>m c' \<and> dom c' \<subseteq> dom c \<union> set (concat (map anns us))
    \<and> length bs = length us \<and> (\<forall>i<length us. bs ! i \<in> dom c' - P \<and> c' (bs ! i) = Some (erase (us ! i)))
    \<and> nodes h' a = Some (n\<lparr>subnodes := Some (map (\<lambda>b. Some (Some b)) (ds @ bs))\<rparr>) \<and> aside h h'
    \<and> (\<forall>x. x \<notin> set (concat (map anns us)) \<and> x \<notin> dom c - P \<and> x \<noteq> a \<longrightarrow> nodes h' x = nodes h x)
    \<and> (\<forall>x\<in>dom c - P. \<forall>n. nodes h x = Some n \<longrightarrow> (\<exists>m. nodes h' x = Some m \<and> strip m = strip n))
    \<and> (\<forall>m. room h (length (concat (map anns us)) + m) \<longrightarrow> room h' m)"
  using assms
proof (induction us arbitrary: ds h c n)
  case Nil
  then have "n\<lparr>subnodes := Some (map (\<lambda>b. Some (Some b)) ds)\<rparr> = n" by (cases n) simp
  with Nil show ?case by (intro exI [of _ h] exI [of _ c] exI [of _ "[]"]) (auto simp: aside_def)
next
  case (Cons u us)
  note rec = Cons.prems(12)
  have u: "view h u" "full u" "parents h (Some a) u" using Cons.prems(7) by auto
  obtain b0 i r v ts where ue: "u = Node b0 i r v ts" using u(2) by (cases u) auto
  have PD: "P \<subseteq> dom c" using Cons.prems(1) by (simp add: store_inv_def)
  have du: "set (anns u) \<inter> dom c = {}" "distinct (anns u)" using Cons.prems(8,9) by auto
  have rm: "room h (length (anns u) + length (concat (map anns us)))"
    using Cons.prems(11) by simp
  then have rm1: "room h (length (anns u))" by (simp add: room_def)
  let ?j = "length ds"
  have hg: "hangs h P (Some a) ?j (ann u)"
  proof -
    have "ds ! i \<noteq> ann u" if "i < ?j" for i
      using that Cons.prems(6) du(1) ue by (metis disjoint_iff nth_mem subsetD anns.simps(2) list.set_intros(1) tree.sel(1))
    then show ?thesis
      using Cons.prems(2-5) ue by (auto simp: hangs_def nth_append)
  qed
  have t: "taken digest ty U P u (Some a) ?j h c (rec (root_ptr u) h)"
    by (rule rec) (use Cons.prems(1,10) u du rm1 hg in auto)
  then obtain h1 c1 b where 1: "rec (root_ptr u) h = Some h1" "store_inv digest ty U h1 c1 P" "c \<subseteq>\<^sub>m c1"
    "dom c1 \<subseteq> dom c \<union> set (anns u)" "b \<in> dom c1 - P" "c1 b = Some (erase u)"
    "took (set (anns u)) (dom c - P) (Some a) ?j b h h1"
    "\<And>m. room h (length (anns u) + m) \<Longrightarrow> room h1 m" unfolding taken_def by blast
  have fr: "nodes h1 x = nodes h x" if "x \<notin> set (anns u)" "x \<notin> dom c - P" "x \<noteq> a" for x
    using 1(7) that by (auto simp: took_def)
  have au: "a \<notin> set (anns u)" "a \<notin> set (concat (map anns us))" using Cons.prems(2,9) PD by auto
  define n1 where "n1 = swing ?j (Some b) n"
  have n1: "nodes h1 a = Some n1"
    using 1(7) Cons.prems(2,3) au(1) by (simp add: took_def n1_def)
  have n1s: "subnodes n1 = Some (map (\<lambda>b. Some (Some b)) (ds @ [b]) @ map (\<lambda>t. Some (root_ptr t)) us)"
    using Cons.prems(4) by (simp add: n1_def swing_def list_update_append)
  have "\<exists>h' c' bs. foldM (take_body rec (Some a)) [length (ds @ [b])..<length (ds @ [b]) + length us] h1 = Some h'
    \<and> store_inv digest ty U h' c' P \<and> c1 \<subseteq>\<^sub>m c' \<and> dom c' \<subseteq> dom c1 \<union> set (concat (map anns us))
    \<and> length bs = length us \<and> (\<forall>i<length us. bs ! i \<in> dom c' - P \<and> c' (bs ! i) = Some (erase (us ! i)))
    \<and> nodes h' a = Some (n1\<lparr>subnodes := Some (map (\<lambda>b. Some (Some b)) ((ds @ [b]) @ bs))\<rparr>) \<and> aside h1 h'
    \<and> (\<forall>x. x \<notin> set (concat (map anns us)) \<and> x \<notin> dom c1 - P \<and> x \<noteq> a \<longrightarrow> nodes h' x = nodes h1 x)
    \<and> (\<forall>x\<in>dom c1 - P. \<forall>n. nodes h1 x = Some n \<longrightarrow> (\<exists>m. nodes h' x = Some m \<and> strip m = strip n))
    \<and> (\<forall>m. room h1 (length (concat (map anns us)) + m) \<longrightarrow> room h' m)"
  proof (rule Cons.IH [OF 1(2) Cons.prems(2) n1 n1s])
    show "unat (subnode_count n1) = length (ds @ [b]) + length us"
      using Cons.prems(5) by (simp add: n1_def)
    show "set (ds @ [b]) \<subseteq> dom c1" using Cons.prems(6) 1(3,5) by (auto simp: map_le_def dom_def)
    show "\<forall>u\<in>set us. view h1 u \<and> full u \<and> parents h1 (Some a) u"
    proof
      fix w assume w: "w \<in> set us"
      have "nodes h1 x = nodes h x" if "x \<in> set (anns w)" for x
        using that w Cons.prems(2,8,9) PD by (intro fr) auto
      then show "view h1 w \<and> full w \<and> parents h1 (Some a) w"
        using Cons.prems(7) w view_cong [of h w h1] parents_cong [of h "Some a" w h1] by simp
    qed
    show "distinct (concat (map anns us))" using Cons.prems(8) by simp
    have "set (anns u) \<inter> set (concat (map anns us)) = {}" "set (concat (map anns us)) \<inter> dom c = {}"
      using Cons.prems(8,9) by (auto simp: Int_Un_distrib2)
    with 1(4) show "set (concat (map anns us)) \<inter> dom c1 = {}" by blast
    show "\<forall>x\<in>P. \<forall>u\<in>set us. height u < height (the (c1 x))"
      using Cons.prems(10) 1(3) PD by (metis list.set_intros(2) map_le_def subsetD)
    show "room h1 (length (concat (map anns us)))" by (rule 1(8) [OF rm])
  qed (use rec in auto)
  then obtain h2 c2 bs where 2: "foldM (take_body rec (Some a)) [length (ds @ [b])..<length (ds @ [b]) + length us] h1 = Some h2"
    "store_inv digest ty U h2 c2 P" "c1 \<subseteq>\<^sub>m c2" "dom c2 \<subseteq> dom c1 \<union> set (concat (map anns us))"
    "length bs = length us" "\<forall>i<length us. bs ! i \<in> dom c2 - P \<and> c2 (bs ! i) = Some (erase (us ! i))"
    "nodes h2 a = Some (n1\<lparr>subnodes := Some (map (\<lambda>b. Some (Some b)) ((ds @ [b]) @ bs))\<rparr>)" "aside h1 h2"
    "\<forall>x. x \<notin> set (concat (map anns us)) \<and> x \<notin> dom c1 - P \<and> x \<noteq> a \<longrightarrow> nodes h2 x = nodes h1 x"
    "\<forall>x\<in>dom c1 - P. \<forall>n. nodes h1 x = Some n \<longrightarrow> (\<exists>m. nodes h2 x = Some m \<and> strip m = strip n)"
    "\<forall>m. room h1 (length (concat (map anns us)) + m) \<longrightarrow> room h2 m" by (elim exE conjE) (rule that; assumption)
  have b2: "c2 b = Some (erase u)" using 2(3) 1(6) by (metis domI map_le_def)
  have "sub_at h (Some a) ?j = Some (root_ptr u)"
    using Cons.prems(3,4) by (simp add: sub_at_def nth_append)
  then have st: "foldM (take_body rec (Some a)) [length ds..<length ds + length (u # us)] h = Some h2"
    using 1(1) 2(1) by (subst upt_conv_Cons) (simp_all add: take_body_def)
  have strips: "\<exists>m. nodes h2 x = Some m \<and> strip m = strip k" if x: "x \<in> dom c - P" "nodes h x = Some k" for x k
  proof -
    obtain m where m: "nodes h1 x = Some m" "strip m = strip k" using 1(7) x unfolding took_def by blast
    have "x \<in> dom c1 - P" using x(1) 1(3) by (auto simp: map_le_def dom_def)
    from 2(10) [rule_format, OF this m(1)] m(2) show ?thesis by auto
  qed
  show ?case
  proof (intro exI [of _ h2] exI [of _ c2] exI [of _ "b # bs"] conjI)
    show "c \<subseteq>\<^sub>m c2" using 1(3) 2(3) by (rule map_le_trans)
    have "set (concat (map anns (u # us))) = set (anns u) \<union> set (concat (map anns us))" by simp
    with 1(4) 2(4) show "dom c2 \<subseteq> dom c \<union> set (concat (map anns (u # us)))" by blast
    show "\<forall>i<length (u # us). (b # bs) ! i \<in> dom c2 - P \<and> c2 ((b # bs) ! i) = Some (erase ((u # us) ! i))"
      using 2(6) 1(5) b2 by (auto simp: nth_Cons split: nat.splits)
    show "nodes h2 a = Some (n\<lparr>subnodes := Some (map (\<lambda>b. Some (Some b)) (ds @ b # bs))\<rparr>)"
      using 2(7) by (simp add: n1_def swing_def)
    show "aside h h2" using 1(7) 2(8) by (simp add: took_def aside_def)
    show "\<forall>x. x \<notin> set (concat (map anns (u # us))) \<and> x \<notin> dom c - P \<and> x \<noteq> a \<longrightarrow> nodes h2 x = nodes h x"
    proof (intro allI impI)
      fix x assume x: "x \<notin> set (concat (map anns (u # us))) \<and> x \<notin> dom c - P \<and> x \<noteq> a"
      then have "x \<notin> dom c1 - P" using 1(4) by auto
      then show "nodes h2 x = nodes h x" using x 2(9) fr [of x] by simp
    qed
    show "\<forall>m. room h (length (concat (map anns (u # us))) + m) \<longrightarrow> room h2 m"
      using 2(11) 1(8) by (simp add: add.assoc)
  qed (use st 2(2,5) strips in auto)
qed

lemma height_erase_le: "e \<in> set (subtrees t) \<Longrightarrow> height e \<le> height t"
  by (rule height_subtree)

text \<open>A digest that tells the trees in \<open>U\<close> apart.\<close>

definition no_collision :: "(u8 list \<Rightarrow> u64) \<Rightarrow> unit tree set \<Rightarrow> bool" where
  "no_collision digest U \<longleftrightarrow> (\<forall>e\<in>U. \<forall>f\<in>U. digest (hash_input e) = digest (hash_input f) \<longrightarrow> e = f)"

lemma hex_digit_inj:
  assumes "i < 16" and "j < 16" and "hex_digits ! i = hex_digits ! j"
  shows "i = j"
proof -
  have "distinct hex_digits" by (simp add: hex_digits_def)
  moreover have "length hex_digits = 16" by (simp add: hex_digits_def)
  ultimately show ?thesis using assms by (simp add: nth_eq_iff_index_eq)
qed

lemma uint64_to_hex_alt:
  "uint64_to_hex num = rev (map (\<lambda>i. hex_digits ! unat (drop_bit (4 * i) num AND 0xF)) [0..<16])"
proof -
  have "fold (\<lambda>_ (dest, num). (hex_digits ! unat (num AND 0xF) # dest, drop_bit 4 num)) [0..<n] ([], num)
      = (rev (map (\<lambda>i. hex_digits ! unat (drop_bit (4 * i) num AND 0xF)) [0..<n]), drop_bit (4 * n) num)" for n
    by (induction n) (simp_all add: drop_bit_drop_bit ac_simps)
  then show ?thesis by (simp add: uint64_to_hex_def del: upt_Suc)
qed

lemma nibble_less: "unat (w AND 0xF :: u64) < 16"
proof -
  have "(w AND 0xF :: u64) = take_bit 4 w" by (simp add: take_bit_eq_mask mask_eq_exp_minus_1)
  then show ?thesis using take_bit_nat_less_exp [of 4 "unat w"] by (simp add: unsigned_take_bit_eq)
qed

lemma uint64_to_hex_inj: "uint64_to_hex v = uint64_to_hex w \<longleftrightarrow> v = w"
proof
  assume eq: "uint64_to_hex v = uint64_to_hex w"
  show "v = w"
  proof (rule bit_word_eqI)
    fix n assume n: "n < LENGTH(64)"
    define i where "i = n div 4"
    have i: "i < 16" using n by (simp add: i_def)
    from eq have "map (\<lambda>i. hex_digits ! unat (drop_bit (4 * i) v AND 0xF)) [0..<16]
        = map (\<lambda>i. hex_digits ! unat (drop_bit (4 * i) w AND 0xF)) [0..<16]"
      by (simp only: uint64_to_hex_alt rev_is_rev_conv)
    then have "map (\<lambda>i. hex_digits ! unat (drop_bit (4 * i) v AND 0xF)) [0..<16] ! i
        = map (\<lambda>i. hex_digits ! unat (drop_bit (4 * i) w AND 0xF)) [0..<16] ! i" by (rule arg_cong)
    then have "hex_digits ! unat (drop_bit (4 * i) v AND 0xF) = hex_digits ! unat (drop_bit (4 * i) w AND 0xF)"
      using i by (simp del: upt_rec_numeral)
    then have "unat (drop_bit (4 * i) v AND 0xF) = unat (drop_bit (4 * i) w AND 0xF)"
      using hex_digit_inj nibble_less by blast
    then have "drop_bit (4 * i) v AND 0xF = drop_bit (4 * i) w AND 0xF" by (simp add: word_unat_eq_iff)
    then have "bit (drop_bit (4 * i) v AND mask 4) (n mod 4) = bit (drop_bit (4 * i) w AND mask 4) (n mod 4)"
      by (simp add: mask_eq_exp_minus_1)
    moreover have "4 * i + n mod 4 = n" "n mod 4 < 64" using mod_less_divisor [of 4 n] by (simp_all add: i_def)
    ultimately show "bit v n = bit w n" by (simp add: bit_simps)
  qed
qed simp

lemma tree_key_inj:
  "no_collision digest U \<Longrightarrow> e \<in> U \<Longrightarrow> f \<in> U \<Longrightarrow> tree_key digest e = tree_key digest f \<Longrightarrow> e = f"
  by (simp add: no_collision_def tree_key_def uint64_to_hex_inj)

lemma cheap_more_eq:
  fixes h h' :: "'z cheap_scheme"
  assumes "heap.more h' = heap.more h" "brk h' = brk h"
  shows "aside h h'" "seen_chunks h' = seen_chunks h" "chunk_store h' = chunk_store h"
  using assms by (cases h; cases h'; simp add: aside_def)+

lemma maps_ok_cong:
  "seen_chunks h' = seen_chunks h \<Longrightarrow> chunk_store h' = chunk_store h \<Longrightarrow> maps_ok digest ty h' c = maps_ok digest ty h c"
  by (simp add: maps_ok_def)

lemma swing_hangs:
  "subnodes n = Some arr \<Longrightarrow> j < length arr \<Longrightarrow> arr ! j = Some q \<Longrightarrow> swing j q n = n"
  by (cases n) (auto simp: swing_def list_update_same_conv)

text \<open>A duplicate: the parent gets the kept node, and the new nodes are released.\<close>

lemma drop_duplicate_ok:
  fixes h :: "'z cheap_scheme"
  assumes v: "view h t" "distinct (anns t)" "height t < k" "t = Node a i r v ts" and hk: "heap_ok h"
    and n: "nodes h a = Some n" "parent n = par" and s: "nodes h s = Some ns" "node_id ns = i" "s \<notin> set (anns t)"
    and hg: "hangs h P par j a" and sP: "s \<notin> P" and tP: "set (anns t) \<inter> P = {}"
  shows "\<exists>h'. Option.bind (if parent n \<noteq> None
           then map_option snd (node_replace_subnode (parent n) (Some a) (Some s) h) else Some h)
         (\<lambda>h. node_free k (Some a) h) = Some h'
    \<and> heap.more h' = heap.more h \<and> brk h' = brk h \<and> avail h' = avail h \<and> heap_ok h'
    \<and> (\<forall>x. x \<notin> set (anns t) \<and> x \<noteq> s \<longrightarrow>
         nodes h' x = (if par = Some x then map_option (swing j (Some s)) (nodes h x) else nodes h x))
    \<and> (\<exists>m. nodes h' s = Some m \<and> strip m = strip ns)"
proof -
  have "\<exists>h1. (if parent n \<noteq> None
           then map_option snd (node_replace_subnode (parent n) (Some a) (Some s) h) else Some h) = Some h1
    \<and> heap.more h1 = heap.more h \<and> brk h1 = brk h \<and> avail h1 = avail h \<and> heap_ok h1
    \<and> (\<forall>x. x \<noteq> a \<and> x \<noteq> s \<longrightarrow>
         nodes h1 x = (if par = Some x then map_option (swing j (Some s)) (nodes h x) else nodes h x))
    \<and> (\<exists>m. nodes h1 s = Some m \<and> strip m = strip ns) \<and> (\<exists>m. nodes h1 a = Some m \<and> strip m = strip n)"
  proof (cases par)
    case None
    with n s(1) hk show ?thesis by simp
  next
    case (Some p)
    from hg Some obtain np arr where p: "p \<in> P" "nodes h p = Some np" "subnodes np = Some arr"
      "length arr = unat (subnode_count np)" "j < length arr" "arr ! j = Some (Some a)"
      "\<forall>i<j. \<exists>q. arr ! i = Some q \<and> q \<noteq> Some a" by (auto simp: hangs_def)
    have aS: "a \<in> set (anns t)" using v(4) by simp
    have ne: "s \<noteq> p" "a \<noteq> p" "s \<noteq> a" using p(1) sP tP aS s(3) by auto
    have id: "node_id ns = node_id n" using view_node [of h a i r v ts n] v(1,4) n(1) s(2) by simp
    obtain h1 where h1: "node_replace_subnode (Some p) (Some a) (Some s) h = Some (True, h1)"
      "h1 = wr a (n\<lparr>parent := None\<rparr>) (wr s (ns\<lparr>parent := Some p\<rparr>) (wr p (swing j (Some s) np) h))"
      using replace_shared_ok [OF n(1) _ s(1) id p(2-7) ne] n(2) Some by auto
    have bs: "a < brk h" "s < brk h" "p < brk h" using heap_okD [OF hk] n(1) s(1) p(2) by auto
    have "heap_ok h1" using hk bs by (auto simp: heap_ok_def h1(2))
    then show ?thesis using h1 n Some p(2) ne by (auto simp: strip_def)
  qed
  then obtain h1 m ma where h1: "(if parent n \<noteq> None
           then map_option snd (node_replace_subnode (parent n) (Some a) (Some s) h) else Some h) = Some h1"
    "heap.more h1 = heap.more h" "brk h1 = brk h" "avail h1 = avail h" "heap_ok h1"
    "\<forall>x. x \<noteq> a \<and> x \<noteq> s \<longrightarrow>
         nodes h1 x = (if par = Some x then map_option (swing j (Some s)) (nodes h x) else nodes h x)"
    "nodes h1 s = Some m" "strip m = strip ns" "nodes h1 a = Some ma" "strip ma = strip n" by blast
  have "view h1 t"
  proof (rule view_frame [OF v(1)])
    fix x k assume x: "x \<in> set (anns t)" "nodes h x = Some k"
    show "\<exists>m. nodes h1 x = Some m \<and> strip m = strip k"
    proof (cases "x = a")
      case True
      then show ?thesis using x(2) n(1) h1(9,10) by auto
    next
      case False
      have "par \<noteq> Some x" using hg tP x(1) by (auto simp: hangs_def)
      moreover have "x \<noteq> s" using x(1) s(3) by auto
      ultimately show ?thesis using False h1(6) x(2) by auto
    qed
  qed
  then obtain h2 where h2: "node_free k (root_ptr t) h1 = Some h2" "freed (set (anns t)) h1 h2"
    using node_free_view [OF _ v(2,3)] by blast
  show ?thesis
  proof (intro exI [of _ h2] conjI)
    show "Option.bind (if parent n \<noteq> None
           then map_option snd (node_replace_subnode (parent n) (Some a) (Some s) h) else Some h)
         (\<lambda>h. node_free k (Some a) h) = Some h2" using h1(1) h2(1) v(4) by simp
    show "\<exists>m. nodes h2 s = Some m \<and> strip m = strip ns"
      using h1(7,8) freed_nodes [OF h2(2) s(3)] by simp
    show "\<forall>x. x \<notin> set (anns t) \<and> x \<noteq> s \<longrightarrow>
         nodes h2 x = (if par = Some x then map_option (swing j (Some s)) (nodes h x) else nodes h x)"
      using h1(6) freed_nodes [OF h2(2)] v(4) by auto
    show "heap_ok h2" by (rule freed_heap_ok [OF h2(2) h1(5)])
  qed (use h1(2-4) h2(2) in \<open>auto simp: freed_def\<close>)
qed

lemma store_invD:
  assumes "store_inv digest ty U h c P"
  shows "heap_ok h" "mem_ok h" "maps_ok digest ty h c" "ran c \<subseteq> U" "P \<subseteq> dom c"
    "x \<in> dom c - P \<Longrightarrow> dag h (dom c - P) x (the (c x))"
  using assms by (auto simp: store_inv_def)

lemma take_duplicate:
  fixes h :: "'z cheap_scheme"
  assumes nc: "no_collision digest U" and inv: "store_inv digest ty U h c P"
    and v: "view h t" "full t" "parents h par t" "distinct (anns t)" "set (anns t) \<inter> dom c = {}" "height t < Suc k"
    and tU: "erase t \<in> U" and hi: "\<forall>x\<in>P. height t < height (the (c x))"
    and hg: "hangs h P par j (ann t)"
    and seen: "map_get (seen_chunks h) (tree_key digest t) = Some (Some p)"
  shows "taken digest ty U P t par j h c (chunk_store_take_node digest ty (Suc k) (root_ptr t) h)"
proof -
  obtain a i r v ts where t: "t = Node a i r v ts" using v(2) by (cases t) auto
  obtain n where n: "nodes h a = Some n" "parent n = par" using v(3) t by auto
  note D = store_invD [OF inv]
  obtain s f where s: "p = Some s" "c s = Some f" "tree_key digest t = tree_key digest f"
    using D(3) seen by (auto simp: maps_ok_def)
  have "tree_key digest (erase t) = tree_key digest f" using s(3) by simp
  then have f: "f = erase t" using tree_key_inj [OF nc] tU D(4) s(2) by (metis ranI subsetD)
  have sP: "s \<notin> P" using hi s(2) f by auto
  have sD: "s \<in> dom c - P" using sP s(2) by auto
  then have "dag h (dom c - P) s (erase t)" using D(6) [OF sD] s(2) f by simp
  then obtain st where st: "view h st" "root_ptr st = Some s" "erase st = erase t" by (auto simp: dag_def)
  obtain i' r' v' ts' where st': "st = Node s i' r' v' ts'" using st(2) by (cases st) auto
  obtain ns where ns: "nodes h s = Some ns" "node_id ns = i" using st st' t by auto
  have sa: "s \<notin> set (anns t)" using v(5) s(2) by auto
  have tP: "set (anns t) \<inter> P = {}" using v(5) D(5) by auto
  have hg': "hangs h P par j a" using hg t by simp
  obtain h2 where h2: "Option.bind (if parent n \<noteq> None
           then map_option snd (node_replace_subnode (parent n) (Some a) (Some s) h) else Some h)
         (\<lambda>h. node_free (Suc k) (Some a) h) = Some h2"
    "heap.more h2 = heap.more h" "brk h2 = brk h" "avail h2 = avail h" "heap_ok h2"
    "\<forall>x. x \<notin> set (anns t) \<and> x \<noteq> s \<longrightarrow>
         nodes h2 x = (if par = Some x then map_option (swing j (Some s)) (nodes h x) else nodes h x)"
    "\<exists>m. nodes h2 s = Some m \<and> strip m = strip ns"
    using drop_duplicate_ok [OF v(1,4,6) t D(1) n ns sa hg' sP tP] by blast
  have res: "chunk_store_take_node digest ty (Suc k) (root_ptr t) h = Some h2"
    using n hash_node_view [OF v(1,2,6)] seen s(1) h2(1)
    by (simp only: t root_ptr_simps take_node_unfold rd_Some bind.bind_lunit option.case)
  have strips: "\<forall>x\<in>dom c - P. \<forall>k. nodes h x = Some k \<longrightarrow> (\<exists>m. nodes h2 x = Some m \<and> strip m = strip k)"
  proof (intro ballI allI impI)
    fix x k assume x: "x \<in> dom c - P" "nodes h x = Some k"
    show "\<exists>m. nodes h2 x = Some m \<and> strip m = strip k"
    proof (cases "x = s")
      case True
      with h2(7) ns(1) x(2) show ?thesis by auto
    next
      case False
      have "x \<notin> set (anns t)" "par \<noteq> Some x" using x(1) v(5) hg by (auto simp: hangs_def)
      with False h2(6) x(2) show ?thesis by auto
    qed
  qed
  note more = cheap_more_eq [OF h2(2,3)]
  have "store_inv digest ty U h2 c P"
    unfolding store_inv_def
  proof (intro conjI ballI)
    show "maps_ok digest ty h2 c" using D(3) maps_ok_cong [OF more(2,3)] by simp
    fix x assume x: "x \<in> dom c - P"
    show "dag h2 (dom c - P) x (the (c x))" by (rule dag_frame [OF D(6) [OF x]]) (use strips in blast)
  qed (use D(2,4,5) h2(4,5) in auto)
  moreover have "took (set (anns t)) (dom c - P) par j s h h2"
    unfolding took_def using more(1) h2(6) strips sD by auto
  moreover have "\<forall>m. room h (length (anns t) + m) \<longrightarrow> room h2 m" using more by (auto simp: room_def)
  ultimately show ?thesis
    unfolding taken_def res using s(2) f sD by (intro exI [of _ h2] exI [of _ c] exI [of _ s]) auto
qed

lemma maps_upd_simps [simp]:
  "heap_ok (h\<lparr>seen_chunks := ms, chunk_store := mc\<rparr>) = heap_ok h"
  "view (h\<lparr>seen_chunks := ms, chunk_store := mc\<rparr>) t = view h t"
  "parents (h\<lparr>seen_chunks := ms, chunk_store := mc\<rparr>) par t = parents h par t"
  "dag (h\<lparr>seen_chunks := ms, chunk_store := mc\<rparr>) D a e = dag h D a e"
proof -
  let ?h = "h\<lparr>seen_chunks := ms, chunk_store := mc\<rparr>"
  show "heap_ok ?h = heap_ok h" by (simp add: heap_ok_def)
  show v: "view ?h t = view h t" for t using view_cong [of h t ?h] view_cong [of ?h t h] by auto
  show "parents ?h par t = parents h par t"
    using parents_cong [of h par t ?h] parents_cong [of ?h par t h] by auto
  show "dag ?h D a e = dag h D a e" by (simp add: dag_def v)
qed

text \<open>A tree over kept nodes, put together from its root and the trees of its subnodes.\<close>

lemma dag_node:
  assumes "nodes h a = Some m" "node_id m = i" "rule_id m = r" "val_ok m v"
    and "unat (subnode_count m) = length ts" "i = 0 \<longrightarrow> ts = []"
    and "ts = [] \<or> subnodes m = Some (map (\<lambda>b. Some (Some b)) bs)" "length bs = length ts"
    and "\<And>i. i < length ts \<Longrightarrow> dag h D (bs ! i) (erase (ts ! i))"
  shows "dag h (insert a D) a (erase (Node a i r v ts))"
proof -
  have "\<forall>i. i < length ts \<longrightarrow> (\<exists>u. view h u \<and> root_ptr u = Some (bs ! i) \<and> erase u = erase (ts ! i) \<and> set (anns u) \<subseteq> D)"
    using assms(9) unfolding dag_def by blast
  then obtain f where f: "i < length ts \<Longrightarrow> view h (f i) \<and> root_ptr (f i) = Some (bs ! i)
      \<and> erase (f i) = erase (ts ! i) \<and> set (anns (f i)) \<subseteq> D" for i by metis
  define us where "us = map f [0..<length ts]"
  have len: "length us = length ts" by (simp add: us_def)
  have u: "us ! i = f i" if "i < length ts" for i using that by (simp add: us_def)
  have "map (\<lambda>t. Some (root_ptr t)) us = map (\<lambda>b. Some (Some b)) bs"
    by (rule nth_equalityI) (use assms(8) f u len in auto)
  then have "kids_ok m us" using assms(2,5-7) len by (auto simp: kids_ok_def)
  moreover have "\<forall>w\<in>set us. view h w \<and> set (anns w) \<subseteq> D" using f by (auto simp: us_def)
  moreover have "map erase us = map erase ts" by (rule nth_equalityI) (use f u len in auto)
  ultimately show ?thesis
    using assms(1-4) unfolding dag_def by (intro exI [of _ "Node a i r v us"]) auto
qed

lemma take_new:
  fixes h :: "'z cheap_scheme"
  assumes inv: "store_inv digest ty U h c P"
    and v: "view h t" "full t" "parents h par t" "distinct (anns t)" "set (anns t) \<inter> dom c = {}" "height t < Suc k"
    and tU: "erase t \<in> U" and hi: "\<forall>x\<in>P. height t < height (the (c x))"
    and rm: "room h (length (anns t))" and hg: "hangs h P par j (ann t)"
    and seen: "map_get (seen_chunks h) (tree_key digest t) = Some None"
    and rec: "\<And>u (h :: 'z cheap_scheme) c P j. u \<in> set (kids t) \<Longrightarrow> store_inv digest ty U h c P \<Longrightarrow> view h u
      \<Longrightarrow> parents h (Some (ann t)) u \<Longrightarrow> set (anns u) \<inter> dom c = {} \<Longrightarrow> distinct (anns u)
      \<Longrightarrow> \<forall>x\<in>P. height u < height (the (c x)) \<Longrightarrow> room h (length (anns u))
      \<Longrightarrow> hangs h P (Some (ann t)) j (ann u)
      \<Longrightarrow> taken digest ty U P u (Some (ann t)) j h c (chunk_store_take_node digest ty k (root_ptr u) h)"
  shows "taken digest ty U P t par j h c (chunk_store_take_node digest ty (Suc k) (root_ptr t) h)"
proof -
  obtain a i r w ts where t: "t = Node a i r w ts" using v(2) by (cases t) auto
  obtain n where n: "nodes h a = Some n" "parent n = par" using v(3) t by auto
  have nv: "node_id n = i \<and> rule_id n = r \<and> val_ok n w \<and> kids_ok n ts \<and> (\<forall>t\<in>set ts. view h t)"
    using view_node v(1) n(1) t by blast
  note D = store_invD [OF inv]
  have ca: "c a = None" "a \<notin> P" using v(5) t D(5) by auto
  have "room h 1" using rm t by (simp add: room_def)
  moreover have "node_id n = tid (erase t)" using nv t by simp
  ultimately obtain ms mc where reg: "register ty (tree_key digest (erase t)) n (Some a) h = Some (h\<lparr>seen_chunks := ms, chunk_store := mc\<rparr>)"
    "maps_ok digest ty (h\<lparr>seen_chunks := ms, chunk_store := mc\<rparr>) (c(a \<mapsto> erase t))"
    "length (entries ms) \<le> Suc (length (entries (seen_chunks h)))"
    "length (entries mc) \<le> Suc (length (entries (chunk_store h)))"
    using register_ok [OF D(3,2) ca(1), of "erase t" n] seen by auto
  define h1 where "h1 = h\<lparr>seen_chunks := ms, chunk_store := mc\<rparr>"
  define c1 where "c1 = c(a \<mapsto> erase t)"
  define P1 where "P1 = insert a P"
  have dom1: "dom c1 - P1 = dom c - P" using ca by (auto simp: c1_def P1_def)
  have nodes1: "nodes h1 = nodes h" by (simp add: h1_def)
  have inv1: "store_inv digest ty U h1 c1 P1"
    unfolding store_inv_def
  proof (intro conjI ballI)
    show "maps_ok digest ty h1 c1" using reg(2) by (simp add: h1_def c1_def)
    show "ran c1 \<subseteq> U" using D(4) tU ca(1) by (auto simp: c1_def)
    show "P1 \<subseteq> dom c1" using D(5) by (auto simp: P1_def c1_def)
    fix x assume x: "x \<in> dom c1 - P1"
    then have "the (c1 x) = the (c x)" "x \<in> dom c - P" using dom1 by (auto simp: c1_def P1_def)
    then show "dag h1 (dom c1 - P1) x (the (c1 x))" using D(6) [of x] dom1 by (simp add: h1_def)
  qed (use D(1,2) in \<open>simp_all add: h1_def\<close>)
  have room1: "room h1 m" if "room h (length (anns t) + m - length (concat (map anns ts)))" for m
    using that reg(3,4) t by (auto simp: room_def h1_def)
  have cnt: "unat (subnode_count n) = length ts" using nv by (simp add: kids_ok_def)
  have unf: "chunk_store_take_node digest ty (Suc k) (root_ptr t) h
      = foldM (take_body (chunk_store_take_node digest ty k) (Some a)) [0..<length ts] h1"
    using n(1) hash_node_view [OF v(1,2,6)] seen reg(1) cnt
    by (simp only: t root_ptr_simps take_node_unfold rd_Some bind.bind_lunit option.case tree_key_map h1_def)
  have "\<exists>h2 c2 bs. foldM (take_body (chunk_store_take_node digest ty k) (Some a)) [0..<length ts] h1 = Some h2
    \<and> store_inv digest ty U h2 c2 P1 \<and> c1 \<subseteq>\<^sub>m c2 \<and> dom c2 \<subseteq> dom c1 \<union> set (concat (map anns ts))
    \<and> length bs = length ts \<and> (\<forall>i<length ts. bs ! i \<in> dom c2 - P1 \<and> c2 (bs ! i) = Some (erase (ts ! i)))
    \<and> (\<exists>m. nodes h2 a = Some m \<and> node_id m = i \<and> rule_id m = r \<and> val_ok m w \<and> subnode_count m = subnode_count n
         \<and> (ts = [] \<or> subnodes m = Some (map (\<lambda>b. Some (Some b)) bs))) \<and> aside h1 h2
    \<and> (\<forall>x. x \<notin> set (concat (map anns ts)) \<and> x \<notin> dom c1 - P1 \<and> x \<noteq> a \<longrightarrow> nodes h2 x = nodes h1 x)
    \<and> (\<forall>x\<in>dom c1 - P1. \<forall>n. nodes h1 x = Some n \<longrightarrow> (\<exists>m. nodes h2 x = Some m \<and> strip m = strip n))
    \<and> (\<forall>m. room h1 (length (concat (map anns ts)) + m) \<longrightarrow> room h2 m)"
  proof (cases "ts = []")
    case True
    with inv1 n nv show ?thesis
      by (intro exI [of _ h1] exI [of _ c1] exI [of _ "[]"]) (auto simp: aside_def nodes1)
  next
    case False
    have "\<exists>h2 c2 bs. foldM (take_body (chunk_store_take_node digest ty k) (Some a)) [length ([]::nat list)..<length ([]::nat list) + length ts] h1 = Some h2
      \<and> store_inv digest ty U h2 c2 P1 \<and> c1 \<subseteq>\<^sub>m c2 \<and> dom c2 \<subseteq> dom c1 \<union> set (concat (map anns ts))
      \<and> length bs = length ts \<and> (\<forall>i<length ts. bs ! i \<in> dom c2 - P1 \<and> c2 (bs ! i) = Some (erase (ts ! i)))
      \<and> nodes h2 a = Some (n\<lparr>subnodes := Some (map (\<lambda>b. Some (Some b)) ([] @ bs))\<rparr>) \<and> aside h1 h2
      \<and> (\<forall>x. x \<notin> set (concat (map anns ts)) \<and> x \<notin> dom c1 - P1 \<and> x \<noteq> a \<longrightarrow> nodes h2 x = nodes h1 x)
      \<and> (\<forall>x\<in>dom c1 - P1. \<forall>n. nodes h1 x = Some n \<longrightarrow> (\<exists>m. nodes h2 x = Some m \<and> strip m = strip n))
      \<and> (\<forall>m. room h1 (length (concat (map anns ts)) + m) \<longrightarrow> room h2 m)"
    proof (rule take_loop [OF inv1])
      show "a \<in> P1" by (simp add: P1_def)
      show "nodes h1 a = Some n" using n(1) nodes1 by simp
      show "subnodes n = Some (map (\<lambda>b. Some (Some b)) ([]::nat list) @ map (\<lambda>t. Some (root_ptr t)) ts)"
        using nv False by (simp add: kids_ok_def)
      show "set ([]::nat list) \<subseteq> dom c1" by simp
      show "unat (subnode_count n) = length ([]::nat list) + length ts" using cnt by simp
      show "\<forall>u\<in>set ts. view h1 u \<and> full u \<and> parents h1 (Some a) u" using nv v(2,3) t by (auto simp: h1_def)
      show "distinct (concat (map anns ts))" using v(4) t by simp
      show "set (concat (map anns ts)) \<inter> dom c1 = {}" using v(4,5) t by (auto simp: c1_def split: if_splits)
      show "\<forall>x\<in>P1. \<forall>u\<in>set ts. height u < height (the (c1 x))"
      proof (intro ballI)
        fix x u assume x: "x \<in> P1" and u: "u \<in> set ts"
        have "height u < height t" unfolding t by (rule height_kid [OF u])
        then show "height u < height (the (c1 x))"
          using x hi ca(2) by (cases "x = a") (auto simp: P1_def c1_def)
      qed
      show "room h1 (length (concat (map anns ts)))" by (rule room1) (use rm t in simp)
    qed (rule rec [unfolded t tree.sel]; assumption)
    then obtain h2 c2 bs where "foldM (take_body (chunk_store_take_node digest ty k) (Some a)) [length ([]::nat list)..<length ([]::nat list) + length ts] h1 = Some h2"
      "store_inv digest ty U h2 c2 P1" "c1 \<subseteq>\<^sub>m c2" "dom c2 \<subseteq> dom c1 \<union> set (concat (map anns ts))"
      "length bs = length ts" "\<forall>i<length ts. bs ! i \<in> dom c2 - P1 \<and> c2 (bs ! i) = Some (erase (ts ! i))"
      "nodes h2 a = Some (n\<lparr>subnodes := Some (map (\<lambda>b. Some (Some b)) ([] @ bs))\<rparr>)" "aside h1 h2"
      "\<forall>x. x \<notin> set (concat (map anns ts)) \<and> x \<notin> dom c1 - P1 \<and> x \<noteq> a \<longrightarrow> nodes h2 x = nodes h1 x"
      "\<forall>x\<in>dom c1 - P1. \<forall>n. nodes h1 x = Some n \<longrightarrow> (\<exists>m. nodes h2 x = Some m \<and> strip m = strip n)"
      "\<forall>m. room h1 (length (concat (map anns ts)) + m) \<longrightarrow> room h2 m"
      by (elim exE conjE) (rule that; assumption)
    with nv show ?thesis
      by (intro exI [of _ h2] exI [of _ c2] exI [of _ bs]) (simp add: val_ok_def)
  qed
  then obtain h2 c2 bs m where 2: "foldM (take_body (chunk_store_take_node digest ty k) (Some a)) [0..<length ts] h1 = Some h2"
    "store_inv digest ty U h2 c2 P1" "c1 \<subseteq>\<^sub>m c2" "dom c2 \<subseteq> dom c1 \<union> set (concat (map anns ts))"
    "length bs = length ts" "\<forall>i<length ts. bs ! i \<in> dom c2 - P1 \<and> c2 (bs ! i) = Some (erase (ts ! i))"
    "nodes h2 a = Some m" "node_id m = i" "rule_id m = r" "val_ok m w" "subnode_count m = subnode_count n"
    "ts = [] \<or> subnodes m = Some (map (\<lambda>b. Some (Some b)) bs)" "aside h1 h2"
    "\<forall>x. x \<notin> set (concat (map anns ts)) \<and> x \<notin> dom c1 - P1 \<and> x \<noteq> a \<longrightarrow> nodes h2 x = nodes h1 x"
    "\<forall>x\<in>dom c1 - P1. \<forall>n. nodes h1 x = Some n \<longrightarrow> (\<exists>m. nodes h2 x = Some m \<and> strip m = strip n)"
    "\<forall>m. room h1 (length (concat (map anns ts)) + m) \<longrightarrow> room h2 m"
    by (elim exE conjE) (rule that; assumption)
  note D2 = store_invD [OF 2(2)]
  have c2a: "c2 a = Some (erase t)" using 2(3) by (metis c1_def domI fun_upd_same map_le_def)
  have dom2: "dom c2 - P = insert a (dom c2 - P1)" using c2a ca(2) by (auto simp: P1_def)
  have dagt: "dag h2 (insert a (dom c2 - P1)) a (erase t)"
    unfolding t
  proof (rule dag_node [OF 2(7-10) _ _ 2(12,5)])
    show "unat (subnode_count m) = length ts" using 2(11) cnt by simp
    show "i = 0 \<longrightarrow> ts = []" using nv by (auto simp: kids_ok_def)
    fix l assume l: "l < length ts"
    then have "dag h2 (dom c2 - P1) (bs ! l) (the (c2 (bs ! l)))" using 2(6) D2(6) by blast
    then show "dag h2 (dom c2 - P1) (bs ! l) (erase (ts ! l))" using 2(6) l by simp
  qed
  have inv2: "store_inv digest ty U h2 c2 P"
    unfolding store_inv_def dom2
  proof (intro conjI ballI)
    fix x assume "x \<in> insert a (dom c2 - P1)"
    then consider "x = a" | "x \<in> dom c2 - P1" by blast
    then show "dag h2 (insert a (dom c2 - P1)) x (the (c2 x))"
    proof cases
      case 1
      then show ?thesis using dagt c2a by simp
    next
      case 2
      show ?thesis by (rule dag_mono [OF D2(6) [OF 2]]) blast
    qed
  qed (use D2(1-5) in \<open>auto simp: P1_def\<close>)
  have "took (set (anns t)) (dom c - P) par j a h h2"
    unfolding took_def
  proof (intro conjI allI impI)
    show "aside h h2" using 2(13) by (simp add: aside_def h1_def)
    show "\<forall>x\<in>dom c - P. \<forall>n. nodes h x = Some n \<longrightarrow> (\<exists>m. nodes h2 x = Some m \<and> strip m = strip n)"
      using 2(15) unfolding dom1 nodes1 .
    fix x assume x: "x \<notin> set (anns t) \<and> x \<notin> dom c - P"
    then have "nodes h2 x = nodes h x" using 2(14) t unfolding dom1 nodes1 by auto
    moreover have "map_option (swing j (Some a)) (nodes h x) = nodes h x" if "par = Some x"
      using hg that swing_hangs t by (auto simp: hangs_def)
    ultimately show "nodes h2 x = (if par = Some x then map_option (swing j (Some a)) (nodes h x) else nodes h x)"
      by simp
  qed
  moreover have "c \<subseteq>\<^sub>m c1" using ca(1) by (auto simp: map_le_def c1_def)
  then have "c \<subseteq>\<^sub>m c2" using 2(3) by (rule map_le_trans)
  moreover have "dom c2 \<subseteq> dom c \<union> set (anns t)" using 2(4) t by (auto simp: c1_def)
  moreover have "\<forall>m. room h (length (anns t) + m) \<longrightarrow> room h2 m"
  proof (intro allI impI)
    fix q assume "room h (length (anns t) + q)"
    then have "room h1 (length (concat (map anns ts)) + q)" by (intro room1) simp
    then show "room h2 q" using 2(16) by blast
  qed
  ultimately show ?thesis
    unfolding taken_def unf 2(1) using inv2 c2a ca(2)
    by (intro exI [of _ h2] exI [of _ c2] exI [of _ a]) auto
qed

lemma take_node_ok:
  fixes h :: "'z cheap_scheme"
  assumes "no_collision digest U" and "store_inv digest ty U h c P"
    and "view h t" "full t" "parents h par t" "distinct (anns t)" "set (anns t) \<inter> dom c = {}" "height t < k"
    and "set (subtrees (erase t)) \<subseteq> U" and "\<forall>x\<in>P. height t < height (the (c x))"
    and "room h (length (anns t))" and "hangs h P par j (ann t)"
  shows "taken digest ty U P t par j h c (chunk_store_take_node digest ty k (root_ptr t) h)"
  using assms
proof (induction k arbitrary: t h c P par j)
  case (Suc k)
  obtain a i r w ts where t: "t = Node a i r w ts" using Suc.prems(4) by (cases t) auto
  have tU: "erase t \<in> U" using Suc.prems(9) t by auto
  have "map_ok (seen_chunks h)" using Suc.prems(2) by (simp add: store_inv_def maps_ok_def)
  then have "map_get (seen_chunks h) (tree_key digest t) \<noteq> None" by (rule hm.get_total)
  then consider "map_get (seen_chunks h) (tree_key digest t) = Some None"
    | p where "map_get (seen_chunks h) (tree_key digest t) = Some (Some p)" by (metis option.exhaust)
  then show ?case
  proof cases
    case 1
    show ?thesis
    proof (rule take_new [OF Suc.prems(2-8) tU Suc.prems(10-12) 1])
      fix u and h :: "'z cheap_scheme" and c P j
      assume u: "u \<in> set (kids t)" "store_inv digest ty U h c P" "view h u" "parents h (Some (ann t)) u"
        "set (anns u) \<inter> dom c = {}" "distinct (anns u)" "\<forall>x\<in>P. height u < height (the (c x))"
        "room h (length (anns u))" "hangs h P (Some (ann t)) j (ann u)"
      have uk: "u \<in> set ts" using u(1) t by simp
      have "height u < k" using Suc.prems(8) height_kid [OF uk, of a i r w] t by simp
      moreover have "full u" using Suc.prems(4) uk t by simp
      moreover have "set (subtrees (erase u)) \<subseteq> U" using Suc.prems(9) uk t by auto
      ultimately show "taken digest ty U P u (Some (ann t)) j h c (chunk_store_take_node digest ty k (root_ptr u) h)"
        using u by (intro Suc.IH [OF Suc.prems(1)]) auto
    qed
  next
    case (2 p)
    show ?thesis by (rule take_duplicate [OF Suc.prems(1-8) tU Suc.prems(10,12) 2])
  qed
qed simp

end
