(* ===== verification/Splicing.thy ===== *)
theory Splicing
  imports Chunk_Inv
begin

text \<open>
  What the chunk store does for its clients: adding a tree keeps all its subtrees, an
  alternative is a new copy of a kept tree of the same type, splicing puts such a copy in
  the place of a nonterminal, and clearing releases every kept node once.
\<close>

section \<open>Frames\<close>

lemma dag_grow:
  assumes "dag h D a e" and "D \<subseteq> {..<brk h}" and "\<And>x. x < brk h \<Longrightarrow> nodes h' x = nodes h x"
  shows "dag h' D a e"
  by (rule dag_frame [OF assms(1)]) (use assms(2,3) in auto)

lemma store_dag: "store_inv digest ty U h c {} \<Longrightarrow> c a = Some e \<Longrightarrow> dag h (dom c) a e"
  using store_invD(6) [of digest ty U h c "{}" a] by auto

lemma store_below_brk: "store_inv digest ty U h c {} \<Longrightarrow> dom c \<subseteq> {..<brk h}"
proof
  fix a assume inv: "store_inv digest ty U h c {}" and a: "a \<in> dom c"
  then have "dag h (dom c) a (the (c a))" by (simp add: store_inv_def)
  then obtain t where "view h t" "root_ptr t = Some a" by (auto simp: dag_def)
  then have "a < brk h" using view_brk root_ptr_in_anns inv unfolding store_inv_def by metis
  then show "a \<in> {..<brk h}" by simp
qed

text \<open>The invariant only looks at the old nodes and the two maps.\<close>

lemma store_inv_frame:
  assumes "store_inv digest ty U h c {}" and "heap_ok h'" "avail h' = avail h"
    and "seen_chunks h' = seen_chunks h" "chunk_store h' = chunk_store h"
    and "\<And>x. x < brk h \<Longrightarrow> nodes h' x = nodes h x"
  shows "store_inv digest ty U h' c {}"
  using assms(1-3) maps_ok_cong [OF assms(4,5)] dag_grow [OF _ store_below_brk [OF assms(1)] assms(6)]
  by (auto simp: store_inv_def)

lemma rmore_eq:
  fixes h h' :: "'z cheap_scheme"
  assumes "rheap.more h' = rheap.more h"
  shows "seen_chunks h' = seen_chunks h" "chunk_store h' = chunk_store h" "max_tree_len h' = max_tree_len h"
  using assms by (cases h; cases h'; simp)+

text \<open>The kept trees are closed under subtrees.\<close>

lemma store_closed:
  assumes "store_inv digest ty U h c {}" and "e \<in> ran c" and "f \<in> set (subtrees e)"
  shows "f \<in> ran c"
proof -
  obtain a where a: "c a = Some e" using assms(2) by (auto simp: ran_def)
  then have "dag h (dom c) a e" by (rule store_dag [OF assms(1)])
  then obtain t where t: "view h t" "root_ptr t = Some a" "erase t = e" "set (anns t) \<subseteq> dom c" by (auto simp: dag_def)
  obtain s where s: "s \<in> set (subtrees t)" "erase s = f"
  proof -
    have "f \<in> erase ` set (subtrees t)" using assms(3) subtrees_erase [of t] t(3) by simp
    then show thesis using that by blast
  qed
  obtain b where b: "root_ptr s = Some b" using subtrees_not_Null [OF s(1)] by (cases s) auto
  have vs: "view h s" using view_subtree [OF t(1) s(1)] by simp
  have "b \<in> dom c" using root_ptr_in_anns [OF b] subtrees_anns [OF s(1)] t(4) by blast
  then obtain g where g: "c b = Some g" by auto
  then have "dag h (dom c) b g" by (rule store_dag [OF assms(1)])
  then obtain u where "view h u" "root_ptr u = Some b" "erase u = g" by (auto simp: dag_def)
  then have "g = f" using view_unique [OF vs] b s(2) by metis
  then show ?thesis using g by (auto simp: ran_def)
qed

section \<open>Adding a tree\<close>

text \<open>No tree is kept twice, so a store of finitely many trees is finite.\<close>

lemma store_inj:
  assumes "store_inv digest ty U h c P" and "c a = Some e" and "c b = Some e"
  shows "a = b"
proof -
  have "map_get (seen_chunks h) (tree_key digest e) = Some (Some (Some x))" if "c x = Some e" for x
    using assms(1) that unfolding store_inv_def maps_ok_def by blast
  from this [OF assms(2)] this [OF assms(3)] show ?thesis by simp
qed

lemma store_card:
  assumes "store_inv digest ty U h c P" and "finite U"
  shows "finite (dom c)" "card (dom c) \<le> card U"
proof -
  have i: "inj_on (the \<circ> c) (dom c)" by (rule inj_onI) (use store_inj [OF assms(1)] in auto)
  have "(the \<circ> c) ` dom c \<subseteq> U" using assms(1) unfolding store_inv_def by (auto simp: ran_def)
  then show "finite (dom c)" "card (dom c) \<le> card U"
    using i assms(2) by (meson finite_imageD finite_subset, metis card_image card_mono)
qed

lemma full_erase: "erase s = erase t \<Longrightarrow> full s = full t"
  by (metis full_map)

lemma add_tree_view:
  fixes h :: "'z cheap_scheme"
  assumes inv: "store_inv digest ty U h c {}" and nc: "no_collision digest U"
    and v: "view h t" "full t" "height t < k" and tU: "set (subtrees (erase t)) \<subseteq> U"
    and rm: "room h (length (anns t))" and rt: "root tree = root_ptr t"
  shows "\<exists>h' c'. chunk_store_add_tree digest ty k (Some tree) h = Some h' \<and> store_inv digest ty U h' c' {}
    \<and> c \<subseteq>\<^sub>m c' \<and> set (subtrees (erase t)) \<subseteq> ran c' \<and> ran c' \<subseteq> U
    \<and> (\<forall>x. x < brk h \<and> x \<notin> dom c \<longrightarrow> nodes h' x = nodes h x) \<and> dom c' \<subseteq> dom c \<union> {brk h..}
    \<and> random_seed h' = random_seed h \<and> max_tree_len h' = max_tree_len h"
proof -
  have hk: "heap_ok h" "mem_ok h" using store_invD [OF inv] by auto
  obtain t' h1 where t': "node_clone k (root_ptr t) h = Some (root_ptr t', h1)" "fresh_copy h t h1 t'"
    using node_clone_view [OF v(1) hk v(3)] by blast
  have g: "grows h h1" "rep h1 None t'" "erase t' = erase t" "\<And>a. a \<in> set (anns t') \<Longrightarrow> brk h \<le> a"
    using t'(2) by (auto simp: fresh_copy_def)
  have m: "heap.more h1 = heap.more h" using growsD(4) [OF g(1)] .
  have more: "seen_chunks h1 = seen_chunks h" "chunk_store h1 = chunk_store h" "random_seed h1 = random_seed h"
    "max_tree_len h1 = max_tree_len h"
    using m by (cases h; cases h1; simp)+
  have inv1: "store_inv digest ty U h1 c {}"
    using store_inv_frame [OF inv] growsD [OF g(1)] more by blast
  have disj: "set (anns t') \<inter> dom c = {}" using g(4) store_below_brk [OF inv] by fastforce
  have "taken digest ty U {} t' None 0 h1 c (chunk_store_take_node digest ty k (root_ptr t') h1)"
  proof (rule take_node_ok [OF nc inv1])
    show "full t'" using full_erase [OF g(3)] v(2) by simp
    show "height t' < k" using erase_height [OF g(3)] v(3) by simp
    show "set (subtrees (erase t')) \<subseteq> U" using tU g(3) by simp
    have "length (anns t') = length (anns t)" by (metis anns_map g(3) length_map)
    then show "room h1 (length (anns t'))" using rm more by (simp add: room_def)
  qed (use g(2) disj in \<open>auto simp: rep_def hangs_def\<close>)
  then obtain h2 c2 b where 2: "chunk_store_take_node digest ty k (root_ptr t') h1 = Some h2"
    "store_inv digest ty U h2 c2 {}" "c \<subseteq>\<^sub>m c2" "dom c2 \<subseteq> dom c \<union> set (anns t')" "c2 b = Some (erase t')"
    "took (set (anns t')) (dom c) None 0 b h1 h2"
    unfolding taken_def by auto
  have "root tree \<noteq> None" using rt v(2) by (cases t) auto
  then have "chunk_store_add_tree digest ty k (Some tree) h = Some h2"
    using t'(1) 2(1) rt by (simp add: chunk_store_add_tree_def)
  moreover have "nodes h2 x = nodes h x" if "x < brk h" "x \<notin> dom c" for x
  proof -
    have "x \<notin> set (anns t')" using g(4) that(1) by fastforce
    then show ?thesis using 2(6) that growsD(5) [OF g(1)] by (simp add: took_def)
  qed
  moreover have "set (subtrees (erase t)) \<subseteq> ran c2"
    using store_closed [OF 2(2), of "erase t"] 2(5) g(3) by (auto simp: ran_def)
  ultimately show ?thesis
    using 2(2-4,6) store_invD(4) [OF 2(2)] g(4) more(3,4)
    by (intro exI [of _ h2] exI [of _ c2]) (auto simp: took_def aside_def)
qed

section \<open>An alternative\<close>

lemma alternative_none:
  assumes "store_inv digest ty U h c {}" and "nodes h a = Some n" and "chunks_of ty c (ty (node_id n)) = {}"
  shows "chunk_store_get_alternative_node ty k (Some a) h = Some (None, h)"
proof -
  have "map_get (chunk_store h) (ty (node_id n)) = Some None"
    using assms(1,3) unfolding store_inv_def maps_ok_def by (metis set_empty)
  then show ?thesis using assms(2) by (simp add: chunk_store_get_alternative_node_def)
qed

lemma alternative_some:
  fixes h :: "'z cheap_scheme"
  assumes inv: "store_inv digest ty U h c {}" and live: "rng_live (random_seed h)"
    and n: "nodes h a = Some n" and ne: "chunks_of ty c (ty (node_id n)) \<noteq> {}"
    and sz: "card (dom c) < 2 ^ 31" "finite (dom c)" and k: "\<forall>e\<in>ran c. height e < k"
  shows "\<exists>u h'. chunk_store_get_alternative_node ty k (Some a) h = Some (root_ptr u, h') \<and> new_tree_in h h' u
    \<and> erase u \<in> ran c \<and> ty (tid u) = ty (node_id n) \<and> u \<noteq> Null \<and> store_inv digest ty U h' c {}"
proof -
  let ?S = "chunks_of ty c (ty (node_id n))"
  obtain xs where xs: "map_get (chunk_store h) (ty (node_id n)) = Some (Some (Some xs))" "distinct xs" "xs \<noteq> []" "set xs = ?S"
    using inv ne unfolding store_inv_def maps_ok_def by metis
  have "?S \<subseteq> Some ` dom c" by (auto simp: chunks_of_def split: option.splits)
  then have "card ?S \<le> card (dom c)"
    by (metis card_image_le card_mono finite_imageI le_trans sz(2))
  then have lx: "length xs < 2 ^ 31" using distinct_card [OF xs(2)] xs(4) sz(1) by simp
  let ?n = "of_nat (length xs) :: u64"
  have un: "unat (ucast ?n :: u32) = length xs"
    using lx by (simp add: unsigned_ucast_eq unsigned_of_nat take_bit_nat_eq_self)
  have "(ucast ?n :: u32) \<noteq> 0" using un xs(3) by auto
  moreover obtain r s where r: "rnd_below (ucast ?n) h = Some (r, h\<lparr>random_seed := s\<rparr>)" "rng_live s"
    "(ucast ?n :: u32) \<noteq> 0 \<Longrightarrow> r < ucast ?n" using rnd_below_live [OF live, of "ucast ?n"] by metis
  ultimately have rl: "unat r < length xs" using un by (simp add: word_less_nat_alt)
  then have "unat r < 2 ^ 31" using lx by simp
  then have sc: "unat (scast r :: u64) = unat r"
  proof -
    have "take_bit 31 r = r"
      using \<open>unat r < 2 ^ 31\<close> by (simp add: word_unat_eq_iff unsigned_take_bit_eq take_bit_nat_eq_self)
    then have low: "bit r n \<Longrightarrow> n < 31" for n by (metis bit_take_bit_iff)
    have "(scast r :: u64) = ucast r"
      by (intro bit_word_eqI) (auto simp: bit_simps min_def dest: low)
    then show ?thesis using \<open>unat r < 2 ^ 31\<close> by (simp add: unsigned_ucast_eq take_bit_nat_eq_self)
  qed
  let ?h1 = "h\<lparr>random_seed := s\<rparr>"
  have "xs ! unat r \<in> ?S" using rl xs(4) nth_mem by blast
  then obtain b e where b: "xs ! unat r = Some b" "c b = Some e" "ty (tid e) = ty (node_id n)"
    by (auto simp: chunks_of_def split: option.splits)
  have "dag h (dom c) b e" by (rule store_dag [OF inv b(2)])
  then obtain t where t: "view h t" "root_ptr t = Some b" "erase t = e" by (auto simp: dag_def)
  have hk: "heap_ok h" "mem_ok h" using store_invD [OF inv] by auto
  have "height t = height e" using t(3) by auto
  also have "\<dots> < k" using k b(2) by (auto simp: ran_def)
  finally obtain u h2 where u: "node_clone k (root_ptr t) ?h1 = Some (root_ptr u, h2)" "fresh_copy ?h1 t h2 u"
    using node_clone_view [of ?h1 t k] t(1) hk by auto
  have g: "grows ?h1 h2" "rep h2 None u" "erase u = e" "\<And>a. a \<in> set (anns u) \<Longrightarrow> brk h \<le> a \<and> a < brk h2"
    using u(2) t(3) by (auto simp: fresh_copy_def)
  have rg: "rgrows ?h1 h2" by (rule grows_rgrows [OF g(1)]) (use r(2) in simp)
  have rg': "rgrows h h2"
    by (rule rgrowsI) (use rgrowsD [OF rg] in simp_all)
  have "u \<noteq> Null" using g(3) t(2,3) by (cases t) auto
  moreover have "tid u = tid e" using g(3) tid_map [OF \<open>u \<noteq> Null\<close>] by metis
  moreover have "chunk_store_get_alternative_node ty k (Some a) h = Some (root_ptr u, h2)"
    using n xs(1) r(1) rl sc b(1) u(1) t(2) by (simp add: chunk_store_get_alternative_node_def Let_def)
  moreover have "new_tree_in h h2 u" using rg' g(2,4) by (auto simp: new_tree_in_def)
  moreover have "store_inv digest ty U h2 c {}"
    using store_inv_frame [OF inv rgrowsD(1,2) [OF rg'] rmore_eq(1,2) [OF rgrowsD(6) [OF rg']]] rgrowsD(5) [OF rg'] by blast
  ultimately show ?thesis using g(3) b(2,3) by (intro exI [of _ u] exI [of _ h2]) (auto simp: ran_def)
qed

section \<open>Splicing\<close>

lemma splicing_mutation_unfold:
  "splicing_mutation ty k (Some tree) h = do {
     (mutated_tree, h) \<leftarrow> tree_clone k tree h;
     (node, h) \<leftarrow> node_pick_non_term_subnode k (root mutated_tree) h;
     if node = None then Some (Exit 1)
     else do {
       n \<leftarrow> rd h node;
       (replace_node, h) \<leftarrow> chunk_store_get_alternative_node ty k node h;
       if replace_node = None then Some (Ret (Some mutated_tree, h))
       else do {
         (rt, h) \<leftarrow> replace_picked k (root mutated_tree) (parent n) node replace_node h;
         Some (Ret (Some (mutated_tree\<lparr>root := rt\<rparr>), h))
       }}}"
proof -
  have [simp]: "t\<lparr>root := root t\<rparr> = t" for t :: tree_t by (cases t) simp
  show ?thesis
    by (auto simp: splicing_mutation_def replace_picked_def Let_def split: bind_split)
qed

text \<open>
  \<open>t'\<close> is a copy of \<open>t\<close>.  If the store keeps trees of the type of the picked subtree, that subtree gave way to the new copy of
  one of them that \<open>chunk_store_get_alternative_node\<close> returned; otherwise the copy is unchanged.
\<close>

definition spliced :: "(u32 \<Rightarrow> key) \<Rightarrow> nat \<Rightarrow> (nat \<Rightarrow> unit tree option) \<Rightarrow> 'z cheap_scheme \<Rightarrow> nat tree \<Rightarrow> nat tree \<Rightarrow> bool" where
  "spliced ty k c h t t' \<longleftrightarrow> (\<exists>d s h2. picked_in_copy k h t d s h2 \<and>
     (if \<exists>e\<in>ran c. tid e = tid s
      then \<exists>u h3. chunk_store_get_alternative_node ty k (root_ptr s) h2 = Some (root_ptr u, h3) \<and> new_tree_in h2 h3 u \<and>
        u \<noteq> Null \<and> tid u = tid s \<and> erase u \<in> ran c \<and> t' = subst (ann s) u d
      else t' = d))"

lemma splicing_view:
  fixes h :: "'z cheap_scheme"
  assumes v: "view h t" "sized h t" and inv: "store_inv digest ty U h c {}" and live: "rng_live (random_seed h)"
    and nt: "0 < nt_size t" "nt_size t < 2 ^ 32" and k: "height t < k" and rt: "root tree = root_ptr t"
    and sz: "card (dom c) < 2 ^ 31" "finite (dom c)" "\<forall>e\<in>ran c. height e < k" and ty: "inj ty"
  shows "\<exists>tree' h' t'. splicing_mutation ty k (Some tree) h = Some (Ret (Some tree', h'))
    \<and> root tree' = root_ptr t' \<and> new_beside h h' t' \<and> store_inv digest ty U h' c {}
    \<and> spliced ty k c h t t'"
proof -
  have hk: "heap_ok h" "mem_ok h" using store_invD [OF inv] by auto
  obtain d h1 h2 s a n where d: "tree_clone k tree h = Some (empty_tree\<lparr>root := root_ptr d\<rparr>, h1)"
    "node_pick_non_term_subnode k (root_ptr d) h1 = Some (Some a, h2)"
    "rep h2 None d" "erase d = erase t" "rgrows h h2" "\<forall>x\<in>set (anns d). brk h \<le> x \<and> x < brk h2"
    and s: "s \<in> set (subtrees d)" "root_ptr s = Some a" "tid s \<noteq> 0" "s = d \<or> (\<exists>p j. child_at d p j s)"
    and n: "nodes h2 a = Some n" "node_id n = tid s" and pk: "picked_in_copy k h t d s h2"
    by (rule clone_and_pick [OF v hk live nt k rt])
  have an: "ann s = a" using s(2) by (cases s) auto
  have kept: "(\<exists>e\<in>ran c. tid e = tid s) \<longleftrightarrow> chunks_of ty c (ty (node_id n)) \<noteq> {}"
    unfolding n(2) chunks_of_def ran_def using ty by (force simp: inj_eq split: option.splits)
  have inv2: "store_inv digest ty U h2 c {}"
    using store_inv_frame [OF inv rgrowsD(1,2) [OF d(5)] rmore_eq(1,2) [OF rgrowsD(6) [OF d(5)]]] rgrowsD(5) [OF d(5)] by blast
  show ?thesis
  proof (cases "chunks_of ty c (ty (node_id n)) = {}")
    case True
    have "splicing_mutation ty k (Some tree) h = Some (Ret (Some (empty_tree\<lparr>root := root_ptr d\<rparr>), h2))"
      using d(1,2) n(1) alternative_none [OF inv2 n(1) True] by (simp add: splicing_mutation_unfold)
    moreover have "new_beside h h2 d"
      by (rule new_besideI [OF d(5,3), where S = "set (anns d)"]) (use d(6) in \<open>auto simp: same_outside_def\<close>)
    moreover have "spliced ty k c h t d"
      unfolding spliced_def using pk kept True by (intro exI [of _ d] exI [of _ s] exI [of _ h2]) simp
    ultimately show ?thesis
      using inv2 by (intro exI [of _ "empty_tree\<lparr>root := root_ptr d\<rparr>"] exI [of _ h2] exI [of _ d]) simp
  next
    case False
    obtain u h3 where u: "chunk_store_get_alternative_node ty k (Some a) h2 = Some (root_ptr u, h3)" "new_tree_in h2 h3 u"
      "erase u \<in> ran c" "ty (tid u) = ty (node_id n)" "u \<noteq> Null"
      using alternative_some [OF inv2 rgrowsD(4) [OF d(5)] n(1) False sz] by blast
    have tu: "tid u = tid s" using u(4) n(2) ty by (simp add: inj_eq)
    have ru: "rep h3 None u" and rg3: "rgrows h2 h3" and ua: "\<And>x. x \<in> set (anns u) \<Longrightarrow> brk h2 \<le> x \<and> x < brk h3"
      using u(2) by (auto simp: new_tree_in_def)
    have rg: "rgrows h h3" using rgrows_trans [OF d(5) rg3] .
    have rd3: "rep h3 None d" using rep_same [OF d(3) rgrowsD(1) [OF d(5)]] rgrowsD(5) [OF rg3] by blast
    have n3: "nodes h3 a = Some n" using n(1) rgrowsD(5) [OF rg3] heap_okD [OF rgrowsD(1) [OF d(5)]] by metis
    have disj: "set (anns u) \<inter> set (anns d) = {}" using ua d(6) by fastforce
    have "height d < k" using erase_height [OF d(4)] k by simp
    then obtain h4 where h4: "replace_picked k (root_ptr d) (parent n) (Some a) (root_ptr u) h3 = Some (root_ptr (subst a u d), h4)"
      "rep h4 None (subst a u d)" "same_outside (set (anns d) \<union> set (anns u)) h3 h4"
      "set (anns (subst a u d)) \<subseteq> set (anns d) \<union> set (anns u)"
      using replace_picked_ok [OF rd3 s(1,2,4) ru u(5) tu disj _ n3] by blast
    have "splicing_mutation ty k (Some tree) h = Some (Ret (Some (empty_tree\<lparr>root := root_ptr (subst a u d)\<rparr>), h4))"
      using d(1,2) n u(1,5) h4(1) by (simp add: splicing_mutation_unfold)
    moreover have nb: "new_beside h h4 (subst a u d)"
      by (rule new_besideI [OF rg h4(2,3)])
        (use d(6) ua h4(4) rgrowsD(3) [OF d(5)] rgrowsD(3) [OF rg3] in fastforce)+
    moreover have "spliced ty k c h t (subst a u d)"
    proof -
      have "\<exists>e\<in>ran c. tid e = tid s" using kept False by simp
      moreover have "chunk_store_get_alternative_node ty k (root_ptr s) h2 = Some (root_ptr u, h3)" using u(1) unfolding s(2) .
      ultimately show ?thesis
        unfolding spliced_def using pk u(2,3,5) tu an
        by (intro exI [of _ d] exI [of _ s] exI [of _ h2]) (simp, intro exI [of _ u] exI [of _ h3], simp)
    qed
    moreover have "store_inv digest ty U h4 c {}"
      using nb store_inv_frame [OF inv, of h4] rmore_eq [of h4 h] by (auto simp: new_beside_def)
    ultimately show ?thesis by (intro exI [of _ "empty_tree\<lparr>root := root_ptr (subst a u d)\<rparr>"]) auto
  qed
qed

section \<open>Clearing the store\<close>

lemma free_only_self_ok:
  assumes "nodes h a = Some n"
  shows "\<exists>h'. node_free_only_self (Some a) h = Some h' \<and> freed {a} h h'"
  using assms by (simp add: node_free_only_self_def upd_Some freed_def)

lemma free_list_ok:
  assumes "distinct xs" and "\<And>p. p \<in> set xs \<Longrightarrow> \<exists>a n. p = Some a \<and> nodes h a = Some n"
  shows "\<exists>h'. foldM node_free_only_self xs h = Some h' \<and> freed {a. Some a \<in> set xs} h h'"
  using assms
proof (induction xs arbitrary: h)
  case (Cons p xs)
  obtain a n where a: "p = Some a" "nodes h a = Some n" using Cons.prems(2) [of p] by auto
  obtain h1 where h1: "node_free_only_self (Some a) h = Some h1" "freed {a} h h1"
    using free_only_self_ok [OF a(2)] by blast
  have "\<exists>b n. q = Some b \<and> nodes h1 b = Some n" if q: "q \<in> set xs" for q
  proof -
    obtain b n where b: "q = Some b" "nodes h b = Some n" using Cons.prems(2) [of q] q by auto
    moreover have "b \<noteq> a" using Cons.prems(1) q b(1) a(1) by auto
    ultimately show ?thesis using freed_nodes [OF h1(2), of b] by simp
  qed
  then obtain h2 where h2: "foldM node_free_only_self xs h1 = Some h2" "freed {a. Some a \<in> set xs} h1 h2"
    using Cons.IH [of h1] Cons.prems(1) by auto
  have "{b. Some b \<in> set (p # xs)} = {a} \<union> {b. Some b \<in> set xs}" using a(1) by auto
  then show ?case using h1(1) h2(1) freed_trans [OF h1(2) h2(2)] a(1) by simp
qed simp

lemma freed_maps:
  fixes h h' :: "'z cheap_scheme"
  assumes "freed S h h'"
  shows "chunk_store h' = chunk_store h" "seen_chunks h' = seen_chunks h"
  using assms cheap_more_eq [of h' h] by (auto simp: freed_def)

text \<open>The addresses in the lists of the given keys.\<close>

definition kept_under :: "(u32 \<Rightarrow> key) \<Rightarrow> (nat \<Rightarrow> unit tree option) \<Rightarrow> key list \<Rightarrow> nat set" where
  "kept_under ty c keys = {a. \<exists>e. c a = Some e \<and> ty (tid e) \<in> set keys}"

lemma kept_under_Cons: "kept_under ty c (key # keys) = {a. Some a \<in> chunks_of ty c key} \<union> kept_under ty c keys"
  by (auto simp: kept_under_def chunks_of_def split: option.splits)

lemma clear_loop_ok:
  fixes h :: "'z cheap_scheme"
  assumes "buckets (chunk_store h) = Some bs" and "length bs = unat (nbuckets (chunk_store h))" and "iter_ok bs it"
    and "length (to_visit bs it) < k" and "distinct (map mkey (to_visit bs it))"
    and "\<And>key. key \<in> mkey ` set (to_visit bs it) \<Longrightarrow> \<exists>xs. map_get (chunk_store h) key = Some (Some (Some xs))
      \<and> distinct xs \<and> set xs = chunks_of ty c key"
    and "\<And>a. a \<in> kept_under ty c (map mkey (to_visit bs it)) \<Longrightarrow> nodes h a \<noteq> None"
  shows "\<exists>h'. clear_loop k it h = Some h' \<and> freed (kept_under ty c (map mkey (to_visit bs it))) h h'"
  using assms
proof (induction k arbitrary: it h)
  case (Suc k)
  obtain it' where it': "map_next (chunk_store h) it = Some (case to_visit bs it of [] \<Rightarrow> None | n # _ \<Rightarrow> Some (mkey n), it')"
    "to_visit bs it \<noteq> [] \<longrightarrow> to_visit bs it' = tl (to_visit bs it) \<and> iter_ok bs it'"
    using map_next_ok [OF Suc.prems(1-3)] by blast
  show ?case
  proof (cases "to_visit bs it")
    case Nil
    then show ?thesis using it'(1) by (simp add: kept_under_def)
  next
    case (Cons m ms)
    have t: "to_visit bs it' = ms" "iter_ok bs it'" using it'(2) Cons by auto
    obtain xs where xs: "map_get (chunk_store h) (mkey m) = Some (Some (Some xs))" "distinct xs"
      "set xs = chunks_of ty c (mkey m)" using Suc.prems(6) [of "mkey m"] Cons by auto
    have ku: "kept_under ty c (map mkey (to_visit bs it)) = {a. Some a \<in> set xs} \<union> kept_under ty c (map mkey ms)"
      using Cons xs(3) kept_under_Cons by simp
    have alloc: "\<exists>a n. p = Some a \<and> nodes h a = Some n" if p: "p \<in> set xs" for p
    proof -
      obtain a where "p = Some a" using p xs(3) by (auto simp: chunks_of_def)
      then show ?thesis using Suc.prems(7) [of a] ku p by auto
    qed
    obtain h1 where h1: "foldM node_free_only_self xs h = Some h1" "freed {a. Some a \<in> set xs} h h1"
      using free_list_ok [OF xs(2), of h] alloc by blast
    note fm = freed_maps [OF h1(2)]
    have sep: "a \<notin> {a. Some a \<in> set xs}" if "a \<in> kept_under ty c (map mkey ms)" for a
      using that xs(3) Suc.prems(5) Cons by (auto simp: kept_under_def chunks_of_def split: option.splits)
    have "\<exists>h'. clear_loop k it' h1 = Some h' \<and> freed (kept_under ty c (map mkey (to_visit bs it'))) h1 h'"
    proof (rule Suc.IH)
      fix a assume a: "a \<in> kept_under ty c (map mkey (to_visit bs it'))"
      then have "nodes h a \<noteq> None" using Suc.prems(7) [of a] ku t(1) by auto
      then show "nodes h1 a \<noteq> None" using freed_nodes [OF h1(2)] sep [of a] a t(1) by simp
    qed (use Suc.prems(1,2,4-6) Cons t fm in auto)
    then obtain h2 where "clear_loop k it' h1 = Some h2" "freed (kept_under ty c (map mkey ms)) h1 h2"
      using t(1) by auto
    then show ?thesis using it'(1) Cons xs(1) h1(1) freed_trans [OF h1(2)] ku by auto
  qed
qed simp

lemma clear_view:
  fixes h :: "'z cheap_scheme"
  assumes inv: "store_inv digest ty U h c {}" and k: "length (entries (chunk_store h)) < k"
  shows "\<exists>h'. chunk_store_clear k h = Some h' \<and> (\<forall>x. nodes h' x = (if x \<in> dom c then None else nodes h x))
    \<and> seen_chunks h' = map_init \<and> chunk_store h' = map_init \<and> brk h' = brk h \<and> avail h' = avail h"
proof -
  let ?h = "h\<lparr>seen_chunks := map_deinit (seen_chunks h)\<rparr>"
  have mo: "map_ok (chunk_store h)" using inv by (simp add: store_inv_def maps_ok_def)
  have get: "map_get (chunk_store h) key = Some (assoc (chunk_store h) key)" for key
    using mo by (intro map_get_assoc) (simp add: map_ok_def)
  have lists: "(map_get (chunk_store h) key = Some None \<and> chunks_of ty c key = {})
          \<or> (\<exists>xs. map_get (chunk_store h) key = Some (Some (Some xs)) \<and> distinct xs \<and> xs \<noteq> []
               \<and> set xs = chunks_of ty c key)" for key
    using inv unfolding store_inv_def maps_ok_def by blast
  have key_in: "ty (tid e) \<in> set (map mkey (entries (chunk_store h)))" if "c a = Some e" for a e
  proof -
    have "Some a \<in> chunks_of ty c (ty (tid e))" using that by (auto simp: chunks_of_def)
    then have "assoc (chunk_store h) (ty (tid e)) \<noteq> None" using lists [of "ty (tid e)"] get by auto
    then show ?thesis using assoc_eq_None by (metis image_set)
  qed
  have all: "kept_under ty c (map mkey (entries (chunk_store h))) = dom c"
    using key_in by (auto simp: kept_under_def)
  have "\<exists>h'. clear_loop k map_iter ?h = Some h' \<and> freed (dom c) ?h h'"
  proof (cases "buckets (chunk_store h)")
    case None
    then have "nbuckets (chunk_store h) = 0" "entries (chunk_store h) = []"
      using mo by (simp_all add: map_ok_def buckets_ok_def entries_def)
    moreover obtain j where "k = Suc j" using k by (cases k) auto
    moreover have "dom c = {}" using all \<open>entries (chunk_store h) = []\<close> by (simp add: kept_under_def)
    ultimately show ?thesis by (simp add: map_next_def map_iter_def Let_def)
  next
    case (Some bs)
    have tv: "to_visit bs map_iter = entries (chunk_store h)" by (simp add: to_visit_def map_iter_def entries_def Some)
    have "\<exists>h'. clear_loop k map_iter ?h = Some h' \<and> freed (kept_under ty c (map mkey (to_visit bs map_iter))) ?h h'"
    proof (rule clear_loop_ok)
      show "buckets (chunk_store ?h) = Some bs" using Some by simp
      show "length bs = unat (nbuckets (chunk_store ?h))" using mo Some by (simp add: map_ok_def buckets_ok_def)
      show "iter_ok bs map_iter" by (simp add: iter_ok_def map_iter_def)
      show "distinct (map mkey (to_visit bs map_iter))" using distinct_map_keys [OF mo] tv by simp
      fix key assume "key \<in> mkey ` set (to_visit bs map_iter)"
      then have "assoc (chunk_store h) key \<noteq> None" using tv assoc_eq_None by metis
      then show "\<exists>xs. map_get (chunk_store ?h) key = Some (Some (Some xs)) \<and> distinct xs \<and> set xs = chunks_of ty c key"
        using lists [of key] get [of key] by auto
    next
      fix a assume "a \<in> kept_under ty c (map mkey (to_visit bs map_iter))"
      then obtain e where "c a = Some e" by (auto simp: kept_under_def)
      from store_dag [OF inv this] obtain t where "view h t" "root_ptr t = Some a" by (auto simp: dag_def)
      then show "nodes ?h a \<noteq> None" using view_in_heap root_ptr_in_anns by fastforce
    qed (use k tv in simp)
    then show ?thesis using tv all by simp
  qed
  then obtain h' where h': "clear_loop k map_iter ?h = Some h'" "freed (dom c) ?h h'" by blast
  then show ?thesis
    using freed_maps [OF h'(2)] by (simp add: chunk_store_clear_def Let_def freed_def map_deinit_def map_init_def)
qed

end
