(* ===== verification/Recursive_Mutation.thy ===== *)
theory Recursive_Mutation
  imports Trimming
begin

text \<open>
  \<open>random_recursive_mutation\<close> of Grammar-Mutator/src/tree\_mutation.c: the recursion that was
  picked is repeated 2 to n times.
\<close>

section \<open>Filling the hole of a copy\<close>

definition attach :: "ptr \<Rightarrow> nat \<Rightarrow> ptr \<Rightarrow> 'z heap_scheme \<Rightarrow> 'z heap_scheme option" where
  "attach par j tail h = do {
     h \<leftarrow> upd tail (parent_update (\<lambda>_. par)) h;
     set_sub_at par j tail h
   }"

lemma attach_run:
  assumes "nodes h x = Some xn" and "nodes h q = Some qn" and "x \<noteq> q"
    and "subnodes qn = Some arr" and "j < length arr"
  shows "attach (Some q) j (Some x) h = Some (wr q (swing j (Some x) qn) (wr x (xn\<lparr>parent := Some q\<rparr>) h))"
  using assms set_sub_at_swing [of "wr x (xn\<lparr>parent := Some q\<rparr>) h" q qn arr j "Some x"]
  by (simp add: attach_def upd_Some)

lemma fill_hole:
  assumes q: "rep h None (Node q i r v qs)" and j: "j < length qs" "qs ! j = Null"
    and X: "rep h par X" "root_ptr X = Some x" and disj: "set (anns X) \<inter> set (anns (Node q i r v qs)) = {}"
  shows "\<exists>h'. attach (Some q) j (Some x) h = Some h' \<and> rep h' None (Node q i r v (qs[j := X])) \<and>
    brk h' = brk h \<and> avail h' = avail h \<and> heap.more h' = heap.more h \<and>
    (\<forall>y. y \<noteq> q \<and> y \<noteq> x \<longrightarrow> nodes h' y = nodes h y)"
proof -
  obtain qn where qn: "nodes h q = Some qn" "parent qn = None" using q by (auto simp: rep_def)
  have qv: "node_id qn = i \<and> rule_id qn = r \<and> val_ok qn v \<and> kids_ok qn qs \<and> (\<forall>t\<in>set qs. view h t)"
    using view_node [of h q i r v qs qn] q qn by (simp add: rep_def)
  have qp: "\<forall>t\<in>set qs. parents h (Some q) t" and qd: "q \<notin> set (concat (map anns qs))" "distinct (concat (map anns qs))"
    using q by (auto simp: rep_def)
  have arr: "subnodes qn = Some (map (\<lambda>t. Some (root_ptr t)) qs)" using qv j(1) by (auto simp: kids_ok_def)
  obtain b i' r' w us where Xe: "X = Node b i' r' w us" using X(2) by (cases X) auto
  obtain xn where xn: "nodes h x = Some xn" using X Xe by (auto simp: rep_def)
  have xq: "x \<noteq> q" "x \<in> set (anns X)" using X(2) root_ptr_in_anns disj by auto
  define h' where "h' = wr q (swing j (Some x) qn) (wr x (xn\<lparr>parent := Some q\<rparr>) h)"
  have run: "attach (Some q) j (Some x) h = Some h'"
    using attach_run [OF xn qn(1) xq(1) arr] j(1) by (simp add: h'_def)
  have nh: "nodes h' y = (if y = q then Some (swing j (Some x) qn) else if y = x then Some (xn\<lparr>parent := Some q\<rparr>)
      else nodes h y)" for y by (simp add: h'_def)
  have vX: "view h' X"
    by (rule view_frame [of h]) (use X(1) nh xn disj in \<open>auto simp: rep_def\<close>)
  have pX: "parents h' (Some q) X"
    by (rule parents_root [of h par]) (use X nh disj xn xq(1) in \<open>auto simp: rep_def\<close>)
  have same: "nodes h' y = nodes h y" if "t \<in> set qs" "y \<in> set (anns t)" for t y
    using nh that disj qd(1) xq by auto
  have kid: "view h' t \<and> parents h' (Some q) t" if t: "t \<in> set (qs[j := X])" for t
  proof -
    from t consider "t = X" | "t \<in> set qs" using set_update_subset_insert [of qs j X] by auto
    then show ?thesis
    proof cases
      case 2
      then show ?thesis using qv qp same view_cong parents_cong by metis
    qed (use vX pX in simp)
  qed
  have "kids_ok (swing j (Some x) qn) (qs[j := X])" using kids_ok_swing [of qn qs j X] qv X(2) by simp
  then have "view h' (Node q i r v (qs[j := X]))" using nh qv kid by auto
  moreover have "parents h' None (Node q i r v (qs[j := X]))" using nh qn(2) kid by auto
  moreover have "distinct (anns (Node q i r v (qs[j := X])))"
  proof -
    have qs: "qs = take j qs @ Null # drop (Suc j) qs" using id_take_nth_drop [OF j(1)] j(2) by simp
    have "distinct (concat (map anns (take j qs @ X # drop (Suc j) qs))) \<and>
        q \<notin> set (concat (map anns (take j qs @ X # drop (Suc j) qs)))"
      using qd disj X(1) arg_cong [OF qs, of "\<lambda>qs. concat (map anns qs)"] unfolding rep_def
      by (subst (asm) (1 2) qs) auto
    then show ?thesis using j(1) by (simp add: upd_conv_take_nth_drop)
  qed
  ultimately show ?thesis using run nh by (auto simp: rep_def h'_def)
qed

section \<open>Nesting\<close>

definition nest :: "u32 \<Rightarrow> u32 \<Rightarrow> u8 list \<Rightarrow> unit tree list \<Rightarrow> nat \<Rightarrow> nat \<Rightarrow> unit tree \<Rightarrow> unit tree" where
  "nest i r v us j m x = ((\<lambda>x. Node () i r v (us[j := x])) ^^ m) x"

lemma nest_simps [simp]:
  "nest i r v us j 0 x = x"
  "nest i r v us j (Suc m) x = Node () i r v (us[j := nest i r v us j m x])"
  by (simp_all add: nest_def)

definition nest_body ::
    "nat \<Rightarrow> ptr \<Rightarrow> nat \<Rightarrow> ptr \<times> 'z heap_scheme \<Rightarrow> (ptr \<times> 'z heap_scheme) option" where
  "nest_body k par j th = (case th of (tail, h) \<Rightarrow> do {
     (cloned_part, h) \<leftarrow> node_clone k par h;
     h \<leftarrow> attach cloned_part j tail h;
     Some (cloned_part, h)
   })"

text \<open>One more repetition: \<open>P\<close> is the node with its recursion cut out.\<close>

lemma nest_step:
  fixes h :: "'z heap_scheme"
  assumes P: "view h (Node p i r v ps)" "height (Node p i r v ps) < k" and hk: "heap_ok h" "mem_ok h"
    and j: "j < length ps" "ps ! j = Null" and X: "rep h par X" "root_ptr X = Some x"
    and B: "B \<le> brk h" "x < brk h"
  shows "\<exists>y h' Y. nest_body k (Some p) j (Some x, h) = Some (Some y, h') \<and> rep h' None Y \<and> root_ptr Y = Some y \<and>
    erase Y = Node () i r v ((map erase ps)[j := erase X]) \<and> heap_ok h' \<and> avail h' = avail h \<and>
    heap.more h' = heap.more h \<and> brk h \<le> brk h' \<and> y < brk h' \<and>
    (\<forall>z\<in>set (anns Y). z \<in> set (anns X) \<or> B \<le> z) \<and> (\<forall>z<brk h. z \<noteq> x \<longrightarrow> nodes h' z = nodes h z) \<and>
    brk h \<le> y"
proof -
  obtain Q h1 where c: "node_clone k (Some p) h = Some (root_ptr Q, h1)" "fresh_copy h (Node p i r v ps) h1 Q"
    using node_clone_view [OF P(1) hk P(2)] by auto
  obtain q qs where Q: "Q = Node q i r v qs" "map erase qs = map erase ps"
    using c(2) by (cases Q) (auto simp: fresh_copy_def)
  have g: "grows h h1" and rQ: "rep h1 None Q" and aQ: "\<And>z. z \<in> set (anns Q) \<Longrightarrow> brk h \<le> z \<and> z < brk h1"
    using c(2) by (auto simp: fresh_copy_def)
  have len: "length qs = length ps" using Q(2) map_eq_imp_length_eq by blast
  have "erase (qs ! j) = erase (ps ! j)" using Q(2) j(1) len by (metis nth_map)
  then have qj: "qs ! j = Null" using j(2) by simp
  have X1: "rep h1 par X" using rep_grows [OF X(1) hk(1) g] .
  have Xlt: "z < brk h" if "z \<in> set (anns X)" for z using view_brk [of h X] X(1) hk(1) that by (simp add: rep_def)
  have disj: "set (anns X) \<inter> set (anns Q) = {}" using Xlt aQ by fastforce
  obtain h2 where h2: "attach (Some q) j (Some x) h1 = Some h2" "rep h2 None (Node q i r v (qs[j := X]))"
    "brk h2 = brk h1" "avail h2 = avail h1" "heap.more h2 = heap.more h1"
    "\<And>y. y \<noteq> q \<Longrightarrow> y \<noteq> x \<Longrightarrow> nodes h2 y = nodes h1 y"
    using fill_hole [OF rQ [unfolded Q(1)] _ qj X1 X(2) disj [unfolded Q(1)]] j(1) len by auto
  have q: "brk h \<le> q" "q < brk h1" using aQ [of q] Q(1) by auto
  have "nest_body k (Some p) j (Some x, h) = Some (Some q, h2)"
    using c(1) Q(1) h2(1) by (simp add: nest_body_def)
  moreover have "heap_ok h2"
    unfolding heap_ok_def using h2(3,6) growsD(1,3) [OF g] q B by (auto simp: heap_ok_def)
  moreover have "erase (Node q i r v (qs[j := X])) = Node () i r v ((map erase ps)[j := erase X])"
    using Q(2) by (simp add: map_update)
  moreover have "\<forall>z\<in>set (anns (Node q i r v (qs[j := X]))). z \<in> set (anns X) \<or> B \<le> z"
  proof
    fix z assume "z \<in> set (anns (Node q i r v (qs[j := X])))"
    then have "z \<in> set (anns X) \<or> z \<in> set (anns Q)"
      using set_update_subset_insert [of qs j X] Q(1) by auto
    then show "z \<in> set (anns X) \<or> B \<le> z" using aQ [of z] B(1) by auto
  qed
  moreover have "nodes h2 z = nodes h z" if "z < brk h" "z \<noteq> x" for z
    using h2(6) [of z] growsD(5) [OF g that(1)] that q by auto
  ultimately show ?thesis using h2 growsD [OF g] q
    by (intro exI [of _ q] exI [of _ h2] exI [of _ "Node q i r v (qs[j := X])"]) auto
qed

lemma nest_loop:
  fixes h :: "'z heap_scheme"
  assumes P: "view h (Node p i r v ps)" "height (Node p i r v ps) < k" and hk: "heap_ok h" "mem_ok h"
    and j: "j < length ps" "ps ! j = Null" and X: "rep h par X" "root_ptr X = Some x"
    and B: "B \<le> brk h" "x < brk h" and xP: "x \<notin> set (anns (Node p i r v ps))"
  shows "\<exists>y h' Y par'. foldM (\<lambda>_. nest_body k (Some p) j) [0..<m] (Some x, h) = Some (Some y, h') \<and>
    rep h' par' Y \<and> root_ptr Y = Some y \<and>
    erase Y = nest i r v (map erase ps) j m (erase X) \<and> heap_ok h' \<and> avail h' = avail h \<and>
    heap.more h' = heap.more h \<and> brk h \<le> brk h' \<and> y < brk h' \<and>
    (\<forall>z\<in>set (anns Y). z \<in> set (anns X) \<or> B \<le> z) \<and> (\<forall>z<brk h. z \<noteq> x \<longrightarrow> nodes h' z = nodes h z) \<and>
    (y = x \<or> brk h \<le> y)"
proof (induction m)
  case 0
  then show ?case using X hk B by (intro exI [of _ x] exI [of _ h] exI [of _ X] exI [of _ par]) auto
next
  case (Suc m)
  then obtain y h' Y par' where IH: "foldM (\<lambda>_. nest_body k (Some p) j) [0..<m] (Some x, h) = Some (Some y, h')"
    "rep h' par' Y" "root_ptr Y = Some y" "erase Y = nest i r v (map erase ps) j m (erase X)" "heap_ok h'"
    "avail h' = avail h" "heap.more h' = heap.more h" "brk h \<le> brk h'" "y < brk h'"
    "\<And>z. z \<in> set (anns Y) \<Longrightarrow> z \<in> set (anns X) \<or> B \<le> z"
    "\<And>z. z < brk h \<Longrightarrow> z \<noteq> x \<Longrightarrow> nodes h' z = nodes h z" "y = x \<or> brk h \<le> y" by blast
  have P': "view h' (Node p i r v ps)"
  proof (rule view_cong [OF P(1)])
    fix z assume z: "z \<in> set (anns (Node p i r v ps))"
    then have "z < brk h" "z \<noteq> x" using view_brk [OF P(1) hk(1)] xP by auto
    then show "nodes h' z = nodes h z" using IH(11) by blast
  qed
  have m': "mem_ok h'" "B \<le> brk h'" using IH(6,8) hk(2) B(1) by auto
  obtain w h2 Z where Z: "nest_body k (Some p) j (Some y, h') = Some (Some w, h2)" "rep h2 None Z" "root_ptr Z = Some w"
    "erase Z = Node () i r v ((map erase ps)[j := erase Y])" "heap_ok h2" "avail h2 = avail h'"
    "heap.more h2 = heap.more h'" "brk h' \<le> brk h2" "w < brk h2"
    "\<And>z. z \<in> set (anns Z) \<Longrightarrow> z \<in> set (anns Y) \<or> brk h' \<le> z"
    "\<And>z. z < brk h' \<Longrightarrow> z \<noteq> y \<Longrightarrow> nodes h2 z = nodes h' z" "brk h' \<le> w"
    using nest_step [OF P' P(2) IH(5) m'(1) j IH(2,3) order.refl IH(9)] by blast
  have "foldM (\<lambda>_. nest_body k (Some p) j) [0..<Suc m] (Some x, h) = Some (Some w, h2)"
    using IH(1) Z(1) by (simp add: foldM_append)
  moreover have "z \<in> set (anns X) \<or> B \<le> z" if "z \<in> set (anns Z)" for z
    using Z(10) [OF that] IH(10) m'(2) by fastforce
  moreover have "nodes h2 z = nodes h z" if "z < brk h" "z \<noteq> x" for z
  proof -
    have "z \<noteq> y" "z < brk h'" using IH(8,12) that by auto
    then show ?thesis using Z(11) [of z] IH(11) [OF that] by simp
  qed
  moreover have "erase Z = nest i r v (map erase ps) j (Suc m) (erase X)" using Z(4) IH(4) by simp
  ultimately show ?case using Z IH(6-8)
    by (intro exI [of _ w] exI [of _ h2] exI [of _ Z] exI [of _ None]) auto
qed

section \<open>random\_recursive\_mutation\<close>

text \<open>
  The result for the edge from \<open>p\<close> to its \<open>j\<close>-th subnode: the subnode became \<open>X\<close>, the
  original subnode under \<open>m\<close> copies of \<open>p\<close>.
\<close>

definition repeated :: "nat \<Rightarrow> nat tree \<Rightarrow> nat tree \<Rightarrow> bool" where
  "repeated m t t' \<longleftrightarrow> (\<exists>c p j s i r v ts X. erase c = erase t \<and> distinct (anns c) \<and> child_at c p j s \<and> s \<noteq> Null \<and>
     Node p i r v ts \<in> set (subtrees c) \<and> j < length ts \<and> ts ! j = s \<and> tid s = i \<and>
     erase X = nest i r v (map erase ts) j m (erase s) \<and> t' = subst (ann s) X c)"

lemma random_recursive_mutation_unfold:
  "random_recursive_mutation k (Some tree) n h = do {
     (mutated_tree, h) \<leftarrow> tree_clone k tree h;
     (e, h) \<leftarrow> node_pick_recursion_edge k (root mutated_tree) h;
     if e_parent e = None \<or> e_subnode e = None then Some (Some mutated_tree, h)
     else do {
       h \<leftarrow> upd (e_subnode e) (parent_update (\<lambda>_. None)) h;
       h \<leftarrow> set_sub_at (e_parent e) (e_offset e) None h;
       guard (n < 31);
       (tail, h) \<leftarrow> foldM (\<lambda>_. nest_body k (e_parent e) (e_offset e)) [0..<2 ^ unat n] (e_subnode e, h);
       h \<leftarrow> attach (e_parent e) (e_offset e) tail h;
       Some (Some mutated_tree, h)
     }}"
proof -
  have *: "(\<lambda>_. nest_body k p j) = (\<lambda>_::nat. (\<lambda>(tail, h). do {
             (cloned_part, h) \<leftarrow> node_clone k p h;
             h \<leftarrow> upd tail (parent_update (\<lambda>_. cloned_part)) h;
             h \<leftarrow> set_sub_at cloned_part j tail h;
             Some (cloned_part, h)
           }))" for p j
    by (intro ext) (simp add: nest_body_def attach_def split: prod.split)
  show ?thesis
    unfolding random_recursive_mutation_def Let_def * attach_def by (simp add: bind_assoc cong: if_cong)
qed

lemma swing_again [simp]: "swing j q (swing j q' n) = swing j q n"
  by (cases n; cases "subnodes n") (auto simp: swing_def)

text \<open>Cutting the subnode out of its parent.\<close>

lemma cut_edge:
  fixes h :: "'z heap_scheme"
  assumes c: "rep h None c" and ch: "child_at c p j s" and s: "s = Node a i' r' w ss"
    and P: "Node p i r v ts \<in> set (subtrees c)" "j < length ts" "ts ! j = s"
  obtains pn sn h2 where "upd (Some a) (parent_update (\<lambda>_. None)) h = Some (wr a (sn\<lparr>parent := None\<rparr>) h)"
    "set_sub_at (Some p) j None (wr a (sn\<lparr>parent := None\<rparr>) h) = Some h2"
    "h2 = wr p (swing j None pn) (wr a (sn\<lparr>parent := None\<rparr>) h)" "nodes h p = Some pn" "nodes h a = Some sn"
    "\<exists>arr. subnodes pn = Some arr \<and> j < length arr"
    "p \<noteq> a" "rep h2 None s" "view h2 (Node p i r v (ts[j := Null]))" "a \<notin> set (anns (Node p i r v (ts[j := Null])))"
proof -
  have vc: "view h c" "parents h None c" "distinct (anns c)" using c by (auto simp: rep_def)
  let ?P = "Node p i r v ts"
  have vP: "view h ?P" and dP: "distinct (anns ?P)" using view_subtree [OF vc(1) P(1)] subtrees_distinct [OF P(1) vc(3)] by auto
  have chP: "child_at ?P p j s" using P by simp
  obtain pn us where pn: "nodes h p = Some pn" "kids_ok pn us" "j < length us" "us ! j = s" "view h s" "parents h (Some p) s"
    using child_at_heap [OF vc(1,2) ch, of thesis] s by blast
  have arr: "subnodes pn = Some (map (\<lambda>t. Some (root_ptr t)) us)" using pn(2,3) by (auto simp: kids_ok_def)
  obtain sn where sn: "nodes h a = Some sn" using pn(5) s by auto
  have ps: "p \<notin> set (anns s)" using dP P(2,3) nth_mem [OF P(2)] by auto
  then have pa: "p \<noteq> a" using s by auto
  define h2 where "h2 = wr p (swing j None pn) (wr a (sn\<lparr>parent := None\<rparr>) h)"
  have n2: "nodes h2 x = (if x = p then Some (swing j None pn) else if x = a then Some (sn\<lparr>parent := None\<rparr>) else nodes h x)" for x
    by (simp add: h2_def)
  have u: "upd (Some a) (parent_update (\<lambda>_. None)) h = Some (wr a (sn\<lparr>parent := None\<rparr>) h)"
    using upd_Some [OF sn] by simp
  have e: "set_sub_at (Some p) j None (wr a (sn\<lparr>parent := None\<rparr>) h) = Some h2"
    using set_sub_at_swing [of "wr a (sn\<lparr>parent := None\<rparr>) h" p pn _ j None] pn(1,3) arr pa by (simp add: h2_def)
  have ds: "distinct (anns s)" using child_at_distinct [OF chP dP] .
  have vs: "view h2 s" by (rule view_frame [OF pn(5)]) (use n2 sn ps in auto)
  have "parents h2 None s"
  proof (rule parents_root [OF pn(6) ds])
    fix x assume "x \<in> set (anns s)" "root_ptr s \<noteq> Some x"
    then show "nodes h2 x = nodes h x" using n2 [of x] ps s by auto
  next
    fix x assume "root_ptr s = Some x"
    then show "\<exists>n. nodes h2 x = Some n \<and> parent n = None" using n2 [of x] pa s by auto
  qed
  then have rs: "rep h2 None s" using vs ds by (simp add: rep_def)
  have "view h2 (subst a Null ?P)"
    by (rule view_subst [OF vP dP chP s]) (use n2 pn(1) s in auto)
  moreover have hole: "subst a Null ?P = Node p i r v (ts[j := Null])"
    using chP [unfolded s] dP
  proof (cases rule: child_at_cases [where u = Null])
    case here
    then show ?thesis by simp
  qed simp
  moreover have "a \<notin> set (anns (subst a Null ?P))"
    using anns_subst(1) [OF chP [unfolded s] dP, of Null] by simp
  ultimately show ?thesis
    using that [OF u e h2_def pn(1) sn _ pa rs] arr pn(3) by (simp del: view.simps anns.simps)
qed

text \<open>Closing the gap again, with what the loop built.\<close>

lemma close_edge:
  fixes h0 :: "'z heap_scheme"
  assumes c: "rep h0 None c" and ch: "child_at c p j s" and s: "s = Node a i' r' w ss"
    and pn: "nodes h0 p = Some pn" "subnodes pn = Some arr" "j < length arr"
    and Y: "rep h par Y" "root_ptr Y = Some y" and hp: "nodes h p = Some (swing j None pn)"
    and disj: "set (anns Y) \<inter> (set (anns c) - set (anns s)) = {}"
    and same: "\<And>x. x \<in> set (anns c) - set (anns s) \<Longrightarrow> x \<noteq> p \<Longrightarrow> nodes h x = nodes h0 x"
  shows "\<exists>h'. attach (Some p) j (Some y) h = Some h' \<and> rep h' None (subst a Y c) \<and>
    brk h' = brk h \<and> avail h' = avail h \<and> heap.more h' = heap.more h \<and>
    (\<forall>x. x \<noteq> p \<and> x \<noteq> y \<longrightarrow> nodes h' x = nodes h x)"
proof -
  have vc: "view h0 c" "parents h0 None c" "distinct (anns c)" using c by (auto simp: rep_def)
  have sN: "s \<noteq> Null" using s by simp
  have p: "p \<in> set (anns c)" "p \<notin> set (anns s)"
  proof -
    show "p \<in> set (anns c)" using child_at_anns [OF ch] by blast
    obtain n ts where "j < length ts" "ts ! j = s" "p \<notin> set (concat (map anns ts))"
      using child_at_heap [OF vc(1,2) ch sN] vc(3) by metis
    then show "p \<notin> set (anns s)" using nth_mem by fastforce
  qed
  have yY: "y \<in> set (anns Y)" using root_ptr_in_anns [OF Y(2)] .
  then have yp: "y \<noteq> p" using disj p by blast
  obtain yn where yn: "nodes h y = Some yn" using view_in_heap [of h Y y] Y(1) yY by (auto simp: rep_def)
  define h' where "h' = wr p (swing j (Some y) pn) (wr y (yn\<lparr>parent := Some p\<rparr>) h)"
  have run: "attach (Some p) j (Some y) h = Some h'"
    using attach_run [OF yn hp yp swing_subnodes [OF pn(2)]] pn(3) by (simp add: h'_def)
  have nh: "nodes h' x = (if x = p then Some (swing j (Some y) pn) else if x = y then Some (yn\<lparr>parent := Some p\<rparr>)
      else nodes h x)" for x by (simp add: h'_def)
  have pY: "p \<notin> set (anns Y)" using disj p by blast
  have vY: "view h' Y"
    by (rule view_frame [of h]) (use Y(1) nh yn pY in \<open>auto simp: rep_def\<close>)
  have "parents h' (Some p) Y"
    by (rule parents_root [of h par]) (use Y nh pY yp in \<open>auto simp: rep_def\<close>)
  then have "parents h' None (subst a Y c)"
  proof (rule parents_subst [OF vc(2,3) ch s])
    fix x n assume x: "x \<in> set (anns c)" "x \<notin> set (anns s)" "nodes h0 x = Some n"
    then have "x \<noteq> y" using disj yY by blast
    then show "\<exists>m. nodes h' x = Some m \<and> parent m = parent n"
      using x same [of x] nh [of x] pn(1) by (cases "x = p") auto
  qed
  moreover have "view h' (subst a Y c)"
  proof (rule view_subst [OF vc(1,3) ch s vY])
    fix x n assume x: "x \<in> set (anns c)" "x \<notin> set (anns s)" "nodes h0 x = Some n"
    then have "x \<noteq> y" using disj yY by blast
    then show "\<exists>m. nodes h' x = Some m \<and> strip m = strip (if x = p then swing j (root_ptr Y) n else n)"
      using x same [of x] nh [of x] pn(1) Y(2) by (cases "x = p") auto
  qed
  moreover have "distinct (anns (subst a Y c))"
    using anns_subst(2) [OF ch [unfolded s] vc(3), of Y] Y(1) disj s by (auto simp: rep_def)
  ultimately show ?thesis using run nh by (auto simp: rep_def h'_def)
qed

lemma height_hole: "height (Node p i r w (ts[j := Null])) \<le> height (Node p i r w ts)"
proof -
  have "fold max (map height (ts[j := Null])) 0 < Suc (fold max (map height ts) 0)"
  proof (rule fold_max_less)
    fix x assume "x \<in> set (map height (ts[j := Null]))"
    then obtain t where t: "t \<in> set (ts[j := Null])" "x = height t" by auto
    then have "t = Null \<or> t \<in> set ts" using set_update_subset_insert [of ts j Null] by auto
    then show "x < Suc (fold max (map height ts) 0)"
      using t(2) fold_max_ge [of x "map height ts" 0] by (auto simp: less_Suc_eq_le)
  qed simp
  then show ?thesis by simp
qed

lemma nest_hole: "nest i r v (us[j := z]) j m x = nest i r v us j m x"
  by (simp add: nest_def)

lemma new_besideI2:
  assumes "rgrows h h2" and "rep h5 None t'" and "heap_ok h5" and "avail h5 = avail h2" and "heap.more h5 = heap.more h2"
    and "brk h2 \<le> brk h5" and "\<And>x. x < brk h \<Longrightarrow> nodes h5 x = nodes h2 x"
    and "\<And>x. x \<in> set (anns t') \<Longrightarrow> brk h \<le> x"
  shows "new_beside h h5 t'"
proof -
  have "random_seed h5 = random_seed h2 \<and> rheap.more h5 = rheap.more h2" using assms(5) by (cases h5; cases h2) simp
  then show ?thesis using assms rgrowsD [OF assms(1)] by (simp add: new_beside_def)
qed

lemma random_recursive_mutation_view:
  fixes h :: "'z rheap_scheme"
  assumes v: "view h t" "sized h t" and hk: "heap_ok h" "mem_ok h" "rng_live (random_seed h)"
    and re: "0 < re_size t" "re_size t < 2 ^ 32" and n: "n < 31"
    and k: "height t < k" and rt: "root tree = root_ptr t"
  shows "\<exists>tree' h' t'. random_recursive_mutation k (Some tree) n h = Some (Some tree', h') \<and>
    root tree' = root_ptr t' \<and> new_beside h h' t' \<and> repeated (2 ^ unat n) t t'"
proof -
  obtain c h1 where c: "tree_clone k tree h = Some (empty_tree\<lparr>root := root_ptr c\<rparr>, h1)" "fresh_copy h t h1 c"
    using tree_clone_view [OF v(1) hk(1,2) k rt] by auto
  have rc: "rep h1 None c" "erase c = erase t" "sized h1 c" and gr: "grows h h1"
    and ca: "\<And>a. a \<in> set (anns c) \<Longrightarrow> brk h \<le> a \<and> a < brk h1"
    using c(2) v(2) by (auto simp: fresh_copy_def)
  have rg: "rgrows h h1" using grows_rgrows [OF gr hk(3)] .
  have vc: "view h1 c" "distinct (anns c)" using rc by (auto simp: rep_def)
  have kc: "re_size c = re_size t" "height c < k" using re_size_erase [OF rc(2)] erase_height [OF rc(2)] k by auto
  obtain e s0 where e: "node_pick_recursion_edge k (root_ptr c) h1 = Some (e, h1\<lparr>random_seed := s0\<rparr>)"
    "e \<in> set (rec_edges c)" "rng_live s0"
    using pick_recursion_edge_view [OF vc(1) rc(3) _ _ rgrowsD(4) [OF rg]] kc re by metis
  define h2 where "h2 = h1\<lparr>random_seed := s0\<rparr>"
  have h2: "rep h2 None c" "heap_ok h2" "mem_ok h2" "brk h2 = brk h1" "rgrows h h2"
    using rc(1) rgrowsD [OF rg] hk(2) e(3) by (auto simp: h2_def intro!: rgrowsI)
  obtain p j i r w ts s where ed: "e = \<lparr>e_parent = Some p, e_subnode = root_ptr s, e_offset = j\<rparr>"
    "child_at c p j s" "s \<noteq> Null" "Node p i r w ts \<in> set (subtrees c)" "i = tid s" "j < length ts" "ts ! j = s"
    using rec_edges_child [OF e(2)] by blast
  obtain a i' r' w' ss where se: "s = Node a i' r' w' ss" using ed(3) by (cases s) auto
  obtain pn sn h3 where cut: "upd (Some a) (parent_update (\<lambda>_. None)) h2 = Some (wr a (sn\<lparr>parent := None\<rparr>) h2)"
    "set_sub_at (Some p) j None (wr a (sn\<lparr>parent := None\<rparr>) h2) = Some h3"
    "h3 = wr p (swing j None pn) (wr a (sn\<lparr>parent := None\<rparr>) h2)" "nodes h2 p = Some pn" "nodes h2 a = Some sn"
    "\<exists>arr. subnodes pn = Some arr \<and> j < length arr"
    "p \<noteq> a" "rep h3 None s" "view h3 (Node p i r w (ts[j := Null]))" "a \<notin> set (anns (Node p i r w (ts[j := Null])))"
    by (rule cut_edge [OF h2(1) ed(2) se ed(4,6,7)])
  have lt: "p < brk h2" "a < brk h2" using heap_okD [OF h2(2)] cut(4,5) by auto
  have h3: "heap_ok h3" "mem_ok h3" "brk h3 = brk h2" "heap.more h3 = heap.more h2" using h2(2,3) lt by (simp_all add: cut(3))
  have hP: "height (Node p i r w (ts[j := Null])) < k"
    using height_subtree [OF ed(4)] kc(2) height_hole [where j = j and ts = ts and p = p and i = i and r = r and w = w] by simp
  have jh: "j < length (ts[j := Null])" "ts[j := Null] ! j = Null" and rs: "root_ptr s = Some a" and al: "a < brk h3"
    using ed(6) se lt h3(3) by simp_all
  obtain y h4 Y par where Y: "foldM (\<lambda>_. nest_body k (Some p) j) [0..<2 ^ unat n] (Some a, h3) = Some (Some y, h4)"
    "rep h4 par Y" "root_ptr Y = Some y" "erase Y = nest i r w (map erase (ts[j := Null])) j (2 ^ unat n) (erase s)"
    "heap_ok h4" "avail h4 = avail h3" "heap.more h4 = heap.more h3" "brk h3 \<le> brk h4" "y < brk h4"
    "\<And>z. z \<in> set (anns Y) \<Longrightarrow> z \<in> set (anns s) \<or> brk h3 \<le> z"
    "\<And>z. z < brk h3 \<Longrightarrow> z \<noteq> a \<Longrightarrow> nodes h4 z = nodes h3 z" "y = a \<or> brk h3 \<le> y"
    using nest_loop [OF cut(9) hP h3(1,2) jh cut(8) rs order.refl al cut(10), where m = "2 ^ unat n"] by blast
  obtain arr where arr: "subnodes pn = Some arr" "j < length arr" using cut(6) by blast
  have hp4: "nodes h4 p = Some (swing j None pn)" using Y(11) [of p] lt h3(3) cut(3,7) by simp
  have sc: "set (anns s) \<subseteq> set (anns c)" using child_at_anns [OF ed(2)] by blast
  have disj: "set (anns Y) \<inter> (set (anns c) - set (anns s)) = {}" using Y(10) ca h3(3) h2(4) by fastforce
  have same: "nodes h4 x = nodes h2 x" if "x < brk h2" "x \<noteq> p" "x \<noteq> a" for x
    using Y(11) [of x] that h3(3) cut(3) by simp
  obtain h5 where h5: "attach (Some p) j (Some y) h4 = Some h5" "rep h5 None (subst a Y c)" "brk h5 = brk h4"
    "avail h5 = avail h4" "heap.more h5 = heap.more h4" "\<And>x. x \<noteq> p \<Longrightarrow> x \<noteq> y \<Longrightarrow> nodes h5 x = nodes h4 x"
    using close_edge [OF h2(1) ed(2) se cut(4) arr Y(2,3) hp4 disj] same ca se h2(4) by fastforce
  have "random_recursive_mutation k (Some tree) n h = Some (Some (empty_tree\<lparr>root := root_ptr c\<rparr>), h5)"
    using c(1) e(1) ed(1) se cut(1,2) n Y(1) h5(1)
    by (simp add: random_recursive_mutation_unfold h2_def [symmetric])
  moreover have "root_ptr (subst a Y c) = root_ptr c"
    using child_at_root [OF ed(2) [unfolded se] vc(2)] by (cases c) auto
  moreover have "new_beside h h5 (subst a Y c)"
  proof (rule new_besideI2 [OF h2(5) h5(2)])
    have le: "brk h \<le> brk h2" using rgrowsD(3) [OF h2(5)] .
    have pc: "brk h \<le> p" "brk h \<le> a" using ca child_at_anns [OF ed(2)] se by auto
    have y: "brk h \<le> y" using Y(12) pc(2) le h3(3) by auto
    show "heap_ok h5"
      unfolding heap_ok_def using h5(3,6) Y(5,9) lt(1) Y(8) h3(3) by (auto simp: heap_ok_def)
    show "nodes h5 x = nodes h2 x" if "x < brk h" for x
      using h5(6) [of x] same [of x] that pc y le by auto
    have "distinct (anns Y)" using Y(2) by (simp add: rep_def)
    then have "set (anns (subst a Y c)) = (set (anns c) - set (anns s)) \<union> set (anns Y)"
      using anns_subst(1) [OF ed(2) [unfolded se] vc(2), of Y] disj se by simp
    then show "brk h \<le> x" if "x \<in> set (anns (subst a Y c))" for x
      using that ca Y(10) [of x] sc h3(3) le by fastforce
  qed (use h5(3-5) Y(6-8) h3(2-4) h2(3) in auto)
  moreover have "repeated (2 ^ unat n) t (subst a Y c)"
    using rc(2) vc(2) ed Y(4) se unfolding repeated_def
    by (intro exI [of _ c] exI [of _ p] exI [of _ j] exI [of _ s] exI [of _ i] exI [of _ r] exI [of _ w]
        exI [of _ ts] exI [of _ Y]) (auto simp: map_update nest_hole)
  ultimately show ?thesis 
    by (intro exI [of _ "empty_tree\<lparr>root := root_ptr c\<rparr>"] exI [of _ h5] exI [of _ "subst a Y c"]) auto
qed

end
