(* ===== verification/Mutator_Calls.thy ===== *)
theory Mutator_Calls
  imports Mutator_Stages Rules_Stage Splicing Recursive_Mutation
begin

text \<open>
  What one call of the mutator returns: the mutation of each stage gives a new tree beside the
  current one, and the test case that is handed out is what \<open>tree_to_buf\<close> writes, cut to the
  size the fuzzer allows.
\<close>

section \<open>The output\<close>

lemma tree_get_size_ok:
  fixes h :: "'z heap_scheme"
  assumes "rep h None t" and "t \<noteq> Null" and "height t < k" and "root tree = root_ptr t"
  shows "\<exists>x h'. tree_get_size k tree h = Some (x, h') \<and> sizes_only (set (anns t)) h h' \<and> (tid t \<noteq> 0 \<longrightarrow> sized h' t)"
proof -
  have v: "view h t" "distinct (anns t)" using assms(1) by (auto simp: rep_def)
  obtain a i r w ts where t: "t = Node a i r w ts" using assms(2) by (cases t) auto
  obtain n where n: "nodes h a = Some n" "node_id n = i" using v(1) t by auto
  show ?thesis
  proof (cases "i = 0")
    case True
    then have "tree_get_size k tree h = Some (0, h)" using n assms(4) t by (simp add: tree_get_size_def rd_Some)
    then show ?thesis using True t by (intro exI [of _ 0] exI [of _ h]) simp
  next
    case False
    obtain h' where g: "node_get_size k (root_ptr t) h = Some h'" "sizes_only (set (anns t)) h h'" "sized h' t"
      using node_get_size_rep [OF v assms(3)] by blast
    obtain n' where "nodes h' a = Some n'" using g(3) t by auto
    then show ?thesis using n g False assms(4) t by (simp add: tree_get_size_def rd_Some)
  qed
qed

lemma fuzz_output_ok:
  fixes h :: "'z gmheap_scheme"
  assumes t: "rep h None t" "t \<noteq> Null" "height t < k" "root tree = root_ptr t" and hk: "mem_ok h"
    and b: "buf_ok (data tree)" "buf_ok (fuzz d)" and len: "length (flatten t) < 2 ^ 64"
  shows "\<exists>out s tree' h'. fuzz_output k d tree ms h = Some (of_nat (min (length (flatten t)) (unat ms)), Some out,
        d\<lparr>mutated_tree := Some tree', fuzz := (Some out, s)\<rparr>, h')
    \<and> take (min (length (flatten t)) (unat ms)) out = map Some (take (unat ms) (flatten t))
    \<and> buf_ok (Some out, s) \<and> root tree' = root_ptr t \<and> buf_ok (data tree')
    \<and> sizes_only (set (anns t)) h h' \<and> (tid t \<noteq> 0 \<longrightarrow> sized h' t)"
proof -
  let ?bs = "flatten t"
  define n where "n = min (length ?bs) (unat ms)"
  have nl: "n \<le> length ?bs" by (simp add: n_def)
  have v: "view h t" using t(1) by (simp add: rep_def)
  obtain tree1 where 1: "tree_to_buf k tree h = Some (tree1, h)" "out_data tree tree1 ?bs"
    using tree_to_buf_view [OF v hk t(3,4) b(1) len] by blast
  have same: "tree1 = tree\<lparr>data := data tree1, data_len := data_len tree1\<rparr>" using 1(2) unfolding out_data_def by blast
  have rt: "root tree1 = root_ptr t" using arg_cong [OF same, of root] t(4) by simp
  obtain m where m: "fst (data tree1) = Some m" "buf_ok (data tree1)" "unat (data_len tree1) = length ?bs"
    "length ?bs \<le> length m" "take (length ?bs) m = map Some ?bs"
    using 1(2) unfolding out_data_def holds_def by auto
  obtain x h1 where 2: "tree_get_size k tree1 h = Some (x, h1)" "sizes_only (set (anns t)) h h1" "tid t \<noteq> 0 \<longrightarrow> sized h1 t"
    using tree_get_size_ok [OF t(1-3) rt] by blast
  define z where "z = (if data_len tree1 \<le> ms then data_len tree1 else ms)"
  have sz: "unat z = n" using m(3) by (simp add: z_def n_def word_le_nat_alt min_def)
  have hk1: "mem_ok h1" using 2(2) hk by (simp add: sizes_only_def)
  obtain w s where g: "maybe_grow (fuzz d) z h1 = ((Some w, s), h1)" using maybe_grow_total [OF hk1 b(2)] by blast
  have w: "z \<le> s" "length w = unat s"
    using maybe_grow_size [of "fst (fuzz d)" "snd (fuzz d)" z h1 w s h1] g b(2) by simp_all
  then have nw: "n \<le> length w" using sz by (metis word_le_nat_alt)
  define out where "out = map Some (take n ?bs) @ drop n w"
  have bytes: "(if z = 0 then Some [] else Option.bind (fst (data tree1)) (\<lambda>m. mem_slice m 0 (unat z))) =
      Some (map Some (take n ?bs))"
  proof -
    have "take n m = map Some (take n ?bs)"
      using arg_cong [OF m(5), of "take n"] nl by (simp add: take_map min_absorb1)
    moreover have "n \<le> length m" using m(4) by (simp add: n_def)
    moreover have "z = 0 \<longleftrightarrow> n = 0" using sz by (metis unat_eq_0)
    ultimately show ?thesis using m(1) sz by (simp add: mem_slice_def)
  qed
  have "memcpy_at w 0 (map Some (take n ?bs)) = Some out"
    using nw by (simp add: memcpy_at_def out_def n_def)
  then have "fuzz_output k d tree ms h = Some (z, Some out, d\<lparr>mutated_tree := Some tree1, fuzz := (Some out, s)\<rparr>, h1)"
    unfolding fuzz_output_def 1(1) bind.bind_lunit prod.case 2(1) Let_def z_def [symmetric]
    by (simp add: g bytes)
  moreover have "z = of_nat n" using sz by (metis word_of_unat)
  moreover have "take n out = map Some (take (unat ms) ?bs)" by (simp add: out_def n_def min_def)
  moreover have "buf_ok (Some out, s)" using w(2) nw by (simp add: out_def n_def)
  ultimately show ?thesis using 2(2,3) m(2) rt unfolding n_def by auto
qed

section \<open>The mutations\<close>

text \<open>The trees of the mutations have no test case buffer yet.\<close>

lemma tree_clone_data: "tree_clone k tree h = Some (t, h') \<Longrightarrow> data t = (None, 0)"
  by (auto simp: tree_clone_def bind_eq_Some_conv split: prod.splits)

lemma tree_create_data: "tree_create h = (Some t, h') \<Longrightarrow> data t = (None, 0)"
  by (auto simp: tree_create_def empty_tree_def split: prod.splits bool.splits)

lemma rules_mutation_data: "rules_mutation gen num k (Some tree) node rule h = Some (Some t, h') \<Longrightarrow> data t = (None, 0)"
proof -
  have c: "tree_clone k tree h = Some x \<Longrightarrow> data (fst x) = (None, 0)" for h :: "'a mheap_scheme" and x
    using tree_clone_data [of k tree h "fst x" "snd x"] by simp
  have n: "fst (tree_create h) = Some t \<Longrightarrow> data t = (None, 0)" for h :: "'a mheap_scheme" and t
    using tree_create_data [of h t "snd (tree_create h)"] by (metis surjective_pairing)
  show "rules_mutation gen num k (Some tree) node rule h = Some (Some t, h') \<Longrightarrow> data t = (None, 0)"
    by (auto simp: rules_mutation_def Let_def bind_eq_Some_conv case_prod_beta split: if_split_asm dest!: c dest: n)
qed

lemma random_mutation_data: "random_mutation gen k (Some tree) h = Some (Ret (Some t, h')) \<Longrightarrow> data t = (None, 0)"
  by (auto simp: random_mutation_def Let_def bind_eq_Some_conv tree_clone_data split: if_splits prod.splits)

lemma splicing_mutation_data: "splicing_mutation ty k (Some tree) h = Some (Ret (Some t, h')) \<Longrightarrow> data t = (None, 0)"
  by (auto simp: splicing_mutation_def Let_def bind_eq_Some_conv tree_clone_data split: if_splits prod.splits)

lemma subtrees_tid_I: "in_grammar I t \<Longrightarrow> s \<in> set (subtrees t) \<Longrightarrow> tid s \<noteq> 0 \<Longrightarrow> tid s \<in> I"
  by (simp add: in_grammar_def)

text \<open>The states in which the stage of the mutator can do its work.\<close>

definition stage_ready ::
    "('z gmheap_scheme) params \<Rightarrow> nat \<Rightarrow> unit tree set \<Rightarrow> 'z gmheap_scheme \<Rightarrow> nat tree \<Rightarrow> my_mutator_t \<Rightarrow> bool" where
  "stage_ready P k U h t d \<longleftrightarrow>
     (cur_fuzzing_stage d = 0 \<and> ruled (node_num_rules P) t \<and> (\<exists>j. rules_at (node_num_rules P) h t d j))
     \<or> cur_fuzzing_stage d = 1
     \<or> (cur_fuzzing_stage d = 3 \<and> inj (node_type_str P) \<and> (\<exists>c. store_inv (xxh3 P) (node_type_str P) U h c {}
          \<and> finite (dom c) \<and> card (dom c) < 2 ^ 31 \<and> (\<forall>e\<in>ran c. height e < k)))"

lemma rule_pairs_nonterm: "(p, q) \<in> set (rule_pairs num t) \<Longrightarrow> p \<in> Some ` set (nonterms t)"
  by (induction t) (auto split: if_splits)

lemma mutate_ok:
  fixes h :: "'z gmheap_scheme"
  assumes t: "rep h None t" "sized h t" "root tree = root_ptr t" and hk: "heap_ok h" "mem_ok h" "rng_live (random_seed h)"
    and nt: "0 < nt_size t" "nt_size t < 2 ^ 32" and g: "gen_ok (gen_funcs P) I H" "in_grammar I t"
    and k: "height t + H < k" and st: "stage_ready P k U h t d"
  shows "\<exists>tree' h' t'. mutate P k m d tree h = Some (Ret (Inr (Some tree', tree, h')))
    \<and> root tree' = root_ptr t' \<and> new_beside h h' t' \<and> data tree' = (None, 0)"
proof -
  have v: "view h t" using t(1) by (simp add: rep_def)
  have kt: "height t < k" using k by simp
  from st consider j where "cur_fuzzing_stage d = 0" "ruled (node_num_rules P) t" "rules_at (node_num_rules P) h t d j"
    | "cur_fuzzing_stage d = 1"
    | c where "cur_fuzzing_stage d = 3" "inj (node_type_str P)" "store_inv (xxh3 P) (node_type_str P) U h c {}"
      "finite (dom c)" "card (dom c) < 2 ^ 31" "\<forall>e\<in>ran c. height e < k"
    unfolding stage_ready_def by blast
  then show ?thesis
  proof cases
    case 1
    let ?p = "cur_rules_mutation_node d" and ?q = "cur_rules_mutation_rule_id d"
    have pq: "(?p, ?q) \<in> set (rule_pairs (node_num_rules P) t)" using 1(3) unfolding rules_at_def by (metis nth_mem)
    obtain a where a: "?p = Some a" "a \<in> set (nonterms t)" using rule_pairs_nonterm [OF pq] by blast
    obtain s where s: "s \<in> set (subtrees t)" "root_ptr s = Some a" "tid s \<noteq> 0" "s = t \<or> (\<exists>p j. child_at t p j s)"
      using nonterm_place [OF a(2)] by blast
    obtain s' where s': "s' \<in> set (subtrees t)" "?p = root_ptr s'" "s' \<noteq> Null" "ucast ?q < node_num_rules P (tid s')" "?q \<noteq> trule s'"
      using rule_pairs_sound [OF pq 1(2)] by blast
    have "tid s' = tid s \<and> trule s' = trule s"
    proof -
      obtain i r w ts where "s = Node a i r w ts" using s(2) by (cases s) auto
      moreover obtain i' r' w' ts' where "s' = Node a i' r' w' ts'" using s'(2) a(1) by (cases s') auto
      ultimately show ?thesis using view_subtree [OF v s(1)] view_subtree [OF v s'(1)] by auto
    qed
    then have q: "ucast ?q < node_num_rules P (tid s)" "?q \<noteq> trule s" using s'(4,5) by simp_all
    obtain tree' h' t' u where r: "rules_mutation (gen_funcs P) (node_num_rules P) k (Some tree) (Some a) ?q h = Some (Some tree', h')"
      "root tree' = root_ptr t'" "new_beside h h' t'"
      using rules_mutation_view [where num = "node_num_rules P", OF t(1) hk s q g(1) subtrees_tid_I [OF g(2) s(1,3)] k t(3)]
      by blast
    then show ?thesis using 1(1) a(1) rules_mutation_data [OF r(1)] by (auto simp: mutate_def)
  next
    case 2
    obtain tree' h' t' where r: "random_mutation (gen_funcs P) k (Some tree) h = Some (Ret (Some tree', h'))"
      "root tree' = root_ptr t'" "new_beside h h' t'"
      using random_mutation_view [OF v t(2) hk nt g kt t(3)] by blast
    then show ?thesis using 2 random_mutation_data [OF r(1)] by (auto simp: mutate_def)
  next
    case 3
    obtain tree' h' t' where r: "splicing_mutation (node_type_str P) k (Some tree) h = Some (Ret (Some tree', h'))"
      "root tree' = root_ptr t'" "new_beside h h' t'"
      using splicing_view [OF v t(2) 3(3) hk(3) nt kt t(3) 3(5,4,6,2)] by blast
    then show ?thesis using 3(1) splicing_mutation_data [OF r(1)] by (auto simp: mutate_def)
  qed
qed

end
