(* ===== verification/Trim_Progress.thy ===== *)
theory Trim_Progress
  imports Grammar_Mutator Tree_Lists
begin

text \<open>
  The progress of trimming: which nonterminals \<open>afl_custom_post_trim\<close> still offers after a
  successful trim, and the counters after trims that were rejected.
\<close>

section \<open>Preorder\<close>

text \<open>The nonterminals of a subtree are consecutive in the list of the whole tree.\<close>

lemma nonterms_segment:
  "f < length (nonterms t) \<Longrightarrow> \<exists>s\<in>set (subtrees t). s \<noteq> Null \<and> tid s \<noteq> 0 \<and> ann s = nonterms t ! f
    \<and> take (nt_size s) (drop f (nonterms t)) = nonterms s \<and> f + nt_size s \<le> length (nonterms t)"
proof (induction t arbitrary: f)
  case (Node a i r v ts)
  have i: "i \<noteq> 0" using Node.prems by (auto split: if_splits)
  show ?case
  proof (cases f)
    case 0
    have "take (nt_size (Node a i r v ts)) (nonterms (Node a i r v ts)) = nonterms (Node a i r v ts)"
      by (simp flip: length_nonterms)
    then show ?thesis using i 0 length_nonterms [of "Node a i r v ts"] by (intro bexI [of _ "Node a i r v ts"]) auto
  next
    case (Suc g)
    have "g < length (concat (map nonterms ts)) \<Longrightarrow> \<exists>t\<in>set ts. \<exists>s\<in>set (subtrees t). s \<noteq> Null \<and> tid s \<noteq> 0
        \<and> ann s = concat (map nonterms ts) ! g \<and> take (nt_size s) (drop g (concat (map nonterms ts))) = nonterms s
        \<and> g + nt_size s \<le> length (concat (map nonterms ts))"
      using Node.IH
    proof (induction ts arbitrary: g)
      case (Cons u us)
      show ?case
      proof (cases "g < length (nonterms u)")
        case True
        then obtain s where s: "s \<in> set (subtrees u)" "s \<noteq> Null" "tid s \<noteq> 0" "ann s = nonterms u ! g"
          "take (nt_size s) (drop g (nonterms u)) = nonterms s" "g + nt_size s \<le> length (nonterms u)"
          using Cons.prems(2) [of u g] by auto
        then show ?thesis using True
          by (intro bexI [of _ u] bexI [of _ s]) (auto simp: nth_append)
      next
        case False
        let ?g = "g - length (nonterms u)"
        have "?g < length (concat (map nonterms us))" using Cons.prems(1) False by simp
        then obtain t s where s: "t \<in> set us" "s \<in> set (subtrees t)" "s \<noteq> Null" "tid s \<noteq> 0" "ann s = concat (map nonterms us) ! ?g"
          "take (nt_size s) (drop ?g (concat (map nonterms us))) = nonterms s" "?g + nt_size s \<le> length (concat (map nonterms us))"
          using Cons.IH [of ?g] Cons.prems(2) by (metis list.set_intros(2))
        then show ?thesis using False
          by (intro bexI [of _ t] bexI [of _ s]) (auto simp: nth_append)
      qed
    qed simp
    then show ?thesis using Node.prems i Suc by auto
  qed
qed simp

lemma seq_pop_simps [simp]:
  "seq_pop (Some (x # xs)) = (Some x, Some xs)" "seq_pop (Some []) = (None, Some [])" "seq_pop None = (None, None)"
  by (simp_all add: seq_pop_def)

lemma seq_pops: "((\<lambda>l. snd (seq_pop l)) ^^ n) (Some xs) = Some (drop n xs)"
proof (induction n arbitrary: xs)
  case (Suc n)
  then show ?case unfolding funpow_Suc_right by (cases xs) auto
qed simp

lemma seq_drop_Some [simp]: "unat n < 2 ^ 32 \<Longrightarrow> seq_drop n (Some xs) = Some (Some (drop (unat n) xs))"
  by (simp add: seq_drop_def seq_pops)

section \<open>A successful trim\<close>

lemma sized_subtree: "sized h t \<Longrightarrow> s \<in> set (subtrees t) \<Longrightarrow> sized h s"
  by (induction t) auto

lemma trim_success_view:
  fixes h :: "'z gmheap_scheme"
  assumes fr: "tree_free k (tree_cur d) h = Some h1" and d: "trimmed_tree d = Some tree" "root tree = root_ptr t"
    and t: "view h1 t" "sized h1 t" "mem_ok h1" "height t < k" "nt_size t < 2 ^ 32"
    and f: "unat (finished_subtree_trimming_nodes d) = f" "f < nt_size t"
      "unat (finished_recursive_trimming_edges d) < 2 ^ 32"
  shows "\<exists>s d' tree'. s \<in> set (subtrees t) \<and> ann s = nonterms t ! f \<and> tid s \<noteq> 0
    \<and> take (nt_size s) (drop f (nonterms t)) = nonterms s
    \<and> trim_success k d h = Some (d', h1) \<and> tree_cur d' = Some tree' \<and> root tree' = root_ptr t
    \<and> non_terminal_node_list tree' = Some (map Some (drop (f + 1 + nt_size s) (nonterms t)))
    \<and> finished_subtree_trimming_nodes d' = of_nat (f + 1 + nt_size s)
    \<and> cur_subtree_trimming_step d' = total_subtree_trimming_steps d - of_nat (nt_size t - (f + 1 + nt_size s))
    \<and> trim_was_effective d' \<and> cur_trimming_stage d' = cur_trimming_stage d"
proof -
  have fl: "f < length (nonterms t)" using f(2) by (simp add: length_nonterms)
  obtain s where s: "s \<in> set (subtrees t)" "s \<noteq> Null" "tid s \<noteq> 0" "ann s = nonterms t ! f"
    "take (nt_size s) (drop f (nonterms t)) = nonterms s" "f + nt_size s \<le> length (nonterms t)"
    using nonterms_segment [OF fl] by blast
  obtain a i r v ts where sN: "s = Node a i r v ts" using s(2) by (cases s) auto
  have ns: "nodes h1 a \<noteq> None" "non_term_size (the (nodes h1 a)) = of_nat (nt_size s)"
    using sized_subtree [OF t(2) s(1)] sN s(3) by auto
  then obtain n where n: "nodes h1 a = Some n" "non_term_size n = of_nat (nt_size s)" by auto
  have un: "unat (non_term_size n) = nt_size s"
    using n(2) s(6) t(5) by (simp add: unat_of_nat_u64 length_nonterms)
  then have small: "unat (non_term_size n) < 2 ^ 32" "unat (finished_subtree_trimming_nodes d) < 2 ^ 32"
    using f(1,2) s(6) t(5) by (simp_all add: length_nonterms)
  define tree1 where "tree1 = tree\<lparr>non_terminal_node_list := Some (map Some (nonterms t))\<rparr>"
  have 1: "tree_get_non_terminal_nodes k tree h1 = Some (tree1, h1)"
    unfolding tree1_def by (rule tree_get_non_terminal_nodes_view [OF t(1,3,4) d(2)])
  let ?rest = "drop (Suc f) (map Some (nonterms t)) :: ptr list"
  have pop: "seq_pop (Some (drop f (map Some (nonterms t)))) = (Some (Some a), Some ?rest)"
    using fl s(4) sN by (simp add: Cons_nth_drop_Suc [symmetric])
  let ?left = "map Some (drop (f + 1 + nt_size s) (nonterms t)) :: ptr list"
  define tree2 where "tree2 = tree1\<lparr>non_terminal_node_list := Some ?left\<rparr>"
  have 2: "tree_get_recursion_edges k tree2 h1 = Some (tree2\<lparr>recursion_edge_list := Some (rec_edges t)\<rparr>, h1)"
    by (rule tree_get_recursion_edges_view [OF t(1,3,4)]) (simp add: tree2_def tree1_def d(2))
  have l: "drop (nt_size s) ?rest = ?left" by (simp add: drop_map add.commute)
  have len: "length ?left = nt_size t - (f + 1 + nt_size s)" by (simp add: length_nonterms)
  have fin: "finished_subtree_trimming_nodes d + (1 + non_term_size n) = of_nat (f + 1 + nt_size s)"
    using word_of_unat [OF f(1)] n(2) by simp
  define d' where "d' = d\<lparr>trim_was_effective := True, finished_subtree_trimming_nodes := of_nat (f + 1 + nt_size s),
      cur_subtree_trimming_step := total_subtree_trimming_steps d - of_nat (nt_size t - (f + 1 + nt_size s)),
      tree_cur := Some (tree2\<lparr>recursion_edge_list := Some (drop (unat (finished_recursive_trimming_edges d)) (rec_edges t))\<rparr>),
      cur_recursive_trimming_step := total_recursive_trimming_steps d
        - of_nat (length (drop (unat (finished_recursive_trimming_edges d)) (rec_edges t)))\<rparr>"
  have l1: "non_terminal_node_list tree1 = Some (map Some (nonterms t))" by (simp add: tree1_def)
  have e2: "tree_get_recursion_edges k (tree1\<lparr>non_terminal_node_list := Some ?left\<rparr>) h1 =
      Some (tree2\<lparr>recursion_edge_list := Some (rec_edges t)\<rparr>, h1)" using 2 unfolding tree2_def .
  have "trim_success k d h = Some (d', h1)"
    unfolding trim_success_def fr d(1) bind.bind_lunit 1 prod.case Let_def
    using pop n(1) un l fin len e2 small f(3)
    by (simp add: l1 f(1) d'_def)
  then show ?thesis
    using s(1,3,4,5) by (intro exI [of _ s] exI [of _ d'] exI [of _ "the (tree_cur d')"])
      (simp add: d'_def tree2_def tree1_def d(2))
qed

section \<open>Rejected trims\<close>

definition trim_counters :: "my_mutator_t \<Rightarrow> nat \<times> nat \<times> nat" where
  "trim_counters d = (unat (cur_trimming_stage d), unat (cur_subtree_trimming_step d), unat (cur_recursive_trimming_step d))"

definition trim_totals :: "my_mutator_t \<Rightarrow> nat \<times> nat" where
  "trim_totals d = (unat (total_subtree_trimming_steps d), unat (total_recursive_trimming_steps d))"

text \<open>The counters after \<open>i\<close> rejected trims: first all subtrees, then all recursion edges.\<close>

definition trim_plan :: "nat \<Rightarrow> nat \<Rightarrow> nat \<Rightarrow> nat \<times> nat \<times> nat" where
  "trim_plan S R i = (if i < S then (0, i, 0) else if i < S + R then (1, S, i - S) else (2, S, R))"

text \<open>\<open>rejected P k s i s'\<close>: from \<open>s\<close> the fuzzer has asked for \<open>i\<close> trims and rejected all of them.\<close>

inductive rejected ::
    "('z gmheap_scheme) params \<Rightarrow> nat \<Rightarrow> my_mutator_t \<times> 'z gmheap_scheme \<Rightarrow> nat
      \<Rightarrow> my_mutator_t \<times> 'z gmheap_scheme \<Rightarrow> bool" for P k s where
  start: "rejected P k s 0 s"
| reject: "rejected P k s i (d, h) \<Longrightarrow> afl_custom_trim P k d h = Some (n, Some out, d1, h1) \<Longrightarrow>
    afl_custom_post_trim P k d1 False h1 = Some (r, d2, h2) \<Longrightarrow> rejected P k s (Suc i) (d2, h2)"

lemma trim_output_state:
  assumes "trim_output k d ttree h = Some (n, out, d', h')"
  shows "\<exists>t b. d' = d\<lparr>trimmed_tree := t, fuzz := b\<rparr>"
proof -
  obtain tt h1 x h2 where 1: "tree_to_buf k ttree h = Some (tt, h1)" "tree_get_size k tt h1 = Some (x, h2)"
    using assms by (auto simp: trim_output_def bind_eq_Some_conv)
  obtain b h3 where 2: "maybe_grow (fuzz d) (data_len tt) h2 = (b, h3)" by (metis surj_pair)
  show ?thesis
  proof (cases "fst b")
    case None
    then have "d' = d\<lparr>trimmed_tree := Some tt, fuzz := b\<rparr>" using assms 1 2 by (simp add: trim_output_def Let_def)
    then show ?thesis by blast
  next
    case (Some m)
    then obtain w where "d' = d\<lparr>trimmed_tree := Some tt, fuzz := (w, snd b)\<rparr>"
      using assms 1 2 by (auto simp: trim_output_def Let_def bind_eq_Some_conv split del: if_split)
    then show ?thesis by blast
  qed
qed

lemma trim_keeps_counters:
  assumes "afl_custom_trim P k d h = Some (n, Some out, d', h')"
  shows "trim_counters d' = trim_counters d" "trim_totals d' = trim_totals d" "trim_was_effective d' = trim_was_effective d"
    "unat (cur_trimming_stage d) < 2"
proof -
  have "(cur_trimming_stage d = 0 \<or> cur_trimming_stage d = 1) \<and>
      (\<exists>tree ttree h1. trim_output k (d\<lparr>tree_cur := Some tree\<rparr>) ttree h1 = Some (n, Some out, d', h'))"
    using assms by (auto simp: afl_custom_trim_def Let_def bind_eq_Some_conv case_prod_beta split: if_split_asm)
  then obtain tree t b where 1: "cur_trimming_stage d = 0 \<or> cur_trimming_stage d = 1"
    "d' = (d\<lparr>tree_cur := Some tree\<rparr>)\<lparr>trimmed_tree := t, fuzz := b\<rparr>"
    using trim_output_state by blast
  then show "trim_counters d' = trim_counters d" "trim_totals d' = trim_totals d" "trim_was_effective d' = trim_was_effective d"
    "unat (cur_trimming_stage d) < 2"
    by (auto simp: trim_counters_def trim_totals_def)
qed

lemma unat_eq_1: "unat w = Suc 0 \<longleftrightarrow> w = (1 :: 'a::len word)"
proof
  assume "unat w = Suc 0"
  then have "w = of_nat (Suc 0)" by (rule word_of_unat)
  then show "w = 1" by simp
qed simp

lemma next_stage_counters:
  "trim_counters (next_trimming_stage d) = (case (trim_counters d, trim_totals d) of ((g, a, b), (S, R)) \<Rightarrow>
     let g = (if g = 0 \<and> S \<le> a then 1 else g) in (if g = 1 \<and> R \<le> b then 2 else g, a, b))"
  "trim_totals (next_trimming_stage d) = trim_totals d" "trim_was_effective (next_trimming_stage d) = trim_was_effective d"
  by (auto simp: next_trimming_stage_def trim_counters_def trim_totals_def word_le_nat_alt unat_eq_0 unat_eq_1 Let_def)

lemma rejected_counters:
  assumes "rejected P k s i s'" and "trim_totals (fst s) = (S, R)" and "trim_counters (fst s) = trim_plan S R 0"
    and "\<not> trim_was_effective (fst s)"
  shows "trim_counters (fst s') = trim_plan S R i \<and> trim_totals (fst s') = (S, R) \<and> \<not> trim_was_effective (fst s') \<and> i \<le> S + R"
  using assms(1)
proof (induction rule: rejected.induct)
  case start
  then show ?case using assms(2-4) by simp
next
  case (reject i d h n out d1 h1 r d2 h2)
  then have c: "trim_counters d = trim_plan S R i" "trim_totals d = (S, R)" "\<not> trim_was_effective d" by simp_all
  note t = trim_keeps_counters [OF reject.hyps(2)]
  have lt: "i < S + R"
    using t(4) c(1) by (auto simp: trim_plan_def trim_counters_def split: if_splits)
  obtain d0 where f: "trim_failure k d1 h1 = Some (d0, h2)" "d2 = next_trimming_stage (d0\<lparr>trimmed_tree := None\<rparr>)"
    using reject.hyps(3) t(3) c(3) next_stage_counters(3)
    by (auto simp: afl_custom_post_trim_def trim_failure_def Let_def bind_eq_Some_conv split: if_splits)
  have S: "S < 2 ^ 64" "R < 2 ^ 64" using c(2) by (auto simp: trim_totals_def)
  have d1: "trim_counters d1 = trim_plan S R i" using t(1) c(1) by simp
  have "trim_counters d0 = (if i < S then (0, Suc i, 0) else (1, S, Suc (i - S))) \<and> trim_totals d0 = trim_totals d1
      \<and> trim_was_effective d0 = trim_was_effective d1"
  proof (cases "i < S")
    case True
    then have g: "cur_trimming_stage d1 = 0" "unat (cur_subtree_trimming_step d1) = i" "unat (cur_recursive_trimming_step d1) = 0"
      using d1 by (auto simp: trim_plan_def trim_counters_def unat_eq_0)
    moreover have "unat (cur_subtree_trimming_step d1 + 1) = Suc i"
      using unat_add_lem [of "cur_subtree_trimming_step d1" 1] g(2) True S by simp
    ultimately show ?thesis using f(1) True
      by (auto simp: trim_failure_def trim_counters_def trim_totals_def bind_eq_Some_conv)
  next
    case False
    then have g: "cur_trimming_stage d1 = 1" "unat (cur_subtree_trimming_step d1) = S" "unat (cur_recursive_trimming_step d1) = i - S"
      using d1 lt by (auto simp: trim_plan_def trim_counters_def unat_eq_1)
    moreover have "unat (cur_recursive_trimming_step d1 + 1) = Suc (i - S)"
    proof -
      have "i - S < R" using False lt by simp
      then have "i - S + 1 < 2 ^ 64" using S(2) by linarith
      then show ?thesis using unat_add_lem [of "cur_recursive_trimming_step d1" 1] g(3) by simp
    qed
    ultimately show ?thesis using f(1) False
      by (auto simp: trim_failure_def trim_counters_def trim_totals_def bind_eq_Some_conv)
  qed
  then have "trim_counters (d0\<lparr>trimmed_tree := None\<rparr>) = (if i < S then (0, Suc i, 0) else (1, S, Suc (i - S)))"
    "trim_totals (d0\<lparr>trimmed_tree := None\<rparr>) = (S, R)" "\<not> trim_was_effective (d0\<lparr>trimmed_tree := None\<rparr>)"
    using t(2,3) c(2,3) by (auto simp: trim_counters_def trim_totals_def)
  then show ?case unfolding f(2) fst_conv next_stage_counters
    using lt by (auto simp: trim_plan_def Let_def)
qed

end
