(* ===== verification/Tree_Deser.thy ===== *)
theory Tree_Deser
  imports Tree_Buf
begin

text \<open>
  \<open>tree_deserialize\<close> of Grammar-Mutator/src/tree.c on the output of \<open>tree_serialize\<close>: the
  tree comes back, as nodes of its own.  The executions at the end are those in which the
  checks of the source come too late.
\<close>

section \<open>Reading a node\<close>

lemma length_ser_ge: "t \<noteq> Null \<Longrightarrow> 16 \<le> length (ser t)"
  by (cases t) auto

lemma storable_not_Null: "storable t \<Longrightarrow> t \<noteq> Null"
  by auto

lemma read_u32_at:
  assumes "drop c buf = map Some (u32_bytes w) @ rest" and "unat off = c"
  shows "read_u32 buf off = Some w"
proof -
  have "c \<le> length buf" using assms(1) by (metis drop_all length_u32_bytes list.size(3) map_is_Nil_conv
      append_is_Nil_conv nat_le_linear zero_neq_numeral)
  moreover have "length (drop c buf) \<ge> 4" using assms(1) by simp
  ultimately have "c + 4 \<le> length buf" by simp
  moreover have "take 4 (drop c buf) = map Some (u32_bytes w)" using assms(1) by simp
  ultimately show ?thesis using assms(2) by (simp add: read_u32_def mem_slice_def)
qed

lemma erase_unit [simp]: "erase (u :: unit tree) = u"
proof -
  have "(\<lambda>_::unit. ()) = id" by (rule ext) simp
  then show ?thesis by (simp add: tree.map_id)
qed

text \<open>A tree read from bytes: new nodes that form the tree \<open>u\<close>.\<close>

definition read_tree :: "'z heap_scheme \<Rightarrow> unit tree \<Rightarrow> 'z heap_scheme \<Rightarrow> nat tree \<Rightarrow> bool" where
  "read_tree h u h' t \<longleftrightarrow> grows h h' \<and> rep h' None t \<and>
     (\<forall>a\<in>set (anns t). brk h \<le> a \<and> a < brk h') \<and> erase t = u"

lemma read_tree_fresh_copy:
  assumes "read_tree h u h' t" and "heap_ok h" and "u \<noteq> Null"
  shows "fresh_copy h (map_tree (\<lambda>_. brk h) u) h' t"
proof -
  have "\<not> sized h (map_tree (\<lambda>_. brk h) u)"
    using assms(2,3) by (cases u) (auto simp: heap_ok_def)
  moreover have "erase (map_tree (\<lambda>_. brk h) u) = u"
    by (simp add: tree.map_comp comp_def erase_unit)
  ultimately show ?thesis using assms(1) by (auto simp: read_tree_def fresh_copy_def)
qed

definition deser_body ::
    "(u64 \<times> 'z heap_scheme \<Rightarrow> (ptr \<times> u64 \<times> 'z heap_scheme) option) \<Rightarrow>
     (ptr \<Rightarrow> 'z heap_scheme \<Rightarrow> 'z heap_scheme option) \<Rightarrow> ptr \<Rightarrow> nat
      \<Rightarrow> u64 \<times> 'z heap_scheme \<Rightarrow> ((ptr \<times> u64 \<times> 'z heap_scheme) + (u64 \<times> 'z heap_scheme)) option" where
  "deser_body rec free node i ch = (case ch of (consumed, h) \<Rightarrow> do {
     (s, consumed, h) \<leftarrow> rec (consumed, h);
     if s = None then do {
       h \<leftarrow> free node h;
       Some (Inl (None, consumed, h))
     } else do {
       h \<leftarrow> node_set_subnode node (of_nat i) s h;
       Some (Inr (consumed, h))
     }})"

lemma node_deserialize_unfold:
  "node_deserialize (Suc k) data_buf data_size ch =
    (case ch of (consumed, h) \<Rightarrow>
     case data_buf of None \<Rightarrow> Some (None, consumed, h)
     | Some buf \<Rightarrow>
       (case node_create 0 h of (node, h) \<Rightarrow>
        if data_size - consumed < min_len then do {
          h \<leftarrow> node_free (Suc k) node h;
          Some (None, consumed, h)
        } else do {
          i \<leftarrow> read_u32 buf consumed;
          h \<leftarrow> upd node (node_id_update (\<lambda>_. i)) h;
          let l = consumed + 4 in do {
          r \<leftarrow> read_u32 buf l;
          h \<leftarrow> upd node (rule_id_update (\<lambda>_. r)) h;
          let l = l + 4 in do {
          c \<leftarrow> read_u32 buf l;
          h \<leftarrow> upd node (subnode_count_update (\<lambda>_. c)) h;
          let l = l + 4 in do {
          vl \<leftarrow> read_u32 buf l;
          h \<leftarrow> upd node (val_len_update (\<lambda>_. vl)) h;
          let l = l + 4 in do {
          h \<leftarrow> node_set_val node (Some (drop (unat l) buf)) (ucast vl) h;
          n \<leftarrow> rd h node;
          let consumed = l + ucast (val_len n) in
          if subnode_count n = 0 then Some (node, consumed, h)
          else do {
            h \<leftarrow> node_init_subnodes node (ucast (subnode_count n)) h;
            n \<leftarrow> rd h node;
            res \<leftarrow> loopM (deser_body (node_deserialize k data_buf data_size) (node_free (Suc k)) node)
              [0..<unat (subnode_count n)] (consumed, h);
            Some (case res of Inl r \<Rightarrow> r | Inr (consumed, h) \<Rightarrow> (node, consumed, h))
          }}}}}}))"
  unfolding node_deserialize.simps deser_body_def [abs_def] by (rule refl)

section \<open>The loop over the subnodes\<close>

lemma deser_loop:
  fixes h :: "'z heap_scheme"
  assumes inv: "copying False h0 q m us (length ts) h" and mem: "mem_ok h0"
    and m: "node_id m \<noteq> 0" "unat (subnode_count m) = length us + length ts"
    and buf: "drop c buf = map Some (concat (map ser ts)) @ rest"
    and c: "unat consumed = c" and sz: "c + length (concat (map ser ts)) < 2 ^ 64"
    and st: "\<forall>t\<in>set ts. storable t"
    and IH: "\<And>t c (consumed :: u64) rest (h :: 'z heap_scheme). t \<in> set ts \<Longrightarrow> heap_ok h \<Longrightarrow> mem_ok h \<Longrightarrow>
      drop c buf = map Some (ser t) @ rest \<Longrightarrow> unat consumed = c \<Longrightarrow> c + length (ser t) \<le> limit \<Longrightarrow>
      \<exists>t' h' consumed'. rec (consumed, h) = Some (root_ptr t', consumed', h') \<and>
        read_tree h t h' t' \<and> unat consumed' = c + length (ser t)"
    and limit: "c + length (concat (map ser ts)) \<le> limit"
  shows "\<exists>us' h' consumed'. loopM (deser_body rec free (Some q)) [length us..<length us + length ts] (consumed, h) =
        Some (Inr (consumed', h')) \<and>
      copying False h0 q m (us @ us') 0 h' \<and> map erase us' = ts \<and>
      unat consumed' = c + length (concat (map ser ts))"
  using inv m buf c sz st IH limit
proof (induction ts arbitrary: us h c consumed)
  case Nil
  then show ?case by (intro exI [of _ "[]"] exI [of _ h] exI [of _ consumed]) simp
next
  case (Cons t ts)
  have g: "grows h0 h" using Cons.prems(1) by (simp add: copying_def)
  have hk: "heap_ok h" "mem_ok h" using growsD [OF g] mem by auto
  obtain t' h1 consumed1 where r: "rec (consumed, h) = Some (root_ptr t', consumed1, h1)"
      "read_tree h t h1 t'" "unat consumed1 = c + length (ser t)"
    using Cons.prems(8) [of t h c "map Some (concat (map ser ts)) @ rest" consumed]
      hk Cons.prems(4,5,9) by auto
  have tn: "t \<noteq> Null" using Cons.prems(7) by auto
  then have t'n: "root_ptr t' \<noteq> None" using r(2) by (cases t') (auto simp: read_tree_def)
  obtain h2 where h2: "node_set_subnode (Some q) (of_nat (length us)) (root_ptr t') h1 = Some h2"
      "copying False h0 q m (us @ [t']) (length ts) h2"
    using copying_step [OF _ read_tree_fresh_copy [OF r(2) hk(1) tn], of False h0 q m us "length ts"]
      Cons.prems(1-3) by auto
  have step: "deser_body rec free (Some q) (length us) (consumed, h) = Some (Inr (consumed1, h2))"
    using r(1) h2(1) t'n by (simp add: deser_body_def)
  have buf': "drop (c + length (ser t)) buf = map Some (concat (map ser ts)) @ rest"
    using arg_cong [OF Cons.prems(4), of "drop (length (ser t))"] by (simp add: add.commute)
  have "\<exists>us' h' consumed'. loopM (deser_body rec free (Some q)) [length (us @ [t'])..<length (us @ [t']) + length ts] (consumed1, h2) =
        Some (Inr (consumed', h')) \<and>
      copying False h0 q m ((us @ [t']) @ us') 0 h' \<and> map erase us' = ts \<and>
      unat consumed' = (c + length (ser t)) + length (concat (map ser ts))"
  proof (rule Cons.IH [OF h2(2)])
    show "\<And>u c consumed rest (h :: 'z heap_scheme). u \<in> set ts \<Longrightarrow> heap_ok h \<Longrightarrow> mem_ok h \<Longrightarrow>
      drop c buf = map Some (ser u) @ rest \<Longrightarrow> unat consumed = c \<Longrightarrow> c + length (ser u) \<le> limit \<Longrightarrow>
      \<exists>t' h' consumed'. rec (consumed, h) = Some (root_ptr t', consumed', h') \<and>
        read_tree h u h' t' \<and> unat consumed' = c + length (ser u)"
      using Cons.prems(8) by simp
  qed (use Cons.prems buf' r(3) in auto)
  then obtain us' h' consumed' where f:
      "loopM (deser_body rec free (Some q)) [Suc (length us)..<length us + Suc (length ts)] (consumed1, h2) = Some (Inr (consumed', h'))"
      "copying False h0 q m (us @ t' # us') 0 h'" "map erase us' = ts"
      "unat consumed' = c + length (concat (map ser (t # ts)))"
    by (auto simp: add.assoc)
  have "[length us..<length us + length (t # ts)] = length us # [Suc (length us)..<length us + length (t # ts)]"
    by (rule upt_conv_Cons) simp
  then show ?case
    using f r(2) step
    by (intro exI [of _ "t' # us'"] exI [of _ h'] exI [of _ consumed']) (auto simp: read_tree_def)
qed

section \<open>A whole tree\<close>

text \<open>The header and the value of a node, read into a new node.\<close>

lemma deser_node:
  fixes h :: "'z heap_scheme"
  assumes hk: "heap_ok h" "mem_ok h"
    and buf: "drop c buf = map Some (u32_bytes i @ u32_bytes r @ u32_bytes sc @ u32_bytes vl @ v) @ rest"
    and c: "unat consumed = c" and vl: "unat vl = length v"
    and lim: "c + (16 + length v) \<le> unat dsize"
  obtains m where
    "\<not> dsize - consumed < min_len"
    "node_create 0 h = (Some (brk h), (wr (brk h) (new_node 0) h)\<lparr>brk := Suc (brk h)\<rparr>)"
    "read_u32 buf consumed = Some i" "read_u32 buf (consumed + 4) = Some r"
    "read_u32 buf (consumed + 4 + 4) = Some sc" "read_u32 buf (consumed + 4 + 4 + 4) = Some vl"
    "node_set_val (Some (brk h)) (Some (drop (unat (consumed + 4 + 4 + 4 + 4)) buf)) (ucast vl)
       ((wr (brk h) ((new_node 0)\<lparr>node_id := i, rule_id := r, subnode_count := sc, val_len := vl\<rparr>) h)\<lparr>brk := Suc (brk h)\<rparr>) =
     Some ((wr (brk h) m h)\<lparr>brk := Suc (brk h)\<rparr>)"
    "val_ok m v" "node_id m = i" "rule_id m = r" "subnode_count m = sc" "val_len m = vl"
    "subnodes m = None" "parent m = None"
    "unat (consumed + 4 + 4 + 4 + 4 + ucast vl) = c + (16 + length v)"
proof -
  have s64: "c + (16 + length v) < 2 ^ 64" using le_less_trans [OF lim unat_u64_less] by simp
  have ua: "unat (consumed + of_nat k) = c + k" if "k \<le> 16 + length v" for k
    using unat_add_of_nat [of consumed k] that s64 c by simp
  have ua4: "unat (consumed + 4) = c + 4" "unat (consumed + 4 + 4) = c + 8"
    "unat (consumed + 4 + 4 + 4) = c + 12" "unat (consumed + 4 + 4 + 4 + 4) = c + 16"
    using ua [of 4] ua [of 8] ua [of 12] ua [of 16] by (simp_all add: add.commute)
  have le: "consumed \<le> dsize" using c lim by (simp add: word_le_nat_alt)
  have 1: "\<not> dsize - consumed < min_len"
    using c lim le by (simp add: min_len_def word_less_nat_alt unat_sub)
  have dr: "drop (c + j) buf = drop j (map Some (u32_bytes i @ u32_bytes r @ u32_bytes sc @ u32_bytes vl @ v) @ rest)" for j
    using buf by (metis drop_drop add.commute)
  have 2: "read_u32 buf consumed = Some i" "read_u32 buf (consumed + 4) = Some r"
    "read_u32 buf (consumed + 4 + 4) = Some sc" "read_u32 buf (consumed + 4 + 4 + 4) = Some vl"
    using read_u32_at [OF _ c] dr [of 0] read_u32_at [OF _ ua4(1)] dr [of 4]
      read_u32_at [OF _ ua4(2)] dr [of 8] read_u32_at [OF _ ua4(3)] dr [of 12] by auto
  define n0 where "n0 = (new_node 0)\<lparr>node_id := i, rule_id := r, subnode_count := sc, val_len := vl\<rparr>"
  define h0 where "h0 = (wr (brk h) n0 h)\<lparr>brk := Suc (brk h)\<rparr>"
  have n0: "node_id n0 = i" "rule_id n0 = r" "subnode_count n0 = sc" "val_len n0 = vl"
    "subnodes n0 = None" "parent n0 = None" "val_buf n0 = None" "val_size n0 = 0"
    by (simp_all add: n0_def new_node_def zero_node_def)
  have uv: "(ucast vl :: u64) = of_nat (length v)" using ucast_of_nat [OF vl] .
  have len: "unat (consumed + 4 + 4 + 4 + 4 + ucast vl) = c + (16 + length v)"
    using ua [of "16 + length v"] uv by (simp add: ac_simps)
  have "\<exists>m. node_set_val (Some (brk h)) (Some (drop (c + 16) buf)) (ucast vl) h0 =
      Some ((wr (brk h) m h)\<lparr>brk := Suc (brk h)\<rparr>) \<and> val_ok m v \<and> node_id m = i \<and> rule_id m = r \<and>
      subnode_count m = sc \<and> val_len m = vl \<and> subnodes m = None \<and> parent m = None"
  proof (cases "v = []")
    case True
    then show ?thesis using vl n0 uv by (intro exI [of _ n0]) (simp add: h0_def val_ok_def)
  next
    case False
    have d16: "drop (c + 16) buf = map Some v @ rest" using dr [of 16] by simp
    obtain m where m: "node_set_val (Some (brk h)) (Some (drop (c + 16) buf)) (ucast vl) h0 = Some (wr (brk h) m h0)"
      "val_ok m v" "m = n0\<lparr>val_buf := val_buf m, val_size := val_size m, val_len := val_len m\<rparr>"
      using node_set_val_ok [of h0 "brk h" n0 v "drop (c + 16) buf" "ucast vl"] hk n0 d16 False uv
        vl unat_u32_less [of vl] by (auto simp: h0_def)
    have "val_len m = vl" using m(2) vl by (simp add: val_ok_def word_unat_eq_iff)
    moreover have "wr (brk h) m h0 = (wr (brk h) m h)\<lparr>brk := Suc (brk h)\<rparr>"
      by (simp add: h0_def wr_def)
    moreover have "node_id m = i" "rule_id m = r" "subnode_count m = sc" "subnodes m = None" "parent m = None"
      by (subst m(3); simp add: n0)+
    ultimately show ?thesis using m(1,2) by auto
  qed
  then obtain m where set: "node_set_val (Some (brk h)) (Some (drop (c + 16) buf)) (ucast vl) h0 =
      Some ((wr (brk h) m h)\<lparr>brk := Suc (brk h)\<rparr>)" and m: "val_ok m v" "node_id m = i" "rule_id m = r"
      "subnode_count m = sc" "val_len m = vl" "subnodes m = None" "parent m = None" by blast
  then show ?thesis
    by (intro that [OF 1 node_create_ok [OF hk(2)] 2 _ m len])
      (simp only: ua4 set [unfolded h0_def n0_def])
qed

lemma node_deserialize_ser:
  fixes h :: "'z heap_scheme"
  assumes "storable t" and "heap_ok h" and "mem_ok h" and "height t < k"
    and "drop c buf = map Some (ser t) @ rest" and "unat consumed = c" and "c + length (ser t) \<le> unat dsize"
  shows "\<exists>t' h' consumed'. node_deserialize k (Some buf) dsize (consumed, h) = Some (root_ptr t', consumed', h') \<and>
      read_tree h t h' t' \<and> unat consumed' = c + length (ser t)"
  using assms
proof (induction k arbitrary: t h c consumed rest)
  case (Suc k)
  obtain i r v ts where t: "t = Node () i r v ts" using Suc.prems(1) by (cases t) auto
  have st: "i = 0 \<longrightarrow> ts = []" "length ts < 2 ^ 32" "length v < 2 ^ 32" "\<forall>t\<in>set ts. storable t"
    using Suc.prems(1) t by auto
  define sc :: u32 where "sc = of_nat (length ts)"
  define vl :: u32 where "vl = of_nat (length v)"
  have usc: "unat sc = length ts" and uvl: "unat vl = length v"
    using st by (simp_all add: sc_def vl_def unat_of_nat_u32)
  have buf: "drop c buf = map Some (u32_bytes i @ u32_bytes r @ u32_bytes sc @ u32_bytes vl @ v) @
      (map Some (concat (map ser ts)) @ rest)" using Suc.prems(5) t by (simp add: sc_def vl_def)
  have len: "length (ser t) = 16 + length v + length (concat (map ser ts))" using t by simp
  have lim: "c + (16 + length v) \<le> unat dsize" using Suc.prems(7) len by simp
  obtain m where m:
    "\<not> dsize - consumed < min_len"
    "node_create 0 h = (Some (brk h), (wr (brk h) (new_node 0) h)\<lparr>brk := Suc (brk h)\<rparr>)"
    "read_u32 buf consumed = Some i" "read_u32 buf (consumed + 4) = Some r"
    "read_u32 buf (consumed + 4 + 4) = Some sc" "read_u32 buf (consumed + 4 + 4 + 4) = Some vl"
    "node_set_val (Some (brk h)) (Some (drop (unat (consumed + 4 + 4 + 4 + 4)) buf)) (ucast vl)
       ((wr (brk h) ((new_node 0)\<lparr>node_id := i, rule_id := r, subnode_count := sc, val_len := vl\<rparr>) h)\<lparr>brk := Suc (brk h)\<rparr>) =
     Some ((wr (brk h) m h)\<lparr>brk := Suc (brk h)\<rparr>)"
    "val_ok m v" "node_id m = i" "rule_id m = r" "subnode_count m = sc" "val_len m = vl"
    "subnodes m = None" "parent m = None"
    "unat (consumed + 4 + 4 + 4 + 4 + ucast vl) = c + (16 + length v)"
    by (rule deser_node [OF Suc.prems(2,3) buf Suc.prems(6) uvl lim])
  define q where "q = brk h"
  define h1 where "h1 = (wr q m h)\<lparr>brk := Suc q\<rparr>"
  define con where "con = consumed + 4 + 4 + 4 + 4 + ucast vl"
  have h1: "nodes h1 q = Some m" "mem_ok h1" "grows h h1" "brk h1 = Suc q"
    using Suc.prems(2,3) grows_create [of h] by (simp_all add: h1_def q_def)
  have up: "upd (Some q) f ((wr q n h)\<lparr>brk := Suc q\<rparr>) = Some ((wr q (f n) h)\<lparr>brk := Suc q\<rparr>)" for f n
    by (simp add: upd_def wr_def)
  have run: "node_deserialize (Suc k) (Some buf) dsize (consumed, h) =
     (if sc = 0 then Some (Some q, con, h1)
      else do {
        h \<leftarrow> node_init_subnodes (Some q) (ucast sc) h1;
        n \<leftarrow> rd h (Some q);
        res \<leftarrow> loopM (deser_body (node_deserialize k (Some buf) dsize) (node_free (Suc k)) (Some q))
          [0..<unat (subnode_count n)] (con, h);
        Some (case res of Inl r \<Rightarrow> r | Inr (consumed, h) \<Rightarrow> (Some q, consumed, h))
      })"
    unfolding node_deserialize_unfold
    by (simp only: prod.case option.case m(1-7) [folded q_def] if_False bind.bind_lunit Let_def up
        h1_def [symmetric] h1(1) rd_Some m(11,12) con_def [symmetric])
  show ?case
  proof (cases "ts = []")
    case True
    then have "sc = 0" by (simp add: sc_def)
    moreover have "read_tree h t h1 (Node q i r v [])"
      using h1 m True t usc by (auto simp: read_tree_def rep_def kids_ok_def q_def)
    moreover have "unat con = c + length (ser t)" using m(15) len True by (simp add: con_def)
    ultimately show ?thesis unfolding run by (intro exI [of _ "Node q i r v []"] exI) auto
  next
    case False
    have sc0: "sc \<noteq> 0" and i0: "i \<noteq> 0" using usc False st by auto
    define h2 where "h2 = wr q (m\<lparr>subnodes := Some (replicate (length ts) (Some None))\<rparr>) h1"
    have "m\<lparr>subnodes := Some (replicate (length ts) (Some None)), subnode_count := sc\<rparr> =
        m\<lparr>subnodes := Some (replicate (length ts) (Some None))\<rparr>"
      using m(11) by (cases m) simp
    then have init: "node_init_subnodes (Some q) (ucast sc) h1 = Some h2"
      using init_subnodes_ok [OF h1(2,1) _ m(13) sc0] i0 m(9) usc by (simp add: h2_def)
    have cp: "copying False h q m [] (length ts) h2"
      using h1 by (auto simp: copying_def h2_def q_def intro!: grows_wr_new)
    have buf2: "drop (c + (16 + length v)) buf = map Some (concat (map ser ts)) @ rest"
      using arg_cong [OF buf, of "drop (16 + length v)"] by (simp add: add.commute)
    have "\<exists>us h' consumed'. loopM (deser_body (node_deserialize k (Some buf) dsize) (node_free (Suc k)) (Some q))
          [length ([]::nat tree list)..<length ([]::nat tree list) + length ts] (con, h2) = Some (Inr (consumed', h')) \<and>
        copying False h q m ([] @ us) 0 h' \<and> map erase us = ts \<and>
        unat consumed' = (c + (16 + length v)) + length (concat (map ser ts))"
    proof (rule deser_loop [OF cp Suc.prems(3), where limit = "unat dsize"])
      show "unat con = c + (16 + length v)" using m(15) by (simp add: con_def)
      show "(c + (16 + length v)) + length (concat (map ser ts)) < 2 ^ 64"
        using le_less_trans [OF Suc.prems(7) unat_u64_less] len by simp
      fix u d rest2 and consumed2 :: u64 and h3 :: "'z heap_scheme"
      assume u: "u \<in> set ts" "heap_ok h3" "mem_ok h3" "drop d buf = map Some (ser u) @ rest2"
        "unat consumed2 = d" "d + length (ser u) \<le> unat dsize"
      have "height u < k" using Suc.prems(4) t height_kid [OF u(1), of "()" i r v] by simp
      then show "\<exists>t' h' consumed'. node_deserialize k (Some buf) dsize (consumed2, h3) = Some (root_ptr t', consumed', h') \<and>
          read_tree h3 u h' t' \<and> unat consumed' = d + length (ser u)"
        using Suc.IH u st by blast
    qed (use i0 m usc buf2 st Suc.prems(7) len in auto)
    then obtain us h3 consumed' where loop: "loopM (deser_body (node_deserialize k (Some buf) dsize) (node_free (Suc k)) (Some q))
          [0..<length ts] (con, h2) = Some (Inr (consumed', h3))"
      and us: "copying False h q m us 0 h3" "map erase us = ts"
      and co: "unat consumed' = c + length (ser t)" using len by auto
    have run2: "node_deserialize (Suc k) (Some buf) dsize (consumed, h) = Some (Some q, consumed', h3)"
      unfolding run using sc0 init m(11) usc loop by (simp add: h2_def)
    have lus: "length us = length ts" using us(2) by (metis length_map)
    have "kids_ok (m\<lparr>subnodes := Some (map (\<lambda>t. Some (root_ptr t)) us)\<rparr>) us"
      using m usc lus i0 by (simp add: kids_ok_def)
    moreover have "val_ok (m\<lparr>subnodes := Some (map (\<lambda>t. Some (root_ptr t)) us)\<rparr>) v"
      using m(8) by (simp add: val_ok_def)
    ultimately have "read_tree h t h3 (Node q i r v us)"
      using us m t q_def
      by (auto simp: read_tree_def rep_def copying_def intro: less_imp_le)
    then show ?thesis unfolding run2 using co
      by (intro exI [of _ "Node q i r v us"] exI) auto
  qed
qed simp

lemma tree_deserialize_ser:
  fixes h :: "'z heap_scheme"
  assumes "storable t" and "heap_ok h" and "mem_ok h" and "height t < k"
    and "drop 0 buf = map Some (ser t) @ rest" and "unat dsize = length (ser t)"
  shows "\<exists>tree h' t'. tree_deserialize k (Some buf) dsize h = Some (Some tree, h') \<and>
      root tree = root_ptr t' \<and> read_tree h t h' t'"
proof -
  obtain t' h' consumed' where d: "node_deserialize k (Some buf) dsize (0, h) =
      Some (root_ptr t', consumed', h')" "read_tree h t h' t'" "unat consumed' = length (ser t)"
    using node_deserialize_ser [OF assms(1-5), of 0 dsize] assms(6) by auto
  have "t' \<noteq> Null" using d(2) assms(1) by (cases t') (auto simp: read_tree_def)
  moreover have "\<not> consumed' > dsize"
    using d(3) assms(6) by (simp add: word_less_nat_alt)
  moreover have "mem_ok h'" using d(2) assms(3) by (auto simp: read_tree_def grows_def)
  ultimately have "tree_deserialize k (Some buf) dsize h =
      Some (Some (empty_tree\<lparr>root := root_ptr t'\<rparr>), h')"
    using d(1) by (simp add: tree_deserialize_def tree_create_def)
  with d(2) show ?thesis by (intro exI conjI) (assumption, simp_all)
qed

end
