(* ===== verification/Tree_Theorems.thy ===== *)
theory Tree_Theorems
  imports Tree_Deser Tree_Lists Tree_Edit Tree_Pick
begin

text \<open>
  What Grammar-Mutator/src/tree.c and include/helpers.h promise, as theorems about the model
  alone, each with an execution on a small heap: a recursive node, another of the same type
  and a terminal below it.
\<close>

section \<open>A concrete tree\<close>

definition ex_root :: node_t where
  "ex_root = \<lparr>node_id = 1, rule_id = 0, val_buf = None, val_size = 0, val_len = 0, parent = None,
     subnodes = Some [Some (Some 1)], subnode_count = 1, recursion_edge_size = 0, non_term_size = 0\<rparr>"

definition ex_inner :: node_t where
  "ex_inner = \<lparr>node_id = 1, rule_id = 1, val_buf = None, val_size = 0, val_len = 0, parent = Some 0,
     subnodes = Some [Some (Some 2)], subnode_count = 1, recursion_edge_size = 0, non_term_size = 0\<rparr>"

definition ex_leaf :: node_t where
  "ex_leaf = \<lparr>node_id = 0, rule_id = 0, val_buf = Some [Some 97, Some 98, None], val_size = 3, val_len = 2,
     parent = Some 1, subnodes = None, subnode_count = 0, recursion_edge_size = 0, non_term_size = 0\<rparr>"

definition ex_nodes :: "nat \<Rightarrow> node_t option" where
  "ex_nodes = [0 \<mapsto> ex_root, 1 \<mapsto> ex_inner, 2 \<mapsto> ex_leaf]"

definition ex_heap :: heap where
  "ex_heap = \<lparr>avail = None, nodes = ex_nodes, brk = 3\<rparr>"

definition ex_tree :: "nat tree" where
  "ex_tree = Node 0 1 0 [] [Node 1 1 1 [] [Node 2 0 0 [97, 98] []]]"

definition ex_obj :: tree_t where
  "ex_obj = empty_tree\<lparr>root := Some 0\<rparr>"

lemmas ex_defs = ex_root_def ex_inner_def ex_leaf_def ex_nodes_def ex_heap_def ex_tree_def ex_obj_def empty_tree_def

lemma ex_rep: "rep ex_heap None ex_tree"
  by (simp add: rep_def ex_defs val_ok_def kids_ok_def)

lemma ex_facts [simp]:
  "view ex_heap ex_tree" "heap_ok ex_heap" "mem_ok ex_heap" "height ex_tree = 3" "root ex_obj = root_ptr ex_tree"
  "storable ex_tree" "distinct (anns ex_tree)" "length (ser ex_tree) = 50" "flatten ex_tree = [97, 98]"
  "buf_ok (data ex_obj)" "buf_ok (ser_buf ex_obj)" "brk ex_heap = 3" "root_ptr ex_tree = Some 0"
  "nt_size ex_tree = 2" "re_size ex_tree = 1" "nonterms ex_tree = [0, 1]" "set (anns ex_tree) = {0, 1, 2}"
  "ex_tree \<noteq> Null" "tid ex_tree \<noteq> 0" "root ex_obj = Some 0"
  "rec_edges ex_tree = [\<lparr>e_parent = Some 0, e_subnode = Some 1, e_offset = 0\<rparr>]"
  using ex_rep by (auto simp: rep_def heap_ok_def ex_defs rec_edge_def)

section \<open>Buffers\<close>

text \<open>
  \<open>next_pow2\<close> returns the least power of two that is not below its argument, for every
  argument from 1 to 2 to 32.
\<close>

theorem next_pow2_least:
  assumes "0 < n" and "n \<le> 2 ^ 32"
  shows "\<exists>k \<le> 32. next_pow2 n = 2 ^ k \<and> n \<le> 2 ^ k \<and> (k = 0 \<or> 2 ^ (k - 1) < n)"
  using next_pow2_least_aux [OF assms] .

theorem next_pow2_least_witness:
  "next_pow2 1000 = 1024 \<and> (\<exists>k \<le> 32. next_pow2 1000 = 2 ^ k \<and> (1000::u64) \<le> 2 ^ k \<and> (k = 0 \<or> 2 ^ (k - 1) < (1000::u64)))"
  using next_pow2_least [of 1000] by (simp add: next_pow2_def)

text \<open>
  \<open>maybe_grow\<close> on a consistent buffer: the new buffer is consistent again, holds at least
  the requested number of bytes unless the allocation failed, and keeps the old content.
\<close>

theorem maybe_grow_spec:
  assumes "buf_ok b" and "maybe_grow b n h = (b', h')"
  shows "buf_ok b' \<and> (fst b' \<noteq> None \<longrightarrow> n \<le> snd b') \<and> (fst b' = None \<longrightarrow> snd b' = 0) \<and>
    (\<forall>m m'. fst b = Some m \<and> fst b' = Some m' \<longrightarrow>
      take (min (length m) (unat n)) m' = take (min (length m) (unat n)) m)"
proof (intro conjI allI impI)
  show ok: "buf_ok b'" using maybe_grow_buf_ok [OF assms] .
  show "n \<le> snd b'" if "fst b' \<noteq> None"
    using maybe_grow_size [of "fst b" "snd b" n h _ "snd b'" h'] assms that by (cases b') auto
  show "snd b' = 0" if "fst b' = None" using ok that by (simp add: buf_ok_def)
  show "take (min (length m) (unat n)) m' = take (min (length m) (unat n)) m"
    if "fst b = Some m \<and> fst b' = Some m'" for m m'
    using maybe_grow_prefix [of m "snd b" n h m' "snd b'" h' "min (length m) (unat n)"] assms that
    by (cases b; cases b') auto
qed

theorem maybe_grow_spec_witness:
  "\<exists>m s. maybe_grow (Some [Some 1, Some 2], 2) 100 ex_heap = ((Some m, s), ex_heap) \<and> 100 \<le> s \<and>
     length m = unat s \<and> take 2 m = [Some 1, Some 2]"
proof -
  let ?b = "(Some [Some 1, Some 2], 2) :: buf"
  have ok: "buf_ok ?b" by simp
  obtain m s where g: "maybe_grow ?b 100 ex_heap = ((Some m, s), ex_heap)"
    using maybe_grow_total [of ex_heap ?b 100] by auto
  have *: "100 \<le> s \<and> length m = unat s \<and>
      take (min (length [Some 1, Some 2 :: u8 option]) (unat (100::u64))) m =
      take (min (length [Some 1, Some 2 :: u8 option]) (unat (100::u64))) [Some 1, Some 2]"
    using maybe_grow_spec [OF ok g] by auto
  have "min (length [Some 1, Some 2 :: u8 option]) (unat (100::u64)) = 2" by simp
  with * have "take 2 m = [Some 1, Some 2]" by (metis length_Cons list.size(3) numeral_2_eq_2 order_refl take_all)
  with * g show ?thesis by auto
qed

section \<open>Trees\<close>

text \<open>
  C1: Round trip of \<open>tree_serialize\<close> and \<open>tree_deserialize\<close>: serialising a storable tree and
  deserialising the buffer gives a new tree that \<open>tree_equal\<close> finds equal to the first, which
  is unchanged.
\<close>

theorem tree_roundtrip:
  fixes h :: "'z heap_scheme"
  assumes "view h t" and "storable t" and "heap_ok h" and "mem_ok h" and "height t < k"
    and "root tree = root_ptr t" and "buf_ok (ser_buf tree)" and "length (ser t) < 2 ^ 64"
  shows "\<exists>tree1 tree2 h2. tree_serialize k tree h = Some (tree1, h) \<and>
    tree_deserialize k (fst (ser_buf tree1)) (ser_len tree1) h = Some (Some tree2, h2) \<and>
    tree_equal k (Some tree) (Some tree2) h2 = Some True \<and>
    (\<forall>a<brk h. nodes h2 a = nodes h a)"
proof -
  obtain tree1 where s: "tree_serialize k tree h = Some (tree1, h)" "out_ser tree tree1 (ser t)"
    using tree_serialize_view [OF assms(1,4-8)] by blast
  then obtain m where m: "fst (ser_buf tree1) = Some m" "unat (ser_len tree1) = length (ser t)"
    "take (length (ser t)) m = map Some (ser t)"
    by (auto simp: out_ser_def holds_def)
  have "drop 0 m = map Some (ser (erase t)) @ drop (length (ser t)) m"
    using m(3) by (metis append_take_drop_id drop0 ser_map)
  then obtain tree2 h2 t2 where d: "tree_deserialize k (Some m) (ser_len tree1) h = Some (Some tree2, h2)"
    "root tree2 = root_ptr t2" "read_tree h (erase t) h2 t2"
    using tree_deserialize_ser [of "erase t" h k m "drop (length (ser t)) m" "ser_len tree1"] assms(2-5) m(2)
    unfolding ser_map storable_map height_map by blast
  have "view h2 t" using view_grows [OF assms(1,3)] d(3) by (simp add: read_tree_def)
  then have "node_equal k (root_ptr t) (root_ptr t2) h2 = Some True"
    using node_equal_view [of h2 t t2 k] d(3) assms(5) by (auto simp: read_tree_def rep_def)
  then show ?thesis using s(1) d m(1) assms(6)
    by (auto simp: tree_equal_def read_tree_def grows_def)
qed

theorem tree_roundtrip_witness:
  "\<exists>tree1 tree2 h2. tree_serialize 4 ex_obj ex_heap = Some (tree1, ex_heap) \<and>
    tree_deserialize 4 (fst (ser_buf tree1)) (ser_len tree1) ex_heap = Some (Some tree2, h2) \<and>
    tree_equal 4 (Some ex_obj) (Some tree2) h2 = Some True \<and> (\<forall>a<3. nodes h2 a = nodes ex_heap a)"
  using tree_roundtrip [OF ex_facts(1,6,2,3) _ ex_facts(5,11), of 4] by simp

text \<open>
  C7: \<open>tree_to_buf\<close> writes the test case of the tree, the values of its leaves from left to
  right, and nothing else; every byte that is handed out was written.
\<close>

theorem tree_to_buf_flatten:
  assumes "view h t" and "mem_ok h" and "height t < k" and "root tree = root_ptr t"
    and "buf_ok (data tree)" and "length (flatten t) < 2 ^ 64"
  shows "\<exists>tree'. tree_to_buf k tree h = Some (tree', h) \<and> unat (data_len tree') = length (flatten t) \<and>
    mem_read (fst (data tree')) (unat (data_len tree')) = Some (flatten t)"
  using tree_to_buf_view [OF assms] by (fastforce simp: out_data_def holds_def mem_read_def mem_slice_def)

theorem tree_to_buf_flatten_witness:
  "\<exists>tree'. tree_to_buf 4 ex_obj ex_heap = Some (tree', ex_heap) \<and> unat (data_len tree') = length [97, 98 :: u8] \<and>
    mem_read (fst (data tree')) (unat (data_len tree')) = Some [97, 98]"
  using tree_to_buf_flatten [OF ex_facts(1,3) _ ex_facts(5,10), of 4] by simp

text \<open>
  \<open>node_clone\<close> makes an independent copy: the copy is equal to the original, and after
  the copy is freed again the original is as it was.
\<close>

theorem node_clone_independent:
  fixes h :: "'z heap_scheme"
  assumes "view h t" and "heap_ok h" and "mem_ok h" and "height t < k"
  shows "\<exists>q h1 h2. node_clone k (root_ptr t) h = Some (q, h1) \<and> node_equal k (root_ptr t) q h1 = Some True \<and>
    node_free k q h1 = Some h2 \<and> (\<forall>a<brk h. nodes h1 a = nodes h a \<and> nodes h2 a = nodes h a)"
proof -
  obtain t' h1 where c: "node_clone k (root_ptr t) h = Some (root_ptr t', h1)" "fresh_copy h t h1 t'"
    using node_clone_view [OF assms] by blast
  have v: "view h1 t" "view h1 t'" "distinct (anns t')" "erase t' = erase t"
    using c(2) view_grows [OF assms(1,2)] by (auto simp: fresh_copy_def rep_def)
  have "height t' < k" using v(4) assms(4) by (metis height_map)
  obtain h2 where f: "node_free k (root_ptr t') h1 = Some h2" "freed (set (anns t')) h1 h2"
    using node_free_view [OF v(2,3) \<open>height t' < k\<close>] by blast
  have "nodes h1 a = nodes h a \<and> nodes h2 a = nodes h a" if "a < brk h" for a
  proof -
    have "a \<notin> set (anns t')" using c(2) that by (auto simp: fresh_copy_def)
    then show ?thesis using c(2) that freed_nodes [OF f(2)] by (auto simp: fresh_copy_def grows_def)
  qed
  then show ?thesis using c(1) f(1) node_equal_view [OF v(1,2) assms(4)] v(4) by auto
qed

theorem node_clone_independent_witness:
  "\<exists>q h1 h2. node_clone 4 (Some 0) ex_heap = Some (q, h1) \<and> node_equal 4 (Some 0) q h1 = Some True \<and>
    node_free 4 q h1 = Some h2 \<and> (\<forall>a<brk ex_heap. nodes h1 a = nodes ex_heap a \<and> nodes h2 a = nodes ex_heap a)"
  using node_clone_independent [OF ex_facts(1-3), of 4] by simp

text \<open>
  \<open>node_equal\<close> decides whether two trees have the same types, rules, values and shape, and
  it never depends on the parent pointers or the cached sizes.
\<close>

theorem node_equal_decides:
  assumes "view h s" and "view h t" and "height s < k"
  shows "node_equal k (root_ptr s) (root_ptr t) h = Some (erase s = erase t)"
  using node_equal_view [OF assms] .

theorem node_equal_decides_witness: "node_equal 4 (Some 0) (Some 1) ex_heap = Some False"
proof -
  let ?t = "Node 1 1 1 [] [Node 2 0 0 [97, 98] []]"
  have "view ex_heap ?t" using ex_facts(1) by (auto simp: ex_tree_def)
  from node_equal_decides [OF ex_facts(1) this, of 4] show ?thesis by (simp add: ex_tree_def)
qed

text \<open>
  \<open>node_free\<close> on a tree without sharing releases exactly the nodes of the tree, each of
  them once.
\<close>

theorem node_free_exactly:
  fixes h :: "'z heap_scheme"
  assumes "view h t" and "distinct (anns t)" and "height t < k"
  shows "\<exists>h'. node_free k (root_ptr t) h = Some h' \<and>
    (\<forall>a. nodes h' a = (if a \<in> set (anns t) then None else nodes h a))"
  using node_free_view [OF assms] by (auto simp: freed_def)

theorem node_free_exactly_witness:
  "\<exists>h'. node_free 4 (Some 0) ex_heap = Some h' \<and> (\<forall>a. nodes h' a = None)"
proof -
  have "nodes ex_heap a = None" if "a \<noteq> 0" "a \<noteq> 1" "a \<noteq> 2" for a
    using that by (simp add: ex_heap_def ex_nodes_def)
  then show ?thesis using node_free_exactly [OF ex_facts(1,7), of 4] by fastforce
qed

text \<open>
  \<open>tree_get_size\<close> returns the number of nonterminal nodes and refreshes the two cached
  sizes of every node of the tree; the tree itself does not change.
\<close>

theorem tree_get_size_counts:
  fixes h :: "'z heap_scheme"
  assumes "rep h None t" and "t \<noteq> Null" and "tid t \<noteq> 0" and "height t < k" and "root tree = root_ptr t"
  shows "\<exists>h'. tree_get_size k tree h = Some (of_nat (nt_size t), h') \<and> sized h' t \<and> rep h' None t"
proof -
  have v: "view h t" "parents h None t" "distinct (anns t)" using assms(1) by (auto simp: rep_def)
  obtain a i r w ts where t: "t = Node a i r w ts" using assms(2) by (cases t) auto
  obtain h' where g: "node_get_size k (root_ptr t) h = Some h'" "sizes_only (set (anns t)) h h'" "sized h' t"
    using node_get_size_rep [OF v(1,3) assms(4)] by blast
  obtain n where n: "nodes h a = Some n" "node_id n = i" using v(1) t by auto
  obtain n' where "nodes h' a = Some n'" "non_term_size n' = of_nat (nt_size t)" using g(3) t by auto
  then have "tree_get_size k tree h = Some (of_nat (nt_size t), h')"
    using n g(1) assms(3,5) t by (simp add: tree_get_size_def)
  moreover have "rep h' None t"
    using sizes_only_view [OF v(1) g(2)] sizes_only_parents [OF v(2) g(2)] v(3) by (simp add: rep_def)
  ultimately show ?thesis using g(3) by blast
qed

theorem tree_get_size_counts_witness:
  "\<exists>h'. tree_get_size 4 ex_obj ex_heap = Some (2, h') \<and> sized h' ex_tree \<and> rep h' None ex_tree"
  using tree_get_size_counts [OF ex_rep _ _ _ ex_facts(5), of 4] by simp

text \<open>
  C9: \<open>node_replace_subnode\<close> puts a tree of the same type in the place of a subnode: the
  result is the tree with that subtree substituted, and the old subtree is a tree of its own.
\<close>

theorem node_replace_subnode_substitutes:
  assumes "rep h par t" and "child_at t p j s" and "rep h None u" and "s \<noteq> Null" "u \<noteq> Null"
    and "tid u = tid s" and "set (anns u) \<inter> set (anns t) = {}"
  shows "\<exists>h'. node_replace_subnode (Some p) (root_ptr s) (root_ptr u) h = Some (True, h') \<and>
    rep h' par (subst (ann s) u t) \<and> rep h' None s"
  using node_replace_subnode_ok [OF assms] by blast

definition ex_heap2 :: heap where
  "ex_heap2 = ex_heap\<lparr>nodes := ex_nodes(3 \<mapsto> ex_inner\<lparr>parent := None, subnodes := None, subnode_count := 0\<rparr>), brk := 4\<rparr>"

theorem node_replace_subnode_substitutes_witness:
  "\<exists>h'. node_replace_subnode (Some 0) (Some 1) (Some 3) ex_heap2 = Some (True, h') \<and>
    rep h' None (Node 0 1 0 [] [Node 3 1 1 [] []])"
proof -
  have "rep ex_heap2 None ex_tree" "rep ex_heap2 None (Node 3 1 1 [] [])"
    by (simp_all add: rep_def ex_heap2_def ex_defs val_ok_def kids_ok_def)
  moreover have "child_at ex_tree 0 0 (Node 1 1 1 [] [Node 2 0 0 [97, 98] []])" by (simp add: ex_tree_def)
  ultimately show ?thesis
    using node_replace_subnode_substitutes [of ex_heap2 None ex_tree 0 0 "Node 1 1 1 [] [Node 2 0 0 [97, 98] []]" "Node 3 1 1 [] []"]
    by (auto simp: ex_tree_def)
qed

text \<open>
  \<open>tree_get_non_terminal_nodes\<close> lists the nonterminal nodes of the tree in preorder; their
  number is what \<open>tree_get_size\<close> computes.
\<close>

theorem non_terminal_list:
  assumes "view h t" and "mem_ok h" and "height t < k" and "root tree = root_ptr t"
  shows "\<exists>tree'. tree_get_non_terminal_nodes k tree h = Some (tree', h) \<and>
    non_terminal_node_list tree' = Some (map Some (nonterms t)) \<and> length (nonterms t) = nt_size t \<and>
    root tree' = root tree"
  using tree_get_non_terminal_nodes_view [OF assms] by (simp add: length_nonterms)

theorem non_terminal_list_witness:
  "\<exists>tree'. tree_get_non_terminal_nodes 4 ex_obj ex_heap = Some (tree', ex_heap) \<and>
    non_terminal_node_list tree' = Some [Some 0, Some 1]"
  using non_terminal_list [OF ex_facts(1,3) _ ex_facts(5), of 4] by auto

text \<open>
  \<open>tree_get_recursion_edges\<close> lists the edges between nodes of one type in preorder; every
  listed edge is the one \<open>node_get_parent_edge\<close> finds, and their number is the cached size.
\<close>

theorem recursion_edge_list_spec:
  assumes "rep h None t" and "mem_ok h" and "height t < k" and "root tree = root_ptr t"
  shows "\<exists>tree'. tree_get_recursion_edges k tree h = Some (tree', h) \<and>
    recursion_edge_list tree' = Some (rec_edges t) \<and> length (rec_edges t) = re_size t \<and>
    (\<forall>e\<in>set (rec_edges t). node_get_parent_edge (e_subnode e) h = Some e)"
proof -
  have v: "view h t" using assms(1) by (simp add: rep_def)
  have "node_get_parent_edge (e_subnode e) h = Some e" if "e \<in> set (rec_edges t)" for e
  proof -
    note * = rec_edges_child [OF that]
    obtain p j s where "e = \<lparr>e_parent = Some p, e_subnode = root_ptr s, e_offset = j\<rparr>" "child_at t p j s" "s \<noteq> Null"
      using * by (elim exE conjE)
    then show ?thesis using node_get_parent_edge_ok [OF assms(1)] by simp
  qed
  then show ?thesis using tree_get_recursion_edges_view [OF v assms(2-4)] length_rec_edges [OF v] by simp
qed

theorem recursion_edge_list_spec_witness:
  "\<exists>tree'. tree_get_recursion_edges 4 ex_obj ex_heap = Some (tree', ex_heap) \<and>
    recursion_edge_list tree' = Some [\<lparr>e_parent = Some 0, e_subnode = Some 1, e_offset = 0\<rparr>]"
  using recursion_edge_list_spec [OF ex_rep ex_facts(3) _ ex_facts(5), of 4] by auto

end
