(* ===== verification/Mutation_Theorems.thy ===== *)
theory Mutation_Theorems
  imports Recursive_Mutation Tree_Theorems
begin

text \<open>
  The theorems about random numbers, the choice of mutation points, mutation and trimming
  (Grammar-Mutator/src/utils.c, tree.c, tree\_mutation.c, tree\_trimming.c).  The witnesses run
  on the tree of Tree\_Theorems with right cached sizes, a live generator and a grammar whose
  generator makes a single node.
\<close>

section \<open>A concrete state and generator\<close>

definition ex_mheap :: mheap where
  "ex_mheap = \<lparr>avail = None,
     nodes = [0 \<mapsto> ex_root\<lparr>non_term_size := 2, recursion_edge_size := 1\<rparr>,
              1 \<mapsto> ex_inner\<lparr>non_term_size := 1\<rparr>, 2 \<mapsto> ex_leaf],
     brk = 3, random_seed = (5, 7, 11), max_tree_len = 1000\<rparr>"

definition ex_gen :: "'z gen" where
  "ex_gen i m r h = node_create_with_rule_id i r h"

lemma ex_mheap_rep: "rep ex_mheap None ex_tree"
  by (simp add: rep_def ex_defs ex_mheap_def val_ok_def kids_ok_def)

lemma ex_mfacts [simp]:
  "view ex_mheap ex_tree" "sized ex_mheap ex_tree" "heap_ok ex_mheap" "mem_ok ex_mheap"
  "rng_live (random_seed ex_mheap)" "brk ex_mheap = 3"
proof -
  show "view ex_mheap ex_tree" using ex_mheap_rep by (simp add: rep_def)
  show "sized ex_mheap ex_tree" by (simp add: ex_defs ex_mheap_def rec_edge_def)
  show "heap_ok ex_mheap" by (simp add: heap_ok_def ex_mheap_def)
  show "mem_ok ex_mheap" "brk ex_mheap = 3" by (simp_all add: ex_mheap_def)
  show "rng_live (random_seed ex_mheap)" by (rule rng_live_now) (simp add: ex_mheap_def)
qed

lemma ex_gen_ok: "gen_ok (ex_gen :: 'z gen) I 1"
  unfolding gen_ok_def
proof (intro allI impI)
  fix i m r and h :: "'z mheap_scheme"
  assume h: "i \<in> I \<and> heap_ok h \<and> mem_ok h \<and> rng_live (random_seed h)"
  define n where "n = (new_node i)\<lparr>rule_id := r\<rparr>"
  define h' where "h' = (wr (brk h) n h)\<lparr>brk := Suc (brk h)\<rparr>"
  have "wr (brk h) n ((wr (brk h) (new_node i) h)\<lparr>brk := Suc (brk h)\<rparr>) = h'"
    by (simp add: h'_def wr_def)
  then have "ex_gen i m r h = Some (root_ptr (Node (brk h) i r [] []), h')"
    using h by (simp add: ex_gen_def node_create_with_rule_id_def node_create_ok upd_Some n_def)
  moreover have "new_tree_in h h' (Node (brk h) i r [] [])"
  proof -
    have "grows h h'" unfolding h'_def by (rule grows_create) (use h in simp)
    moreover have "rep h' None (Node (brk h) i r [] [])"
      by (simp add: rep_def h'_def n_def val_ok_def kids_ok_def new_node_def zero_node_def)
    ultimately show ?thesis using h grows_rgrows by (auto simp: new_tree_in_def h'_def)
  qed
  ultimately show "\<exists>u h'. ex_gen i m r h = Some (root_ptr u, h') \<and> new_tree_in h h' u \<and> u \<noteq> Null \<and> tid u = i \<and> height u \<le> 1"
    by (intro exI [of _ "Node (brk h) i r [] []"] exI [of _ h']) simp
qed

section \<open>Random numbers\<close>

text \<open>
  \<open>random_below\<close> is unbiased: among the raw values its loop accepts, every result below
  the limit has the same number of preimages.
\<close>

theorem random_below_unbiased:
  assumes "r < limit"
  shows "card {x. x < rnd_bound limit \<and> (ucast (x mod ucast limit) :: u32) = r} = (2 ^ 64 - 1) div unat limit"
  using random_unbiased [OF assms] .

theorem random_below_unbiased_witness:
  "card {x. x < rnd_bound 10 \<and> (ucast (x mod ucast (10::u32)) :: u32) = 3} = 1844674407370955161"
  using random_below_unbiased [of 3 10] by simp

text \<open>
  C10: the rejection loop of \<open>random_below\<close> returns exactly when the generator reaches an
  accepted value, and the generator, which is a permutation of its states, keeps every state
  with such a value ahead in that condition: draws never start to starve.
\<close>

theorem random_below_terminates:
  "(random_below limit s \<noteq> None \<longleftrightarrow>
      limit \<le> 1 \<or> (\<exists>n. fst (random_next ((next_seeds ^^ n) s)) < rnd_bound limit)) \<and>
   (rng_live s \<longrightarrow> (\<exists>r s'. random_below limit s = Some (r, s') \<and> rng_live s' \<and> (limit \<noteq> 0 \<longrightarrow> r < limit)))"
proof
  show "random_below limit s \<noteq> None \<longleftrightarrow>
      limit \<le> 1 \<or> (\<exists>n. fst (random_next ((next_seeds ^^ n) s)) < rnd_bound limit)"
  proof -
    have "random_draw (rnd_bound limit) s \<noteq> None \<longleftrightarrow>
        (\<exists>n. fst (random_next ((next_seeds ^^ n) s)) < rnd_bound limit)"
    proof
      assume *: "random_draw (rnd_bound limit) s \<noteq> None"
      show "\<exists>n. fst (random_next ((next_seeds ^^ n) s)) < rnd_bound limit"
      proof (rule ccontr)
        assume "\<not> ?thesis"
        then have "rnd_bound limit \<le> fst (random_next ((next_seeds ^^ n) s))" for n by (simp add: not_less)
        then have "random_draw (rnd_bound limit) s = None" by (rule random_draw_starves)
        then show False using * by simp
      qed
    next
      assume "\<exists>n. fst (random_next ((next_seeds ^^ n) s)) < rnd_bound limit"
      then show "random_draw (rnd_bound limit) s \<noteq> None" by (elim exE) (rule random_draw_ends)
    qed
    then show ?thesis
      by (cases "random_draw (rnd_bound limit) s") (simp_all add: random_below_def case_prod_beta del: split_paired_Ex)
  qed
  show "rng_live s \<longrightarrow> (\<exists>r s'. random_below limit s = Some (r, s') \<and> rng_live s' \<and> (limit \<noteq> 0 \<longrightarrow> r < limit))"
    using random_below_live by blast
qed

theorem random_below_terminates_witness:
  "\<exists>r s'. random_below 10 (5, 7, 11) = Some (r, s') \<and> rng_live s' \<and> r < 10"
proof -
  have "rng_live (5, 7, 11)" by (rule rng_live_now) simp
  then show ?thesis using random_below_terminates [of 10 "(5, 7, 11)"] by auto
qed

section \<open>Mutation points\<close>

text \<open>
  C8: \<open>node_pick_non_term_subnode\<close> on a tree with right sizes returns a nonterminal node of
  the tree: its exit "should not reach here" is not reached, and only the generator changes.
\<close>

theorem pick_non_term_total:
  assumes "view h t" and "sized h t" and "0 < nt_size t" and "nt_size t < 2 ^ 32"
    and "rng_live (random_seed h)" and "height t < k"
  shows "\<exists>a s. node_pick_non_term_subnode k (root_ptr t) h = Some (Some a, h\<lparr>random_seed := s\<rparr>) \<and>
    a \<in> set (nonterms t)"
  using pick_non_term_view [OF assms] by blast

theorem pick_non_term_total_witness:
  "\<exists>a s. node_pick_non_term_subnode 4 (Some 0) ex_mheap = Some (Some a, ex_mheap\<lparr>random_seed := s\<rparr>) \<and> a \<in> {0, 1}"
  using pick_non_term_total [OF ex_mfacts(1,2) _ _ ex_mfacts(5), of 4] by (simp del: split_paired_Ex)

text \<open>
  \<open>node_pick_recursion_edge\<close> on a tree with right sizes returns one of its recursion
  edges, and the empty edge exactly when the tree has none.
\<close>

theorem pick_recursion_edge_total:
  assumes "view h t" and "sized h t" and "re_size t < 2 ^ 32" and "rng_live (random_seed h)" and "height t < k"
  shows "\<exists>e s. node_pick_recursion_edge k (root_ptr t) h = Some (e, h\<lparr>random_seed := s\<rparr>) \<and>
    (if re_size t = 0 then e = null_edge else e \<in> set (rec_edges t))"
proof (cases "re_size t = 0")
  case True
  have "h\<lparr>random_seed := random_seed h\<rparr> = h" by simp
  then show ?thesis
    using pick_recursion_edge_none [OF assms(1,2) True, of k] assms(5) True
    by (intro exI [of _ null_edge] exI [of _ "random_seed h"]) simp
next
  case False
  then show ?thesis using pick_recursion_edge_view [OF assms(1,2) _ assms(3-5)] by (simp del: split_paired_Ex) blast
qed

theorem pick_recursion_edge_total_witness:
  "\<exists>s. node_pick_recursion_edge 4 (Some 0) ex_mheap =
     Some (\<lparr>e_parent = Some 0, e_subnode = Some 1, e_offset = 0\<rparr>, ex_mheap\<lparr>random_seed := s\<rparr>)"
  using pick_recursion_edge_total [OF ex_mfacts(1,2) _ ex_mfacts(5), of 4] by (simp del: split_paired_Ex)

section \<open>Mutations\<close>

text \<open>
  C2: \<open>random_mutation\<close> on a tree with right sizes: the process does not exit, the given tree
  is untouched, and the result is a new copy of it in which the nonterminal subtree that
  \<open>node_pick_non_term_subnode\<close> chose gave way to the tree that the generator of its type
  returned for the bound \<open>max_tree_len\<close> and any rule (- 1); the nodes of that tree are all new.
\<close>

theorem random_mutation_replaces_one:
  fixes h :: "'z mheap_scheme"
  assumes "view h t" "sized h t" and "heap_ok h" "mem_ok h" "rng_live (random_seed h)"
    and "0 < nt_size t" "nt_size t < 2 ^ 32" and "gen_ok gen I H" "in_grammar I t"
    and "height t < k" and "root tree = root_ptr t"
  shows "\<exists>tree' h' t'. random_mutation gen k (Some tree) h = Some (Ret (Some tree', h')) \<and>
    root tree' = root_ptr t' \<and> rep h' None t' \<and> one_replaced gen k h t t' \<and> (\<forall>a<brk h. nodes h' a = nodes h a)"
  using random_mutation_view [OF assms] by (auto simp: new_beside_def)

theorem random_mutation_replaces_one_witness:
  "\<exists>tree' h' t'. random_mutation ex_gen 4 (Some ex_obj) ex_mheap = Some (Ret (Some tree', h')) \<and>
    root tree' = root_ptr t' \<and> rep h' None t' \<and> one_replaced ex_gen 4 ex_mheap ex_tree t' \<and> (\<forall>a<3. nodes h' a = nodes ex_mheap a)"
  using random_mutation_replaces_one [OF ex_mfacts(1-5) _ _ ex_gen_ok _ _ ex_facts(5), of UNIV 4]
  by (simp add: in_grammar_def)

text \<open>
  C4: \<open>rules_mutation\<close> at a nonterminal node, with another rule of its type: the result is a
  clone of the tree with the subtree at that node replaced by exactly the tree that the
  generator of its type returns in the current heap for the bound \<open>max_tree_len\<close> and the given
  rule; the given tree, whose pointers were changed meanwhile, is as it was.
\<close>

theorem rules_mutation_restores:
  fixes h :: "'z mheap_scheme"
  assumes "rep h None t" and "heap_ok h" "mem_ok h" "rng_live (random_seed h)"
    and "s \<in> set (subtrees t)" "root_ptr s = Some a" "tid s \<noteq> 0" "s = t \<or> (\<exists>p j. child_at t p j s)"
    and "ucast rule < num (tid s)" "rule \<noteq> trule s"
    and "gen_ok gen I H" "tid s \<in> I" and "height t + H < k" and "root tree = root_ptr t"
  shows "\<exists>tree' h' t' u h1. rules_mutation gen num k (Some tree) (Some a) rule h = Some (Some tree', h') \<and>
    root tree' = root_ptr t' \<and> rep h' None t' \<and>
    gen (tid s) (ucast (max_tree_len h)) rule h = Some (root_ptr u, h1) \<and> new_tree_in h h1 u \<and>
    u \<noteq> Null \<and> tid u = tid s \<and> erase t' = erase (subst a u t) \<and> (\<forall>x<brk h. nodes h' x = nodes h x)"
proof -
  obtain tree' h' t' u h1 where "rules_mutation gen num k (Some tree) (Some a) rule h = Some (Some tree', h')"
    "root tree' = root_ptr t'" "new_beside h h' t'" "erase t' = erase (subst a u t)" "u \<noteq> Null" "tid u = tid s"
    "gen (tid s) (ucast (max_tree_len h)) rule h = Some (root_ptr u, h1)" "new_tree_in h h1 u"
    using rules_mutation_view [where num = num, OF assms] by (elim exE conjE)
  moreover have "rep h' None t'" "\<forall>x<brk h. nodes h' x = nodes h x" using calculation(3) by (simp_all add: new_beside_def)
  ultimately show ?thesis by blast
qed

theorem rules_mutation_restores_witness:
  "\<exists>tree' h' t' u h1. rules_mutation ex_gen (\<lambda>_. 3) 5 (Some ex_obj) (Some 1) 2 ex_mheap = Some (Some tree', h') \<and>
    root tree' = root_ptr t' \<and> rep h' None t' \<and> ex_gen 1 1000 2 ex_mheap = Some (root_ptr u, h1) \<and>
    new_tree_in ex_mheap h1 u \<and> u \<noteq> Null \<and> tid u = 1 \<and> erase t' = erase (subst 1 u ex_tree) \<and>
    (\<forall>x<3. nodes h' x = nodes ex_mheap x)"
proof -
  let ?s = "Node 1 1 1 [] [Node 2 0 0 [97, 98] []] :: nat tree"
  have s: "?s \<in> set (subtrees ex_tree)" "root_ptr ?s = Some 1" "tid ?s \<noteq> 0" "?s = ex_tree \<or> (\<exists>p j. child_at ex_tree p j ?s)"
    by (auto simp: ex_tree_def intro!: exI [of _ 0])
  have "\<exists>tree' h' t' u h1. rules_mutation ex_gen (\<lambda>_. 3) 5 (Some ex_obj) (Some 1) 2 ex_mheap = Some (Some tree', h') \<and>
    root tree' = root_ptr t' \<and> rep h' None t' \<and>
    ex_gen (tid ?s) (ucast (max_tree_len ex_mheap)) 2 ex_mheap = Some (root_ptr u, h1) \<and> new_tree_in ex_mheap h1 u \<and>
    u \<noteq> Null \<and> tid u = tid ?s \<and> erase t' = erase (subst 1 u ex_tree) \<and> (\<forall>x<brk ex_mheap. nodes h' x = nodes ex_mheap x)"
    by (rule rules_mutation_restores [OF ex_mheap_rep ex_mfacts(3-5) s _ _ ex_gen_ok, of _ _ UNIV]) simp_all
  moreover have "ucast (max_tree_len ex_mheap) = (1000 :: u32)" by (simp add: ex_mheap_def)
  ultimately show ?thesis by (simp only: tree.sel ex_mfacts(6))
qed

text \<open>
  C3: \<open>random_recursive_mutation\<close> with a small n, on a tree with a recursion edge: the result
  is a clone in which the edge that was picked is repeated 2 to n more times; the given tree
  is untouched.
\<close>

theorem random_recursive_mutation_repeats:
  fixes h :: "'z rheap_scheme"
  assumes "view h t" "sized h t" and "heap_ok h" "mem_ok h" "rng_live (random_seed h)"
    and "0 < re_size t" "re_size t < 2 ^ 32" and "n < 31" and "height t < k" and "root tree = root_ptr t"
  shows "\<exists>tree' h' t'. random_recursive_mutation k (Some tree) n h = Some (Some tree', h') \<and>
    root tree' = root_ptr t' \<and> rep h' None t' \<and> repeated (2 ^ unat n) t t' \<and> (\<forall>a<brk h. nodes h' a = nodes h a)"
  using random_recursive_mutation_view [OF assms] by (auto simp: new_beside_def)

theorem random_recursive_mutation_repeats_witness:
  "\<exists>tree' h' t'. random_recursive_mutation 4 (Some ex_obj) 3 ex_mheap = Some (Some tree', h') \<and>
    root tree' = root_ptr t' \<and> rep h' None t' \<and> repeated 8 ex_tree t' \<and> (\<forall>a<3. nodes h' a = nodes ex_mheap a)"
  using random_recursive_mutation_repeats [OF ex_mfacts(1-5) _ _ _ _ ex_facts(5), of 3 4] by simp

section \<open>Trimming\<close>

text \<open>
  C6: \<open>subtree_trimming\<close> returns a clone of the tree in which the subtree at the node is exactly
  the tree that the generator of its type returns in the current heap for the bound 0 and any
  rule (- 1), and leaves the given tree as it was.
\<close>

theorem subtree_trimming_restores:
  fixes h :: "'z mheap_scheme"
  assumes "rep h None t" and "heap_ok h" "mem_ok h" "rng_live (random_seed h)"
    and "s \<in> set (subtrees t)" "root_ptr s = Some a" "s = t \<or> (\<exists>p j. child_at t p j s)"
    and "gen_ok gen I H" "tid s \<in> I" and "height t + H < k" and "root tree = root_ptr t"
  shows "\<exists>tree' h' t' u h1. subtree_trimming gen k tree (Some a) h = Some (tree', h') \<and>
    root tree' = root_ptr t' \<and> rep h' None t' \<and> gen (tid s) 0 (- 1) h = Some (root_ptr u, h1) \<and> new_tree_in h h1 u \<and>
    u \<noteq> Null \<and> tid u = tid s \<and> erase t' = erase (subst a u t) \<and> (\<forall>x<brk h. nodes h' x = nodes h x)"
proof -
  obtain tree' h' t' u h1 where "subtree_trimming gen k tree (Some a) h = Some (tree', h')"
    "root tree' = root_ptr t'" "new_beside h h' t'" "erase t' = erase (subst a u t)" "u \<noteq> Null" "tid u = tid s"
    "gen (tid s) 0 (- 1) h = Some (root_ptr u, h1)" "new_tree_in h h1 u"
    using subtree_trimming_view [OF assms] by (elim exE conjE)
  moreover have "rep h' None t'" "\<forall>x<brk h. nodes h' x = nodes h x" using calculation(3) by (simp_all add: new_beside_def)
  ultimately show ?thesis by blast
qed

theorem subtree_trimming_restores_witness:
  "\<exists>tree' h' t' u h1. subtree_trimming ex_gen 5 ex_obj (Some 0) ex_mheap = Some (tree', h') \<and>
    root tree' = root_ptr t' \<and> rep h' None t' \<and> ex_gen (tid ex_tree) 0 (- 1) ex_mheap = Some (root_ptr u, h1) \<and>
    new_tree_in ex_mheap h1 u \<and> u \<noteq> Null \<and> tid u = tid ex_tree \<and> erase t' = erase (subst 0 u ex_tree) \<and>
    (\<forall>x<brk ex_mheap. nodes h' x = nodes ex_mheap x)"
proof -
  have s: "ex_tree \<in> set (subtrees ex_tree)" by (simp add: ex_tree_def)
  show ?thesis
    by (rule subtree_trimming_restores [OF ex_mheap_rep ex_mfacts(3-5) s _ _ ex_gen_ok, of _ UNIV]) simp_all
qed

text \<open>
  C5: \<open>recursive_trimming\<close> for an edge of the tree returns a clone in which the lower node
  takes the place of the upper one, and leaves the given tree as it was.
\<close>

theorem recursive_trimming_shortens:
  fixes h :: "'z heap_scheme"
  assumes "rep h None t" and "heap_ok h" "mem_ok h" and "child_at t p j s" and "s \<noteq> Null"
    and "height t + height s < k" and "root tree = root_ptr t"
  shows "\<exists>tree' t' h'. recursive_trimming k tree \<lparr>e_parent = Some p, e_subnode = root_ptr s, e_offset = j\<rparr> h =
      Some (tree', h') \<and> root tree' = root_ptr t' \<and> rep h' None t' \<and> erase t' = erase (subst p s t) \<and>
      (\<forall>x<brk h. nodes h' x = nodes h x)"
  using recursive_trimming_view [OF assms] by (fastforce simp: cloned_as_def)

theorem recursive_trimming_shortens_witness:
  "\<exists>tree' t' h'. recursive_trimming 9 ex_obj \<lparr>e_parent = Some 1, e_subnode = Some 2, e_offset = 0\<rparr> ex_heap =
      Some (tree', h') \<and> root tree' = root_ptr t' \<and> rep h' None t' \<and>
      erase t' = Node () 1 0 [] [Node () 0 0 [97, 98] []] \<and> (\<forall>x<3. nodes h' x = nodes ex_heap x)"
proof -
  have c: "child_at ex_tree 1 0 (Node 2 0 0 [97, 98] [])" by (simp add: ex_tree_def)
  have e: "erase (subst 1 (Node 2 0 0 [97, 98] []) ex_tree) = Node () 1 0 [] [Node () 0 0 [97, 98] []]"
    by (simp add: ex_tree_def)
  show ?thesis
    using recursive_trimming_shortens [OF ex_rep ex_facts(2,3) c, of 9 ex_obj] e by simp
qed

end
