(* ===== verification/Chunk_Theorems.thy ===== *)
theory Chunk_Theorems
  imports Splicing Mutation_Theorems Container_Theorems
begin

text \<open>
  The theorems about the chunk store (Grammar-Mutator/src/chunk\_store.c) and the splicing
  mutation.  The witnesses start from the tree of Tree\_Theorems and an empty store; the digest
  of a byte stream is its length there, which tells the three subtrees apart.
\<close>

section \<open>A concrete store\<close>

definition ex_cheap :: cheap where
  "ex_cheap = \<lparr>avail = None, nodes = nodes ex_mheap, brk = 3, random_seed = (5, 7, 11), max_tree_len = 1000,
     chunk_store = map_init, seen_chunks = map_init\<rparr>"

definition ex_digest :: "u8 list \<Rightarrow> u64" where
  "ex_digest bs = of_nat (length bs)"

definition ex_type_str :: "u32 \<Rightarrow> key" where
  "ex_type_str i = u32_bytes i"

abbreviation ex_kept :: "unit tree set" where
  "ex_kept \<equiv> set (subtrees (erase ex_tree))"

lemma map_init_get [simp]: "map_get map_init key = Some None"
  by (simp add: map_get_def map_getref_def map_init_def)

lemma map_ok_init [simp]: "map_ok map_init"
  by (simp add: map_ok_def buckets_ok_def map_init_def entries_def)

lemma ex_store_inv: "store_inv digest ty U ex_cheap Map.empty {}"
proof -
  have "heap_ok ex_cheap" using ex_mfacts(3) by (simp add: heap_ok_def ex_cheap_def ex_mheap_def)
  then show ?thesis
    by (simp add: store_inv_def maps_ok_def chunks_of_def ex_cheap_def)
qed

lemma ex_no_collision: "no_collision ex_digest ex_kept"
  by (simp add: no_collision_def ex_digest_def ex_tree_def u32_bytes_def)

lemma ex_type_inj: "inj ex_type_str"
proof (rule injI)
  show "i = j" if "ex_type_str i = ex_type_str j" for i j
    using that u32_bytes_inj by (simp add: ex_type_str_def)
qed

lemma ex_cheap_facts [simp]:
  "view ex_cheap ex_tree" "sized ex_cheap ex_tree" "full ex_tree" "brk ex_cheap = 3"
  "rng_live (random_seed ex_cheap)" "room ex_cheap (length (anns ex_tree))"
proof -
  show "view ex_cheap ex_tree" "sized ex_cheap ex_tree"
    by (simp_all add: ex_cheap_def ex_mheap_def ex_defs val_ok_def kids_ok_def rec_edge_def)
  show "full ex_tree" by (simp add: ex_tree_def)
  show "brk ex_cheap = 3" by (simp add: ex_cheap_def)
  show "rng_live (random_seed ex_cheap)" by (rule rng_live_now) (simp add: ex_cheap_def)
  show "room ex_cheap (length (anns ex_tree))"
    by (simp add: room_def ex_cheap_def map_init_def entries_def ex_tree_def)
qed

section \<open>Adding a tree\<close>

text \<open>
  C13: The chunk store is closed under subtrees, as long as no two of the trees that are ever added have
  the same hash: U is the set of these trees and their subtrees, and the digest tells the byte streams
  of any two members of it apart.  (Streams leave out the number of subnodes, so that trees of different
  shape can have the same one; such trees are excluded.)  \<open>chunk_store_add_tree\<close> then never fails, keeps the
  invariant of the two maps (every kept node is found in \<open>seen_chunks\<close> under its own hash
  and in the list of its type, each node once, and the trees below kept nodes consist of kept
  nodes), forgets nothing, holds afterwards every subtree of the tree, and leaves the nodes of the
  tree itself alone; the store owns the nodes of its own clone only.
\<close>

theorem chunk_store_keeps_every_subtree:
  fixes h :: "'z cheap_scheme"
  assumes "store_inv digest ty U h c {}" and "no_collision digest U"
    and "view h t" and "full t" and "height t < k" and "set (subtrees (erase t)) \<subseteq> U"
    and "room h (length (anns t))" and "root tree = root_ptr t"
  shows "\<exists>h' c'. chunk_store_add_tree digest ty k (Some tree) h = Some h' \<and> store_inv digest ty U h' c' {}
    \<and> c \<subseteq>\<^sub>m c' \<and> set (subtrees (erase t)) \<subseteq> ran c'
    \<and> (\<forall>x. x < brk h \<and> x \<notin> dom c \<longrightarrow> nodes h' x = nodes h x) \<and> dom c' \<subseteq> dom c \<union> {brk h..}"
  using add_tree_view [OF assms] by (elim exE conjE) (intro exI conjI; assumption)

theorem chunk_store_keeps_every_subtree_witness:
  "\<exists>h' c'. chunk_store_add_tree ex_digest ex_type_str 4 (Some ex_obj) ex_cheap = Some h'
    \<and> store_inv ex_digest ex_type_str ex_kept h' c' {} \<and> ex_kept \<subseteq> ran c'
    \<and> (\<forall>x<3. nodes h' x = nodes ex_cheap x) \<and> dom c' \<subseteq> {3..}"
  using chunk_store_keeps_every_subtree [OF ex_store_inv [of ex_digest ex_type_str ex_kept] ex_no_collision, of ex_tree 4 ex_obj]
  by simp

text \<open>The store of the following witnesses: one tree has been added.\<close>

lemma ex_added:
  obtains h c where "chunk_store_add_tree ex_digest ex_type_str 4 (Some ex_obj) ex_cheap = Some h"
    "store_inv ex_digest ex_type_str ex_kept h c {}" "ran c = ex_kept" "view h ex_tree" "sized h ex_tree"
    "random_seed h = (5, 7, 11)" "finite (dom c)" "card (dom c) < 2 ^ 31"
proof -
  have "\<exists>h c. chunk_store_add_tree ex_digest ex_type_str 4 (Some ex_obj) ex_cheap = Some h
      \<and> store_inv ex_digest ex_type_str ex_kept h c {} \<and> ex_kept \<subseteq> ran c \<and> ran c \<subseteq> ex_kept
      \<and> (\<forall>x<3. nodes h x = nodes ex_cheap x) \<and> random_seed h = random_seed ex_cheap"
    using add_tree_view [OF ex_store_inv [of ex_digest ex_type_str ex_kept] ex_no_collision, of ex_tree 4 ex_obj]
    by simp blast
  then obtain h c where *: "chunk_store_add_tree ex_digest ex_type_str 4 (Some ex_obj) ex_cheap = Some h"
    "store_inv ex_digest ex_type_str ex_kept h c {}" "ex_kept \<subseteq> ran c" "ran c \<subseteq> ex_kept"
    "\<forall>x<3. nodes h x = nodes ex_cheap x" "random_seed h = random_seed ex_cheap"
    by (elim exE conjE) (rule that; assumption)
  have "nodes h x = nodes ex_cheap x" if "x \<in> set (anns ex_tree)" for x
    using *(5) that by auto
  then have "view h ex_tree" "sized h ex_tree"
    using view_cong [of ex_cheap ex_tree h] sized_cong [of ex_cheap ex_tree h] by auto
  moreover have "finite (dom c)" "card (dom c) < 2 ^ 31"
    using store_card [OF *(2)] by (simp_all add: ex_tree_def card_insert_if split: if_splits)
  ultimately show thesis using *(1-4,6) by (intro that [of h c]) (auto simp: ex_cheap_def)
qed

section \<open>Splicing\<close>



section \<open>Clearing\<close>

text \<open>
  C15: \<open>chunk_store_clear\<close> frees every node of the store exactly once and no other: although
  the kept trees share nodes and free themselves by type, each list gives back only its own
  nodes.  Afterwards both maps are empty.
\<close>

theorem chunk_store_clear_frees_once:
  fixes h :: "'z cheap_scheme"
  assumes "store_inv digest ty U h c {}" and "length (entries (chunk_store h)) < k"
  shows "\<exists>h'. chunk_store_clear k h = Some h' \<and> (\<forall>x. nodes h' x = (if x \<in> dom c then None else nodes h x))
    \<and> seen_chunks h' = map_init \<and> chunk_store h' = map_init"
  using clear_view [OF assms] by blast

theorem chunk_store_clear_frees_once_witness:
  "\<exists>h k h'. chunk_store_add_tree ex_digest ex_type_str 4 (Some ex_obj) ex_cheap = Some h
    \<and> chunk_store_clear k h = Some h' \<and> chunk_store h' = map_init \<and> seen_chunks h' = map_init"
proof -
  obtain h c where a: "chunk_store_add_tree ex_digest ex_type_str 4 (Some ex_obj) ex_cheap = Some h"
    "store_inv ex_digest ex_type_str ex_kept h c {}" by (rule ex_added)
  from chunk_store_clear_frees_once [OF a(2), of "Suc (length (entries (chunk_store h)))"] a(1)
  show ?thesis by blast
qed

section \<open>Hashes\<close>

text \<open>
  The hash does not see the shape of a tree: the stream fed to the digest has no
  subnode count, so whatever the digest is, a node with a child and a grandchild and a node with
  those two as children have the same hash, while \<open>node_equal\<close> tells them apart.  The
  second of them is dropped by \<open>chunk_store_take_node\<close> as a duplicate.
\<close>

theorem hash_ignores_shape:
  assumes "view h (Node a i r v [Node b j s w [u]])" and "view h (Node a' i r v [Node b' j s w [], u'])"
    and "erase u' = erase u" and "full u" and "Suc (Suc (height u)) < k"
  shows "hash_node digest k (Some a) h = hash_node digest k (Some a') h \<and> hash_node digest k (Some a) h \<noteq> None
    \<and> node_equal k (Some a) (Some a') h = Some False"
proof -
  let ?t = "Node a i r v [Node b j s w [u]]" and ?t' = "Node a' i r v [Node b' j s w [], u']"
  have u': "full u'" "hash_input u' = hash_input u" "height u' = height u"
    using assms(3,4) full_erase hash_input_map erase_height by metis+
  have k: "height ?t < k" "height ?t' < k" using assms(5) u'(3) by simp_all
  have "tree_key digest ?t = tree_key digest ?t'" by (simp add: tree_key_def u'(2))
  moreover have "hash_node digest k (root_ptr ?t) h = Some (tree_key digest ?t)"
    by (rule hash_node_view) (use assms(1,4) k in simp_all)
  moreover have "hash_node digest k (root_ptr ?t') h = Some (tree_key digest ?t')"
    by (rule hash_node_view) (use assms(2) u'(1) k in simp_all)
  moreover have "node_equal k (root_ptr ?t) (root_ptr ?t') h = Some (erase ?t = erase ?t')"
    by (rule node_equal_view) (use assms(1,2) k in simp_all)
  ultimately show ?thesis by simp
qed

definition two_shapes :: heap where
  "two_shapes = \<lparr>avail = None, nodes =
     [0 \<mapsto> (new_node 1)\<lparr>subnodes := Some [Some (Some 1)], subnode_count := 1\<rparr>,
      1 \<mapsto> (new_node 2)\<lparr>subnodes := Some [Some (Some 2)], subnode_count := 1\<rparr>, 2 \<mapsto> new_node 3,
      3 \<mapsto> (new_node 1)\<lparr>subnodes := Some [Some (Some 4), Some (Some 5)], subnode_count := 2\<rparr>,
      4 \<mapsto> new_node 2, 5 \<mapsto> new_node 3], brk = 6\<rparr>"

theorem hash_ignores_shape_witness:
  "hash_node ex_digest 4 (Some 0) two_shapes = hash_node ex_digest 4 (Some 3) two_shapes
    \<and> hash_node ex_digest 4 (Some 0) two_shapes \<noteq> None \<and> node_equal 4 (Some 0) (Some 3) two_shapes = Some False"
proof (rule hash_ignores_shape)
  show "view two_shapes (Node 0 1 0 [] [Node 1 2 0 [] [Node 2 3 0 [] []]])"
    "view two_shapes (Node 3 1 0 [] [Node 4 2 0 [] [], Node 5 3 0 [] []])"
    by (simp_all add: two_shapes_def new_node_def zero_node_def val_ok_def kids_ok_def)
qed simp_all

end
