(* ===== verification/File_Theorems.thy ===== *)
theory File_Theorems
  imports Files Tree_Theorems
begin

text \<open>
  The theorems about files: tree files, the creation and removal of directories and the string
  search of Grammar-Mutator/src/utils.c and tree.c.
\<close>

section \<open>System calls that do not fail\<close>

abbreviation sys_ok :: "'z fsheap_scheme \<Rightarrow> bool" where
  "sys_ok h \<equiv> sys h = None"

lemma try_sys_ok [simp]: "sys_ok h \<Longrightarrow> try_sys h = (True, h)"
  by (simp add: try_sys_def)

lemma lookup_simps [simp]:
  "lookup p (set_file q i h) = (if p = q then Some i else lookup p h)"
  "lookup p (h\<lparr>fds := n\<rparr>) = lookup p h" "lookup p (h\<lparr>quota := m\<rparr>) = lookup p h"
  "set_file p i (set_file p j h) = set_file p i h"
  by (simp_all add: lookup_def set_file_def update_conv')

lemma set_file_fields [simp]:
  "nodes (set_file p i h) = nodes h" "brk (set_file p i h) = brk h" "avail (set_file p i h) = avail h"
  "quota (set_file p i h) = quota h" "sys (set_file p i h) = sys h" "fds (set_file p i h) = fds h"
  by (simp_all add: set_file_def)

lemma fs_more_eq:
  fixes h h' :: "'z fsheap_scheme"
  assumes "heap.more h' = heap.more h"
  shows "fds h' = fds h" "files h' = files h" "sys h' = sys h" "quota h' = quota h"
    "chunk_store h' = chunk_store h" "seen_chunks h' = seen_chunks h" "random_seed h' = random_seed h"
  using assms by (cases h; cases h'; simp)+

text \<open>A path at which a file can be written.\<close>

definition writable :: "path \<Rightarrow> 'z fsheap_scheme \<Rightarrow> bool" where
  "writable p h \<longleftrightarrow> lookup p h \<noteq> Some Directory \<and> (lookup p h \<noteq> None \<or> is_dir (dirname p) h)"

lemma sys_creat_ok:
  "sys_ok h \<Longrightarrow> writable p h \<Longrightarrow> sys_creat p h = (True, (set_file p (Regular []) h)
     \<lparr>fds := Suc (fds h), quota := map_option (\<lambda>q. q + stored_len p h) (quota h)\<rparr>)"
  by (simp add: sys_creat_def writable_def)

lemma scast_small:
  assumes "n < 2 ^ 31"
  shows "\<not> (of_nat n :: 32 word) <s 0" "(scast (of_nat n :: 32 word) :: u64) = of_nat n"
proof -
  have s: "sint (of_nat n :: 32 word) = int n"
    using assms by (simp add: signed_of_nat signed_take_bit_int_eq_self)
  show "\<not> (of_nat n :: 32 word) <s 0" by (simp add: word_sless_alt s)
  show "(scast (of_nat n :: 32 word) :: u64) = of_nat n"
    unfolding scast_eq s by simp
qed

text \<open>What \<open>write\<close> stores and returns when nothing but the disk can stop it.\<close>

definition room_for :: "path \<Rightarrow> 'z fsheap_scheme \<Rightarrow> nat \<Rightarrow> nat" where
  "room_for p h n = (case quota h of None \<Rightarrow> n | Some q \<Rightarrow> min n (q + stored_len p h))"

lemma write_file_ok:
  fixes h :: "'z fsheap_scheme"
  assumes "sys_ok h" and "writable p h" and "length bs \<le> write_max" and "bs \<noteq> []"
    and "mem_read m (unat len) = Some bs" and "unat len = length bs" and "0 < room_for p h (length bs)"
  shows "\<exists>h0 h1. sys_creat p h = (True, h0) \<and> write_buf p m len h0 = Some (of_nat (room_for p h (length bs)), h1)
    \<and> (\<forall>q. lookup q h1 = (if q = p then Some (Regular (take (room_for p h (length bs)) bs)) else lookup q h))
    \<and> nodes h1 = nodes h \<and> brk h1 = brk h \<and> avail h1 = avail h \<and> sys_ok h1 \<and> fds h1 = Suc (fds h)"
proof -
  define h0 where "h0 = (set_file p (Regular []) h)
     \<lparr>fds := Suc (fds h), quota := map_option (\<lambda>q. q + stored_len p h) (quota h)\<rparr>"
  have c: "sys_creat p h = (True, h0)" unfolding h0_def by (rule sys_creat_ok [OF assms(1,2)])
  have h0: "sys_ok h0" "quota h0 = map_option (\<lambda>q. q + stored_len p h) (quota h)"
    using assms(1) by (simp_all add: h0_def)
  let ?n = "room_for p h (length bs)"
  have n: "(case quota h0 of None \<Rightarrow> min (length bs) write_max | Some q \<Rightarrow> min (min (length bs) write_max) q) = ?n"
    using assms(3) h0(2) by (simp add: room_for_def split: option.splits)
  obtain m' where m: "m = Some m'" using assms(4-6) by (cases m) (auto simp: mem_read_def)
  define h1 where "h1 = (set_file p (Regular (take ?n bs)) h0)\<lparr>quota := map_option (\<lambda>q. q - ?n) (quota h0)\<rparr>"
  have "write_buf p m len h0 = Some (of_nat ?n, h1)"
    using assms(5,7) h0(1) unfolding m by (simp add: write_buf_def sys_write_def n h1_def Let_def)
  moreover have "\<forall>q. lookup q h1 = (if q = p then Some (Regular (take ?n bs)) else lookup q h)"
    by (simp add: h1_def h0_def)
  moreover have "nodes h1 = nodes h \<and> brk h1 = brk h \<and> avail h1 = avail h \<and> sys_ok h1 \<and> fds h1 = Suc (fds h)"
    using assms(1) by (simp add: h1_def h0_def)
  ultimately show ?thesis using c by blast
qed

lemma out_ser_read:
  "out_ser tree tree1 bs \<Longrightarrow> mem_read (fst (ser_buf tree1)) (unat (ser_len tree1)) = Some bs \<and> unat (ser_len tree1) = length bs"
  by (fastforce simp: out_ser_def holds_def mem_read_def mem_slice_def)

text \<open>
  The effect of \<open>write_tree_to_file\<close> in full: the serialised tree is stored as far as there is
  room, and the descriptor is closed only when all of it is.
\<close>

lemma write_tree_ok:
  fixes h :: "'z fsheap_scheme"
  assumes "view h t" and "heap_ok h" and "mem_ok h" and "height t < k" and "t \<noteq> Null"
    and "root tree = root_ptr t" and "buf_ok (ser_buf tree)" and "length (ser t) \<le> write_max"
    and "sys_ok h" and "writable p h" and "0 < room_for p h (length (ser t))"
  shows "\<exists>tree1 h1. write_tree_to_file k tree p h = Some (tree1, h1) \<and> out_ser tree tree1 (ser t)
    \<and> (\<forall>q. lookup q h1 = (if q = p then Some (Regular (take (room_for p h (length (ser t))) (ser t))) else lookup q h))
    \<and> nodes h1 = nodes h \<and> brk h1 = brk h \<and> avail h1 = avail h \<and> sys_ok h1
    \<and> fds h1 = (if room_for p h (length (ser t)) = length (ser t) then fds h else Suc (fds h))"
proof -
  have lim: "length (ser t) < 2 ^ 64" using assms(8) by (simp add: write_max_def)
  obtain tree1 where s: "tree_serialize k tree h = Some (tree1, h)" "out_ser tree tree1 (ser t)"
    using tree_serialize_view [OF assms(1,3,4,6,7) lim] by blast
  note r = out_ser_read [OF s(2)]
  have ne: "ser t \<noteq> []" using assms(5) by (cases t) (simp_all add: u32_bytes_def)
  let ?n = "room_for p h (length (ser t))"
  obtain h0 h1 where w: "sys_creat p h = (True, h0)" "write_buf p (fst (ser_buf tree1)) (ser_len tree1) h0 = Some (of_nat ?n, h1)"
    "\<forall>q. lookup q h1 = (if q = p then Some (Regular (take ?n (ser t))) else lookup q h)"
    "nodes h1 = nodes h" "brk h1 = brk h" "avail h1 = avail h" "sys_ok h1" "fds h1 = Suc (fds h)"
    using write_file_ok [OF assms(9,10,8) ne conjunct1 [OF r] conjunct2 [OF r] assms(11)] by blast
  have nl: "?n \<le> length (ser t)" by (simp add: room_for_def split: option.splits)
  then have n31: "?n < 2 ^ 31" using assms(8) by (simp add: write_max_def)
  have len: "ser_len tree1 = of_nat (length (ser t))" using r by (metis word_of_unat)
  have "(of_nat ?n :: u64) = of_nat (length (ser t)) \<longleftrightarrow> ?n = length (ser t)"
  proof -
    have "unat (of_nat ?n :: u64) = ?n" using n31 by (intro unat_of_nat_u64) simp
    moreover have "unat (of_nat (length (ser t)) :: u64) = length (ser t)" by (rule unat_of_nat_u64 [OF lim])
    ultimately show ?thesis by metis
  qed
  then have "write_tree_to_file k tree p h = Some (tree1, if ?n = length (ser t) then sys_close h1 else h1)"
    unfolding write_tree_to_file_def s(1) using w(1,2) scast_small [OF n31] len by simp
  then show ?thesis using s(2) w(3-8) by (auto simp: sys_close_def)
qed

section \<open>Tree files\<close>

text \<open>
  Tree files round trip: when the disk has room, \<open>write_tree_to_file\<close> stores exactly the
  serialised tree, changes no other file, and \<open>read_tree_from_file\<close> gives a tree back that
  \<open>tree_equal\<close> finds equal to the first.  Both close what they open.
\<close>

theorem tree_file_roundtrip:
  fixes h :: "'z fsheap_scheme"
  assumes "view h t" and "storable t" and "heap_ok h" and "mem_ok h" and "height t < k"
    and "root tree = root_ptr t" and "buf_ok (ser_buf tree)" and "length (ser t) \<le> write_max"
    and "sys_ok h" and "quota h = None" and "writable p h"
  shows "\<exists>tree1 h1 tree2 h2. write_tree_to_file k tree p h = Some (tree1, h1)
    \<and> (\<forall>q. lookup q h1 = (if q = p then Some (Regular (ser t)) else lookup q h)) \<and> nodes h1 = nodes h
    \<and> read_tree_from_file k p h1 = Some (Some tree2, h2) \<and> fds h2 = fds h
    \<and> tree_equal k (Some tree) (Some tree2) h2 = Some True"
proof -
  have ne: "t \<noteq> Null" using assms(2) by (cases t) auto
  have ln: "0 < length (ser t)" using ne by (cases t) (simp_all add: u32_bytes_def)
  have room: "room_for p h (length (ser t)) = length (ser t)" by (simp add: room_for_def assms(10))
  obtain tree1 h1 where w: "write_tree_to_file k tree p h = Some (tree1, h1)"
    "\<forall>q. lookup q h1 = (if q = p then Some (Regular (ser t)) else lookup q h)"
    "nodes h1 = nodes h" "brk h1 = brk h" "avail h1 = avail h" "sys_ok h1" "fds h1 = fds h"
    using write_tree_ok [OF assms(1,3,4,5) ne assms(6-9,11)] ln unfolding room by auto
  define h2 where "h2 = h1\<lparr>fds := fds h\<rparr>"
  have lu: "lookup p h1 = Some (Regular (ser t))" using w(2) by simp
  have len: "unat (of_nat (length (ser t)) :: u64) = length (ser t)"
    using assms(8) by (intro unat_of_nat_u64) (simp add: write_max_def)
  then have len0: "(of_nat (length (ser t)) :: u64) \<noteq> 0" using ln by (metis unat_0 less_irrefl)
  have rd: "read_tree_from_file k p h1 = tree_deserialize k (Some (pages (ser t))) (of_nat (length (ser t))) h2"
    using w(6,7) lu len0
    by (simp add: read_tree_from_file_def sys_open_def sys_fstat_def sys_mmap_def sys_close_def h2_def)
  have hk: "heap_ok h2" "mem_ok h2" using assms(3,4) w(3-5) by (simp_all add: heap_ok_def h2_def)
  have "drop 0 (pages (ser t)) = map Some (ser (erase t)) @ map Some (replicate ((PAGE - length (ser t) mod PAGE) mod PAGE) 0)"
    by (simp add: pages_def)
  then obtain tree2 h3 t2 where d: "tree_deserialize k (Some (pages (ser t))) (of_nat (length (ser t))) h2 = Some (Some tree2, h3)"
    "root tree2 = root_ptr t2" "read_tree h2 (erase t) h3 t2"
    using tree_deserialize_ser [of "erase t" h2 k] hk assms(2,5) len by (metis ser_map storable_map height_map)
  have v2: "view h2 t" using assms(1) by (rule view_cong) (simp add: h2_def w(3))
  then have "view h3 t" using view_grows [OF v2 hk(1)] d(3) by (simp add: read_tree_def)
  then have "node_equal k (root_ptr t) (root_ptr t2) h3 = Some True"
    using node_equal_view [of h3 t t2 k] d(3) assms(5) by (auto simp: read_tree_def rep_def)
  moreover have "fds h3 = fds h"
  proof -
    have "heap.more h3 = heap.more h2" using d(3) by (simp add: read_tree_def grows_def)
    then have "fds h3 = fds h2" by (rule fs_more_eq)
    then show ?thesis by (simp add: h2_def)
  qed
  ultimately show ?thesis using w(1-3) rd d(1,2) assms(6) by (auto simp: tree_equal_def)
qed

text \<open>
  A full disk: when only the first \<open>n\<close> bytes of the serialised tree fit,
  \<open>write_tree_to_file\<close> leaves a file with these bytes, tells its caller nothing, and does not
  close the descriptor.
\<close>

theorem short_write_keeps_descriptor:
  fixes h :: "'z fsheap_scheme"
  assumes "view h t" and "heap_ok h" and "mem_ok h" and "height t < k" and "t \<noteq> Null"
    and "root tree = root_ptr t" and "buf_ok (ser_buf tree)" and "length (ser t) \<le> write_max"
    and "sys_ok h" and "writable p h" and "quota h = Some n" and "lookup p h = None" and "0 < n" and "n < length (ser t)"
  shows "\<exists>tree1 h1. write_tree_to_file k tree p h = Some (tree1, h1)
    \<and> lookup p h1 = Some (Regular (take n (ser t))) \<and> fds h1 = Suc (fds h)"
proof -
  have "room_for p h (length (ser t)) = n"
    using assms(11,12,14) by (simp add: room_for_def stored_len_def)
  then show ?thesis using write_tree_ok [OF assms(1-10)] assms(13,14) by auto
qed

definition ex_fs :: fsheap where
  "ex_fs = \<lparr>avail = None, nodes = ex_nodes, brk = 3, random_seed = (5, 7, 11), max_tree_len = 1000,
     chunk_store = map_init, seen_chunks = map_init,
     files = [(''trees'', Directory), (''queue'', Directory), (''queue/id:1'', Regular [123])],
     quota = None, sys = None, fds = 0\<rparr>"

lemma ex_fs_facts [simp]:
  "view ex_fs ex_tree" "heap_ok ex_fs" "mem_ok ex_fs" "sys_ok ex_fs" "quota ex_fs = None" "fds ex_fs = 0"
  "writable ''trees/id:1'' ex_fs" "lookup ''trees/id:1'' ex_fs = None" "50 \<le> write_max"
proof -
  show "view ex_fs ex_tree" using ex_facts(1) by (rule view_cong) (simp add: ex_fs_def ex_heap_def)
  show "heap_ok ex_fs" using ex_facts(2) by (simp add: heap_ok_def ex_fs_def ex_heap_def)
qed (simp_all add: ex_fs_def writable_def lookup_def is_dir_def dirname_def write_max_def)

theorem tree_file_roundtrip_witness:
  "\<exists>tree1 h1 tree2 h2. write_tree_to_file 4 ex_obj ''trees/id:1'' ex_fs = Some (tree1, h1)
    \<and> lookup ''trees/id:1'' h1 = Some (Regular (ser ex_tree)) \<and> lookup ''queue/id:1'' h1 = Some (Regular [123])
    \<and> read_tree_from_file 4 ''trees/id:1'' h1 = Some (Some tree2, h2) \<and> fds h2 = 0
    \<and> tree_equal 4 (Some ex_obj) (Some tree2) h2 = Some True"
proof -
  have "\<exists>tree1 h1 tree2 h2. write_tree_to_file 4 ex_obj ''trees/id:1'' ex_fs = Some (tree1, h1)
    \<and> (\<forall>q. lookup q h1 = (if q = ''trees/id:1'' then Some (Regular (ser ex_tree)) else lookup q ex_fs))
    \<and> nodes h1 = nodes ex_fs \<and> read_tree_from_file 4 ''trees/id:1'' h1 = Some (Some tree2, h2) \<and> fds h2 = fds ex_fs
    \<and> tree_equal 4 (Some ex_obj) (Some tree2) h2 = Some True"
    by (rule tree_file_roundtrip [OF ex_fs_facts(1) ex_facts(6) ex_fs_facts(2,3)]) simp_all
  moreover have "lookup ''queue/id:1'' ex_fs = Some (Regular [123])" by (simp add: lookup_def ex_fs_def)
  ultimately show ?thesis by (elim exE conjE) (intro exI conjI, assumption, simp_all)
qed

theorem short_write_keeps_descriptor_witness:
  "\<exists>tree1 h1. write_tree_to_file 4 ex_obj ''trees/id:1'' (ex_fs\<lparr>quota := Some 20\<rparr>) = Some (tree1, h1)
    \<and> lookup ''trees/id:1'' h1 = Some (Regular (take 20 (ser ex_tree))) \<and> fds h1 = 1"
proof -
  let ?h = "ex_fs\<lparr>quota := Some 20\<rparr>"
  have "view ?h ex_tree" using ex_fs_facts(1) by (rule view_cong) simp
  moreover have "heap_ok ?h" using ex_fs_facts(2) by (simp add: heap_ok_def)
  moreover have "writable ''trees/id:1'' ?h" using ex_fs_facts(7) by (simp add: writable_def is_dir_def)
  ultimately show ?thesis
    using short_write_keeps_descriptor [of ?h ex_tree 4 ex_obj "''trees/id:1''" 20] by simp
qed

section \<open>Searching backwards\<close>

text \<open>The last position of a string in another one.\<close>

definition occurs_at :: "string \<Rightarrow> string \<Rightarrow> nat \<Rightarrow> bool" where
  "occurs_at haystack needle i \<longleftrightarrow> i + length needle \<le> length haystack \<and> take (length needle) (drop i haystack) = needle"

definition last_occurrence :: "string \<Rightarrow> string \<Rightarrow> nat option" where
  "last_occurrence haystack needle =
     (case filter (occurs_at haystack needle) (rev [0..<length haystack]) of [] \<Rightarrow> None | i # _ \<Rightarrow> Some i)"

lemma occurs_at_bound: "occurs_at haystack needle i \<Longrightarrow> i \<le> length haystack - length needle"
  unfolding occurs_at_def by linarith

lemma strrstr_loop_filter:
  assumes "n + length needle \<le> length haystack"
  shows "strrstr_loop haystack needle n =
     (case filter (\<lambda>i. 0 < i \<and> occurs_at haystack needle i) (rev [0..<Suc n]) of [] \<Rightarrow> None | i # _ \<Rightarrow> Some i)"
  using assms
proof (induction n)
  case (Suc n)
  have "[0..<Suc (Suc n)] = [0..<Suc n] @ [Suc n]" by simp
  then show ?case using Suc by (simp add: occurs_at_def)
qed simp

text \<open>
  \<open>strrstr\<close> against its contract, the last occurrence of the needle: they agree, for a
  needle that is not empty, except that an occurrence at the start of the haystack is missed,
  because the loop ends there.
\<close>

theorem strrstr_is_last_occurrence:
  assumes "needle \<noteq> []"
  shows "strrstr (Some haystack) (Some needle) =
    (case last_occurrence haystack needle of Some 0 \<Rightarrow> None | r \<Rightarrow> r)"
proof (cases "length needle \<le> length haystack")
  case False
  then have "filter (occurs_at haystack needle) (rev [0..<length haystack]) = []"
    by (auto simp: filter_empty_conv occurs_at_def)
  then show ?thesis using False by (simp add: strrstr_def last_occurrence_def)
next
  case True
  define d where "d = length haystack - length needle"
  have n: "length haystack = Suc d + (length needle - 1)" using True assms by (cases needle) (auto simp: d_def)
  have high: "filter P (rev [Suc d..<length haystack]) = []" if "\<And>i. P i \<Longrightarrow> i \<le> d" for P
    by (auto simp: filter_empty_conv dest!: that)
  have up: "[0..<length haystack] = 0 # [1..<Suc d] @ [Suc d..<length haystack]"
    using n by (metis le_add1 upt_add_eq_append upt_conv_Cons zero_less_Suc append_Cons le0 One_nat_def)
  let ?O = "occurs_at haystack needle"
  let ?fs = "filter ?O (rev [1..<Suc d])"
  have pos: "filter (\<lambda>i. 0 < i \<and> ?O i) (rev [0..<Suc d]) = ?fs"
  proof -
    have "[0..<Suc d] = 0 # [1..<Suc d]" by (simp add: upt_conv_Cons)
    moreover have "filter (\<lambda>i. 0 < i \<and> ?O i) (rev [1..<Suc d]) = ?fs" by (rule filter_cong) auto
    ultimately show ?thesis by simp
  qed
  have "filter ?O (rev [0..<length haystack]) = ?fs @ (if ?O 0 then [0] else [])"
    unfolding up using high [of ?O] occurs_at_bound [of haystack needle] by (simp add: d_def)
  then have lo: "last_occurrence haystack needle =
      (case ?fs of [] \<Rightarrow> (if ?O 0 then Some 0 else None) | i # _ \<Rightarrow> Some i)"
    by (simp add: last_occurrence_def split: list.splits)
  have "strrstr (Some haystack) (Some needle) = (case ?fs of [] \<Rightarrow> None | i # _ \<Rightarrow> Some i)"
    using True assms strrstr_loop_filter [of d needle haystack] pos
    by (simp add: strrstr_def d_def)
  moreover have "i > 0" if "?fs = i # is" for i "is"
  proof -
    have "i \<in> set ?fs" unfolding that by simp
    then show ?thesis by auto
  qed
  ultimately show ?thesis unfolding lo by (cases ?fs) (auto split: nat.splits)
qed

theorem strrstr_is_last_occurrence_witness:
  "strrstr (Some ''a/queue/b'') (Some ''/queue/'') = Some 1 \<and> strrstr (Some ''/queue/b'') (Some ''/queue/'') = None"
  using strrstr_is_last_occurrence [of "''/queue/''" "''a/queue/b''"] strrstr_is_last_occurrence [of "''/queue/''" "''/queue/b''"]
  by (simp add: last_occurrence_def occurs_at_def upt_rec)

end
