(* ===== verification/Mutator_Theorems.thy ===== *)
theory Mutator_Theorems
  imports Mutator_Calls Trim_Progress Chunk_Theorems File_Theorems
begin

text \<open>
  The theorems about the mutator as AFL++ drives it (Grammar-Mutator/src/grammar\_mutator.c).
  The witnesses run on the tree of Tree\_Theorems with an empty chunk store, two rules for the
  nonterminal and the generator that makes a single node.
\<close>

section \<open>A concrete mutator\<close>

definition ex_gm :: gmheap where
  "ex_gm = \<lparr>avail = None, nodes = nodes ex_mheap, brk = 3, random_seed = (5, 7, 11), max_tree_len = 1000,
     chunk_store = map_init, seen_chunks = map_init, files = [], quota = None, sys = None, fds = 0,
     default_random_mutation_steps = 10, default_random_recursive_mutation_steps = 20,
     default_splicing_mutation_steps = 30\<rparr>"

definition ex_params :: "gmheap params" where
  "ex_params = \<lparr>gen_funcs = ex_gen, gen_init = (\<lambda>n h. None), node_num_rules = (\<lambda>i. 3), node_type_str = ex_type_str,
     tree_from_buf = (\<lambda>m n h. None), xxh3 = ex_digest, xxh64 = id, json_parse = (\<lambda>bs. None), getenv = (\<lambda>s. None)\<rparr>"

definition ex_mutator :: my_mutator_t where
  "ex_mutator = zero_mutator\<lparr>tree_cur := Some ex_obj\<rparr>"

lemma ex_gm_facts [simp]:
  "rep ex_gm None ex_tree" "view ex_gm ex_tree" "sized ex_gm ex_tree" "heap_ok ex_gm" "mem_ok ex_gm"
  "rng_live (random_seed ex_gm)" "brk ex_gm = 3" "ruled (node_num_rules ex_params) ex_tree" "in_grammar I ex_tree \<longleftrightarrow> 1 \<in> I"
proof -
  have same: "nodes ex_gm = nodes ex_mheap" by (simp add: ex_gm_def)
  show "rep ex_gm None ex_tree" by (simp add: rep_def ex_defs ex_gm_def ex_mheap_def val_ok_def kids_ok_def)
  then show "view ex_gm ex_tree" by (simp add: rep_def)
  show "sized ex_gm ex_tree" by (simp add: ex_gm_def ex_mheap_def ex_defs rec_edge_def)
  show "heap_ok ex_gm" using ex_mfacts(3) same by (simp add: heap_ok_def ex_gm_def ex_mheap_def)
  show "rng_live (random_seed ex_gm)" by (rule rng_live_now) (simp add: ex_gm_def)
  show "ruled (node_num_rules ex_params) ex_tree" by (simp add: ex_tree_def ex_params_def)
  show "in_grammar I ex_tree \<longleftrightarrow> 1 \<in> I" by (auto simp: in_grammar_def ex_tree_def)
qed (simp_all add: ex_gm_def)

lemma ex_pairs: "rule_pairs (node_num_rules ex_params) ex_tree = [(Some 0, 1), (Some 0, 2), (Some 1, 0), (Some 1, 2)]"
proof -
  have "[0..<3] = [0, 1, 2 :: nat]" by (simp add: upt_rec)
  then show ?thesis by (simp add: ex_tree_def ex_params_def rules_from_def)
qed

section \<open>The rules stage\<close>

lemma nonterms_anns: "set (nonterms t) \<subseteq> set (anns t)"
  by (induction t) auto

text \<open>
  C16: The deterministic stage visits every pair of a nonterminal node and another rule of its
  type exactly once, in preorder: \<open>afl_custom_fuzz_count\<close> counts the pairs and selects the
  first, and from the \<open>j\<close>-th pair the update after a mutation selects the next one or, after
  the last, leaves the stage.  The search always ends and never runs out of nodes.
\<close>

theorem rules_stage_enumerates:
  fixes h :: "'z gmheap_scheme"
  assumes "view h t" and "heap_ok h" and "mem_ok h" and "height t < k" and "ruled (node_num_rules P) t"
    and "tree_cur d = Some tree" and "root tree = root_ptr t"
    and "length (rule_pairs (node_num_rules P) t) < 2 ^ 64" and "nt_size t + 1 < m"
  shows "(\<exists>c d0. afl_custom_fuzz_count P k m d h = Some (c, d0, h)
      \<and> total_rules_mutation_steps d0 = of_nat (length (rule_pairs (node_num_rules P) t))
      \<and> (rule_pairs (node_num_rules P) t \<noteq> [] \<longrightarrow> cur_fuzzing_stage d0 = 0 \<and> rules_at (node_num_rules P) h t d0 0))
    \<and> (\<forall>j d1 h1. rules_at (node_num_rules P) h t d1 j \<and> (\<forall>a<brk h. nodes h1 a = nodes h a)
        \<and> cur_fuzzing_stage d1 = 0 \<and> cur_fuzzing_step d1 = of_nat (Suc j)
        \<and> total_rules_mutation_steps d1 = of_nat (length (rule_pairs (node_num_rules P) t)) \<longrightarrow>
        (\<exists>d2. update_rules_stage P m d1 h1 = Some d2 \<and>
          (if Suc j < length (rule_pairs (node_num_rules P) t)
           then cur_fuzzing_stage d2 = 0 \<and> rules_at (node_num_rules P) h t d2 (Suc j)
           else cur_fuzzing_stage d2 = 1)))"
proof (intro conjI allI impI)
  let ?num = "node_num_rules P"
  from fuzz_count_ok [OF assms(1,3-9)]
  show "\<exists>c d0. afl_custom_fuzz_count P k m d h = Some (c, d0, h)
      \<and> total_rules_mutation_steps d0 = of_nat (length (rule_pairs ?num t))
      \<and> (rule_pairs ?num t \<noteq> [] \<longrightarrow> cur_fuzzing_stage d0 = 0 \<and> rules_at ?num h t d0 0)"
    by (elim exE conjE) (intro exI conjI, assumption, assumption, simp)
  fix j d1 and h1 :: "'z gmheap_scheme"
  assume a: "rules_at ?num h t d1 j \<and> (\<forall>a<brk h. nodes h1 a = nodes h a) \<and> cur_fuzzing_stage d1 = 0
    \<and> cur_fuzzing_step d1 = of_nat (Suc j) \<and> total_rules_mutation_steps d1 = of_nat (length (rule_pairs ?num t))"
  have lt: "x < brk h" if "x \<in> set (nonterms t)" for x
    by (rule view_brk [OF assms(1,2) subsetD [OF nonterms_anns that]])
  have same: "rd h1 p = rd h p" if "p \<in> Some ` set (nonterms t)" for p
    using that a lt by (auto simp: rd_def)
  have cur: "cur_rules_mutation_node d1 \<in> Some ` set (nonterms t)"
  proof -
    have "(cur_rules_mutation_node d1, cur_rules_mutation_rule_id d1) \<in> set (rule_pairs ?num t)"
      using a unfolding rules_at_def by (metis nth_mem)
    then show ?thesis by (rule rule_pairs_nonterm)
  qed
  have good: "\<forall>p\<in>Some ` set (nonterms t). good_node ?num h p"
    using good_nonterms [OF assms(1,5)] by simp
  obtain d2 where d2: "update_rules_stage P m d1 h1 = Some d2"
    "if Suc j < length (rule_pairs ?num t)
     then \<exists>node rule tree. d2 = d1\<lparr>cur_rules_mutation_node := node, cur_rules_mutation_rule_id := rule, tree_cur := Some tree\<rparr>
        \<and> rules_at ?num h t d2 (Suc j)
     else d2 = d1\<lparr>cur_fuzzing_stage := 1, cur_fuzzing_step := 0\<rparr>"
    using update_rules_stage_ok [OF conjunct1 [OF a] good same same [OF cur], of m] a assms(8,9) by blast
  then show "\<exists>d2. update_rules_stage P m d1 h1 = Some d2 \<and>
      (if Suc j < length (rule_pairs ?num t) then cur_fuzzing_stage d2 = 0 \<and> rules_at ?num h t d2 (Suc j)
       else cur_fuzzing_stage d2 = 1)"
    using a by (intro exI [of _ d2]) (auto split: if_splits)
qed

theorem rules_stage_enumerates_witness:
  "\<exists>c d0 d1. afl_custom_fuzz_count ex_params 4 4 ex_mutator ex_gm = Some (c, d0, ex_gm)
    \<and> total_rules_mutation_steps d0 = 4 \<and> (cur_rules_mutation_node d0, cur_rules_mutation_rule_id d0) = (Some 0, 1)
    \<and> update_rules_stage ex_params 4 (d0\<lparr>cur_fuzzing_step := 1\<rparr>) ex_gm = Some d1
    \<and> (cur_rules_mutation_node d1, cur_rules_mutation_rule_id d1) = (Some 0, 2)"
proof -
  have "tree_cur ex_mutator = Some ex_obj" by (simp add: ex_mutator_def)
  note r = rules_stage_enumerates [of ex_gm ex_tree 4 ex_params, OF ex_gm_facts(2,4,5) _ ex_gm_facts(8) this, of 4,
      unfolded ex_pairs, simplified]
  obtain c d0 where 0: "afl_custom_fuzz_count ex_params 4 4 ex_mutator ex_gm = Some (c, d0, ex_gm)"
    "total_rules_mutation_steps d0 = 4" "cur_fuzzing_stage d0 = 0" "rules_at (node_num_rules ex_params) ex_gm ex_tree d0 0"
    using r by auto
  have "rules_at (node_num_rules ex_params) ex_gm ex_tree (d0\<lparr>cur_fuzzing_step := 1\<rparr>) 0"
    using 0(4) by (simp add: rules_at_def)
  then obtain d1 where 1: "update_rules_stage ex_params 4 (d0\<lparr>cur_fuzzing_step := 1\<rparr>) ex_gm = Some d1"
    "rules_at (node_num_rules ex_params) ex_gm ex_tree d1 (Suc 0)"
    using conjunct2 [OF r, rule_format, of "d0\<lparr>cur_fuzzing_step := 1\<rparr>" 0 ex_gm] 0(2,3) by auto
  show ?thesis using 0(1,2,4) 1 by (auto simp: rules_at_def ex_pairs)
qed

section \<open>The schedule of the stages\<close>

text \<open>
  C17: The stages refine a schedule: in every run of the fuzzer, with new entries handed back
  at any time, the stage and step of the mutator after \<open>i\<close> test cases are those of the
  schedule that spends the four totals one after the other, no total is overrun and stages with
  no steps are skipped; after the last test case the mutator is in stage 4.  (The first stage
  with steps must be one of the first two: \<open>afl_custom_fuzz_count\<close> never skips the random
  mutation.)
\<close>

theorem stages_follow_schedule:
  assumes "fuzz_run P k m s i s'" and "counters (fst s) = schedule A B C D i0" and "i0 \<le> A + B + C + D"
    and "totals (fst s) = (A, B, C, D)" and "0 < A \<or> 0 < B"
  shows "counters (fst s') = schedule A B C D (i0 + i) \<and> totals (fst s') = (A, B, C, D) \<and> i0 + i \<le> A + B + C + D"
  by (rule fuzz_run_schedule [OF assms])

definition ex_last :: my_mutator_t where
  "ex_last = ex_mutator\<lparr>cur_fuzzing_stage := 3, total_rules_mutation_steps := 1, total_splicing_mutation_steps := 1\<rparr>"

lemma ex_gm_store: "store_inv digest ty U ex_gm Map.empty {}"
  using ex_gm_facts(4,5) by (simp add: store_inv_def maps_ok_def chunks_of_def) (simp add: ex_gm_def)

text \<open>With an empty store the splicing stage returns a copy of the tree.\<close>

lemma ex_call:
  "\<exists>n out d' h'. afl_custom_fuzz ex_params 4 4 ex_last None 1 ex_gm = Some (Ret (n, Some out, d', h')) \<and> mutated_tree d' \<noteq> None"
proof -
  have ty: "inj (node_type_str ex_params)" using ex_type_inj by (simp add: ex_params_def)
  have "\<exists>tree' h1 t'. splicing_mutation (node_type_str ex_params) 4 (Some ex_obj) ex_gm = Some (Ret (Some tree', h1))
      \<and> root tree' = root_ptr t' \<and> new_beside ex_gm h1 t' \<and> erase t' = erase ex_tree"
    using splicing_view [OF ex_gm_facts(2,3) ex_gm_store [of ex_digest _ "{}"] ex_gm_facts(6) _ _ _ _ _ _ _ ty, of 4 ex_obj]
    by (simp add: spliced_def picked_in_copy_def) blast
  then obtain tree' h1 t' where r: "splicing_mutation (node_type_str ex_params) 4 (Some ex_obj) ex_gm = Some (Ret (Some tree', h1))"
    "root tree' = root_ptr t'" "new_beside ex_gm h1 t'" "erase t' = erase ex_tree"
    by (elim exE conjE) (rule that; assumption)
  have t': "rep h1 None t'" "mem_ok h1" using r(3) by (simp_all add: new_beside_def)
  have "flatten t' = [97, 98]"
    using arg_cong [OF r(4), of flatten] flatten_map [of "\<lambda>_. ()" t'] flatten_map [of "\<lambda>_. ()" ex_tree] by simp
  then have fl: "height t' < 4" "t' \<noteq> Null" "length (flatten t') < 2 ^ 64"
    using erase_height [OF r(4)] r(4) by auto
  let ?e = "update_other_stages (ex_last\<lparr>mutated_tree := None, tree_cur := Some ex_obj, cur_fuzzing_step := 1\<rparr>)"
  have f: "fuzz ?e = (None, 0)"
    by (simp add: update_other_stages_def leave_stage_def ex_last_def ex_mutator_def zero_mutator_def)
  obtain out s tree2 h2 where o: "fuzz_output 4 ?e tree' 1 h1 = Some (of_nat (min (length (flatten t')) (unat (1 :: u64))), Some out,
      ?e\<lparr>mutated_tree := Some tree2, fuzz := (Some out, s)\<rparr>, h2)"
    using fuzz_output_ok [OF t'(1) fl(2,1) r(2) t'(2) _ _ fl(3), of ?e 1] splicing_mutation_data [OF r(1)] f by auto
  have "afl_custom_fuzz ex_params 4 4 ex_last None 1 ex_gm =
      Some (Ret (of_nat (min (length (flatten t')) (unat (1 :: u64))), Some out, ?e\<lparr>mutated_tree := Some tree2, fuzz := (Some out, s)\<rparr>, h2))"
    using r(1) o
    by (simp add: afl_custom_fuzz_def fuzz_tree_def mutate_def update_rules_stage_def ex_last_def ex_mutator_def
        zero_mutator_def tree_free_def)
  then show ?thesis by (intro exI conjI, assumption) simp
qed

theorem stages_follow_schedule_witness:
  "\<exists>s'. fuzz_run ex_params 4 4 (ex_last, ex_gm) 1 s' \<and> counters (fst s') = (4, 0)"
proof -
  obtain n out d' h' where c: "afl_custom_fuzz ex_params 4 4 ex_last None 1 ex_gm = Some (Ret (n, Some out, d', h'))"
    "mutated_tree d' \<noteq> None" using ex_call by blast
  have run: "fuzz_run ex_params 4 4 (ex_last, ex_gm) (Suc 0) (d', h')"
    by (rule fuzz_run.call [OF fuzz_run.start c])
  have "counters (fst (ex_last, ex_gm)) = schedule 1 0 0 1 1" "totals (fst (ex_last, ex_gm)) = (1, 0, 0, 1)"
    by (simp_all add: counters_def totals_def schedule_def ex_last_def ex_mutator_def zero_mutator_def)
  from stages_follow_schedule [OF run this(1) _ this(2)] run show ?thesis
    by (intro exI [of _ "(d', h')"]) (simp add: schedule_def)
qed

section \<open>The mutations\<close>



text \<open>
  The test case that the mutator hands out is the test case of the mutated tree, cut to the
  size the fuzzer allows; the reused buffer is large enough for it and keeps its recorded size.
\<close>

theorem fuzz_output_cut:
  fixes h :: "'z gmheap_scheme"
  assumes "rep h None t" and "t \<noteq> Null" and "height t < k" and "root tree = root_ptr t" and "mem_ok h"
    and "buf_ok (data tree)" and "buf_ok (fuzz d)" and "length (flatten t) < 2 ^ 64"
  shows "\<exists>n out d' h'. fuzz_output k d tree max_size h = Some (n, Some out, d', h')
    \<and> unat n = min (length (flatten t)) (unat max_size)
    \<and> take (unat n) out = map Some (take (unat max_size) (flatten t)) \<and> unat n \<le> length out
    \<and> fst (fuzz d') = Some out \<and> buf_ok (fuzz d')"
proof -
  let ?n = "min (length (flatten t)) (unat max_size)"
  have u: "unat (of_nat ?n :: u64) = ?n" using assms(8) by (intro unat_of_nat_u64) simp
  obtain out s tree' h' where o: "fuzz_output k d tree max_size h = Some (of_nat ?n, Some out,
        d\<lparr>mutated_tree := Some tree', fuzz := (Some out, s)\<rparr>, h')"
    "take ?n out = map Some (take (unat max_size) (flatten t))" "buf_ok (Some out, s)"
    using fuzz_output_ok [OF assms, of max_size] by blast
  have "?n \<le> length out" using arg_cong [OF o(2), of length] by simp
  then show ?thesis using o u by (intro exI [of _ "of_nat ?n"] exI [of _ out]) auto
qed

theorem fuzz_output_cut_witness:
  "\<exists>n out d' h'. fuzz_output 4 ex_mutator ex_obj 1 ex_gm = Some (n, Some out, d', h') \<and> unat n = 1
    \<and> take (unat n) out = [Some 97] \<and> unat n \<le> length out \<and> fst (fuzz d') = Some out \<and> buf_ok (fuzz d')"
proof -
  have "buf_ok (fuzz ex_mutator)" by (simp add: ex_mutator_def zero_mutator_def)
  from fuzz_output_cut [OF ex_gm_facts(1) _ _ ex_facts(5) ex_gm_facts(5) ex_facts(10) this, of 4 1]
  show ?thesis by simp
qed

section \<open>Trimming\<close>

text \<open>
  C19: After a successful trim of the \<open>f\<close>-th nonterminal the mutator works on the trimmed tree.
  The nonterminals of the replacement \<open>s\<close> stand at the positions from \<open>f\<close> to \<open>f + nt_size s\<close> of
  its list, but the mutator resumes behind position \<open>f + nt_size s\<close>: it passes over the
  replacement and over the nonterminal after it, which it never tried.
\<close>

theorem successful_trim_skips:
  fixes h :: "'z gmheap_scheme"
  assumes "tree_free k (tree_cur d) h = Some h1" and "trimmed_tree d = Some tree" and "root tree = root_ptr t"
    and "view h1 t" and "sized h1 t" and "mem_ok h1" and "height t < k" and "nt_size t < 2 ^ 32"
    and "unat (finished_subtree_trimming_nodes d) = f" and "f < nt_size t"
    and "unat (finished_recursive_trimming_edges d) < 2 ^ 32"
  shows "\<exists>s d' tree'. s \<in> set (subtrees t) \<and> ann s = nonterms t ! f \<and> tid s \<noteq> 0
    \<and> take (nt_size s) (drop f (nonterms t)) = nonterms s
    \<and> trim_success k d h = Some (d', h1) \<and> tree_cur d' = Some tree' \<and> root tree' = root_ptr t
    \<and> non_terminal_node_list tree' = Some (map Some (drop (f + nt_size s + 1) (nonterms t)))
    \<and> unat (finished_subtree_trimming_nodes d') = (f + nt_size s + 1) mod 2 ^ 64"
proof -
  obtain s d' tree' where r: "s \<in> set (subtrees t)" "ann s = nonterms t ! f" "tid s \<noteq> 0"
    "take (nt_size s) (drop f (nonterms t)) = nonterms s" "trim_success k d h = Some (d', h1)" "tree_cur d' = Some tree'"
    "root tree' = root_ptr t" "non_terminal_node_list tree' = Some (map Some (drop (f + 1 + nt_size s) (nonterms t)))"
    "finished_subtree_trimming_nodes d' = of_nat (f + 1 + nt_size s)"
    using trim_success_view [OF assms] by (elim exE conjE) (rule that; assumption)
  have e: "f + 1 + nt_size s = f + nt_size s + 1" by simp
  have "unat (finished_subtree_trimming_nodes d') = (f + nt_size s + 1) mod 2 ^ 64"
    unfolding r(9) e by (simp only: unat_of_nat) simp
  then show ?thesis using r(1-7) r(8)[unfolded e]
    by (intro exI [of _ s] exI [of _ d'] exI [of _ tree'] conjI)
qed

text \<open>A root with two nonterminal children: the trim of the first child skips the second.\<close>

definition ex_kid :: node_t where
  "ex_kid = \<lparr>node_id = 1, rule_id = 0, val_buf = None, val_size = 0, val_len = 0, parent = Some 0,
     subnodes = None, subnode_count = 0, recursion_edge_size = 0, non_term_size = 1\<rparr>"

definition ex_wide :: gmheap where
  "ex_wide = ex_gm\<lparr>nodes := [0 \<mapsto> ex_root\<lparr>subnodes := Some [Some (Some 1), Some (Some 2)], subnode_count := 2,
      recursion_edge_size := 2, non_term_size := 3\<rparr>, 1 \<mapsto> ex_kid, 2 \<mapsto> ex_kid]\<rparr>"

definition ex_wide_tree :: "nat tree" where
  "ex_wide_tree = Node 0 1 0 [] [Node 1 1 0 [] [], Node 2 1 0 [] []]"

theorem successful_trim_skips_witness:
  "\<exists>s d' tree'. s \<in> set (subtrees ex_wide_tree) \<and> ann s = 1
    \<and> trim_success 4 (ex_mutator\<lparr>tree_cur := None, trimmed_tree := Some ex_obj, finished_subtree_trimming_nodes := 1\<rparr>) ex_wide
        = Some (d', ex_wide)
    \<and> tree_cur d' = Some tree' \<and> 2 \<in> set (nonterms ex_wide_tree) \<and> non_terminal_node_list tree' = Some []"
proof -
  let ?d = "ex_mutator\<lparr>tree_cur := None, trimmed_tree := Some ex_obj, finished_subtree_trimming_nodes := 1\<rparr>"
  have v: "view ex_wide ex_wide_tree" "sized ex_wide ex_wide_tree"
    by (simp_all add: ex_wide_def ex_wide_tree_def ex_kid_def ex_root_def val_ok_def kids_ok_def rec_edge_def)
  have f: "tree_free 4 (tree_cur ?d) ex_wide = Some ex_wide" "trimmed_tree ?d = Some ex_obj" "mem_ok ex_wide"
    "root ex_obj = root_ptr ex_wide_tree" "height ex_wide_tree < 4" "nt_size ex_wide_tree < 2 ^ 32"
    "unat (finished_subtree_trimming_nodes ?d) = 1" "1 < nt_size ex_wide_tree"
    "unat (finished_recursive_trimming_edges ?d) < 2 ^ 32"
    by (simp_all add: tree_free_def ex_wide_def ex_wide_tree_def ex_mutator_def zero_mutator_def)
  obtain s d' tree' where r: "s \<in> set (subtrees ex_wide_tree)" "ann s = nonterms ex_wide_tree ! 1"
    "trim_success 4 ?d ex_wide = Some (d', ex_wide)" "tree_cur d' = Some tree'" "tid s \<noteq> 0"
    "non_terminal_node_list tree' = Some (map Some (drop (1 + nt_size s + 1) (nonterms ex_wide_tree)))"
    using successful_trim_skips [OF f(1,2,4) v f(3,5,6,7,8,9)] by (elim exE conjE) (rule that; assumption)
  have "s = Node 1 1 0 [] []" using r(1,2) by (auto simp: ex_wide_tree_def)
  then show ?thesis using r by (intro exI [of _ s] exI [of _ d'] exI [of _ tree']) (simp add: ex_wide_tree_def)
qed

end
