(* ===== verification/Leak.thy ===== *)
theory Leak
  imports Decode_Inputs "HOL-Library.FuncSet"
begin

text \<open>
  The common part of the benchmarks in leakage\_test: memory.c and memory.h, which fill
  fresh heap blocks and the unused stack with a pattern drawn from the secret, the step of the
  fuzz harnesses that turns the secret input into the seed of that pattern, and the interface
  of a function that copies a record to its caller while some bytes of the record were never
  written.  Memory that was never written holds whatever was there: where the models of the
  benchmarks need such bytes, they take them as an argument.
\<close>

section \<open>Integers in memory\<close>

definition le :: "nat \<Rightarrow> 'a::len word \<Rightarrow> u8 list" where
  "le n w = map (\<lambda>i. ucast (drop_bit (8 * i) w)) [0..<n]"

primrec of_le :: "u8 list \<Rightarrow> 'a::len word" where
  "of_le [] = 0"
| "of_le (b # bs) = ucast b OR push_bit 8 (of_le bs)"

lemma length_le [simp]: "length (le n w) = n"
  by (simp add: le_def)

lemma nth_le [simp]: "i < n \<Longrightarrow> le n w ! i = ucast (drop_bit (8 * i) w)"
  by (simp add: le_def)

lemma bit_of_le:
  fixes w :: "'a::len word"
  shows "bit (of_le bs :: 'a word) k \<longleftrightarrow> k < LENGTH('a) \<and> k div 8 < length bs \<and> bit (bs ! (k div 8)) (k mod 8)"
proof (induction bs arbitrary: k)
  case (Cons b bs)
  show ?case
  proof (cases "k < 8")
    case True
    then show ?thesis by (auto simp: bit_simps)
  next
    case False
    then have "k div 8 = Suc ((k - 8) div 8)" "k mod 8 = (k - 8) mod 8"
      by (simp_all add: le_div_geq le_mod_geq)
    moreover have "\<not> bit b k" using False bit_imp_le_length [of b k] by auto
    ultimately show ?thesis using False Cons.IH [of "k - 8"] by (auto simp: bit_simps not_less)
  qed
qed simp

lemma of_le_le: "LENGTH('a::len) \<le> 8 * n \<Longrightarrow> of_le (le n w) = (w :: 'a word)"
proof (rule bit_word_eqI)
  fix k assume n: "LENGTH('a) \<le> 8 * n" and k: "k < LENGTH('a)"
  then have "k div 8 < n" by (simp add: div_less_iff_less_mult mult.commute)
  moreover have "k mod 8 < Suc (Suc (Suc (Suc (Suc (Suc (Suc (Suc 0)))))))"
    using mod_less_divisor [of 8 k] by linarith
  ultimately show "bit (of_le (le n w) :: 'a word) k = bit w k"
    using k bit_of_le [of "le n w" k, where 'a='a] by (simp add: bit_simps add.commute)
qed

lemma le_inj: "LENGTH('a::len) \<le> 8 * n \<Longrightarrow> le n v = le n w \<longleftrightarrow> v = (w :: 'a word)"
  using of_le_le by metis

lemma le_4_u32_bytes: "le 4 w = u32_bytes w"
  by (simp add: le_def u32_bytes_def upt_rec)

text \<open>Writing bytes over a piece of memory that is known to be long enough.\<close>

definition poke :: "nat \<Rightarrow> u8 list \<Rightarrow> u8 list \<Rightarrow> u8 list" where
  "poke off bs m = take off m @ bs @ drop (off + length bs) m"

lemma length_poke [simp]: "off + length bs \<le> length m \<Longrightarrow> length (poke off bs m) = length m"
  by (simp add: poke_def)

lemma nth_poke: "off + length bs \<le> length m \<Longrightarrow> i < length m \<Longrightarrow>
    poke off bs m ! i = (if off \<le> i \<and> i < off + length bs then bs ! (i - off) else m ! i)"
  by (auto simp: poke_def nth_append not_less not_le min_def)

section \<open>The memory pattern\<close>

text \<open>
  The state of memory.c.  \<open>rand\<close> is a parameter: the \<open>n\<close>-th value after \<open>srand(seed)\<close>; the
  state holds the seed and the number of values drawn so far.
\<close>

record memstate = alloc +
  repeatedVal :: u64
  rand_state :: "u32 \<times> nat"

type_synonym rand = "u32 \<Rightarrow> nat \<Rightarrow> u32"

definition draw_pattern :: "rand \<Rightarrow> 'z memstate_scheme \<Rightarrow> u64 \<times> 'z memstate_scheme" where
  "draw_pattern rand s = (case rand_state s of (seed, n) \<Rightarrow>
     (push_bit 48 (ucast (rand seed n)) OR push_bit 32 (ucast (rand seed (n + 1)))
        OR push_bit 16 (ucast (rand seed (n + 2))) OR ucast (rand seed (n + 3)),
      s\<lparr>rand_state := (seed, n + 4)\<rparr>))"

definition initRepeatedVal :: "rand \<Rightarrow> 'z memstate_scheme \<Rightarrow> 'z memstate_scheme" where
  "initRepeatedVal rand s = (case draw_pattern rand s of (v, s) \<Rightarrow> s\<lparr>repeatedVal := v\<rparr>)"

definition SEED_MEMORY :: "rand \<Rightarrow> u32 \<Rightarrow> 'z memstate_scheme \<Rightarrow> 'z memstate_scheme" where
  "SEED_MEMORY rand seed s = initRepeatedVal rand (s\<lparr>rand_state := (seed, 0)\<rparr>)"

text \<open>
  \<open>__wrap_malloc\<close> replaces \<open>malloc\<close>: the block is eight bytes longer, and every byte is
  written.  The size may wrap around; a NULL block is written to, unless it is empty.
\<close>

definition wrap_malloc :: "rand \<Rightarrow> u64 \<Rightarrow> 'z memstate_scheme \<Rightarrow> (mem option \<times> 'z memstate_scheme) option" where
  "wrap_malloc rand bytes s = (let paddedBytes = bytes + 8 in
     case try_alloc s of (ok, s) \<Rightarrow>
     let s = (if repeatedVal s = 0 then initRepeatedVal rand s else s);
         v = repeatedVal s; reps = unat (paddedBytes div 8) in
     if \<not> ok then (if paddedBytes = 0 then Some (None, s) else None)
     else do {
       raw \<leftarrow> foldM (\<lambda>i m. memcpy_at m (8 * i) (map Some (le 8 v))) [0..<reps] (replicate (unat paddedBytes) None);
       raw \<leftarrow> foldM (\<lambda>i m. memcpy_at m (8 * reps + i) [Some (ucast (drop_bit (8 * i) v AND 0xFF))])
           [0..<unat (paddedBytes mod 8)] raw;
       Some (Some raw, s)
     })"

text \<open>
  The stack is a map from addresses to bytes.  \<open>FILL_STACK\<close> and \<open>fill_stack\<close> write the pattern
  from the frame of the harness downwards, as long as the address is above the bottom of the
  mapping.
\<close>

function fill_down :: "nat \<Rightarrow> nat \<Rightarrow> u64 \<Rightarrow> (nat \<Rightarrow> u8) \<Rightarrow> (nat \<Rightarrow> u8)" where
  "fill_down stack_bottom stack_loc v stack =
    (if stack_bottom < stack_loc
     then fill_down stack_bottom (stack_loc - 8) v
       (\<lambda>a. if stack_loc \<le> a \<and> a < stack_loc + 8 then le 8 v ! (a - stack_loc) else stack a)
     else stack)"
  by pat_completeness auto
termination by (relation "measure (\<lambda>(_, loc, _). loc)") auto

declare fill_down.simps [simp del]

definition FILL_STACK :: "rand \<Rightarrow> nat \<Rightarrow> nat \<Rightarrow> 'z memstate_scheme \<Rightarrow> (nat \<Rightarrow> u8) \<Rightarrow> (nat \<Rightarrow> u8) \<times> 'z memstate_scheme" where
  "FILL_STACK rand stack_bottom stack_loc s stack = (case draw_pattern rand s of (v, s) \<Rightarrow>
     (fill_down stack_bottom stack_loc v stack, s))"

definition fill_stack :: "rand \<Rightarrow> nat \<Rightarrow> nat \<Rightarrow> 'z memstate_scheme \<Rightarrow> (nat \<Rightarrow> u8) \<Rightarrow> (nat \<Rightarrow> u8) \<times> 'z memstate_scheme" where
  "fill_stack rand stack_bottom stack_loc s stack =
    (let s = (if repeatedVal s = 0 then initRepeatedVal rand s else s)
     in (fill_down stack_bottom stack_loc (repeatedVal s) stack, s))"

text \<open>A local variable of \<open>n\<close> bytes at address \<open>a\<close> starts with what the stack holds there.\<close>

definition local_at :: "(nat \<Rightarrow> u8) \<Rightarrow> nat \<Rightarrow> nat \<Rightarrow> u8 list" where
  "local_at stack a n = map stack [a..<a + n]"

text \<open>
  The seed that the harnesses take from the secret: the loop over at most four bytes.  The
  shift of a byte above 127 into the sign bit is taken as the machine does it.
\<close>

definition secret_seed :: "u8 list \<Rightarrow> u32" where
  "secret_seed secret_in = foldl (OR) 0 (map (\<lambda>i. push_bit (8 * i) (ucast (secret_in ! i))) [0..<min 4 (length secret_in)])"

lemma length_local_at [simp]: "length (local_at stack a n) = n"
  by (simp add: local_at_def)

section \<open>What the pattern covers\<close>

lemma put_bytes:
  assumes "length raw = n" and "off + m \<le> n" and "\<And>i. i < m \<Longrightarrow> f i = Some (b i)"
    and "\<forall>i<off. raw ! i = Some (b' i)"
  shows "\<exists>raw'. foldM (\<lambda>i r. memcpy_at r (off + i) [f i]) [0..<m] raw = Some raw' \<and> length raw' = n
    \<and> (\<forall>i<off + m. raw' ! i = Some (if i < off then b' i else b (i - off)))"
  using assms(2,3)
proof (induction m)
  case (Suc m)
  then obtain r where r: "foldM (\<lambda>i r. memcpy_at r (off + i) [f i]) [0..<m] raw = Some r" "length r = n"
    "\<forall>i<off + m. r ! i = Some (if i < off then b' i else b (i - off))"
    by auto
  have "memcpy_at r (off + m) [f m] = Some (take (off + m) r @ [f m] @ drop (off + m + 1) r)"
    using Suc.prems(1) r(2) by (simp add: memcpy_at_def)
  then show ?case using r Suc.prems by (auto simp: foldM_append nth_append less_Suc_eq min_def)
qed (use assms(1,4) in auto)

lemma put_words:
  assumes "8 * m \<le> n"
  shows "\<exists>raw'. foldM (\<lambda>i r. memcpy_at r (8 * i) (map Some (le 8 v))) [0..<m] (replicate n None) = Some raw'
    \<and> length raw' = n \<and> (\<forall>i<8 * m. raw' ! i = Some (le 8 v ! (i mod 8)))"
  using assms
proof (induction m)
  case (Suc m)
  then obtain r where r: "foldM (\<lambda>i r. memcpy_at r (8 * i) (map Some (le 8 v))) [0..<m] (replicate n None) = Some r"
    "length r = n" "\<forall>i<8 * m. r ! i = Some (le 8 v ! (i mod 8))"
    by auto
  let ?r = "take (8 * m) r @ map Some (le 8 v) @ drop (8 * m + 8) r"
  have "memcpy_at r (8 * m) (map Some (le 8 v)) = Some ?r"
    using Suc.prems r(2) by (simp add: memcpy_at_def)
  moreover have "?r ! i = Some (le 8 v ! (i mod 8))" if i: "i < 8 * Suc m" for i
  proof (cases "i < 8 * m")
    case True
    then show ?thesis using r(2,3) Suc.prems by (simp add: nth_append min_def)
  next
    case False
    then obtain j where j: "i = 8 * m + j" "j < 8" using i by (metis le_Suc_ex not_less mult_Suc_right add.commute nat_add_left_cancel_less)
    then have "?r ! i = Some (le 8 v ! j)" using r(2) Suc.prems by (simp add: nth_append min_def)
    then show ?thesis using j by simp
  qed
  ultimately show ?case using r(1,2) Suc.prems by (auto simp: foldM_append)
qed simp

text \<open>Every byte of a block from \<open>malloc\<close> is written, and follows from the pattern.\<close>

lemma wrap_malloc_ok:
  fixes s :: "'z memstate_scheme"
  assumes "mem_ok s" and "unat bytes + 8 < 2 ^ 64"
  shows "\<exists>raw s'. wrap_malloc rand bytes s = Some (Some raw, s')
    \<and> s' = (if repeatedVal s = 0 then initRepeatedVal rand s else s)
    \<and> raw = map (\<lambda>i. Some (le 8 (repeatedVal s') ! (i mod 8))) [0..<unat bytes + 8]"
proof -
  define s' where "s' = (if repeatedVal s = 0 then initRepeatedVal rand s else s)"
  define v where "v = repeatedVal s'"
  define n where "n = unat bytes + 8"
  have p: "unat (bytes + 8) = n" using assms(2) unat_add_lem [of bytes 8] by (simp add: n_def)
  have reps: "unat ((bytes + 8) div 8) = n div 8" "unat ((bytes + 8) mod 8) = n mod 8"
    by (simp_all add: unat_div unat_mod p)
  obtain r where r: "foldM (\<lambda>i m. memcpy_at m (8 * i) (map Some (le 8 v))) [0..<n div 8] (replicate n None) = Some r"
    "length r = n" "\<forall>i<8 * (n div 8). r ! i = Some (le 8 v ! (i mod 8))"
    using put_words [of "n div 8" n v] by auto
  have "8 * (n div 8) + n mod 8 \<le> n" by simp
  from put_bytes [OF r(2) this, of "\<lambda>i. Some (ucast (drop_bit (8 * i) v AND 0xFF))" "\<lambda>i. ucast (drop_bit (8 * i) v AND 0xFF)", OF _ r(3)]
  obtain q where q: "foldM (\<lambda>i m. memcpy_at m (8 * (n div 8) + i) [Some (ucast (drop_bit (8 * i) v AND 0xFF))])
      [0..<n mod 8] r = Some q" "length q = n"
    "\<forall>i<n. q ! i = Some (if i < 8 * (n div 8) then le 8 v ! (i mod 8) else ucast (drop_bit (8 * (i - 8 * (n div 8))) v AND 0xFF))"
    by auto
  have byte: "ucast (w AND 0xFF) = (ucast w :: u8)" for w :: u64
  proof (rule bit_word_eqI)
    have m: "(0xFF :: u64) = mask 8" by (simp add: mask_eq_exp_minus_1)
    fix k assume "k < LENGTH(8)"
    then show "bit (ucast (w AND 0xFF) :: u8) k = bit (ucast w :: u8) k" unfolding m by (simp add: bit_simps)
  qed
  have "q = map (\<lambda>i. Some (le 8 v ! (i mod 8))) [0..<n]"
  proof (rule nth_equalityI)
    fix i assume "i < length q"
    then have i: "i < n" using q(2) by simp
    show "q ! i = map (\<lambda>i. Some (le 8 v ! (i mod 8))) [0..<n] ! i"
    proof (cases "i < 8 * (n div 8)")
      case False
      have "i - 8 * (n div 8) = i mod 8"
      proof -
        have "i div 8 = n div 8" using False i by (simp add: div_le_mono order.antisym less_imp_le not_less less_eq_div_iff_mult_less_eq mult.commute)
        then show ?thesis by (metis minus_mult_div_eq_mod)
      qed
      then show ?thesis using q(3) i False by (simp add: byte)
    qed (use q(3) i in simp)
  qed (simp add: q(2))
  moreover have "wrap_malloc rand bytes s = Some (Some q, s')"
    using assms(1) r(1) q(1) unfolding wrap_malloc_def Let_def
    by (simp add: s'_def [symmetric] v_def [symmetric] reps p)
  ultimately show ?thesis unfolding s'_def v_def n_def by blast
qed

text \<open>The loop over the stack: every byte of the slots above the bottom holds the pattern.\<close>

lemma fill_down_outside: "a < stack_bottom \<or> stack_loc + 8 \<le> a \<Longrightarrow> fill_down stack_bottom stack_loc v stack a = stack a"
  by (induction stack_bottom stack_loc v stack rule: fill_down.induct) (subst fill_down.simps, auto)

lemma fill_down_inside:
  assumes "stack_bottom < stack_loc - 8 * j" and "8 \<le> stack_bottom" and "i < 8"
  shows "fill_down stack_bottom stack_loc v stack (stack_loc - 8 * j + i) = le 8 v ! i"
  using assms
proof (induction j arbitrary: stack_loc stack)
  case 0
  then show ?case using fill_down_outside [of "stack_loc + i" stack_bottom "stack_loc - 8"]
    by (subst fill_down.simps) (simp add: not_less)
next
  case (Suc j)
  moreover have "stack_bottom < stack_loc" using Suc.prems(1) by linarith
  ultimately show ?case using Suc.IH [of "stack_loc - 8"] by (subst fill_down.simps) simp
qed

lemma local_at_filled:
  assumes "8 \<le> stack_bottom" and "stack_bottom < stack_loc - 8 * j" and "i < 8"
  shows "fst (FILL_STACK rand stack_bottom stack_loc s stack) (stack_loc - 8 * j + i) = le 8 (fst (draw_pattern rand s)) ! i"
  using fill_down_inside [OF assms(2,1,3)] by (simp add: FILL_STACK_def split: prod.splits)

lemma secret_seed_of_le: "4 \<le> length secret_in \<Longrightarrow> secret_seed secret_in = of_le (take 4 secret_in)"
proof -
  assume "4 \<le> length secret_in"
  then obtain a r1 where 1: "secret_in = a # r1" "3 \<le> length r1" by (cases secret_in) auto
  then obtain b r2 where 2: "r1 = b # r2" "2 \<le> length r2" by (cases r1) auto
  then obtain c r3 where 3: "r2 = c # r3" "1 \<le> length r3" by (cases r2) auto
  then obtain d cs where 4: "r3 = d # cs" by (cases r3) auto
  note s = 1(1) 2(1) 3(1) 4
  have l: "[0..<4] = [0, 1, 2, 3 :: nat]" by (simp add: upt_rec)
  show ?thesis by (rule bit_word_eqI) (auto simp: secret_seed_def s l bit_simps)
qed

lemma secret_seed_inj:
  assumes "4 \<le> length s" and "4 \<le> length s'" and "secret_seed s = secret_seed s'"
  shows "take 4 s = take 4 s'"
proof (rule nth_equalityI)
  show "length (take 4 s) = length (take 4 s')" using assms(1,2) by simp
  fix i assume "i < length (take 4 s)"
  then have i: "i < 4" by simp
  have e: "of_le (take 4 s) = (of_le (take 4 s') :: u32)"
    using assms(3) by (simp add: secret_seed_of_le assms(1,2))
  show "take 4 s ! i = take 4 s' ! i"
  proof (rule bit_word_eqI)
    fix k assume k: "k < LENGTH(8)"
    then have "(8 * i + k) div 8 = i" "(8 * i + k) mod 8 = k" "8 * i + k < 32" using i by auto
    then show "bit (take 4 s ! i) k = bit (take 4 s' ! i) k"
      using bit_of_le [of "take 4 s" "8 * i + k", where 'a=32] bit_of_le [of "take 4 s'" "8 * i + k", where 'a=32] e i assms(1,2)
      by simp
  qed
qed

section \<open>Copies of records with holes\<close>

text \<open>
  A function fills a record of \<open>n\<close> bytes on top of what the memory held before, and hands all
  \<open>n\<close> bytes out.  Its holes are the bytes it never writes.
\<close>

lemma card_image_eq:
  assumes "\<And>x y. x \<in> A \<Longrightarrow> y \<in> A \<Longrightarrow> f x = f y \<longleftrightarrow> g x = g y"
  shows "card (f ` A) = card (g ` A)"
proof (rule bij_betw_same_card)
  let ?h = "\<lambda>z. g (SOME x. x \<in> A \<and> f x = z)"
  have h: "?h (f x) = g x" if "x \<in> A" for x
  proof -
    have "(SOME y. y \<in> A \<and> f y = f x) \<in> A \<and> f (SOME y. y \<in> A \<and> f y = f x) = f x"
      by (rule someI [of _ x]) (use that in simp)
    then show ?thesis using assms that by blast
  qed
  show "bij_betw ?h (f ` A) (g ` A)"
    unfolding bij_betw_def inj_on_def using assms h by (auto simp: image_iff)
qed

locale leaky_copy =
  fixes copy :: "u8 list \<Rightarrow> u8 list" and holes :: "nat set" and n :: nat
  assumes length_copy: "length r = n \<Longrightarrow> length (copy r) = n"
    and holes: "holes \<subseteq> {..<n}"
    and hole: "length r = n \<Longrightarrow> i \<in> holes \<Longrightarrow> copy r ! i = r ! i"
    and solid: "length r = n \<Longrightarrow> length r' = n \<Longrightarrow> i < n \<Longrightarrow> i \<notin> holes \<Longrightarrow> copy r ! i = copy r' ! i"
begin

lemma copy_eq_iff:
  assumes "length r = n" and "length r' = n"
  shows "copy r = copy r' \<longleftrightarrow> (\<forall>i\<in>holes. r ! i = r' ! i)"
proof
  assume "copy r = copy r'"
  then show "\<forall>i\<in>holes. r ! i = r' ! i" using hole assms by metis
next
  assume a: "\<forall>i\<in>holes. r ! i = r' ! i"
  show "copy r = copy r'"
  proof (rule nth_equalityI)
    show "length (copy r) = length (copy r')" using length_copy assms by simp
    fix i assume "i < length (copy r)"
    then show "copy r ! i = copy r' ! i"
      using a hole solid [OF assms] length_copy assms by (cases "i \<in> holes") auto
  qed
qed

lemma secure_iff: "(\<forall>r r'. length r = n \<and> length r' = n \<longrightarrow> copy r = copy r') \<longleftrightarrow> holes = {}"
proof
  assume a: "\<forall>r r'. length r = n \<and> length r' = n \<longrightarrow> copy r = copy r'"
  then have "\<forall>i\<in>holes. replicate n (0::u8) ! i = replicate n 1 ! i"
    by (subst copy_eq_iff [symmetric]) auto
  moreover have "replicate n (0::u8) ! i \<noteq> replicate n 1 ! i" if "i \<in> holes" for i
    using that holes by auto
  ultimately show "holes = {}" by blast
qed (use copy_eq_iff in auto)

text \<open>The number of replies that the caller can tell apart.\<close>

lemma card_copies: "card (copy ` {r. length r = n}) = 256 ^ card holes"
proof -
  let ?L = "{r :: u8 list. length r = n}" and ?g = "\<lambda>r. \<lambda>i\<in>holes. (r :: u8 list) ! i"
  have fin: "finite holes" using holes finite_subset by blast
  have "card (copy ` ?L) = card (?g ` ?L)"
    by (rule card_image_eq) (use copy_eq_iff in \<open>auto simp: fun_eq_iff restrict_def\<close>)
  also have "?g ` ?L = (\<Pi>\<^sub>E i\<in>holes. UNIV)"
  proof
    show "(\<Pi>\<^sub>E i\<in>holes. UNIV) \<subseteq> ?g ` ?L"
    proof
      fix f :: "nat \<Rightarrow> u8" assume f: "f \<in> (\<Pi>\<^sub>E i\<in>holes. UNIV)"
      have "f = ?g (map f [0..<n])"
      proof
        fix i show "f i = ?g (map f [0..<n]) i"
          using f holes by (cases "i \<in> holes") (auto simp: PiE_def extensional_def)
      qed
      then show "f \<in> ?g ` ?L" by (rule image_eqI) simp
    qed
  qed auto
  also have "card (\<Pi>\<^sub>E i\<in>holes. (UNIV :: u8 set)) = 256 ^ card holes"
    by (simp add: card_PiE [OF fin] card_word)
  finally show ?thesis .
qed

end

end
