(* ===== verification/Input_Theorems.thy ===== *)
theory Input_Theorems
  imports Decode_Inputs
begin

text \<open>
  The theorems about test case inputs: base64.c and decode\_inputs.c.
\<close>

section \<open>Base64\<close>

lemma takeWhile_digits_end [simp]: "takeWhile is_digit64 (raw @ [0]) = takeWhile is_digit64 raw"
  by (induction raw) simp_all

lemma digits_bounded: "\<exists>n. digits (raw @ [0]) = Some n \<and> n \<le> length raw"
  using length_takeWhile_le [of is_digit64 "raw"]
  by (auto simp: digits_takeWhile)

lemma Base64decode_len_total:
  assumes "length raw + 4 < 2 ^ 31"
  shows "\<exists>m. Base64decode_len (raw @ [0]) = Some m \<and> 0 < m \<and> m < 2 ^ 31"
proof -
  obtain n where n: "digits (raw @ [0]) = Some n" "n \<le> length raw" using digits_bounded by blast
  then have "int n + 4 < 2147483648" using assms by simp
  then have "(int n + 3) div 4 * 3 + 1 < 2147483648" "0 \<le> (int n + 3) div 4 * 3" by presburger+
  then show ?thesis using n assms by (simp add: Base64decode_len_def as_int_def)
qed

text \<open>
  C20: Base64 round trip: for every byte string of less than about 1.6 GB, \<open>Base64encode\<close>
  into a buffer of \<open>Base64encode_len\<close> bytes fills it exactly, and \<open>Base64decode\<close> into a
  buffer of \<open>Base64decode_len\<close> bytes gives the byte string back with its length.
\<close>

theorem base64_roundtrip:
  assumes "length bs < 1600000000"
  shows "\<exists>n enc m rest. Base64encode_len (int (length bs)) = Some n
    \<and> Base64encode (replicate (nat n) None) bs (int (length bs)) = Some (n, map Some enc)
    \<and> Base64decode_len enc = Some m
    \<and> Base64decode (replicate (nat m) None) enc = Some (int (length bs), map Some bs @ rest)"
proof -
  let ?e = "b64 bs @ [0]"
  have "(length bs + 2) div 3 * 4 + 4 < 2147483648" using assms by presburger
  then have l: "length (b64 bs) + 4 < 2 ^ 31" by (simp add: length_b64)
  have e: "Base64encode (replicate (length (b64 bs) + 1) None) bs (int (length bs)) =
      Some (int (length (b64 bs) + 1), map Some ?e)"
    using Base64encode_ok [of bs "replicate (length (b64 bs) + 1) None"] by simp
  have tw: "un64 (takeWhile is_digit64 ?e) = bs"
    using un64_b64 [of bs] by simp
  obtain m where m: "Base64decode_len ?e = Some m" using Base64decode_len_total [of "b64 bs"] l by auto
  have "Base64encode_len (int (length bs)) = Some (int (length (b64 bs) + 1))"
    using Base64encode_len_ok [of bs] l by simp
  moreover have "Base64encode (replicate (nat (int (length (b64 bs) + 1))) None) bs (int (length bs)) =
      Some (int (length (b64 bs) + 1), map Some ?e)" unfolding nat_int by (rule e)
  moreover have "\<exists>rest. Base64decode (replicate (nat m) None) ?e = Some (int (length bs), map Some bs @ rest)"
    using Base64decode_ok [OF m, of "replicate (nat m) None"] unfolding tw by auto
  ultimately show ?thesis using m by blast
qed

theorem base64_roundtrip_witness:
  "\<exists>n enc m rest. Base64encode_len 3 = Some n \<and> Base64encode (replicate (nat n) None) [0, 200, 255] 3 = Some (n, map Some enc)
    \<and> Base64decode_len enc = Some m \<and> Base64decode (replicate (nat m) None) enc = Some (3, map Some [0, 200, 255] @ rest)"
  using base64_roundtrip [of "[0, 200, 255]"] by simp

lemma puts_fail: "length buf < p + length bs \<Longrightarrow> bs \<noteq> [] \<Longrightarrow> puts bs (buf, p) = None"
proof (induction bs arbitrary: buf p)
  case (Cons b bs)
  then show ?case by (cases "bs = []") (auto simp: put_def)
qed simp

section \<open>Decoding the inputs\<close>

lemma decode_raw_ok:
  assumes "length raw + 4 < 2 ^ 31" and "mem_ok h"
  shows "\<exists>buf n. decode_raw raw h = Some ((buf, n), h)
    \<and> unat n = length (un64 (takeWhile is_digit64 raw))
    \<and> take (unat n) buf = map Some (un64 (takeWhile is_digit64 raw))"
proof -
  let ?v = "un64 (takeWhile is_digit64 raw)"
  obtain m where m: "Base64decode_len (raw @ [0]) = Some m" "0 < m" "m < 2 ^ 31"
    using Base64decode_len_total [OF assms(1)] by blast
  have "unat (of_int m :: u32) = nat m"
    using m(2,3) by (simp add: unsigned_of_int take_bit_int_eq_self)
  then have d: "Base64decode (replicate (unat (of_int m :: u32)) None) (raw @ [0]) =
      Some (int (length ?v), map Some (?v @ [0]) @ drop (length ?v + 1) (replicate (nat m) None))"
    "int (length ?v) < m"
    using Base64decode_ok [OF m(1), of "replicate (nat m) None"] by auto
  have "unat (of_nat (length ?v) :: u32) = length ?v"
    using d(2) m(3) by (intro unat_of_nat_u32) simp
  then show ?thesis using d(1) m(1) assms(2) by (simp add: decode_raw_def)
qed

lemma short_b64:
  assumes "length bs < 1600000000"
  shows "length (b64 bs) + 4 < 2 ^ 31"
proof -
  have "(length bs + 2) div 3 \<le> 1600000002 div 3" using assms by (intro div_le_mono) simp
  then have "(length bs + 2) div 3 * 4 + 4 < 2147483648" by simp
  then show ?thesis by (simp add: length_b64)
qed

text \<open>
  A test case made from a public and a secret input by \<open>Base64encode\<close> is taken apart
  into the same inputs: both copies of \<open>find_public_and_secret_inputs\<close> return two buffers
  that begin with the inputs, and their lengths.
\<close>

theorem inputs_roundtrip:
  assumes "length pub < 1600000000" and "length sec < 1600000000" and "mem_ok h"
    and "Base64encode (replicate (nat n) None) pub (int (length pub)) = Some (n, map Some (p64 @ [0]))"
    and "Base64encode (replicate (nat m) None) sec (int (length sec)) = Some (m, map Some (s64 @ [0]))"
    and "json_parse txt = Some (json_object [(PUBLIC_KEY, json_string p64), (SECRET_KEY, json_string s64)])"
  shows "\<exists>pbuf pn sbuf sn. find_public_and_secret_inputs json_parse txt h = Some (Ret (((Some pbuf, pn), (Some sbuf, sn)), h))
    \<and> find_public_and_secret_inputs_checked json_parse txt h = find_public_and_secret_inputs json_parse txt h
    \<and> unat pn = length pub \<and> take (unat pn) pbuf = map Some pub
    \<and> unat sn = length sec \<and> take (unat sn) sbuf = map Some sec"
proof -
  have enc: "cs = b64 bs"
    if "Base64encode (replicate (nat k) None) bs (int (length bs)) = Some (k, map Some (cs @ [0]))" for k cs bs
  proof -
    have "puts (b64 bs @ [0]) (replicate (nat k) None, 0) = Some (map Some (cs @ [0]), nat k)"
      using that by (auto simp: Base64encode_puts)
    then have "length (b64 bs @ [0]) = nat k \<and> map Some (b64 bs @ [0]) = map Some (cs @ [0])"
    proof (cases "length (b64 bs @ [0]) \<le> nat k")
      case True
      then show ?thesis using puts_ok [of 0 "b64 bs @ [0]" "replicate (nat k) None"]
          \<open>puts _ _ = _\<close> by auto
    next
      case False
      then show ?thesis using \<open>puts _ _ = _\<close> puts_fail by fastforce
    qed
    then have "map Some (b64 bs @ [0]) = map Some (cs @ [0])" ..
    then have "b64 bs @ [0] = cs @ [0]" by (simp add: inj_map_eq_map)
    then show "cs = b64 bs" by simp
  qed
  have p: "p64 = b64 pub" and s: "s64 = b64 sec" using enc assms(4,5) by blast+
  obtain pbuf pn where 1: "decode_raw p64 h = Some ((pbuf, pn), h)" "unat pn = length pub"
    "take (unat pn) pbuf = map Some pub"
    using decode_raw_ok [OF short_b64 [OF assms(1)] assms(3)] un64_b64 unfolding p by metis
  obtain sbuf sn where 2: "decode_raw s64 h = Some ((sbuf, sn), h)" "unat sn = length sec"
    "take (unat sn) sbuf = map Some sec"
    using decode_raw_ok [OF short_b64 [OF assms(2)] assms(3)] un64_b64 unfolding s by metis
  have "find_raw [(PUBLIC_KEY, json_string p64), (SECRET_KEY, json_string s64)] (None, None) = Inr (Some p64, Some s64)"
    by (simp add: PUBLIC_KEY_def SECRET_KEY_def c_str_def)
  then show ?thesis using 1 2 assms(6)
    by (simp add: find_public_and_secret_inputs_def find_public_and_secret_inputs_checked_def find_inputs_def)
qed

definition ex_json :: json_value where
  "ex_json = json_object [(PUBLIC_KEY, json_string (map of_char ''AMj/'')), (SECRET_KEY, json_string (map of_char ''Qg==''))]"

theorem inputs_roundtrip_witness:
  "\<exists>pbuf pn sbuf sn. find_public_and_secret_inputs (\<lambda>txt. Some ex_json) [123] \<lparr>avail = None\<rparr>
      = Some (Ret (((Some pbuf, pn), (Some sbuf, sn)), \<lparr>avail = None\<rparr>))
    \<and> unat pn = 3 \<and> take (unat pn) pbuf = map Some [0, 200, 255] \<and> unat sn = 1 \<and> take (unat sn) sbuf = map Some [66]"
proof -
  have e: "Base64encode (replicate (nat 5) None) [0, 200, 255] (int (length [0, 200, 255 :: u8])) =
      Some (5, map Some (map of_char ''AMj/'' @ [0]))"
    "Base64encode (replicate (nat 5) None) [66] (int (length [66 :: u8])) = Some (5, map Some (map of_char ''Qg=='' @ [0]))"
    by code_simp+
  show ?thesis
    using inputs_roundtrip [of "[0, 200, 255]" "[66]" "\<lparr>avail = None\<rparr>", OF _ _ _ e, of "\<lambda>txt. Some ex_json" "[123]"]
    by (simp add: ex_json_def numeral_3_eq_3) blast
qed

text \<open>A test case that can be used: an object whose members are strings under the two keys, both present.\<close>

definition members_ok :: "(u8 list \<times> json_value) list \<Rightarrow> bool" where
  "members_ok values \<longleftrightarrow> (\<forall>(name, v)\<in>set values. (case v of json_string _ \<Rightarrow> True | _ \<Rightarrow> False)
     \<and> (c_str name = PUBLIC_KEY \<or> c_str name = SECRET_KEY))"

definition usable :: "json_value \<Rightarrow> bool" where
  "usable v = (case v of json_object values \<Rightarrow> members_ok values
      \<and> PUBLIC_KEY \<in> c_str ` fst ` set values \<and> SECRET_KEY \<in> c_str ` fst ` set values | _ \<Rightarrow> False)"

lemma keys_differ [simp]: "PUBLIC_KEY \<noteq> SECRET_KEY" "SECRET_KEY \<noteq> PUBLIC_KEY"
  by (simp_all add: PUBLIC_KEY_def SECRET_KEY_def)

lemma find_raw_bad: "\<not> members_ok vs \<Longrightarrow> find_raw vs raw = Inl 1"
  by (induction vs raw rule: find_raw.induct) (auto simp: members_ok_def)

lemma find_raw_good:
  "members_ok vs \<Longrightarrow> \<exists>p' s'. find_raw vs raw = Inr (p', s')
    \<and> (p' \<noteq> None \<longleftrightarrow> fst raw \<noteq> None \<or> PUBLIC_KEY \<in> c_str ` fst ` set vs)
    \<and> (s' \<noteq> None \<longleftrightarrow> snd raw \<noteq> None \<or> SECRET_KEY \<in> c_str ` fst ` set vs)
    \<and> (\<forall>r. p' = Some r \<or> s' = Some r \<longrightarrow> fst raw = Some r \<or> snd raw = Some r \<or> json_string r \<in> snd ` set vs)"
proof (induction vs raw rule: find_raw.induct)
  case (2 name str vs p s)
  have ok: "members_ok vs" and name: "c_str name = PUBLIC_KEY \<or> c_str name = SECRET_KEY"
    using 2(3) by (auto simp: members_ok_def)
  show ?case
  proof (cases "c_str name = PUBLIC_KEY")
    case True
    from 2(1) [OF True ok] show ?thesis by (elim exE conjE) (simp add: True, blast)
  next
    case False
    with name have n: "c_str name = SECRET_KEY" by simp
    from 2(2) [OF False n ok] show ?thesis by (elim exE conjE) (simp add: n, blast)
  qed
qed (auto simp: members_ok_def)

lemma find_raw_start:
  "members_ok vs \<Longrightarrow> \<exists>p s. find_raw vs (None, None) = Inr (p, s)
    \<and> (p \<noteq> None \<longleftrightarrow> PUBLIC_KEY \<in> c_str ` fst ` set vs) \<and> (s \<noteq> None \<longleftrightarrow> SECRET_KEY \<in> c_str ` fst ` set vs)
    \<and> (\<forall>r. p = Some r \<or> s = Some r \<longrightarrow> json_string r \<in> snd ` set vs)"
  using find_raw_good [of vs "(None, None)"] by simp

text \<open>
  C21: The error behaviour of \<open>find_public_and_secret_inputs\<close>, with memory and strings within
  \<open>int\<close>.  The checked copy always returns or ends the process: it ends it exactly for a value
  that is not a usable test case, and returns NULL pointers and zero lengths exactly when the parser
  fails.  The copy of the grammar mutator agrees wherever the parser succeeds and dereferences
  NULL where it fails.
\<close>

theorem inputs_errors:
  fixes h :: "'z alloc_scheme"
  assumes "mem_ok h"
    and "\<forall>values s. json_parse txt = Some (json_object values) \<and> json_string s \<in> snd ` set values \<longrightarrow> length s + 4 < 2 ^ 31"
  shows "find_public_and_secret_inputs_checked json_parse txt h \<noteq> None
    \<and> (find_public_and_secret_inputs_checked json_parse txt h = Some (Exit 1) \<longleftrightarrow> (\<exists>v. json_parse txt = Some v \<and> \<not> usable v))
    \<and> ((\<exists>sec h'. find_public_and_secret_inputs_checked json_parse txt h = Some (Ret (((None, 0), sec), h'))) \<longleftrightarrow> json_parse txt = None)
    \<and> find_public_and_secret_inputs json_parse txt h =
        (if json_parse txt = None then None else find_public_and_secret_inputs_checked json_parse txt h)"
proof -
  have bad: "find_inputs v h = Some (Exit 1)" if "\<not> usable v" for v
  proof (cases v)
    case (json_object vs)
    show ?thesis
    proof (cases "members_ok vs")
      case True
      obtain p s where r: "find_raw vs (None, None) = Inr (p, s)" "p \<noteq> None \<longleftrightarrow> PUBLIC_KEY \<in> c_str ` fst ` set vs"
        "s \<noteq> None \<longleftrightarrow> SECRET_KEY \<in> c_str ` fst ` set vs"
        using find_raw_start [OF True] by (elim exE conjE) (rule that; assumption)
      then have "p = None \<or> s = None" using that True json_object unfolding usable_def by (simp, blast)
      then show ?thesis using r(1) json_object by (cases p) (auto simp: find_inputs_def)
    qed (simp add: json_object find_inputs_def find_raw_bad)
  qed (simp_all add: find_inputs_def)
  have good: "\<exists>p pn s sn. find_inputs v h = Some (Ret (((Some p, pn), (Some s, sn)), h))"
    if u: "usable v" and v: "json_parse txt = Some v" for v
  proof -
    obtain vs where vs: "v = json_object vs" "members_ok vs" "PUBLIC_KEY \<in> c_str ` fst ` set vs"
      "SECRET_KEY \<in> c_str ` fst ` set vs" using u by (cases v) (auto simp: usable_def)
    obtain p' s' where q: "find_raw vs (None, None) = Inr (p', s')" "p' \<noteq> None" "s' \<noteq> None"
      "\<forall>r. p' = Some r \<or> s' = Some r \<longrightarrow> json_string r \<in> snd ` set vs"
      using find_raw_start [OF vs(2)] vs(3,4) by (elim exE conjE) (rule that; simp)
    then obtain p s where r: "find_raw vs (None, None) = Inr (Some p, Some s)"
      "json_string p \<in> snd ` set vs" "json_string s \<in> snd ` set vs" by blast
    have "length p + 4 < 2 ^ 31" "length s + 4 < 2 ^ 31" using assms(2) r(2,3) v vs(1) by blast+
    from decode_raw_ok [OF this(1) assms(1)] decode_raw_ok [OF this(2) assms(1)] r(1)
    show ?thesis by (auto simp: find_inputs_def vs(1))
  qed
  show ?thesis
  proof (cases "json_parse txt")
    case (Some v)
    then show ?thesis using bad [of v] good [of v]
      by (cases "usable v") (auto simp: find_public_and_secret_inputs_def find_public_and_secret_inputs_checked_def)
  qed (simp add: find_public_and_secret_inputs_def find_public_and_secret_inputs_checked_def)
qed

theorem inputs_errors_witness:
  "find_public_and_secret_inputs_checked (\<lambda>txt. Some (json_object [(SECRET_KEY, json_string [])])) [] \<lparr>avail = None\<rparr> = Some (Exit 1)
    \<and> find_public_and_secret_inputs (\<lambda>txt. None) [] \<lparr>avail = None\<rparr> = None"
  using inputs_errors [of "\<lparr>avail = None\<rparr>" "\<lambda>txt. Some (json_object [(SECRET_KEY, json_string [])])" "[]"]
    inputs_errors [of "\<lparr>avail = None\<rparr>" "\<lambda>txt. None" "[]"]
  by (auto simp: usable_def c_str_def SECRET_KEY_def PUBLIC_KEY_def)

end
