(* ===== verification/Harness.thy ===== *)
theory Harness
  imports Leak Input_Theorems
begin

text \<open>
  The part that the fuzz harnesses of leakage\_test share: they take the public and the secret
  input from the test case, seed the memory pattern with the secret, fill the stack, call the
  function under test and print its reply.  What a harness prints is a list of output items,
  which leaves the formatting to the reader.
\<close>

datatype item =
    Text string
  | Num int
  | Hex "u8 list"
  | Raw "u8 list"

definition nl :: item where
  "nl = Text [CHR 0x0A]"

text \<open>
  The surroundings of a run: the parser and \<open>rand\<close> of the libraries, the bottom of the stack
  mapping, the address from which the stack is filled, the addresses of the locals of the
  function under test, and what the stack held before.
\<close>

record env =
  json_parser :: "u8 list \<Rightarrow> json_value option"
  rand_fun :: rand
  stack_bottom :: nat
  stack_top :: nat
  frame :: nat
  old_stack :: "nat \<Rightarrow> u8"

text \<open>The result of a run: the status and the output; the harness ends the process itself for \<open>exit\<close>.\<close>

type_synonym run = "int \<times> item list"

text \<open>
  The beginning of every harness: a process that the reader of the inputs ends has printed only
  a message; NULL inputs give status 1.
\<close>

definition parse_error :: "item list" where
  "parse_error = [Text ''Failed to parse public / secret inputs JSON'', nl]"

definition read_inputs ::
    "env \<Rightarrow> u8 list \<Rightarrow> 'z memstate_scheme \<Rightarrow> (u8 list \<Rightarrow> u8 list \<Rightarrow> 'z memstate_scheme \<Rightarrow> run option) \<Rightarrow> run option" where
  "read_inputs E Data s k = do {
     r \<leftarrow> find_public_and_secret_inputs_checked (json_parser E) Data s;
     case r of Exit c \<Rightarrow> Some (c, [])
     | Ret (((Some public_in, public_len), (Some secret_in, secret_len)), s) \<Rightarrow> do {
         pub \<leftarrow> init_bytes (take (unat public_len) public_in);
         sec \<leftarrow> init_bytes (take (unat secret_len) secret_in);
         k pub sec s
       }
     | Ret (_, s) \<Rightarrow> Some (1, parse_error)
   }"

text \<open>\<open>SEED_MEMORY(seed); FILL_STACK();\<close> and the same with the function \<open>fill_stack()\<close>.\<close>

definition seed_and_fill :: "env \<Rightarrow> u8 list \<Rightarrow> 'z memstate_scheme \<Rightarrow> (nat \<Rightarrow> u8) \<times> 'z memstate_scheme" where
  "seed_and_fill E sec s = FILL_STACK (rand_fun E) (stack_bottom E) (stack_top E)
     (SEED_MEMORY (rand_fun E) (secret_seed sec) s) (old_stack E)"

definition seed_and_fill_stack :: "env \<Rightarrow> u8 list \<Rightarrow> 'z memstate_scheme \<Rightarrow> (nat \<Rightarrow> u8) \<times> 'z memstate_scheme" where
  "seed_and_fill_stack E sec s = fill_stack (rand_fun E) (stack_bottom E) (stack_top E)
     (SEED_MEMORY (rand_fun E) (secret_seed sec) s) (old_stack E)"

section \<open>Test cases\<close>

text \<open>The text of a test case made from two inputs, as the JSON parser sees it.\<close>

definition testcase :: "env \<Rightarrow> u8 list \<Rightarrow> u8 list \<Rightarrow> u8 list \<Rightarrow> bool" where
  "testcase E Data pub sec \<longleftrightarrow> length pub < 1600000000 \<and> length sec < 1600000000 \<and>
     json_parser E Data = Some (json_object [(PUBLIC_KEY, json_string (b64 pub)), (SECRET_KEY, json_string (b64 sec))])"

lemma testcase_inputs:
  assumes "testcase E Data pub sec" and "mem_ok s"
  shows "\<exists>p pn q qn. find_public_and_secret_inputs_checked (json_parser E) Data s = Some (Ret (((Some p, pn), (Some q, qn)), s))
    \<and> unat pn = length pub \<and> take (unat pn) p = map Some pub \<and> unat qn = length sec \<and> take (unat qn) q = map Some sec"
proof -
  note l = assms(1) [unfolded testcase_def]
  obtain pbuf pn where 1: "decode_raw (b64 pub) s = Some ((pbuf, pn), s)" "unat pn = length pub" "take (unat pn) pbuf = map Some pub"
    using decode_raw_ok [OF short_b64 assms(2), of pub] l un64_b64 [of pub] by auto
  obtain sbuf sn where 2: "decode_raw (b64 sec) s = Some ((sbuf, sn), s)" "unat sn = length sec" "take (unat sn) sbuf = map Some sec"
    using decode_raw_ok [OF short_b64 assms(2), of sec] l un64_b64 [of sec] by auto
  have "find_raw [(PUBLIC_KEY, json_string (b64 pub)), (SECRET_KEY, json_string (b64 sec))] (None, None) =
      Inr (Some (b64 pub), Some (b64 sec))"
    by (simp add: PUBLIC_KEY_def SECRET_KEY_def c_str_def)
  then show ?thesis using 1 2 l by (simp add: find_public_and_secret_inputs_checked_def find_inputs_def)
qed

lemma read_testcase:
  assumes "testcase E Data pub sec" and "mem_ok s"
  shows "read_inputs E Data s k = k pub sec s"
  using testcase_inputs [OF assms] by (auto simp: read_inputs_def)

text \<open>The first eight bytes of the pattern that a harness fills the stack with.\<close>

definition stack_pattern :: "env \<Rightarrow> u8 list \<Rightarrow> u64" where
  "stack_pattern E sec = push_bit 48 (ucast (rand_fun E (secret_seed sec) 4)) OR push_bit 32 (ucast (rand_fun E (secret_seed sec) 5))
     OR push_bit 16 (ucast (rand_fun E (secret_seed sec) 6)) OR ucast (rand_fun E (secret_seed sec) 7)"

lemma stack_byte:
  assumes "8 \<le> stack_bottom E" and "stack_bottom E < a" and "a \<le> stack_top E" and "8 dvd stack_top E - a" and "i < 8"
  shows "fst (seed_and_fill E sec s) (a + i) = le 8 (stack_pattern E sec) ! i"
proof -
  obtain j where j: "stack_top E - a = 8 * j" using assms(4) by blast
  then have a: "a = stack_top E - 8 * j" using assms(3) by simp
  have "fst (draw_pattern (rand_fun E) (SEED_MEMORY (rand_fun E) (secret_seed sec) s)) = stack_pattern E sec"
    by (simp add: draw_pattern_def SEED_MEMORY_def initRepeatedVal_def stack_pattern_def numeral_eq_Suc)
  moreover have "stack_bottom E < stack_top E - 8 * j" using assms(2) a by simp
  note local_at_filled [OF assms(1) this assms(5), of "rand_fun E" "SEED_MEMORY (rand_fun E) (secret_seed sec) s" "old_stack E"]
  ultimately show ?thesis unfolding seed_and_fill_def a by simp
qed

text \<open>A local that lies in the filled part of the stack is a repetition of the pattern.\<close>

definition filled :: "env \<Rightarrow> nat \<Rightarrow> bool" where
  "filled E n \<longleftrightarrow> 8 \<le> stack_bottom E \<and> stack_bottom E < frame E \<and> frame E \<le> stack_top E \<and> frame E + n \<le> stack_top E + 8 \<and> 8 dvd stack_top E - frame E"

definition repeated :: "u64 \<Rightarrow> nat \<Rightarrow> u8 list" where
  "repeated v n = map (\<lambda>i. le 8 v ! (i mod 8)) [0..<n]"

lemma length_repeated [simp]: "length (repeated v n) = n"
  by (simp add: repeated_def)

lemma repeated_inj:
  assumes "8 \<le> n" and "\<And>i. i < 8 \<Longrightarrow> repeated v n ! (k + i) = repeated w n ! (k + i)" and "8 dvd k" and "k + 8 \<le> n"
  shows "v = w"
proof -
  have "le 8 v = le 8 w"
  proof (rule nth_equalityI)
    fix i assume "i < length (le 8 v)"
    then show "le 8 v ! i = le 8 w ! i" using assms(2) [of i] assms(3,4) by (auto simp: repeated_def elim: dvdE)
  qed simp
  then show ?thesis by (simp add: le_inj)
qed

lemma local_filled:
  assumes "filled E n"
  shows "local_at (fst (seed_and_fill E sec s)) (frame E) n = repeated (stack_pattern E sec) n"
proof (rule nth_equalityI)
  fix i assume "i < length (local_at (fst (seed_and_fill E sec s)) (frame E) n)"
  then have i: "i < n" by simp
  let ?q = "i div 8" and ?r = "i mod 8"
  have top: "frame E \<le> stack_top E"
    using assms unfolding filled_def by blast
  have q: "8 * ?q + ?r = i" by simp
  obtain c where c: "stack_top E - frame E = 8 * c" using assms unfolding filled_def by blast
  have "n \<le> 8 * c + 8" using assms top c unfolding filled_def by linarith
  then have "?q \<le> c" using i by linarith
  then have "frame E + 8 * ?q \<le> stack_top E" "stack_top E - (frame E + 8 * ?q) = 8 * (c - ?q)"
    using c top by linarith+
  then have "frame E + 8 * ?q \<le> stack_top E" "8 dvd stack_top E - (frame E + 8 * ?q)" by simp_all
  then have "fst (seed_and_fill E sec s) (frame E + 8 * ?q + ?r) = le 8 (stack_pattern E sec) ! ?r"
    using assms by (intro stack_byte) (auto simp: filled_def)
  then show "local_at (fst (seed_and_fill E sec s)) (frame E) n ! i = repeated (stack_pattern E sec) n ! i"
    using i q by (simp add: local_at_def repeated_def add.assoc)
qed simp

end
