(* ===== verification/Small_Leaks.thy ===== *)
theory Small_Leaks
  imports Harness "HOL-Library.Signed_Division"
begin

text \<open>
  Three small benchmarks of leakage\_test: underflow, an unsigned subtraction that wraps; example,
  a plain branch on the public input; atalk, the AppleTalk \<open>getname\<close> that returns a record of
  which it never writes the reserved part.
\<close>

section \<open>underflow\<close>

text \<open>
  \<open>underflow(h, ppos)\<close>: the sums are of type \<open>int64_t\<close>, where an overflow is undefined; line (B)
  stores a signed difference in a \<open>uint32_t\<close>.
\<close>

definition int64_ok :: "int \<Rightarrow> bool" where
  "int64_ok i \<longleftrightarrow> - (2 ^ 63) \<le> i \<and> i < 2 ^ 63"

definition underflow :: "int \<Rightarrow> int \<Rightarrow> int option" where
  "underflow h ppos = (let bufsz = 1024; nbytes = 20 :: u32 in do {
     _ \<leftarrow> guard (int64_ok (ppos + uint nbytes));
     nbytes \<leftarrow> (if ppos + uint nbytes > bufsz
       then do { _ \<leftarrow> guard (int64_ok (bufsz - ppos)); Some (of_int (bufsz - ppos)) } else Some nbytes);
     _ \<leftarrow> guard (int64_ok (ppos + uint nbytes));
     Some (if ppos + uint nbytes > bufsz then h else 0)
   })"

text \<open>
  The harness.  The \<open>int\<close> and the \<open>int64_t\<close> are read from the bytes of the inputs; a secret of fewer than four
  bytes leaves \<open>h\<close> at zero.
\<close>

definition underflow_harness :: "env \<Rightarrow> u8 list \<Rightarrow> 'z memstate_scheme \<Rightarrow> run option" where
  "underflow_harness E Data s = read_inputs E Data s (\<lambda>public_in secret_in s.
     if length public_in \<noteq> 8
     then Some (1, [Text ''expected public_len == '', Num 8, Text '', got '', Num (int (length public_in)), nl])
     else do {
       let h = (if 4 \<le> length secret_in then sint (of_le (take 4 secret_in) :: u32) else 0);
           ppos = sint (of_le public_in :: u64) in do {
       res \<leftarrow> underflow h ppos;
       Some (0, [Num res, nl])
     }})"

text \<open>The assertion of cbmc\_harness.c, which passes the arguments in the other order.\<close>

definition underflow_cbmc_test :: "u64 \<Rightarrow> u32 \<Rightarrow> u32 \<Rightarrow> bool option" where
  "underflow_cbmc_test ppos h1 h2 = do {
     r1 \<leftarrow> underflow (sint (ucast ppos :: u32)) (sint h1);
     r2 \<leftarrow> underflow (sint (ucast ppos :: u32)) (sint h2);
     Some (r1 = r2)
   }"

section \<open>example\<close>

definition print_boring :: "item list" where
  "print_boring = [Text ''10'', nl]"

definition UINT32_MAX :: u32 where
  "UINT32_MAX = 0xFFFFFFFF"

text \<open>
  \<open>read\<close> gives the first 65536 bytes of the input.  There is no check for NULL inputs, whose lengths are
  zero.
\<close>

definition example_main :: "env \<Rightarrow> u8 list \<Rightarrow> 'z memstate_scheme \<Rightarrow> run option" where
  "example_main E stdin s =
    (if 65536 \<le> length (take 65536 stdin) then Some (1, [Text ''Input longer than 65536!'', nl])
     else do {
       r \<leftarrow> find_public_and_secret_inputs_checked (json_parser E) stdin s;
       case r of Exit c \<Rightarrow> Some (c, [])
       | Ret (((public_in, public_len), (secret_in, secret_len)), s) \<Rightarrow>
         if public_len \<noteq> 4 then Some (1, [Text ''expected public_len == 4, got '', Num (uint public_len), nl])
         else if secret_len \<noteq> 4 then Some (1, print_boring)
         else do {
           pub \<leftarrow> Option.bind public_in (\<lambda>m. init_bytes (take 4 m));
           sec \<leftarrow> Option.bind secret_in (\<lambda>m. init_bytes (take 4 m));
           Some (0, if of_le pub > UINT32_MAX div 2 then [Num (sint (of_le sec :: u32)), nl] else print_boring)
         }
     })"

section \<open>atalk\<close>

definition ENOBUF :: int where
  "ENOBUF = 132"

definition ENOTCON :: int where
  "ENOTCON = 134"

definition TCP_ESTABLISHED :: u32 where
  "TCP_ESTABLISHED = 5"

text \<open>\<open>struct atalk_sock\<close> takes 24 bytes: the four one-byte members, \<open>sk_state\<close> and 16 reserved bytes.\<close>

record atalk_sock =
  dst_node :: u8
  src_node :: u8
  dst_port :: u8
  src_port :: u8
  sk_state :: u32
  res :: "u8 list"

definition atalk_at :: "u8 list \<Rightarrow> atalk_sock" where
  "atalk_at bs = \<lparr>dst_node = bs ! 0, src_node = bs ! 1, dst_port = bs ! 2, src_port = bs ! 3,
     sk_state = of_le (take 4 (drop 4 bs)), res = take 16 (drop 8 bs)\<rparr>"

text \<open>The record as bytes in memory.\<close>

definition atalk_bytes :: "atalk_sock \<Rightarrow> u8 list" where
  "atalk_bytes s = [dst_node s, src_node s, dst_port s, src_port s] @ le 4 (sk_state s) @ res s"

definition sock_flag :: "atalk_sock \<Rightarrow> bool" where
  "sock_flag sk = False"

text \<open>The assignments to the local \<open>sat\<close>.\<close>

definition fill_sat :: "atalk_sock \<Rightarrow> int \<Rightarrow> atalk_sock \<Rightarrow> atalk_sock" where
  "fill_sat sock peer sat =
    (let sat = (if peer \<noteq> 0
       then sat\<lparr>src_node := dst_node sock, src_port := dst_port sock, dst_node := src_node sock, dst_port := src_port sock\<rparr>
       else sat\<lparr>src_node := src_node sock, src_port := src_port sock, dst_node := dst_node sock, dst_port := dst_port sock\<rparr>)
     in sat\<lparr>sk_state := sk_state sock\<rparr>)"

text \<open>
  \<open>old\<close> is what the stack holds where the local \<open>sat\<close> lies; \<open>uaddr\<close> are the bytes of the caller's
  record.
\<close>

definition atalk_getname :: "u8 list \<Rightarrow> atalk_sock \<Rightarrow> u8 list \<Rightarrow> int \<Rightarrow> int \<times> u8 list" where
  "atalk_getname old sock uaddr peer =
    (if sock_flag sock then (- ENOBUF, uaddr)
     else if peer \<noteq> 0 \<and> sk_state sock \<noteq> TCP_ESTABLISHED then (- ENOTCON, uaddr)
     else (24, atalk_bytes (fill_sat sock peer (atalk_at old)) @ drop 24 uaddr))"

text \<open>
  The harness: \<open>peer\<close> is read from the text of the test case, not from the public input, and its
  remainder by two has the sign of the dividend.  A failed \<open>calloc\<close> ends the run silently.
\<close>

definition atalk_harness :: "env \<Rightarrow> u8 list \<Rightarrow> 'z memstate_scheme \<Rightarrow> run option" where
  "atalk_harness E Data s = read_inputs E Data s (\<lambda>public_in secret_in s.
     if length public_in \<noteq> 28
     then Some (1, [Text ''Expected public len '', Num 28, Text '', was '', Num (int (length public_in)), Text '' bytes'', nl])
     else let sock = atalk_at public_in in
       case try_alloc s of (False, s) \<Rightarrow> Some (0, [])
       | (True, s) \<Rightarrow> do {
           _ \<leftarrow> guard (28 \<le> length Data);
           let uaddr = replicate 24 0;
               peer = sint (of_le (take 4 (drop 24 Data)) :: u32) smod 2;
               stack = fst (seed_and_fill E secret_in s);
               (r, uaddr) = atalk_getname (local_at stack (frame E) 24) sock uaddr peer in
           Some (0, [Num r, nl, Hex uaddr, nl])
         })"

text \<open>The assertions of cbmc\_harness.c: two calls, whose locals may start with different bytes.\<close>

definition atalk_cbmc_test :: "u8 list \<Rightarrow> u8 list \<Rightarrow> atalk_sock \<Rightarrow> int \<Rightarrow> bool" where
  "atalk_cbmc_test old1 old2 sock peer =
    (let (res1, out1) = atalk_getname old1 sock (replicate 24 0) peer;
         (res2, out2) = atalk_getname old2 sock (replicate 24 0) peer
     in res1 = res2 \<and> out1 = out2)"

end
