(* ===== verification/Small_Leak_Theorems.thy ===== *)
theory Small_Leak_Theorems
  imports Small_Leaks
begin

text \<open>
  Which part of the secret the replies of the small benchmarks depend on: two runs on the same
  public input give the same output exactly when the stated condition holds.
\<close>

section \<open>Concrete surroundings\<close>

text \<open>A text is taken as a secret of four bytes and the public input.\<close>

definition ex_parser :: "u8 list \<Rightarrow> json_value option" where
  "ex_parser txt = Some (json_object [(PUBLIC_KEY, json_string (b64 (drop 4 txt))), (SECRET_KEY, json_string (b64 (take 4 txt)))])"

definition ex_env :: env where
  "ex_env = \<lparr>json_parser = ex_parser, rand_fun = (\<lambda>seed n. seed + of_nat n), stack_bottom = 8, stack_top = 1000, frame = 960,
     old_stack = (\<lambda>a. 0)\<rparr>"

definition ex_memstate :: memstate where
  "ex_memstate = \<lparr>avail = None, repeatedVal = 0, rand_state = (0, 0)\<rparr>"

lemma ex_testcase: "length sec = 4 \<Longrightarrow> length pub < 1000 \<Longrightarrow> testcase ex_env (sec @ pub) pub sec"
  by (simp add: testcase_def ex_env_def ex_parser_def)

lemma ex_env_facts [simp]: "mem_ok ex_memstate" "filled ex_env n \<longleftrightarrow> n \<le> 48"
  by (auto simp: ex_memstate_def ex_env_def filled_def)

section \<open>underflow\<close>

lemma uint_of_int_u32: "uint (of_int i :: u32) = i mod 2 ^ 32"
  by (simp add: unsigned_of_int take_bit_eq_mod)

lemma underflow_eq:
  assumes "int64_ok ppos"
  shows "underflow h ppos =
    (if ppos \<le> 2 ^ 63 - 2 ^ 32 + 1024 then Some (if ppos > 1024 then h else 0) else None)"
proof -
  have r: "- (2 ^ 63) \<le> ppos" "ppos < 2 ^ 63" using assms by (simp_all add: int64_ok_def)
  define m where "m = (1024 - ppos) mod 2 ^ 32"
  have m: "0 \<le> m" "m < 2 ^ 32" by (simp_all add: m_def)
  obtain q where q: "1024 - ppos = 2 ^ 32 * q + m"
    unfolding m_def by (metis mult_div_mod_eq)
  have u: "uint (1024 - of_int ppos :: u32) = m"
    using uint_of_int_u32 [of "1024 - ppos"] by (simp add: m_def)
  consider "ppos \<le> 1004" | "1004 < ppos" "ppos \<le> 1024" | "1024 < ppos" "ppos \<le> 2 ^ 63 - 21" | "2 ^ 63 - 21 < ppos"
    by linarith
  then show ?thesis
  proof cases
    case 1
    then show ?thesis using r by (simp add: underflow_def int64_ok_def Let_def)
  next
    case 2
    then have "m = 1024 - ppos" by (simp add: m_def)
    then show ?thesis using 2 r
      by (simp add: underflow_def int64_ok_def Let_def u)
  next
    case 3
    have "ppos + m = 1024 - 2 ^ 32 * q" using q by simp
    moreover have "2 ^ 32 * q < 0" using q 3(1) m(1) by simp
    then have "q \<le> -1" by (simp add: mult_less_0_iff)
    moreover have "1024 - 2 ^ 32 * q < 2 ^ 63 \<longleftrightarrow> - (2 ^ 31 - 1) \<le> q" by simp linarith
    moreover have "ppos \<le> 2 ^ 63 - 2 ^ 32 + 1024 \<longleftrightarrow> - (2 ^ 31 - 1) \<le> q"
      using q m by simp linarith
    ultimately show ?thesis using 3 r m(1)
      by (simp add: underflow_def int64_ok_def Let_def u)
  next
    case 4
    then show ?thesis using r by (simp add: underflow_def int64_ok_def Let_def)
  qed
qed

lemma int64_ok_sint: "int64_ok (sint (w :: u64))"
  using sint_ge [of w] sint_lt [of w] by (simp add: int64_ok_def)

lemma sint_inj: "sint v = sint w \<longleftrightarrow> v = (w :: 'a::len word)"
  using signed_word_eqI [of v w] by blast

lemma take_of_le:
  assumes "length a = length b" and "length a * 8 = LENGTH('a)" and "of_le a = (of_le b :: 'a::len word)"
  shows "a = b"
proof (rule nth_equalityI)
  fix i assume i: "i < length a"
  show "a ! i = b ! i"
  proof (rule bit_word_eqI)
    fix k assume k: "k < LENGTH(8)"
    then have d: "(8 * i + k) div 8 = i" "(8 * i + k) mod 8 = k" "8 * i + k < LENGTH('a)"
      using i assms(2) by auto
    show "bit (a ! i) k = bit (b ! i) k"
      using bit_of_le [of a "8 * i + k", where 'a='a] bit_of_le [of b "8 * i + k", where 'a='a] d i assms(1,3) by simp
  qed
qed (rule assms(1))

text \<open>
  The output of the underflow benchmark depends on the secret exactly when the public
  position is above 1024: then it is the first four bytes of the secret.  (Beyond the given bound
  a sum overflows.)
\<close>

theorem underflow_leaks:
  fixes s :: "'z memstate_scheme"
  assumes "testcase E D1 pub sec1" and "testcase E D2 pub sec2" and "mem_ok s"
    and "length pub = 8" and "4 \<le> length sec1" and "4 \<le> length sec2"
    and "sint (of_le pub :: u64) \<le> 2 ^ 63 - 2 ^ 32 + 1024"
  shows "underflow_harness E D1 s \<noteq> None \<and>
    (underflow_harness E D1 s = underflow_harness E D2 s \<longleftrightarrow>
      sint (of_le pub :: u64) \<le> 1024 \<or> take 4 sec1 = take 4 sec2)"
proof -
  have run: "underflow_harness E D s =
      Some (0, [Num (if 1024 < sint (of_le pub :: u64) then sint (of_le (take 4 sec) :: u32) else 0), nl])"
    if "testcase E D pub sec" "4 \<le> length sec" for D sec
    using read_testcase [OF that(1) assms(3)] that(2) assms(4,7) underflow_eq [OF int64_ok_sint]
    by (simp add: underflow_harness_def Let_def)
  have "of_le (take 4 sec1) = (of_le (take 4 sec2) :: u32) \<longleftrightarrow> take 4 sec1 = take 4 sec2"
    using take_of_le [of "take 4 sec1" "take 4 sec2", where 'a=32] assms(5,6) by auto
  then show ?thesis using run [OF assms(1,5)] run [OF assms(2,6)] by (simp add: sint_inj)
qed

theorem underflow_leaks_witness:
  "underflow_harness ex_env ([1, 0, 0, 0] @ le 8 (2000 :: u64)) ex_memstate \<noteq>
    underflow_harness ex_env ([2, 0, 0, 0] @ le 8 (2000 :: u64)) ex_memstate"
  using underflow_leaks [OF ex_testcase ex_testcase ex_env_facts(1), of "[1, 0, 0, 0]" "le 8 (2000 :: u64)" "[2, 0, 0, 0]"]
  by (simp add: of_le_le)

text \<open>
  The assertion of cbmc\_harness.c passes the arguments in the wrong order: it compares runs whose
  positions are the two secrets.
\<close>

lemma underflow_cbmc_swapped:
  "underflow_cbmc_test ppos h1 h2 =
    Some (sint (ucast ppos :: u32) = 0 \<or> (1024 < sint h1 \<longleftrightarrow> 1024 < sint h2))"
proof -
  have i: "int64_ok (sint h)" "sint h \<le> 2 ^ 63 - 2 ^ 32 + 1024" for h :: u32
    using sint_ge [of h] sint_lt [of h] by (simp_all add: int64_ok_def)
  show ?thesis using i [of h1] i [of h2] by (auto simp: underflow_cbmc_test_def underflow_eq)
qed

section \<open>example\<close>

lemma example_run:
  fixes s :: "'z memstate_scheme"
  assumes "testcase E D pub sec" and "mem_ok s" and "length pub = 4" and "length sec = 4" and "length D < 65536"
  shows "example_main E D s = Some (0, if of_le pub > UINT32_MAX div 2 then [Num (sint (of_le sec :: u32)), nl] else print_boring)"
proof -
  obtain p pn q qn where r: "find_public_and_secret_inputs_checked (json_parser E) D s = Some (Ret (((Some p, pn), (Some q, qn)), s))"
    "unat pn = length pub" "take (unat pn) p = map Some pub" "unat qn = length sec" "take (unat qn) q = map Some sec"
    using testcase_inputs [OF assms(1,2)] by (elim exE conjE) (rule that; assumption)
  have "unat pn = unat (4 :: u32)" "unat qn = unat (4 :: u32)" using r(2,4) assms(3,4) by simp_all
  then have "pn = 4" "qn = 4" by (simp_all only: word_unat_eq_iff)
  then show ?thesis using r assms(5) by (simp add: example_main_def)
qed

text \<open>
  The output of the example depends on the secret exactly when the public number is above
  half of the largest: then it is the secret.
\<close>

theorem example_leaks:
  fixes s :: "'z memstate_scheme"
  assumes "testcase E D1 pub sec1" and "testcase E D2 pub sec2" and "mem_ok s"
    and "length pub = 4" and "length sec1 = 4" and "length sec2 = 4" and "length D1 < 65536" and "length D2 < 65536"
  shows "example_main E D1 s \<noteq> None \<and> (example_main E D1 s = example_main E D2 s \<longleftrightarrow>
      unat (of_le pub :: u32) < 2 ^ 31 \<or> sec1 = sec2)"
proof -
  have half: "of_le pub > UINT32_MAX div 2 \<longleftrightarrow> \<not> unat (of_le pub :: u32) < 2 ^ 31"
    by (simp add: UINT32_MAX_def word_less_nat_alt unat_div) linarith
  have "of_le sec1 = (of_le sec2 :: u32) \<longleftrightarrow> sec1 = sec2"
    using take_of_le [of sec1 sec2, where 'a=32] assms(5,6) by auto
  then show ?thesis
    using example_run [OF assms(1,3,4,5,7)] example_run [OF assms(2,3,4,6,8)] half
    by (simp add: sint_inj)
qed

theorem example_leaks_witness:
  "example_main ex_env ([1, 0, 0, 0] @ le 4 (2147483648 :: u32)) ex_memstate \<noteq>
    example_main ex_env ([2, 0, 0, 0] @ le 4 (2147483648 :: u32)) ex_memstate"
  using example_leaks [OF ex_testcase ex_testcase ex_env_facts(1), of "[1, 0, 0, 0]" "le 4 (2147483648 :: u32)" "[2, 0, 0, 0]"]
  by (simp add: of_le_le)

section \<open>atalk\<close>

lemma length_atalk_bytes: "length (res s) = 16 \<Longrightarrow> length (atalk_bytes s) = 24"
  by (simp add: atalk_bytes_def)

lemma res_fill_sat [simp]: "res (fill_sat sock peer sat) = res sat"
  by (simp add: fill_sat_def Let_def)

lemma nth_atalk_bytes:
  "length (res s) = 16 \<Longrightarrow> i < 24 \<Longrightarrow> atalk_bytes s ! i =
    (if i < 8 then ([dst_node s, src_node s, dst_port s, src_port s] @ le 4 (sk_state s)) ! i else res s ! (i - 8))"
  unfolding atalk_bytes_def append_assoc [symmetric] nth_append [of _ "res s"] by simp

interpretation atalk: leaky_copy "\<lambda>old. atalk_bytes (fill_sat sock peer (atalk_at old))" "{8..<24}" 24 for sock peer
proof unfold_locales
  fix r r' :: "u8 list" and i :: nat
  have l: "length r = 24 \<Longrightarrow> length (res (atalk_at r)) = 16" for r by (simp add: atalk_at_def)
  show "length r = 24 \<Longrightarrow> length (atalk_bytes (fill_sat sock peer (atalk_at r))) = 24"
    using l by (simp add: length_atalk_bytes)
  show "length r = 24 \<Longrightarrow> i \<in> {8..<24} \<Longrightarrow> atalk_bytes (fill_sat sock peer (atalk_at r)) ! i = r ! i"
    using l by (simp add: nth_atalk_bytes) (simp add: atalk_at_def)
  assume "length r = 24" "length r' = 24" "i < 24" "i \<notin> {8..<24}"
  then show "atalk_bytes (fill_sat sock peer (atalk_at r)) ! i = atalk_bytes (fill_sat sock peer (atalk_at r')) ! i"
    using l by (simp add: nth_atalk_bytes) (simp add: fill_sat_def Let_def)
qed auto

lemma atalk_getname_eq:
  "atalk_getname old sock uaddr peer =
    (if peer \<noteq> 0 \<and> sk_state sock \<noteq> TCP_ESTABLISHED then (- ENOTCON, uaddr)
     else (24, atalk_bytes (fill_sat sock peer (atalk_at old)) @ drop 24 uaddr))"
  by (simp add: atalk_getname_def sock_flag_def)

text \<open>
  \<open>atalk_getname\<close> hands out the 16 reserved bytes of a record on the stack: the callers can tell
  256 to 16 old contents of the stack apart, and the assertion of the model checker fails exactly for
  contents that differ there.  On the error path nothing of the stack is returned.
\<close>

theorem atalk_leaks:
  assumes "length uaddr = 24"
  shows "card ((\<lambda>old. atalk_getname old sock uaddr peer) ` {old. length old = 24}) =
      (if peer \<noteq> 0 \<and> sk_state sock \<noteq> TCP_ESTABLISHED then 1 else 256 ^ 16)
    \<and> (\<forall>old1 old2. length old1 = 24 \<and> length old2 = 24 \<longrightarrow>
        (atalk_cbmc_test old1 old2 sock peer \<longleftrightarrow>
          peer \<noteq> 0 \<and> sk_state sock \<noteq> TCP_ESTABLISHED \<or> (\<forall>i\<in>{8..<24}. old1 ! i = old2 ! i)))"
proof (cases "peer \<noteq> 0 \<and> sk_state sock \<noteq> TCP_ESTABLISHED")
  case True
  have "\<exists>old :: u8 list. length old = 24" by (rule exI [of _ "replicate 24 0"]) simp
  then have "(\<lambda>old. atalk_getname old sock uaddr peer) ` {old. length old = 24} = {(- ENOTCON, uaddr)}"
    using True by (simp add: atalk_getname_eq image_constant_conv)
  then show ?thesis using True by (simp add: atalk_cbmc_test_def atalk_getname_eq)
next
  case False
  let ?c = "\<lambda>old. atalk_bytes (fill_sat sock peer (atalk_at old))"
  have c: "atalk_getname old sock uaddr peer = (24, ?c old)" for old
    using False assms by (auto simp: atalk_getname_eq)
  have "card ((\<lambda>old. atalk_getname old sock uaddr peer) ` {old. length old = 24}) = card (?c ` {old. length old = 24})"
    by (rule card_image_eq) (simp add: c)
  then show ?thesis
    using False atalk.card_copies [of sock peer] atalk.copy_eq_iff [of _ _ sock peer]
    by (auto simp: atalk_cbmc_test_def atalk_getname_eq)
qed

definition ex_sock :: atalk_sock where
  "ex_sock = \<lparr>dst_node = 1, src_node = 2, dst_port = 3, src_port = 4, sk_state = 5, res = replicate 16 0\<rparr>"

theorem atalk_leaks_witness:
  "card ((\<lambda>old. atalk_getname old ex_sock (replicate 24 0) 0) ` {old. length old = 24}) = 256 ^ 16
    \<and> \<not> atalk_cbmc_test (replicate 24 0) (replicate 24 1) ex_sock 0"
proof -
  have "\<not> (\<forall>i\<in>{8..<24}. replicate 24 (0::u8) ! i = replicate 24 1 ! i)"
    by (rule notI, drule bspec [of _ _ 8]) simp_all
  then show ?thesis using atalk_leaks [of "replicate 24 0" ex_sock 0] by simp
qed

text \<open>
  C22: The whole harness, for test cases with the same public input of 28 bytes from whose text the same \<open>peer\<close> is taken:
  if \<open>peer\<close> is not 0 and the socket is not established, the call fails and the runs print the same.  Otherwise they print
  the same exactly when the patterns that the secrets fill the stack with agree.
\<close>

theorem atalk_harness_leaks:
  fixes s :: "'z memstate_scheme"
  assumes "testcase E D1 pub sec1" and "testcase E D2 pub sec2" and "mem_ok s" and "length pub = 28"
    and "28 \<le> length D1" and "28 \<le> length D2" and "filled E 24"
    and "sint (of_le (take 4 (drop 24 D1)) :: u32) smod 2 = peer" and "sint (of_le (take 4 (drop 24 D2)) :: u32) smod 2 = peer"
  shows "atalk_harness E D1 s \<noteq> None \<and>
    (atalk_harness E D1 s = atalk_harness E D2 s \<longleftrightarrow>
      peer \<noteq> 0 \<and> sk_state (atalk_at pub) \<noteq> TCP_ESTABLISHED \<or> stack_pattern E sec1 = stack_pattern E sec2)"
proof -
  let ?c = "\<lambda>sec. atalk_bytes (fill_sat (atalk_at pub) peer (atalk_at (repeated (stack_pattern E sec) 24)))"
  have run: "atalk_harness E D s = Some (0, if peer \<noteq> 0 \<and> sk_state (atalk_at pub) \<noteq> TCP_ESTABLISHED
      then [Num (- ENOTCON), nl, Hex (replicate 24 0), nl] else [Num 24, nl, Hex (?c sec), nl])"
    if "testcase E D pub sec" "28 \<le> length D" "sint (of_le (take 4 (drop 24 D)) :: u32) smod 2 = peer" for D sec
    using read_testcase [OF that(1) assms(3)] that(2,3) assms(3,4)
    by (simp add: atalk_harness_def Let_def atalk_getname_eq local_filled [OF assms(7)])
  have c: "?c sec1 = ?c sec2 \<longleftrightarrow> stack_pattern E sec1 = stack_pattern E sec2"
  proof
    assume "?c sec1 = ?c sec2"
    then have "\<forall>i\<in>{8..<24}. repeated (stack_pattern E sec1) 24 ! i = repeated (stack_pattern E sec2) 24 ! i"
      by (subst (asm) atalk.copy_eq_iff) simp_all
    then show "stack_pattern E sec1 = stack_pattern E sec2" by (intro repeated_inj [of 24 _ 8]) auto
  qed simp
  show ?thesis
  proof (cases "peer \<noteq> 0 \<and> sk_state (atalk_at pub) \<noteq> TCP_ESTABLISHED")
    case True
    then show ?thesis using run [OF assms(1,5,8)] run [OF assms(2,6,9)] by simp
  next
    case False
    have "atalk_harness E D1 s = Some (0, [Num 24, nl, Hex (?c sec1), nl])"
      "atalk_harness E D2 s = Some (0, [Num 24, nl, Hex (?c sec2), nl])"
      unfolding run [OF assms(1,5,8)] run [OF assms(2,6,9)] if_not_P [OF False] by (rule refl)+
    then show ?thesis using False c by auto
  qed
qed

theorem atalk_harness_leaks_witness:
  "\<exists>pub. atalk_harness ex_env ([1, 0, 0, 0] @ pub) ex_memstate \<noteq> atalk_harness ex_env ([2, 0, 0, 0] @ pub) ex_memstate"
proof -
  let ?pub = "[1, 2, 3, 4] @ le 4 (5 :: u32) @ replicate 20 0"
  have st: "sk_state (atalk_at ?pub) = TCP_ESTABLISHED"
    using of_le_le [of 4 "5 :: u32"] by (simp add: atalk_at_def TCP_ESTABLISHED_def)
  have p: "stack_pattern ex_env [1, 0, 0, 0] \<noteq> stack_pattern ex_env [2, 0, 0, 0]"
    by (simp add: stack_pattern_def ex_env_def secret_seed_of_le)
  show ?thesis
    using atalk_harness_leaks [OF ex_testcase ex_testcase ex_env_facts(1) _ _ _ _ refl, of "[1, 0, 0, 0]" ?pub "[2, 0, 0, 0]"] st p
    by (intro exI [of _ ?pub]) simp
qed

end
