(* ===== verification/Kernel_Replies.thy ===== *)
theory Kernel_Replies
  imports Harness
begin

text \<open>
  Two benchmarks of leakage\_test that are cut-down system calls: getsockopt, the Bluetooth SCO
  option of CVE-2011-1078, and sigaltstack, whose record for the old signal stack has padding.
  Both fill a record on the stack and copy all of it to the user.
\<close>

section \<open>getsockopt\<close>

record hci_conn =
  handle :: u16
  dev_class :: "u8 list"

record sco_conn =
  hcon :: hci_conn
  mtu :: u32

record sco_pinfo =
  flags :: u32
  setting :: u16
  conn :: sco_conn

text \<open>\<open>sk->sk_state\<close> is the first byte of the socket, which is the first byte of \<open>flags\<close>.\<close>

definition sco_sk_state :: "sco_pinfo \<Rightarrow> u8" where
  "sco_sk_state sk = ucast (flags sk)"

definition BT_CONNECTED :: u8 where
  "BT_CONNECTED = 1"

definition SCO_OPTIONS :: int where
  "SCO_OPTIONS = 1"

definition SCO_CONNINFO :: int where
  "SCO_CONNINFO = 2"

definition ENOPROTOOPT :: int where
  "ENOPROTOOPT = 42"

definition ENOTCONN :: int where
  "ENOTCONN = 57"

text \<open>\<open>min_t(unsigned int, x, y)\<close>.\<close>

definition min_t :: "u32 \<Rightarrow> u32 \<Rightarrow> u32" where
  "min_t x y = (if x < y then x else y)"

text \<open>\<open>copy_to_user(dest, src, len)\<close> never fails; a destination that is too short is overrun.\<close>

definition copy_to_user :: "u8 list \<Rightarrow> u8 list \<Rightarrow> nat \<Rightarrow> u8 list option" where
  "copy_to_user dest src n = (if n \<le> length dest \<and> n \<le> length src then Some (poke 0 (take n src) dest) else None)"

text \<open>\<open>cinfo\<close>: a 16-bit handle, three bytes of device class and one byte of padding.\<close>

definition fill_cinfo :: "hci_conn \<Rightarrow> u8 list \<Rightarrow> u8 list" where
  "fill_cinfo c cinfo = poke 2 (take 3 (dev_class c)) (poke 0 (le 2 (handle c)) cinfo)"

definition sco_sock_getsockopt_old ::
    "u8 list \<Rightarrow> sco_pinfo \<Rightarrow> int \<Rightarrow> u8 list \<Rightarrow> u32 \<Rightarrow> (int \<times> u8 list) option" where
  "sco_sock_getsockopt_old old sk optname optval optlen =
    (if optname = SCO_OPTIONS then
       if sco_sk_state sk \<noteq> BT_CONNECTED then Some (- ENOTCONN, optval)
       else let opts = le 2 (ucast (mtu (conn sk)) :: u16); len = min_t optlen 2 in do {
         optval \<leftarrow> copy_to_user optval opts (unat len);
         Some (0, optval)
       }
     else if optname = SCO_CONNINFO then
       if sco_sk_state sk \<noteq> BT_CONNECTED then Some (- ENOTCONN, optval)
       else let cinfo = fill_cinfo (hcon (conn sk)) old; len = min_t optlen 6 in do {
         optval \<leftarrow> copy_to_user optval cinfo (unat len);
         Some (0, optval)
       }
     else Some (- ENOPROTOOPT, optval))"

text \<open>
  The harness builds the socket from the public input: six bytes of connection, sixteen of
  channel, sixteen of socket and one byte for the option.  The calls of \<open>printf\<close> after the
  stack was filled may change what it holds: \<open>calls\<close> is their effect.
\<close>

definition sco_socket_at :: "u8 list \<Rightarrow> sco_pinfo" where
  "sco_socket_at bs =
    \<lparr>flags = of_le (take 4 (drop 22 bs)), setting = of_le (take 2 (drop 26 bs)),
     conn = \<lparr>hcon = \<lparr>handle = of_le (take 2 bs), dev_class = take 3 (drop 2 bs)\<rparr>, mtu = of_le (take 4 (drop 14 bs))\<rparr>\<rparr>"

definition getsockopt_harness :: "((nat \<Rightarrow> u8) \<Rightarrow> (nat \<Rightarrow> u8)) \<Rightarrow> env \<Rightarrow> u8 list \<Rightarrow> 'z memstate_scheme \<Rightarrow> run option" where
  "getsockopt_harness calls E Data s = read_inputs E Data s (\<lambda>public_in secret_in s.
     if length public_in < 39 then Some (1, [])
     else let stack = calls (fst (seed_and_fill E secret_in s)); optlen = 80 in do {
       (r, optval) \<leftarrow> sco_sock_getsockopt_old (local_at stack (frame E) 6) (sco_socket_at public_in)
         (uint (public_in ! 38)) (replicate 80 0) optlen;
       Some (0, [Text ''added seed'', nl, Text ''filled stack'', nl, Text ''about to call func'', nl,
         Text ''called func, writing: '', Num (4 + sint optlen), nl, Raw (le 4 (of_int r :: u32)), Raw optval])
     })"

section \<open>sigaltstack\<close>

definition SS_ONSTACK :: u32 where
  "SS_ONSTACK = 1"

definition SS_DISABLE :: u32 where
  "SS_DISABLE = 2"

definition MINSIGSTKSZ :: u64 where
  "MINSIGSTKSZ = 2048"

definition EPERM :: int where
  "EPERM = 1"

definition ENOMEM :: int where
  "ENOMEM = 12"

definition EINVAL :: int where
  "EINVAL = 22"

record task_struct =
  sas_ss_sp :: u64
  sas_ss_size :: u64

record stack_t =
  ss_sp :: u64
  ss_flags :: u32
  ss_size :: u64

definition on_sig_stack :: "task_struct \<Rightarrow> u64 \<Rightarrow> bool" where
  "on_sig_stack current sp \<longleftrightarrow> sp - sas_ss_sp current < sas_ss_size current"

definition sas_ss_flags :: "task_struct \<Rightarrow> u64 \<Rightarrow> u32" where
  "sas_ss_flags current sp = (if sas_ss_size current = 0 then SS_DISABLE else if on_sig_stack current sp then SS_ONSTACK else 0)"

text \<open>The 24 bytes of \<open>oss\<close>: pointer, flags, four bytes of padding, size.\<close>

definition fill_oss :: "task_struct \<Rightarrow> u64 \<Rightarrow> u8 list \<Rightarrow> u8 list" where
  "fill_oss current sp oss =
    poke 8 (le 4 (sas_ss_flags current sp)) (poke 16 (le 8 (sas_ss_size current)) (poke 0 (le 8 (sas_ss_sp current)) oss))"

text \<open>
  The part of \<open>do_sigaltstack\<close> that takes a new stack; Inl is the jump to \<open>out\<close>.
\<close>

definition new_sig_stack :: "stack_t \<Rightarrow> u64 \<Rightarrow> task_struct \<Rightarrow> int + task_struct" where
  "new_sig_stack uss sp current =
    (if on_sig_stack current sp then Inl (- EPERM)
     else if ss_flags uss \<noteq> SS_DISABLE \<and> ss_flags uss \<noteq> SS_ONSTACK \<and> ss_flags uss \<noteq> 0 then Inl (- EINVAL)
     else if ss_flags uss = SS_DISABLE then Inr (current\<lparr>sas_ss_sp := 0, sas_ss_size := 0\<rparr>)
     else if ss_size uss < MINSIGSTKSZ then Inl (- ENOMEM)
     else Inr (current\<lparr>sas_ss_sp := ss_sp uss, sas_ss_size := ss_size uss\<rparr>))"

text \<open>
  \<open>copy_to_user\<close> of this benchmark prints the bytes, followed by a newline.  A NULL \<open>uss\<close> leaves the
  stack alone; \<open>uoss\<close> says whether the caller asks for the old one.
\<close>

definition do_sigaltstack ::
    "u8 list \<Rightarrow> stack_t option \<Rightarrow> bool \<Rightarrow> u64 \<Rightarrow> task_struct \<Rightarrow> int \<times> task_struct \<times> item list" where
  "do_sigaltstack old uss uoss sp current =
    (let oss = (if uoss then fill_oss current sp old else old) in
     case (case uss of None \<Rightarrow> Inr current | Some uss \<Rightarrow> new_sig_stack uss sp current) of
       Inl error \<Rightarrow> (error, current, [])
     | Inr current \<Rightarrow> (0, current, if uoss then [Raw oss, nl] else []))"

text \<open>
  The harness; the addresses of the static \<open>uoss\<close> and of the new stack are arguments.  The copy
  of the input into the block of \<open>malloc\<close> is not used further.
\<close>

definition sigaltstack_harness :: "u64 \<Rightarrow> u64 \<Rightarrow> env \<Rightarrow> u8 list \<Rightarrow> 'z memstate_scheme \<Rightarrow> run option" where
  "sigaltstack_harness uoss_addr stack_addr E Data s = read_inputs E Data s (\<lambda>public_in secret_in s.
     if length public_in < 4 then Some (1, [])
     else let s = SEED_MEMORY (rand_fun E) (secret_seed secret_in) s; n = length public_in - 4 in do {
       (stack, s) \<leftarrow> wrap_malloc (rand_fun E) (of_nat n) s;
       stack \<leftarrow> (case stack of None \<Rightarrow> if n = 0 then Some [] else None
         | Some m \<Rightarrow> memcpy_at m 0 (map Some (drop 4 public_in)));
       let uss = \<lparr>ss_sp = stack_addr, ss_flags = of_le (take 4 public_in), ss_size = of_nat n\<rparr>;
           current = \<lparr>sas_ss_sp = uoss_addr, sas_ss_size = 1024\<rparr>;
           filled = fst (FILL_STACK (rand_fun E) (stack_bottom E) (stack_top E) s (old_stack E));
           (error, current, out) = do_sigaltstack (local_at filled (frame E) 24) (Some uss) True 0 current in
       Some (0, out)
     })"

end
