(* ===== verification/Kernel_Reply_Theorems.thy ===== *)
theory Kernel_Reply_Theorems
  imports Kernel_Replies Small_Leak_Theorems
begin

text \<open>
  What the replies of the two system calls give away, and what \<open>do_sigaltstack\<close> does to the state
  of the task.
\<close>

section \<open>getsockopt\<close>

lemma nth_fill_cinfo:
  "length old = 6 \<Longrightarrow> length (dev_class c) = 3 \<Longrightarrow> i < 6 \<Longrightarrow>
    fill_cinfo c old ! i = (if i < 2 then le 2 (handle c) ! i else if i < 5 then dev_class c ! (i - 2) else old ! i)"
  by (auto simp: fill_cinfo_def nth_poke)

lemma length_fill_cinfo: "length old = 6 \<Longrightarrow> length (fill_cinfo c old) = 6"
  by (simp add: fill_cinfo_def)

interpretation cinfo: leaky_copy "fill_cinfo \<lparr>handle = h, dev_class = [a, b, c]\<rparr>" "{5}" 6 for h a b c
proof unfold_locales
  fix r r' :: "u8 list" and i :: nat
  show "length r = 6 \<Longrightarrow> length (fill_cinfo \<lparr>handle = h, dev_class = [a, b, c]\<rparr> r) = 6" by (rule length_fill_cinfo)
  show "length r = 6 \<Longrightarrow> i \<in> {5} \<Longrightarrow> fill_cinfo \<lparr>handle = h, dev_class = [a, b, c]\<rparr> r ! i = r ! i"
    by (simp add: nth_fill_cinfo)
  assume "length r = 6" "length r' = 6" "i < 6" "i \<notin> {5}"
  then show "fill_cinfo \<lparr>handle = h, dev_class = [a, b, c]\<rparr> r ! i = fill_cinfo \<lparr>handle = h, dev_class = [a, b, c]\<rparr> r' ! i"
    by (simp add: nth_fill_cinfo)
qed auto

lemma poke_0_inj: "length a = length b \<Longrightarrow> poke 0 a m = poke 0 b m \<longleftrightarrow> a = b"
  by (simp add: poke_def)

text \<open>
  C23: The reply to a SCO option depends on the old contents of the stack exactly when the socket is
  connected, the option is the connection information and the caller has room for all six bytes: then
  the padding byte at the end is handed out.
\<close>

theorem getsockopt_leaks:
  assumes "length (dev_class (hcon (conn sk))) = 3" and "6 \<le> length optval" and "length old1 = 6" and "length old2 = 6"
  shows "sco_sock_getsockopt_old old1 sk optname optval optlen \<noteq> None
    \<and> (sco_sock_getsockopt_old old1 sk optname optval optlen = sco_sock_getsockopt_old old2 sk optname optval optlen \<longleftrightarrow>
        \<not> (sco_sk_state sk = BT_CONNECTED \<and> optname = SCO_CONNINFO \<and> 6 \<le> unat optlen) \<or> old1 ! 5 = old2 ! 5)"
proof (cases "optname = SCO_CONNINFO \<and> sco_sk_state sk = BT_CONNECTED")
  case True
  let ?c = "hcon (conn sk)" and ?n = "unat (min_t optlen 6)"
  obtain a b d where d: "dev_class ?c = [a, b, d]"
    using assms(1) by (auto simp: numeral_3_eq_3 length_Suc_conv)
  then have c: "?c = \<lparr>handle = handle ?c, dev_class = [a, b, d]\<rparr>" by simp
  have n: "?n = min (unat optlen) 6" by (simp add: min_t_def word_less_nat_alt)
  have run: "sco_sock_getsockopt_old old sk optname optval optlen = Some (0, poke 0 (take ?n (fill_cinfo ?c old)) optval)"
    if "length old = 6" for old
    using True assms(2) that length_fill_cinfo [OF that, of ?c] n
    by (simp add: sco_sock_getsockopt_old_def SCO_CONNINFO_def SCO_OPTIONS_def copy_to_user_def Let_def)
  have "take ?n (fill_cinfo ?c old1) = take ?n (fill_cinfo ?c old2) \<longleftrightarrow> \<not> 6 \<le> unat optlen \<or> old1 ! 5 = old2 ! 5"
  proof (cases "6 \<le> unat optlen")
    case True
    then show ?thesis
      using cinfo.copy_eq_iff [OF assms(3,4), of "handle ?c" a b d] n length_fill_cinfo [OF assms(3), of ?c]
        length_fill_cinfo [OF assms(4), of ?c] c by simp
  next
    case False
    have "take ?n (fill_cinfo ?c old1) = take ?n (fill_cinfo ?c old2)"
      by (rule nth_equalityI) (use False n assms in \<open>auto simp: length_fill_cinfo nth_fill_cinfo\<close>)
    then show ?thesis using False by simp
  qed
  then show ?thesis
    using run [OF assms(3)] run [OF assms(4)] True by (simp add: poke_0_inj length_fill_cinfo assms(3,4))
next
  case False
  have "unat (min_t optlen 2) \<le> 2" by (simp add: min_t_def word_less_nat_alt)
  then have "copy_to_user optval (le 2 (ucast (mtu (conn sk)) :: u16)) (unat (min_t optlen 2)) \<noteq> None"
    using assms(2) by (simp add: copy_to_user_def)
  then show ?thesis using False by (auto simp: sco_sock_getsockopt_old_def Let_def)
qed

definition ex_socket :: sco_pinfo where
  "ex_socket = \<lparr>flags = 1, setting = 0, conn = \<lparr>hcon = \<lparr>handle = 7, dev_class = [1, 2, 3]\<rparr>, mtu = 60\<rparr>\<rparr>"

theorem getsockopt_leaks_witness:
  "sco_sock_getsockopt_old (replicate 6 0) ex_socket SCO_CONNINFO (replicate 80 0) 80 \<noteq>
    sco_sock_getsockopt_old (replicate 6 1) ex_socket SCO_CONNINFO (replicate 80 0) 80"
  using getsockopt_leaks [of ex_socket "replicate 80 0" "replicate 6 0" "replicate 6 1" SCO_CONNINFO 80]
  by (simp add: ex_socket_def sco_sk_state_def BT_CONNECTED_def)

section \<open>sigaltstack\<close>

lemma nth_fill_oss:
  "length old = 24 \<Longrightarrow> i < 24 \<Longrightarrow> fill_oss current sp old ! i =
    (if i < 8 then le 8 (sas_ss_sp current) ! i else if i < 12 then le 4 (sas_ss_flags current sp) ! (i - 8)
     else if i < 16 then old ! i else le 8 (sas_ss_size current) ! (i - 16))"
  by (simp add: fill_oss_def nth_poke)

interpretation oss: leaky_copy "fill_oss current sp" "{12..<16}" 24 for current sp
  by unfold_locales (auto simp: fill_oss_def nth_poke)

text \<open>What a request for a new stack must satisfy, and what a task keeps: its stack is disabled or large enough.\<close>

definition acceptable :: "stack_t option \<Rightarrow> u64 \<Rightarrow> task_struct \<Rightarrow> bool" where
  "acceptable uss sp current \<longleftrightarrow> (case uss of None \<Rightarrow> True | Some u \<Rightarrow> \<not> on_sig_stack current sp
     \<and> ss_flags u \<in> {0, SS_ONSTACK, SS_DISABLE} \<and> (ss_flags u = SS_DISABLE \<or> MINSIGSTKSZ \<le> ss_size u))"

definition stack_ok :: "task_struct \<Rightarrow> bool" where
  "stack_ok task \<longleftrightarrow> sas_ss_size task = 0 \<or> MINSIGSTKSZ \<le> sas_ss_size task"

lemma sigaltstack_accepts:
  "do_sigaltstack old uss uoss sp current = (error, current', out) \<Longrightarrow> error = 0 \<longleftrightarrow> acceptable uss sp current"
  by (auto simp: do_sigaltstack_def new_sig_stack_def acceptable_def EPERM_def EINVAL_def ENOMEM_def SS_DISABLE_def SS_ONSTACK_def
      Let_def not_less split: if_splits option.splits)

lemma sigaltstack_refuses:
  "do_sigaltstack old uss uoss sp current = (error, current', out) \<Longrightarrow> error \<noteq> 0 \<Longrightarrow>
    error \<in> {- EPERM, - EINVAL, - ENOMEM} \<and> current' = current \<and> out = []"
  by (auto simp: do_sigaltstack_def new_sig_stack_def Let_def split: if_splits option.splits)

lemma sigaltstack_task:
  "do_sigaltstack old uss uoss sp current = (0, current', out) \<Longrightarrow>
    current' = (case uss of None \<Rightarrow> current | Some u \<Rightarrow> if ss_flags u = SS_DISABLE then \<lparr>sas_ss_sp = 0, sas_ss_size = 0\<rparr>
      else \<lparr>sas_ss_sp = ss_sp u, sas_ss_size = ss_size u\<rparr>)"
  by (cases current) (auto simp: do_sigaltstack_def new_sig_stack_def EPERM_def EINVAL_def ENOMEM_def Let_def
      split: if_splits option.splits)

lemma sigaltstack_reports:
  "do_sigaltstack old uss uoss sp current = (0, current', out) \<Longrightarrow> out = (if uoss then [Raw (fill_oss current sp old), nl] else [])"
  by (auto simp: do_sigaltstack_def new_sig_stack_def EPERM_def EINVAL_def ENOMEM_def Let_def split: if_splits option.splits sum.splits)

lemma fill_oss_bytes:
  assumes "length old = 24"
  shows "fill_oss current sp old =
    le 8 (sas_ss_sp current) @ le 4 (sas_ss_flags current sp) @ take 4 (drop 12 old) @ le 8 (sas_ss_size current)"
proof (rule nth_equalityI)
  show "length (fill_oss current sp old) =
      length (le 8 (sas_ss_sp current) @ le 4 (sas_ss_flags current sp) @ take 4 (drop 12 old) @ le 8 (sas_ss_size current))"
    using assms by (simp add: fill_oss_def)
  show "fill_oss current sp old ! i =
      (le 8 (sas_ss_sp current) @ le 4 (sas_ss_flags current sp) @ take 4 (drop 12 old) @ le 8 (sas_ss_size current)) ! i"
    if "i < length (fill_oss current sp old)" for i
  proof -
    have "i < 24" using that assms by (simp add: fill_oss_def)
    then show ?thesis unfolding nth_fill_oss [OF assms \<open>i < 24\<close>] using assms by (auto simp: nth_append)
  qed
qed

lemma sigaltstack_stack_ok:
  assumes "do_sigaltstack old uss uoss sp current = (error, current', out)" and "stack_ok current"
  shows "stack_ok current'"
proof (cases "error = 0")
  case True
  then show ?thesis
    using sigaltstack_accepts [OF assms(1)] sigaltstack_task [OF assms(1) [unfolded True]] assms(2)
    by (auto simp: acceptable_def stack_ok_def split: option.splits if_splits)
qed (use sigaltstack_refuses [OF assms(1)] assms(2) in simp)


definition ex_uss :: stack_t where
  "ex_uss = \<lparr>ss_sp = 0x1000, ss_flags = 0, ss_size = 4096\<rparr>"

definition ex_task :: task_struct where
  "ex_task = \<lparr>sas_ss_sp = 0x8000, sas_ss_size = 2048\<rparr>"


text \<open>
  When \<open>do_sigaltstack\<close> reports the old stack, it hands out four bytes that it never wrote: there are
  256 to 4 replies for the possible old contents of its stack frame, and a single one in every other
  case.
\<close>

theorem sigaltstack_leaks:
  "card ((\<lambda>old. do_sigaltstack old uss uoss sp current) ` {old. length old = 24}) =
    (if uoss \<and> fst (do_sigaltstack (replicate 24 0) uss uoss sp current) = 0 then 256 ^ 4 else 1)"
proof (cases "uoss \<and> fst (do_sigaltstack (replicate 24 0) uss uoss sp current) = 0")
  case True
  then obtain c where c: "(case uss of None \<Rightarrow> Inr current | Some uss \<Rightarrow> new_sig_stack uss sp current) = Inr c"
    by (auto simp: do_sigaltstack_def new_sig_stack_def EPERM_def EINVAL_def ENOMEM_def Let_def split: option.splits if_splits)
  have d: "do_sigaltstack old uss uoss sp current = (0, c, [Raw (fill_oss current sp old), nl])" for old
    using True c by (simp add: do_sigaltstack_def)
  have "card ((\<lambda>old. do_sigaltstack old uss uoss sp current) ` {old. length old = 24}) =
      card (fill_oss current sp ` {old. length old = 24})"
    by (rule card_image_eq) (simp add: d)
  then show ?thesis unfolding if_P [OF True] using oss.card_copies [of current sp] by simp
next
  case False
  have "do_sigaltstack old uss uoss sp current = do_sigaltstack (replicate 24 0) uss uoss sp current" for old
    using False by (auto simp: do_sigaltstack_def Let_def split: sum.splits)
  then have "card ((\<lambda>old. do_sigaltstack old uss uoss sp current) ` {old. length old = 24}) =
      card ((\<lambda>old. True) ` {old :: u8 list. length old = 24})"
    by (intro card_image_eq) metis
  moreover have "\<exists>old :: u8 list. length old = 24" by (rule exI [of _ "replicate 24 0"]) simp
  ultimately show ?thesis unfolding if_not_P [OF False] by (simp add: image_constant_conv)
qed

theorem sigaltstack_leaks_witness:
  "card ((\<lambda>old. do_sigaltstack old (Some ex_uss) True 0 ex_task) ` {old. length old = 24}) = 256 ^ 4"
proof -
  have "fst (do_sigaltstack (replicate 24 0) (Some ex_uss) True 0 ex_task) = 0"
    by (simp add: do_sigaltstack_def new_sig_stack_def ex_uss_def ex_task_def on_sig_stack_def MINSIGSTKSZ_def SS_DISABLE_def
        word_less_nat_alt)
  then show ?thesis using sigaltstack_leaks [of "Some ex_uss" True 0 ex_task] by simp
qed

lemma high_bytes:
  fixes v w :: u64
  shows "(\<forall>j<4. ucast (drop_bit (32 + 8 * j) v) = (ucast (drop_bit (32 + 8 * j) w) :: u8)) \<longleftrightarrow> drop_bit 32 v = drop_bit 32 w"
proof
  assume a: "\<forall>j<4. ucast (drop_bit (32 + 8 * j) v) = (ucast (drop_bit (32 + 8 * j) w) :: u8)"
  show "drop_bit 32 v = drop_bit 32 w"
  proof (rule bit_word_eqI)
    fix k assume "k < LENGTH(64)"
    show "bit (drop_bit 32 v) k = bit (drop_bit 32 w) k"
    proof (cases "k < 32")
      case True
      then have "k div 8 < 4" by simp
      with a have e: "ucast (drop_bit (32 + 8 * (k div 8)) v) = (ucast (drop_bit (32 + 8 * (k div 8)) w) :: u8)" by blast
      have b: "bit (ucast (drop_bit (32 + 8 * (k div 8)) x) :: u8) (k mod 8) = bit x (32 + k)" for x :: u64
      proof -
        have "k mod 8 < LENGTH(8)" by simp
        moreover have "k mod 8 + (32 + 8 * (k div 8)) = 32 + k" by simp
        ultimately show ?thesis by (simp only: bit_ucast_iff bit_drop_bit_eq comp_def) (simp add: add.commute)
      qed
      have "bit v (32 + k) = bit w (32 + k)" using e b by metis
      then show ?thesis by (simp add: bit_simps)
    next
      case False
      then show ?thesis by (auto simp: bit_simps dest: bit_imp_le_length)
    qed
  qed
next
  assume a: "drop_bit 32 v = drop_bit 32 w"
  then have "drop_bit (8 * j) (drop_bit 32 v) = drop_bit (8 * j) (drop_bit 32 w)" for j by simp
  then have "drop_bit (32 + 8 * j) v = drop_bit (32 + 8 * j) w" for j by (simp add: add.commute)
  then show "\<forall>j<4. ucast (drop_bit (32 + 8 * j) v) = (ucast (drop_bit (32 + 8 * j) w) :: u8)" by simp
qed

lemma repeated_upper: "j < 4 \<Longrightarrow> repeated v 24 ! (12 + j) = ucast (drop_bit (32 + 8 * j) v)"
  using mod_less [of "4 + j" 8] mod_add_self1 [of 8 "4 + j"] by (simp add: repeated_def distrib_left)

text \<open>
  The whole harness: a run with a known flag and a large enough stack prints the padding, so that two runs
  on the same public input agree exactly when the upper halves of the patterns that fill the stack agree.
\<close>

theorem sigaltstack_harness_leaks:
  fixes s :: "'z memstate_scheme"
  assumes "testcase E D1 pub sec1" and "testcase E D2 pub sec2" and "mem_ok s" and "filled E 24"
    and "2048 + 4 \<le> length pub" and "of_le (take 4 pub) \<in> {0, SS_ONSTACK}" and "uoss_addr \<le> 2 ^ 63" and "uoss_addr \<noteq> 0"
    and "repeatedVal (SEED_MEMORY (rand_fun E) (secret_seed sec1) s) \<noteq> 0"
    and "repeatedVal (SEED_MEMORY (rand_fun E) (secret_seed sec2) s) \<noteq> 0"
  shows "sigaltstack_harness uoss_addr stack_addr E D1 s \<noteq> None
    \<and> (sigaltstack_harness uoss_addr stack_addr E D1 s = sigaltstack_harness uoss_addr stack_addr E D2 s \<longleftrightarrow>
        drop_bit 32 (stack_pattern E sec1) = drop_bit 32 (stack_pattern E sec2))"
proof -
  let ?cur = "\<lparr>sas_ss_sp = uoss_addr, sas_ss_size = 1024\<rparr>" and ?old = "\<lambda>sec. repeated (stack_pattern E sec) 24"
  have short: "length pub < 1600000000" using assms(1) by (simp add: testcase_def)
  have n: "unat (of_nat (length pub - 4) :: u64) = length pub - 4" using short by (intro unat_of_nat_u64) simp
  have on: "\<not> on_sig_stack ?cur 0"
  proof -
    have u: "uint uoss_addr \<le> 2 ^ 63" using assms(7) by (simp add: word_le_def)
    have "uint (- uoss_addr) = (- uint uoss_addr) mod 2 ^ 64" by (simp add: uint_word_ariths)
    also have "\<dots> = 2 ^ 64 - uint uoss_addr" using assms(8) u by (simp add: zmod_zminus1_eq_if uint_0_iff)
    finally have "1024 \<le> uint (- uoss_addr)" using u by simp
    then show ?thesis by (simp add: on_sig_stack_def word_less_def)
  qed
  have run: "sigaltstack_harness uoss_addr stack_addr E D s = Some (0, [Raw (fill_oss ?cur 0 (?old sec)), nl])"
    if t: "testcase E D pub sec" and v: "repeatedVal (SEED_MEMORY (rand_fun E) (secret_seed sec) s) \<noteq> 0" for D sec
  proof -
    let ?s = "SEED_MEMORY (rand_fun E) (secret_seed sec) s"
    have ok: "mem_ok ?s"
      using assms(3) by (simp add: SEED_MEMORY_def initRepeatedVal_def draw_pattern_def)
    obtain raw where w: "wrap_malloc (rand_fun E) (of_nat (length pub - 4)) ?s = Some (Some raw, ?s)" "length raw = length pub - 4 + 8"
      using wrap_malloc_ok [OF ok, of "of_nat (length pub - 4)" "rand_fun E"] v n short by auto
    have l: "local_at (fst (FILL_STACK (rand_fun E) (stack_bottom E) (stack_top E) ?s (old_stack E))) (frame E) 24 = ?old sec"
      using local_filled [OF assms(4), of sec s] by (simp add: seed_and_fill_def)
    have i: "new_sig_stack \<lparr>ss_sp = stack_addr, ss_flags = of_le (take 4 pub), ss_size = of_nat (length pub - 4)\<rparr> 0 ?cur =
        Inr \<lparr>sas_ss_sp = stack_addr, sas_ss_size = of_nat (length pub - 4)\<rparr>"
      using on assms(5,6) n by (auto simp: new_sig_stack_def SS_ONSTACK_def SS_DISABLE_def MINSIGSTKSZ_def word_less_nat_alt)
    show ?thesis using read_testcase [OF t assms(3)] assms(5) w l i
      by (simp add: sigaltstack_harness_def do_sigaltstack_def Let_def memcpy_at_def)
  qed
  have "fill_oss ?cur 0 (?old sec1) = fill_oss ?cur 0 (?old sec2) \<longleftrightarrow> (\<forall>i\<in>{12..<16}. ?old sec1 ! i = ?old sec2 ! i)"
    by (rule oss.copy_eq_iff) simp_all
  also have "\<dots> \<longleftrightarrow> (\<forall>j<4. ?old sec1 ! (12 + j) = ?old sec2 ! (12 + j))"
  proof (intro iffI allI ballI impI)
    fix i :: nat assume "\<forall>j<4. ?old sec1 ! (12 + j) = ?old sec2 ! (12 + j)" "i \<in> {12..<16}"
    then show "?old sec1 ! i = ?old sec2 ! i" by (auto dest: spec [of _ "i - 12"])
  qed auto
  also have "\<dots> \<longleftrightarrow> drop_bit 32 (stack_pattern E sec1) = drop_bit 32 (stack_pattern E sec2)"
    by (simp add: repeated_upper high_bytes [symmetric])
  finally show ?thesis using run [OF assms(1,9)] run [OF assms(2,10)] by simp
qed

theorem sigaltstack_harness_leaks_witness:
  "\<exists>pub. sigaltstack_harness 0x8000 0x1000 ex_env ([1, 0, 0, 0] @ pub) ex_memstate \<noteq>
    sigaltstack_harness 0x8000 0x1000 ex_env ([2, 0, 0, 0] @ pub) ex_memstate"
proof -
  let ?pub = "replicate 2052 0 :: u8 list"
  have t: "testcase ex_env (sec @ ?pub) ?pub sec" if "length sec = 4" for sec
    using that by (simp add: testcase_def ex_env_def ex_parser_def)
  have p: "drop_bit 32 (stack_pattern ex_env [1, 0, 0, 0]) \<noteq> drop_bit 32 (stack_pattern ex_env [2, 0, 0, 0])"
    by (simp add: stack_pattern_def ex_env_def secret_seed_of_le)
  have v: "repeatedVal (SEED_MEMORY (rand_fun ex_env) (secret_seed [b, 0, 0, 0]) ex_memstate) \<noteq> 0" if "b = 1 \<or> b = 2" for b
    using that by (auto simp: SEED_MEMORY_def initRepeatedVal_def draw_pattern_def ex_env_def secret_seed_of_le)
  have f: "of_le (take 4 ?pub) \<in> {0, SS_ONSTACK}" by (simp add: numeral_eq_Suc)
  show ?thesis
    using sigaltstack_harness_leaks [OF t t ex_env_facts(1), of "[1, 0, 0, 0]" "[2, 0, 0, 0]" "0x8000" "0x1000"] f p v
    by (intro exI [of _ ?pub]) (simp add: word_le_nat_alt)
qed

end
