(* ===== verification/Netlink.thy ===== *)
theory Netlink
  imports Harness
begin

text \<open>
  tcf\_fill\_node, a cut-down copy of the kernel's traffic control dump: socket buffers, netlink
  attributes, statistics, the dumps of actions, extended matches and the basic classifier, and
  \<open>tcf_fill_node\<close>, which never writes two bytes of the message it sends.  The buffer
  is its block of memory with the fields \<open>len\<close>, \<open>tail\<close> and \<open>end\<close>; a pointer into it is
  its offset from the start of the block.  None stands for an access outside the block, or for
  the end of the program by \<open>abort\<close>.  Sums of \<open>int\<close> wrap around as they do on the machine.
\<close>

section \<open>Socket buffers\<close>

record sk_buff =
  sk_len :: u32
  data_len :: u32
  sk_tail :: u32
  sk_end :: u32
  block :: "u8 list"
  data_off :: nat

definition skb_is_nonlinear :: "sk_buff \<Rightarrow> bool" where
  "skb_is_nonlinear skb \<longleftrightarrow> data_len skb \<noteq> 0"

definition skb_tailroom :: "sk_buff \<Rightarrow> u32" where
  "skb_tailroom skb = (if skb_is_nonlinear skb then 0 else sk_end skb - sk_tail skb)"

definition skb_tail_pointer :: "sk_buff \<Rightarrow> nat" where
  "skb_tail_pointer skb = unat (sk_tail skb)"

definition skb_reset_tail_pointer :: "sk_buff \<Rightarrow> sk_buff" where
  "skb_reset_tail_pointer skb = skb\<lparr>sk_tail := of_nat (data_off skb)\<rparr>"

definition skb_set_tail_pointer :: "u32 \<Rightarrow> sk_buff \<Rightarrow> sk_buff" where
  "skb_set_tail_pointer offset skb = (let skb = skb_reset_tail_pointer skb in skb\<lparr>sk_tail := sk_tail skb + offset\<rparr>)"

definition skb_trim_unchecked :: "u32 \<Rightarrow> sk_buff \<Rightarrow> sk_buff" where
  "skb_trim_unchecked len skb = (if data_len skb \<noteq> 0 then skb else skb_set_tail_pointer len (skb\<lparr>sk_len := len\<rparr>))"

definition skb_trim :: "u32 \<Rightarrow> sk_buff \<Rightarrow> sk_buff" where
  "skb_trim len skb = (if sk_len skb > len then skb_trim_unchecked len skb else skb)"

definition skb_put :: "u32 \<Rightarrow> sk_buff \<Rightarrow> (nat \<times> sk_buff) option" where
  "skb_put len skb =
    (let tmp = skb_tail_pointer skb; skb = skb\<lparr>sk_tail := sk_tail skb + len, sk_len := sk_len skb + len\<rparr>
     in if sk_tail skb > sk_end skb then None else Some (tmp, skb))"

text \<open>Writing \<open>bs\<close> at the offset \<open>p\<close>.\<close>

definition store :: "nat \<Rightarrow> u8 list \<Rightarrow> sk_buff \<Rightarrow> sk_buff option" where
  "store p bs skb = (if p + length bs \<le> length (block skb) then Some (skb\<lparr>block := poke p bs (block skb)\<rparr>) else None)"

text \<open>The size of a \<open>memset\<close> or \<open>memcpy\<close>: an \<open>int\<close> that becomes a \<open>size_t\<close>.\<close>

definition int_size :: "u32 \<Rightarrow> nat" where
  "int_size n = unat (scast n :: u64)"

section \<open>Netlink messages and attributes\<close>

definition NLMSG_ALIGN :: "u32 \<Rightarrow> u32" where
  "NLMSG_ALIGN len = (len + 3) AND NOT 3"

definition NLMSG_LENGTH :: "u32 \<Rightarrow> u32" where
  "NLMSG_LENGTH len = len + NLMSG_ALIGN (NLMSG_ALIGN 16)"

definition NLMSG_SPACE :: "u32 \<Rightarrow> u32" where
  "NLMSG_SPACE len = NLMSG_ALIGN (NLMSG_LENGTH len)"

text \<open>The header: length, type, flags, sequence number and process.\<close>

definition nlmsg_put :: "u32 \<Rightarrow> u32 \<Rightarrow> u32 \<Rightarrow> u32 \<Rightarrow> u32 \<Rightarrow> sk_buff \<Rightarrow> (nat \<times> sk_buff) option" where
  "nlmsg_put pid seq type len flags skb = (let size = NLMSG_LENGTH len in do {
     (nlh, skb) \<leftarrow> skb_put (NLMSG_ALIGN size) skb;
     skb \<leftarrow> store (nlh + 4) (le 2 (ucast type :: u16)) skb;
     skb \<leftarrow> store nlh (le 4 size) skb;
     skb \<leftarrow> store (nlh + 6) (le 2 (ucast flags :: u16)) skb;
     skb \<leftarrow> store (nlh + 12) (le 4 pid) skb;
     skb \<leftarrow> store (nlh + 8) (le 4 seq) skb;
     skb \<leftarrow> store (nlh + unat (NLMSG_LENGTH 0) + unat len) (replicate (int_size (NLMSG_ALIGN size - size)) 0) skb;
     Some (nlh, skb)
   })"

definition NLA_ALIGN :: "u32 \<Rightarrow> u32" where
  "NLA_ALIGN len = (len + 3) AND NOT 3"

definition NLA_HDRLEN :: u32 where
  "NLA_HDRLEN = NLA_ALIGN 4"

definition nla_data :: "nat \<Rightarrow> nat" where
  "nla_data nla = nla + unat NLA_HDRLEN"

definition nla_attr_size :: "u32 \<Rightarrow> u32" where
  "nla_attr_size payload = NLA_HDRLEN + payload"

definition nla_total_size :: "u32 \<Rightarrow> u32" where
  "nla_total_size payload = NLA_ALIGN (nla_attr_size payload)"

definition nla_padlen :: "u32 \<Rightarrow> u32" where
  "nla_padlen payload = nla_total_size payload - nla_attr_size payload"

text \<open>The length of an attribute is a 16-bit field, which also says where the padding begins.\<close>

definition nla_reserve :: "u32 \<Rightarrow> u32 \<Rightarrow> sk_buff \<Rightarrow> (nat \<times> sk_buff) option" where
  "nla_reserve attrtype attrlen skb = do {
     (nla, skb) \<leftarrow> skb_put (nla_total_size attrlen) skb;
     skb \<leftarrow> store (nla + 2) (le 2 (ucast attrtype :: u16)) skb;
     let nla_len = ucast (nla_attr_size attrlen) :: u16 in do {
     skb \<leftarrow> store nla (le 2 nla_len) skb;
     skb \<leftarrow> store (nla + unat nla_len) (replicate (int_size (nla_padlen attrlen)) 0) skb;
     Some (nla, skb)
   }}"

text \<open>\<open>memcpy(p, src, n)\<close>.\<close>

definition copy_in :: "nat \<Rightarrow> u8 list \<Rightarrow> u32 \<Rightarrow> sk_buff \<Rightarrow> sk_buff option" where
  "copy_in p src n skb = (if int_size n \<le> length src then store p (take (int_size n) src) skb else None)"

definition nla_put_unchecked :: "u32 \<Rightarrow> u32 \<Rightarrow> u8 list \<Rightarrow> sk_buff \<Rightarrow> sk_buff option" where
  "nla_put_unchecked attrtype attrlen src skb = do {
     (nla, skb) \<leftarrow> nla_reserve attrtype attrlen skb;
     copy_in (nla_data nla) src attrlen skb
   }"

definition EMSGSIZE :: u32 where
  "EMSGSIZE = 90"

definition EINVAL :: u32 where
  "EINVAL = 22"

definition nla_reserve_nohdr :: "u32 \<Rightarrow> sk_buff \<Rightarrow> (nat \<times> sk_buff) option" where
  "nla_reserve_nohdr attrlen skb = do {
     (start, skb) \<leftarrow> skb_put (NLA_ALIGN attrlen) skb;
     skb \<leftarrow> store start (replicate (int_size (NLA_ALIGN attrlen)) 0) skb;
     Some (start, skb)
   }"

definition nla_put_nohdr_unchecked :: "u32 \<Rightarrow> u8 list \<Rightarrow> sk_buff \<Rightarrow> sk_buff option" where
  "nla_put_nohdr_unchecked attrlen src skb = do {
     (start, skb) \<leftarrow> nla_reserve_nohdr attrlen skb;
     copy_in start src attrlen skb
   }"

text \<open>An \<open>int\<close> result is a 32-bit word; it is below zero when its sign bit is set.\<close>

definition nla_put_nohdr :: "u32 \<Rightarrow> u8 list \<Rightarrow> sk_buff \<Rightarrow> (u32 \<times> sk_buff) option" where
  "nla_put_nohdr attrlen src skb =
    (if skb_tailroom skb <s NLA_ALIGN attrlen then Some (- EMSGSIZE, skb)
     else do { skb \<leftarrow> nla_put_nohdr_unchecked attrlen src skb; Some (0, skb) })"

definition nla_put :: "u32 \<Rightarrow> u32 \<Rightarrow> u8 list \<Rightarrow> sk_buff \<Rightarrow> (u32 \<times> sk_buff) option" where
  "nla_put attrtype attrlen src skb =
    (if skb_tailroom skb <s nla_total_size attrlen then Some (- EMSGSIZE, skb)
     else do { skb \<leftarrow> nla_put_unchecked attrtype attrlen src skb; Some (0, skb) })"

text \<open>\<open>strlen(s) + 1\<close> bytes of a character array: the array must hold a NUL.\<close>

definition c_string :: "u8 list \<Rightarrow> u8 list option" where
  "c_string s = (if 0 \<in> set s then Some (c_str s @ [0]) else None)"

definition NLA_PUT_STRING :: "u32 \<Rightarrow> u8 list \<Rightarrow> sk_buff \<Rightarrow> (u32 \<times> sk_buff) option" where
  "NLA_PUT_STRING attrtype s skb = do {
     s \<leftarrow> c_string s;
     nla_put attrtype (of_nat (length s)) s skb
   }"

definition nlmsg_trim :: "nat option \<Rightarrow> sk_buff \<Rightarrow> sk_buff" where
  "nlmsg_trim mark skb = (case mark of None \<Rightarrow> skb | Some m \<Rightarrow> skb_trim (of_int (int m - int (data_off skb))) skb)"

definition nla_nest_start :: "u32 \<Rightarrow> sk_buff \<Rightarrow> (nat option \<times> sk_buff) option" where
  "nla_nest_start attrtype skb = (let start = skb_tail_pointer skb in do {
     (r, skb) \<leftarrow> nla_put attrtype 0 [] skb;
     Some (if r <s 0 then None else Some start, skb)
   })"

definition nla_nest_end :: "nat \<Rightarrow> sk_buff \<Rightarrow> (u32 \<times> sk_buff) option" where
  "nla_nest_end start skb = do {
     skb \<leftarrow> store start (le 2 (of_int (int (skb_tail_pointer skb) - int start) :: u16)) skb;
     Some (sk_len skb, skb)
   }"

definition nla_nest_cancel :: "nat option \<Rightarrow> sk_buff \<Rightarrow> sk_buff" where
  "nla_nest_cancel start skb = nlmsg_trim start skb"

end
