(* ===== verification/Netlink_Proofs.thy ===== *)
theory Netlink_Proofs
  imports Netlink
begin

text \<open>
  What the writers of a socket buffer do: \<open>emits\<close> says that exactly the given bytes were appended,
  \<open>extends\<close> that the buffer is still well formed and the bytes before the old tail are untouched.
\<close>

section \<open>Writing neighbouring pieces\<close>

lemma poke_id [simp]: "poke p [] m = m"
  by (simp add: poke_def)

lemma poke_before:
  assumes "p + length a + length b \<le> length m"
  shows "poke p a (poke (p + length a) b m) = poke p (a @ b) m"
  by (rule nth_equalityI) (use assms in \<open>auto simp: nth_poke nth_append\<close>)

lemma poke_after:
  assumes "p + length a + length b \<le> length m"
  shows "poke (p + length a) b (poke p a m) = poke p (a @ b) m"
  by (rule nth_equalityI) (use assms in \<open>auto simp: nth_poke nth_append\<close>)

lemma poke_start:
  assumes "length a' = length a" and "p + length a + length b \<le> length m"
  shows "poke p a' (poke p (a @ b) m) = poke p (a' @ b) m"
  by (rule nth_equalityI) (use assms in \<open>auto simp: nth_poke nth_append\<close>)

lemma poke_inside:
  assumes "length c' = length c" and "p + length (a @ c @ b) \<le> length m"
  shows "poke (p + length a) c' (poke p (a @ c @ b) m) = poke p (a @ c' @ b) m"
  by (rule nth_equalityI) (use assms in \<open>auto simp: nth_poke nth_append\<close>)

lemma take_poke: "p + length a \<le> length m \<Longrightarrow> k \<le> p \<Longrightarrow> take k (poke p a m) = take k m"
  by (simp add: poke_def)

section \<open>Alignment\<close>

lemma unat_align:
  assumes "unat (w :: u32) + 3 < 2 ^ 32"
  shows "unat ((w + 3) AND NOT 3) = 4 * ((unat w + 3) div 4)"
proof -
  have p: "unat (w + 3) = unat w + 3" using assms unat_add_lem [of w 3] by simp
  have m: "(3 :: u32) = mask 2" by (simp add: mask_eq_exp_minus_1)
  have two: "2 \<le> k \<Longrightarrow> Suc (Suc (k - 2)) = k" for k by arith
  have "(w + 3) AND NOT 3 = push_bit 2 (drop_bit 2 (w + 3))"
    unfolding m by (rule bit_word_eqI) (auto simp: bit_simps not_less two)
  also have "\<dots> = drop_bit 2 (w + 3) * 4" by (simp add: push_bit_eq_mult)
  finally have "unat ((w + 3) AND NOT 3) = unat (drop_bit 2 (w + 3) * 4)" by simp
  also have "unat (drop_bit 2 (w + 3)) = (unat w + 3) div 4" by (simp add: drop_bit_eq_div unat_div p)
  moreover have "(unat w + 3) div 4 * 4 < 2 ^ 32" using assms by linarith
  ultimately show ?thesis using unat_mult_lem [of "drop_bit 2 (w + 3)" 4] by simp
qed

definition padn :: "nat \<Rightarrow> nat" where
  "padn n = (4 - n mod 4) mod 4"

lemma align_padn: "4 * ((n + 3) div 4) = n + padn n"
proof -
  have "n mod 4 < 4" by simp
  then consider "n mod 4 = 0" | "n mod 4 = 1" | "n mod 4 = 2" | "n mod 4 = 3" by linarith
  then show ?thesis by cases (simp_all add: padn_def; presburger)+
qed

lemma padn_0 [simp]: "padn 0 = 0"
  by (simp add: padn_def)

lemma padn_less: "padn n < 4"
  by (simp add: padn_def)

lemma HDRLEN [simp]: "NLA_HDRLEN = 4"
  by (simp add: NLA_HDRLEN_def NLA_ALIGN_def)

lemma total_size:
  assumes "n + 7 < 2 ^ 32"
  shows "unat (nla_total_size (of_nat n)) = 4 + n + padn n" "unat (nla_attr_size (of_nat n)) = 4 + n"
    "unat (nla_padlen (of_nat n)) = padn n"
proof -
  have "unat (of_nat n :: u32) = n" using assms by (intro unat_of_nat_u32) simp
  then show a: "unat (nla_attr_size (of_nat n)) = 4 + n"
    using assms unat_add_lem [of 4 "of_nat n :: u32"] by (simp add: nla_attr_size_def)
  have p: "padn (4 + n) = padn n" by (simp add: padn_def)
  show t: "unat (nla_total_size (of_nat n)) = 4 + n + padn n"
    using unat_align [of "nla_attr_size (of_nat n)"] align_padn [of "4 + n"] a p assms
    by (simp add: nla_total_size_def NLA_ALIGN_def)
  have "nla_attr_size (of_nat n) \<le> nla_total_size (of_nat n :: u32)" using a t by (simp add: word_le_nat_alt)
  then show "unat (nla_padlen (of_nat n)) = padn n"
    using unat_sub [of "nla_attr_size (of_nat n)" "nla_total_size (of_nat n)"] a t by (simp add: nla_padlen_def)
qed

lemma scast_nonneg: "unat (n :: u32) < 2 ^ 31 \<Longrightarrow> int_size n = unat n"
proof -
  assume a: "unat n < 2 ^ 31"
  have "int (unat n) < int (2 ^ 31)" using a by (simp only: of_nat_less_iff)
  then have "uint n < 2 ^ 31" by (simp only: uint_nat of_nat_power of_nat_numeral)
  then have "signed_take_bit 31 (uint n) = uint n"
    by (intro signed_take_bit_int_eq_self) (simp_all add: order.trans [of _ 0])
  then have "sint n = uint n" by (simp only: sint_uint) simp
  then have "(scast n :: u64) = ucast n" by (simp only: scast_eq ucast_eq)
  then show ?thesis by (simp add: int_size_def)
qed


section \<open>Well-formed buffers\<close>

text \<open>
  A linear buffer whose tail is the end of its data, with at most 2 GiB behind it.  \<open>keeps b s s'\<close>: the
  buffer \<open>s'\<close> is the buffer \<open>s\<close> later on, and the bytes before the offset \<open>b\<close> are what they were.
\<close>

definition skb_ok :: "sk_buff \<Rightarrow> bool" where
  "skb_ok skb \<longleftrightarrow> data_len skb = 0 \<and> unat (sk_tail skb) = data_off skb + unat (sk_len skb)
     \<and> unat (sk_tail skb) \<le> unat (sk_end skb) \<and> unat (sk_end skb) \<le> length (block skb) \<and> unat (sk_end skb) < 2 ^ 31"

definition keeps :: "nat \<Rightarrow> sk_buff \<Rightarrow> sk_buff \<Rightarrow> bool" where
  "keeps b s s' \<longleftrightarrow> skb_ok s' \<and> sk_end s' = sk_end s \<and> data_off s' = data_off s \<and> length (block s') = length (block s)
     \<and> data_off s \<le> b \<and> b \<le> skb_tail_pointer s' \<and> take b (block s') = take b (block s)"

lemma keeps_refl: "skb_ok s \<Longrightarrow> data_off s \<le> b \<Longrightarrow> b \<le> skb_tail_pointer s \<Longrightarrow> keeps b s s"
  by (simp add: keeps_def)

lemma keeps_trans: "keeps b s s' \<Longrightarrow> keeps b' s' s'' \<Longrightarrow> b \<le> b' \<Longrightarrow> keeps b s s''"
proof -
  assume a: "keeps b s s'" "keeps b' s' s''" "b \<le> b'"
  have "take b (block s'') = take b (take b' (block s''))" using a(3) by (simp add: min_def)
  also have "\<dots> = take b (block s')" using a by (simp add: keeps_def min_def)
  finally show "keeps b s s''" using a by (simp add: keeps_def)
qed

lemma keeps_ok: "keeps b s s' \<Longrightarrow> skb_ok s'"
  by (simp add: keeps_def)

lemma off_le_tail: "skb_ok s \<Longrightarrow> data_off s \<le> skb_tail_pointer s"
  by (simp add: skb_ok_def skb_tail_pointer_def)

definition room :: "sk_buff \<Rightarrow> nat" where
  "room skb = unat (sk_end skb) - unat (sk_tail skb)"

lemma room_bounds:
  assumes "skb_ok skb"
  shows "skb_tail_pointer skb + room skb \<le> length (block skb)" "room skb < 2 ^ 31"
    "skb_tail_pointer skb + room skb = unat (sk_end skb)"
proof -
  note w = assms [unfolded skb_ok_def]
  show "skb_tail_pointer skb + room skb \<le> length (block skb)" "skb_tail_pointer skb + room skb = unat (sk_end skb)"
    using w by (simp_all add: room_def skb_tail_pointer_def)
  show "room skb < 2 ^ 31" unfolding room_def using w by linarith
qed

text \<open>Appending bytes, which all writers do when the room suffices.\<close>

definition append_bytes :: "u8 list \<Rightarrow> sk_buff \<Rightarrow> sk_buff" where
  "append_bytes bs skb = skb\<lparr>sk_tail := sk_tail skb + of_nat (length bs), sk_len := sk_len skb + of_nat (length bs),
     block := poke (skb_tail_pointer skb) bs (block skb)\<rparr>"

lemma append_bytes_fields:
  assumes "skb_ok skb" and "length bs \<le> room skb"
  shows "unat (sk_tail (append_bytes bs skb)) = unat (sk_tail skb) + length bs"
    "unat (sk_len (append_bytes bs skb)) = unat (sk_len skb) + length bs"
    "skb_tail_pointer (append_bytes bs skb) = skb_tail_pointer skb + length bs"
    "room (append_bytes bs skb) = room skb - length bs" "skb_ok (append_bytes bs skb)"
    "keeps (skb_tail_pointer skb) skb (append_bytes bs skb)"
proof -
  have e: "unat (sk_tail skb) + length bs \<le> unat (sk_end skb)" "unat (sk_end skb) < 2 ^ 31"
    "unat (sk_tail skb) = data_off skb + unat (sk_len skb)"
    using assms by (auto simp: skb_ok_def room_def)
  have "length bs < 2 ^ 32" using room_bounds(2) [OF assms(1)] assms(2) by simp
  then have n: "unat (of_nat (length bs) :: u32) = length bs" by (rule unat_of_nat_u32)
  show t: "unat (sk_tail (append_bytes bs skb)) = unat (sk_tail skb) + length bs"
    using unat_add_lem [of "sk_tail skb" "of_nat (length bs)"] e n by (simp add: append_bytes_def)
  show l: "unat (sk_len (append_bytes bs skb)) = unat (sk_len skb) + length bs"
    using unat_add_lem [of "sk_len skb" "of_nat (length bs)"] e n by (simp add: append_bytes_def)
  show tp: "skb_tail_pointer (append_bytes bs skb) = skb_tail_pointer skb + length bs"
    using t by (simp add: skb_tail_pointer_def)
  show "room (append_bytes bs skb) = room skb - length bs"
    using t by (simp add: room_def append_bytes_def)
  have b: "skb_tail_pointer skb + length bs \<le> length (block skb)"
    using e assms(1) by (simp add: skb_ok_def skb_tail_pointer_def)
  show w: "skb_ok (append_bytes bs skb)"
    using t l e b assms(1) unfolding skb_ok_def by (simp add: append_bytes_def)
  show "keeps (skb_tail_pointer skb) skb (append_bytes bs skb)"
    unfolding keeps_def using w tp b off_le_tail [OF assms(1)] by (simp add: append_bytes_def take_poke)
qed

lemma append_append_bytes:
  assumes "skb_ok skb" and "length as + length bs \<le> room skb"
  shows "append_bytes bs (append_bytes as skb) = append_bytes (as @ bs) skb"
proof -
  have "skb_tail_pointer skb + length as + length bs \<le> length (block skb)"
    using room_bounds(1) [OF assms(1)] assms(2) by linarith
  then show ?thesis
    using append_bytes_fields(3) [OF assms(1), of as] assms(2)
    by (simp add: append_bytes_def poke_after add.assoc)
qed

lemma skb_tailroom_room: "skb_ok skb \<Longrightarrow> unat (skb_tailroom skb) = room skb"
  by (simp add: skb_tailroom_def skb_is_nonlinear_def skb_ok_def room_def unat_sub word_le_nat_alt)

text \<open>\<open>int\<close> comparisons of values that are not negative.\<close>

lemma sless_unat:
  assumes "unat (a :: u32) < 2 ^ 31" and "unat b < 2 ^ 31"
  shows "a <s b \<longleftrightarrow> unat a < unat b"
proof -
  have s: "sint c = int (unat c)" if "unat c < 2 ^ 31" for c :: u32
  proof -
    have "int (unat c) < int (2 ^ 31)" using that by (simp only: of_nat_less_iff)
    then have "uint c < 2 ^ 31" by (simp only: uint_nat of_nat_power of_nat_numeral)
    then have "signed_take_bit 31 (uint c) = uint c"
      by (intro signed_take_bit_int_eq_self) (simp_all add: order.trans [of _ 0])
    then have "sint c = uint c" by (simp only: sint_uint) simp
    then show ?thesis by (simp only: uint_nat)
  qed
  show ?thesis by (simp only: word_sless_alt s [OF assms(1)] s [OF assms(2)] of_nat_less_iff)
qed

lemma skb_put_eq:
  assumes "skb_ok skb"  and "unat n \<le> room skb"
  shows "skb_put n skb = Some (skb_tail_pointer skb, skb\<lparr>sk_tail := sk_tail skb + n, sk_len := sk_len skb + n\<rparr>)"
proof -
  have "unat (sk_tail skb) + unat n \<le> unat (sk_end skb)" "unat (sk_end skb) < 2 ^ 31"
    using assms by (auto simp: skb_ok_def room_def)
  then have "unat (sk_tail skb + n) \<le> unat (sk_end skb)"
    using unat_add_lem [of "sk_tail skb" n] by simp
  then show ?thesis by (simp add: skb_put_def word_less_nat_alt)
qed


section \<open>Attributes\<close>

text \<open>
  An attribute is its length and type in 16 bits each, its payload and padding to a multiple of four; a nest has
  its payload already padded.
\<close>

definition attr :: "u32 \<Rightarrow> u8 list \<Rightarrow> u8 list" where
  "attr ty bs = le 2 (of_nat (4 + length bs) :: u16) @ le 2 (ucast ty :: u16) @ bs @ replicate (padn (length bs)) 0"

definition nest :: "u32 \<Rightarrow> u8 list \<Rightarrow> u8 list" where
  "nest ty bs = le 2 (of_nat (4 + length bs) :: u16) @ le 2 (ucast ty :: u16) @ bs"

lemma length_attr [simp]: "length (attr ty bs) = 4 + length bs + padn (length bs)"
  by (simp add: attr_def)

lemma length_nest [simp]: "length (nest ty bs) = 4 + length bs"
  by (simp add: nest_def)

lemma attr_nil: "attr ty [] = nest ty []"
  by (simp add: attr_def nest_def padn_def)

lemma neg_EMSGSIZE: "(- EMSGSIZE) <s 0"
  by (simp add: EMSGSIZE_def word_sless_alt)

lemma nla_put_full:
  assumes "skb_ok skb" and "n + 7 < 2 ^ 31" and "room skb < 4 + n + padn n"
  shows "nla_put ty (of_nat n) src skb = Some (- EMSGSIZE, skb)"
proof -
  have "unat (nla_total_size (of_nat n)) < 2 ^ 31" using total_size(1) [of n] assms(2) padn_less [of n] by simp
  then have "skb_tailroom skb <s nla_total_size (of_nat n)"
    using sless_unat [of "skb_tailroom skb" "nla_total_size (of_nat n)"] skb_tailroom_room [OF assms(1)] room_bounds(2) [OF assms(1)]
      total_size(1) [of n] assms(2,3) by simp
  then show ?thesis by (simp add: nla_put_def)
qed

lemma nla_reserve_eq:
  assumes "skb_ok skb" and "n + 7 < 2 ^ 31" and "4 + n + padn n \<le> room skb"
  shows "nla_reserve ty (of_nat n) skb =
    (let p = skb_tail_pointer skb; t = of_nat (4 + n + padn n); len = of_nat (4 + n) :: u16 in
      Some (p, skb\<lparr>sk_tail := sk_tail skb + t, sk_len := sk_len skb + t,
        block := poke (p + unat len) (replicate (padn n) 0) (poke p (le 2 len @ le 2 (ucast ty :: u16)) (block skb))\<rparr>))"
proof -
  let ?p = "skb_tail_pointer skb" and ?len = "of_nat (4 + n) :: u16"
  have u: "unat (nla_total_size (of_nat n)) = 4 + n + padn n" "unat (nla_attr_size (of_nat n)) = 4 + n"
    "unat (nla_padlen (of_nat n)) = padn n" using total_size [of n] assms(2) by simp_all
  have t: "nla_total_size (of_nat n) = of_nat (4 + n + padn n)" using u(1) by (metis of_nat_unat ucast_id)
  have a: "ucast (nla_attr_size (of_nat n)) = ?len" using u(2) by (metis of_nat_unat)
  have b: "?p + (4 + n + padn n) \<le> length (block skb)" using room_bounds(1) [OF assms(1)] assms(3) by linarith
  have len: "unat ?len \<le> 4 + n" unfolding unat_of_nat by (rule mod_less_eq_dividend)
  have pad: "int_size (nla_padlen (of_nat n)) = padn n"
    using scast_nonneg [of "nla_padlen (of_nat n)"] u(3) padn_less [of n] by simp
  have bl: "?p + 2 + 2 \<le> length (block skb)" "?p + unat ?len + padn n \<le> length (block skb)" using b len by linarith+
  have "poke ?p (le 2 ?len) (poke (?p + 2) (le 2 (ucast ty :: u16)) (block skb)) = poke ?p (le 2 ?len @ le 2 (ucast ty :: u16)) (block skb)"
    using poke_before [of ?p "le 2 ?len" "le 2 (ucast ty :: u16)" "block skb"] bl by simp
  moreover have "skb_put (nla_total_size (of_nat n)) skb =
      Some (?p, skb\<lparr>sk_tail := sk_tail skb + of_nat (4 + n + padn n), sk_len := sk_len skb + of_nat (4 + n + padn n)\<rparr>)"
    unfolding t [symmetric] by (rule skb_put_eq [OF assms(1)]) (use u(1) assms(3) in simp)
  ultimately show ?thesis
    using bl unfolding nla_reserve_def Let_def a pad by (simp add: store_def)
qed

lemma nla_put_fits:
  assumes "skb_ok skb" and "4 + length bs < 2 ^ 16" and "4 + length bs + padn (length bs) \<le> room skb"
    and "take (length bs) src = bs"
  shows "nla_put ty (of_nat (length bs)) src skb = Some (0, append_bytes (attr ty bs) skb)"
proof -
  let ?n = "length bs" and ?p = "skb_tail_pointer skb" and ?len = "of_nat (4 + length bs) :: u16"
  let ?h = "le 2 ?len @ le 2 (ucast ty :: u16)" and ?z = "replicate (padn (length bs)) (0 :: u8)"
  have n: "?n + 7 < 2 ^ 31" using assms(2) by simp
  have l: "unat ?len = 4 + ?n" using assms(2) by (simp only: unat_of_nat) simp
  have b: "?p + (4 + ?n + padn ?n) \<le> length (block skb)" using room_bounds(1) [OF assms(1)] assms(3) by linarith
  have le: "?n \<le> length src" using arg_cong [OF assms(4), of length] by simp
  have nb: "unat (of_nat ?n :: u32) = ?n" using n by (intro unat_of_nat_u32) simp
  then have sz: "int_size (of_nat ?n) = ?n" using scast_nonneg [of "of_nat ?n"] n by simp
  have "unat (nla_total_size (of_nat ?n)) < 2 ^ 31" using total_size(1) [of ?n] n padn_less [of ?n] by simp
  then have f: "\<not> skb_tailroom skb <s nla_total_size (of_nat ?n)"
    using sless_unat [of "skb_tailroom skb" "nla_total_size (of_nat ?n)"] skb_tailroom_room [OF assms(1)] room_bounds(2) [OF assms(1)]
      total_size(1) [of ?n] n assms(3) by simp
  have "poke (?p + 4) bs (poke (?p + (4 + ?n)) ?z (poke ?p ?h (block skb))) = poke (?p + 4) (bs @ ?z) (poke ?p ?h (block skb))"
    using poke_before [of "?p + 4" bs ?z "poke ?p ?h (block skb)"] b by (simp add: add.assoc)
  also have "\<dots> = poke ?p (attr ty bs) (block skb)"
    using poke_after [of ?p ?h "bs @ ?z" "block skb"] b by (simp add: attr_def)
  finally have "poke (?p + 4) bs (poke (?p + (4 + ?n)) ?z (poke ?p ?h (block skb))) = poke ?p (attr ty bs) (block skb)" .
  then show ?thesis
    using f nla_reserve_eq [OF assms(1) n assms(3), of ty] le b assms(4) unfolding Let_def l
    by (simp add: nla_put_def nla_put_unchecked_def copy_in_def sz store_def nla_data_def append_bytes_def)
qed


section \<open>Nests\<close>

lemma nest_start_eq:
  assumes "skb_ok skb"
  shows "nla_nest_start ty skb = Some (if room skb < 4 then (None, skb) else (Some (skb_tail_pointer skb), append_bytes (attr ty []) skb))"
proof (cases "room skb < 4")
  case True
  then show ?thesis
    using nla_put_full [OF assms, of 0 ty "[]"] by (simp add: nla_nest_start_def padn_def neg_EMSGSIZE)
next
  case False
  then show ?thesis
    using nla_put_fits [OF assms, of "[]" "[]" ty] by (simp add: nla_nest_start_def padn_def)
qed

text \<open>The length of an attribute is corrected when what belongs to it has been written.\<close>

lemma store_nest:
  assumes "skb_ok skb" and "4 + length bs \<le> room skb" and "s = append_bytes (le 2 (x :: u16) @ le 2 (ucast ty :: u16) @ bs) skb"
  shows "store (skb_tail_pointer skb) (le 2 (of_int (int (skb_tail_pointer s) - int (skb_tail_pointer skb)) :: u16)) s =
    Some (append_bytes (nest ty bs) skb)"
proof -
  let ?p = "skb_tail_pointer skb"
  have b: "?p + (4 + length bs) \<le> length (block skb)" using room_bounds(1) [OF assms(1)] assms(2) by linarith
  have t: "skb_tail_pointer s = ?p + (4 + length bs)"
    unfolding assms(3) using append_bytes_fields(3) [OF assms(1)] assms(2) by simp
  have "poke ?p (le 2 (of_nat (4 + length bs) :: u16)) (poke ?p (le 2 x @ le 2 (ucast ty :: u16) @ bs) (block skb)) = poke ?p (nest ty bs) (block skb)"
    using poke_start [of "le 2 (of_nat (4 + length bs) :: u16)" "le 2 x" ?p "le 2 (ucast ty :: u16) @ bs" "block skb"] b
    by (simp add: nest_def)
  then show ?thesis
    using b unfolding t unfolding assms(3) by (simp add: store_def) (simp add: append_bytes_def)
qed

lemma nest_end_eq:
  assumes "skb_ok skb" and "4 + length bs \<le> room skb"
  shows "nla_nest_end (skb_tail_pointer skb) (append_bytes (attr ty [] @ bs) skb) =
    Some (sk_len skb + of_nat (4 + length bs), append_bytes (nest ty bs) skb)"
  using store_nest [OF assms refl, of "of_nat 4" ty]
  by (simp add: nla_nest_end_def attr_nil nest_def) (simp add: append_bytes_def)

lemma nla_nest_step:
  assumes "skb_ok skb" and "4 + length bs \<le> room skb"
  shows "nla_nest_start ty skb = Some (Some (skb_tail_pointer skb), append_bytes (attr ty []) skb)"
    and "skb_ok (append_bytes (attr ty []) skb)" and "room (append_bytes (attr ty []) skb) = room skb - 4"
    and "nla_nest_end (skb_tail_pointer skb) (append_bytes bs (append_bytes (attr ty []) skb)) =
      Some (sk_len skb + of_nat (4 + length bs), append_bytes (nest ty bs) skb)"
proof -
  have l: "length (attr ty []) = 4" by (simp add: padn_def)
  show "nla_nest_start ty skb = Some (Some (skb_tail_pointer skb), append_bytes (attr ty []) skb)"
    using nest_start_eq [OF assms(1), of ty] assms(2) by simp
  show "skb_ok (append_bytes (attr ty []) skb)" "room (append_bytes (attr ty []) skb) = room skb - 4"
    using append_bytes_fields [OF assms(1), of "attr ty []"] assms(2) by (simp_all add: l)
  show "nla_nest_end (skb_tail_pointer skb) (append_bytes bs (append_bytes (attr ty []) skb)) =
      Some (sk_len skb + of_nat (4 + length bs), append_bytes (nest ty bs) skb)"
    using append_append_bytes [OF assms(1), of "attr ty []" bs] nest_end_eq [OF assms, of ty] assms(2) l by simp
qed

section \<open>Payload without a header, and trimming\<close>

lemma nohdr_size:
  assumes "n + 3 < 2 ^ 31"
  shows "unat (NLA_ALIGN (of_nat n)) = n + padn n" and "int_size (of_nat n) = n" and "int_size (NLA_ALIGN (of_nat n)) = n + padn n"
proof -
  have n: "unat (of_nat n :: u32) = n" using assms by (intro unat_of_nat_u32) simp
  show a: "unat (NLA_ALIGN (of_nat n)) = n + padn n"
    using unat_align [of "of_nat n"] align_padn [of n] n assms by (simp add: NLA_ALIGN_def)
  have "n + padn n < 2 ^ 31" using align_padn [of n] assms by presburger
  then show "int_size (of_nat n) = n" "int_size (NLA_ALIGN (of_nat n)) = n + padn n"
    using scast_nonneg [of "of_nat n"] scast_nonneg [of "NLA_ALIGN (of_nat n)"] n a assms by simp_all
qed

lemma nla_put_nohdr_eq:
  assumes "skb_ok skb" and "length bs + 3 < 2 ^ 31" and "take (length bs) src = bs"
  shows "nla_put_nohdr (of_nat (length bs)) src skb = Some (if room skb < length bs + padn (length bs) then (- EMSGSIZE, skb)
    else (0, append_bytes (bs @ replicate (padn (length bs)) 0) skb))"
proof -
  let ?n = "length bs" and ?p = "skb_tail_pointer skb"
  note sz = nohdr_size [OF assms(2)]
  have "?n + padn ?n < 2 ^ 31" using align_padn [of ?n] assms(2) by presburger
  then have t: "skb_tailroom skb <s NLA_ALIGN (of_nat ?n) \<longleftrightarrow> room skb < ?n + padn ?n"
    using sless_unat [of "skb_tailroom skb" "NLA_ALIGN (of_nat ?n)"] skb_tailroom_room [OF assms(1)] room_bounds(2) [OF assms(1)] sz(1)
    by simp
  have le: "?n \<le> length src" using arg_cong [OF assms(3), of length] by simp
  show ?thesis
  proof (cases "room skb < ?n + padn ?n")
    case False
    then have b: "?p + (?n + padn ?n) \<le> length (block skb)" using room_bounds(1) [OF assms(1)] by linarith
    have a: "NLA_ALIGN (of_nat ?n) = of_nat (?n + padn ?n)" using sz(1) by (metis of_nat_unat ucast_id)
    have "skb_put (of_nat (?n + padn ?n)) skb = Some (?p, skb\<lparr>sk_tail := sk_tail skb + of_nat (?n + padn ?n),
        sk_len := sk_len skb + of_nat (?n + padn ?n)\<rparr>)"
      unfolding a [symmetric] by (rule skb_put_eq [OF assms(1)]) (use sz(1) False in simp)
    moreover have "poke ?p bs (poke ?p (replicate (?n + padn ?n) 0) (block skb)) = poke ?p (bs @ replicate (padn ?n) 0) (block skb)"
      using poke_start [of bs "replicate ?n 0" ?p "replicate (padn ?n) 0" "block skb"] b by (simp add: replicate_add)
    ultimately show ?thesis
      using False t b le assms(3) sz unfolding nla_put_nohdr_def nla_put_nohdr_unchecked_def nla_reserve_nohdr_def
      by (simp add: a store_def copy_in_def append_bytes_def)
  qed (use t in \<open>simp add: nla_put_nohdr_def\<close>)
qed

lemma nlmsg_trim_keeps:
  assumes "skb_ok skb" and "keeps (skb_tail_pointer skb) skb s'"
  shows "keeps (skb_tail_pointer skb) skb (nlmsg_trim (Some (skb_tail_pointer skb)) s')"
    and "sk_tail (nlmsg_trim (Some (skb_tail_pointer skb)) s') = sk_tail skb"
    and "sk_len (nlmsg_trim (Some (skb_tail_pointer skb)) s') = sk_len skb"
proof -
  note k = assms(2) [unfolded keeps_def] and w = assms(1) [unfolded skb_ok_def]
  have w': "skb_ok s'" using k by blast
  note w'' = w' [unfolded skb_ok_def]
  have tl: "of_nat (data_off skb) + sk_len skb = sk_tail skb"
    using w by (metis of_nat_add of_nat_unat ucast_id)
  have m: "of_int (int (skb_tail_pointer skb) - int (data_off s')) = sk_len skb"
    using k w by (simp add: skb_tail_pointer_def tl [symmetric])
  have le: "unat (sk_len skb) \<le> unat (sk_len s')"
    using k w w'' unfolding skb_tail_pointer_def by linarith
  have same: "sk_len s' = sk_len skb \<Longrightarrow> sk_tail s' = sk_tail skb"
    using k w w'' by (simp add: word_unat_eq_iff)
  have e: "nlmsg_trim (Some (skb_tail_pointer skb)) s' = s'\<lparr>sk_len := sk_len skb, sk_tail := sk_tail skb\<rparr>"
  proof (cases "sk_len s' = sk_len skb")
    case True
    then show ?thesis unfolding nlmsg_trim_def option.case m using same [OF True] by (simp add: skb_trim_def)
  next
    case False
    then have "sk_len skb < sk_len s'" using le by (simp add: word_less_nat_alt word_unat_eq_iff)
    then show ?thesis unfolding nlmsg_trim_def option.case m
      using w'' k tl by (simp add: skb_trim_def skb_trim_unchecked_def skb_set_tail_pointer_def skb_reset_tail_pointer_def Let_def)
  qed
  show "sk_tail (nlmsg_trim (Some (skb_tail_pointer skb)) s') = sk_tail skb"
    "sk_len (nlmsg_trim (Some (skb_tail_pointer skb)) s') = sk_len skb" by (simp_all add: e)
  have "unat (sk_tail skb) \<le> unat (sk_end s')" using k w by simp
  then have "skb_ok (s'\<lparr>sk_len := sk_len skb, sk_tail := sk_tail skb\<rparr>)"
    using w w'' k unfolding skb_ok_def by simp
  then show "keeps (skb_tail_pointer skb) skb (nlmsg_trim (Some (skb_tail_pointer skb)) s')"
    using k unfolding e keeps_def by (simp add: skb_tail_pointer_def)
qed

end
