(* ===== verification/Traffic_Control.thy ===== *)
theory Traffic_Control
  imports Netlink
begin

text \<open>
  tcf\_fill\_node, second part: generic statistics, the dumps of actions and extended matches,
  the basic classifier, and \<open>tcf_fill_node\<close> with its harness.  A function pointer of the source
  is the function it points to, already applied to the object it belongs to; a NULL pointer is None.
\<close>

section \<open>Generic statistics\<close>

record tc_stats =
  st_bytes :: u64
  st_packets :: u32
  st_drops :: u32
  st_overlimits :: u32
  st_bps :: u32
  st_pps :: u32
  st_qlen :: u32
  st_backlog :: u32

definition zero_stats :: tc_stats where
  "zero_stats = \<lparr>st_bytes = 0, st_packets = 0, st_drops = 0, st_overlimits = 0, st_bps = 0, st_pps = 0, st_qlen = 0, st_backlog = 0\<rparr>"

text \<open>The 40 bytes of the record: four bytes of padding at the end, which \<open>memset\<close> has cleared.\<close>

definition stats_bytes :: "tc_stats \<Rightarrow> u8 list" where
  "stats_bytes s = le 8 (st_bytes s) @ le 4 (st_packets s) @ le 4 (st_drops s) @ le 4 (st_overlimits s)
     @ le 4 (st_bps s) @ le 4 (st_pps s) @ le 4 (st_qlen s) @ le 4 (st_backlog s) @ replicate 4 0"

record gnet_dump =
  d_tail :: "nat option"
  compat_tc_stats :: u32
  compat_xstats :: u32
  xstats :: "u8 list option"
  xstats_len :: u32
  d_stats :: tc_stats

record gnet_stats_basic =
  b_bytes :: u64
  b_packets :: u32

record gnet_stats_rate_est =
  r_bps :: u32
  r_pps :: u32

record gnet_stats_queue =
  q_qlen :: u32
  q_backlog :: u32
  q_drops :: u32
  q_requeues :: u32
  q_overlimits :: u32

definition TCA_STATS_BASIC :: u32 where "TCA_STATS_BASIC = 1"
definition TCA_STATS_RATE_EST :: u32 where "TCA_STATS_RATE_EST = 2"
definition TCA_STATS_QUEUE :: u32 where "TCA_STATS_QUEUE = 3"

definition gnet_stats_copy :: "u32 \<Rightarrow> u8 list \<Rightarrow> u32 \<Rightarrow> sk_buff \<Rightarrow> (u32 \<times> sk_buff) option" where
  "gnet_stats_copy type buf n skb = do {
     (r, skb) \<leftarrow> nla_put type n buf skb;
     Some (if r <s 0 then -1 else 0, skb)
   }"

definition gnet_stats_start_copy_compat ::
    "u32 \<Rightarrow> u32 \<Rightarrow> u32 \<Rightarrow> sk_buff \<Rightarrow> (u32 \<times> gnet_dump \<times> sk_buff) option" where
  "gnet_stats_start_copy_compat type tc_stats_type xstats_type skb =
    (let d = \<lparr>d_tail = (if type \<noteq> 0 then Some (skb_tail_pointer skb) else None), compat_tc_stats = tc_stats_type,
           compat_xstats = xstats_type, xstats = None, xstats_len = 0, d_stats = zero_stats\<rparr>
     in if d_tail d \<noteq> None then do { (r, skb) \<leftarrow> gnet_stats_copy type [] 0 skb; Some (r, d, skb) }
        else Some (0, d, skb))"

definition gnet_stats_start_copy :: "u32 \<Rightarrow> sk_buff \<Rightarrow> (u32 \<times> gnet_dump \<times> sk_buff) option" where
  "gnet_stats_start_copy type skb = gnet_stats_start_copy_compat type 0 0 skb"

definition gnet_stats_copy_basic ::
    "gnet_stats_basic \<Rightarrow> gnet_dump \<Rightarrow> sk_buff \<Rightarrow> (u32 \<times> gnet_dump \<times> sk_buff) option" where
  "gnet_stats_copy_basic b d skb =
    (let d = (if compat_tc_stats d \<noteq> 0
           then d\<lparr>d_stats := (d_stats d)\<lparr>st_bytes := b_bytes b, st_packets := b_packets b\<rparr>\<rparr> else d)
     in if d_tail d \<noteq> None then do {
          (r, skb) \<leftarrow> gnet_stats_copy TCA_STATS_BASIC (le 8 (b_bytes b) @ le 4 (b_packets b) @ replicate 4 0) 16 skb;
          Some (r, d, skb)
        } else Some (0, d, skb))"

definition gnet_stats_copy_rate_est ::
    "gnet_stats_rate_est \<Rightarrow> gnet_dump \<Rightarrow> sk_buff \<Rightarrow> (u32 \<times> gnet_dump \<times> sk_buff) option" where
  "gnet_stats_copy_rate_est r d skb =
    (let d = (if compat_tc_stats d \<noteq> 0
           then d\<lparr>d_stats := (d_stats d)\<lparr>st_bps := r_bps r, st_pps := r_pps r\<rparr>\<rparr> else d)
     in if d_tail d \<noteq> None then do {
          (e, skb) \<leftarrow> gnet_stats_copy TCA_STATS_RATE_EST (le 4 (r_bps r) @ le 4 (r_pps r)) 8 skb;
          Some (e, d, skb)
        } else Some (0, d, skb))"

definition gnet_stats_copy_queue ::
    "gnet_stats_queue \<Rightarrow> gnet_dump \<Rightarrow> sk_buff \<Rightarrow> (u32 \<times> gnet_dump \<times> sk_buff) option" where
  "gnet_stats_copy_queue q d skb =
    (let d = (if compat_tc_stats d \<noteq> 0
           then d\<lparr>d_stats := (d_stats d)\<lparr>st_drops := q_drops q, st_qlen := q_qlen q, st_backlog := q_backlog q,
                    st_overlimits := q_overlimits q\<rparr>\<rparr> else d)
     in if d_tail d \<noteq> None then do {
          (r, skb) \<leftarrow> gnet_stats_copy TCA_STATS_QUEUE
            (le 4 (q_qlen q) @ le 4 (q_backlog q) @ le 4 (q_drops q) @ le 4 (q_requeues q) @ le 4 (q_overlimits q)) 20 skb;
          Some (r, d, skb)
        } else Some (0, d, skb))"

definition gnet_stats_finish_copy :: "gnet_dump \<Rightarrow> sk_buff \<Rightarrow> (u32 \<times> sk_buff) option" where
  "gnet_stats_finish_copy d skb = do {
     skb \<leftarrow> (case d_tail d of None \<Rightarrow> Some skb
       | Some t \<Rightarrow> store t (le 2 (of_int (int (skb_tail_pointer skb) - int t) :: u16)) skb);
     (r, skb) \<leftarrow> (if compat_tc_stats d \<noteq> 0 then gnet_stats_copy (compat_tc_stats d) (stats_bytes (d_stats d)) 40 skb
                  else Some (0, skb));
     if r <s 0 then Some (-1, skb)
     else case xstats d of
       Some x \<Rightarrow> if compat_xstats d \<noteq> 0 then do {
           (r, skb) \<leftarrow> gnet_stats_copy (compat_xstats d) x (xstats_len d) skb;
           Some (if r <s 0 then -1 else 0, skb)
         } else Some (0, skb)
     | None \<Rightarrow> Some (0, skb)
   }"

section \<open>Actions\<close>

definition TCA_KIND :: u32 where "TCA_KIND = 1"
definition TCA_OPTIONS :: u32 where "TCA_OPTIONS = 2"
definition TCA_STATS :: u32 where "TCA_STATS = 3"
definition TCA_XSTATS :: u32 where "TCA_XSTATS = 4"
definition TCA_ACT_STATS :: u32 where "TCA_ACT_STATS = 4"
definition TCA_OLD_COMPAT :: u32 where "TCA_OLD_COMPAT = 8"

type_synonym writer = "sk_buff \<Rightarrow> (u32 \<times> sk_buff) option"

record tcf_act_hdr =
  tcf_bstats :: gnet_stats_basic
  tcf_qstats :: gnet_stats_queue
  tcf_rate_est :: gnet_stats_rate_est

record tc_action_ops =
  a_kind :: "u8 list"
  get_stats :: "writer option"
  a_dump :: "(u32 \<Rightarrow> u32 \<Rightarrow> writer) option"

record tc_action =
  a_priv :: "tcf_act_hdr option"
  a_ops :: "tc_action_ops option"
  a_type :: u32
  order :: u32

definition tcf_action_copy_stats :: "tc_action \<Rightarrow> bool \<Rightarrow> writer" where
  "tcf_action_copy_stats a compat_mode skb = (case a_priv a of None \<Rightarrow> Some (-1, skb)
   | Some h \<Rightarrow>
     if compat_mode \<and> a_type a \<noteq> TCA_OLD_COMPAT then Some (0, skb)
     else do {
       (err, d, skb) \<leftarrow> (if compat_mode then gnet_stats_start_copy_compat 0 TCA_STATS TCA_XSTATS skb
                          else gnet_stats_start_copy TCA_ACT_STATS skb);
       if err <s 0 then Some (-1, skb) else do {
       (r, skb) \<leftarrow> (case Option.bind (a_ops a) get_stats of None \<Rightarrow> Some (0, skb) | Some f \<Rightarrow> f skb);
       if r <s 0 then Some (-1, skb) else do {
       (r, d, skb) \<leftarrow> gnet_stats_copy_basic (tcf_bstats h) d skb;
       if r <s 0 then Some (-1, skb) else do {
       (r, d, skb) \<leftarrow> gnet_stats_copy_rate_est (tcf_rate_est h) d skb;
       if r <s 0 then Some (-1, skb) else do {
       (r, d, skb) \<leftarrow> gnet_stats_copy_queue (tcf_qstats h) d skb;
       if r <s 0 then Some (-1, skb) else do {
       (r, skb) \<leftarrow> gnet_stats_finish_copy d skb;
       Some (if r <s 0 then -1 else 0, skb)
     }}}}}})"

definition tcf_action_dump_old :: "tc_action \<Rightarrow> u32 \<Rightarrow> u32 \<Rightarrow> writer" where
  "tcf_action_dump_old a bnd ref skb =
    (case Option.bind (a_ops a) a_dump of None \<Rightarrow> Some (- EINVAL, skb) | Some f \<Rightarrow> f bnd ref skb)"

definition tcf_action_dump_1 :: "tc_action \<Rightarrow> u32 \<Rightarrow> u32 \<Rightarrow> writer" where
  "tcf_action_dump_1 a bnd ref skb = (let b = skb_tail_pointer skb; failure = (\<lambda>skb. Some (-1, nlmsg_trim (Some b) skb)) in
     case a_ops a of None \<Rightarrow> Some (- EINVAL, skb)
     | Some ops \<Rightarrow> if a_dump ops = None then Some (- EINVAL, skb) else do {
         (r, skb) \<leftarrow> NLA_PUT_STRING TCA_KIND (a_kind ops) skb;
         if r <s 0 then failure skb else do {
         (r, skb) \<leftarrow> tcf_action_copy_stats a False skb;
         if r \<noteq> 0 then failure skb else do {
         (nest, skb) \<leftarrow> nla_nest_start TCA_OPTIONS skb;
         case nest of None \<Rightarrow> failure skb
         | Some nest \<Rightarrow> do {
             (err, skb) \<leftarrow> tcf_action_dump_old a bnd ref skb;
             if 0 <s err then do { (_, skb) \<leftarrow> nla_nest_end nest skb; Some (err, skb) } else failure skb
           }
       }}})"

text \<open>
  The loop over the linked list of actions; when a nest cannot be started, the pointer that is
  cancelled is NULL.
\<close>

primrec tcf_action_dump :: "tc_action list \<Rightarrow> u32 \<Rightarrow> u32 \<Rightarrow> writer" where
  "tcf_action_dump [] bnd ref skb = Some (0, skb)"
| "tcf_action_dump (a # act) bnd ref skb = do {
     (nest, skb) \<leftarrow> nla_nest_start (order a) skb;
     case nest of None \<Rightarrow> Some (- EINVAL, nla_nest_cancel None skb)
     | Some nest \<Rightarrow> do {
         (err, skb) \<leftarrow> tcf_action_dump_1 a bnd ref skb;
         if err <s 0 then Some (err, nla_nest_cancel (Some nest) skb)
         else do { (_, skb) \<leftarrow> nla_nest_end nest skb; tcf_action_dump act bnd ref skb }
       }
   }"

record tcf_ext_map =
  m_action :: u32
  m_police :: u32

text \<open>
  \<open>cls_act\<close> stands for the macro CONFIG\_NET\_CLS\_ACT, without which the function does nothing;
  the build of the benchmark does not define it.
\<close>

definition tcf_exts_dump :: "bool \<Rightarrow> tc_action list \<Rightarrow> tcf_ext_map \<Rightarrow> writer" where
  "tcf_exts_dump cls_act exts m skb =
    (if \<not> cls_act then Some (0, skb)
     else case exts of [] \<Rightarrow> Some (0, skb)
     | a # _ \<Rightarrow>
       if m_action m = 0 then Some (0, skb)
       else if a_type a \<noteq> TCA_OLD_COMPAT then do {
         (nest, skb) \<leftarrow> nla_nest_start (m_action m) skb;
         case nest of None \<Rightarrow> Some (-1, skb)
         | Some nest \<Rightarrow> do {
             (r, skb) \<leftarrow> tcf_action_dump exts 0 0 skb;
             if r <s 0 then Some (-1, skb)
             else do { (_, skb) \<leftarrow> nla_nest_end nest skb; Some (0, skb) }
           }
       } else if m_police m \<noteq> 0 then do {
         (nest, skb) \<leftarrow> nla_nest_start (m_police m) skb;
         case nest of None \<Rightarrow> Some (-1, skb)
         | Some nest \<Rightarrow> do {
             (r, skb) \<leftarrow> tcf_action_dump_old a 0 0 skb;
             if r <s 0 then Some (-1, skb)
             else do { (_, skb) \<leftarrow> nla_nest_end nest skb; Some (0, skb) }
           }
       } else Some (0, skb))"

section \<open>Extended matches\<close>

record tcf_ematch_ops =
  e_kind :: u32
  e_dump :: "writer option"

text \<open>\<open>em_pointed\<close> is what \<open>em_data\<close> points to when it is used as a pointer.\<close>

record tcf_ematch =
  em_ops :: "tcf_ematch_ops option"
  em_data :: u64
  em_pointed :: "u8 list"
  em_datalen :: u32
  em_matchid :: u16
  em_flags :: u16

record tcf_ematch_tree =
  nmatches :: u16
  progid :: u16
  matches :: "tcf_ematch list"

definition tcf_em_is_container :: "tcf_ematch \<Rightarrow> bool" where
  "tcf_em_is_container em \<longleftrightarrow> em_ops em = None"

definition tcf_em_is_simple :: "tcf_ematch \<Rightarrow> bool" where
  "tcf_em_is_simple em \<longleftrightarrow> em_flags em AND 8 \<noteq> 0"

definition TCA_EMATCH_TREE_HDR :: u32 where "TCA_EMATCH_TREE_HDR = 1"
definition TCA_EMATCH_TREE_LIST :: u32 where "TCA_EMATCH_TREE_LIST = 2"

text \<open>The header of a match: \<open>matchid\<close>, \<open>kind\<close>, \<open>flags\<close>; the initialiser clears \<open>pad\<close>.\<close>

definition em_hdr :: "tcf_ematch \<Rightarrow> u8 list" where
  "em_hdr em = le 2 (em_matchid em) @ le 2 ((case em_ops em of None \<Rightarrow> 0 | Some ops \<Rightarrow> ucast (e_kind ops)) :: u16)
     @ le 2 (em_flags em) @ replicate 2 0"

text \<open>The payload of a match; the results of \<open>nla_put_nohdr\<close> are ignored.\<close>

definition em_body :: "tcf_ematch \<Rightarrow> writer" where
  "em_body em skb = (case Option.bind (em_ops em) e_dump of Some f \<Rightarrow> f skb
   | None \<Rightarrow>
     if tcf_em_is_container em \<or> tcf_em_is_simple em then do {
       (_, skb) \<leftarrow> nla_put_nohdr 4 (le 4 (ucast (em_data em) :: u32)) skb;
       Some (0, skb)
     } else if 0 < em_datalen em then do {
       (_, skb) \<leftarrow> nla_put_nohdr (em_datalen em) (em_pointed em) skb;
       Some (0, skb)
     } else Some (0, skb))"

definition em_step :: "tcf_ematch_tree \<Rightarrow> nat \<Rightarrow> sk_buff \<Rightarrow> ((u32 \<times> sk_buff) + sk_buff) option" where
  "em_step tree i skb = (let match_start = skb_tail_pointer skb in
     if length (matches tree) \<le> i then None
     else let em = matches tree ! i in do {
       (r, skb) \<leftarrow> nla_put (of_nat i + 1) 8 (em_hdr em) skb;
       if r <s 0 then Some (Inl (-1, skb)) else do {
       (r, skb) \<leftarrow> em_body em skb;
       if r <s 0 then Some (Inl (-1, skb)) else do {
       skb \<leftarrow> store match_start (le 2 (of_int (int (skb_tail_pointer skb) - int match_start) :: u16)) skb;
       Some (Inr skb)
     }}})"

definition tcf_em_tree_dump :: "tcf_ematch_tree \<Rightarrow> u32 \<Rightarrow> writer" where
  "tcf_em_tree_dump tree tlv skb = do {
     (top_start, skb) \<leftarrow> nla_nest_start tlv skb;
     case top_start of None \<Rightarrow> Some (-1, skb)
     | Some top_start \<Rightarrow> do {
         (r, skb) \<leftarrow> nla_put TCA_EMATCH_TREE_HDR 4 (le 2 (nmatches tree) @ le 2 (progid tree)) skb;
         if r <s 0 then Some (-1, skb) else do {
         (list_start, skb) \<leftarrow> nla_nest_start TCA_EMATCH_TREE_LIST skb;
         case list_start of None \<Rightarrow> Some (-1, skb)
         | Some list_start \<Rightarrow> do {
             r \<leftarrow> loopM (em_step tree) [0..<unat (nmatches tree)] skb;
             case r of Inl e \<Rightarrow> Some e
             | Inr skb \<Rightarrow> do {
                 (_, skb) \<leftarrow> nla_nest_end list_start skb;
                 (_, skb) \<leftarrow> nla_nest_end top_start skb;
                 Some (0, skb)
               }
           }
       }}
   }"

section \<open>The basic classifier\<close>

definition TCA_BASIC_CLASSID :: u32 where "TCA_BASIC_CLASSID = 1"
definition TCA_BASIC_EMATCHES :: u32 where "TCA_BASIC_EMATCHES = 2"

definition basic_ext_map :: tcf_ext_map where
  "basic_ext_map = \<lparr>m_action = 3, m_police = 4\<rparr>"

record basic_filter =
  f_handle :: u32
  f_exts :: "tc_action list"
  f_ematches :: tcf_ematch_tree
  f_classid :: u32

text \<open>
  \<open>filters\<close> is the memory at the addresses that may be given as \<open>fh\<close>: None for an address that
  holds no filter.  \<open>t\<close> is the offset of the message header in the buffer.
\<close>

definition basic_dump :: "bool \<Rightarrow> (u64 \<Rightarrow> basic_filter option) \<Rightarrow> u64 \<Rightarrow> nat \<Rightarrow> writer" where
  "basic_dump cls_act filters fh t skb =
    (if fh = 0 then Some (sk_len skb, skb)
     else do {
       f \<leftarrow> filters fh;
       skb \<leftarrow> store (t + 8) (le 4 (f_handle f)) skb;
       (nest, skb) \<leftarrow> nla_nest_start TCA_OPTIONS skb;
       let failure = (\<lambda>skb. Some (-1, nla_nest_cancel nest skb)) in
       case nest of None \<Rightarrow> failure skb
       | Some start \<Rightarrow> do {
           (r, skb) \<leftarrow> (if f_classid f \<noteq> 0 then nla_put TCA_BASIC_CLASSID 4 (le 4 (f_classid f)) skb else Some (0, skb));
           if r <s 0 then failure skb else do {
           (r, skb) \<leftarrow> tcf_exts_dump cls_act (f_exts f) basic_ext_map skb;
           if r <s 0 then failure skb else do {
           (r, skb) \<leftarrow> tcf_em_tree_dump (f_ematches f) TCA_BASIC_EMATCHES skb;
           if r <s 0 then failure skb else do {
           (_, skb) \<leftarrow> nla_nest_end start skb;
           Some (sk_len skb, skb)
         }}}}
     })"

section \<open>Filling a node\<close>

definition RTM_DELTFILTER :: u32 where "RTM_DELTFILTER = 44"

definition TC_H_MAKE :: "u32 \<Rightarrow> u32 \<Rightarrow> u32" where
  "TC_H_MAKE maj minr = (maj AND 0xFFFF0000) OR (minr AND 0x0000FFFF)"

text \<open>\<open>struct tcf_proto\<close> with the interface index of the device of its queue.\<close>

record tcf_proto =
  protocol :: u16
  prio :: u32
  classid :: u32
  ifindex :: u32
  p_kind :: "u8 list"
  p_dump :: "(u64 \<Rightarrow> nat \<Rightarrow> writer) option"

text \<open>
  The message header: family and \<open>tcm__pad1\<close>, which is cleared twice, but not the two bytes of
  \<open>tcm__pad2\<close>.
\<close>

definition tcf_fill_node :: "tcf_proto \<Rightarrow> u64 \<Rightarrow> u32 \<Rightarrow> u32 \<Rightarrow> u16 \<Rightarrow> u32 \<Rightarrow> writer" where
  "tcf_fill_node tp fh pid seq fl event skb =
    (let b = skb_tail_pointer skb; failure = (\<lambda>skb. Some (-1, nlmsg_trim (Some b) skb)) in
     if skb_tailroom skb <s NLMSG_SPACE 20 then failure skb
     else do {
       (nlh, skb) \<leftarrow> nlmsg_put pid seq event 20 (ucast fl) skb;
       let tcm = nlh + unat (NLMSG_LENGTH 0) in do {
       skb \<leftarrow> store tcm [0] skb;
       skb \<leftarrow> store (tcm + 1) [0] skb;
       skb \<leftarrow> store (tcm + 1) [0] skb;
       skb \<leftarrow> store (tcm + 4) (le 4 (ifindex tp)) skb;
       skb \<leftarrow> store (tcm + 12) (le 4 (classid tp)) skb;
       skb \<leftarrow> store (tcm + 16) (le 4 (TC_H_MAKE (prio tp) (ucast (protocol tp)))) skb;
       (r, skb) \<leftarrow> NLA_PUT_STRING TCA_KIND (p_kind tp) skb;
       if r <s 0 then failure skb else do {
       skb \<leftarrow> store (tcm + 8) (le 4 (ucast fh :: u32)) skb;
       (r, skb) \<leftarrow> (if event \<noteq> RTM_DELTFILTER then do {
            skb \<leftarrow> store (tcm + 8) (le 4 (0 :: u32)) skb;
            case p_dump tp of None \<Rightarrow> Some (0, skb) | Some f \<Rightarrow> f fh tcm skb
          } else Some (0, skb));
       if r <s 0 then failure skb else do {
       skb \<leftarrow> store nlh (le 4 (of_int (int (skb_tail_pointer skb) - int b) :: u32)) skb;
       Some (sk_len skb, skb)
     }}}})"

text \<open>
  The harness.  \<open>DECODE(type, var)\<close> expands to \<open>*(type *)in + pos\<close>, which adds the position to
  the value at the start of the input.  The kind is copied from the rest: a rest of sixteen bytes
  fills the array, and the terminating zero lies behind it.
\<close>

definition ops_kind :: "u8 list \<Rightarrow> u8 list option" where
  "ops_kind rest = (let n = length rest; k = replicate 16 0 in
     if 16 < n then Some ((poke 0 (take 15 rest) k)[15 := 0])
     else if n < 16 then Some ((poke 0 rest k)[n := 0]) else None)"

definition tcf_harness :: "bool \<Rightarrow> (u64 \<Rightarrow> basic_filter option) \<Rightarrow> env \<Rightarrow> u8 list \<Rightarrow> 'z memstate_scheme \<Rightarrow> run option" where
  "tcf_harness cls_act filters E Data s = read_inputs E Data s (\<lambda>public_in secret_in s.
     let s = SEED_MEMORY (rand_fun E) (secret_seed secret_in) s; len = length public_in in do {
     (blk, s) \<leftarrow> wrap_malloc (rand_fun E) (1024 * 1024) s;
     blk \<leftarrow> Option.bind blk init_bytes;
     _ \<leftarrow> guard (8 \<le> len);
     let skb = \<lparr>sk_len = 0, data_len = 0, sk_tail = 0, sk_end = 1024 * 1024, block = blk, data_off = 0\<rparr>;
         fh = of_le (take 8 public_in);
         pid = of_le (take 4 public_in) + 8;
         seq = of_le (take 4 public_in) + 12;
         fl = of_le (take 2 public_in) + 16;
         event = of_le (take 4 public_in) + 18;
         ifi = of_le (take 4 public_in) + 22 in
     if len < 26 then Some (1, [])
     else do {
       kind \<leftarrow> ops_kind (drop 26 public_in);
       let tp = \<lparr>protocol = 0, prio = 0, classid = 0, ifindex = ifi, p_kind = kind, p_dump = Some (basic_dump cls_act filters)\<rparr> in do {
       (res, skb) \<leftarrow> tcf_fill_node tp fh pid seq fl event skb;
       if res <s 0 then Some (1, [])
       else Some (0, [Raw (take (unat (sk_len skb)) (block skb)), nl])
     }}})"

end
