(* ===== verification/Traffic_Proofs.thy ===== *)
theory Traffic_Proofs
  imports Netlink_Proofs Traffic_Control
begin

text \<open>
  The message that \<open>tcf_fill_node\<close> is meant to write, as a byte string, and the equations that show that it
  writes exactly this when the buffer has room for it.
\<close>

section \<open>Encodings\<close>

definition em_payload :: "tcf_ematch \<Rightarrow> u8 list" where
  "em_payload em = (if tcf_em_is_container em \<or> tcf_em_is_simple em then le 4 (ucast (em_data em) :: u32)
     else take (unat (em_datalen em)) (em_pointed em) @ replicate (padn (unat (em_datalen em))) 0)"

definition em_bytes :: "tcf_ematch_tree \<Rightarrow> nat \<Rightarrow> u8 list" where
  "em_bytes tree i = (let em = matches tree ! i in nest (of_nat i + 1) (em_hdr em @ em_payload em))"

definition ematch_bytes :: "tcf_ematch_tree \<Rightarrow> u32 \<Rightarrow> u8 list" where
  "ematch_bytes tree tlv = nest tlv (attr TCA_EMATCH_TREE_HDR (le 2 (nmatches tree) @ le 2 (progid tree))
     @ nest TCA_EMATCH_TREE_LIST (concat (map (em_bytes tree) [0..<unat (nmatches tree)])))"

definition options_bytes :: "basic_filter \<Rightarrow> u8 list" where
  "options_bytes f = nest TCA_OPTIONS ((if f_classid f \<noteq> 0 then attr TCA_BASIC_CLASSID (le 4 (f_classid f)) else [])
     @ ematch_bytes (f_ematches f) TCA_BASIC_EMATCHES)"

text \<open>The data of a match can be read, and the match has no dump function of its own.\<close>

definition em_ok :: "tcf_ematch \<Rightarrow> bool" where
  "em_ok em \<longleftrightarrow> Option.bind (em_ops em) e_dump = None \<and> (tcf_em_is_container em \<or> tcf_em_is_simple em \<or>
     unat (em_datalen em) \<le> length (em_pointed em) \<and> unat (em_datalen em) + 3 < 2 ^ 31)"

definition tree_ok :: "tcf_ematch_tree \<Rightarrow> bool" where
  "tree_ok tree \<longleftrightarrow> unat (nmatches tree) \<le> length (matches tree) \<and> (\<forall>i<unat (nmatches tree). em_ok (matches tree ! i))"

section \<open>Writers that fit\<close>

lemma nla_put_of_length:
  assumes "skb_ok skb" and "unat n = length bs" and "4 + length bs < 2 ^ 16" and "4 + length bs + padn (length bs) \<le> room skb"
  shows "nla_put ty n bs skb = Some (0, append_bytes (attr ty bs) skb)"
proof -
  have "n = of_nat (length bs)" using assms(2) by (metis of_nat_unat ucast_id)
  then show ?thesis using nla_put_fits [OF assms(1,3,4), of bs] by simp
qed

lemma length_em_hdr [simp]: "length (em_hdr em) = 8"
  by (simp add: em_hdr_def)

lemma padn_4 [simp]: "padn 4 = 0" "padn 8 = 0"
  by (simp_all add: padn_def)

lemma em_body_eq:
  assumes "skb_ok skb" and "em_ok em" and "length (em_payload em) \<le> room skb"
  shows "em_body em skb = Some (0, append_bytes (em_payload em) skb)"
proof (cases "tcf_em_is_container em \<or> tcf_em_is_simple em")
  case True
  then show ?thesis
    using assms nla_put_nohdr_eq [OF assms(1), of "le 4 (ucast (em_data em) :: u32)" "le 4 (ucast (em_data em) :: u32)"]
    by (auto simp: em_body_def em_payload_def em_ok_def)
next
  case False
  let ?n = "unat (em_datalen em)" and ?bs = "take (unat (em_datalen em)) (em_pointed em)"
  have l: "?n \<le> length (em_pointed em)" "?n + 3 < 2 ^ 31" using False assms(2) by (auto simp: em_ok_def)
  show ?thesis
  proof (cases "?n = 0")
    case True
    then have "em_datalen em = 0" by (simp add: unat_eq_0)
    moreover have "append_bytes [] skb = skb" by (simp add: append_bytes_def)
    ultimately show ?thesis using False assms(2) by (auto simp: em_body_def em_payload_def em_ok_def)
  next
    case nz: False
    then have "0 < em_datalen em" by (simp add: word_gt_0 unat_eq_0)
    moreover have "nla_put_nohdr (em_datalen em) (em_pointed em) skb = Some (0, append_bytes (em_payload em) skb)"
      using nla_put_nohdr_eq [OF assms(1), of ?bs "em_pointed em"] l False assms(3) by (simp add: em_payload_def)
    ultimately show ?thesis using False assms(2) by (auto simp: em_body_def em_ok_def)
  qed
qed

lemma em_step_eq:
  assumes "skb_ok skb" and "i < length (matches tree)" and "em_ok (matches tree ! i)" and "length (em_bytes tree i) \<le> room skb"
  shows "em_step tree i skb = Some (Inr (append_bytes (em_bytes tree i) skb))"
proof -
  let ?em = "matches tree ! i" and ?ty = "of_nat i + 1 :: u32"
  let ?a = "attr ?ty (em_hdr ?em)"
  have r: "12 + length (em_payload ?em) \<le> room skb" using assms(4) by (simp add: em_bytes_def Let_def)
  have 1: "nla_put ?ty 8 (em_hdr ?em) skb = Some (0, append_bytes ?a skb)"
    by (rule nla_put_of_length) (use assms(1) r in simp_all)
  have ok: "skb_ok (append_bytes ?a skb)" "room (append_bytes ?a skb) = room skb - 12"
    using append_bytes_fields [OF assms(1), of ?a] r by simp_all
  have 2: "em_body ?em (append_bytes ?a skb) = Some (0, append_bytes (?a @ em_payload ?em) skb)"
    using em_body_eq [OF ok(1) assms(3)] ok(2) r append_append_bytes [OF assms(1), of ?a "em_payload ?em"] by simp
  have "append_bytes (?a @ em_payload ?em) skb =
      append_bytes (le 2 (12 :: u16) @ le 2 (ucast ?ty :: u16) @ em_hdr ?em @ em_payload ?em) skb"
    by (simp add: attr_def)
  note 3 = store_nest [OF assms(1) _ this]
  show ?thesis using assms(2) 1 2 3 r by (simp add: em_step_def Let_def em_bytes_def)
qed

lemma em_loop_eq:
  assumes "skb_ok skb" and "n \<le> length (matches tree)" and "\<forall>i<n. em_ok (matches tree ! i)"
    and "length (concat (map (em_bytes tree) [0..<n])) \<le> room skb"
  shows "loopM (em_step tree) [0..<n] skb = Some (Inr (append_bytes (concat (map (em_bytes tree) [0..<n])) skb))"
  using assms(2-)
proof (induction n)
  case 0
  then show ?case by (simp add: append_bytes_def)
next
  case (Suc n)
  let ?bs = "concat (map (em_bytes tree) [0..<n])"
  have l: "length ?bs + length (em_bytes tree n) \<le> room skb" using Suc.prems(3) by simp
  then have ok: "skb_ok (append_bytes ?bs skb)" "room (append_bytes ?bs skb) = room skb - length ?bs"
    using append_bytes_fields [OF assms(1), of ?bs] by linarith+
  have "em_step tree n (append_bytes ?bs skb) = Some (Inr (append_bytes (?bs @ em_bytes tree n) skb))"
    using em_step_eq [OF ok(1), of n tree] ok(2) Suc.prems l append_append_bytes [OF assms(1) l] by simp
  then show ?case using Suc l by (simp add: loopM_append)
qed


lemma tcf_em_tree_dump_eq:
  assumes "skb_ok skb" and "tree_ok tree" and "length (ematch_bytes tree tlv) \<le> room skb"
  shows "tcf_em_tree_dump tree tlv skb = Some (0, append_bytes (ematch_bytes tree tlv) skb)"
proof -
  let ?h = "le 2 (nmatches tree) @ le 2 (progid tree)" and ?ms = "concat (map (em_bytes tree) [0..<unat (nmatches tree)])"
  let ?a = "attr TCA_EMATCH_TREE_HDR ?h" and ?l = "nest TCA_EMATCH_TREE_LIST ?ms"
  define s1 where "s1 = append_bytes (attr tlv []) skb"
  define s2 where "s2 = append_bytes ?a s1"
  have r: "16 + length ?ms \<le> room skb" using assms(3) by (simp add: ematch_bytes_def)
  note top = nla_nest_step [OF assms(1), of "?a @ ?l" tlv, folded s1_def]
  have s1: "skb_ok s1" "room s1 = room skb - 4" using top r by simp_all
  have 1: "nla_put TCA_EMATCH_TREE_HDR 4 ?h s1 = Some (0, s2)"
    unfolding s2_def by (rule nla_put_of_length) (use s1 r in simp_all)
  have s2: "skb_ok s2" "room s2 = room skb - 12"
    using append_bytes_fields [OF s1(1), of ?a] s1(2) r unfolding s2_def by simp_all
  note li = nla_nest_step [OF s2(1), of ?ms TCA_EMATCH_TREE_LIST]
  have 2: "loopM (em_step tree) [0..<unat (nmatches tree)] (append_bytes (attr TCA_EMATCH_TREE_LIST []) s2) =
      Some (Inr (append_bytes ?ms (append_bytes (attr TCA_EMATCH_TREE_LIST []) s2)))"
    using assms(2) li s2 r by (intro em_loop_eq) (auto simp: tree_ok_def)
  have 3: "append_bytes ?l s2 = append_bytes (?a @ ?l) s1"
    unfolding s2_def using append_append_bytes [OF s1(1), of ?a ?l] s1(2) r by simp
  show ?thesis
    using top li 1 2 3 r s1 s2 by (simp add: tcf_em_tree_dump_def ematch_bytes_def)
qed

lemma basic_dump_eq:
  assumes "fh \<noteq> 0" and "filters fh = Some f" and "store (t + 8) (le 4 (f_handle f)) skb = Some skb1" and "skb_ok skb1"
    and "tree_ok (f_ematches f)" and "length (options_bytes f) \<le> room skb1"
  shows "basic_dump False filters fh t skb =
    Some (sk_len skb1 + of_nat (length (options_bytes f)), append_bytes (options_bytes f) skb1)"
proof -
  let ?c = "if f_classid f \<noteq> 0 then attr TCA_BASIC_CLASSID (le 4 (f_classid f)) else []"
  let ?e = "ematch_bytes (f_ematches f) TCA_BASIC_EMATCHES"
  define s1 where "s1 = append_bytes (attr TCA_OPTIONS []) skb1"
  define s2 where "s2 = append_bytes ?c s1"
  have r: "4 + length ?c + length ?e \<le> room skb1" using assms(6) by (simp add: options_bytes_def)
  note top = nla_nest_step [OF assms(4), of "?c @ ?e" TCA_OPTIONS, folded s1_def]
  have s1: "skb_ok s1" "room s1 = room skb1 - 4" using top r by simp_all
  have nil: "append_bytes [] s1 = s1" by (simp add: append_bytes_def)
  have 1: "(if f_classid f \<noteq> 0 then nla_put TCA_BASIC_CLASSID 4 (le 4 (f_classid f)) s1 else Some (0, s1)) = Some (0, s2)"
  proof (cases "f_classid f = 0")
    case False
    have "nla_put TCA_BASIC_CLASSID 4 (le 4 (f_classid f)) s1 = Some (0, append_bytes (attr TCA_BASIC_CLASSID (le 4 (f_classid f))) s1)"
      by (rule nla_put_of_length) (use s1 r False in simp_all)
    then show ?thesis using False by (simp add: s2_def)
  qed (simp add: s2_def nil)
  have s2: "skb_ok s2" "room s2 = room skb1 - 4 - length ?c"
    using append_bytes_fields [OF s1(1), of ?c] s1(2) r unfolding s2_def by linarith+
  have 2: "tcf_em_tree_dump (f_ematches f) TCA_BASIC_EMATCHES s2 = Some (0, append_bytes ?e s2)"
    by (rule tcf_em_tree_dump_eq [OF s2(1) assms(5)]) (use s2(2) r in linarith)
  have "length ?c + length ?e \<le> room s1" using s1(2) r by linarith
  then have 3: "append_bytes ?e s2 = append_bytes (?c @ ?e) s1"
    unfolding s2_def by (rule append_append_bytes [OF s1(1)])
  have o: "options_bytes f = nest TCA_OPTIONS (?c @ ?e)" by (simp add: options_bytes_def)
  have r': "4 + length (?c @ ?e) \<le> room skb1" using r by simp
  have len: "sk_len (append_bytes bs s) = sk_len s + of_nat (length bs)" for bs s by (simp add: append_bytes_def)
  show ?thesis
    using assms(1-3) top(1,4) [OF r'] 1 2 3 unfolding o
    by (simp add: basic_dump_def Let_def tcf_exts_dump_def len)
qed

section \<open>Writing into what was appended\<close>

lemma store_in:
  assumes "skb_ok skb" and "length bs \<le> room skb" and "k + length c \<le> length bs"
  shows "store (skb_tail_pointer skb + k) c (append_bytes bs skb) = Some (append_bytes (poke k c bs) skb)"
proof -
  let ?p = "skb_tail_pointer skb"
  have b: "?p + length bs \<le> length (block skb)" using room_bounds(1) [OF assms(1)] assms(2) by linarith
  have "bs = take k bs @ take (length c) (drop k bs) @ drop (k + length c) bs"
    by (metis append_take_drop_id drop_drop add.commute)
  moreover have "poke (?p + length (take k bs)) c (poke ?p (take k bs @ take (length c) (drop k bs) @ drop (k + length c) bs) (block skb)) =
      poke ?p (take k bs @ c @ drop (k + length c) bs) (block skb)"
    by (rule poke_inside) (use assms(3) b in auto)
  ultimately have "poke (?p + k) c (poke ?p bs (block skb)) = poke ?p (poke k c bs) (block skb)"
    using assms(3) by (simp add: poke_def [of k])
  then show ?thesis using b assms(3) by (simp add: store_def append_bytes_def)
qed

lemma poke_append: "k + length c \<le> length a \<Longrightarrow> poke k c (a @ b) = poke k c a @ b"
  by (simp add: poke_def)

end
