(* ===== verification/Node_Proofs.thy ===== *)
theory Node_Proofs
  imports Traffic_Proofs
begin

text \<open>The two headers, with the bytes of the length, of the padding and of the handle.\<close>

definition node_header :: "tcf_proto \<Rightarrow> u32 \<Rightarrow> u32 \<Rightarrow> u16 \<Rightarrow> u32 \<Rightarrow> u8 list \<Rightarrow> u8 list \<Rightarrow> u8 list \<Rightarrow> u8 list" where
  "node_header tp pid seq fl event len pad handle = len @ le 2 (ucast event :: u16) @ le 2 fl @ le 4 seq @ le 4 pid
     @ [0, 0] @ pad @ le 4 (ifindex tp) @ handle @ le 4 (classid tp) @ le 4 (TC_H_MAKE (prio tp) (ucast (protocol tp)))"

text \<open>The handle and the options: no filter is dumped for a deletion or for the NULL filter.\<close>

definition node_handle :: "(u64 \<Rightarrow> basic_filter option) \<Rightarrow> u64 \<Rightarrow> u32 \<Rightarrow> u32" where
  "node_handle filters fh event = (if event = RTM_DELTFILTER then ucast fh
     else if fh = 0 then 0 else case filters fh of None \<Rightarrow> 0 | Some f \<Rightarrow> f_handle f)"

definition node_options :: "(u64 \<Rightarrow> basic_filter option) \<Rightarrow> u64 \<Rightarrow> u32 \<Rightarrow> u8 list" where
  "node_options filters fh event = (if event = RTM_DELTFILTER \<or> fh = 0 then []
     else case filters fh of None \<Rightarrow> [] | Some f \<Rightarrow> options_bytes f)"

definition node_message ::
    "tcf_proto \<Rightarrow> (u64 \<Rightarrow> basic_filter option) \<Rightarrow> u64 \<Rightarrow> u32 \<Rightarrow> u32 \<Rightarrow> u16 \<Rightarrow> u32 \<Rightarrow> u8 list \<Rightarrow> u8 list" where
  "node_message tp filters fh pid seq fl event pad =
    (let attrs = attr TCA_KIND (c_str (p_kind tp) @ [0]) @ node_options filters fh event
     in node_header tp pid seq fl event (le 4 (of_nat (36 + length attrs) :: u32)) pad (le 4 (node_handle filters fh event)) @ attrs)"

lemma header_pokes:
  assumes "length o' = 36"
  shows "poke 8 (le 4 (seq :: u32)) (poke 12 (le 4 (pid :: u32)) (poke 6 (le 2 (fl :: u16)) (poke 0 (le 4 (sz :: u32)) (poke 4 (le 2 (ev :: u16)) o'))))
    = le 4 sz @ le 2 ev @ le 2 fl @ le 4 seq @ le 4 pid @ drop 16 o'"
  by (rule nth_equalityI) (use assms in \<open>auto simp: nth_poke nth_append\<close>)

lemma skb_put_append:
  assumes "skb_ok skb" and "unat n \<le> room skb"
  shows "skb_put n skb = Some (skb_tail_pointer skb, append_bytes (take (unat n) (drop (skb_tail_pointer skb) (block skb))) skb)"
proof -
  have b: "skb_tail_pointer skb + unat n \<le> length (block skb)" using room_bounds(1) [OF assms(1)] assms(2) by linarith
  have "poke (skb_tail_pointer skb) (take (unat n) (drop (skb_tail_pointer skb) (block skb))) (block skb) = block skb"
    by (rule nth_equalityI) (use b in \<open>auto simp: nth_poke\<close>)
  moreover have "length (take (unat n) (drop (skb_tail_pointer skb) (block skb))) = unat n" using b by simp
  ultimately show ?thesis using skb_put_eq [OF assms] by (simp add: append_bytes_def)
qed

lemma nlmsg_put_eq:
  assumes "skb_ok skb" and "36 \<le> room skb"
  shows "nlmsg_put pid seq event 20 (ucast fl) skb = Some (skb_tail_pointer skb,
    append_bytes (le 4 (36 :: u32) @ le 2 (ucast event :: u16) @ le 2 (fl :: u16) @ le 4 seq @ le 4 pid
      @ take 20 (drop (skb_tail_pointer skb + 16) (block skb))) skb)"
proof -
  let ?p = "skb_tail_pointer skb" and ?o = "take 36 (drop (skb_tail_pointer skb) (block skb))"
  have b: "?p + 36 \<le> length (block skb)" using room_bounds(1) [OF assms(1)] assms(2) by linarith
  have o: "length ?o = 36" using b by simp
  have c: "NLMSG_LENGTH 20 = 36" "NLMSG_ALIGN 36 = 36" "NLMSG_LENGTH 0 = 16"
    by (simp_all add: NLMSG_LENGTH_def NLMSG_ALIGN_def)
  have f: "ucast (ucast fl :: u32) = fl" by (rule bit_word_eqI) (simp add: bit_simps)
  have st: "store (?p + k) c (append_bytes bs skb) = Some (append_bytes (poke k c bs) skb)"
    if "length bs = 36" "k + length c \<le> 36" for k c bs
    by (rule store_in) (use assms that in simp_all)
  note st0 = st [of _ 0, simplified]
  have e: "store q [] s = Some s" if "q \<le> length (block s)" for q s using that by (simp add: store_def)
  have i: "int_size 0 = 0" by (simp add: int_size_def)
  have l: "length (block (append_bytes bs skb)) = length (block skb)" if "length bs = 36" for bs
    using that b by (simp add: append_bytes_def)
  have d: "drop 16 ?o = take 20 (drop (?p + 16) (block skb))" by (simp add: drop_take add.commute)
  show ?thesis
    unfolding nlmsg_put_def Let_def c
    using skb_put_append [OF assms(1), of 36] assms(2) o b
    by (simp add: st st0 f c i e l header_pokes [OF o] d [simplified])
qed


lemma length_node_header [simp]:
  "length (node_header tp pid seq fl event len pad handle) = length len + length pad + length handle + 26"
  by (simp add: node_header_def)

lemma node_pokes:
  assumes "length old = 20"
  shows "poke 32 (le 4 (TC_H_MAKE (prio tp) (ucast (protocol tp)))) (poke 28 (le 4 (classid tp)) (poke 20 (le 4 (ifindex tp))
      (poke 17 [0] (poke 17 [0] (poke 16 [0] (le 4 sz @ le 2 (ucast event :: u16) @ le 2 fl @ le 4 seq @ le 4 pid @ old))))))
    = node_header tp pid seq fl event (le 4 (sz :: u32)) (take 2 (drop 2 old)) (take 4 (drop 8 old))"
  using assms by (simp add: poke_def node_header_def min_def drop_take) (simp add: numeral_2_eq_2)

lemma poke_handle:
  assumes "length len = 4" and "length pad = 2" and "length x = 4" and "length y = 4"
  shows "poke 24 y (node_header tp pid seq fl event len pad x @ r) = node_header tp pid seq fl event len pad y @ r"
  using assms by (simp add: poke_def node_header_def)

lemma poke_len:
  assumes "length x = 4" and "length y = 4" and "length pad = 2" and "length handle = 4"
  shows "poke 0 y (node_header tp pid seq fl event x pad handle @ r) = node_header tp pid seq fl event y pad handle @ r"
  using assms by (simp add: poke_def node_header_def)


lemma NLA_PUT_STRING_eq:
  assumes "skb_ok skb" and "0 \<in> set s" and "length (c_str s) < 1000" and "length (attr ty (c_str s @ [0])) \<le> room skb"
  shows "NLA_PUT_STRING ty s skb = Some (0, append_bytes (attr ty (c_str s @ [0])) skb)"
proof -
  let ?s = "c_str s @ [0]"
  have "unat (of_nat (length ?s) :: u32) = length ?s" using assms(3) by (intro unat_of_nat_u32) simp
  then have "nla_put ty (of_nat (length ?s)) ?s skb = Some (0, append_bytes (attr ty ?s) skb)"
    by (rule nla_put_of_length [OF assms(1)]) (use assms(3,4) in simp_all)
  then show ?thesis using assms(2) by (simp add: NLA_PUT_STRING_def c_string_def)
qed

text \<open>
  With room for the message, \<open>tcf_fill_node\<close> appends exactly the message; the two bytes of \<open>tcm__pad2\<close> are
  those that the block held before.
\<close>

lemma fill_node_eq:
  assumes ok: "skb_ok skb" and dump: "p_dump tp = Some (basic_dump False filters)"
    and kind: "0 \<in> set (p_kind tp)" "length (c_str (p_kind tp)) < 1000"
    and fil: "event = RTM_DELTFILTER \<or> fh = 0 \<or> (\<exists>f. filters fh = Some f \<and> tree_ok (f_ematches f))"
    and len: "length (node_message tp filters fh pid seq fl event [0, 0]) \<le> room skb"
    and msg: "msg = node_message tp filters fh pid seq fl event (take 2 (drop (skb_tail_pointer skb + 18) (block skb)))"
  shows "tcf_fill_node tp fh pid seq fl event skb = Some (sk_len skb + of_nat (length msg), append_bytes msg skb)"
proof -
  let ?p = "skb_tail_pointer skb" and ?k = "attr TCA_KIND (c_str (p_kind tp) @ [0])"
  let ?old = "take 20 (drop (?p + 16) (block skb))" and ?o = "node_options filters fh event"
  let ?pad = "take 2 (drop (?p + 18) (block skb))" and ?h = "le 4 (node_handle filters fh event)"
  define H where "H = node_header tp pid seq fl event"
  have r: "36 + length ?k + length ?o \<le> room skb"
    using len by (simp add: node_message_def Let_def)
  have b: "?p + 36 \<le> length (block skb)" using room_bounds(1) [OF ok] r by linarith
  have old: "length ?old = 20" "take 2 (drop 2 ?old) = ?pad" "length ?pad = 2" "length (take 4 (drop 8 ?old)) = 4"
    using b by (simp_all add: drop_take add.commute)
  have st: "store (?p + k) c (append_bytes bs skb) = Some (append_bytes (poke k c bs) skb)"
    if "length bs \<le> room skb" "k + length c \<le> length bs" for k c bs
    by (rule store_in) (use ok that in simp_all)
  note st0 = st [of _ 0, simplified]
  have cc: "unat (NLMSG_LENGTH 0) = 16" "NLMSG_SPACE 20 = 36" by (simp_all add: NLMSG_LENGTH_def NLMSG_ALIGN_def NLMSG_SPACE_def)
  have t: "\<not> skb_tailroom skb <s 36"
    using sless_unat [of "skb_tailroom skb" 36] skb_tailroom_room [OF ok] room_bounds(2) [OF ok] r by simp
  let ?h1 = "H (le 4 (36 :: u32)) ?pad (take 4 (drop 8 ?old))"
  have lH: "length (H l pd hd) = length l + length pd + length hd + 26" for l pd hd by (simp add: H_def)
  have fits: "skb_ok (append_bytes bs skb)" "room (append_bytes bs skb) = room skb - length bs"
    if "length bs \<le> room skb" for bs using append_bytes_fields [OF ok that] by simp_all
  have "length ?k \<le> room (append_bytes ?h1 skb)" using fits(2) [of ?h1] lH old r by simp
  then have 1: "NLA_PUT_STRING TCA_KIND (p_kind tp) (append_bytes ?h1 skb) = Some (0, append_bytes (?h1 @ ?k) skb)"
    using NLA_PUT_STRING_eq [OF _ kind] fits(1) [of ?h1] append_append_bytes [OF ok, of ?h1 ?k] lH old r by simp
  have 2: "store (?p + 24) (le 4 (v :: u32)) (append_bytes (H (le 4 (36 :: u32)) ?pad (x :: u8 list) @ ?k) skb) =
      Some (append_bytes (H (le 4 (36 :: u32)) ?pad (le 4 v) @ ?k) skb)" if "length x = 4" for v x
    using st [of "H (le 4 (36 :: u32)) ?pad x @ ?k" 24 "le 4 v"] that lH old r
      poke_handle [of "le 4 (36 :: u32)" ?pad x "le 4 v" tp pid seq fl event ?k] by (simp add: H_def)
  let ?H = "\<lambda>x. H (le 4 (36 :: u32)) ?pad x" and ?fh = "le 4 (ucast fh :: u32)"
  have nn: "\<not> sk_len s <s 0" if "skb_ok s" for s
    using that sless_unat [of "sk_len s" 0] unfolding skb_ok_def by simp
  have 3: "\<exists>r. (if event \<noteq> RTM_DELTFILTER then do {
        s \<leftarrow> store (?p + 24) (le 4 (0 :: u32)) (append_bytes (?H ?fh @ ?k) skb);
        case p_dump tp of None \<Rightarrow> Some (0, s) | Some f \<Rightarrow> f fh (?p + 16) s
      } else Some (0, append_bytes (?H ?fh @ ?k) skb)) = Some (r, append_bytes (?H ?h @ ?k @ ?o) skb) \<and> \<not> r <s 0"
  proof (cases "event = RTM_DELTFILTER")
    case True
    then show ?thesis by (simp add: node_handle_def node_options_def)
  next
    case nd: False
    let ?s = "append_bytes (?H (le 4 (0 :: u32)) @ ?k) skb"
    have s: "skb_ok ?s" "room ?s = room skb - (36 + length ?k)"
      using fits [of "?H (le 4 (0 :: u32)) @ ?k"] lH old r by simp_all
    show ?thesis
    proof (cases "fh = 0")
      case True
      then show ?thesis using nd dump 2 nn [OF s(1)] by (simp add: node_handle_def node_options_def basic_dump_def)
    next
      case False
      then obtain f where f: "filters fh = Some f" "tree_ok (f_ematches f)" using fil nd by blast
      let ?s1 = "append_bytes (?H (le 4 (f_handle f)) @ ?k) skb"
      have o: "?o = options_bytes f" "?h = le 4 (f_handle f)" using nd False f by (simp_all add: node_options_def node_handle_def)
      have s1: "skb_ok ?s1" "room ?s1 = room skb - (36 + length ?k)"
        using fits [of "?H (le 4 (f_handle f)) @ ?k"] lH old r by simp_all
      have w: "store (?p + 16 + 8) (le 4 (f_handle f)) ?s = Some ?s1"
        using 2 [of "le 4 (0 :: u32)" "f_handle f"] by (simp add: add.commute)
      have l: "length (options_bytes f) \<le> room ?s1" using s1(2) r by (simp add: o)
      have a: "append_bytes (options_bytes f) ?s1 = append_bytes (?H (le 4 (f_handle f)) @ ?k @ options_bytes f) skb"
        using append_append_bytes [OF ok, of "?H (le 4 (f_handle f)) @ ?k" "options_bytes f"] r lH old by (simp add: o)
      have "basic_dump False filters fh (?p + 16) ?s = Some (sk_len ?s1 + of_nat (length (options_bytes f)),
          append_bytes (?H (le 4 (f_handle f)) @ ?k @ options_bytes f) skb)"
        using basic_dump_eq [where filters = filters and t = "?p + 16" and f = f, OF False f(1) w s1(1) f(2) l] a by simp
      moreover have "sk_len ?s1 + of_nat (length (options_bytes f)) = sk_len (append_bytes (options_bytes f) ?s1)"
        by (simp add: append_bytes_def)
      moreover have "\<not> sk_len (append_bytes (options_bytes f) ?s1) <s 0"
        by (rule nn) (use append_bytes_fields(5) [OF s1(1) l] in simp)
      ultimately show ?thesis using nd dump 2 o by simp
    qed
  qed
  let ?M = "?H ?h @ ?k @ ?o"
  have lM: "length ?M = 36 + length ?k + length ?o" using lH old by simp
  have 4: "store ?p (le 4 (of_int (int (skb_tail_pointer (append_bytes ?M skb)) - int ?p) :: u32)) (append_bytes ?M skb) =
      Some (append_bytes msg skb)"
  proof -
    have "skb_tail_pointer (append_bytes ?M skb) = ?p + length ?M"
      using append_bytes_fields(3) [OF ok, of ?M] lM r by simp
    then have i: "of_int (int (skb_tail_pointer (append_bytes ?M skb)) - int ?p) = (of_nat (36 + length (?k @ ?o)) :: u32)"
      using lM by simp
    have m: "poke 0 (le 4 (of_nat (36 + length (?k @ ?o)) :: u32)) ?M = msg"
      unfolding msg node_message_def Let_def H_def by (rule poke_len) (use old in simp_all)
    show ?thesis unfolding i using st0 [of ?M "le 4 (of_nat (36 + length (?k @ ?o)) :: u32)"] lM r by (simp only: m) simp
  qed
  have 5: "sk_len (append_bytes msg skb) = sk_len skb + of_nat (length msg)" by (simp add: append_bytes_def)
  have p: "?p + 16 + 1 = ?p + 17" "?p + 16 + 4 = ?p + 20" "?p + 16 + 12 = ?p + 28" "?p + 16 + 16 = ?p + 32" "?p + 16 + 8 = ?p + 24"
    by simp_all
  obtain rr where rr: "(if event \<noteq> RTM_DELTFILTER then do {
        s \<leftarrow> store (?p + 24) (le 4 (0 :: u32)) (append_bytes (?H ?fh @ ?k) skb);
        case p_dump tp of None \<Rightarrow> Some (0, s) | Some f \<Rightarrow> f fh (?p + 16) s
      } else Some (0, append_bytes (?H ?fh @ ?k) skb)) = Some (rr, append_bytes (?H ?h @ ?k @ ?o) skb)" "\<not> rr <s 0"
    using 3 by blast
  have h1: "poke 32 (le 4 (TC_H_MAKE (prio tp) (ucast (protocol tp)))) (poke 28 (le 4 (classid tp)) (poke 20 (le 4 (ifindex tp))
      (poke 17 [0] (poke 17 [0] (poke 16 [0] (le 4 (36 :: u32) @ le 2 (ucast event :: u16) @ le 2 fl @ le 4 seq @ le 4 pid @ ?old)))))) = ?h1"
    using node_pokes [OF old(1), of tp 36 event fl seq pid] old(2) by (simp add: H_def)
  have n1: "nlmsg_put pid seq event 20 (ucast fl) skb = Some (?p, append_bytes
      (le 4 (36 :: u32) @ le 2 (ucast event :: u16) @ le 2 fl @ le 4 seq @ le 4 pid @ ?old) skb)"
    by (rule nlmsg_put_eq [OF ok]) (use r in linarith)
  show ?thesis
    unfolding tcf_fill_node_def Let_def cc n1 bind.bind_lunit prod.case p
    using t r old(1) rr(2)
    by (simp add: st h1 1 2 [OF old(4)] rr(1) 4 [simplified] 5)
qed

end
