(* ===== verification/Node_Safety.thy ===== *)
theory Node_Safety
  imports Node_Proofs
begin

text \<open>
  No writer of tcf\_fill\_node leaves the buffer or changes what was there before, also when the room
  runs out in the middle of a message.
\<close>

section \<open>Results that hold\<close>

definition post :: "'a option \<Rightarrow> ('a \<Rightarrow> bool) \<Rightarrow> bool" where
  "post m Q \<longleftrightarrow> (\<exists>x. m = Some x \<and> Q x)"

lemma post_bind: "post m Q \<Longrightarrow> (\<And>x. Q x \<Longrightarrow> post (f x) R) \<Longrightarrow> post (Option.bind m f) R"
  by (auto simp: post_def)

lemma post_Some [simp]: "post (Some x) Q \<longleftrightarrow> Q x"
  by (simp add: post_def)

lemma post_mono: "post m Q \<Longrightarrow> (\<And>x. Q x \<Longrightarrow> R x) \<Longrightarrow> post m R"
  by (auto simp: post_def)

text \<open>
  A writer that keeps the old bytes of every well-formed buffer, with the two ways to use it: as a step
  before others, and as the last step.
\<close>

definition safe_writer :: "writer \<Rightarrow> bool" where
  "safe_writer f \<longleftrightarrow> (\<forall>s. skb_ok s \<longrightarrow> post (f s) (\<lambda>(r, s'). keeps (skb_tail_pointer s) s s'))"

lemma keeps_self: "skb_ok s \<Longrightarrow> keeps (skb_tail_pointer s) s s"
  by (simp add: keeps_refl off_le_tail)

lemma keeps_step: "keeps b s0 s \<Longrightarrow> keeps (skb_tail_pointer s) s s' \<Longrightarrow> keeps b s0 s' \<and> skb_tail_pointer s \<le> skb_tail_pointer s'"
  using keeps_trans [of b s0 s "skb_tail_pointer s" s'] by (auto simp: keeps_def)

lemma writer_step:
  assumes "safe_writer f" and "keeps b s0 s"
    and "\<And>r s'. keeps b s0 s' \<Longrightarrow> skb_tail_pointer s \<le> skb_tail_pointer s' \<Longrightarrow> post (g (r, s')) R"
  shows "post (Option.bind (f s) g) R"
proof (rule post_bind)
  show "post (f s) (\<lambda>(r, s'). keeps (skb_tail_pointer s) s s')" 
    using assms(1) keeps_ok [OF assms(2)] by (simp add: safe_writer_def)
  fix x :: "u32 \<times> sk_buff"
  assume "case x of (r, s') \<Rightarrow> keeps (skb_tail_pointer s) s s'"
  then show "post (g x) R" using assms(3) keeps_step [OF assms(2)] by (cases x) auto
qed

lemma writer_last:
  assumes "safe_writer f" and "keeps b s0 s"
  shows "post (f s) (\<lambda>(r, s'). keeps b s0 s')"
  using writer_step [OF assms, of Some] by simp

lemma store_step:
  assumes "keeps b s0 s" and "b \<le> p" and "p + length bs \<le> skb_tail_pointer s"
    and "\<And>s'. keeps b s0 s' \<Longrightarrow> skb_tail_pointer s' = skb_tail_pointer s \<Longrightarrow> post (g s') R"
  shows "post (Option.bind (store p bs s) g) R"
proof -
  have ok: "skb_ok s" using assms(1) by (rule keeps_ok)
  have l: "p + length bs \<le> length (block s)" using room_bounds(1) [OF ok] assms(3) by linarith
  let ?s = "s\<lparr>block := poke p bs (block s)\<rparr>"
  have "skb_ok ?s" using ok l by (simp add: skb_ok_def)
  moreover have "take b (poke p bs (block s)) = take b (block s)" using l assms(2) by (rule take_poke)
  ultimately have "keeps b s0 ?s" using assms(1) l by (simp add: keeps_def skb_tail_pointer_def)
  then have "post (g ?s) R" using assms(4) by (simp add: skb_tail_pointer_def)
  then show ?thesis using l by (simp add: store_def)
qed

section \<open>Attributes\<close>

lemma nla_put_safe:
  assumes "n + 7 < 2 ^ 31" and "n \<le> length src" and "skb_ok s"
  shows "post (nla_put ty (of_nat n) src s) (\<lambda>(r, s'). keeps (skb_tail_pointer s) s s' \<and>
    (r = - EMSGSIZE \<and> s' = s \<or> r = 0 \<and> skb_tail_pointer s' = skb_tail_pointer s + 4 + n + padn n))"
proof (cases "room s < 4 + n + padn n")
  case True
  then show ?thesis using nla_put_full [OF assms(3,1)] keeps_self [OF assms(3)] by simp
next
  case False
  let ?p = "skb_tail_pointer s" and ?t = "4 + n + padn n" and ?len = "of_nat (4 + n) :: u16"
  have b: "?p + ?t \<le> length (block s)" using room_bounds(1) [OF assms(3)] False by linarith
  have "unat ?len \<le> 4 + n" unfolding unat_of_nat by (rule mod_less_eq_dividend)
  then have l: "?p + unat ?len + padn n \<le> length (block s)" using b by linarith
  have nb: "unat (of_nat n :: u32) = n" using assms(1) by (intro unat_of_nat_u32) simp
  then have sz: "int_size (of_nat n) = n" using scast_nonneg [of "of_nat n"] assms(1) by simp
  have "unat (nla_total_size (of_nat n)) < 2 ^ 31" using total_size(1) [of n] assms(1) padn_less [of n] by simp
  then have f: "\<not> skb_tailroom s <s nla_total_size (of_nat n)"
    using sless_unat [of "skb_tailroom s" "nla_total_size (of_nat n)"] skb_tailroom_room [OF assms(3)] room_bounds(2) [OF assms(3)]
      total_size(1) [of n] assms(1) False by simp
  let ?B = "poke (?p + unat ?len) (replicate (padn n) 0) (poke ?p (le 2 ?len @ le 2 (ucast ty :: u16)) (block s))"
  let ?a = "append_bytes (replicate ?t 0) s"
  let ?s = "?a\<lparr>block := poke (?p + 4) (take n src) ?B\<rparr>"
  have B: "length ?B = length (block s)" "take ?p ?B = take ?p (block s)" using l b by (simp_all add: take_poke)
  have r: "nla_put ty (of_nat n) src s = Some (0, ?s)"
    using f nla_reserve_eq [OF assms(3,1), of ty] False b assms(2) B(1) unfolding Let_def
    by (simp add: nla_put_def nla_put_unchecked_def copy_in_def sz store_def nla_data_def append_bytes_def min_def)
  have a: "keeps ?p s ?a" "skb_tail_pointer ?a = ?p + ?t"
    using append_bytes_fields(3,6) [OF assms(3), of "replicate ?t 0"] False by simp_all
  have "keeps ?p s ?s"
    using a B b assms(2) by (simp add: keeps_def skb_ok_def skb_tail_pointer_def take_poke min_def) (simp add: append_bytes_def)
  moreover have "skb_tail_pointer ?s = ?p + ?t" using a(2) by (simp add: skb_tail_pointer_def)
  ultimately show ?thesis using r by simp
qed


lemma nla_put_writer:
  assumes "unat n + 7 < 2 ^ 31" and "unat n \<le> length src"
  shows "safe_writer (nla_put ty n src)"
proof -
  have "post (nla_put ty n src s) (\<lambda>(r, s'). keeps (skb_tail_pointer s) s s')" if "skb_ok s" for s
    using nla_put_safe [OF assms that, of ty] by (auto simp: elim!: post_mono)
  then show ?thesis by (simp add: safe_writer_def)
qed

lemma nla_put_nohdr_writer:
  assumes "unat n + 3 < 2 ^ 31" and "unat n \<le> length src"
  shows "safe_writer (nla_put_nohdr n src)"
proof -
  let ?bs = "take (unat n) src"
  have l: "length ?bs = unat n" using assms(2) by simp
  have "post (nla_put_nohdr n src s) (\<lambda>(r, s'). keeps (skb_tail_pointer s) s s')" if ok: "skb_ok s" for s
  proof (cases "room s < unat n + padn (unat n)")
    case True
    then show ?thesis using nla_put_nohdr_eq [OF ok, of ?bs src] l assms(1) keeps_self [OF ok] by simp
  next
    case False
    let ?b = "?bs @ replicate (padn (unat n)) 0"
    have "keeps (skb_tail_pointer s) s (append_bytes ?b s)" using append_bytes_fields(6) [OF ok, of ?b] False l by simp
    then show ?thesis using nla_put_nohdr_eq [OF ok, of ?bs src] l assms(1) False by simp
  qed
  then show ?thesis by (simp add: safe_writer_def)
qed

lemma string_writer:
  assumes "0 \<in> set s" and "length s < 1000"
  shows "safe_writer (NLA_PUT_STRING ty s)"
proof -
  have "length (c_str s) < 1000" using assms(2) length_takeWhile_le [of "\<lambda>b. b \<noteq> 0" s] by (simp add: c_str_def)
  moreover from this have "unat (of_nat (length (c_str s @ [0])) :: u32) = length (c_str s @ [0])" by (intro unat_of_nat_u32) simp
  ultimately have "safe_writer (nla_put ty (of_nat (length (c_str s @ [0]))) (c_str s @ [0]))"
    by (intro nla_put_writer) simp_all
  then show ?thesis using assms(1) by (simp add: safe_writer_def NLA_PUT_STRING_def c_string_def)
qed

section \<open>Nests and trimming\<close>

lemma nest_start_step:
  assumes "keeps b s0 s"
    and "\<And>s'. keeps b s0 s' \<Longrightarrow> skb_tail_pointer s' = skb_tail_pointer s + 4 \<Longrightarrow> post (g (Some (skb_tail_pointer s), s')) R"
    and "post (g (None, s)) R"
  shows "post (Option.bind (nla_nest_start ty s) g) R"
proof (cases "room s < 4")
  case True
  then show ?thesis using nest_start_eq [OF keeps_ok [OF assms(1)], of ty] assms(3) by simp
next
  case False
  let ?s = "append_bytes (attr ty []) s"
  have "keeps (skb_tail_pointer s) s ?s" "skb_tail_pointer ?s = skb_tail_pointer s + 4"
    using append_bytes_fields(3,6) [OF keeps_ok [OF assms(1)], of "attr ty []"] False by simp_all
  then show ?thesis using nest_start_eq [OF keeps_ok [OF assms(1)], of ty] False assms(2) keeps_step [OF assms(1)] by simp
qed

lemma nest_end_step:
  assumes "keeps b s0 s" and "b \<le> p" and "p + 4 \<le> skb_tail_pointer s"
    and "\<And>s'. keeps b s0 s' \<Longrightarrow> skb_tail_pointer s' = skb_tail_pointer s \<Longrightarrow> post (g (sk_len s', s')) R"
  shows "post (Option.bind (nla_nest_end p s) g) R"
  unfolding nla_nest_end_def bind_assoc
proof (rule store_step [OF assms(1,2)])
  show "post (Option.bind (Some (sk_len s', s')) g) R" if "keeps b s0 s'" "skb_tail_pointer s' = skb_tail_pointer s" for s'
    using assms(4) [OF that] by simp
qed (use assms(3) in simp)

lemma trim_keeps:
  assumes "keeps b s0 s" and "b \<le> m" and "m \<le> skb_tail_pointer s"
  shows "keeps b s0 (nlmsg_trim (Some m) s)" and "skb_tail_pointer (nlmsg_trim (Some m) s) = m"
proof -
  have ok: "skb_ok s" and off: "data_off s \<le> b" using assms(1) by (auto simp: keeps_def)
  note w = ok [unfolded skb_ok_def]
  let ?k = "s\<lparr>sk_len := of_nat (m - data_off s), sk_tail := of_nat m\<rparr>"
  have m: "m \<le> unat (sk_tail s)" using assms(3) by (simp add: skb_tail_pointer_def)
  have m32: "m < 2 ^ 32" using m w by simp
  then have u1: "unat (of_nat m :: u32) = m" by (rule unat_of_nat_u32)
  have "m - data_off s < 2 ^ 32" using m32 by linarith
  then have u2: "unat (of_nat (m - data_off s) :: u32) = m - data_off s" by (rule unat_of_nat_u32)
  have k: "skb_ok ?k" "skb_tail_pointer ?k = m"
    using w u1 u2 m off assms(2) by (simp_all add: skb_ok_def skb_tail_pointer_def)
  have "keeps m ?k s" using ok off assms(2,3) by (simp add: keeps_def)
  then have t: "keeps m ?k (nlmsg_trim (Some m) s)" "sk_tail (nlmsg_trim (Some m) s) = sk_tail ?k"
    using nlmsg_trim_keeps [OF k(1), of s] k(2) by simp_all
  have "keeps m s (nlmsg_trim (Some m) s)" using t(1) by (simp add: keeps_def)
  then show "keeps b s0 (nlmsg_trim (Some m) s)" by (rule keeps_trans [OF assms(1)]) (rule assms(2))
  show "skb_tail_pointer (nlmsg_trim (Some m) s) = m" using t(2) u1 by (simp add: skb_tail_pointer_def)
qed


section \<open>Statistics and actions\<close>

lemma gnet_stats_copy_writer:
  assumes "unat n + 7 < 2 ^ 31" and "unat n \<le> length buf"
  shows "safe_writer (gnet_stats_copy ty buf n)"
  unfolding safe_writer_def gnet_stats_copy_def
  by (intro allI impI writer_step [OF nla_put_writer [OF assms] keeps_self]) simp_all

text \<open>The record that guides the dump: its nest lies in the new part of the buffer, and there are no extra statistics.\<close>

definition dump_ok :: "nat \<Rightarrow> gnet_dump \<Rightarrow> sk_buff \<Rightarrow> bool" where
  "dump_ok b d s \<longleftrightarrow> xstats d = None \<and> (\<forall>t. d_tail d = Some t \<longrightarrow> b \<le> t \<and> t + 4 \<le> skb_tail_pointer s)"

lemma dump_ok_mono: "dump_ok b d s \<Longrightarrow> skb_tail_pointer s \<le> skb_tail_pointer s' \<Longrightarrow> dump_ok b d s'"
  by (auto simp: dump_ok_def)

lemma start_copy_safe:
  assumes "keeps b s0 s"
  shows "post (gnet_stats_start_copy_compat ty t x s) (\<lambda>(r, d, s'). keeps b s0 s' \<and> skb_tail_pointer s \<le> skb_tail_pointer s' \<and> (r <s 0 \<or> dump_ok b d s'))"
proof (cases "ty = 0")
  case False
  have "b \<le> skb_tail_pointer s" using assms by (simp add: keeps_def)
  moreover have "post (nla_put ty 0 [] s) (\<lambda>(r, s'). keeps (skb_tail_pointer s) s s' \<and>
      (r = - EMSGSIZE \<and> s' = s \<or> r = 0 \<and> skb_tail_pointer s' = skb_tail_pointer s + 4))"
    using nla_put_safe [of 0 "[]" s ty] keeps_ok [OF assms] by simp
  ultimately show ?thesis using False neg_EMSGSIZE keeps_step [OF assms]
    by (auto simp: gnet_stats_start_copy_compat_def gnet_stats_copy_def post_def dump_ok_def Let_def)
next
  case True
  then show ?thesis using assms by (simp add: gnet_stats_start_copy_compat_def dump_ok_def Let_def)
qed

lemma copy_stats_safe:
  assumes "keeps b s0 s" and "dump_ok b d s"
  shows "post (gnet_stats_copy_basic bs d s) (\<lambda>(r, d, s'). keeps b s0 s' \<and> dump_ok b d s')"
    and "post (gnet_stats_copy_rate_est rt d s) (\<lambda>(r, d, s'). keeps b s0 s' \<and> dump_ok b d s')"
    and "post (gnet_stats_copy_queue q d s) (\<lambda>(r, d, s'). keeps b s0 s' \<and> dump_ok b d s')"
proof -
  have w: "safe_writer (gnet_stats_copy ty buf (of_nat n))" if "length buf = n" "n \<le> 40" for ty buf n
  proof -
    have "unat (of_nat n :: u32) = n" using that by (intro unat_of_nat_u32) simp
    then show ?thesis using that by (intro gnet_stats_copy_writer) simp_all
  qed
  have dm: "dump_ok b d s'" if "skb_tail_pointer s \<le> skb_tail_pointer s'" for s' using dump_ok_mono [OF assms(2) that] .
  have dc: "dump_ok b (d\<lparr>d_stats := x\<rparr>) s' = dump_ok b d s'" for x s' by (simp add: dump_ok_def)
  note st = writer_step [OF w assms(1)]
  show "post (gnet_stats_copy_basic bs d s) (\<lambda>(r, d, s'). keeps b s0 s' \<and> dump_ok b d s')"
    unfolding gnet_stats_copy_basic_def Let_def using assms
    by (auto simp: dc intro!: st [of "le 8 (b_bytes bs) @ le 4 (b_packets bs) @ replicate 4 0" 16, simplified] dm)
  show "post (gnet_stats_copy_rate_est rt d s) (\<lambda>(r, d, s'). keeps b s0 s' \<and> dump_ok b d s')"
    unfolding gnet_stats_copy_rate_est_def Let_def using assms
    by (auto simp: dc intro!: st [of "le 4 (r_bps rt) @ le 4 (r_pps rt)" 8, simplified] dm)
  show "post (gnet_stats_copy_queue q d s) (\<lambda>(r, d, s'). keeps b s0 s' \<and> dump_ok b d s')"
    unfolding gnet_stats_copy_queue_def Let_def using assms
    by (auto simp: dc intro!: st [of "le 4 (q_qlen q) @ le 4 (q_backlog q) @ le 4 (q_drops q) @ le 4 (q_requeues q) @ le 4 (q_overlimits q)" 20, simplified] dm)
qed


lemma finish_copy_safe:
  assumes "keeps b s0 s" and "dump_ok b d s"
  shows "post (gnet_stats_finish_copy d s) (\<lambda>(r, s'). keeps b s0 s')"
proof -
  have w: "safe_writer (gnet_stats_copy ty (stats_bytes st) 40)" for ty st
    by (rule gnet_stats_copy_writer) (simp_all add: stats_bytes_def)
  have rest: "post (do {
      (r, s) \<leftarrow> (if compat_tc_stats d \<noteq> 0 then gnet_stats_copy (compat_tc_stats d) (stats_bytes (d_stats d)) 40 s else Some (0, s));
      if r <s 0 then Some (-1, s) else Some (0, s) }) (\<lambda>(r, s'). keeps b s0 s')"
    if "keeps b s0 s" for s
    using that by (auto intro!: writer_step [OF w that])
  have x: "xstats d = None" using assms(2) by (simp add: dump_ok_def)
  show ?thesis
  proof (cases "d_tail d")
    case None
    then show ?thesis using rest [OF assms(1)] unfolding gnet_stats_finish_copy_def x option.case by simp
  next
    case (Some t)
    then have t: "b \<le> t" "t + 2 \<le> skb_tail_pointer s" using assms(2) by (auto simp: dump_ok_def)
    then show ?thesis using Some rest unfolding gnet_stats_finish_copy_def x option.case
      by (auto intro!: store_step [OF assms(1) t(1)])
  qed
qed

text \<open>An action whose kind is a string and whose functions are safe writers.\<close>

definition act_ok :: "tc_action \<Rightarrow> bool" where
  "act_ok a \<longleftrightarrow> (\<forall>ops. a_ops a = Some ops \<longrightarrow> 0 \<in> set (a_kind ops) \<and> length (a_kind ops) = 16
     \<and> (\<forall>f. get_stats ops = Some f \<longrightarrow> safe_writer f) \<and> (\<forall>f bnd ref. a_dump ops = Some f \<longrightarrow> safe_writer (f bnd ref)))"

lemma action_stats_writer:
  assumes "act_ok a"
  shows "safe_writer (tcf_action_copy_stats a cm)"
proof -
  have "post (tcf_action_copy_stats a cm s) (\<lambda>(r, s'). keeps (skb_tail_pointer s) s s')" if "skb_ok s" for s
  proof -
    let ?b = "skb_tail_pointer s"
    have k: "keeps ?b s s" by (rule keeps_self [OF that])
    show ?thesis
    proof (cases "a_priv a = None \<or> cm \<and> a_type a \<noteq> TCA_OLD_COMPAT")
      case True
      then show ?thesis using k by (auto simp: tcf_action_copy_stats_def split: option.splits)
    next
      case False
      then obtain h where h: "a_priv a = Some h" by auto
      have 1: "post (gnet_stats_start_copy_compat ty t x s) (\<lambda>(r, d, s'). keeps ?b s s' \<and> (r <s 0 \<or> dump_ok ?b d s'))" for ty t x
        by (rule post_mono [OF start_copy_safe [OF k]]) auto
      have 2: "post (case Option.bind (a_ops a) get_stats of None \<Rightarrow> Some (0, s') | Some f \<Rightarrow> f s')
          (\<lambda>(r, s''). keeps ?b s s'' \<and> dump_ok ?b d s'')" if "keeps ?b s s'" "dump_ok ?b d s'" for s' d
      proof (cases "Option.bind (a_ops a) get_stats")
        case (Some f)
        then have "safe_writer f" using assms by (auto simp: act_ok_def split: Option.bind_splits)
        from writer_step [OF this that(1), of Some] show ?thesis
          using Some dump_ok_mono [OF that(2)] by simp
      qed (use that in simp)
      have 3: "post (do {
          (r, s) \<leftarrow> (case Option.bind (a_ops a) get_stats of None \<Rightarrow> Some (0, s') | Some f \<Rightarrow> f s');
          if r <s 0 then Some (-1, s) else do {
          (r, d, s) \<leftarrow> gnet_stats_copy_basic (tcf_bstats h) d s;
          if r <s 0 then Some (-1, s) else do {
          (r, d, s) \<leftarrow> gnet_stats_copy_rate_est (tcf_rate_est h) d s;
          if r <s 0 then Some (-1, s) else do {
          (r, d, s) \<leftarrow> gnet_stats_copy_queue (tcf_qstats h) d s;
          if r <s 0 then Some (-1, s) else do {
          (r, s) \<leftarrow> gnet_stats_finish_copy d s;
          Some (if r <s 0 then -1 else 0, s) }}}}}) (\<lambda>(r, s''). keeps ?b s s'')"
        if "keeps ?b s s'" "dump_ok ?b d s'" for s' d
        by (rule post_bind [OF 2 [OF that]]) (auto intro!: post_bind [OF copy_stats_safe(1)] post_bind [OF copy_stats_safe(2)]
            post_bind [OF copy_stats_safe(3)] post_bind [OF finish_copy_safe])
      show ?thesis
      proof (cases cm)
        case True
        then show ?thesis using h False unfolding tcf_action_copy_stats_def
          by (auto intro!: post_bind [OF 1] 3)
      next
        case False
        then show ?thesis using h unfolding tcf_action_copy_stats_def gnet_stats_start_copy_def
          by (auto intro!: post_bind [OF 1] 3)
      qed
    qed
  qed
  then show ?thesis by (simp add: safe_writer_def)
qed


lemma dump_old_writer:
  assumes "act_ok a"
  shows "safe_writer (tcf_action_dump_old a bnd ref)"
proof (cases "Option.bind (a_ops a) a_dump")
  case None
  then show ?thesis by (simp add: safe_writer_def tcf_action_dump_old_def keeps_self)
next
  case (Some f)
  then have "safe_writer (f bnd ref)" using assms by (auto simp: act_ok_def split: Option.bind_splits)
  then show ?thesis using Some by (simp add: safe_writer_def tcf_action_dump_old_def)
qed

lemma trim_back: "keeps b s0 s \<Longrightarrow> b = skb_tail_pointer s0 \<Longrightarrow> keeps b s0 (nlmsg_trim (Some b) s)"
  by (rule trim_keeps(1)) (auto simp: keeps_def)

lemma dump_1_writer:
  assumes "act_ok a"
  shows "safe_writer (tcf_action_dump_1 a bnd ref)"
proof -
  have "post (tcf_action_dump_1 a bnd ref s) (\<lambda>(r, s'). keeps (skb_tail_pointer s) s s')" if ok: "skb_ok s" for s
  proof (cases "Option.bind (a_ops a) a_dump")
    case None
    then show ?thesis using keeps_self [OF ok]
      by (auto simp: tcf_action_dump_1_def Let_def split: option.splits Option.bind_splits)
  next
    case (Some f)
    then obtain ops where ops: "a_ops a = Some ops" "a_dump ops = Some f" by (auto split: Option.bind_splits)
    let ?b = "skb_tail_pointer s"
    note tr = trim_back [OF _ refl, of s]
    have str: "safe_writer (NLA_PUT_STRING TCA_KIND (a_kind ops))"
      using assms ops by (intro string_writer) (auto simp: act_ok_def)
    have 1: "post (do { (err, s) \<leftarrow> tcf_action_dump_old a bnd ref s';
        if 0 <s err then do { (_, s) \<leftarrow> nla_nest_end p s; Some (err, s) } else Some (-1, nlmsg_trim (Some ?b) s) })
        (\<lambda>(r, s'). keeps ?b s s')" if "keeps ?b s s'" "?b \<le> p" "p + 4 \<le> skb_tail_pointer s'" for s' p
      using that by (intro writer_step [OF dump_old_writer [OF assms] that(1)])
        (auto intro!: nest_end_step [of ?b s] tr)
    show ?thesis
      unfolding tcf_action_dump_1_def Let_def ops option.case
      using ops
      by (auto intro!: writer_step [OF str keeps_self [OF ok]] tr writer_step [OF action_stats_writer [OF assms]] nest_start_step [of ?b s] 1)
  qed
  then show ?thesis by (simp add: safe_writer_def)
qed


lemma action_dump_writer:
  assumes "\<forall>a\<in>set act. act_ok a"
  shows "safe_writer (tcf_action_dump act bnd ref)"
  using assms
proof (induction act)
  case Nil
  then show ?case by (simp add: safe_writer_def keeps_self)
next
  case (Cons a act)
  have w: "safe_writer (tcf_action_dump act bnd ref)" and a: "act_ok a" using Cons by simp_all
  have "post (tcf_action_dump (a # act) bnd ref s) (\<lambda>(r, s'). keeps (skb_tail_pointer s) s s')" if ok: "skb_ok s" for s
  proof -
    let ?b = "skb_tail_pointer s"
    have 1: "post (do { (err, s) \<leftarrow> tcf_action_dump_1 a bnd ref s';
        if err <s 0 then Some (err, nla_nest_cancel (Some ?b) s)
        else do { (_, s) \<leftarrow> nla_nest_end ?b s; tcf_action_dump act bnd ref s } }) (\<lambda>(r, s'). keeps ?b s s')"
      if "keeps ?b s s'" "?b + 4 \<le> skb_tail_pointer s'" for s'
      using that by (intro writer_step [OF dump_1_writer [OF a] that(1)])
        (auto simp: nla_nest_cancel_def intro!: nest_end_step [of ?b s] trim_back [OF _ refl] writer_last [OF w])
    show ?thesis unfolding tcf_action_dump.simps
      by (rule nest_start_step [OF keeps_self [OF ok]]) (use 1 keeps_self [OF ok] in \<open>auto simp: nla_nest_cancel_def nlmsg_trim_def\<close>)
  qed
  then show ?case by (simp add: safe_writer_def)
qed

lemma exts_dump_writer:
  assumes "\<forall>a\<in>set exts. act_ok a"
  shows "safe_writer (tcf_exts_dump cls_act exts m)"
proof -
  have "post (tcf_exts_dump cls_act exts m s) (\<lambda>(r, s'). keeps (skb_tail_pointer s) s s')" if ok: "skb_ok s" for s
  proof (cases exts)
    case Nil
    then show ?thesis using keeps_self [OF ok] by (simp add: tcf_exts_dump_def)
  next
    case (Cons a act)
    let ?b = "skb_tail_pointer s"
    have 1: "post (do { (r, s) \<leftarrow> w s';
        if r <s 0 then Some (-1, s) else do { (_, s) \<leftarrow> nla_nest_end ?b s; Some (0, s) } }) (\<lambda>(r, s'). keeps ?b s s')"
      if "keeps ?b s s'" "?b + 4 \<le> skb_tail_pointer s'" "safe_writer w" for s' w
      using that by (intro writer_step [OF that(3,1)]) (auto intro!: nest_end_step [of ?b s])
    have w: "safe_writer (tcf_action_dump exts 0 0)" by (rule action_dump_writer [OF assms])
    have w': "safe_writer (tcf_action_dump_old a 0 0)" by (rule dump_old_writer) (use assms Cons in simp)
    show ?thesis
      using Cons w w' unfolding tcf_exts_dump_def
      by (auto intro!: nest_start_step [of ?b s] 1 simp: keeps_self [OF ok] simp del: tcf_action_dump.simps)
  qed
  then show ?thesis by (simp add: safe_writer_def)
qed

section \<open>Matches and the classifier\<close>

text \<open>A match whose dump function is a safe writer, or whose data can be read.\<close>

definition match_ok :: "tcf_ematch \<Rightarrow> bool" where
  "match_ok em \<longleftrightarrow> (case Option.bind (em_ops em) e_dump of Some f \<Rightarrow> safe_writer f
     | None \<Rightarrow> tcf_em_is_container em \<or> tcf_em_is_simple em \<or> unat (em_datalen em) \<le> length (em_pointed em) \<and> unat (em_datalen em) + 3 < 2 ^ 31)"

lemma em_body_writer:
  assumes "match_ok em"
  shows "safe_writer (em_body em)"
proof (cases "Option.bind (em_ops em) e_dump")
  case None
  have 4: "safe_writer (nla_put_nohdr 4 (le 4 (ucast (em_data em) :: u32)))" by (rule nla_put_nohdr_writer) simp_all
  have d: "safe_writer (nla_put_nohdr (em_datalen em) (em_pointed em))" if "\<not> (tcf_em_is_container em \<or> tcf_em_is_simple em)"
    using None assms that by (intro nla_put_nohdr_writer) (auto simp: match_ok_def)
  have "post (em_body em s) (\<lambda>(r, s'). keeps (skb_tail_pointer s) s s')" if ok: "skb_ok s" for s
    using None unfolding em_body_def
    by (auto intro!: writer_step [OF 4 keeps_self [OF ok]] writer_step [OF d keeps_self [OF ok]] simp: keeps_self [OF ok])
  then show ?thesis by (simp add: safe_writer_def)
next
  case (Some f)
  then show ?thesis using assms by (simp add: match_ok_def safe_writer_def em_body_def)
qed

lemma em_step_safe:
  assumes "keeps b s0 s" and "i < length (matches tree)" and "match_ok (matches tree ! i)"
  shows "post (em_step tree i s) (\<lambda>x. case x of Inl (r, s') \<Rightarrow> keeps b s0 s' | Inr s' \<Rightarrow> keeps b s0 s' \<and> skb_tail_pointer s \<le> skb_tail_pointer s')"
proof -
  let ?p = "skb_tail_pointer s" and ?em = "matches tree ! i"
  have b: "b \<le> ?p" using assms(1) by (simp add: keeps_def)
  have "post (nla_put (of_nat i + 1) (of_nat 8) (em_hdr ?em) s) (\<lambda>(r, s'). keeps ?p s s' \<and>
      (r = - EMSGSIZE \<and> s' = s \<or> r = 0 \<and> skb_tail_pointer s' = ?p + 12))"
    using nla_put_safe [of 8 "em_hdr ?em" s "of_nat i + 1"] keeps_ok [OF assms(1)] by (simp add: add.commute)
  then have 1: "post (nla_put (of_nat i + 1) 8 (em_hdr ?em) s) (\<lambda>(r, s'). keeps b s0 s' \<and> (r <s 0 \<or> ?p + 12 \<le> skb_tail_pointer s'))"
    using keeps_step [OF assms(1)] by (auto simp: neg_EMSGSIZE elim!: post_mono)
  have 2: "post (do { (r, s) \<leftarrow> em_body ?em s';
      if r <s 0 then Some (Inl (-1, s)) else do {
      s \<leftarrow> store ?p (le 2 (of_int (int (skb_tail_pointer s) - int ?p) :: u16)) s; Some (Inr s) } })
      (\<lambda>x. case x of Inl (r, s') \<Rightarrow> keeps b s0 s' | Inr s' \<Rightarrow> keeps b s0 s' \<and> ?p \<le> skb_tail_pointer s')"
    if "keeps b s0 s'" "?p + 12 \<le> skb_tail_pointer s'" for s'
    using that b by (intro writer_step [OF em_body_writer [OF assms(3)] that(1)]) (auto intro!: store_step [of b s0])
  show ?thesis
    using assms(2) unfolding em_step_def Let_def by (auto intro!: post_bind [OF 1] 2)
qed


lemma em_loop_safe:
  assumes "keeps b s0 s" and "n \<le> length (matches tree)" and "\<forall>i<n. match_ok (matches tree ! i)"
  shows "post (loopM (em_step tree) [0..<n] s)
    (\<lambda>x. case x of Inl (r, s') \<Rightarrow> keeps b s0 s' | Inr s' \<Rightarrow> keeps b s0 s' \<and> skb_tail_pointer s \<le> skb_tail_pointer s')"
  using assms(2,3)
proof (induction n)
  case 0
  then show ?case using assms(1) by simp
next
  case (Suc n)
  then obtain x where x: "loopM (em_step tree) [0..<n] s = Some x"
    "case x of Inl (r, s') \<Rightarrow> keeps b s0 s' | Inr s' \<Rightarrow> keeps b s0 s' \<and> skb_tail_pointer s \<le> skb_tail_pointer s'"
    by (auto simp: post_def)
  show ?case
  proof (cases x)
    case (Inl a)
    then show ?thesis using x by (simp add: loopM_append)
  next
    case (Inr s')
    then have k: "keeps b s0 s'" "skb_tail_pointer s \<le> skb_tail_pointer s'" using x(2) by simp_all
    obtain y where y: "em_step tree n s' = Some y"
      "case y of Inl (r, s'') \<Rightarrow> keeps b s0 s'' | Inr s'' \<Rightarrow> keeps b s0 s'' \<and> skb_tail_pointer s' \<le> skb_tail_pointer s''"
      using em_step_safe [OF k(1), of n tree] Suc.prems by (auto simp: post_def)
    then show ?thesis using x(1) Inr k(2) by (auto simp: loopM_append split: sum.splits)
  qed
qed

lemma em_tree_dump_writer:
  assumes "unat (nmatches tree) \<le> length (matches tree)" and "\<forall>i<unat (nmatches tree). match_ok (matches tree ! i)"
  shows "safe_writer (tcf_em_tree_dump tree tlv)"
proof -
  have h: "safe_writer (nla_put TCA_EMATCH_TREE_HDR 4 (le 2 (nmatches tree) @ le 2 (progid tree)))"
    by (rule nla_put_writer) simp_all
  have "post (tcf_em_tree_dump tree tlv s) (\<lambda>(r, s'). keeps (skb_tail_pointer s) s s')" if ok: "skb_ok s" for s
  proof -
    let ?b = "skb_tail_pointer s"
    have 1: "post (do { r \<leftarrow> loopM (em_step tree) [0..<unat (nmatches tree)] s';
        case r of Inl e \<Rightarrow> Some e
        | Inr s \<Rightarrow> do { (_, s) \<leftarrow> nla_nest_end p s; (_, s) \<leftarrow> nla_nest_end ?b s; Some (0, s) } }) (\<lambda>(r, s'). keeps ?b s s')"
      if "keeps ?b s s'" "?b \<le> p" "p + 4 \<le> skb_tail_pointer s'" for s' p
      using that by (intro post_bind [OF em_loop_safe [OF that(1) assms]])
        (auto split: sum.splits intro!: nest_end_step [of ?b s])
    have 2: "post (do { (r, s) \<leftarrow> nla_put TCA_EMATCH_TREE_HDR 4 (le 2 (nmatches tree) @ le 2 (progid tree)) s';
        if r <s 0 then Some (-1, s) else do {
        (list_start, s) \<leftarrow> nla_nest_start TCA_EMATCH_TREE_LIST s;
        case list_start of None \<Rightarrow> Some (-1, s)
        | Some p \<Rightarrow> do { r \<leftarrow> loopM (em_step tree) [0..<unat (nmatches tree)] s;
          case r of Inl e \<Rightarrow> Some e
          | Inr s \<Rightarrow> do { (_, s) \<leftarrow> nla_nest_end p s; (_, s) \<leftarrow> nla_nest_end ?b s; Some (0, s) } } } }) (\<lambda>(r, s'). keeps ?b s s')"
      if "keeps ?b s s'" "?b + 4 \<le> skb_tail_pointer s'" for s'
      using that by (intro writer_step [OF h that(1)]) (auto intro!: nest_start_step [of ?b s] 1)
    show ?thesis unfolding tcf_em_tree_dump_def
      by (rule nest_start_step [OF keeps_self [OF ok]]) (use 2 keeps_self [OF ok] in auto)
  qed
  then show ?thesis by (simp add: safe_writer_def)
qed

text \<open>A filter that can be dumped, whatever its actions and matches do.\<close>

definition filter_ok :: "basic_filter \<Rightarrow> bool" where
  "filter_ok f \<longleftrightarrow> (\<forall>a\<in>set (f_exts f). act_ok a) \<and> unat (nmatches (f_ematches f)) \<le> length (matches (f_ematches f))
     \<and> (\<forall>i<unat (nmatches (f_ematches f)). match_ok (matches (f_ematches f) ! i))"

lemma cancel_None: "nla_nest_cancel None s = s"
  by (simp add: nla_nest_cancel_def nlmsg_trim_def)

lemma cancel_safe: "keeps b s0 s \<Longrightarrow> b \<le> p \<Longrightarrow> p \<le> skb_tail_pointer s \<Longrightarrow> keeps b s0 (nla_nest_cancel (Some p) s)"
  by (simp add: nla_nest_cancel_def trim_keeps)

lemma basic_dump_safe:
  assumes k: "keeps b s0 s" and f: "fh = 0 \<or> (\<exists>f. filters fh = Some f \<and> filter_ok f)" and t: "b \<le> t" "t + 12 \<le> skb_tail_pointer s"
  shows "post (basic_dump cls_act filters fh t s) (\<lambda>(r, s'). keeps b s0 s' \<and> skb_tail_pointer s \<le> skb_tail_pointer s')"
proof (cases "fh = 0")
  case True
  then show ?thesis using k by (simp add: basic_dump_def)
next
  case False
  then obtain f where f: "filters fh = Some f" "filter_ok f" using f by blast
  have e: "safe_writer (tcf_exts_dump cls_act (f_exts f) basic_ext_map)"
    and m: "safe_writer (tcf_em_tree_dump (f_ematches f) TCA_BASIC_EMATCHES)"
    using f(2) by (auto simp: filter_ok_def intro!: exts_dump_writer em_tree_dump_writer)
  have c: "safe_writer (nla_put TCA_BASIC_CLASSID 4 (le 4 (f_classid f)))" by (rule nla_put_writer) simp_all
  let ?rest = "\<lambda>s1. do {
      (n, s) \<leftarrow> nla_nest_start TCA_OPTIONS s1;
      case n of None \<Rightarrow> Some (-1, nla_nest_cancel n s)
      | Some start \<Rightarrow> do {
          (r, s) \<leftarrow> (if f_classid f \<noteq> 0 then nla_put TCA_BASIC_CLASSID 4 (le 4 (f_classid f)) s else Some (0, s));
          if r <s 0 then Some (-1, nla_nest_cancel n s) else do {
          (r, s) \<leftarrow> tcf_exts_dump cls_act (f_exts f) basic_ext_map s;
          if r <s 0 then Some (-1, nla_nest_cancel n s) else do {
          (r, s) \<leftarrow> tcf_em_tree_dump (f_ematches f) TCA_BASIC_EMATCHES s;
          if r <s 0 then Some (-1, nla_nest_cancel n s) else do {
          (_, s) \<leftarrow> nla_nest_end start s;
          Some (sk_len s, s) }}}} }"
  have rest: "post (?rest s1) (\<lambda>(r, s'). keeps (skb_tail_pointer s1) s1 s')" if "skb_ok s1" for s1
  proof -
    let ?b = "skb_tail_pointer s1"
    have 4: "post (do { (r, s) \<leftarrow> tcf_exts_dump cls_act (f_exts f) basic_ext_map s';
          if r <s 0 then Some (-1, nla_nest_cancel (Some ?b) s) else do {
          (r, s) \<leftarrow> tcf_em_tree_dump (f_ematches f) TCA_BASIC_EMATCHES s;
          if r <s 0 then Some (-1, nla_nest_cancel (Some ?b) s) else do {
          (_, s) \<leftarrow> nla_nest_end ?b s;
          Some (sk_len s, s) }}}) (\<lambda>(r, s'). keeps ?b s1 s')" if "keeps ?b s1 s'" "?b + 4 \<le> skb_tail_pointer s'" for s'
      using that by (intro writer_step [OF e that(1)])
        (auto intro!: writer_step [OF m] cancel_safe nest_end_step [of ?b s1])
    show ?thesis
      by (rule nest_start_step [OF keeps_self [OF that]])
        (use keeps_self [OF that] in \<open>auto intro!: writer_step [OF c] cancel_safe 4 simp: cancel_None\<close>)
  qed
  have "post (Option.bind (store (t + 8) (le 4 (f_handle f)) s) ?rest) (\<lambda>(r, s'). keeps b s0 s' \<and> skb_tail_pointer s \<le> skb_tail_pointer s')"
  proof (rule store_step [OF k])
    fix s1 assume s1: "keeps b s0 s1" "skb_tail_pointer s1 = skb_tail_pointer s"
    show "post (?rest s1) (\<lambda>(r, s'). keeps b s0 s' \<and> skb_tail_pointer s \<le> skb_tail_pointer s')"
      by (rule post_mono [OF rest [OF keeps_ok [OF s1(1)]]]) (use keeps_step [OF s1(1)] s1(2) in auto)
  qed (use t in simp_all)
  then show ?thesis using False f(1) by (simp add: basic_dump_def Let_def)
qed


section \<open>Filling a node\<close>

definition filled_or_restored :: "sk_buff \<Rightarrow> u32 \<Rightarrow> sk_buff \<Rightarrow> bool" where
  "filled_or_restored skb r skb' \<longleftrightarrow> keeps (skb_tail_pointer skb) skb skb' \<and>
     (if r <s 0 then r = -1 \<and> sk_tail skb' = sk_tail skb \<and> sk_len skb' = sk_len skb
      else r = sk_len skb' \<and> skb_tail_pointer skb + 36 \<le> skb_tail_pointer skb')"

lemma fill_node_safe:
  assumes ok: "skb_ok skb" and kind: "0 \<in> set (p_kind tp)" "length (p_kind tp) = 16"
    and dump: "p_dump tp = Some (basic_dump cls_act filters)"
    and fil: "event = RTM_DELTFILTER \<or> fh = 0 \<or> (\<exists>f. filters fh = Some f \<and> filter_ok f)"
  shows "post (tcf_fill_node tp fh pid seq fl event skb) (\<lambda>(r, skb'). filled_or_restored skb r skb')"
proof -
  let ?p = "skb_tail_pointer skb" and ?Q = "\<lambda>(r, skb'). filled_or_restored skb r skb'"
  have cc: "unat (NLMSG_LENGTH 0) = 16" "NLMSG_SPACE 20 = 36" by (simp_all add: NLMSG_LENGTH_def NLMSG_ALIGN_def NLMSG_SPACE_def)
  have failure: "filled_or_restored skb (-1) (nlmsg_trim (Some ?p) s)" if "keeps ?p skb s" for s
    using nlmsg_trim_keeps [OF ok that] by (simp add: filled_or_restored_def word_sless_alt)
  have success: "filled_or_restored skb (sk_len s) s" if "keeps ?p skb s" "?p + 36 \<le> skb_tail_pointer s" for s
  proof -
    have "unat (sk_len s) < 2 ^ 31" using keeps_ok [OF that(1)] unfolding skb_ok_def by linarith
    then have "\<not> sk_len s <s 0" using sless_unat [of "sk_len s" 0] by simp
    then show ?thesis using that by (simp add: filled_or_restored_def)
  qed
  have str: "safe_writer (NLA_PUT_STRING TCA_KIND (p_kind tp))" using kind by (intro string_writer) simp_all
  show ?thesis
  proof (cases "room skb < 36")
    case True
    then have "skb_tailroom skb <s 36"
      using sless_unat [of "skb_tailroom skb" 36] skb_tailroom_room [OF ok] room_bounds(2) [OF ok] by simp
    then show ?thesis using failure [OF keeps_self [OF ok]] by (simp add: tcf_fill_node_def cc Let_def)
  next
    case False
    let ?h = "le 4 (36 :: u32) @ le 2 (ucast event :: u16) @ le 2 fl @ le 4 seq @ le 4 pid @ take 20 (drop (?p + 16) (block skb))"
    let ?s = "append_bytes ?h skb"
    have t: "\<not> skb_tailroom skb <s 36"
      using sless_unat [of "skb_tailroom skb" 36] skb_tailroom_room [OF ok] room_bounds(2) [OF ok] False by simp
    have n1: "nlmsg_put pid seq event 20 (ucast fl) skb = Some (?p, ?s)" by (rule nlmsg_put_eq [OF ok]) (use False in simp)
    have lh: "length ?h = 36" using room_bounds(1) [OF ok] False by simp
    have s: "keeps ?p skb ?s" "skb_tail_pointer ?s = ?p + 36"
      using append_bytes_fields(3,6) [OF ok, of ?h] lh False by simp_all
    have last: "post (do { s \<leftarrow> store ?p (le 4 (of_int (int (skb_tail_pointer s') - int ?p) :: u32)) s'; Some (sk_len s, s) }) ?Q"
      if "keeps ?p skb s'" "?p + 36 \<le> skb_tail_pointer s'" for s'
      using that by (intro store_step [OF that(1)]) (auto intro: success)
    have dumped: "post (if event \<noteq> RTM_DELTFILTER then do {
        s \<leftarrow> store (?p + 24) (le 4 (0 :: u32)) s';
        case p_dump tp of None \<Rightarrow> Some (0, s) | Some f \<Rightarrow> f fh (?p + 16) s
      } else Some (0, s')) (\<lambda>(r, s''). keeps ?p skb s'' \<and> ?p + 36 \<le> skb_tail_pointer s'')"
      if k: "keeps ?p skb s'" and l: "?p + 36 \<le> skb_tail_pointer s'" for s'
    proof (cases "event = RTM_DELTFILTER")
      case False
      have "post (do { s \<leftarrow> store (?p + 24) (le 4 (0 :: u32)) s'; basic_dump cls_act filters fh (?p + 16) s })
          (\<lambda>(r, s''). keeps ?p skb s'' \<and> ?p + 36 \<le> skb_tail_pointer s'')"
      proof (rule store_step [OF k])
        fix s assume "keeps ?p skb s" "skb_tail_pointer s = skb_tail_pointer s'"
        then show "post (basic_dump cls_act filters fh (?p + 16) s) (\<lambda>(r, s''). keeps ?p skb s'' \<and> ?p + 36 \<le> skb_tail_pointer s'')"
          using fil False l by (intro post_mono [OF basic_dump_safe [where b = ?p and ?s0.0 = skb]]) auto
      qed (use l in simp_all)
      then show ?thesis using False dump by simp
    qed (use k l in simp)
    have p: "?p + 16 + 1 = ?p + 17" "?p + 16 + 4 = ?p + 20" "?p + 16 + 12 = ?p + 28" "?p + 16 + 16 = ?p + 32" "?p + 16 + 8 = ?p + 24"
      by simp_all
    show ?thesis
      unfolding tcf_fill_node_def Let_def cc n1 bind.bind_lunit prod.case p if_not_P [OF t]
      by (intro store_step [of ?p skb]) (auto simp: s intro!: store_step [of ?p skb] writer_step [OF str] post_bind [OF dumped] last failure success)
  qed
qed

end
