(* ===== verification/Netlink_Theorems.thy ===== *)
theory Netlink_Theorems
  imports Node_Safety Small_Leak_Theorems
begin

text \<open>
  The results about tcf\_fill\_node: the message that the function under test writes, what it tells its reader
  about the old contents of the buffer, and what the whole harness prints about the secret.
\<close>

section \<open>The message\<close>

text \<open>A node that can be dumped: its kind is a string and its filter, if one is dumped, a readable one.\<close>

definition node_ok :: "tcf_proto \<Rightarrow> (u64 \<Rightarrow> basic_filter option) \<Rightarrow> u64 \<Rightarrow> u32 \<Rightarrow> bool" where
  "node_ok tp filters fh event \<longleftrightarrow> p_dump tp = Some (basic_dump False filters) \<and> 0 \<in> set (p_kind tp) \<and> length (p_kind tp) = 16
     \<and> (event = RTM_DELTFILTER \<or> fh = 0 \<or> (\<exists>f. filters fh = Some f \<and> tree_ok (f_ematches f)))"

abbreviation node_length :: "tcf_proto \<Rightarrow> (u64 \<Rightarrow> basic_filter option) \<Rightarrow> u64 \<Rightarrow> u32 \<Rightarrow> nat" where
  "node_length tp filters fh event \<equiv> length (node_message tp filters fh 0 0 0 event [0, 0])"

lemma length_node_message: "length pad = 2 \<Longrightarrow> length (node_message tp filters fh pid seq fl event pad) = node_length tp filters fh event"
  by (simp add: node_message_def Let_def)

lemma length_c_str: "length (c_str s) \<le> length s"
  by (simp add: c_str_def length_takeWhile_le)

lemma node_eq:
  assumes "skb_ok skb" and "node_ok tp filters fh event" and "node_length tp filters fh event \<le> room skb"
    and "msg = node_message tp filters fh pid seq fl event (take 2 (drop (skb_tail_pointer skb + 18) (block skb)))"
  shows "tcf_fill_node tp fh pid seq fl event skb = Some (sk_len skb + of_nat (length msg), append_bytes msg skb)"
  using fill_node_eq [OF assms(1) _ _ _ _ _ assms(4)] assms(2,3) length_node_message [of "[0, 0]" tp filters fh pid seq fl event]
    length_c_str [of "p_kind tp"] by (simp add: node_ok_def)

lemma pad_length:
  assumes "skb_ok skb" and "node_length tp filters fh event \<le> room skb"
  shows "length (take 2 (drop (skb_tail_pointer skb + 18) (block skb))) = 2"
proof -
  have "36 \<le> room skb" using assms(2) by (simp add: node_message_def Let_def)
  then show ?thesis using room_bounds(1) [OF assms(1)] by simp
qed

text \<open>
  C25: With room for it, \<open>tcf_fill_node\<close> appends exactly one netlink message, whose parts are written out in
  \<open>node_message\<close>: the two headers with the length of the whole message, the kind, and, unless a deletion is
  announced or there is no filter, the nested options with the class, the tree of matches and its padding.  Nothing
  before the message is changed, and the two bytes at offset 18 are those that the buffer held before.
\<close>

theorem fill_node_message:
  assumes "skb_ok skb" and "node_ok tp filters fh event" and "node_length tp filters fh event \<le> room skb"
  shows "\<exists>skb'. tcf_fill_node tp fh pid seq fl event skb = Some (sk_len skb', skb') \<and> skb_ok skb'
    \<and> take (skb_tail_pointer skb') (block skb') = take (skb_tail_pointer skb) (block skb)
        @ node_message tp filters fh pid seq fl event (take 2 (drop (skb_tail_pointer skb + 18) (block skb)))
    \<and> unat (sk_len skb') = unat (sk_len skb) + node_length tp filters fh event"
proof -
  let ?m = "node_message tp filters fh pid seq fl event (take 2 (drop (skb_tail_pointer skb + 18) (block skb)))"
  have l: "length ?m = node_length tp filters fh event" using length_node_message pad_length [OF assms(1,3)] by blast
  then have r: "length ?m \<le> room skb" using assms(3) by simp
  note f = append_bytes_fields [OF assms(1) r]
  have b: "skb_tail_pointer skb + length ?m \<le> length (block skb)" using room_bounds(1) [OF assms(1)] r by linarith
  have "sk_len (append_bytes ?m skb) = sk_len skb + of_nat (length ?m)" by (simp add: append_bytes_def)
  moreover have "take (skb_tail_pointer skb + length ?m) (block (append_bytes ?m skb)) = take (skb_tail_pointer skb) (block skb) @ ?m"
    using b by (simp add: append_bytes_def poke_def)
  ultimately show ?thesis using node_eq [OF assms refl] f l by (intro exI [of _ "append_bytes ?m skb"]) simp
qed

text \<open>A filter with a class, a container match and a match with three bytes of data.\<close>

definition ex_filter :: basic_filter where
  "ex_filter = \<lparr>f_handle = 5, f_exts = [], f_ematches = \<lparr>nmatches = 2, progid = 0, matches =
     [\<lparr>em_ops = None, em_data = 1, em_pointed = [], em_datalen = 0, em_matchid = 0, em_flags = 0\<rparr>,
      \<lparr>em_ops = Some \<lparr>e_kind = 3, e_dump = None\<rparr>, em_data = 0x1000, em_pointed = [1, 2, 3], em_datalen = 3, em_matchid = 1,
        em_flags = 0\<rparr>]\<rparr>, f_classid = 6\<rparr>"

definition ex_node :: tcf_proto where
  "ex_node = \<lparr>protocol = 0, prio = 0, classid = 0, ifindex = 7, p_kind = 0x62 # replicate 15 0,
     p_dump = Some (basic_dump False (\<lambda>_. Some ex_filter))\<rparr>"

definition ex_skb :: "nat \<Rightarrow> u8 \<Rightarrow> sk_buff" where
  "ex_skb n b = \<lparr>sk_len = 0, data_len = 0, sk_tail = 0, sk_end = of_nat n, block = replicate n b, data_off = 0\<rparr>"

lemma ex_skb_ok: "n < 2 ^ 31 \<Longrightarrow> skb_ok (ex_skb n b)" "n < 2 ^ 31 \<Longrightarrow> room (ex_skb n b) = n"
  by (simp_all add: skb_ok_def room_def ex_skb_def unat_of_nat_u32)

lemma upt_2: "[0..<2] = [0, 1 :: nat]"
  by (simp add: upt_rec)

lemma less_two: "(i :: nat) < 2 \<longleftrightarrow> i = 0 \<or> i = 1"
  by auto

lemma ex_node_ok: "node_ok ex_node (\<lambda>_. Some ex_filter) fh event"
  by (auto simp: node_ok_def ex_node_def ex_filter_def tree_ok_def em_ok_def tcf_em_is_container_def less_two)

lemma ex_node_length: "node_length ex_node (\<lambda>_. Some ex_filter) 1 0 = 104"
  by (simp add: ex_node_def node_message_def node_options_def RTM_DELTFILTER_def options_bytes_def ematch_bytes_def em_bytes_def
      ex_filter_def em_payload_def tcf_em_is_container_def tcf_em_is_simple_def upt_2 c_str_def Let_def padn_def)

theorem fill_node_message_witness:
  "\<exists>skb'. tcf_fill_node ex_node 1 1 2 3 0 (ex_skb 200 9) = Some (sk_len skb', skb') \<and> unat (sk_len skb') = 104"
  using fill_node_message [OF ex_skb_ok(1) ex_node_ok, of 200 1 0 9 1 2 3] by (auto simp: ex_node_length ex_skb_ok) (simp add: ex_skb_def)


section \<open>Running out of room\<close>

text \<open>
  C26: \<open>tcf_fill_node\<close> never aborts, leaves the buffer or changes what was in front of its tail, however little room
  there is and whatever the actions and matches of the filter write themselves, as long as they are safe writers.
  When a part does not fit, the result is -1 and the tail and the length are those from before the call; otherwise
  it is the new length.
\<close>

theorem fill_node_total:
  assumes "skb_ok skb" and "0 \<in> set (p_kind tp)" and "length (p_kind tp) = 16" and "p_dump tp = Some (basic_dump cls_act filters)"
    and "event = RTM_DELTFILTER \<or> fh = 0 \<or> (\<exists>f. filters fh = Some f \<and> filter_ok f)"
  shows "\<exists>r skb'. tcf_fill_node tp fh pid seq fl event skb = Some (r, skb') \<and> keeps (skb_tail_pointer skb) skb skb'
    \<and> (if r <s 0 then r = -1 \<and> sk_tail skb' = sk_tail skb \<and> sk_len skb' = sk_len skb
       else r = sk_len skb' \<and> skb_tail_pointer skb + 36 \<le> skb_tail_pointer skb')"
  using fill_node_safe [OF assms] by (auto simp: post_def filled_or_restored_def)

text \<open>The message of the example takes 104 bytes; here there are 60.\<close>

theorem fill_node_total_witness:
  "\<exists>r skb'. tcf_fill_node ex_node 1 1 2 3 0 (ex_skb 60 9) = Some (r, skb') \<and> skb_ok skb'"
proof -
  have ok: "skb_ok (ex_skb 60 9)" by (rule ex_skb_ok) simp
  have k: "0 \<in> set (p_kind ex_node)" "length (p_kind ex_node) = 16" "p_dump ex_node = Some (basic_dump False (\<lambda>_. Some ex_filter))"
    by (simp_all add: ex_node_def)
  have f: "filter_ok ex_filter"
    by (auto simp: filter_ok_def ex_filter_def match_ok_def tcf_em_is_container_def less_two)
  show ?thesis using fill_node_total [OF ok k, of 0 1 1 2 3] f by (auto simp: keeps_def)
qed

section \<open>What the message reveals\<close>

lemma node_message_split:
  "node_message tp filters fh pid seq fl event pad =
    take 18 (node_message tp filters fh pid seq fl event []) @ pad @ drop 18 (node_message tp filters fh pid seq fl event [])"
  by (simp add: node_message_def node_header_def Let_def)

interpretation node: leaky_copy
    "\<lambda>old. node_message tp filters fh pid seq fl event (take 2 (drop 18 old))" "{18, 19}" "node_length tp filters fh event"
  for tp filters fh pid seq fl event
proof unfold_locales
  let ?n = "node_length tp filters fh event" and ?m = "\<lambda>old. node_message tp filters fh pid seq fl event (take 2 (drop 18 old))"
  have n: "36 \<le> ?n" by (simp add: node_message_def Let_def)
  then show "{18, 19} \<subseteq> {..<?n}" by auto
  fix r r' :: "u8 list" and i :: nat
  let ?e = "node_message tp filters fh pid seq fl event []"
  have a: "length (take 18 ?e) = 18" by (simp add: node_message_def Let_def)
  have pad: "length (take 2 (drop 18 r)) = 2" if "length r = ?n" for r :: "u8 list" using that n by simp
  have at: "?m r ! i = (if i < 18 then take 18 ?e ! i else if i < 20 then take 2 (drop 18 r) ! (i - 18) else drop 18 ?e ! (i - 20))"
    if "length r = ?n" for r i
    unfolding node_message_split [of tp filters fh pid seq fl event "take 2 (drop 18 r)"] nth_append a pad [OF that] by simp
  show "length r = ?n \<Longrightarrow> length (?m r) = ?n" using pad length_node_message by blast
  show "?m r ! i = r ! i" if "length r = ?n" "i \<in> {18, 19}"
    using at [OF that(1)] that n by auto
  show "?m r ! i = ?m r' ! i" if "length r = ?n" "length r' = ?n" "i < ?n" "i \<notin> {18, 19}"
    using at [OF that(1), of i] at [OF that(2), of i] that(4) by auto
qed

text \<open>A buffer whose bytes behind the tail were \<open>r\<close>, and what is sent of the buffer afterwards.\<close>

definition with_old :: "u8 list \<Rightarrow> sk_buff \<Rightarrow> sk_buff" where
  "with_old r skb = skb\<lparr>block := poke (skb_tail_pointer skb) r (block skb)\<rparr>"

definition sent :: "tcf_proto \<Rightarrow> u64 \<Rightarrow> u32 \<Rightarrow> u32 \<Rightarrow> u16 \<Rightarrow> u32 \<Rightarrow> sk_buff \<Rightarrow> u8 list option" where
  "sent tp fh pid seq fl event skb =
    map_option (\<lambda>(len, s). take (unat len) (drop (data_off s) (block s))) (tcf_fill_node tp fh pid seq fl event skb)"

lemma sent_eq:
  assumes "skb_ok skb" and "node_ok tp filters fh event" and "node_length tp filters fh event \<le> room skb"
    and "length r = node_length tp filters fh event"
  shows "sent tp fh pid seq fl event (with_old r skb) = Some (take (unat (sk_len skb)) (drop (data_off skb) (block skb))
    @ node_message tp filters fh pid seq fl event (take 2 (drop 18 r)))"
proof -
  let ?p = "skb_tail_pointer skb" and ?m = "node_message tp filters fh pid seq fl event (take 2 (drop 18 r))"
  have b: "?p + length r \<le> length (block skb)" using room_bounds(1) [OF assms(1)] assms(3,4) by linarith
  have n: "36 \<le> length r" by (simp add: assms(4) node_message_def Let_def)
  have ok: "skb_ok (with_old r skb)" "room (with_old r skb) = room skb" "skb_tail_pointer (with_old r skb) = ?p"
      "sk_len (with_old r skb) = sk_len skb" "data_off (with_old r skb) = data_off skb"
    using assms(1) b by (simp_all add: with_old_def skb_ok_def room_def skb_tail_pointer_def)
  have pad: "take 2 (drop (?p + 18) (block (with_old r skb))) = take 2 (drop 18 r)"
    using b n by (simp add: with_old_def poke_def)
  have m: "length ?m = length r" using length_node_message [of "take 2 (drop 18 r)"] n assms(4) by simp
  have e: "tcf_fill_node tp fh pid seq fl event (with_old r skb) = Some (sk_len skb + of_nat (length r), append_bytes ?m (with_old r skb))"
    using node_eq [OF ok(1) assms(2), of ?m pid seq fl] ok(2-4) assms(3) pad m by simp
  have len: "unat (sk_len skb + of_nat (length r)) = unat (sk_len skb) + length r"
    using append_bytes_fields(2) [OF ok(1), of ?m] ok(2,4) m assms(3,4) by (simp add: append_bytes_def)
  have off: "?p = data_off skb + unat (sk_len skb)" using assms(1) by (simp add: skb_ok_def skb_tail_pointer_def)
  have "block (append_bytes ?m (with_old r skb)) = take ?p (block skb) @ ?m @ drop (?p + length r) (block skb)"
    using b m ok(3) by (simp add: append_bytes_def with_old_def poke_def)
  then show ?thesis
    unfolding sent_def e using len b off m ok(5) by (simp add: append_bytes_def drop_take)
qed

text \<open>
  What is sent tells its reader two bytes of the buffer: for buffers that differ only in the bytes behind their
  tail, the messages are the same exactly when the old bytes at the offsets 18 and 19 are, and 256 to 2 messages
  can be told apart.
\<close>

theorem fill_node_leaks:
  assumes "skb_ok skb" and "node_ok tp filters fh event" and "node_length tp filters fh event \<le> room skb"
    and "n = node_length tp filters fh event"
  shows "card ((\<lambda>r. sent tp fh pid seq fl event (with_old r skb)) ` {r. length r = n}) = 256 ^ 2
    \<and> (\<forall>r r'. length r = n \<and> length r' = n \<longrightarrow>
        (sent tp fh pid seq fl event (with_old r skb) = sent tp fh pid seq fl event (with_old r' skb) \<longleftrightarrow>
          r ! 18 = r' ! 18 \<and> r ! 19 = r' ! 19))"
proof -
  let ?m = "\<lambda>old. node_message tp filters fh pid seq fl event (take 2 (drop 18 old))"
  have s: "sent tp fh pid seq fl event (with_old r skb) = Some (take (unat (sk_len skb)) (drop (data_off skb) (block skb)) @ ?m r)"
    if "length r = n" for r
    using sent_eq [OF assms(1-3)] that assms(4) by blast
  have "card ((\<lambda>r. sent tp fh pid seq fl event (with_old r skb)) ` {r. length r = n}) = card (?m ` {r. length r = n})"
    by (rule card_image_eq) (simp add: s)
  then show ?thesis
    using node.card_copies [of tp filters fh pid seq fl event] node.copy_eq_iff [of _ tp filters fh event] assms(4) s
    by (auto simp: numeral_2_eq_2)
qed

theorem fill_node_leaks_witness:
  "card ((\<lambda>r. sent ex_node 1 1 2 3 0 (with_old r (ex_skb 200 9))) ` {r. length r = 104}) = 256 ^ 2"
proof -
  have ok: "skb_ok (ex_skb 200 9)" by (rule ex_skb_ok) simp
  have r: "node_length ex_node (\<lambda>_. Some ex_filter) 1 0 \<le> room (ex_skb 200 9)"
    unfolding ex_node_length using ex_skb_ok(2) [of 200 9] by simp
  show ?thesis by (rule fill_node_leaks [OF ok ex_node_ok r ex_node_length [symmetric], THEN conjunct1])
qed


section \<open>The harness\<close>

text \<open>The pattern that \<open>SEED_MEMORY\<close> draws for the heap.\<close>

definition heap_pattern :: "env \<Rightarrow> u8 list \<Rightarrow> u64" where
  "heap_pattern E sec = push_bit 48 (ucast (rand_fun E (secret_seed sec) 0)) OR push_bit 32 (ucast (rand_fun E (secret_seed sec) 1))
     OR push_bit 16 (ucast (rand_fun E (secret_seed sec) 2)) OR ucast (rand_fun E (secret_seed sec) 3)"

lemma seeded: "repeatedVal (SEED_MEMORY (rand_fun E) (secret_seed sec) s) = heap_pattern E sec"
  "mem_ok (SEED_MEMORY (rand_fun E) (secret_seed sec) s) = mem_ok s"
  by (simp_all add: SEED_MEMORY_def initRepeatedVal_def draw_pattern_def heap_pattern_def numeral_eq_Suc)

lemma ops_kind_ok:
  assumes "length rest \<noteq> 16"
  shows "\<exists>k. ops_kind rest = Some k \<and> 0 \<in> set k \<and> length k = 16"
proof (cases "16 < length rest")
  case True
  then show ?thesis by (simp add: ops_kind_def Let_def set_update_memI)
next
  case False
  then show ?thesis using assms by (simp add: ops_kind_def Let_def set_update_memI)
qed

text \<open>The address of the filter and the event that the harness reads from the public input.\<close>

definition harness_fh :: "u8 list \<Rightarrow> u64" where
  "harness_fh pub = of_le (take 8 pub)"

definition harness_event :: "u8 list \<Rightarrow> u32" where
  "harness_event pub = of_le (take 4 pub) + 18"

lemma take_repeated: "20 \<le> n \<Longrightarrow> take 2 (drop 18 (repeated v n)) = take 2 (drop 2 (le 8 v))"
  by (rule nth_equalityI) (auto simp: repeated_def less_two)

lemma big_block:
  fixes s :: "'z memstate_scheme"
  assumes "mem_ok s" and "repeatedVal s \<noteq> 0"
  shows "\<exists>s'. wrap_malloc rand 0x100000 s = Some (Some (map Some (repeated (repeatedVal s) 1048584)), s')"
proof -
  have "unat (0x100000 :: u64) + 8 = 1048584" by simp
  then show ?thesis using wrap_malloc_ok [OF assms(1), of "0x100000" rand] assms(2) by (auto simp: repeated_def comp_def)
qed

lemma tcf_harness_run:
  fixes s :: "'z memstate_scheme"
  assumes t: "testcase E D pub sec" and m: "mem_ok s" and l: "26 \<le> length pub" "length pub \<noteq> 42" and v: "heap_pattern E sec \<noteq> 0"
    and k: "ops_kind (drop 26 pub) = Some kind"
    and f: "harness_event pub = RTM_DELTFILTER \<or> harness_fh pub = 0 \<or>
      (\<exists>f. filters (harness_fh pub) = Some f \<and> tree_ok (f_ematches f) \<and> length (options_bytes f) \<le> 1000000)"
    and tp: "tp = \<lparr>protocol = 0, prio = 0, classid = 0, ifindex = of_le (take 4 pub) + 22, p_kind = kind, p_dump = Some (basic_dump False filters)\<rparr>"
  shows "tcf_harness False filters E D s = Some (0, [Raw (node_message tp filters (harness_fh pub) (of_le (take 4 pub) + 8)
      (of_le (take 4 pub) + 12) (of_le (take 2 pub) + 16) (harness_event pub) (take 2 (drop 2 (le 8 (heap_pattern E sec))))), nl])"
proof -
  let ?s = "SEED_MEMORY (rand_fun E) (secret_seed sec) s" and ?v = "heap_pattern E sec"
  define N :: nat where "N = 1048584"
  let ?blk = "repeated ?v N"
  let ?skb = "\<lparr>sk_len = 0, data_len = 0, sk_tail = 0, sk_end = 1048576, block = ?blk, data_off = 0\<rparr>"
  let ?m = "node_message tp filters (harness_fh pub) (of_le (take 4 pub) + 8) (of_le (take 4 pub) + 12) (of_le (take 2 pub) + 16)
      (harness_event pub) (take 2 (drop 2 (le 8 ?v)))"
  obtain s' where w: "wrap_malloc (rand_fun E) 0x100000 ?s = Some (Some (map Some ?blk), s')"
    using big_block [of ?s "rand_fun E"] m v unfolding seeded N_def by blast
  have ok: "skb_ok ?skb" "room ?skb = 1048576" "skb_tail_pointer ?skb = 0"
    by (simp_all add: skb_ok_def room_def skb_tail_pointer_def N_def)
  obtain kk: "0 \<in> set kind" "length kind = 16"
    using ops_kind_ok [of "drop 26 pub"] k l by auto
  have node: "node_ok tp filters (harness_fh pub) (harness_event pub)"
    using f kk by (auto simp: node_ok_def tp)
  have ops: "length (node_options filters (harness_fh pub) (harness_event pub)) \<le> 1000000"
    using f by (auto simp: node_options_def)
  have "length (c_str kind) \<le> 16" using length_c_str [of kind] kk by simp
  then have len: "node_length tp filters (harness_fh pub) (harness_event pub) \<le> 1000060"
    using ops padn_less [of "Suc (length (c_str kind))"] by (simp add: node_message_def Let_def tp)
  have pad: "take 2 (drop 18 ?blk) = take 2 (drop 2 (le 8 ?v))" by (rule take_repeated) (simp add: N_def)
  have lm: "length ?m \<le> 1000060" using len length_node_message [of "take 2 (drop 2 (le 8 ?v))"] by simp
  have nr: "tcf_fill_node tp (harness_fh pub) (of_le (take 4 pub) + 8) (of_le (take 4 pub) + 12) (of_le (take 2 pub) + 16)
      (harness_event pub) ?skb = Some (of_nat (length ?m), append_bytes ?m ?skb)"
    using node_eq [OF ok(1) node, of ?m "of_le (take 4 pub) + 8"] ok(2,3) len pad by simp
  have u: "unat (of_nat (length ?m) :: u32) = length ?m" using lm by (intro unat_of_nat_u32) simp
  then have ns: "\<not> of_nat (length ?m) <s (0 :: u32)" using sless_unat [of "of_nat (length ?m)" 0] lm by simp
  have out: "take (length ?m) (block (append_bytes ?m ?skb)) = ?m" "sk_len (append_bytes ?m ?skb) = of_nat (length ?m)"
    using lm by (simp_all add: append_bytes_def poke_def skb_tail_pointer_def N_def)
  show ?thesis
    using l ns out u
    by (simp add: tcf_harness_def read_testcase [OF t m] Let_def w k tp [symmetric] nr
        harness_fh_def [symmetric] harness_event_def [symmetric])
qed


text \<open>
  C27: The whole harness: a run on a long enough public input always prints a message, and two runs on the same
  public input print the same exactly when the patterns that their secrets put into the heap agree in the bits 16
  to 31, which lie under \<open>tcm__pad2\<close>.
\<close>

theorem tcf_harness_leaks:
  fixes s :: "'z memstate_scheme"
  assumes "testcase E D1 pub sec1" and "testcase E D2 pub sec2" and "mem_ok s" and "26 \<le> length pub" and "length pub \<noteq> 42"
    and "heap_pattern E sec1 \<noteq> 0" and "heap_pattern E sec2 \<noteq> 0"
    and "harness_event pub = RTM_DELTFILTER \<or> harness_fh pub = 0 \<or>
      (\<exists>f. filters (harness_fh pub) = Some f \<and> tree_ok (f_ematches f) \<and> length (options_bytes f) \<le> 1000000)"
  shows "tcf_harness False filters E D1 s \<noteq> None \<and>
    (tcf_harness False filters E D1 s = tcf_harness False filters E D2 s \<longleftrightarrow>
      take 2 (drop 2 (le 8 (heap_pattern E sec1))) = take 2 (drop 2 (le 8 (heap_pattern E sec2))))"
proof -
  have "length (drop 26 pub) \<noteq> 16" using assms(4,5) by simp
  then obtain kind where k: "ops_kind (drop 26 pub) = Some kind" using ops_kind_ok by blast
  note run = tcf_harness_run [where filters = filters and pub = pub, OF _ assms(3-5) _ k assms(8) refl]
  have inj: "node_message tp filters fh pid seq fl event p = node_message tp filters fh pid seq fl event q \<longleftrightarrow> p = q"
    if "length p = 2" "length q = 2" for tp fh pid seq fl event p q
    using that by (simp add: node_message_def node_header_def Let_def)
  show ?thesis using run [OF assms(1,6)] run [OF assms(2,7)] by (simp add: inj)
qed

theorem tcf_harness_leaks_witness:
  "\<exists>pub. tcf_harness False (\<lambda>_. None) ex_env ([1, 0, 0, 0] @ pub) ex_memstate \<noteq>
    tcf_harness False (\<lambda>_. None) ex_env ([2, 0, 0, 0] @ pub) ex_memstate"
proof -
  let ?pub = "replicate 30 0 :: u8 list"
  have z: "harness_fh ?pub = 0" by (simp add: harness_fh_def numeral_eq_Suc)
  have h: "heap_pattern ex_env [1, 0, 0, 0] \<noteq> 0" "heap_pattern ex_env [2, 0, 0, 0] \<noteq> 0"
    by (simp_all add: heap_pattern_def ex_env_def secret_seed_of_le)
  have p: "take 2 (drop 2 (le 8 (heap_pattern ex_env [1, 0, 0, 0]))) \<noteq> take 2 (drop 2 (le 8 (heap_pattern ex_env [2, 0, 0, 0])))"
    by (simp add: heap_pattern_def ex_env_def secret_seed_of_le le_def upt_rec)
  show ?thesis
    using tcf_harness_leaks [OF ex_testcase ex_testcase ex_env_facts(1), of "[1, 0, 0, 0]" ?pub "[2, 0, 0, 0]" "\<lambda>_. None"] h p z
    by (intro exI [of _ ?pub]) simp
qed

end
