(* ===== verification/Usb_Driver.thy ===== *)
theory Usb_Driver
  imports Small_Leak_Theorems
begin

text \<open>
  kernel\_driver\_leak: \<open>sr9700_rx_fixup\<close>, which splits a received buffer into its packets, and the
  harness that runs it on the public input.
\<close>

section \<open>Buffers\<close>

text \<open>
  The members of \<open>struct sk_buff\<close> that are used, and its first eight bytes, which belong to \<open>next\<close>.  The pointer
  \<open>data\<close> is an offset into the memory \<open>mem\<close>, which starts at the address \<open>base\<close>.
\<close>

record usb_skb =
  us_next :: "u8 list"
  us_len :: u32
  us_data_len :: u32
  us_tail :: u32
  us_data :: nat
  us_truesize :: u32

definition SR_RX_OVERHEAD :: u32 where
  "SR_RX_OVERHEAD = 7"

definition ETH_FRAME_LEN :: int where
  "ETH_FRAME_LEN = 1514"

definition sizeof_sk_buff :: nat where
  "sizeof_sk_buff = 200"

text \<open>The result None is the assertion that fails.\<close>

definition skb_pull_checked :: "u32 \<Rightarrow> usb_skb \<Rightarrow> usb_skb option" where
  "skb_pull_checked len skb =
    (let skb = skb\<lparr>us_len := us_len skb - len\<rparr>
     in if us_data_len skb \<le> us_len skb then Some (skb\<lparr>us_data := us_data skb + unat len\<rparr>) else None)"

definition usb_skb_pull :: "u32 \<Rightarrow> usb_skb \<Rightarrow> usb_skb option" where
  "usb_skb_pull len skb = (if len > us_len skb then Some skb else skb_pull_checked len skb)"

definition usb_set_tail_pointer :: "u64 \<Rightarrow> int \<Rightarrow> usb_skb \<Rightarrow> usb_skb" where
  "usb_set_tail_pointer base offset skb =
    (let skb = skb\<lparr>us_tail := ucast (base + of_nat (us_data skb))\<rparr>
     in skb\<lparr>us_tail := us_tail skb + of_int offset\<rparr>)"

section \<open>Splitting\<close>

text \<open>
  The loop: the outer None says that it does not end, the inner None that the process was ended by a failed
  assertion, a read outside \<open>mem\<close> or a write to the NULL pointer of a failed allocation, which
  \<open>skb_clone\<close> does not check.  The result holds what was printed: a clone is printed as far as
  the size of a pointer goes, and is not used otherwise.
\<close>

definition clone_output :: "usb_skb \<Rightarrow> item list" where
  "clone_output sr_skb = [Hex (take 8 (us_next sr_skb)), nl]"

definition usb_skb_clone :: "rand \<Rightarrow> usb_skb \<Rightarrow> 'z memstate_scheme \<Rightarrow> (usb_skb \<times> 'z memstate_scheme) option" where
  "usb_skb_clone rand skb s = (case wrap_malloc rand (of_nat sizeof_sk_buff) s of
     Some (Some _, s) \<Rightarrow> Some (skb, s)
   | _ \<Rightarrow> None)"

definition sr_fill :: "u64 \<Rightarrow> int \<Rightarrow> usb_skb \<Rightarrow> usb_skb \<Rightarrow> usb_skb" where
  "sr_fill base len skb sr_skb =
    (let sr_skb = usb_set_tail_pointer base len (sr_skb\<lparr>us_len := of_int len, us_data := us_data skb + 3\<rparr>)
     in sr_skb\<lparr>us_truesize := of_int (len + int sizeof_sk_buff)\<rparr>)"

definition sr_last :: "u64 \<Rightarrow> int \<Rightarrow> usb_skb \<Rightarrow> usb_skb option" where
  "sr_last base len skb = do {
     skb \<leftarrow> usb_skb_pull 3 skb;
     let skb = usb_set_tail_pointer base len (skb\<lparr>us_len := of_int len\<rparr>) in
     Some (skb\<lparr>us_truesize := of_int (len + int sizeof_sk_buff)\<rparr>)
   }"

text \<open>One round: Inl is a return from the function.\<close>

definition rx_round ::
    "rand \<Rightarrow> u8 list \<Rightarrow> u64 \<Rightarrow> usb_skb \<Rightarrow> 'z memstate_scheme \<Rightarrow> ((int \<times> usb_skb \<times> 'z memstate_scheme) + (item list \<times> usb_skb \<times> 'z memstate_scheme)) option" where
  "rx_round rand mem base skb s =
    (if \<not> us_len skb > SR_RX_OVERHEAD then Some (Inl (0, skb, s))
     else if length mem \<le> us_data skb then None
     else if mem ! us_data skb \<noteq> 0x40 then Some (Inl (0, skb, s))
     else if length mem \<le> us_data skb + 2 then None
     else let len = int (unat (mem ! (us_data skb + 1)) + 256 * unat (mem ! (us_data skb + 2))) - 4 in
       if len > ETH_FRAME_LEN then Some (Inl (0, skb, s))
       else if us_len skb = of_int (len + 7) then do { skb \<leftarrow> sr_last base len skb; Some (Inl (2, skb, s)) }
       else do {
         (sr_skb, s) \<leftarrow> usb_skb_clone rand skb s;
         let sr_skb = sr_fill base len skb sr_skb in do {
         skb \<leftarrow> usb_skb_pull (of_int (len + 7)) skb;
         Some (Inr (clone_output sr_skb, skb, s))
       }})"

type_synonym 'z rx_result = "(int \<times> item list \<times> usb_skb \<times> 'z memstate_scheme) option"

partial_function (option) rx_loop ::
    "rand \<Rightarrow> u8 list \<Rightarrow> u64 \<Rightarrow> usb_skb \<Rightarrow> 'z memstate_scheme \<Rightarrow> item list \<Rightarrow> 'z rx_result option" where
  "rx_loop rand mem base skb s out =
    (case rx_round rand mem base skb s of
       None \<Rightarrow> Some None
     | Some (Inl (r, skb, s)) \<Rightarrow> Some (Some (r, out, skb, s))
     | Some (Inr (bs, skb, s)) \<Rightarrow> rx_loop rand mem base skb s (out @ bs))"

definition sr9700_rx_fixup :: "rand \<Rightarrow> u8 list \<Rightarrow> u64 \<Rightarrow> usb_skb \<Rightarrow> 'z memstate_scheme \<Rightarrow> 'z rx_result option" where
  "sr9700_rx_fixup rand mem base skb s =
    (if us_len skb < SR_RX_OVERHEAD then Some (Some (0, [Text ''unexpected tiny rx frame'', nl], skb, s))
     else rx_loop rand mem base skb s [])"

section \<open>The harness\<close>

text \<open>
  Every buffer takes its structure, one byte for its length and its data from the public input.  What the
  function writes into the structure is not read again, so \<open>public_in\<close> stays as it was in the model.
\<close>

definition usb_skb_at :: "u8 list \<Rightarrow> nat \<Rightarrow> usb_skb" where
  "usb_skb_at public_in pos =
    \<lparr>us_next = take 8 (drop pos public_in), us_len = ucast (public_in ! (pos + sizeof_sk_buff)) mod 50,
     us_data_len = of_le (take 4 (drop (pos + 108) public_in)), us_tail = of_le (take 4 (drop (pos + 164) public_in)),
     us_data = pos + sizeof_sk_buff + 1, us_truesize = of_le (take 4 (drop (pos + 192) public_in))\<rparr>"

text \<open>None: a call that does not end; Some None: a process that was ended.\<close>

function usb_buffers ::
    "rand \<Rightarrow> u64 \<Rightarrow> u8 list \<Rightarrow> nat \<Rightarrow> 'z memstate_scheme \<Rightarrow> item list \<Rightarrow> item list option option" where
  "usb_buffers rand base public_in pos s out =
    (if pos < length public_in \<and> sizeof_sk_buff + 50 < length public_in - pos then
       let skb = usb_skb_at public_in pos in
       (case sr9700_rx_fixup rand public_in base skb s of
          None \<Rightarrow> None
        | Some None \<Rightarrow> Some None
        | Some (Some (_, bs, _, s)) \<Rightarrow> usb_buffers rand base public_in (pos + sizeof_sk_buff + 1 + unat (us_len skb)) s (out @ bs))
     else Some (Some out))"
  by pat_completeness auto
termination by (relation "measure (\<lambda>(_, _, public_in, pos, _). length public_in - pos)") auto

declare usb_buffers.simps [simp del]

definition usb_harness :: "u64 \<Rightarrow> env \<Rightarrow> u8 list \<Rightarrow> 'z memstate_scheme \<Rightarrow> run option" where
  "usb_harness base E Data s = read_inputs E Data s (\<lambda>public_in secret_in s.
     let s = snd (seed_and_fill_stack E secret_in s) in
     if length public_in < sizeof_sk_buff + 50
     then Some (1, [Text ''Expected public len '', Num (int sizeof_sk_buff + 50), Text '', was '', Num (int (length public_in)), Text '' bytes'', nl])
     else (case usb_buffers (rand_fun E) base public_in 0 s [] of
         Some (Some out) \<Rightarrow> Some (0, out)
       | _ \<Rightarrow> None))"

end
