(* ===== verification/Usb_Theorems.thy ===== *)
theory Usb_Theorems
  imports Usb_Driver
begin

text \<open>
  Which buffers \<open>sr9700_rx_fixup\<close> splits, and which it never returns from.
\<close>

section \<open>A round on the bytes of the buffer\<close>

definition content :: "u8 list \<Rightarrow> usb_skb \<Rightarrow> u8 list" where
  "content mem skb = take (unat (us_len skb)) (drop (us_data skb) mem)"

text \<open>A linear buffer whose data lie in the memory.\<close>

definition readable :: "u8 list \<Rightarrow> usb_skb \<Rightarrow> bool" where
  "readable mem skb \<longleftrightarrow> us_data_len skb = 0 \<and> us_data skb + unat (us_len skb) \<le> length mem"

text \<open>The length field of the packet in front, and what ends the function there.\<close>

definition pkt_len :: "u8 list \<Rightarrow> nat" where
  "pkt_len xs = unat (xs ! 1) + 256 * unat (xs ! 2)"

definition refused :: "u8 list \<Rightarrow> bool" where
  "refused xs \<longleftrightarrow> length xs \<le> 7 \<or> xs ! 0 \<noteq> 0x40 \<or> 1518 < pkt_len xs"

lemma length_content: "readable mem skb \<Longrightarrow> length (content mem skb) = unat (us_len skb)"
  by (auto simp: readable_def content_def min_def)

lemma nth_content: "readable mem skb \<Longrightarrow> i < length (content mem skb) \<Longrightarrow> content mem skb ! i = mem ! (us_data skb + i)"
  by (simp add: readable_def content_def)

lemma usb_skb_clone_ok:
  fixes s :: "'z memstate_scheme"
  assumes "mem_ok s"
  shows "\<exists>s'. usb_skb_clone rand skb s = Some (skb, s') \<and> mem_ok s'"
proof -
  have "unat (of_nat sizeof_sk_buff :: u64) + 8 < 2 ^ 64" by (simp add: sizeof_sk_buff_def)
  from wrap_malloc_ok [OF assms this, of rand] show ?thesis
    using assms by (auto simp: usb_skb_clone_def initRepeatedVal_def draw_pattern_def split: prod.splits)
qed

lemma rx_round_refused:
  assumes "readable mem skb" and "refused (content mem skb)"
  shows "rx_round rand mem base skb s = Some (Inl (0, skb, s))"
proof -
  let ?xs = "content mem skb"
  have l: "length ?xs = unat (us_len skb)" by (rule length_content [OF assms(1)])
  show ?thesis
  proof (cases "length ?xs \<le> 7")
    case True
    then show ?thesis using l by (simp add: rx_round_def SR_RX_OVERHEAD_def word_less_nat_alt not_less)
  next
    case False
    then have ne: "?xs \<noteq> []" by auto
    have n: "?xs ! 0 = mem ! us_data skb" "?xs ! 1 = mem ! (us_data skb + 1)" "?xs ! 2 = mem ! (us_data skb + 2)"
      using nth_content [OF assms(1), of 0] nth_content [OF assms(1), of 1] nth_content [OF assms(1), of 2] False ne by simp_all
    have b: "\<not> length mem \<le> us_data skb + 2" "\<not> length mem \<le> us_data skb" using False l assms(1) by (auto simp: readable_def)
    have "us_len skb > SR_RX_OVERHEAD" using False l by (simp add: SR_RX_OVERHEAD_def word_less_nat_alt)
    moreover have "?xs ! 0 \<noteq> 0x40 \<or> int (pkt_len ?xs) - 4 > ETH_FRAME_LEN" using False assms(2) by (auto simp: refused_def ETH_FRAME_LEN_def)
    ultimately show ?thesis using b unfolding rx_round_def pkt_len_def n by (simp add: Let_def)
  qed
qed

lemma rx_round_accepted:
  fixes s :: "'z memstate_scheme"
  assumes r: "readable mem skb" and a: "\<not> refused (content mem skb)" and m: "mem_ok s" and n: "n = pkt_len (content mem skb) + 3"
  shows "if length (content mem skb) = n then
      \<exists>skb'. rx_round rand mem base skb s = Some (Inl (2, skb', s)) \<and> us_data skb' = us_data skb + 3 \<and> unat (us_len skb') = n - 7
    else \<exists>skb' s'. rx_round rand mem base skb s = Some (Inr ([Hex (take 8 (us_next skb)), nl], skb', s')) \<and> mem_ok s'
      \<and> (if length (content mem skb) < n then skb' = skb
         else readable mem skb' \<and> content mem skb' = drop n (content mem skb) \<and> us_next skb' = us_next skb
           \<and> us_data skb' = us_data skb + n)"
proof -
  let ?xs = "content mem skb" and ?len = "int (pkt_len (content mem skb)) - 4"
  have l: "length ?xs = unat (us_len skb)" by (rule length_content [OF r])
  have big: "7 < length ?xs" "pkt_len ?xs \<le> 1518" using a by (auto simp: refused_def)
  then have ne: "?xs \<noteq> []" by auto
  have at: "?xs ! 0 = mem ! us_data skb" "?xs ! 1 = mem ! (us_data skb + 1)" "?xs ! 2 = mem ! (us_data skb + 2)"
    using nth_content [OF r, of 0] nth_content [OF r, of 1] nth_content [OF r, of 2] big ne by simp_all
  have b: "\<not> length mem \<le> us_data skb + 2" "\<not> length mem \<le> us_data skb" using big l r by (auto simp: readable_def)
  have gt: "us_len skb > SR_RX_OVERHEAD" using big l by (simp add: SR_RX_OVERHEAD_def word_less_nat_alt)
  have len: "int (unat (mem ! (us_data skb + 1)) + 256 * unat (mem ! (us_data skb + 2))) - 4 = ?len"
    unfolding pkt_len_def at by simp
  have sm: "\<not> ?len > ETH_FRAME_LEN" using big by (simp add: ETH_FRAME_LEN_def)
  have st: "mem ! us_data skb = 0x40" using a at(1) by (simp add: refused_def)
  have w: "of_int (?len + 7) = (of_nat n :: u32)" using n by (simp add: algebra_simps)
  have un: "unat (of_nat n :: u32) = n" using n big by (intro unat_of_nat_u32) simp
  have eq: "us_len skb = of_int (?len + 7) \<longleftrightarrow> length ?xs = n"
    unfolding w l by (simp add: word_unat_eq_iff un)
  note unf = rx_round_def Let_def len
  show ?thesis
  proof (cases "length ?xs = n")
    case True
    then have p: "4 \<le> pkt_len ?xs" using n big by simp
    then have "of_int ?len = (of_nat (pkt_len ?xs - 4) :: u32)" by (simp add: of_nat_diff)
    moreover have "pkt_len ?xs - 4 < 2 ^ 32" using big by simp
    ultimately have ul: "unat (of_int ?len :: u32) = n - 7" using unat_of_nat_u32 n by simp
    have "\<not> 3 > us_len skb" using big l by (simp add: word_less_nat_alt)
    then obtain skb' where "sr_last base ?len skb = Some skb'" "us_data skb' = us_data skb + 3" "us_len skb' = of_int ?len"
      using r by (auto simp: sr_last_def usb_skb_pull_def skb_pull_checked_def usb_set_tail_pointer_def readable_def Let_def)
    then show ?thesis using True gt b st sm ul eq unfolding unf by simp
  next
    case False
    obtain s' where c: "usb_skb_clone rand skb s = Some (skb, s')" "mem_ok s'" using usb_skb_clone_ok [OF m] by blast
    have o: "clone_output (sr_fill base ?len skb skb) = [Hex (take 8 (us_next skb)), nl]"
      by (simp add: clone_output_def sr_fill_def usb_set_tail_pointer_def Let_def)
    have gtn: "of_int (?len + 7) > us_len skb \<longleftrightarrow> length ?xs < n" unfolding w l by (simp add: word_less_nat_alt un)
    show ?thesis
    proof (cases "length ?xs < n")
      case True
      then have "usb_skb_pull (of_int (?len + 7)) skb = Some skb" using gtn by (simp add: usb_skb_pull_def)
      then show ?thesis using False True gt b st sm eq c o unfolding unf by simp
    next
      case nl: False
      let ?skb = "skb\<lparr>us_len := us_len skb - of_nat n, us_data := us_data skb + n\<rparr>"
      have "us_data_len skb = 0" using r by (simp add: readable_def)
      then have "usb_skb_pull (of_int (?len + 7)) skb = Some ?skb"
        unfolding w using gtn [unfolded w] nl un by (simp add: usb_skb_pull_def skb_pull_checked_def Let_def)
      moreover have ul: "unat (us_len skb - of_nat n) = unat (us_len skb) - n"
        using nl l un by (simp add: unat_sub word_le_nat_alt)
      then have "readable mem ?skb" "content mem ?skb = drop n ?xs"
        using r nl l by (auto simp: readable_def content_def drop_take add.commute)
      ultimately show ?thesis using False nl gt b st sm eq c o unfolding unf by simp
    qed
  qed
qed

section \<open>Endless buffers\<close>

text \<open>A packet that claims more bytes than are left: nothing is taken off, and the next round is the same.\<close>

function hangs :: "u8 list \<Rightarrow> bool" where
  "hangs xs = (if refused xs \<or> length xs = pkt_len xs + 3 then False
     else if length xs < pkt_len xs + 3 then True else hangs (drop (pkt_len xs + 3) xs))"
  by pat_completeness auto
termination by (relation "measure length") (auto simp: refused_def)

declare hangs.simps [simp del]

lemma rx_loop_ends:
  fixes s :: "'z memstate_scheme"
  assumes "readable mem skb" and "mem_ok s" and "\<not> hangs (content mem skb)"
  shows "\<exists>r. rx_loop rand mem base skb s out = Some (Some r)"
  using assms
proof (induction "length (content mem skb)" arbitrary: skb s out rule: less_induct)
  case less
  let ?xs = "content mem skb"
  show ?case
  proof (cases "refused ?xs")
    case True
    show ?thesis by (subst rx_loop.simps) (simp add: rx_round_refused [OF less.prems(1) True])
  next
    case False
    note a = rx_round_accepted [OF less.prems(1) False less.prems(2) refl, of rand base]
    show ?thesis
    proof (cases "length ?xs = pkt_len ?xs + 3")
      case True
      then show ?thesis using a by (subst rx_loop.simps) auto
    next
      case ne: False
      then have nl: "\<not> length ?xs < pkt_len ?xs + 3" and nh: "\<not> hangs (drop (pkt_len ?xs + 3) ?xs)"
        using less.prems(3) False hangs.simps [of ?xs] by (auto split: if_splits)
      then obtain skb' s' where r: "rx_round rand mem base skb s = Some (Inr ([Hex (take 8 (us_next skb)), nl], skb', s'))"
        "mem_ok s'" "readable mem skb'" "content mem skb' = drop (pkt_len ?xs + 3) ?xs"
        using a ne by auto
      have "length (content mem skb') < length ?xs" using r(4) nl by simp
      from less.hyps [OF this r(3,2)] show ?thesis using r(1,4) nh by (subst rx_loop.simps) simp
    qed
  qed
qed


lemma rx_loop_endless:
  fixes s :: "'z memstate_scheme"
  assumes "rx_loop rand mem base skb s out = Some y"
  shows "\<not> (readable mem skb \<and> mem_ok s \<and> hangs (content mem skb))"
proof (rule rx_loop.raw_induct [where P = "\<lambda>rand mem base skb s out y. \<not> (readable mem skb \<and> mem_ok s \<and> hangs (content mem skb))", OF _ assms])
  fix f :: "rand \<Rightarrow> u8 list \<Rightarrow> u64 \<Rightarrow> usb_skb \<Rightarrow> 'z memstate_scheme \<Rightarrow> item list \<Rightarrow> 'z rx_result option"
    and rand mem base skb out y and s :: "'z memstate_scheme"
  assume ih: "\<And>rand mem base skb s out y. f rand mem base skb s out = Some y \<Longrightarrow> \<not> (readable mem skb \<and> mem_ok s \<and> hangs (content mem skb))"
    and step: "(case rx_round rand mem base skb s of None \<Rightarrow> Some None | Some (Inl (r, skb, s)) \<Rightarrow> Some (Some (r, out, skb, s))
       | Some (Inr (bs, skb, s)) \<Rightarrow> f rand mem base skb s (out @ bs)) = Some y"
  let ?xs = "content mem skb"
  show "\<not> (readable mem skb \<and> mem_ok s \<and> hangs ?xs)"
  proof
    assume a: "readable mem skb \<and> mem_ok s \<and> hangs ?xs"
    then have h: "\<not> refused ?xs" "length ?xs \<noteq> pkt_len ?xs + 3" "\<not> length ?xs < pkt_len ?xs + 3 \<Longrightarrow> hangs (drop (pkt_len ?xs + 3) ?xs)"
      using hangs.simps [of ?xs] by (auto split: if_splits)
    then obtain bs skb' s' where r: "rx_round rand mem base skb s = Some (Inr (bs, skb', s'))" "mem_ok s'"
      "readable mem skb'" "hangs (content mem skb')"
      using rx_round_accepted [of mem skb s _ rand base, OF _ h(1) _ refl] a by (auto split: if_splits)
    from step r(1) have "f rand mem base skb' s' (out @ bs) = Some y" by simp
    from ih [OF this] r show False by simp
  qed
qed

lemma rx_loop_hangs:
  fixes s :: "'z memstate_scheme"
  assumes "readable mem skb" and "mem_ok s" and "hangs (content mem skb)"
  shows "rx_loop rand mem base skb s out = None"
  using rx_loop_endless [of rand mem base skb s out] assms by (cases "rx_loop rand mem base skb s out") auto

text \<open>
  C28: \<open>sr9700_rx_fixup\<close> on a linear buffer returns exactly when no packet of the buffer claims more bytes than
  are left of it.  Such a packet is never taken off, so the loop clones and prints it forever.
  A rest that is refused (fewer than eight bytes, another first byte or too large a length) ends the loop.
\<close>

theorem rx_fixup_returns_iff:
  fixes s :: "'z memstate_scheme"
  assumes "readable mem skb" and "mem_ok s"
  shows "(sr9700_rx_fixup rand mem base skb s = None \<longleftrightarrow> hangs (content mem skb))
    \<and> (\<not> hangs (content mem skb) \<longrightarrow> (\<exists>r. sr9700_rx_fixup rand mem base skb s = Some (Some r)))"
proof (cases "us_len skb < SR_RX_OVERHEAD")
  case True
  then have "refused (content mem skb)"
    using length_content [OF assms(1)] by (simp add: refused_def SR_RX_OVERHEAD_def word_less_nat_alt)
  then show ?thesis using True hangs.simps [of "content mem skb"] by (simp add: sr9700_rx_fixup_def)
next
  case False
  then have eq: "sr9700_rx_fixup rand mem base skb s = rx_loop rand mem base skb s []" by (simp add: sr9700_rx_fixup_def)
  show ?thesis
  proof (cases "hangs (content mem skb)")
    case True
    then show ?thesis unfolding eq by (simp add: rx_loop_hangs [OF assms])
  next
    case False
    from rx_loop_ends [OF assms False, of rand base "[]"] False show ?thesis unfolding eq by auto
  qed
qed

text \<open>The third packet claims 32 bytes.\<close>

definition ex_frames :: "u8 list" where
  "ex_frames = [0x40, 5, 0, 1, 0, 0, 0, 0, 0x40, 32, 0, 1, 0, 0, 0, 0]"

theorem rx_fixup_returns_iff_witness:
  "sr9700_rx_fixup (\<lambda>_ _. 0) ex_frames 0 \<lparr>us_next = [], us_len = 16, us_data_len = 0, us_tail = 0, us_data = 0, us_truesize = 0\<rparr> ex_memstate = None"
proof -
  let ?skb = "\<lparr>us_next = [], us_len = 16, us_data_len = 0, us_tail = 0, us_data = 0, us_truesize = 0\<rparr> :: usb_skb"
  have r: "readable ex_frames ?skb" by (simp add: readable_def ex_frames_def)
  have "content ex_frames ?skb = ex_frames" by (simp add: content_def ex_frames_def)
  moreover have "hangs ex_frames"
    by (subst hangs.simps, subst hangs.simps) (simp add: ex_frames_def refused_def pkt_len_def)
  ultimately show ?thesis using rx_fixup_returns_iff [OF r, of ex_memstate "\<lambda>_ _. 0" 0] by simp
qed

section \<open>Whole packets\<close>

text \<open>A packet as the comment of the function describes it.\<close>

definition usb_frame :: "u8 list \<times> u8 list \<Rightarrow> u8 list" where
  "usb_frame f = (case f of (payload, crc) \<Rightarrow>
    [0x40, of_nat ((length payload + 4) mod 256), of_nat ((length payload + 4) div 256)] @ payload @ crc)"

definition frame_ok :: "u8 list \<times> u8 list \<Rightarrow> bool" where
  "frame_ok f \<longleftrightarrow> fst f \<noteq> [] \<and> length (fst f) \<le> 1514 \<and> length (snd f) = 4"

lemma frame_facts:
  assumes "frame_ok f"
  shows "pkt_len (usb_frame f @ xs) = length (fst f) + 4" "length (usb_frame f) = length (fst f) + 7" "\<not> refused (usb_frame f @ xs)"
proof -
  obtain p c where f: "f = (p, c)" by (cases f)
  have "unat (of_nat ((length p + 4) mod 256) :: u8) = (length p + 4) mod 256" by (simp add: unat_of_nat)
  moreover have "(length p + 4) div 256 < 256" using assms f by (intro less_mult_imp_div_less) (simp add: frame_ok_def)
  then have "unat (of_nat ((length p + 4) div 256) :: u8) = (length p + 4) div 256" by (simp add: unat_of_nat)
  ultimately show l: "pkt_len (usb_frame f @ xs) = length (fst f) + 4" by (simp add: pkt_len_def usb_frame_def f)
  show "length (usb_frame f) = length (fst f) + 7" using assms by (simp add: frame_ok_def usb_frame_def f)
  show "\<not> refused (usb_frame f @ xs)" using assms l by (auto simp: refused_def usb_frame_def f frame_ok_def neq_Nil_conv)
qed

lemma rx_loop_frames:
  fixes s :: "'z memstate_scheme"
  assumes "readable mem skb" and "mem_ok s" and "content mem skb = concat (map usb_frame fs) @ usb_frame f" and "\<forall>g\<in>set (fs @ [f]). frame_ok g"
  shows "\<exists>skb' s'. rx_loop rand mem base skb s out
      = Some (Some (2, out @ concat (replicate (length fs) [Hex (take 8 (us_next skb)), nl]), skb', s'))
    \<and> take (unat (us_len skb')) (drop (us_data skb') mem) = fst f"
  using assms
proof (induction fs arbitrary: skb s out)
  case Nil
  have c: "content mem skb = usb_frame f @ []" and ok: "frame_ok f" using Nil.prems by simp_all
  note ff = frame_facts(1) [OF ok, of "[]", folded c] frame_facts(2) [OF ok] frame_facts(3) [OF ok, of "[]", folded c]
  have n: "length (content mem skb) = length (fst f) + 7" using ff(2) c by simp
  from rx_round_accepted [OF Nil.prems(1) ff(3) Nil.prems(2) refl, of rand base] n ff(1)
  obtain skb' where r: "rx_round rand mem base skb s = Some (Inl (2, skb', s))" "us_data skb' = us_data skb + 3" "unat (us_len skb') = length (fst f)"
    by auto
  have "take (length (fst f)) (drop (us_data skb + 3) mem) = take (length (fst f)) (drop 3 (content mem skb))"
    using n by (simp add: content_def drop_take add.commute)
  also have "\<dots> = fst f" by (simp add: c usb_frame_def split: prod.splits)
  finally show ?case using r by (subst rx_loop.simps) simp
next
  case (Cons g fs)
  let ?rest = "concat (map usb_frame fs) @ usb_frame f"
  have c: "content mem skb = usb_frame g @ ?rest" and ok: "frame_ok g" "frame_ok f" using Cons.prems by simp_all
  note ff = frame_facts(1) [OF ok(1), of ?rest, folded c] frame_facts(2) [OF ok(1)] frame_facts(3) [OF ok(1), of ?rest, folded c]
  have "length (usb_frame f) > 0" using frame_facts(2) [OF ok(2)] by simp
  then have n: "length (content mem skb) > length (fst g) + 7" using ff(2) c by simp
  from rx_round_accepted [OF Cons.prems(1) ff(3) Cons.prems(2) refl, of rand base] n ff(1)
  obtain skb' s' where r: "rx_round rand mem base skb s = Some (Inr ([Hex (take 8 (us_next skb)), nl], skb', s'))" "mem_ok s'"
    "readable mem skb'" "content mem skb' = drop (length (fst g) + 7) (content mem skb)" "us_next skb' = us_next skb"
    by (auto simp: add.commute)
  have c': "content mem skb' = ?rest" using r(4) c ff(2) by simp
  have "\<forall>g\<in>set (fs @ [f]). frame_ok g" using Cons.prems(4) by simp
  from Cons.IH [OF r(3,2) c' this, of "out @ [Hex (take 8 (us_next skb)), nl]"] show ?case
    using r(1,5) by (subst rx_loop.simps) simp
qed

text \<open>
  C29: On a linear buffer that holds one or more whole packets \<open>sr9700_rx_fixup\<close> returns 2 and leaves exactly the
  payload of the last packet in the buffer; a line is printed for each of the others.
\<close>

theorem rx_fixup_frames:
  fixes s :: "'z memstate_scheme"
  assumes "readable mem skb" and "mem_ok s" and "content mem skb = concat (map usb_frame fs) @ usb_frame f" and "\<forall>g\<in>set (fs @ [f]). frame_ok g"
  shows "\<exists>skb' s'. sr9700_rx_fixup rand mem base skb s
      = Some (Some (2, concat (replicate (length fs) [Hex (take 8 (us_next skb)), nl]), skb', s'))
    \<and> content mem skb' = fst f"
proof -
  have "7 \<le> length (usb_frame f)" using frame_facts(2) [of f] assms(4) by simp
  then have "7 \<le> unat (us_len skb)" using length_content [OF assms(1)] assms(3) by simp
  then have "\<not> us_len skb < SR_RX_OVERHEAD" by (simp add: SR_RX_OVERHEAD_def word_less_nat_alt)
  then show ?thesis using rx_loop_frames [OF assms, of rand base "[]"] by (simp add: sr9700_rx_fixup_def content_def)
qed

theorem rx_fixup_frames_witness:
  "\<exists>skb' s'. sr9700_rx_fixup (\<lambda>_ _. 0) (take 8 ex_frames @ take 8 ex_frames) 0
      \<lparr>us_next = [], us_len = 16, us_data_len = 0, us_tail = 0, us_data = 0, us_truesize = 0\<rparr> ex_memstate
    = Some (Some (2, [Hex [], nl], skb', s')) \<and> content (take 8 ex_frames @ take 8 ex_frames) skb' = [1]"
  using rx_fixup_frames [of "take 8 ex_frames @ take 8 ex_frames"
    "\<lparr>us_next = [], us_len = 16, us_data_len = 0, us_tail = 0, us_data = 0, us_truesize = 0\<rparr>" ex_memstate "[([1], [0, 0, 0, 0])]" "([1], [0, 0, 0, 0])" "\<lambda>_ _. 0" 0]
  by (simp add: readable_def content_def usb_frame_def frame_ok_def ex_frames_def)

end
