(* ===== verification/Heartbeat.thy ===== *)
theory Heartbeat
  imports Leak
begin

text \<open>
  OpenSSL CVE-2014-0160: the heartbeat extension of ssl/t1\_lib.c and its copy for datagrams in ssl/d1\_both.c.
  Allocation and the writing of a record are parameters, the \<open>n\<close>-th call of which may give another result than
  the others, and so is the table of 16384 bytes that crypto/rand/rand\_lib.c takes random bytes from.
\<close>

unbundle bit_operations_syntax

section \<open>State\<close>

text \<open>What the program does outside: records handed to the writer, with its result, and messages shown to the callback.\<close>

datatype hb_event =
    Written "u8 list" int
  | Shown bool "u8 list"
  | Refused nat

record hb_ssl =
  tlsext_heartbeat :: u32
  tlsext_hb_pending :: u32
  tlsext_hb_seq :: u32
  in_init :: bool
  in_handshake :: u32
  msg_callback :: bool
  timer :: bool
  rand_pos :: u32
  calls :: nat
  trace :: "hb_event list"

record hb_world =
  hb_malloc :: "nat \<Rightarrow> nat \<Rightarrow> u8 list option"
  rand_bytes :: "u8 list"
  hb_write :: "nat \<Rightarrow> u8 list \<Rightarrow> int"

definition SSL_TLSEXT_HB_ENABLED :: u32 where
  "SSL_TLSEXT_HB_ENABLED = 1"

definition SSL_TLSEXT_HB_DONT_SEND_REQUESTS :: u32 where
  "SSL_TLSEXT_HB_DONT_SEND_REQUESTS = 2"

definition SSL_TLSEXT_HB_DONT_RECV_REQUESTS :: u32 where
  "SSL_TLSEXT_HB_DONT_RECV_REQUESTS = 4"

definition TLS1_HB_REQUEST :: u8 where
  "TLS1_HB_REQUEST = 1"

definition TLS1_HB_RESPONSE :: u8 where
  "TLS1_HB_RESPONSE = 2"

definition TLSEXT_TYPE_heartbeat :: u32 where
  "TLSEXT_TYPE_heartbeat = 15"

text \<open>Reasons of SSLerr.\<close>

definition SSL_R_TLS_HEARTBEAT_PEER_DOESNT_ACCEPT :: nat where
  "SSL_R_TLS_HEARTBEAT_PEER_DOESNT_ACCEPT = 365"

definition SSL_R_TLS_HEARTBEAT_PENDING :: nat where
  "SSL_R_TLS_HEARTBEAT_PENDING = 366"

definition SSL_R_UNEXPECTED_MESSAGE :: nat where
  "SSL_R_UNEXPECTED_MESSAGE = 244"

definition n2s :: "u8 list \<Rightarrow> u32" where
  "n2s c = push_bit 8 (ucast (c ! 0)) OR ucast (c ! 1)"

definition s2n :: "u32 \<Rightarrow> u8 list" where
  "s2n s = [ucast (drop_bit 8 s AND 0xff), ucast (s AND 0xff)]"

section \<open>External calls\<close>

definition emit :: "hb_event \<Rightarrow> hb_ssl \<Rightarrow> hb_ssl" where
  "emit e s = s\<lparr>trace := trace s @ [e]\<rparr>"

definition openssl_malloc :: "hb_world \<Rightarrow> nat \<Rightarrow> hb_ssl \<Rightarrow> u8 list option \<times> hb_ssl" where
  "openssl_malloc w n s = (hb_malloc w (calls s) n, s\<lparr>calls := calls s + 1\<rparr>)"

text \<open>
  Once the table is used up the buffer keeps what it held; the callers do not look at the result.
\<close>

definition RAND_pseudo_bytes :: "hb_world \<Rightarrow> nat \<Rightarrow> nat \<Rightarrow> u8 list \<Rightarrow> hb_ssl \<Rightarrow> u8 list \<times> hb_ssl" where
  "RAND_pseudo_bytes w off num buf s =
    (if unat (rand_pos s + of_nat num) < length (rand_bytes w)
     then (poke off (take num (drop (unat (rand_pos s)) (rand_bytes w))) buf, s\<lparr>rand_pos := rand_pos s + of_nat num\<rparr>)
     else (buf, s))"

definition write_bytes :: "hb_world \<Rightarrow> u8 list \<Rightarrow> hb_ssl \<Rightarrow> int \<times> hb_ssl" where
  "write_bytes w buf s =
    (let r = hb_write w (calls s) buf in (r, emit (Written buf r) (s\<lparr>calls := calls s + 1\<rparr>)))"

definition show_message :: "bool \<Rightarrow> u8 list \<Rightarrow> hb_ssl \<Rightarrow> hb_ssl" where
  "show_message outgoing bs s = (if msg_callback s then emit (Shown outgoing bs) s else s)"

text \<open>\<open>n\<close> bytes at an offset of the memory; None outside it.\<close>

definition read_at :: "nat \<Rightarrow> nat \<Rightarrow> u8 list \<Rightarrow> u8 list option" where
  "read_at off n mem = (if off + n \<le> length mem then Some (take n (drop off mem)) else None)"

section \<open>Messages that arrive\<close>

text \<open>
  \<open>mem\<close> is the memory from \<open>rrec.data\<close> on: the record, of length \<open>rlen\<close>, and what lies behind it.
  None: a read behind the end of \<open>mem\<close>, or a write to the result of a failed allocation, which is not checked.
\<close>

definition hb_response :: "hb_world \<Rightarrow> u8 list \<Rightarrow> u32 \<Rightarrow> hb_ssl \<Rightarrow> (u8 list \<times> hb_ssl) option" where
  "hb_response w mem payload s =
    (let (buffer, s) = openssl_malloc w (unat (1 + 2 + payload + 16)) s in do {
       buffer \<leftarrow> buffer;
       let buffer = poke 0 (TLS1_HB_RESPONSE # s2n payload) buffer in do {
       pl \<leftarrow> read_at 3 (unat payload) mem;
       let buffer = poke 3 pl buffer in
       Some (RAND_pseudo_bytes w (3 + unat payload) 16 buffer s)
     }})"

definition tls1_process_heartbeat :: "hb_world \<Rightarrow> u8 list \<Rightarrow> nat \<Rightarrow> hb_ssl \<Rightarrow> (int \<times> hb_ssl) option" where
  "tls1_process_heartbeat w mem rlen s = do {
     p \<leftarrow> read_at 0 3 mem;
     let hbtype = p ! 0; payload = n2s (drop 1 p); s = show_message False (take rlen mem) s in
     if hbtype = TLS1_HB_REQUEST then do {
       (buffer, s) \<leftarrow> hb_response w mem payload s;
       let (r, s) = write_bytes w buffer s;
           s = (if r \<ge> 0 then show_message True buffer s else s) in
       Some (if r < 0 then r else 0, s)
     }
     else if hbtype = TLS1_HB_RESPONSE then do {
       pl \<leftarrow> read_at 3 2 mem;
       let seq = n2s pl in
       Some (0, if payload = 18 \<and> seq = tlsext_hb_seq s
                then s\<lparr>tlsext_hb_seq := tlsext_hb_seq s + 1, tlsext_hb_pending := 0\<rparr> else s)
     }
     else Some (0, s)
   }"

definition dtls1_process_heartbeat :: "hb_world \<Rightarrow> u8 list \<Rightarrow> nat \<Rightarrow> hb_ssl \<Rightarrow> (int \<times> hb_ssl) option" where
  "dtls1_process_heartbeat w mem rlen s = do {
     p \<leftarrow> read_at 0 3 mem;
     let hbtype = p ! 0; payload = n2s (drop 1 p); s = show_message False (take rlen mem) s in
     if hbtype = TLS1_HB_REQUEST then do {
       (buffer, s) \<leftarrow> hb_response w mem payload s;
       let (r, s) = write_bytes w buffer s;
           s = (if r \<ge> 0 then show_message True buffer s else s) in
       Some (if r < 0 then r else 0, s)
     }
     else if hbtype = TLS1_HB_RESPONSE then do {
       pl \<leftarrow> read_at 3 2 mem;
       let seq = n2s pl in
       Some (0, if payload = 18 \<and> seq = tlsext_hb_seq s
                then s\<lparr>timer := False, tlsext_hb_seq := tlsext_hb_seq s + 1, tlsext_hb_pending := 0\<rparr> else s)
     }
     else Some (0, s)
   }"

section \<open>Requests\<close>

definition hb_refused :: "hb_ssl \<Rightarrow> nat option" where
  "hb_refused s =
    (if tlsext_heartbeat s AND SSL_TLSEXT_HB_ENABLED = 0 \<or> tlsext_heartbeat s AND SSL_TLSEXT_HB_DONT_SEND_REQUESTS \<noteq> 0
     then Some SSL_R_TLS_HEARTBEAT_PEER_DOESNT_ACCEPT
     else if tlsext_hb_pending s \<noteq> 0 then Some SSL_R_TLS_HEARTBEAT_PENDING
     else if in_init s \<or> in_handshake s \<noteq> 0 then Some SSL_R_UNEXPECTED_MESSAGE
     else None)"

definition hb_request :: "hb_world \<Rightarrow> hb_ssl \<Rightarrow> (u8 list \<times> hb_ssl) option" where
  "hb_request w s =
    (let payload = 18; (buf, s) = openssl_malloc w (unat (1 + 2 + payload + 16 :: u32)) s in do {
       buf \<leftarrow> buf;
       let buf = poke 0 (TLS1_HB_REQUEST # s2n payload) buf;
           buf = poke 3 (s2n (tlsext_hb_seq s)) buf;
           (buf, s) = RAND_pseudo_bytes w 5 16 buf s in
       Some (RAND_pseudo_bytes w 21 16 buf s)
     })"

definition tls1_heartbeat :: "hb_world \<Rightarrow> hb_ssl \<Rightarrow> (int \<times> hb_ssl) option" where
  "tls1_heartbeat w s = (case hb_refused s of
     Some reason \<Rightarrow> Some (- 1, emit (Refused reason) s)
   | None \<Rightarrow> do {
       (buf, s) \<leftarrow> hb_request w s;
       let (ret, s) = write_bytes w buf s in
       Some (ret, if ret \<ge> 0 then (show_message True buf s)\<lparr>tlsext_hb_pending := 1\<rparr> else s)
     })"

definition dtls1_heartbeat :: "hb_world \<Rightarrow> hb_ssl \<Rightarrow> (int \<times> hb_ssl) option" where
  "dtls1_heartbeat w s = (case hb_refused s of
     Some reason \<Rightarrow> Some (- 1, emit (Refused reason) s)
   | None \<Rightarrow> do {
       (buf, s) \<leftarrow> hb_request w s;
       let (ret, s) = write_bytes w buf s in
       Some (ret, if ret \<ge> 0 then (show_message True buf s)\<lparr>timer := True, tlsext_hb_pending := 1\<rparr> else s)
     })"

text \<open>A handshake that starts ends the wait; SSL\_ctrl starts requests, and switches off those of the peer.\<close>

definition hb_handshake :: "hb_ssl \<Rightarrow> hb_ssl" where
  "hb_handshake s =
    (if tlsext_hb_pending s \<noteq> 0 then s\<lparr>tlsext_hb_pending := 0, tlsext_hb_seq := tlsext_hb_seq s + 1\<rparr> else s)"

datatype hb_ctrl = SEND_HEARTBEAT | HEARTBEAT_PENDING | HEARTBEAT_NO_REQUESTS

definition ssl_ctrl_heartbeat :: "hb_world \<Rightarrow> bool \<Rightarrow> hb_ctrl \<Rightarrow> int \<Rightarrow> hb_ssl \<Rightarrow> (int \<times> hb_ssl) option" where
  "ssl_ctrl_heartbeat w dtls cmd larg s = (case cmd of
     SEND_HEARTBEAT \<Rightarrow> if dtls then dtls1_heartbeat w s else tls1_heartbeat w s
   | HEARTBEAT_PENDING \<Rightarrow> Some (uint (tlsext_hb_pending s), s)
   | HEARTBEAT_NO_REQUESTS \<Rightarrow> Some (1, s\<lparr>tlsext_heartbeat :=
       (if larg \<noteq> 0 then tlsext_heartbeat s OR SSL_TLSEXT_HB_DONT_RECV_REQUESTS
        else tlsext_heartbeat s AND NOT SSL_TLSEXT_HB_DONT_RECV_REQUESTS)\<rparr>))"

section \<open>Negotiation\<close>

definition hb_mode :: "hb_ssl \<Rightarrow> u8" where
  "hb_mode s = (if tlsext_heartbeat s AND SSL_TLSEXT_HB_DONT_RECV_REQUESTS \<noteq> 0
     then ucast SSL_TLSEXT_HB_DONT_SEND_REQUESTS else ucast SSL_TLSEXT_HB_ENABLED)"

definition add_clienthello_heartbeat :: "hb_ssl \<Rightarrow> u8 list" where
  "add_clienthello_heartbeat s = s2n TLSEXT_TYPE_heartbeat @ s2n 1 @ [hb_mode s]"

definition add_serverhello_heartbeat :: "hb_ssl \<Rightarrow> u8 list" where
  "add_serverhello_heartbeat s =
    (if tlsext_heartbeat s AND SSL_TLSEXT_HB_ENABLED \<noteq> 0
     then s2n TLSEXT_TYPE_heartbeat @ s2n 1 @ [hb_mode s] else [])"

definition reset_heartbeat :: "hb_ssl \<Rightarrow> hb_ssl" where
  "reset_heartbeat s = s\<lparr>tlsext_heartbeat :=
     tlsext_heartbeat s AND NOT (SSL_TLSEXT_HB_ENABLED OR SSL_TLSEXT_HB_DONT_SEND_REQUESTS)\<rparr>"

text \<open>The first byte of the extension; None is the alert about an illegal parameter.\<close>

definition parse_hello_heartbeat :: "u8 \<Rightarrow> hb_ssl \<Rightarrow> hb_ssl option" where
  "parse_hello_heartbeat mode s =
    (if mode = 1 then Some (s\<lparr>tlsext_heartbeat := tlsext_heartbeat s OR SSL_TLSEXT_HB_ENABLED\<rparr>)
     else if mode = 2 then Some (s\<lparr>tlsext_heartbeat :=
       (tlsext_heartbeat s OR SSL_TLSEXT_HB_ENABLED) OR SSL_TLSEXT_HB_DONT_SEND_REQUESTS\<rparr>)
     else None)"

end
