(* ===== verification/Heartbeat_Theorems.thy ===== *)
theory Heartbeat_Theorems
  imports Heartbeat
begin

text \<open>
  What a heartbeat tells the peer, how a request and its response end the wait, and why requests are told apart by
  their sequence numbers.
\<close>

section \<open>Sixteen bits\<close>

lemma mask_ff: "(0xff :: u32) = mask 8" "(0xffff :: u32) = mask 16"
  by (simp_all add: mask_eq_exp_minus_1)

lemma n2s_s2n: "n2s (s2n v @ xs) = v AND 0xffff"
proof (rule bit_word_eqI)
  fix n assume "n < LENGTH(32)"
  then show "bit (n2s (s2n v @ xs)) n \<longleftrightarrow> bit (v AND 0xffff) n"
    unfolding mask_ff n2s_def s2n_def
    by (auto simp: bit_simps not_less)
qed

lemma s2n_n2s: "s2n (n2s (a # b # xs)) = [a, b]"
proof -
  have "ucast (drop_bit 8 (n2s (a # b # xs)) AND 0xff) = a"
    unfolding mask_ff n2s_def by (rule bit_word_eqI) (auto simp: bit_simps dest: bit_imp_le_length)
  moreover have "ucast (n2s (a # b # xs) AND 0xff) = b"
    unfolding mask_ff n2s_def by (rule bit_word_eqI) (auto simp: bit_simps)
  ultimately show ?thesis by (simp add: s2n_def)
qed

lemma unat_n2s: "unat (n2s c) < 65536"
proof -
  have "n2s c = n2s c AND mask 16"
    unfolding n2s_def by (rule bit_word_eqI) (auto simp: bit_simps dest: bit_imp_le_length)
  then have "n2s c = take_bit 16 (n2s c)" by (simp add: take_bit_eq_mask)
  then have "unat (n2s c) = take_bit 16 (unat (n2s c))" by (metis unsigned_take_bit_eq)
  then show ?thesis using take_bit_nat_less_exp [of 16 "unat (n2s c)"] by simp
qed

lemma n2s_small: "unat v < 65536 \<Longrightarrow> n2s (s2n v @ xs) = v"
proof -
  assume a: "unat v < 65536"
  have "v AND mask 16 = take_bit 16 v" by (simp add: take_bit_eq_mask)
  also have "\<dots> = v" using a by (intro word_unat_eq_iff [THEN iffD2]) (simp add: unsigned_take_bit_eq take_bit_nat_eq_self)
  finally show ?thesis by (simp add: n2s_s2n mask_ff)
qed

lemma length_s2n [simp]: "length (s2n v) = 2"
  by (simp add: s2n_def)

lemma n2s_append: "2 \<le> length xs \<Longrightarrow> n2s (xs @ ys) = n2s xs"
  by (auto simp: n2s_def nth_append)

section \<open>Surroundings\<close>

definition world_ok :: "hb_world \<Rightarrow> bool" where
  "world_ok w \<longleftrightarrow> (\<forall>k n b. hb_malloc w k n = Some b \<longrightarrow> length b = n) \<and> length (rand_bytes w) < 2 ^ 31"

definition state_ok :: "hb_world \<Rightarrow> hb_ssl \<Rightarrow> bool" where
  "state_ok w s \<longleftrightarrow> unat (rand_pos s) \<le> length (rand_bytes w)"

text \<open>Random bytes, or what the buffer held.\<close>

definition random_or :: "hb_world \<Rightarrow> hb_ssl \<Rightarrow> u8 list \<Rightarrow> u8 list" where
  "random_or w s old =
    (if unat (rand_pos s) + length old < length (rand_bytes w) then take (length old) (drop (unat (rand_pos s)) (rand_bytes w)) else old)"

definition drawn :: "hb_world \<Rightarrow> nat \<Rightarrow> hb_ssl \<Rightarrow> hb_ssl" where
  "drawn w n s = (if unat (rand_pos s) + n < length (rand_bytes w) then s\<lparr>rand_pos := rand_pos s + of_nat n\<rparr> else s)"

lemma length_random_or [simp]: "length (random_or w s old) = length old"
  by (auto simp: random_or_def)

lemma drawn_simps [simp]:
  "tlsext_heartbeat (drawn w n s) = tlsext_heartbeat s" "tlsext_hb_pending (drawn w n s) = tlsext_hb_pending s"
  "tlsext_hb_seq (drawn w n s) = tlsext_hb_seq s" "calls (drawn w n s) = calls s" "trace (drawn w n s) = trace s"
  "msg_callback (drawn w n s) = msg_callback s"
  by (simp_all add: drawn_def)

lemma unat_rand_pos:
  assumes "world_ok w" and "state_ok w s" and "n \<le> 16"
  shows "unat (rand_pos s + of_nat n) = unat (rand_pos s) + n"
proof -
  have n: "unat (of_nat n :: u32) = n" using assms(3) by (intro unat_of_nat_u32) simp
  then have "unat (rand_pos s) + unat (of_nat n :: u32) < 2 ^ 32" using assms by (simp add: world_ok_def state_ok_def)
  then show ?thesis using n by (subst unat_add_lem [THEN iffD1]) simp_all
qed

lemma state_ok_drawn: "world_ok w \<Longrightarrow> state_ok w s \<Longrightarrow> n \<le> 16 \<Longrightarrow> state_ok w (drawn w n s)"
  using unat_rand_pos [of w s n] by (auto simp: state_ok_def drawn_def)

lemma state_ok_calls [simp]: "state_ok w (s\<lparr>calls := k\<rparr>) = state_ok w s"
  by (simp add: state_ok_def)

lemma random_or_calls [simp]:
  "random_or w (s\<lparr>calls := k\<rparr>) = random_or w s" "random_or w (drawn w n (s\<lparr>calls := k\<rparr>)) = random_or w (drawn w n s)"
  by (simp_all add: random_or_def drawn_def fun_eq_iff)

lemma RAND_eq:
  assumes "world_ok w" and "state_ok w s" and "n \<le> 16" and "length buf = off + n + m"
  shows "RAND_pseudo_bytes w off n buf s
    = (take off buf @ random_or w s (take n (drop off buf)) @ drop (off + n) buf, drawn w n s)"
proof -
  have "buf = take off buf @ take n (drop off buf) @ drop (off + n) buf"
    by (metis append_take_drop_id drop_drop add.commute)
  then show ?thesis
    using assms(4) unat_rand_pos [OF assms(1-3)]
    by (auto simp: RAND_pseudo_bytes_def random_or_def drawn_def poke_def)
qed

section \<open>Replies\<close>

definition claimed :: "u8 list \<Rightarrow> nat" where
  "claimed mem = unat (n2s (drop 1 mem))"

lemma claimed_bound: "claimed mem < 65536"
  by (simp add: claimed_def unat_n2s)

text \<open>The reply to a request in \<open>mem\<close>, in a block that held \<open>b\<close>.\<close>

definition reply :: "hb_world \<Rightarrow> hb_ssl \<Rightarrow> u8 list \<Rightarrow> u8 list \<Rightarrow> u8 list" where
  "reply w s b mem = TLS1_HB_RESPONSE # take (2 + claimed mem) (drop 1 mem) @ random_or w s (drop (3 + claimed mem) b)"

lemma response_size: "unat (1 + 2 + n2s (drop 1 mem) + 16) = claimed mem + 19"
proof -
  have "n2s (drop 1 mem) = of_nat (claimed mem)" by (simp add: claimed_def)
  then have "1 + 2 + n2s (drop 1 mem) + 16 = (of_nat (claimed mem + 19) :: u32)" by simp
  moreover have "claimed mem + 19 < 2 ^ 32" using claimed_bound [of mem] by simp
  ultimately show ?thesis by (simp only: unat_of_nat_u32)
qed

lemma hb_response_eq:
  assumes w: "world_ok w" "state_ok w s" and b: "hb_malloc w (calls s) (claimed mem + 19) = Some b" and m: "3 + claimed mem \<le> length mem"
  shows "hb_response w mem (n2s (drop 1 mem)) s
    = Some (reply w s b mem, drawn w 16 (s\<lparr>calls := calls s + 1\<rparr>))"
proof -
  let ?p = "claimed mem"
  have lb: "length b = ?p + 19" using w b by (simp add: world_ok_def)
  note n = response_size [of mem]
  obtain c0 c1 c2 cs where c: "mem = c0 # c1 # c2 # cs" using m by (metis Suc_le_length_iff add_leD1 numeral_3_eq_3)
  have h: "s2n (n2s (drop 1 mem)) = take 2 (drop 1 mem)" by (simp add: c s2n_n2s)
  have drop3: "drop (3 + n) (x # y # z # zs) = drop n zs" for n and x y z :: u8 and zs by (simp add: numeral_3_eq_3)
  have take3: "take (3 + n) (x # y # z # zs) = x # y # z # take n zs" for n and x y z :: u8 and zs by (simp add: numeral_3_eq_3)
  let ?b = "TLS1_HB_RESPONSE # take 2 (drop 1 mem) @ take ?p (drop 3 mem) @ drop (3 + ?p) b"
  have "poke 3 (take ?p (drop 3 mem)) (poke 0 (TLS1_HB_RESPONSE # take 2 (drop 1 mem)) b) = ?b"
    using lb m by (simp add: poke_def c min_def drop3 numeral_3_eq_3 [symmetric] add.commute)
  moreover have "RAND_pseudo_bytes w (3 + ?p) 16 ?b (s\<lparr>calls := calls s + 1\<rparr>)
    = (take (3 + ?p) ?b @ random_or w (s\<lparr>calls := calls s + 1\<rparr>) (take 16 (drop (3 + ?p) ?b)) @ drop (3 + ?p + 16) ?b, drawn w 16 (s\<lparr>calls := calls s + 1\<rparr>))"
    using w lb m by (intro RAND_eq [where m = 0]) (simp_all add: c)
  moreover have "take (3 + ?p) ?b @ random_or w (s\<lparr>calls := calls s + 1\<rparr>) (take 16 (drop (3 + ?p) ?b)) @ drop (3 + ?p + 16) ?b = reply w s b mem"
    using lb m by (simp add: c reply_def random_or_def drop3 take3)
  moreover have "unat (n2s (drop (Suc 0) mem)) = ?p" by (simp add: claimed_def)
  ultimately show ?thesis
    using m n b h by (simp add: hb_response_def openssl_malloc_def read_at_def Let_def)
qed

text \<open>What the program does with the reply: the events, in their order.\<close>

definition reply_events :: "bool \<Rightarrow> u8 list \<Rightarrow> u8 list \<Rightarrow> int \<Rightarrow> hb_event list" where
  "reply_events cb received buf r =
    (if cb then [Shown False received] else []) @ [Written buf r] @ (if cb \<and> 0 \<le> r then [Shown True buf] else [])"

lemma process_request:
  assumes w: "world_ok w" "state_ok w s" and b: "hb_malloc w (calls s) (claimed mem + 19) = Some b"
    and m: "3 + claimed mem \<le> length mem" and q: "mem ! 0 = TLS1_HB_REQUEST"
    and r: "r = hb_write w (calls s + 1) (reply w s b mem)"
  shows "tls1_process_heartbeat w mem rlen s
    = Some (if r < 0 then r else 0, (drawn w 16 s)\<lparr>calls := calls s + 2,
        trace := trace s @ reply_events (msg_callback s) (take rlen mem) (reply w s b mem) r\<rparr>)"
proof -
  let ?s = "show_message False (take rlen mem) s"
  have s: "calls ?s = calls s" "state_ok w ?s" "reply w ?s b mem = reply w s b mem"
    using w(2) by (simp_all add: show_message_def emit_def state_ok_def reply_def random_or_def)
  have "take 3 mem ! 0 = TLS1_HB_REQUEST" "3 \<le> length mem" "n2s (drop 1 (take 3 mem)) = n2s (drop 1 mem)"
    using m q by (simp_all add: n2s_def)
  then show ?thesis
    using hb_response_eq [OF w(1) s(2), of mem b] b m s(1,3) r
    by (auto simp: tls1_process_heartbeat_def read_at_def Let_def write_bytes_def show_message_def emit_def drawn_def reply_events_def)
qed

text \<open>The reply is cut off after what it takes from the memory behind the record.\<close>

lemma take_reply: "3 + claimed mem \<le> length mem \<Longrightarrow>
    take (3 + claimed mem) (reply w s b mem) = TLS1_HB_RESPONSE # take (2 + claimed mem) (drop 1 mem)"
  by (simp add: reply_def numeral_3_eq_3 numeral_2_eq_2)

text \<open>A record, and the memory that its reply takes the payload from: \<open>r\<close> stands for all of it.\<close>

interpretation hb: leaky_copy "\<lambda>r. TLS1_HB_RESPONSE # h1 # h2 # take (unat (n2s [h1, h2])) (body @ drop (3 + length body) r)"
    "{3 + length body..<3 + unat (n2s [h1, h2])}" "3 + unat (n2s [h1, h2])" for h1 h2 body
proof unfold_locales
  let ?p = "unat (n2s [h1, h2])" and ?c = "\<lambda>r. TLS1_HB_RESPONSE # h1 # h2 # take (unat (n2s [h1, h2])) (body @ drop (3 + length body) r)"
  fix r r' :: "u8 list" and i :: nat
  have c3: "?c r ! (3 + j) = (if j < length body then body ! j else r ! (3 + j))" if "j < ?p" "length r = 3 + ?p" for j r
    using that by (simp add: numeral_3_eq_3 nth_append)
  show "length r = 3 + ?p \<Longrightarrow> length (?c r) = 3 + ?p" by simp
  show "{3 + length body..<3 + ?p} \<subseteq> {..<3 + ?p}" by auto
  show "length r = 3 + ?p \<Longrightarrow> i \<in> {3 + length body..<3 + ?p} \<Longrightarrow> ?c r ! i = r ! i"
    using c3 [of "i - 3" r] by auto
  assume a: "length r = 3 + ?p" "length r' = 3 + ?p" "i < 3 + ?p" "i \<notin> {3 + length body..<3 + ?p}"
  show "?c r ! i = ?c r' ! i"
  proof (cases "i < 3")
    case True
    then show ?thesis by (auto simp: nth_Cons' less_Suc_eq numeral_3_eq_3)
  next
    case False
    then obtain j where "i = 3 + j" by (metis le_Suc_ex not_less)
    then have "i = 3 + j" "j < ?p" "j < length body" using a by simp_all
    then show ?thesis using c3 [of j r] c3 [of j r'] a by simp
  qed
qed

lemma reply_record:
  assumes "behind = (3 + unat (n2s [h1, h2])) - (3 + length body)" and "length x = behind"
  shows "reply w s b ((h0 # h1 # h2 # body) @ x @ rest)
    = TLS1_HB_RESPONSE # h1 # h2 # take (unat (n2s [h1, h2])) (body @ x) @ random_or w s (drop (3 + unat (n2s [h1, h2])) b)"
  using assms by (simp add: reply_def claimed_def n2s_def numeral_2_eq_2)

lemma reply_inj:
  assumes N: "N = (3 + unat (n2s [h1, h2])) - (3 + length body)" and x: "length x = N" and y: "length y = N"
  shows "reply w s b ((h0 # h1 # h2 # body) @ x @ rest) = reply w s b ((h0 # h1 # h2 # body) @ y @ rest') \<longleftrightarrow> x = y"
proof (cases "N = 0")
  case True
  then show ?thesis using x y reply_record [OF N x] reply_record [OF N y] by simp
next
  case False
  let ?p = "unat (n2s [h1, h2])" and ?r = "\<lambda>x. replicate (3 + length body) (0::u8) @ x"
  have l: "length (?r x) = 3 + ?p" "length (?r y) = 3 + ?p" using N False x y by simp_all
  have "reply w s b ((h0 # h1 # h2 # body) @ x @ rest) = reply w s b ((h0 # h1 # h2 # body) @ y @ rest')
      \<longleftrightarrow> TLS1_HB_RESPONSE # h1 # h2 # take ?p (body @ drop (3 + length body) (?r x))
        = TLS1_HB_RESPONSE # h1 # h2 # take ?p (body @ drop (3 + length body) (?r y))"
    unfolding reply_record [OF N x] reply_record [OF N y] by simp
  also have "\<dots> \<longleftrightarrow> (\<forall>i\<in>{3 + length body..<3 + ?p}. ?r x ! i = ?r y ! i)" by (rule hb.copy_eq_iff [OF l])
  also have "\<dots> \<longleftrightarrow> (\<forall>j<N. x ! j = y ! j)"
  proof
    assume a: "\<forall>i\<in>{3 + length body..<3 + ?p}. ?r x ! i = ?r y ! i"
    show "\<forall>j<N. x ! j = y ! j"
    proof (intro allI impI)
      fix j assume "j < N"
      then have "3 + length body + j \<in> {3 + length body..<3 + ?p}" using N by auto
      with a have "?r x ! (3 + length body + j) = ?r y ! (3 + length body + j)" by blast
      then show "x ! j = y ! j" by (simp add: nth_append)
    qed
  next
    assume a: "\<forall>j<N. x ! j = y ! j"
    show "\<forall>i\<in>{3 + length body..<3 + ?p}. ?r x ! i = ?r y ! i" using a N by (auto simp: nth_append)
  qed
  also have "\<dots> \<longleftrightarrow> x = y" using x y by (auto intro: nth_equalityI)
  finally show ?thesis .
qed

lemma card_inj_bytes: "inj_on f {x :: u8 list. length x = n} \<Longrightarrow> card (f ` {x. length x = n}) = 256 ^ n"
  using card_lists_length_eq [of "UNIV :: u8 set" n] by (simp add: card_image card_word)

text \<open>
  C30: CVE-2014-0160: the answer to a heartbeat request depends on the memory behind the received record exactly as
  far as the length that the request claims goes beyond the record: each of those bytes can be told from the
  answer, and nothing else of that memory.
\<close>

theorem heartbeat_leaks:
  assumes w: "world_ok w" "state_ok w s" and rec: "rec = TLS1_HB_REQUEST # h1 # h2 # body"
    and N: "N = (3 + unat (n2s [h1, h2])) - length rec" and b: "hb_malloc w (calls s) (unat (n2s [h1, h2]) + 19) = Some b"
    and run: "run = (\<lambda>behind. tls1_process_heartbeat w (rec @ behind) (length rec) s)"
  shows "(\<forall>x y rest rest'. length x = N \<longrightarrow> length y = N \<longrightarrow> (run (x @ rest) = run (y @ rest') \<longleftrightarrow> x = y))
    \<and> card (run ` {x. length x = N}) = 256 ^ N"
proof

  have key: "run (x @ rest) = run (y @ rest') \<longleftrightarrow> x = y" if x: "length x = N" and y: "length y = N" for x y rest rest'
  proof -
    have N': "N = (3 + unat (n2s [h1, h2])) - (3 + length body)" using N rec by simp
    have c: "claimed (rec @ z) = unat (n2s [h1, h2])" for z by (simp add: rec claimed_def n2s_def)
    have e: "run (z @ r) = Some (if hb_write w (calls s + 1) (reply w s b (rec @ z @ r)) < 0 then hb_write w (calls s + 1) (reply w s b (rec @ z @ r)) else 0,
        (drawn w 16 s)\<lparr>calls := calls s + 2,
        trace := trace s @ reply_events (msg_callback s) rec (reply w s b (rec @ z @ r)) (hb_write w (calls s + 1) (reply w s b (rec @ z @ r)))\<rparr>)"
      if "length z = N" for z r
      using process_request [OF w, of "rec @ z @ r" b _ "length rec"] b c [of "z @ r"] N that unfolding run
      by (simp add: rec)
    have i: "reply w s b (rec @ x @ rest) = reply w s b (rec @ y @ rest') \<longleftrightarrow> x = y"
      unfolding rec by (rule reply_inj [OF N' x y])
    show ?thesis
    proof
      assume "run (x @ rest) = run (y @ rest')"
      then have "reply w s b (rec @ x @ rest) = reply w s b (rec @ y @ rest')"
        unfolding e [OF x] e [OF y] by (auto simp: reply_events_def split: if_splits dest!: arg_cong [of _ _ trace])
      then show "x = y" using i by simp
    next
      assume "x = y"
      then show "run (x @ rest) = run (y @ rest')" unfolding e [OF x] e [OF y] using i by simp
    qed
  qed
  then show "\<forall>x y rest rest'. length x = N \<longrightarrow> length y = N \<longrightarrow> (run (x @ rest) = run (y @ rest') \<longleftrightarrow> x = y)" by blast
  have "inj_on run {x. length x = N}" using key [of _ _ "[]" "[]"] by (auto intro!: inj_onI)
  then show "card (run ` {x. length x = N}) = 256 ^ N" by (rule card_inj_bytes)
qed

definition ex_world :: hb_world where
  "ex_world = \<lparr>hb_malloc = (\<lambda>_ n. Some (replicate n 0)), rand_bytes = [], hb_write = (\<lambda>_ bs. int (length bs))\<rparr>"

definition ex_ssl :: hb_ssl where
  "ex_ssl = \<lparr>tlsext_heartbeat = 1, tlsext_hb_pending = 0, tlsext_hb_seq = 0, in_init = False, in_handshake = 0, msg_callback = False,
     timer = False, rand_pos = 0, calls = 0, trace = []\<rparr>"

lemma ex_world_facts [simp]: "world_ok ex_world" "state_ok ex_world ex_ssl" "hb_malloc ex_world k n = Some (replicate n 0)"
  "hb_write ex_world k bs = int (length bs)"
  by (simp_all add: world_ok_def state_ok_def ex_world_def ex_ssl_def)

text \<open>A request of one byte that claims three.\<close>

theorem heartbeat_leaks_witness:
  "card ((\<lambda>behind. tls1_process_heartbeat ex_world ([1, 0, 3, 7] @ behind) 4 ex_ssl) ` {x. length x = 2}) = 65536"
proof -
  have n: "n2s [0, 3] = 3" by (simp add: n2s_def)
  have r: "[1, 0, 3, 7] = TLS1_HB_REQUEST # 0 # 3 # [7]" by (simp add: TLS1_HB_REQUEST_def)
  have l: "2 = (3 + unat (n2s [0, 3])) - length [1, 0, 3, 7 :: u8]" by (simp add: n)
  have "length [1, 0, 3, 7 :: u8] = 4" by simp
  from conjunct2 [OF heartbeat_leaks [OF ex_world_facts(1,2) r l ex_world_facts(3) refl], unfolded this] show ?thesis by simp
qed

section \<open>Requests and responses\<close>

definition request :: "hb_world \<Rightarrow> hb_ssl \<Rightarrow> u8 list \<Rightarrow> u8 list" where
  "request w s b = TLS1_HB_REQUEST # s2n 18 @ s2n (tlsext_hb_seq s) @ random_or w s (take 16 (drop 5 b))
    @ random_or w (drawn w 16 s) (take 16 (drop 21 b))"

lemma length_request: "length b = 37 \<Longrightarrow> length (request w s b) = 37"
  by (simp add: request_def)

lemma hb_request_eq:
  assumes w: "world_ok w" "state_ok w s" and b: "hb_malloc w (calls s) 37 = Some b"
  shows "hb_request w s = Some (request w s b, drawn w 16 (drawn w 16 (s\<lparr>calls := calls s + 1\<rparr>)))"
proof -
  have lb: "length b = 37" using w b by (simp add: world_ok_def)
  let ?s = "s\<lparr>calls := calls s + 1\<rparr>" and ?h = "TLS1_HB_REQUEST # s2n 18 @ s2n (tlsext_hb_seq s)"
  have h: "length ?h = 5" by simp
  have e: "poke 3 (s2n (tlsext_hb_seq s)) (poke 0 (TLS1_HB_REQUEST # s2n 18) b) = ?h @ drop 5 b"
    using lb by (simp add: poke_def)
  have s: "state_ok w ?s" "state_ok w (drawn w 16 ?s)" using w state_ok_drawn [OF w(1), of "s\<lparr>calls := calls s + 1\<rparr>" 16] by simp_all
  have r1: "RAND_pseudo_bytes w 5 16 (?h @ drop 5 b) ?s
      = (?h @ random_or w s (take 16 (drop 5 b)) @ drop 21 b, drawn w 16 ?s)" (is "_ = (?b1, _)")
    using RAND_eq [OF w(1) s(1), of 16 "?h @ drop 5 b" 5 16] lb by simp
  have r2: "RAND_pseudo_bytes w 21 16 ?b1 (drawn w 16 ?s) = (request w s b, drawn w 16 (drawn w 16 ?s))"
    using RAND_eq [OF w(1) s(2), of 16 ?b1 21 0] lb by (simp add: request_def)
  show ?thesis using b r1 r2 e by (simp add: hb_request_def openssl_malloc_def Let_def)
qed

lemma tls1_heartbeat_eq:
  assumes w: "world_ok w" "state_ok w s" and b: "hb_malloc w (calls s) 37 = Some b" and n: "hb_refused s = None"
    and r: "r = hb_write w (calls s + 1) (request w s b)"
  shows "\<exists>s'. tls1_heartbeat w s = Some (r, s')
    \<and> trace s' = trace s @ [Written (request w s b) r] @ (if msg_callback s \<and> 0 \<le> r then [Shown True (request w s b)] else [])
    \<and> tlsext_hb_pending s' = (if 0 \<le> r then 1 else tlsext_hb_pending s) \<and> tlsext_hb_seq s' = tlsext_hb_seq s"
  using hb_request_eq [OF w b] n r
  by (auto simp: tls1_heartbeat_def write_bytes_def show_message_def emit_def Let_def)

lemma process_response:
  assumes "mem = TLS1_HB_RESPONSE # p @ q @ xs" and "length p = 2" and "length q = 2"
  shows "tls1_process_heartbeat w mem rlen s = Some (0, let s' = show_message False (take rlen mem) s in
    if n2s p = 18 \<and> n2s q = tlsext_hb_seq s then s'\<lparr>tlsext_hb_seq := tlsext_hb_seq s + 1, tlsext_hb_pending := 0\<rparr> else s')"
proof -
  have "take 3 mem ! 0 = TLS1_HB_RESPONSE" "n2s (drop 1 (take 3 mem)) = n2s p" "take 2 (drop 3 mem) = q" "5 \<le> length mem"
    using assms by (auto simp: length_Suc_conv numeral_2_eq_2 numeral_3_eq_3 n2s_def)
  then show ?thesis
    by (simp add: tls1_process_heartbeat_def read_at_def Let_def TLS1_HB_REQUEST_def TLS1_HB_RESPONSE_def show_message_def emit_def)
qed

fun written :: "hb_event list \<Rightarrow> u8 list list" where
  "written (Written b r # es) = b # written es"
| "written (e # es) = written es"
| "written [] = []"

lemma written_append [simp]: "written (xs @ ys) = written xs @ written ys"
  by (induction xs rule: written.induct) simp_all

text \<open>
  C31: A request that is accepted for sending, delivered to a peer whose answer is delivered back, ends the wait
  and moves on to the next sequence number, while the peer keeps its own state, as long as the sequence number fits into
  the two bytes of the message.  From 65536 on every answer is ignored and the connection waits forever.
\<close>

theorem heartbeat_answered:
  assumes wa: "world_ok wa" "state_ok wa a" "hb_malloc wa (calls a) 37 = Some ka" "\<forall>k x. 0 \<le> hb_write wa k x"
    and wb: "world_ok wb" "state_ok wb b" "hb_malloc wb (calls b) 37 = Some kb" "\<forall>k x. 0 \<le> hb_write wb k x"
    and n: "hb_refused a = None"
  shows "\<exists>ra a1 req b1 resp a2. tls1_heartbeat wa a = Some (ra, a1) \<and> tlsext_hb_pending a1 = 1
      \<and> written (trace a1) = written (trace a) @ [req]
    \<and> tls1_process_heartbeat wb (req @ x) 37 b = Some (0, b1) \<and> written (trace b1) = written (trace b) @ [resp]
      \<and> (tlsext_heartbeat b1, tlsext_hb_seq b1, tlsext_hb_pending b1) = (tlsext_heartbeat b, tlsext_hb_seq b, tlsext_hb_pending b)
    \<and> tls1_process_heartbeat wa (resp @ y) 37 a1 = Some (0, a2)
      \<and> (tlsext_hb_seq a2, tlsext_hb_pending a2)
        = (if unat (tlsext_hb_seq a) < 65536 then (tlsext_hb_seq a + 1, 0) else (tlsext_hb_seq a, 1))"
proof -
  let ?req = "request wa a ka" and ?q = "s2n (tlsext_hb_seq a)"
  obtain ra a1 where a1: "tls1_heartbeat wa a = Some (ra, a1)" "written (trace a1) = written (trace a) @ [?req]"
    "tlsext_hb_pending a1 = 1" "tlsext_hb_seq a1 = tlsext_hb_seq a"
    using tls1_heartbeat_eq [OF wa(1-3) n refl] wa(4) by (auto split: if_splits)
  have n18: "n2s (s2n 18 @ zs) = 18" for zs by (rule n2s_small) simp
  have c: "claimed (?req @ x) = 18" by (simp add: claimed_def request_def n18)
  have lk: "length ka = 37" using wa by (simp add: world_ok_def)
  have m: "3 + claimed (?req @ x) \<le> length (?req @ x)" "(?req @ x) ! 0 = TLS1_HB_REQUEST"
    using length_request [OF lk, of wa a] c by (simp, simp add: request_def)
  let ?resp = "reply wb b kb (?req @ x)"
  have kb: "hb_malloc wb (calls b) (claimed (?req @ x) + 19) = Some kb" using wb c by simp
  from process_request [OF wb(1,2) kb m refl, of 37] wb(4)
  obtain b1 where b1: "tls1_process_heartbeat wb (?req @ x) 37 b = Some (0, b1)" "written (trace b1) = written (trace b) @ [?resp]"
    "(tlsext_heartbeat b1, tlsext_hb_seq b1, tlsext_hb_pending b1) = (tlsext_heartbeat b, tlsext_hb_seq b, tlsext_hb_pending b)"
    by (auto simp: reply_events_def not_less [symmetric])
  obtain zs where r: "?resp @ y = TLS1_HB_RESPONSE # s2n 18 @ ?q @ zs"
    unfolding reply_def c by (simp add: request_def)
  have "n2s ?q = tlsext_hb_seq a \<longleftrightarrow> unat (tlsext_hb_seq a) < 65536"
    using n2s_small [of "tlsext_hb_seq a" "[]"] unat_n2s [of ?q] by auto
  then obtain a2 where "tls1_process_heartbeat wa (?resp @ y) 37 a1 = Some (0, a2)"
    "(tlsext_hb_seq a2, tlsext_hb_pending a2)
        = (if unat (tlsext_hb_seq a) < 65536 then (tlsext_hb_seq a + 1, 0) else (tlsext_hb_seq a, 1))"
    using process_response [OF r, of wa 37 a1] a1 n18 [of "[]"] by (simp add: Let_def show_message_def emit_def)
  with a1 b1 show ?thesis by blast
qed

text \<open>Two ends that have agreed on heartbeats.\<close>

theorem heartbeat_answered_witness:
  "\<exists>ra a1 req b1 resp a2. tls1_heartbeat ex_world ex_ssl = Some (ra, a1) \<and> tlsext_hb_pending a1 = 1
    \<and> tls1_process_heartbeat ex_world (req @ []) 37 ex_ssl = Some (0, b1)
    \<and> tls1_process_heartbeat ex_world (resp @ []) 37 a1 = Some (0, a2) \<and> (tlsext_hb_seq a2, tlsext_hb_pending a2) = (1, 0)"
proof -
  have n: "hb_refused ex_ssl = None"
    by (simp add: hb_refused_def ex_ssl_def SSL_TLSEXT_HB_ENABLED_def SSL_TLSEXT_HB_DONT_SEND_REQUESTS_def)
  have p: "\<forall>k x. 0 \<le> hb_write ex_world k x" "tlsext_hb_seq ex_ssl = 0" by (simp_all add: ex_ssl_def)
  from heartbeat_answered [OF ex_world_facts(1-3) p(1) ex_world_facts(1-3) p(1) n, of "[]" "[]"]
  show ?thesis unfolding p(2) by simp blast
qed

section \<open>Negotiation\<close>

lemma hb_bits:
  "v AND SSL_TLSEXT_HB_ENABLED = 0 \<longleftrightarrow> \<not> bit v 0" "v AND SSL_TLSEXT_HB_DONT_SEND_REQUESTS = 0 \<longleftrightarrow> \<not> bit v 1"
  "v AND SSL_TLSEXT_HB_DONT_RECV_REQUESTS = 0 \<longleftrightarrow> \<not> bit v 2"
  using bit_iff_and_push_bit_not_eq_0 [of v 0] bit_iff_and_push_bit_not_eq_0 [of v 1] bit_iff_and_push_bit_not_eq_0 [of v 2]
  by (simp_all add: SSL_TLSEXT_HB_ENABLED_def SSL_TLSEXT_HB_DONT_SEND_REQUESTS_def SSL_TLSEXT_HB_DONT_RECV_REQUESTS_def push_bit_eq_mult)

lemma hb_flag_bits:
  "bit SSL_TLSEXT_HB_ENABLED n \<longleftrightarrow> n = 0" "bit SSL_TLSEXT_HB_DONT_SEND_REQUESTS n \<longleftrightarrow> n = 1"
  "bit SSL_TLSEXT_HB_DONT_RECV_REQUESTS n \<longleftrightarrow> n = 2"
  using bit_exp_iff [where 'a = u32, of 1 n] bit_exp_iff [where 'a = u32, of 2 n] 
  by (auto simp: SSL_TLSEXT_HB_ENABLED_def SSL_TLSEXT_HB_DONT_SEND_REQUESTS_def SSL_TLSEXT_HB_DONT_RECV_REQUESTS_def bit_1_iff)

lemma hb_mode_eq: "hb_mode s = (if bit (tlsext_heartbeat s) 2 then 2 else 1)"
  by (simp add: hb_mode_def hb_bits) (simp add: SSL_TLSEXT_HB_ENABLED_def SSL_TLSEXT_HB_DONT_SEND_REQUESTS_def)

lemma parse_hello_eq:
  assumes "m = (if b then 2 else 1)"
  shows "\<exists>s'. parse_hello_heartbeat m (reset_heartbeat s) = Some s' \<and> bit (tlsext_heartbeat s') 0
    \<and> bit (tlsext_heartbeat s') 1 = b \<and> bit (tlsext_heartbeat s') 2 = bit (tlsext_heartbeat s) 2"
  using assms by (auto simp: parse_hello_heartbeat_def reset_heartbeat_def bit_simps hb_flag_bits)

lemma hb_refused_peer:
  "hb_refused s = Some SSL_R_TLS_HEARTBEAT_PEER_DOESNT_ACCEPT \<longleftrightarrow> \<not> bit (tlsext_heartbeat s) 0 \<or> bit (tlsext_heartbeat s) 1"
  by (simp add: hb_refused_def hb_bits SSL_R_TLS_HEARTBEAT_PEER_DOESNT_ACCEPT_def SSL_R_TLS_HEARTBEAT_PENDING_def SSL_R_UNEXPECTED_MESSAGE_def)

text \<open>
  After the extensions of both hello messages have been exchanged, each side may send requests exactly when the
  other one has not forbidden it.
\<close>

theorem hello_negotiates:
  "\<exists>v1 c1. parse_hello_heartbeat (add_clienthello_heartbeat c ! 4) (reset_heartbeat v) = Some v1
    \<and> parse_hello_heartbeat (add_serverhello_heartbeat v1 ! 4) (reset_heartbeat c) = Some c1
    \<and> (hb_refused c1 = Some SSL_R_TLS_HEARTBEAT_PEER_DOESNT_ACCEPT \<longleftrightarrow> tlsext_heartbeat v AND SSL_TLSEXT_HB_DONT_RECV_REQUESTS \<noteq> 0)
    \<and> (hb_refused v1 = Some SSL_R_TLS_HEARTBEAT_PEER_DOESNT_ACCEPT \<longleftrightarrow> tlsext_heartbeat c AND SSL_TLSEXT_HB_DONT_RECV_REQUESTS \<noteq> 0)"
proof -
  have "add_clienthello_heartbeat c ! 4 = (if bit (tlsext_heartbeat c) 2 then 2 else 1)"
    by (simp add: add_clienthello_heartbeat_def s2n_def hb_mode_eq)
  from parse_hello_eq [OF this, of v] obtain v1 where v1: "parse_hello_heartbeat (add_clienthello_heartbeat c ! 4) (reset_heartbeat v) = Some v1"
    "bit (tlsext_heartbeat v1) 0" "bit (tlsext_heartbeat v1) 1 = bit (tlsext_heartbeat c) 2" "bit (tlsext_heartbeat v1) 2 = bit (tlsext_heartbeat v) 2"
    by blast
  have "add_serverhello_heartbeat v1 ! 4 = (if bit (tlsext_heartbeat v1) 2 then 2 else 1)"
    by (simp add: add_serverhello_heartbeat_def s2n_def hb_mode_eq hb_bits v1(2))
  from parse_hello_eq [OF this, of c] v1 show ?thesis by (auto simp: hb_refused_peer hb_bits)
qed

section \<open>Fresh sequence numbers\<close>

text \<open>What may happen to one end of a TLS connection, with any record received; the timer of DTLS is not part of it.\<close>

inductive hb_step :: "hb_world \<Rightarrow> hb_ssl \<Rightarrow> hb_ssl \<Rightarrow> bool" for w where
  control: "ssl_ctrl_heartbeat w False cmd larg s = Some (r, s') \<Longrightarrow> hb_step w s s'"
| receive: "tls1_process_heartbeat w mem rlen s = Some (r, s') \<Longrightarrow> hb_step w s s'"
| handshake: "hb_step w s ((hb_handshake s)\<lparr>in_init := i, in_handshake := h\<rparr>)"
| hello: "parse_hello_heartbeat mode (reset_heartbeat s) = Some s' \<Longrightarrow> hb_step w s s'"

text \<open>The sequence numbers of the requests that were sent.\<close>

fun request_seqs :: "hb_event list \<Rightarrow> nat list" where
  "request_seqs (Written b r # es) =
    (if 0 \<le> r \<and> b ! 0 = TLS1_HB_REQUEST then unat (n2s (drop 3 b)) # request_seqs es else request_seqs es)"
| "request_seqs (e # es) = request_seqs es"
| "request_seqs [] = []"

lemma request_seqs_append [simp]: "request_seqs (xs @ ys) = request_seqs xs @ request_seqs ys"
  by (induction xs rule: request_seqs.induct) simp_all

text \<open>All numbers sent lie below the next one, which is sent only once.\<close>

definition hb_inv :: "hb_world \<Rightarrow> nat \<Rightarrow> hb_ssl \<Rightarrow> bool" where
  "hb_inv w n s \<longleftrightarrow> state_ok w s \<and> unat (tlsext_hb_seq s) \<le> n \<and> sorted_wrt (<) (request_seqs (trace s))
    \<and> (\<forall>q\<in>set (request_seqs (trace s)). q < unat (tlsext_hb_seq s) \<or> tlsext_hb_pending s \<noteq> 0 \<and> q = unat (tlsext_hb_seq s))"

lemma hb_inv_trace:
  assumes "hb_inv w n s" and "request_seqs (trace s') = request_seqs (trace s)" and "tlsext_hb_seq s' = tlsext_hb_seq s"
    and "tlsext_hb_pending s' = tlsext_hb_pending s" and "state_ok w s'"
  shows "hb_inv w (Suc n) s'"
  using assms by (auto simp: hb_inv_def)

lemma hb_inv_next:
  assumes "hb_inv w n s" and "n < 65536" and "request_seqs (trace s') = request_seqs (trace s)"
    and "tlsext_hb_seq s' = tlsext_hb_seq s + 1" and "state_ok w s'"
  shows "hb_inv w (Suc n) s'"
proof -
  have "unat (tlsext_hb_seq s) < 65536" using assms by (simp add: hb_inv_def)
  then have "unat (tlsext_hb_seq s + 1) = Suc (unat (tlsext_hb_seq s))"
    by (subst unat_add_lem [THEN iffD1]) simp_all
  then show ?thesis using assms by (force simp: hb_inv_def less_Suc_eq)
qed

lemma hb_response_cases:
  assumes w: "world_ok w" "state_ok w s" and r: "hb_response w mem (n2s (drop 1 mem)) s = Some (buf, s')"
  shows "\<exists>b. buf = reply w s b mem \<and> s' = drawn w 16 (s\<lparr>calls := calls s + 1\<rparr>)"
proof -
  from r obtain b where b: "hb_malloc w (calls s) (claimed mem + 19) = Some b" "3 + claimed mem \<le> length mem"
    unfolding hb_response_def openssl_malloc_def Let_def response_size claimed_def [symmetric]
    by (auto simp: read_at_def bind_eq_Some_conv split: if_splits)
  from hb_response_eq [OF w b] r show ?thesis by auto
qed

lemma hb_inv_receive:
  assumes w: "world_ok w" and inv: "hb_inv w n s" and n: "n < 65536" and r: "tls1_process_heartbeat w mem rlen s = Some (r, s')"
  shows "hb_inv w (Suc n) s'"
proof -
  let ?s = "show_message False (take rlen mem) s"
  have s: "state_ok w ?s" "request_seqs (trace ?s) = request_seqs (trace s)" "tlsext_hb_seq ?s = tlsext_hb_seq s" "tlsext_hb_pending ?s = tlsext_hb_pending s"
    using inv by (simp_all add: show_message_def emit_def hb_inv_def state_ok_def)
  from r have l: "3 \<le> length mem" by (auto simp: tls1_process_heartbeat_def read_at_def bind_eq_Some_conv split: if_splits)
  then have p: "read_at 0 3 mem = Some (take 3 mem)" "n2s (drop 1 (take 3 mem)) = n2s (drop 1 mem)"
    by (simp_all add: read_at_def n2s_def)
  consider (request) "take 3 mem ! 0 = TLS1_HB_REQUEST" | (response) "take 3 mem ! 0 = TLS1_HB_RESPONSE"
    | (other) "take 3 mem ! 0 \<noteq> TLS1_HB_REQUEST" "take 3 mem ! 0 \<noteq> TLS1_HB_RESPONSE" by blast
  then show ?thesis
  proof cases
    case request
    from r obtain buf t where t: "hb_response w mem (n2s (drop 1 mem)) ?s = Some (buf, t)"
      and s': "s' = (if fst (write_bytes w buf t) \<ge> 0 then show_message True buf (snd (write_bytes w buf t)) else snd (write_bytes w buf t))"
      unfolding tls1_process_heartbeat_def p(1) bind.bind_lunit Let_def p(2)
      by (auto simp: request bind_eq_Some_conv split_beta)
    from hb_response_cases [OF w s(1) t] obtain b where b: "buf = reply w ?s b mem" "t = drawn w 16 (?s\<lparr>calls := calls ?s + 1\<rparr>)" by blast
    have "state_ok w t" using state_ok_drawn [OF w, of "?s\<lparr>calls := calls ?s + 1\<rparr>" 16] s(1) b(2) by simp
    moreover have "buf ! 0 \<noteq> TLS1_HB_REQUEST" by (simp add: b(1) reply_def TLS1_HB_REQUEST_def TLS1_HB_RESPONSE_def)
    moreover have "request_seqs (trace t) = request_seqs (trace s)" "tlsext_hb_seq t = tlsext_hb_seq s" "tlsext_hb_pending t = tlsext_hb_pending s"
      using s by (simp_all add: b(2))
    ultimately show ?thesis
      by (intro hb_inv_trace [OF inv]) (auto simp: s' write_bytes_def show_message_def emit_def Let_def state_ok_def)
  next
    case response
    then have "TLS1_HB_RESPONSE \<noteq> TLS1_HB_REQUEST" "take 3 mem ! 0 = TLS1_HB_RESPONSE" by (simp_all add: TLS1_HB_REQUEST_def TLS1_HB_RESPONSE_def)
    with r consider "s' = ?s" | "s' = ?s\<lparr>tlsext_hb_seq := tlsext_hb_seq ?s + 1, tlsext_hb_pending := 0\<rparr>"
      unfolding tls1_process_heartbeat_def p(1) by (auto simp: Let_def bind_eq_Some_conv split: if_splits)
    then show ?thesis
    proof cases
      case 1
      then show ?thesis using s by (intro hb_inv_trace [OF inv]) simp_all
    next
      case 2
      then show ?thesis using s by (intro hb_inv_next [OF inv n]) (simp_all add: state_ok_def)
    qed
  next
    case other
    then have "s' = ?s" using r unfolding tls1_process_heartbeat_def p(1) by (simp add: Let_def)
    then show ?thesis using s by (intro hb_inv_trace [OF inv]) simp_all
  qed
qed

lemma hb_inv_send:
  assumes w: "world_ok w" and inv: "hb_inv w n s" and n: "n < 65536" and r: "tls1_heartbeat w s = Some (r, s')"
  shows "hb_inv w (Suc n) s'"
proof (cases "hb_refused s")
  case (Some reason)
  then have "s' = emit (Refused reason) s" using r by (simp add: tls1_heartbeat_def)
  then show ?thesis using inv by (intro hb_inv_trace [OF inv]) (simp_all add: emit_def hb_inv_def state_ok_def)
next
  case None
  have ok: "state_ok w s" and sq: "unat (tlsext_hb_seq s) < 65536" using inv n by (simp_all add: hb_inv_def)
  have pend: "tlsext_hb_pending s = 0" using None by (simp add: hb_refused_def split: if_splits)
  from r None obtain b where b: "hb_malloc w (calls s) 37 = Some b"
    by (auto simp: tls1_heartbeat_def hb_request_def openssl_malloc_def Let_def bind_eq_Some_conv)
  let ?t = "drawn w 16 (drawn w 16 (s\<lparr>calls := calls s + 1\<rparr>))" and ?b = "request w s b"
  have t: "state_ok w ?t" using ok state_ok_drawn [OF w] by simp
  have s': "s' = (let (r, t) = write_bytes w ?b ?t in if r \<ge> 0 then (show_message True ?b t)\<lparr>tlsext_hb_pending := 1\<rparr> else t)"
    using r hb_request_eq [OF w ok b] None by (auto simp: tls1_heartbeat_def Let_def split: prod.splits)
  have q: "unat (n2s (drop 3 ?b)) = unat (tlsext_hb_seq s)" "?b ! 0 = TLS1_HB_REQUEST"
    using n2s_small [OF sq] by (simp_all add: request_def s2n_def)
  show ?thesis
  proof (cases "0 \<le> hb_write w (calls s + 1) ?b")
    case True
    then have rs: "request_seqs (trace s') = request_seqs (trace s) @ [unat (tlsext_hb_seq s)]"
      and f: "tlsext_hb_seq s' = tlsext_hb_seq s" "tlsext_hb_pending s' = 1" "state_ok w s'"
      using t q by (simp_all add: s' write_bytes_def show_message_def emit_def Let_def state_ok_def)
    then show ?thesis using inv pend by (auto simp: hb_inv_def sorted_wrt_append)
  next
    case False
    then show ?thesis
      using t by (intro hb_inv_trace [OF inv]) (simp_all add: s' write_bytes_def emit_def Let_def state_ok_def)
  qed
qed

lemma hb_inv_step:
  assumes w: "world_ok w" and "hb_step w s s'" and inv: "hb_inv w n s" and n: "n < 65536"
  shows "hb_inv w (Suc n) s'"
  using assms(2)
proof cases
  case (control cmd larg r)
  then show ?thesis
  proof (cases cmd)
    case SEND_HEARTBEAT
    then show ?thesis using control hb_inv_send [OF w inv n] by (simp add: ssl_ctrl_heartbeat_def)
  qed (use inv in \<open>auto intro!: hb_inv_trace [OF inv] simp: ssl_ctrl_heartbeat_def hb_inv_def state_ok_def\<close>)
next
  case (receive mem rlen r)
  then show ?thesis by (rule hb_inv_receive [OF w inv n])
next
  case (handshake i h)
  have ok: "state_ok w s" using inv by (simp add: hb_inv_def)
  show ?thesis
  proof (cases "tlsext_hb_pending s = 0")
    case True
    then show ?thesis using handshake ok by (intro hb_inv_trace [OF inv]) (simp_all add: hb_handshake_def state_ok_def)
  next
    case False
    then show ?thesis using handshake ok by (intro hb_inv_next [OF inv n]) (simp_all add: hb_handshake_def state_ok_def)
  qed
next
  case (hello mode)
  then show ?thesis using inv
    by (intro hb_inv_trace [OF inv]) (auto simp: parse_hello_heartbeat_def reset_heartbeat_def hb_inv_def state_ok_def split: if_splits)
qed

lemma hb_inv_run: "(hb_step w ^^ n) s s' \<Longrightarrow> world_ok w \<Longrightarrow> hb_inv w 0 s \<Longrightarrow> n < 65536 \<Longrightarrow> hb_inv w n s'"
  by (induction n arbitrary: s') (auto elim!: relcomppE intro: hb_inv_step)

text \<open>
  C32: Whatever records arrive and whatever the program asks for, the requests that one end of a TLS connection sends in
  fewer than 65536 steps (after which the two bytes of the number wrap around) carry strictly increasing sequence numbers: no request is sent while another one waits, and none is sent
  again after its wait was ended.  The retransmission of DTLS, whose timer clears the wait and sends the same number
  again, is not among the steps.
\<close>

theorem requests_fresh:
  assumes "(hb_step w ^^ n) s s'" and "world_ok w" and "n < 65536"
    and "state_ok w s" and "tlsext_hb_seq s = 0" and "trace s = []"
  shows "sorted_wrt (<) (request_seqs (trace s'))"
proof -
  have "hb_inv w 0 s" using assms by (simp add: hb_inv_def)
  from hb_inv_run [OF assms(1,2) this assms(3)] show ?thesis by (simp add: hb_inv_def)
qed

text \<open>One request is sent.\<close>

theorem requests_fresh_witness:
  "\<exists>s'. (hb_step ex_world ^^ 1) ex_ssl s' \<and> tlsext_hb_pending s' = 1 \<and> sorted_wrt (<) (request_seqs (trace s'))"
proof -
  have n: "hb_refused ex_ssl = None"
    by (simp add: hb_refused_def ex_ssl_def SSL_TLSEXT_HB_ENABLED_def SSL_TLSEXT_HB_DONT_SEND_REQUESTS_def)
  from tls1_heartbeat_eq [OF ex_world_facts(1-3) n refl] obtain r s' where
    s': "tls1_heartbeat ex_world ex_ssl = Some (r, s')" "tlsext_hb_pending s' = 1" by auto
  then have "hb_step ex_world ex_ssl s'"
    by (intro hb_step.control [of _ SEND_HEARTBEAT 0 _ r]) (simp add: ssl_ctrl_heartbeat_def)
  then have step: "(hb_step ex_world ^^ 1) ex_ssl s'" by (simp add: eq_OO)
  have "sorted_wrt (<) (request_seqs (trace s'))"
    by (rule requests_fresh [OF step]) (simp_all add: ex_ssl_def world_ok_def ex_world_def state_ok_def)
  with step s'(2) show ?thesis by blast
qed

section \<open>Datagrams\<close>

text \<open>The functions for datagrams differ in the timer alone: it starts with a wait and stops when the answer arrives.\<close>

lemma hb_response_seq: "hb_response w mem p s = Some (b, s') \<Longrightarrow> tlsext_hb_seq s' = tlsext_hb_seq s"
  by (auto simp: hb_response_def openssl_malloc_def RAND_pseudo_bytes_def Let_def bind_eq_Some_conv split: if_splits)

lemma dtls1_process_heartbeat_eq:
  "dtls1_process_heartbeat w mem rlen s = map_option (\<lambda>(r, s').
     (r, if tlsext_hb_seq s' = tlsext_hb_seq s then s' else s'\<lparr>timer := False\<rparr>)) (tls1_process_heartbeat w mem rlen s)"
proof (cases "read_at 0 3 mem")
  case None
  then show ?thesis by (simp add: dtls1_process_heartbeat_def tls1_process_heartbeat_def)
next
  case (Some p)
  let ?s = "show_message False (take rlen mem) s"
  have q: "tlsext_hb_seq ?s = tlsext_hb_seq s" by (simp add: show_message_def emit_def)
  show ?thesis
  proof (cases "p ! 0 = TLS1_HB_REQUEST")
    case True
    then show ?thesis
    proof (cases "hb_response w mem (n2s (drop 1 p)) ?s")
      case (Some bt)
      obtain b t where bt: "bt = (b, t)" by (cases bt)
      have "tlsext_hb_seq t = tlsext_hb_seq s" using hb_response_seq Some bt q by metis
      then show ?thesis using True Some bt \<open>read_at 0 3 mem = Some p\<close>
        by (simp add: dtls1_process_heartbeat_def tls1_process_heartbeat_def Let_def write_bytes_def show_message_def emit_def)
    qed (simp add: dtls1_process_heartbeat_def tls1_process_heartbeat_def Some Let_def)
  next
    case False
    then show ?thesis using q
      by (cases "read_at 3 2 mem") (simp_all add: dtls1_process_heartbeat_def tls1_process_heartbeat_def Some Let_def)
  qed
qed

lemma dtls1_heartbeat_eq:
  "dtls1_heartbeat w s = map_option (\<lambda>(r, s').
     (r, if hb_refused s = None \<and> 0 \<le> r then s'\<lparr>timer := True\<rparr> else s')) (tls1_heartbeat w s)"
  by (auto simp: dtls1_heartbeat_def tls1_heartbeat_def Let_def map_option_bind o_def split_beta split: option.splits
    intro!: Option.bind_cong)

end
