(* ===== verification/Json_Parser.thy ===== *)
theory Json_Parser
  imports Decode_Inputs
begin

text \<open>
  json.c: \<open>json_parse_ex\<close> reads the text twice, in one loop over its bytes that is driven by flags.  The first pass
  allocates the values and counts what belongs to them, the second one takes the values up again in the same order,
  allocates their contents and fills them in.

  The values lie in a list in the order of their allocation, so that \<open>next_alloc\<close> of the value \<open>k\<close> is \<open>k + 1\<close>.
  The contents of doubles are left out: no branch depends on them.  Lengths are numbers, because the code checks them
  before they would wrap around.
\<close>

section \<open>Values under construction\<close>

datatype json_type = type_none | type_object | type_array | type_integer | type_double | type_string | type_boolean | type_null

text \<open>
  A slot of an object holds a name, as an offset and a length in the memory of the names, and a value; that of an array
  the value only.  \<open>jn_names\<close> is the counter of the first pass, which lies in the pointer \<open>u.object.values\<close>,
  \<open>jn_mem\<close> the text of a string or the names of an object.
\<close>

record jnode =
  jn_type :: json_type
  jn_parent :: "nat option"
  jn_boolean :: bool
  jn_integer :: int
  jn_length :: nat
  jn_names :: nat
  jn_slots :: "((nat \<times> nat) option \<times> nat option) list"
  jn_mem :: mem
  jn_object_mem :: nat

definition zero_jnode :: "json_type \<Rightarrow> nat option \<Rightarrow> jnode" where
  "zero_jnode t p = \<lparr>jn_type = t, jn_parent = p, jn_boolean = False, jn_integer = 0, jn_length = 0, jn_names = 0, jn_slots = [],
     jn_mem = [], jn_object_mem = 0\<rparr>"

datatype json_flag =
    flag_next | flag_reproc | flag_need_comma | flag_seek_value | flag_escaped | flag_string | flag_need_colon | flag_done
  | flag_num_negative | flag_num_zero | flag_num_e | flag_num_e_got_sign | flag_num_e_negative
  | flag_line_comment | flag_block_comment | flag_num_got_decimal

record json_settings =
  max_memory :: u64
  enable_comments :: bool
  value_extra :: u64

text \<open>\<open>str_to\<close> is the pointer \<open>string\<close>: an offset in the memory of a value.\<close>

record 'h json_state =
  used_memory :: u64
  first_pass :: bool
  pos :: int
  cur_line :: u32
  flags :: "json_flag set"
  num_digits :: nat
  str_to :: "(nat \<times> nat) option"
  string_length :: nat
  top :: "nat option"
  root :: "nat option"
  next_value :: "nat option"
  nodes :: "jnode list"
  jheap :: 'h

type_synonym 'z jst = "'z alloc_scheme json_state"

text \<open>The line, the message and the character in it.\<close>

type_synonym jerror = "u32 \<times> string \<times> u8"

datatype 'h jres =
    Continue "'h json_state"
  | Fall "'h json_state"
  | Stop "'h json_state"
  | Fail jerror "'h json_state"

definition jfail :: "string \<Rightarrow> u8 \<Rightarrow> 'h json_state \<Rightarrow> 'h jres" where
  "jfail msg b s = Fail (cur_line s, msg, b) s"

definition upd_node :: "nat \<Rightarrow> (jnode \<Rightarrow> jnode) \<Rightarrow> 'h json_state \<Rightarrow> 'h json_state option" where
  "upd_node k f s = (if k < length (nodes s) then Some (s\<lparr>nodes := (nodes s)[k := f (nodes s ! k)]\<rparr>) else None)"

definition top_node :: "'h json_state \<Rightarrow> jnode option" where
  "top_node s = (case top s of None \<Rightarrow> None | Some k \<Rightarrow> if k < length (nodes s) then Some (nodes s ! k) else None)"

definition json_alloc :: "json_settings \<Rightarrow> u64 \<Rightarrow> 'z jst \<Rightarrow> bool \<times> 'z jst" where
  "json_alloc S sz s =
    (if - 1 - 8 - used_memory s < sz then (False, s)
     else let s = (if max_memory S \<noteq> 0 then s\<lparr>used_memory := used_memory s + sz\<rparr> else s) in
       if max_memory S \<noteq> 0 \<and> used_memory s > max_memory S then (False, s)
       else let (ok, h) = try_alloc (jheap s) in (ok, s\<lparr>jheap := h\<rparr>))"

text \<open>The second pass takes the next value up and allocates what the first one counted.\<close>

definition fill_node :: "json_settings \<Rightarrow> nat \<Rightarrow> 'z jst \<Rightarrow> (bool \<times> 'z jst) option" where
  "fill_node S k s = (let n = nodes s ! k in case jn_type n of
     type_array \<Rightarrow> if jn_length n = 0 then Some (True, s) else
       (case json_alloc S (of_nat (jn_length n * 8)) s of
          (False, s) \<Rightarrow> Some (False, s)
        | (True, s) \<Rightarrow> map_option (Pair True) (upd_node k (\<lambda>n. n\<lparr>jn_slots := replicate (jn_length n) (None, None), jn_length := 0\<rparr>) s))
   | type_object \<Rightarrow> if jn_length n = 0 then Some (True, s) else
       (case json_alloc S (of_nat (24 * jn_length n + jn_names n)) s of
          (False, s) \<Rightarrow> Some (False, s)
        | (True, s) \<Rightarrow> map_option (Pair True) (upd_node k (\<lambda>n. n\<lparr>jn_slots := replicate (jn_length n) (None, None),
            jn_mem := replicate (jn_names n) None, jn_object_mem := 0, jn_length := 0\<rparr>) s))
   | type_string \<Rightarrow>
       (case json_alloc S (of_nat (jn_length n + 1)) s of
          (False, s) \<Rightarrow> Some (False, s)
        | (True, s) \<Rightarrow> map_option (Pair True) (upd_node k (\<lambda>n. n\<lparr>jn_mem := replicate (jn_length n + 1) None, jn_length := 0\<rparr>) s))
   | _ \<Rightarrow> Some (True, s))"

definition new_value :: "json_settings \<Rightarrow> json_type \<Rightarrow> 'z jst \<Rightarrow> (bool \<times> 'z jst) option" where
  "new_value S t s =
    (if \<not> first_pass s then
       (case next_value s of
          None \<Rightarrow> None
        | Some k \<Rightarrow> if length (nodes s) \<le> k then None else
            fill_node S k (s\<lparr>top := Some k, next_value := (if k + 1 < length (nodes s) then Some (k + 1) else None),
              root := (if root s = None then Some k else root s)\<rparr>))
     else (case json_alloc S (40 + value_extra S) s of
          (False, s) \<Rightarrow> Some (False, s)
        | (True, s) \<Rightarrow> let k = length (nodes s) in
            Some (True, s\<lparr>nodes := nodes s @ [zero_jnode t (top s)], root := (if root s = None then Some k else root s),
              next_value := Some k, top := Some k\<rparr>)))"

section \<open>Characters\<close>

definition isdigit :: "u8 \<Rightarrow> bool" where
  "isdigit c \<longleftrightarrow> 0x30 \<le> c \<and> c \<le> 0x39"

definition hex_value :: "u8 \<Rightarrow> u8" where
  "hex_value c =
    (if isdigit c then c - 0x30
     else if 0x61 \<le> c \<and> c \<le> 0x66 then c - 0x61 + 10
     else if 0x41 \<le> c \<and> c \<le> 0x46 then c - 0x41 + 10
     else 0xFF)"

definition would_overflow :: "int \<Rightarrow> u8 \<Rightarrow> bool" where
  "would_overflow value b \<longleftrightarrow> (2 ^ 63 - 1 - (uint b - 48)) div 10 < value"

text \<open>Four hexadecimal digits.\<close>

definition hex4 :: "u8 list \<Rightarrow> u32 option" where
  "hex4 cs = (case map hex_value (take 4 cs) of
     [a, b, c, d] \<Rightarrow> if a = 0xFF \<or> b = 0xFF \<or> c = 0xFF \<or> d = 0xFF then None
       else Some (push_bit 8 (ucast (push_bit 4 a OR b)) OR ucast (push_bit 4 c OR d))
   | _ \<Rightarrow> None)"

definition utf8 :: "u32 \<Rightarrow> u8 list" where
  "utf8 c =
    (if c \<le> 0x7F then [ucast c]
     else if c \<le> 0x7FF then [0xC0 OR ucast (drop_bit 6 c), 0x80 OR (ucast c AND 0x3F)]
     else if c \<le> 0xFFFF then [0xE0 OR ucast (drop_bit 12 c), 0x80 OR (ucast (drop_bit 6 c) AND 0x3F), 0x80 OR (ucast c AND 0x3F)]
     else [0xF0 OR ucast (drop_bit 18 c), 0x80 OR (ucast (drop_bit 12 c) AND 0x3F), 0x80 OR (ucast (drop_bit 6 c) AND 0x3F),
       0x80 OR (ucast c AND 0x3F)])"

text \<open>The character at a position; behind the end a NUL.\<close>

definition peek :: "u8 list \<Rightarrow> int \<Rightarrow> u8 option" where
  "peek json p = (if p = int (length json) then Some 0 else if 0 \<le> p \<and> p < int (length json) then Some (json ! nat p) else None)"

section \<open>Strings\<close>

definition put_char :: "u8 \<Rightarrow> 'h json_state \<Rightarrow> 'h json_state option" where
  "put_char b s = (case str_to s of
     None \<Rightarrow> None
   | Some (k, off) \<Rightarrow>
       if k < length (nodes s) \<and> off + string_length s < length (jn_mem (nodes s ! k))
       then upd_node k (\<lambda>n. n\<lparr>jn_mem := (jn_mem n)[off + string_length s := Some b]\<rparr>) s
       else None)"

definition string_add :: "u8 \<Rightarrow> 'h json_state \<Rightarrow> 'h json_state option" where
  "string_add b s = do {
     s \<leftarrow> (if first_pass s then Some s else put_char b s);
     Some (s\<lparr>string_length := string_length s + 1\<rparr>)
   }"

definition unicode :: "u8 list \<Rightarrow> 'h json_state \<Rightarrow> 'h jres option" where
  "unicode json s =
    (let left = int (length json) - pos s; failed = jfail ''Invalid character value `%c`'' 0x75 s in
     if left \<le> 4 then Some failed
     else case hex4 (drop (nat (pos s) + 1) json) of
       None \<Rightarrow> Some failed
     | Some uchar \<Rightarrow>
         if uchar AND 0xF800 = 0xD800 then
           if left - 4 \<le> 6 \<or> json ! (nat (pos s) + 5) \<noteq> 0x5C \<or> json ! (nat (pos s) + 6) \<noteq> 0x75 then Some failed
           else (case hex4 (drop (nat (pos s) + 7) json) of
               None \<Rightarrow> Some failed
             | Some uchar2 \<Rightarrow>
                 map_option Continue (foldM string_add (utf8 (0x10000 OR push_bit 10 (uchar AND 0x3FF) OR (uchar2 AND 0x3FF)))
                   (s\<lparr>pos := pos s + 10\<rparr>)))
         else map_option Continue (foldM string_add (utf8 uchar) (s\<lparr>pos := pos s + 4\<rparr>)))"

definition escape_char :: "u8 \<Rightarrow> u8" where
  "escape_char b = (if b = 0x62 then 8 else if b = 0x66 then 12 else if b = 0x6E then 10 else if b = 0x72 then 13
     else if b = 0x74 then 9 else b)"

definition string_end :: "'h json_state \<Rightarrow> 'h jres option" where
  "string_end s = do {
     s \<leftarrow> (if first_pass s then Some s else put_char 0 s);
     let s = s\<lparr>flags := flags s - {flag_string}, str_to := None\<rparr> in do {
     k \<leftarrow> top s;
     n \<leftarrow> top_node s;
     case jn_type n of
       type_string \<Rightarrow> do {
         s \<leftarrow> upd_node k (\<lambda>n. n\<lparr>jn_length := string_length s\<rparr>) s;
         Some (Fall (s\<lparr>flags := insert flag_next (flags s)\<rparr>))
       }
     | type_object \<Rightarrow> do {
         s \<leftarrow> (if first_pass s then upd_node k (\<lambda>n. n\<lparr>jn_names := jn_names n + string_length s + 1\<rparr>) s
              else if jn_length n < length (jn_slots n) then
                upd_node k (\<lambda>n. n\<lparr>jn_slots := (jn_slots n)[jn_length n := (Some (jn_object_mem n, string_length s), snd (jn_slots n ! jn_length n))],
                  jn_object_mem := jn_object_mem n + string_length s + 1\<rparr>) s
              else None);
         Some (Continue (s\<lparr>flags := flags s \<union> {flag_seek_value, flag_need_colon}\<rparr>))
       }
     | _ \<Rightarrow> Some (Fall s)
   }}"

definition string_section :: "u8 list \<Rightarrow> u8 \<Rightarrow> 'h json_state \<Rightarrow> 'h jres option" where
  "string_section json b s =
    (if flag_string \<notin> flags s then Some (Fall s)
     else if b = 0 then Some (jfail ''Unexpected EOF in string'' b s)
     else if string_length s > 2 ^ 32 - 1 - 8 then Some (jfail ''Too long (caught overflow)'' b s)
     else if flag_escaped \<in> flags s then
       (let s = s\<lparr>flags := flags s - {flag_escaped}\<rparr> in
        if b = 0x75 then unicode json s else map_option Continue (string_add (escape_char b) s))
     else if b = 0x5C then Some (Continue (s\<lparr>flags := insert flag_escaped (flags s)\<rparr>))
     else if b = 0x22 then string_end s
     else map_option Continue (string_add b s))"

section \<open>Comments, and what follows the value\<close>

definition comment_section :: "json_settings \<Rightarrow> u8 list \<Rightarrow> u8 \<Rightarrow> 'h json_state \<Rightarrow> 'h jres option" where
  "comment_section S json b s =
    (if \<not> enable_comments S then Some (Fall s)
     else if flag_line_comment \<in> flags s then
       Some (Continue (if b = 13 \<or> b = 10 \<or> b = 0 then s\<lparr>flags := flags s - {flag_line_comment}, pos := pos s - 1\<rparr> else s))
     else if flag_block_comment \<in> flags s then
       (if b = 0 then Some (jfail ''Unexpected EOF in block comment'' b s)
        else if b = 0x2A \<and> pos s < int (length json) - 1 \<and> json ! nat (pos s + 1) = 0x2F
        then Some (Continue (s\<lparr>flags := flags s - {flag_block_comment}, pos := pos s + 1\<rparr>))
        else Some (Continue s))
     else if b = 0x2F then do {
       refused \<leftarrow> (if flag_seek_value \<in> flags s \<or> flag_done \<in> flags s then Some False
         else do { n \<leftarrow> top_node s; Some (jn_type n \<noteq> type_object) });
       let s = s\<lparr>pos := pos s + 1\<rparr> in
       if refused then Some (jfail ''Comment not allowed here'' b s)
       else if pos s = int (length json) then Some (jfail ''EOF unexpected'' b s)
       else if json ! nat (pos s) = 0x2F then Some (Continue (s\<lparr>flags := insert flag_line_comment (flags s)\<rparr>))
       else if json ! nat (pos s) = 0x2A then Some (Continue (s\<lparr>flags := insert flag_block_comment (flags s)\<rparr>))
       else Some (jfail ''Unexpected `%c` in comment opening sequence'' (json ! nat (pos s)) s)
     }
     else Some (Fall s))"

definition whitespace :: "u8 \<Rightarrow> bool" where
  "whitespace b \<longleftrightarrow> b = 10 \<or> b = 0x20 \<or> b = 9 \<or> b = 13"

definition skip_white :: "u8 \<Rightarrow> 'h json_state \<Rightarrow> 'h jres" where
  "skip_white b s = Continue (if b = 10 then s\<lparr>cur_line := cur_line s + 1\<rparr> else s)"

definition done_section :: "u8 \<Rightarrow> 'h json_state \<Rightarrow> 'h jres" where
  "done_section b s =
    (if flag_done \<notin> flags s then Fall s
     else if b = 0 then Stop s
     else if whitespace b then skip_white b s
     else jfail ''Trailing garbage: `%c`'' b s)"

section \<open>Values\<close>

text \<open>A value that is allocated, or the failure of its allocation.\<close>

definition start_value :: "json_settings \<Rightarrow> json_type \<Rightarrow> ('z jst \<Rightarrow> 'z alloc_scheme jres option) \<Rightarrow> 'z jst \<Rightarrow> 'z alloc_scheme jres option" where
  "start_value S t f s = (case new_value S t s of
     None \<Rightarrow> None
   | Some (False, s) \<Rightarrow> Some (jfail ''Memory allocation failure'' 0 s)
   | Some (True, s) \<Rightarrow> f s)"

definition num_char :: "u8 \<Rightarrow> bool" where
  "num_char b \<longleftrightarrow> isdigit b \<or> b = 0x2B \<or> b = 0x2D \<or> b = 0x65 \<or> b = 0x45 \<or> b = 0x2E"

definition literal :: "json_settings \<Rightarrow> u8 list \<Rightarrow> json_type \<Rightarrow> u8 list \<Rightarrow> bool \<Rightarrow> 'z jst \<Rightarrow> 'z alloc_scheme jres option" where
  "literal S json t cs v s =
    (if int (length json) - pos s \<le> int (length cs) \<or> take (length cs) (drop (nat (pos s) + 1) json) \<noteq> cs
     then Some (jfail ''Unknown value'' 0 s)
     else start_value S t (\<lambda>s. do {
       k \<leftarrow> top s;
       s \<leftarrow> (if v then upd_node k (\<lambda>n. n\<lparr>jn_boolean := True\<rparr>) s else Some s);
       Some (Fall (s\<lparr>flags := insert flag_next (flags s)\<rparr>))
     }) (s\<lparr>pos := pos s + int (length cs)\<rparr>))"

definition number_start :: "u8 list \<Rightarrow> u8 \<Rightarrow> 'h json_state \<Rightarrow> 'h jres option" where
  "number_start json b s =
    (if \<not> first_pass s then
       Some (Fall (s\<lparr>pos := pos s + int (length (takeWhile num_char (drop (nat (pos s)) json))),
         flags := flags s \<union> {flag_next, flag_reproc}\<rparr>))
     else
       let s = s\<lparr>flags := flags s - {flag_num_negative, flag_num_e, flag_num_e_got_sign, flag_num_e_negative, flag_num_zero},
         num_digits := 0\<rparr> in
       if b \<noteq> 0x2D then Some (Fall (s\<lparr>flags := insert flag_reproc (flags s)\<rparr>))
       else Some (Continue (s\<lparr>flags := insert flag_num_negative (flags s)\<rparr>)))"

definition value_start :: "json_settings \<Rightarrow> u8 list \<Rightarrow> u8 \<Rightarrow> 'z jst \<Rightarrow> 'z alloc_scheme jres option" where
  "value_start S json b s =
    (if b = 0x7B then start_value S type_object (\<lambda>s. Some (Continue s)) s
     else if b = 0x5B then
       start_value S type_array (\<lambda>s. Some (Continue (s\<lparr>flags := insert flag_seek_value (flags s)\<rparr>))) s
     else if b = 0x22 then
       start_value S type_string (\<lambda>s. Some (Continue (s\<lparr>flags := insert flag_string (flags s),
         str_to := map_option (\<lambda>k. (k, 0)) (top s), string_length := 0\<rparr>))) s
     else if b = 0x74 then literal S json type_boolean [0x72, 0x75, 0x65] True s
     else if b = 0x66 then literal S json type_boolean [0x61, 0x6C, 0x73, 0x65] False s
     else if b = 0x6E then literal S json type_null [0x75, 0x6C, 0x6C] False s
     else if isdigit b \<or> b = 0x2D then start_value S type_integer (number_start json b) s
     else Some (jfail ''Unexpected `%c` when seeking value'' b s))"

definition value_section :: "json_settings \<Rightarrow> u8 list \<Rightarrow> u8 \<Rightarrow> 'z jst \<Rightarrow> 'z alloc_scheme jres option" where
  "value_section S json b s =
    (if whitespace b then Some (skip_white b s)
     else if b = 0x5D then
       (case top s of
          None \<Rightarrow> Some (jfail ''Unexpected `]`'' b s)
        | Some k \<Rightarrow> do {
            n \<leftarrow> top_node s;
            if jn_type n = type_array
            then Some (Fall (s\<lparr>flags := insert flag_next (flags s - {flag_need_comma, flag_seek_value})\<rparr>))
            else Some (jfail ''Unexpected `]`'' b s)
          })
     else if flag_need_comma \<in> flags s then
       (if b = 0x2C then Some (Continue (s\<lparr>flags := flags s - {flag_need_comma}\<rparr>))
        else Some (jfail ''Expected `,` before `%c`'' b s))
     else if flag_need_colon \<in> flags s then
       (if b = 0x3A then Some (Continue (s\<lparr>flags := flags s - {flag_need_colon}\<rparr>))
        else Some (jfail ''Expected `:` before `%c`'' b s))
     else value_start S json b (s\<lparr>flags := flags s - {flag_seek_value}\<rparr>))"

section \<open>Objects and numbers\<close>

definition object_section :: "u8 \<Rightarrow> 'h json_state \<Rightarrow> 'h jres option" where
  "object_section b s =
    (if whitespace b then Some (skip_white b s)
     else if b = 0x22 then
       (if flag_need_comma \<in> flags s then Some (jfail ''Expected `,` before `%c`'' b s)
        else do {
          k \<leftarrow> top s;
          n \<leftarrow> top_node s;
          Some (Fall (s\<lparr>flags := insert flag_string (flags s), str_to := Some (k, jn_object_mem n), string_length := 0\<rparr>))
        })
     else if b = 0x7D then Some (Fall (s\<lparr>flags := insert flag_next (flags s - {flag_need_comma})\<rparr>))
     else if b = 0x2C \<and> flag_need_comma \<in> flags s then Some (Fall (s\<lparr>flags := flags s - {flag_need_comma}\<rparr>))
     else Some (jfail ''Unexpected `%c` in object'' b s))"

text \<open>
  A digit.  The contents of a double are left out, and with them the value of the exponent and of the fraction.  The
  counter of digits is an \<open>int\<close> and must not overflow.
\<close>

definition digit :: "nat \<Rightarrow> jnode \<Rightarrow> u8 \<Rightarrow> 'h json_state \<Rightarrow> 'h jres option" where
  "digit k n b s =
    (if 2 ^ 31 \<le> num_digits s + 1 then None
     else let s = s\<lparr>num_digits := num_digits s + 1\<rparr> in
       if flag_num_e \<in> flags s then Some (Continue (s\<lparr>flags := insert flag_num_e_got_sign (flags s)\<rparr>))
       else if jn_type n = type_integer then
         (if flag_num_zero \<in> flags s then Some (jfail ''Unexpected `0` before `%c`'' b s)
          else let s = (if num_digits s = 1 \<and> b = 0x30 then s\<lparr>flags := insert flag_num_zero (flags s)\<rparr> else s) in
            if would_overflow (jn_integer n) b then
              map_option Continue (upd_node k (\<lambda>n. n\<lparr>jn_type := type_double\<rparr>) (s\<lparr>num_digits := num_digits s - 1, pos := pos s - 1\<rparr>))
            else map_option Continue (upd_node k (\<lambda>n. n\<lparr>jn_integer := jn_integer n * 10 + (uint b - 48)\<rparr>) s))
       else Some (Continue s))"

definition number_section :: "u8 \<Rightarrow> 'h json_state \<Rightarrow> 'h jres option" where
  "number_section b s = do {
     k \<leftarrow> top s;
     n \<leftarrow> top_node s;
     if isdigit b then digit k n b s
     else if (b = 0x2B \<or> b = 0x2D) \<and> flag_num_e \<in> flags s \<and> flag_num_e_got_sign \<notin> flags s then
       Some (Continue (s\<lparr>flags := insert flag_num_e_got_sign (flags s) \<union> (if b = 0x2D then {flag_num_e_negative} else {})\<rparr>))
     else if b = 0x2E \<and> jn_type n = type_integer then
       (if num_digits s = 0 then Some (jfail ''Expected digit before `.`'' b s)
        else map_option Continue (upd_node k (\<lambda>n. n\<lparr>jn_type := type_double\<rparr>)
          (s\<lparr>flags := insert flag_num_got_decimal (flags s), num_digits := 0\<rparr>)))
     else if flag_num_e \<notin> flags s \<and> jn_type n = type_double \<and> num_digits s = 0 then
       Some (jfail ''Expected digit after `.`'' b s)
     else if flag_num_e \<notin> flags s \<and> (b = 0x65 \<or> b = 0x45) then
       map_option Continue (upd_node k (\<lambda>n. n\<lparr>jn_type := type_double\<rparr>)
         (s\<lparr>flags := insert flag_num_e (flags s) - {flag_num_zero}, num_digits := 0\<rparr>))
     else if flag_num_e \<in> flags s \<and> num_digits s = 0 then Some (jfail ''Expected digit after `e`'' b s)
     else do {
       s \<leftarrow> (if flag_num_negative \<in> flags s \<and> jn_type n = type_integer
             then upd_node k (\<lambda>n. n\<lparr>jn_integer := - jn_integer n\<rparr>) s else Some s);
       Some (Fall (s\<lparr>flags := flags s \<union> {flag_next, flag_reproc}\<rparr>))
     }
   }"

definition container_section :: "u8 \<Rightarrow> 'h json_state \<Rightarrow> 'h jres option" where
  "container_section b s = do {
     n \<leftarrow> top_node s;
     case jn_type n of
       type_object \<Rightarrow> object_section b s
     | type_integer \<Rightarrow> number_section b s
     | type_double \<Rightarrow> number_section b s
     | _ \<Rightarrow> Some (Fall s)
   }"

section \<open>The end of a round\<close>

text \<open>A value that is complete is counted, and in the second pass stored, in the one around it.\<close>

definition value_done :: "'h json_state \<Rightarrow> 'h jres option" where
  "value_done s = (let s = s\<lparr>flags := insert flag_need_comma (flags s - {flag_next})\<rparr> in do {
     k \<leftarrow> top s;
     n \<leftarrow> top_node s;
     case jn_parent n of
       None \<Rightarrow> Some (Continue (s\<lparr>flags := insert flag_done (flags s)\<rparr>))
     | Some p \<Rightarrow>
         if length (nodes s) \<le> p then None
         else let par = nodes s ! p;
             s = (if jn_type par = type_array then s\<lparr>flags := insert flag_seek_value (flags s)\<rparr> else s) in do {
           s \<leftarrow> (if first_pass s then Some s
                else if jn_length par < length (jn_slots par) then
                  upd_node p (\<lambda>n. n\<lparr>jn_slots := (jn_slots n)[jn_length n := (fst (jn_slots n ! jn_length n), Some k)]\<rparr>) s
                else None);
           s \<leftarrow> upd_node p (\<lambda>n. n\<lparr>jn_length := jn_length n + 1\<rparr>) s;
           if jn_length par + 1 > 2 ^ 32 - 1 - 8 then Some (jfail ''Too long (caught overflow)'' 0 s)
           else Some (Continue (s\<lparr>top := Some p\<rparr>))
         }
   })"

definition round_end :: "'h json_state \<Rightarrow> 'h jres option" where
  "round_end s =
    (let s = (if flag_reproc \<in> flags s then s\<lparr>flags := flags s - {flag_reproc}, pos := pos s - 1\<rparr> else s) in
     if flag_next \<in> flags s then value_done s else Some (Continue s))"

text \<open>The sections run one after the other until one of them leaves the round.\<close>

definition jthen :: "'h jres option \<Rightarrow> ('h json_state \<Rightarrow> 'h jres option) \<Rightarrow> 'h jres option" where
  "jthen r f = (case r of Some (Fall s) \<Rightarrow> f s | _ \<Rightarrow> r)"

definition json_round :: "json_settings \<Rightarrow> u8 list \<Rightarrow> 'z jst \<Rightarrow> 'z alloc_scheme jres option" where
  "json_round S json s = do {
     b \<leftarrow> peek json (pos s);
     jthen (string_section json b s) (\<lambda>s.
     jthen (comment_section S json b s) (\<lambda>s.
     jthen (Some (done_section b s)) (\<lambda>s.
     jthen (if flag_seek_value \<in> flags s then value_section S json b s else container_section b s) round_end)))
   }"

section \<open>A pass\<close>

text \<open>One pass: the outer None would be a loop that does not end, the inner None a wild access.\<close>

partial_function (option) json_pass :: "json_settings \<Rightarrow> u8 list \<Rightarrow> 'z jst \<Rightarrow> 'z alloc_scheme jres option option" where
  "json_pass S json s = (case json_round S json s of
     Some (Continue s) \<Rightarrow> json_pass S json (s\<lparr>pos := pos s + 1\<rparr>)
   | r \<Rightarrow> Some r)"

definition init_state :: "'z alloc_scheme \<Rightarrow> 'z jst" where
  "init_state h = \<lparr>used_memory = 0, first_pass = True, pos = 0, cur_line = 1, flags = {flag_seek_value}, num_digits = 0, str_to = None,
     string_length = 0, top = None, root = None, next_value = None, nodes = [], jheap = h\<rparr>"

definition second_pass :: "'h json_state \<Rightarrow> 'h json_state" where
  "second_pass s = s\<lparr>first_pass := False, pos := 0, cur_line := 1, flags := {flag_seek_value}, str_to := None, string_length := 0,
     top := None, root := None, next_value := root s\<rparr>"

section \<open>Freeing values\<close>

text \<open>
  The memory of the values as a list of cells, in which those that were freed are None.  The loop of
  \<open>json_value_free_ex\<close> goes down to the last member of a value as long as there is one; the value without any is freed,
  its contents with it, and the loop goes on with the one around it.
\<close>

type_synonym cells = "jnode option list"

definition free_cell :: "cells \<Rightarrow> nat \<Rightarrow> jnode \<Rightarrow> cells \<times> nat option" where
  "free_cell C k n = (C[k := None], jn_parent n)"

definition last_member :: "cells \<Rightarrow> nat \<Rightarrow> jnode \<Rightarrow> (cells \<times> nat option) option" where
  "last_member C k n = (let l = jn_length n - 1 in
     if l < length (jn_slots n) then
       (case snd (jn_slots n ! l) of None \<Rightarrow> None | Some c \<Rightarrow> Some (C[k := Some (n\<lparr>jn_length := l\<rparr>)], Some c))
     else None)"

definition free_step :: "cells \<Rightarrow> nat \<Rightarrow> (cells \<times> nat option) option" where
  "free_step C k =
    (if length C \<le> k then None
     else case C ! k of
       None \<Rightarrow> None
     | Some n \<Rightarrow> (case jn_type n of
         type_array \<Rightarrow> if jn_length n = 0 then Some (free_cell C k n) else last_member C k n
       | type_object \<Rightarrow> if jn_length n = 0 then Some (free_cell C k n) else last_member C k n
       | _ \<Rightarrow> Some (free_cell C k n)))"

text \<open>The outer None would be a loop that does not end, the inner None a wild access.\<close>

partial_function (option) free_values :: "cells \<Rightarrow> nat option \<Rightarrow> cells option option" where
  "free_values C v = (case v of
     None \<Rightarrow> Some (Some C)
   | Some k \<Rightarrow> (case free_step C k of
       None \<Rightarrow> Some None
     | Some (C, v) \<Rightarrow> free_values C v))"

definition json_value_free_ex :: "cells \<Rightarrow> nat option \<Rightarrow> cells option option" where
  "json_value_free_ex C v = (case v of
     None \<Rightarrow> Some (Some C)
   | Some k \<Rightarrow>
       if length C \<le> k then Some None
       else case C ! k of
         None \<Rightarrow> Some None
       | Some n \<Rightarrow> free_values (C[k := Some (n\<lparr>jn_parent := None\<rparr>)]) (Some k))"

definition json_value_free :: "cells \<Rightarrow> nat option \<Rightarrow> cells option option" where
  "json_value_free = json_value_free_ex"

section \<open>The parser\<close>

text \<open>The values that have not been taken up are freed along \<open>next_alloc\<close>, the others, in the second pass, as the tree below the root.\<close>

definition free_chain :: "nat option \<Rightarrow> cells \<Rightarrow> cells" where
  "free_chain a C = (case a of None \<Rightarrow> C | Some k \<Rightarrow> take k C @ replicate (length C - k) None)"

definition json_failed :: "'h json_state \<Rightarrow> cells option option" where
  "json_failed s = (let C = map Some (nodes s) in
     if first_pass s then Some (Some (free_chain (root s) C)) else json_value_free_ex (free_chain (next_value s) C) (root s))"

text \<open>
  The values and the root, or the message and what is left of the values.  The outer None would be a loop that does not
  end, the inner None a wild access.
\<close>

datatype 'h parsed =
    Parsed "jnode list" "nat option" 'h
  | Refused jerror cells 'h

type_synonym 'z json_result = "'z alloc_scheme parsed option option"

definition refuse :: "jerror \<Rightarrow> 'z jst \<Rightarrow> 'z json_result" where
  "refuse e s = map_option (map_option (\<lambda>C. Refused e C (jheap s))) (json_failed s)"

definition json_parse_ex :: "json_settings \<Rightarrow> u8 list \<Rightarrow> 'z alloc_scheme \<Rightarrow> 'z json_result" where
  "json_parse_ex S json h =
    (let json = (if take 3 json = [0xEF, 0xBB, 0xBF] then drop 3 json else json) in
     case json_pass S json (init_state h) of
       Some (Some (Stop s)) \<Rightarrow>
         (case json_pass S json (second_pass s) of
            Some (Some (Stop s)) \<Rightarrow> Some (Some (Parsed (nodes s) (root s) (jheap s)))
          | Some (Some (Fail e s)) \<Rightarrow> refuse e s
          | Some _ \<Rightarrow> Some None
          | None \<Rightarrow> None)
     | Some (Some (Fail e s)) \<Rightarrow> refuse e s
     | Some _ \<Rightarrow> Some None
     | None \<Rightarrow> None)"

definition default_settings :: json_settings where
  "default_settings = \<lparr>max_memory = 0, enable_comments = False, value_extra = 0\<rparr>"

definition json_parse :: "u8 list \<Rightarrow> 'z alloc_scheme \<Rightarrow> 'z json_result" where
  "json_parse = json_parse_ex default_settings"

section \<open>Reading a value\<close>

text \<open>The value at an index of the list, as its users read it; \<open>m\<close> bounds the depth.\<close>

definition bytes_of :: "mem \<Rightarrow> nat \<Rightarrow> nat \<Rightarrow> u8 list option" where
  "bytes_of m off n = (if off + n \<le> length m then those (take n (drop off m)) else None)"

definition read_slot :: "mem \<Rightarrow> (nat \<Rightarrow> json_value option) \<Rightarrow> (nat \<times> nat) option \<times> nat option \<Rightarrow> (u8 list \<times> json_value) option" where
  "read_slot M g sl = (case sl of
     (Some (off, len), Some c) \<Rightarrow> do { name \<leftarrow> bytes_of M off len; v \<leftarrow> g c; Some (name, v) }
   | _ \<Rightarrow> None)"

fun json_tree :: "nat \<Rightarrow> jnode list \<Rightarrow> nat \<Rightarrow> json_value option" where
  "json_tree 0 N k = None"
| "json_tree (Suc m) N k =
    (if length N \<le> k then None
     else let n = N ! k in case jn_type n of
       type_object \<Rightarrow> map_option json_object (those (map (read_slot (jn_mem n) (json_tree m N)) (take (jn_length n) (jn_slots n))))
     | type_array \<Rightarrow> map_option json_array (those (map (\<lambda>sl. case snd sl of None \<Rightarrow> None | Some c \<Rightarrow> json_tree m N c)
         (take (jn_length n) (jn_slots n))))
     | type_integer \<Rightarrow> Some (json_integer (jn_integer n))
     | type_double \<Rightarrow> Some json_double
     | type_string \<Rightarrow> map_option json_string (bytes_of (jn_mem n) 0 (jn_length n))
     | type_boolean \<Rightarrow> Some (json_boolean (jn_boolean n))
     | type_null \<Rightarrow> Some json_null
     | type_none \<Rightarrow> Some json_none)"

text \<open>The result of a parse as the readers of test cases take it: NULL or a value.\<close>

definition json_value_of :: "u8 list \<Rightarrow> 'z alloc_scheme \<Rightarrow> json_value option" where
  "json_value_of txt h = (case json_parse txt h of
     Some (Some (Parsed N (Some k) _)) \<Rightarrow> json_tree (length N) N k
   | _ \<Rightarrow> None)"

end
