(* ===== verification/Json_Text.thy ===== *)
theory Json_Text
  imports Json_Parser
begin

text \<open>
  The texts of values, and the list of values that the two passes of the parser make of them.
\<close>

section \<open>Texts\<close>

definition ws :: "u8 list \<Rightarrow> bool" where
  "ws w \<longleftrightarrow> (\<forall>b\<in>set w. whitespace b)"

text \<open>
  Strings: plain bytes, escapes and four hexadecimal digits (surrogate pairs are left out).
\<close>

inductive str_text :: "u8 list \<Rightarrow> u8 list \<Rightarrow> bool" where
  st_nil: "str_text [] []"
| st_plain: "b \<noteq> 0 \<Longrightarrow> b \<noteq> 0x22 \<Longrightarrow> b \<noteq> 0x5C \<Longrightarrow> str_text bs t \<Longrightarrow> str_text (b # bs) (b # t)"
| st_escape: "b \<noteq> 0 \<Longrightarrow> b \<noteq> 0x75 \<Longrightarrow> str_text bs t \<Longrightarrow> str_text (escape_char b # bs) (0x5C # b # t)"
| st_unicode: "length ds = 4 \<Longrightarrow> hex4 ds = Some c \<Longrightarrow> c AND 0xF800 \<noteq> 0xD800 \<Longrightarrow> str_text bs t \<Longrightarrow>
    str_text (utf8 c @ bs) (0x5C # 0x75 # ds @ t)"

text \<open>Integers of 63 bits and a sign.\<close>

definition num_val :: "u8 list \<Rightarrow> int" where
  "num_val ds = foldl (\<lambda>a d. a * 10 + (uint d - 48)) 0 ds"

definition num_text :: "int \<Rightarrow> u8 list \<Rightarrow> bool" where
  "num_text i t \<longleftrightarrow> (\<exists>ds. ds \<noteq> [] \<and> (\<forall>d\<in>set ds. isdigit d) \<and> (length ds = 1 \<or> hd ds \<noteq> 0x30) \<and> num_val ds < 2 ^ 63
     \<and> (t = ds \<and> i = num_val ds \<or> t = 0x2D # ds \<and> i = - num_val ds))"

inductive json_text :: "json_value \<Rightarrow> u8 list \<Rightarrow> bool"
  and elems_text :: "json_value list \<Rightarrow> u8 list \<Rightarrow> bool"
  and members_text :: "(u8 list \<times> json_value) list \<Rightarrow> u8 list \<Rightarrow> bool" where
  jt_string: "str_text bs t \<Longrightarrow> json_text (json_string bs) ([0x22] @ t @ [0x22])"
| jt_integer: "num_text i t \<Longrightarrow> json_text (json_integer i) t"
| jt_true: "json_text (json_boolean True) [0x74, 0x72, 0x75, 0x65]"
| jt_false: "json_text (json_boolean False) [0x66, 0x61, 0x6C, 0x73, 0x65]"
| jt_null: "json_text json_null [0x6E, 0x75, 0x6C, 0x6C]"
| jt_array: "elems_text vs t \<Longrightarrow> json_text (json_array vs) ([0x5B] @ t @ [0x5D])"
| jt_object: "members_text kvs t \<Longrightarrow> json_text (json_object kvs) ([0x7B] @ t @ [0x7D])"
| et_nil: "ws w \<Longrightarrow> elems_text [] w"
| et_last: "ws w \<Longrightarrow> json_text v t \<Longrightarrow> ws w' \<Longrightarrow> elems_text [v] (w @ t @ w')"
| et_cons: "ws w \<Longrightarrow> json_text v t \<Longrightarrow> ws w' \<Longrightarrow> vs \<noteq> [] \<Longrightarrow> elems_text vs t' \<Longrightarrow> elems_text (v # vs) (w @ t @ w' @ [0x2C] @ t')"
| mt_nil: "ws w \<Longrightarrow> members_text [] w"
| mt_last: "ws w1 \<Longrightarrow> str_text name nt \<Longrightarrow> ws w2 \<Longrightarrow> ws w3 \<Longrightarrow> json_text v t \<Longrightarrow> ws w4 \<Longrightarrow>
    members_text [(name, v)] (w1 @ ([0x22] @ nt @ [0x22]) @ w2 @ [0x3A] @ w3 @ t @ w4)"
| mt_cons: "ws w1 \<Longrightarrow> str_text name nt \<Longrightarrow> ws w2 \<Longrightarrow> ws w3 \<Longrightarrow> json_text v t \<Longrightarrow> ws w4 \<Longrightarrow> kvs \<noteq> [] \<Longrightarrow> members_text kvs t' \<Longrightarrow>
    members_text ((name, v) # kvs) (w1 @ ([0x22] @ nt @ [0x22]) @ w2 @ [0x3A] @ w3 @ t @ w4 @ [0x2C] @ t')"

section \<open>The values of a text\<close>

text \<open>How many values there are.\<close>

fun jsize :: "json_value \<Rightarrow> nat" and jsizes :: "json_value list \<Rightarrow> nat" and msizes :: "(u8 list \<times> json_value) list \<Rightarrow> nat" where
  "jsize (json_array vs) = Suc (jsizes vs)"
| "jsize (json_object kvs) = Suc (msizes kvs)"
| "jsize v = 1"
| "jsizes [] = 0"
| "jsizes (v # vs) = jsize v + jsizes vs"
| "msizes [] = 0"
| "msizes ((_, v) # kvs) = jsize v + msizes kvs"

definition names_size :: "u8 list list \<Rightarrow> nat" where
  "names_size ns = sum_list (map (\<lambda>n. length n + 1) ns)"

definition names_mem :: "u8 list list \<Rightarrow> mem" where
  "names_mem ns = concat (map (\<lambda>n. map Some n @ [Some 0]) ns)"

text \<open>The slots of an object: names with the offsets of their text, and values.\<close>

fun member_slots :: "nat \<Rightarrow> (u8 list \<times> nat) list \<Rightarrow> ((nat \<times> nat) option \<times> nat option) list" where
  "member_slots off [] = []"
| "member_slots off ((n, c) # ms) = (Some (off, length n), Some c) # member_slots (off + length n + 1) ms"

text \<open>
  An array and an object with the members that have been read, \<open>n\<close> being the number of all of them and \<open>tot\<close> the size of
  all names: in the first pass they are counted only.  \<open>pend\<close> is the name of the member whose value is being read.
\<close>

definition array_node :: "bool \<Rightarrow> nat option \<Rightarrow> nat list \<Rightarrow> nat \<Rightarrow> jnode" where
  "array_node fp par cs n = (zero_jnode type_array par)\<lparr>jn_length := length cs,
     jn_slots := (if fp then [] else map (\<lambda>c. (None, Some c)) cs @ replicate (n - length cs) (None, None))\<rparr>"

definition object_node :: "bool \<Rightarrow> nat option \<Rightarrow> (u8 list \<times> nat) list \<Rightarrow> u8 list option \<Rightarrow> nat \<Rightarrow> nat \<Rightarrow> jnode" where
  "object_node fp par ms pend n tot =
    (let ns = map fst ms @ (case pend of None \<Rightarrow> [] | Some x \<Rightarrow> [x]); off = names_size (map fst ms) in
     (zero_jnode type_object par)\<lparr>jn_length := length ms, jn_names := (if fp then names_size ns else tot),
       jn_slots := (if fp then [] else member_slots 0 ms @ (case pend of None \<Rightarrow> replicate (n - length ms) (None, None)
         | Some x \<Rightarrow> (Some (off, length x), None) # replicate (n - length ms - 1) (None, None))),
       jn_mem := (if fp then [] else names_mem ns @ replicate (tot - names_size ns) None),
       jn_object_mem := (if fp then 0 else names_size ns)\<rparr>)"

fun elem_ixs :: "nat \<Rightarrow> json_value list \<Rightarrow> nat list" where
  "elem_ixs k [] = []"
| "elem_ixs k (v # vs) = k # elem_ixs (k + jsize v) vs"

fun members :: "nat \<Rightarrow> (u8 list \<times> json_value) list \<Rightarrow> (u8 list \<times> nat) list" where
  "members k [] = []"
| "members k ((n, v) # kvs) = (n, k) # members (k + jsize v) kvs"

text \<open>The values of a text after the first pass or after the second, from the index \<open>k\<close> on.\<close>

fun jnodes :: "bool \<Rightarrow> nat \<Rightarrow> nat option \<Rightarrow> json_value \<Rightarrow> jnode list"
  and jnodes_list :: "bool \<Rightarrow> nat \<Rightarrow> nat \<Rightarrow> json_value list \<Rightarrow> jnode list"
  and jnodes_members :: "bool \<Rightarrow> nat \<Rightarrow> nat \<Rightarrow> (u8 list \<times> json_value) list \<Rightarrow> jnode list" where
  "jnodes fp k par (json_string bs) =
    [(zero_jnode type_string par)\<lparr>jn_length := length bs, jn_mem := (if fp then [] else map Some bs @ [Some 0])\<rparr>]"
| "jnodes fp k par (json_integer i) = [(zero_jnode type_integer par)\<lparr>jn_integer := i\<rparr>]"
| "jnodes fp k par (json_boolean b) = [(zero_jnode type_boolean par)\<lparr>jn_boolean := b\<rparr>]"
| "jnodes fp k par (json_array vs) =
    array_node fp par (elem_ixs (k + 1) vs) (length vs) # jnodes_list fp (k + 1) k vs"
| "jnodes fp k par (json_object kvs) =
    object_node fp par (members (k + 1) kvs) None (length kvs) (names_size (map fst kvs)) # jnodes_members fp (k + 1) k kvs"
| "jnodes fp k par json_null = [zero_jnode type_null par]"
| "jnodes fp k par json_double = [zero_jnode type_double par]"
| "jnodes fp k par json_none = [zero_jnode type_none par]"
| "jnodes_list fp k p [] = []"
| "jnodes_list fp k p (v # vs) = jnodes fp k (Some p) v @ jnodes_list fp (k + jsize v) p vs"
| "jnodes_members fp k p [] = []"
| "jnodes_members fp k p ((_, v) # kvs) = jnodes fp k (Some p) v @ jnodes_members fp (k + jsize v) p kvs"

lemma length_jnodes [simp]:
  "length (jnodes fp k par v) = jsize v"
  "length (jnodes_list fp k p vs) = jsizes vs"
  "length (jnodes_members fp k p kvs) = msizes kvs"
  by (induction fp k par v and fp k p vs and fp k p kvs rule: jnodes_jnodes_list_jnodes_members.induct) simp_all

lemma jsize_pos [simp]: "0 < jsize v"
  by (cases v) simp_all

lemma length_elem_ixs [simp]: "length (elem_ixs k vs) = length vs"
  by (induction vs arbitrary: k) simp_all

lemma members_simps [simp]: "length (members k kvs) = length kvs" "map fst (members k kvs) = map fst kvs"
  by (induction k kvs rule: members.induct) simp_all

lemma names_simps [simp]:
  "names_size [] = 0" "names_size (ns @ ms) = names_size ns + names_size ms" "names_size (n # ns) = length n + 1 + names_size ns"
  "names_mem [] = []" "names_mem (ns @ ms) = names_mem ns @ names_mem ms" "names_mem (n # ns) = map Some n @ [Some 0] @ names_mem ns"
  "length (names_mem ns) = names_size ns"
  by (simp_all add: names_size_def names_mem_def length_concat comp_def)

lemma length_member_slots [simp]: "length (member_slots off ms) = length ms"
  by (induction off ms rule: member_slots.induct) simp_all

lemma member_slots_append: "member_slots off (ms @ [(n, c)]) = member_slots off ms @ [(Some (off + names_size (map fst ms), length n), Some c)]"
  by (induction off ms rule: member_slots.induct) simp_all

section \<open>The values read back\<close>

lemma those_map_Some [simp]: "those (map Some xs) = Some xs"
  by (induction xs) simp_all

lemma bytes_of_part: "bytes_of (pre @ map Some bs @ post) (length pre) (length bs) = Some bs"
  by (simp add: bytes_of_def)

lemma read_member_slots:
  "M = pre @ names_mem (map fst ms) @ post \<Longrightarrow> off = length pre \<Longrightarrow>
    map (read_slot M g) (member_slots off ms) = map (\<lambda>(n, c). map_option (Pair n) (g c)) ms"
proof (induction off ms arbitrary: pre rule: member_slots.induct)
  case (2 off n c ms)
  have "bytes_of M off (length n) = Some n" using bytes_of_part [of pre n] 2(2,3) by simp
  then have h: "read_slot M g (Some (off, length n), Some c) = map_option (Pair n) (g c)"
    by (simp add: read_slot_def map_option_case split: option.splits)
  have "M = (pre @ map Some n @ [Some 0]) @ names_mem (map fst ms) @ post" "off + length n + 1 = length (pre @ map Some n @ [Some 0])"
    using 2(2,3) by simp_all
  from 2(1) [OF this] h show ?case by simp
qed simp

lemma those_Cons_Some: "f x = Some y \<Longrightarrow> those (map f xs) = Some ys \<Longrightarrow> those (map f (x # xs)) = Some (y # ys)"
  by simp

lemma json_tree_jnodes:
  "jsize v \<le> m \<Longrightarrow> length A = k \<Longrightarrow> json_tree m (A @ jnodes False k par v @ L) k = Some v"
  "jsizes vs \<le> m \<Longrightarrow> length A = k \<Longrightarrow> those (map (json_tree m (A @ jnodes_list False k p vs @ L)) (elem_ixs k vs)) = Some vs"
  "msizes kvs \<le> m \<Longrightarrow> length A = k \<Longrightarrow>
    those (map (\<lambda>(n, c). map_option (Pair n) (json_tree m (A @ jnodes_members False k p kvs @ L) c)) (members k kvs)) = Some kvs"
proof (induction False k par v and False k p vs and False k p kvs arbitrary: m A L and m A L and m A L
    rule: jnodes_jnodes_list_jnodes_members.induct)
  case (4 k par vs)
  obtain m' where m: "m = Suc m'" using 4(2) by (cases m) simp_all
  let ?n = "array_node False par (elem_ixs (k + 1) vs) (length vs)"
  let ?N = "A @ ?n # jnodes_list False (k + 1) k vs @ L"
  have "those (map (json_tree m' ((A @ [?n]) @ jnodes_list False (k + 1) k vs @ L)) (elem_ixs (k + 1) vs)) = Some vs"
    using 4(2,3) m by (intro 4(1)) simp_all
  moreover have "?N ! k = ?n" "\<not> length ?N \<le> k" using 4(3) by (simp_all add: nth_append)
  ultimately show ?case by (simp add: m array_node_def zero_jnode_def comp_def Let_def)
next
  case (5 k par kvs)
  obtain m' where m: "m = Suc m'" using 5(2) by (cases m) simp_all
  let ?n = "object_node False par (members (k + 1) kvs) None (length kvs) (names_size (map fst kvs))"
  let ?N = "A @ ?n # jnodes_members False (k + 1) k kvs @ L"
  have a: "those (map (\<lambda>(n, c). map_option (Pair n) (json_tree m' ((A @ [?n]) @ jnodes_members False (k + 1) k kvs @ L) c)) (members (k + 1) kvs)) = Some kvs"
    using 5(2,3) m by (intro 5(1)) simp_all
  have n: "?N ! k = ?n" "\<not> length ?N \<le> k" using 5(3) by (simp_all add: nth_append)
  have s: "jn_type ?n = type_object" "take (jn_length ?n) (jn_slots ?n) = member_slots 0 (members (k + 1) kvs)"
    "jn_mem ?n = [] @ names_mem (map fst (members (k + 1) kvs)) @ []"
    by (simp_all add: object_node_def zero_jnode_def Let_def)
  have "json_tree m ?N k = map_option json_object (those (map (read_slot (jn_mem ?n) (json_tree m' ?N)) (member_slots 0 (members (k + 1) kvs))))"
    using n s by (simp add: m Let_def read_slot_def [abs_def])
  also have "map (read_slot (jn_mem ?n) (json_tree m' ?N)) (member_slots 0 (members (k + 1) kvs))
      = map (\<lambda>(n, c). map_option (Pair n) (json_tree m' ?N c)) (members (k + 1) kvs)"
    by (rule read_member_slots [OF s(3)]) simp
  also have "map_option json_object (those \<dots>) = Some (json_object kvs)" using a by simp
  finally show ?case by simp
next
  case (10 k p v vs)
  have "json_tree m (A @ jnodes False k (Some p) v @ jnodes_list False (k + jsize v) p vs @ L) k = Some v"
    using 10(3,4) by (intro 10(1)) simp_all
  moreover have "those (map (json_tree m ((A @ jnodes False k (Some p) v) @ jnodes_list False (k + jsize v) p vs @ L)) (elem_ixs (k + jsize v) vs)) = Some vs"
    using 10(3,4) by (intro 10(2)) simp_all
  ultimately show ?case by simp
next
  case (12 k p n v kvs)
  have "json_tree m (A @ jnodes False k (Some p) v @ jnodes_members False (k + jsize v) p kvs @ L) k = Some v"
    using 12(3,4) by (intro 12(1)) simp_all
  moreover have "those (map (\<lambda>(n, c). map_option (Pair n) (json_tree m ((A @ jnodes False k (Some p) v) @ jnodes_members False (k + jsize v) p kvs @ L) c)) (members (k + jsize v) kvs)) = Some kvs"
    using 12(3,4) by (intro 12(2)) simp_all
  ultimately show ?case by simp
qed (case_tac [!] m, simp_all add: zero_jnode_def nth_append bytes_of_def)

end
