(* ===== verification/Json_Runs.thy ===== *)
theory Json_Runs
  imports Json_Text
begin

text \<open>
  Runs of the parser with the settings of \<open>json_parse\<close>: what a round does to the part of the state that matters, and
  the runs over white space, strings and finished values.
\<close>

section \<open>Rounds and runs\<close>

definition jstep :: "u8 list \<Rightarrow> 'z jst \<Rightarrow> 'z jst \<Rightarrow> bool" where
  "jstep json s t \<longleftrightarrow> (\<exists>u. json_round default_settings json s = Some (Continue u) \<and> t = u\<lparr>pos := pos u + 1\<rparr>)"

abbreviation jruns :: "u8 list \<Rightarrow> 'z jst \<Rightarrow> 'z jst \<Rightarrow> bool" where
  "jruns json \<equiv> (jstep json)\<^sup>*\<^sup>*"

lemma jruns_pass: "jruns json s t \<Longrightarrow> json_pass default_settings json s = json_pass default_settings json t"
proof (induction rule: converse_rtranclp_induct)
  case (step s u)
  then show ?case by (subst json_pass.simps) (auto simp: jstep_def)
qed simp

definition num_flags :: "json_flag set" where
  "num_flags = {flag_num_negative, flag_num_zero, flag_num_e, flag_num_e_got_sign, flag_num_e_negative, flag_num_got_decimal}"

text \<open>\<open>k\<close> values have been taken up.\<close>

definition jst_at :: "'z alloc_scheme \<Rightarrow> bool \<Rightarrow> nat \<Rightarrow> json_flag set \<Rightarrow> nat option \<Rightarrow> nat \<Rightarrow> jnode list \<Rightarrow> 'z jst \<Rightarrow> bool" where
  "jst_at h fp p F tp k N s \<longleftrightarrow> first_pass s = fp \<and> jheap s = h \<and> used_memory s = 0 \<and> pos s = int p \<and> flags s - num_flags = F
    \<and> top s = tp \<and> root s = (if k = 0 then None else Some 0)
    \<and> (\<not> fp \<longrightarrow> next_value s = (if k < length N then Some k else None)) \<and> nodes s = N"

lemma flags_at:
  assumes "jst_at h fp p F tp k N s"
  shows "flag_string \<in> flags s \<longleftrightarrow> flag_string \<in> F" "flag_done \<in> flags s \<longleftrightarrow> flag_done \<in> F"
    "flag_seek_value \<in> flags s \<longleftrightarrow> flag_seek_value \<in> F" "flag_need_comma \<in> flags s \<longleftrightarrow> flag_need_comma \<in> F"
    "flag_need_colon \<in> flags s \<longleftrightarrow> flag_need_colon \<in> F" "flag_next \<in> flags s \<longleftrightarrow> flag_next \<in> F"
    "flag_reproc \<in> flags s \<longleftrightarrow> flag_reproc \<in> F" "flag_escaped \<in> flags s \<longleftrightarrow> flag_escaped \<in> F"
  using assms by (auto simp: jst_at_def num_flags_def)

lemma num_flags_simps [simp]:
  "insert flag_string X - num_flags = insert flag_string (X - num_flags)" "insert flag_done X - num_flags = insert flag_done (X - num_flags)"
  "insert flag_seek_value X - num_flags = insert flag_seek_value (X - num_flags)"
  "insert flag_need_comma X - num_flags = insert flag_need_comma (X - num_flags)"
  "insert flag_need_colon X - num_flags = insert flag_need_colon (X - num_flags)"
  "insert flag_next X - num_flags = insert flag_next (X - num_flags)" "insert flag_reproc X - num_flags = insert flag_reproc (X - num_flags)"
  "insert flag_escaped X - num_flags = insert flag_escaped (X - num_flags)"
  "insert flag_num_negative X - num_flags = X - num_flags" "insert flag_num_zero X - num_flags = X - num_flags"
  by (auto simp: num_flags_def)

lemma num_flags_diff: "X - Y - num_flags = (X - num_flags) - Y"
  by auto

lemma peek_drop: "drop p json = b # r \<Longrightarrow> peek json (int p) = Some b"
proof -
  assume d: "drop p json = b # r"
  then have "p < length json" by (metis drop_eq_Nil list.distinct(1) not_less)
  moreover have "json ! p = b" using d calculation by (simp add: Cons_nth_drop_Suc [symmetric])
  ultimately show ?thesis by (simp add: peek_def)
qed

lemma drop_Suc_Cons: "drop p json = b # r \<Longrightarrow> drop (Suc p) json = r"
  by (metis drop_Suc list.sel(3) tl_drop)

lemma drop_append_at: "drop p json = x @ r \<Longrightarrow> drop (p + length x) json = r"
  by (metis add.commute append_eq_conv_conj drop_drop)

text \<open>The sections of a round.\<close>

lemma no_comments [simp]: "comment_section default_settings json b s = Some (Fall s)"
  by (simp add: comment_section_def default_settings_def)

lemma round_done:
  assumes "jst_at h fp p F tp k N s" and "peek json (int p) = Some b" and "flag_string \<notin> F" and "flag_done \<in> F"
  shows "json_round default_settings json s = jthen (Some (done_section b s))
     (\<lambda>s. jthen (if flag_seek_value \<in> flags s then value_section default_settings json b s else container_section b s) round_end)"
  using assms flags_at [OF assms(1)]
  by (simp add: jst_at_def json_round_def string_section_def jthen_def)

lemma round_seek:
  assumes "jst_at h fp p F tp k N s" and "peek json (int p) = Some b" and "flag_string \<notin> F" and "flag_done \<notin> F" and "flag_seek_value \<in> F"
  shows "json_round default_settings json s = jthen (value_section default_settings json b s) round_end"
  using assms flags_at [OF assms(1)]
  by (simp add: jst_at_def json_round_def string_section_def done_section_def jthen_def)

lemma round_container:
  assumes "jst_at h fp p F tp k N s" and "peek json (int p) = Some b" and "flag_string \<notin> F" and "flag_done \<notin> F" and "flag_seek_value \<notin> F"
  shows "json_round default_settings json s = jthen (container_section b s) round_end"
  using assms flags_at [OF assms(1)]
  by (simp add: jst_at_def json_round_def string_section_def done_section_def jthen_def)

lemma jthen_simps [simp]:
  "jthen (Some (Continue s)) f = Some (Continue s)" "jthen (Some (Fall s)) f = f s" "jthen (Some (Fail e s)) f = Some (Fail e s)"
  "jthen (Some (Stop s)) f = Some (Stop s)" "jthen None f = None"
  by (simp_all add: jthen_def)

lemma jstepI: "json_round default_settings json s = Some (Continue u) \<Longrightarrow> jst_at h fp p F tp k N (u\<lparr>pos := pos u + 1\<rparr>) \<Longrightarrow>
    \<exists>s'. jruns json s s' \<and> jst_at h fp p F tp k N s'"
  by (rule exI [of _ "u\<lparr>pos := pos u + 1\<rparr>"]) (auto simp: jstep_def intro!: r_into_rtranclp)

section \<open>White space\<close>

definition object_top :: "nat option \<Rightarrow> jnode list \<Rightarrow> bool" where
  "object_top tp N \<longleftrightarrow> (\<exists>j. tp = Some j \<and> j < length N \<and> jn_type (N ! j) = type_object)"

lemma skip_white_at: "jst_at h fp p F tp k N s \<Longrightarrow> \<exists>u. skip_white b s = Continue u \<and> jst_at h fp (Suc p) F tp k N (u\<lparr>pos := pos u + 1\<rparr>)"
  by (simp add: skip_white_def jst_at_def)

lemma white_step:
  assumes s: "jst_at h fp p F tp k N s" and d: "drop p json = b # r" and w: "whitespace b" and f: "flag_string \<notin> F"
    and c: "flag_done \<in> F \<or> flag_seek_value \<in> F \<or> object_top tp N"
  shows "\<exists>s'. jruns json s s' \<and> jst_at h fp (Suc p) F tp k N s'"
proof -
  have b: "b \<noteq> 0" using w by (auto simp: whitespace_def)
  obtain u where u: "skip_white b s = Continue u" "jst_at h fp (Suc p) F tp k N (u\<lparr>pos := pos u + 1\<rparr>)"
    using skip_white_at [OF s] by blast
  note pk = peek_drop [OF d]
  have "json_round default_settings json s = Some (Continue u)"
  proof (cases "flag_done \<in> F")
    case True
    then show ?thesis using round_done [OF s pk f True] flags_at [OF s] u w b by (simp add: done_section_def)
  next
    case nd: False
    show ?thesis
    proof (cases "flag_seek_value \<in> F")
      case True
      then show ?thesis using round_seek [OF s pk f nd True] u w by (simp add: value_section_def)
    next
      case False
      then have "object_top tp N" using c nd by simp
      then have "container_section b s = Some (skip_white b s)"
        using w s by (auto simp: object_top_def container_section_def top_node_def jst_at_def object_section_def)
      then show ?thesis using round_container [OF s pk f nd False] u by simp
    qed
  qed
  then show ?thesis using u(2) by (rule jstepI)
qed

lemma white_runs:
  assumes "ws w" and "jst_at h fp p F tp k N s" and "drop p json = w @ r" and "flag_string \<notin> F"
    and "flag_done \<in> F \<or> flag_seek_value \<in> F \<or> object_top tp N"
  shows "\<exists>s'. jruns json s s' \<and> jst_at h fp (p + length w) F tp k N s'"
  using assms
proof (induction w arbitrary: p s)
  case (Cons b w)
  have "drop p json = b # (w @ r)" using Cons.prems(3) by simp
  from white_step [OF Cons.prems(2) this _ Cons.prems(4,5)] Cons.prems(1)
  obtain s1 where s1: "jruns json s s1" "jst_at h fp (Suc p) F tp k N s1" by (auto simp: ws_def)
  have "ws w" "drop (Suc p) json = w @ r" using Cons.prems(1,3) by (auto simp: ws_def intro: drop_Suc_Cons)
  from Cons.IH [OF this(1) s1(2) this(2) Cons.prems(4,5)] s1(1) show ?case by (auto intro: rtranclp_trans)
qed auto

section \<open>Finished values\<close>

definition parent_ok :: "bool \<Rightarrow> nat option \<Rightarrow> jnode list \<Rightarrow> bool" where
  "parent_ok fp par N \<longleftrightarrow> (case par of None \<Rightarrow> True | Some p \<Rightarrow> p < length N \<and> jn_type (N ! p) \<in> {type_array, type_object}
     \<and> (fp \<or> jn_length (N ! p) < length (jn_slots (N ! p))) \<and> jn_length (N ! p) < 2 ^ 31)"

definition close :: "bool \<Rightarrow> nat option \<Rightarrow> nat \<Rightarrow> jnode list \<Rightarrow> jnode list" where
  "close fp par c N = (case par of None \<Rightarrow> N | Some p \<Rightarrow> N[p := (N ! p)\<lparr>
     jn_slots := (if fp then jn_slots (N ! p) else (jn_slots (N ! p))[jn_length (N ! p) := (fst (jn_slots (N ! p) ! jn_length (N ! p)), Some c)]),
     jn_length := jn_length (N ! p) + 1\<rparr>])"

definition after_value :: "nat option \<Rightarrow> jnode list \<Rightarrow> json_flag set" where
  "after_value par N = (case par of None \<Rightarrow> {flag_need_comma, flag_done}
     | Some p \<Rightarrow> if jn_type (N ! p) = type_array then {flag_need_comma, flag_seek_value} else {flag_need_comma})"

text \<open>The root stays at the top.\<close>

definition after_top :: "nat option \<Rightarrow> nat \<Rightarrow> nat option" where
  "after_top par c = (case par of None \<Rightarrow> Some c | Some p \<Rightarrow> Some p)"

lemma value_done_at:
  assumes s: "jst_at h fp p F (Some c) k N s" and F: "F = {flag_next}"
    and c: "c < length N" "jn_parent (N ! c) = par" and par: "parent_ok fp par N"
  shows "\<exists>u. value_done s = Some (Continue u) \<and> jst_at h fp p (after_value par N) (after_top par c) k (close fp par c N) u"
proof (cases par)
  case None
  let ?u = "s\<lparr>flags := insert flag_done (insert flag_need_comma (flags s - {flag_next}))\<rparr>"
  have "value_done s = Some (Continue ?u)"
    using s c None by (simp add: jst_at_def value_done_def top_node_def Let_def)
  moreover have "flags ?u - num_flags = {flag_need_comma, flag_done}"
    using s F by (auto simp: jst_at_def num_flags_diff)
  then have "jst_at h fp p (after_value par N) (after_top par c) k (close fp par c N) ?u"
    using s None by (simp add: jst_at_def close_def after_value_def after_top_def)
  ultimately show ?thesis by blast
next
  case (Some q)
  then have q: "q < length N" "jn_length (N ! q) < 2 ^ 31" "fp \<or> jn_length (N ! q) < length (jn_slots (N ! q))"
    using par by (simp_all add: parent_ok_def)
  have l: "\<not> jn_length (N ! q) + 1 > 2 ^ 32 - 1 - 8" using q(2) by simp
  have tn: "top s = Some c" "nodes s = N" "first_pass s = fp" using s by (simp_all add: jst_at_def)
  let ?F = "insert flag_need_comma (flags s - {flag_next})"
  let ?u = "s\<lparr>flags := (if jn_type (N ! q) = type_array then insert flag_seek_value ?F else ?F), nodes := close fp par c N, top := Some q\<rparr>"
  have "value_done s = Some (Continue ?u)"
    using c q l tn Some by (cases fp) (simp_all add: value_done_def top_node_def Let_def upd_node_def close_def)
  moreover have "flags ?u - num_flags = after_value par N"
    using s F Some by (auto simp: jst_at_def num_flags_diff after_value_def)
  then have "jst_at h fp p (after_value par N) (after_top par c) k (close fp par c N) ?u"
    using s Some by (simp add: jst_at_def close_def after_top_def)
  ultimately show ?thesis by blast
qed

lemma round_end_value:
  assumes s: "jst_at h fp p F (Some c) k N s" and F: "F = (if r then {flag_next, flag_reproc} else {flag_next})" and p: "r \<Longrightarrow> 0 < p"
    and c: "c < length N" "jn_parent (N ! c) = par" and par: "parent_ok fp par N"
  shows "\<exists>u. round_end s = Some (Continue u)
    \<and> jst_at h fp (if r then p else Suc p) (after_value par N) (after_top par c) k (close fp par c N) (u\<lparr>pos := pos u + 1\<rparr>)"
proof -
  let ?s = "if r then s\<lparr>flags := flags s - {flag_reproc}, pos := pos s - 1\<rparr> else s"
  have "jst_at h fp (if r then p - 1 else p) {flag_next} (Some c) k N ?s"
    using s F p by (cases p) (auto simp: jst_at_def num_flags_diff)
  from value_done_at [OF this refl c par] obtain u where
    u: "value_done ?s = Some (Continue u)" "jst_at h fp (if r then p - 1 else p) (after_value par N) (after_top par c) k (close fp par c N) u" by blast
  have "round_end s = value_done ?s"
    using F flags_at [OF s] by (simp add: round_end_def Let_def)
  with u p show ?thesis by (auto simp: jst_at_def)
qed

section \<open>Values that are taken up\<close>

text \<open>What the second pass makes of a value that the first one has counted.\<close>

definition ready :: "jnode \<Rightarrow> jnode" where
  "ready n = (case jn_type n of
     type_array \<Rightarrow> n\<lparr>jn_slots := replicate (jn_length n) (None, None), jn_length := 0\<rparr>
   | type_object \<Rightarrow> n\<lparr>jn_slots := replicate (jn_length n) (None, None), jn_mem := replicate (jn_names n) None, jn_object_mem := 0, jn_length := 0\<rparr>
   | type_string \<Rightarrow> n\<lparr>jn_mem := replicate (jn_length n + 1) None, jn_length := 0\<rparr>
   | _ \<Rightarrow> n)"

text \<open>Small enough to be allocated, and without contents as the first pass leaves it.\<close>

definition counted :: "jnode \<Rightarrow> bool" where
  "counted n \<longleftrightarrow> jn_length n < 2 ^ 32 \<and> jn_names n < 2 ^ 32 \<and> jn_slots n = [] \<and> jn_object_mem n = 0
    \<and> (jn_length n = 0 \<and> jn_type n = type_object \<longrightarrow> jn_names n = 0 \<and> jn_mem n = [])"

lemma json_alloc_at:
  assumes "jst_at h fp p F tp k N s" and "avail h = None" and "n < 2 ^ 60"
  shows "json_alloc default_settings (of_nat n) s = (True, s)"
proof -
  have "unat (of_nat n :: u64) = n" using assms(3) by (intro unat_of_nat_u64) simp
  then have "\<not> - 1 - 8 - 0 < (of_nat n :: u64)" using assms(3) by (simp add: word_less_nat_alt)
  then show ?thesis using assms(1,2) by (simp add: json_alloc_def jst_at_def default_settings_def Let_def)
qed

text \<open>The list after a value of type \<open>t\<close> was taken up, as the value \<open>k\<close>.\<close>

definition start_nodes :: "bool \<Rightarrow> nat \<Rightarrow> json_type \<Rightarrow> nat option \<Rightarrow> jnode list \<Rightarrow> jnode list" where
  "start_nodes fp k t tp N = (if fp then N @ [zero_jnode t tp] else N[k := ready (N ! k)])"

lemma new_value_at:
  assumes s: "jst_at h fp p F tp k N s" and h: "avail h = None"
    and k: "if fp then k = length N else k < length N \<and> counted (N ! k)"
  shows "\<exists>u. new_value default_settings t s = Some (True, u) \<and> jst_at h fp p F (Some k) (Suc k) (start_nodes fp k t tp N) u"
proof (cases fp)
  case True
  have "json_alloc default_settings (of_nat 40) s = (True, s)" by (rule json_alloc_at [OF s h]) simp
  moreover have "value_extra default_settings = 0" by (simp add: default_settings_def)
  ultimately show ?thesis using True k s by (simp add: new_value_def jst_at_def start_nodes_def Let_def)
next
  case False
  let ?s = "s\<lparr>top := Some k, next_value := (if k + 1 < length N then Some (k + 1) else None), root := Some 0\<rparr>"
  have n: "nodes s = N" "first_pass s = False" "next_value s = Some k" using s False k by (simp_all add: jst_at_def)
  have at: "jst_at h fp p F (Some k) (Suc k) N ?s" using s False k by (simp add: jst_at_def)
  have r: "(if root s = None then Some k else root s) = Some 0" using s by (simp add: jst_at_def)
  let ?n = "N ! k"
  have a1: "json_alloc default_settings (of_nat (jn_length ?n * 8)) ?s = (True, ?s)"
    using k False by (intro json_alloc_at [OF at h]) (simp add: counted_def)
  have a2: "json_alloc default_settings (of_nat (24 * jn_length ?n + jn_names ?n)) ?s = (True, ?s)"
    using k False by (intro json_alloc_at [OF at h]) (simp add: counted_def)
  have a3: "json_alloc default_settings (of_nat (jn_length ?n + 1)) ?s = (True, ?s)"
    using k False by (intro json_alloc_at [OF at h]) (simp add: counted_def)
  have "fill_node default_settings k ?s = Some (True, ?s\<lparr>nodes := N[k := ready ?n]\<rparr>)"
  proof (cases "jn_type ?n")
    case type_object
    have "N[k := ?n] = N" by (rule list_update_id)
    moreover have "jn_length ?n = 0 \<Longrightarrow> ready ?n = ?n" using type_object k False
      by (auto simp: ready_def counted_def intro!: jnode.equality)
    ultimately show ?thesis using type_object n k False a2 by (simp add: fill_node_def ready_def upd_node_def Let_def)
  next
    case type_array
    have "N[k := ?n] = N" by (rule list_update_id)
    moreover have "jn_length ?n = 0 \<Longrightarrow> ready ?n = ?n" using type_array k False
      by (auto simp: ready_def counted_def intro!: jnode.equality)
    ultimately show ?thesis using type_array n k False a1 by (simp add: fill_node_def ready_def upd_node_def Let_def)
  next
    case type_string
    then show ?thesis using n k False a3 by (simp add: fill_node_def ready_def upd_node_def Let_def)
  qed (use n k False in \<open>simp_all add: fill_node_def ready_def upd_node_def Let_def\<close>)
  then have "new_value default_settings t s = Some (True, ?s\<lparr>nodes := N[k := ready ?n]\<rparr>)"
    using n k False r by (simp add: new_value_def)
  moreover have "jst_at h fp p F (Some k) (Suc k) (start_nodes fp k t tp N) (?s\<lparr>nodes := N[k := ready ?n]\<rparr>)"
    using at False by (simp add: jst_at_def start_nodes_def)
  ultimately show ?thesis by blast
qed

end
