(* ===== verification/Json_Strings.thy ===== *)
theory Json_Strings
  imports Json_Runs
begin

text \<open>
  Runs over the start of a value and over strings.
\<close>

section \<open>Starting a value\<close>

lemma value_start_at:
  assumes s: "jst_at h fp p {flag_seek_value} tp k N s" and d: "drop p json = b # r" and b: "\<not> whitespace b" "b \<noteq> 0x5D"
  shows "json_round default_settings json s = jthen (value_start default_settings json b (s\<lparr>flags := flags s - {flag_seek_value}\<rparr>)) round_end"
    and "jst_at h fp p {} tp k N (s\<lparr>flags := flags s - {flag_seek_value}\<rparr>)"
proof -
  have "json_round default_settings json s = jthen (value_section default_settings json b s) round_end"
    by (rule round_seek [OF s peek_drop [OF d]]) simp_all
  then show "json_round default_settings json s = jthen (value_start default_settings json b (s\<lparr>flags := flags s - {flag_seek_value}\<rparr>)) round_end"
    using b flags_at [OF s] by (simp add: value_section_def)
  show "jst_at h fp p {} tp k N (s\<lparr>flags := flags s - {flag_seek_value}\<rparr>)"
    using s by (simp add: jst_at_def num_flags_diff)
qed

lemma start_value_at:
  assumes s: "jst_at h fp p F tp k N s" and h: "avail h = None"
    and k: "if fp then k = length N else k < length N \<and> counted (N ! k)"
  shows "\<exists>u. start_value default_settings t f s = f u \<and> jst_at h fp p F (Some k) (Suc k) (start_nodes fp k t tp N) u"
  using new_value_at [OF assms, of t] by (auto simp: start_value_def)

text \<open>An object or an array: the brace and the bracket.\<close>

lemma open_runs:
  assumes s: "jst_at h fp p {flag_seek_value} tp k N s" and h: "avail h = None"
    and k: "if fp then k = length N else k < length N \<and> counted (N ! k)"
    and d: "drop p json = (if arr then 0x5B else 0x7B) # r"
  shows "\<exists>s'. jruns json s s' \<and> jst_at h fp (Suc p) (if arr then {flag_seek_value} else {}) (Some k) (Suc k)
    (start_nodes fp k (if arr then type_array else type_object) tp N) s'"
proof -
  let ?b = "(if arr then 0x5B else 0x7B) :: u8"
  note v = value_start_at [OF s d]
  have b: "\<not> whitespace ?b" "?b \<noteq> 0x5D" by (auto simp: whitespace_def)
  show ?thesis
  proof (cases arr)
    case True
    obtain u where "start_value default_settings type_array (\<lambda>s. Some (Continue (s\<lparr>flags := insert flag_seek_value (flags s)\<rparr>))) (s\<lparr>flags := flags s - {flag_seek_value}\<rparr>)
        = Some (Continue (u\<lparr>flags := insert flag_seek_value (flags u)\<rparr>))"
      and u: "jst_at h fp p {} (Some k) (Suc k) (start_nodes fp k type_array tp N) u"
      using start_value_at [OF v(2) h k] b by blast
    then have "json_round default_settings json s = Some (Continue (u\<lparr>flags := insert flag_seek_value (flags u)\<rparr>))"
      using v(1) b True by (simp add: value_start_def)
    then show ?thesis by (rule jstepI) (use u True in \<open>auto simp: jst_at_def\<close>)
  next
    case False
    obtain u where "start_value default_settings type_object (\<lambda>s. Some (Continue s)) (s\<lparr>flags := flags s - {flag_seek_value}\<rparr>)
        = Some (Continue u)"
      and u: "jst_at h fp p {} (Some k) (Suc k) (start_nodes fp k type_object tp N) u"
      using start_value_at [OF v(2) h k] b by blast
    then have "json_round default_settings json s = Some (Continue u)"
      using v(1) b False by (simp add: value_start_def)
    then show ?thesis by (rule jstepI) (use u False in \<open>simp add: jst_at_def\<close>)
  qed
qed

section \<open>The bytes of a string\<close>

text \<open>The bytes that the second pass has stored from an offset on.\<close>

definition stored :: "bool \<Rightarrow> nat \<Rightarrow> nat \<Rightarrow> u8 list \<Rightarrow> jnode list \<Rightarrow> jnode list" where
  "stored fp j off bs N = (if fp then N else N[j := (N ! j)\<lparr>jn_mem := take off (jn_mem (N ! j)) @ map Some bs @ drop (off + length bs) (jn_mem (N ! j))\<rparr>])"

definition room :: "bool \<Rightarrow> nat \<Rightarrow> nat \<Rightarrow> jnode list \<Rightarrow> bool" where
  "room fp j n N \<longleftrightarrow> fp \<or> j < length N \<and> n \<le> length (jn_mem (N ! j))"

lemma stored_nil [simp]: "stored fp j off [] N = N"
  by (simp add: stored_def)

lemma length_stored [simp]: "length (stored fp j off bs N) = length N"
  by (simp add: stored_def)

lemma room_stored: "room fp j n N \<Longrightarrow> off + length bs \<le> n \<Longrightarrow> room fp j n (stored fp j off bs N)"
  by (auto simp: room_def stored_def)

lemma stored_stored:
  assumes "room fp j (off + length bs + length cs) N"
  shows "stored fp j (off + length bs) cs (stored fp j off bs N) = stored fp j off (bs @ cs) N"
proof (cases fp)
  case False
  let ?m = "jn_mem (N ! j)"
  have "j < length N" "off + length bs + length cs \<le> length ?m" using assms False by (simp_all add: room_def)
  then show ?thesis using False by (simp add: stored_def add.commute add.left_commute)
qed (simp add: stored_def)

definition str_at :: "'z alloc_scheme \<Rightarrow> bool \<Rightarrow> nat \<Rightarrow> json_flag set \<Rightarrow> nat \<Rightarrow> jnode list \<Rightarrow> nat \<Rightarrow> nat \<Rightarrow> nat \<Rightarrow> 'z jst \<Rightarrow> bool" where
  "str_at h fp p F k N j off m s \<longleftrightarrow> jst_at h fp p F (Some j) k N s \<and> str_to s = Some (j, off) \<and> string_length s = m"

lemma string_adds:
  assumes "str_at h fp p F k N j off m s" and "room fp j (off + m + length bs) N"
  shows "\<exists>u. foldM string_add bs s = Some u \<and> str_at h fp p F k (stored fp j (off + m) bs N) j off (m + length bs) u"
  using assms
proof (induction bs arbitrary: s m N)
  case (Cons b bs)
  have j: "fp \<or> j < length N \<and> off + m < length (jn_mem (N ! j))" using Cons.prems(2) by (auto simp: room_def)
  have n: "nodes s = N" "first_pass s = fp" "str_to s = Some (j, off)" "string_length s = m"
    using Cons.prems(1) by (simp_all add: str_at_def jst_at_def)
  have m: "off + m < length xs \<Longrightarrow> take (off + m) xs @ [Some b] @ drop (off + m + 1) xs = xs[off + m := Some b]" for xs :: mem
    by (simp add: upd_conv_take_nth_drop)
  let ?u = "s\<lparr>string_length := m + 1, nodes := stored fp j (off + m) [b] N\<rparr>"
  have "string_add b s = Some ?u"
    using n j m by (cases fp) (simp_all add: string_add_def put_char_def upd_node_def stored_def)
  moreover have u: "str_at h fp p F k (stored fp j (off + m) [b] N) j off (m + 1) ?u"
    using Cons.prems(1) by (simp add: str_at_def jst_at_def)
  have "room fp j (off + (m + 1) + length bs) (stored fp j (off + m) [b] N)" using Cons.prems(2) by (intro room_stored) simp_all
  from Cons.IH [OF u this] stored_stored [of fp j "off + m" "[b]" bs N] Cons.prems(2) calculation show ?case by (simp add: add.assoc)
qed auto

lemma string_add_at:
  assumes "str_at h fp p F k N j off m s" and "room fp j (off + m + 1) N"
  shows "\<exists>u. string_add b s = Some u \<and> str_at h fp p F k (stored fp j (off + m) [b] N) j off (m + 1) u"
  using string_adds [of h fp p F k N j off m s "[b]"] assms by (auto split: bind_splits)

lemma str_step:
  assumes s: "str_at h fp p F k N j off m s" and F: "flag_string \<in> F" and d: "drop p json = b # r" and b: "b \<noteq> 0" and m: "m < 2 ^ 31"
  shows "json_round default_settings json s = jthen (if flag_escaped \<in> F then
        (if b = 0x75 then unicode json (s\<lparr>flags := flags s - {flag_escaped}\<rparr>)
         else map_option Continue (string_add (escape_char b) (s\<lparr>flags := flags s - {flag_escaped}\<rparr>)))
      else if b = 0x5C then Some (Continue (s\<lparr>flags := insert flag_escaped (flags s)\<rparr>))
      else if b = 0x22 then string_end s else map_option Continue (string_add b s)) (\<lambda>s. jthen (Some (done_section b s)) (\<lambda>s.
     jthen (if flag_seek_value \<in> flags s then value_section default_settings json b s else container_section b s) round_end))"
proof -
  have at: "jst_at h fp p F (Some j) k N s" and l: "string_length s = m" using s by (simp_all add: str_at_def)
  have "\<not> string_length s > 2 ^ 32 - 1 - 8" using m l by simp
  moreover have "peek json (pos s) = Some b" using peek_drop [OF d] at by (simp add: jst_at_def)
  ultimately show ?thesis
    using F b flags_at [OF at] by (simp add: json_round_def string_section_def Let_def)
qed

lemma str_jst: "str_at h fp p F k N j off m s \<Longrightarrow> jst_at h fp p F (Some j) k N s"
  by (simp add: str_at_def)

lemma str_stepI: "json_round default_settings json s = Some (Continue u) \<Longrightarrow> str_at h fp p F k N j off m (u\<lparr>pos := pos u + 1\<rparr>) \<Longrightarrow>
    \<exists>s'. jruns json s s' \<and> str_at h fp p F k N j off m s'"
  by (rule exI [of _ "u\<lparr>pos := pos u + 1\<rparr>"]) (auto simp: jstep_def intro!: r_into_rtranclp)

lemma str_pos: "str_at h fp p F k N j off m u \<Longrightarrow> str_at h fp (Suc p) F k N j off m (u\<lparr>pos := pos u + 1\<rparr>)"
  by (simp add: str_at_def jst_at_def)

lemma plain_run:
  assumes s: "str_at h fp p {flag_string} k N j off m s" and d: "drop p json = b # r" and b: "b \<noteq> 0" "b \<noteq> 0x22" "b \<noteq> 0x5C"
    and m: "m < 2 ^ 31" and r: "room fp j (off + m + 1) N"
  shows "\<exists>s'. jruns json s s' \<and> str_at h fp (Suc p) {flag_string} k (stored fp j (off + m) [b] N) j off (m + 1) s'"
proof -
  obtain u where "string_add b s = Some u" and u: "str_at h fp p {flag_string} k (stored fp j (off + m) [b] N) j off (m + 1) u"
    using string_add_at [OF s r] by blast
  then have "json_round default_settings json s = Some (Continue u)"
    using str_step [OF s _ d b(1) m] b by simp
  then show ?thesis by (rule str_stepI) (rule str_pos [OF u])
qed

text \<open>The backslash.\<close>

lemma backslash_run:
  assumes s: "str_at h fp p {flag_string} k N j off m s" and d: "drop p json = 0x5C # r" and m: "m < 2 ^ 31"
  shows "\<exists>s'. jruns json s s' \<and> str_at h fp (Suc p) {flag_string, flag_escaped} k N j off m s'"
proof -
  have "json_round default_settings json s = Some (Continue (s\<lparr>flags := insert flag_escaped (flags s)\<rparr>))"
    using str_step [OF s _ d _ m] by simp
  then show ?thesis by (rule str_stepI) (use s in \<open>auto simp: str_at_def jst_at_def\<close>)
qed

lemma unescape: "str_at h fp p {flag_string, flag_escaped} k N j off m s \<Longrightarrow>
    str_at h fp p {flag_string} k N j off m (s\<lparr>flags := flags s - {flag_escaped}\<rparr>)"
  by (auto simp: str_at_def jst_at_def num_flags_diff)

lemma escape_run:
  assumes s: "str_at h fp p {flag_string} k N j off m s" and d: "drop p json = 0x5C # b # r" and b: "b \<noteq> 0" "b \<noteq> 0x75"
    and m: "m < 2 ^ 31" and r: "room fp j (off + m + 1) N"
  shows "\<exists>s'. jruns json s s' \<and> str_at h fp (p + 2) {flag_string} k (stored fp j (off + m) [escape_char b] N) j off (m + 1) s'"
proof -
  from backslash_run [OF s d m] obtain s1 where s1: "jruns json s s1" "str_at h fp (Suc p) {flag_string, flag_escaped} k N j off m s1" by blast
  obtain u where "string_add (escape_char b) (s1\<lparr>flags := flags s1 - {flag_escaped}\<rparr>) = Some u"
    and u: "str_at h fp (Suc p) {flag_string} k (stored fp j (off + m) [escape_char b] N) j off (m + 1) u"
    using string_add_at [OF unescape [OF s1(2)] r] by blast
  then have "json_round default_settings json s1 = Some (Continue u)"
    using str_step [OF s1(2) _ drop_Suc_Cons [OF d] b(1) m] b by simp
  from str_stepI [OF this str_pos [OF u]] s1(1) show ?thesis by (auto intro: rtranclp_trans)
qed

lemma unicode_run:
  assumes s: "str_at h fp p {flag_string} k N j off m s" and d: "drop p json = 0x5C # 0x75 # ds @ q # r" and ds: "length ds = 4"
    and c: "hex4 ds = Some c" "c AND 0xF800 \<noteq> 0xD800" and m: "m < 2 ^ 31" and r: "room fp j (off + m + length (utf8 c)) N"
  shows "\<exists>s'. jruns json s s' \<and> str_at h fp (p + 6) {flag_string} k (stored fp j (off + m) (utf8 c) N) j off (m + length (utf8 c)) s'"
proof -
  from backslash_run [OF s d m] obtain s1 where s1: "jruns json s s1" "str_at h fp (Suc p) {flag_string, flag_escaped} k N j off m s1" by blast
  let ?s = "s1\<lparr>flags := flags s1 - {flag_escaped}\<rparr>"
  have d1: "drop (Suc p) json = 0x75 # ds @ q # r" by (rule drop_Suc_Cons [OF d])
  then have d2: "drop (p + 2) json = ds @ q # r" by (simp add: drop_Suc_Cons)
  have "length json - (p + 2) = 5 + length r" using arg_cong [OF d2, of length] ds by simp
  then have left: "\<not> int (length json) - int (Suc p) \<le> 4" by linarith
  have ps: "pos ?s = int (Suc p)" using s1(2) by (simp add: str_at_def jst_at_def)
  have "nat (pos ?s) + 1 = p + 2" using ps by simp
  then have hx: "hex4 (drop (nat (pos ?s) + 1) json) = Some c" using c(1) ds by (simp only: d2) (simp add: hex4_def)
  have "str_at h fp (p + 5) {flag_string} k N j off m (?s\<lparr>pos := pos ?s + 4\<rparr>)"
    using unescape [OF s1(2)] by (simp add: str_at_def jst_at_def)
  from string_adds [OF this r] obtain u where "foldM string_add (utf8 c) (?s\<lparr>pos := pos ?s + 4\<rparr>) = Some u"
    and u: "str_at h fp (p + 5) {flag_string} k (stored fp j (off + m) (utf8 c) N) j off (m + length (utf8 c)) u" by blast
  then have "unicode json ?s = Some (Continue u)" using left ps hx c(2) by (simp add: unicode_def Let_def)
  then have "json_round default_settings json s1 = Some (Continue u)"
    using str_step [OF s1(2) _ d1 _ m] by simp
  from str_stepI [OF this str_pos [OF u]] s1(1) show ?thesis by (auto simp: add.commute intro: rtranclp_trans)
qed

lemma length_utf8: "length (utf8 c) \<le> 4" "c \<le> 0xFFFF \<Longrightarrow> length (utf8 c) \<le> 3"
  by (auto simp: utf8_def)

lemma str_text_length: "str_text bs t \<Longrightarrow> length bs \<le> length t"
proof (induction rule: str_text.induct)
  case (st_unicode ds c bs t)
  then show ?case using length_utf8(1) [of c] by simp
qed simp_all

lemma str_runs:
  assumes "str_text bs t" and "str_at h fp p {flag_string} k N j off m s" and "drop p json = t @ q # r" and "m + length bs < 2 ^ 31"
    and "room fp j (off + m + length bs) N"
  shows "\<exists>s'. jruns json s s' \<and> str_at h fp (p + length t) {flag_string} k (stored fp j (off + m) bs N) j off (m + length bs) s'"
  using assms
proof (induction arbitrary: p s m N rule: str_text.induct)
  case st_nil
  then show ?case by auto
next
  case (st_plain b bs t)
  have d: "drop p json = b # (t @ q # r)" using st_plain.prems(2) by simp
  have r1: "room fp j (off + m + 1) N" using st_plain.prems(4) by (auto simp: room_def)
  from plain_run [OF st_plain.prems(1) d st_plain.hyps(1-3) _ r1] st_plain.prems(3) obtain s1 where
    s1: "jruns json s s1" "str_at h fp (Suc p) {flag_string} k (stored fp j (off + m) [b] N) j off (m + 1) s1" by auto
  have "room fp j (off + (m + 1) + length bs) (stored fp j (off + m) [b] N)" using st_plain.prems(4) by (intro room_stored) simp_all
  from st_plain.IH [OF s1(2) drop_Suc_Cons [OF d] _ this] st_plain.prems(3) s1(1) stored_stored [of fp j "off + m" "[b]" bs N] st_plain.prems(4)
  show ?case by (auto simp: add.assoc intro: rtranclp_trans)
next
  case (st_escape b bs t)
  have d: "drop p json = 0x5C # b # (t @ q # r)" using st_escape.prems(2) by simp
  have r1: "room fp j (off + m + 1) N" using st_escape.prems(4) by (auto simp: room_def)
  from escape_run [OF st_escape.prems(1) d st_escape.hyps(1,2) _ r1] st_escape.prems(3) obtain s1 where
    s1: "jruns json s s1" "str_at h fp (p + 2) {flag_string} k (stored fp j (off + m) [escape_char b] N) j off (m + 1) s1" by auto
  have "room fp j (off + (m + 1) + length bs) (stored fp j (off + m) [escape_char b] N)" using st_escape.prems(4) by (intro room_stored) simp_all
  moreover have "drop (p + 2) json = t @ q # r" using drop_Suc_Cons [OF drop_Suc_Cons [OF d]] by simp
  ultimately show ?case
    using st_escape.IH [OF s1(2)] st_escape.prems(3) s1(1) stored_stored [of fp j "off + m" "[escape_char b]" bs N] st_escape.prems(4)
    by (auto simp: add.assoc intro: rtranclp_trans)
next
  case (st_unicode ds c bs t)
  let ?u = "utf8 c"
  obtain q' r' where q': "t @ q # r = q' # r'" by (cases t) auto
  have d: "drop p json = 0x5C # 0x75 # ds @ q' # r'" using st_unicode.prems(2) q' by simp
  have r1: "room fp j (off + m + length ?u) N" using st_unicode.prems(4) by (auto simp: room_def)
  from unicode_run [OF st_unicode.prems(1) d st_unicode.hyps(1-3) _ r1] st_unicode.prems(3) obtain s1 where
    s1: "jruns json s s1" "str_at h fp (p + 6) {flag_string} k (stored fp j (off + m) ?u N) j off (m + length ?u) s1" by auto
  have "room fp j (off + (m + length ?u) + length bs) (stored fp j (off + m) ?u N)" using st_unicode.prems(4) by (intro room_stored) (simp_all add: add.assoc)
  moreover have "drop (p + 6) json = t @ q # r"
  proof -
    have "drop (Suc (Suc p)) json = ds @ q' # r'" by (rule drop_Suc_Cons [OF drop_Suc_Cons [OF d]])
    from arg_cong [OF this, of "drop 4"] show ?thesis using q' st_unicode.hyps(1) by (simp add: add.commute)
  qed
  ultimately show ?case
    using st_unicode.IH [OF s1(2)] st_unicode.prems(3) s1(1) stored_stored [of fp j "off + m" ?u bs N] st_unicode.prems(4) st_unicode.hyps(1)
    by (auto simp: add.assoc intro: rtranclp_trans)
qed

end
