(* ===== verification/Json_Values.thy ===== *)
theory Json_Values
  imports Json_Strings
begin

text \<open>
  Runs over whole strings, literals and numbers.
\<close>

section \<open>The parts of the list\<close>

definition before :: "bool \<Rightarrow> nat \<Rightarrow> nat option \<Rightarrow> json_value \<Rightarrow> jnode list \<Rightarrow> jnode list" where
  "before fp k par v L = (if fp then [] else jnodes True k par v @ L)"

definition rest :: "bool \<Rightarrow> jnode list \<Rightarrow> jnode list" where
  "rest fp L = (if fp then [] else L)"

lemma parent_ok_append: "parent_ok fp par A \<Longrightarrow> parent_ok fp par (A @ X)"
  by (auto simp: parent_ok_def nth_append split: option.splits)

lemma close_append: "parent_ok fp par A \<Longrightarrow> close fp par c (A @ X) = close fp par c A @ X"
  by (auto simp: parent_ok_def close_def nth_append list_update_append split: option.splits)

lemma after_value_append: "parent_ok fp par A \<Longrightarrow> after_value par (A @ X) = after_value par A"
  by (auto simp: parent_ok_def after_value_def nth_append split: option.splits)

lemmas parent_simps = parent_ok_append close_append after_value_append

lemma start_nodes_at:
  "fp \<Longrightarrow> start_nodes fp (length A) t par A = A @ [zero_jnode t par]"
  "\<not> fp \<Longrightarrow> start_nodes fp (length A) t par (A @ n # L) = A @ ready n # L"
  by (simp_all add: start_nodes_def)

text \<open>What follows a number.\<close>

definition follow :: "u8 list \<Rightarrow> bool" where
  "follow r \<longleftrightarrow> (\<forall>c\<in>set (take 1 r). \<not> num_char c)"

text \<open>The text of a value takes the state from its first byte to the byte behind it.\<close>

definition value_runs :: "'z itself \<Rightarrow> json_value \<Rightarrow> u8 list \<Rightarrow> bool" where
  "value_runs (_ :: 'z itself) v t \<longleftrightarrow> (\<forall>h :: 'z alloc_scheme. \<forall>fp json p r par A L s. avail h = None \<longrightarrow> length json < 2 ^ 31 \<longrightarrow>
     drop p json = t @ r \<longrightarrow> follow r \<longrightarrow> parent_ok fp par A \<longrightarrow>
     jst_at h fp p {flag_seek_value} par (length A) (A @ before fp (length A) par v L) s \<longrightarrow>
     (\<exists>s'. jruns json s s' \<and> jst_at h fp (p + length t) (after_value par A) (after_top par (length A)) (length A + jsize v)
       (close fp par (length A) A @ jnodes fp (length A) par v @ rest fp L) s'))"

lemma before_counted:
  assumes "N = A @ before fp (length A) par v L" and "\<not> fp \<Longrightarrow> \<exists>n X. jnodes True (length A) par v = n # X \<and> counted n"
  shows "if fp then length A = length N else length A < length N \<and> counted (N ! length A)"
  using assms by (auto simp: before_def)

section \<open>Strings as values\<close>

text \<open>The zero behind the bytes, which the second pass writes.\<close>

lemma put_zero:
  assumes s: "str_at h fp p F k N j off m s" and r: "room fp j (off + m + 1) N"
  shows "\<exists>u. (if first_pass s then Some s else put_char 0 s) = Some u \<and> str_at h fp p F k (stored fp j (off + m) [0] N) j off m u"
proof (cases fp)
  case True
  then show ?thesis using s by (simp add: stored_def str_at_def jst_at_def)
next
  case False
  then have n: "\<not> first_pass s" using s by (simp add: str_at_def jst_at_def)
  from string_add_at [OF s r, of 0] n obtain u where
    "put_char 0 s = Some u" "str_at h fp p F k (stored fp j (off + m) [0] N) j off (m + 1) (u\<lparr>string_length := string_length u + 1\<rparr>)"
    by (auto simp: string_add_def bind_eq_Some_conv)
  moreover from this have "str_at h fp p F k (stored fp j (off + m) [0] N) j off m u" by (simp add: str_at_def jst_at_def)
  ultimately show ?thesis using n by simp
qed

lemma string_value_end:
  assumes s: "str_at h fp p {flag_string} k N j off m s" and j: "j < length N" "jn_type (N ! j) = type_string" "jn_parent (N ! j) = par"
    and d: "drop p json = 0x22 # r" and r: "room fp j (off + m + 1) N" and m: "m < 2 ^ 31"
    and N': "N' = (stored fp j (off + m) [0] N)[j := (stored fp j (off + m) [0] N ! j)\<lparr>jn_length := m\<rparr>]" and par: "parent_ok fp par N'"
  shows "\<exists>s'. jruns json s s' \<and> jst_at h fp (Suc p) (after_value par N') (after_top par j) k (close fp par j N') s'"
proof -
  let ?M = "stored fp j (off + m) [0] N"
  have n: "first_pass s = fp" "str_to s = Some (j, off)" "string_length s = m" "nodes s = N" using s by (simp_all add: str_at_def jst_at_def)
  have M: "jn_type (?M ! j) = type_string" "jn_parent (?M ! j) = par" using j by (simp_all add: stored_def)
  obtain u where u: "(if first_pass s then Some s else put_char 0 s) = Some u" "str_at h fp p {flag_string} k ?M j off m u"
    using put_zero [OF s r] by blast
  let ?v = "u\<lparr>flags := insert flag_next (flags u - {flag_string}), str_to := None, nodes := N'\<rparr>"
  have un: "top u = Some j" "nodes u = ?M" "string_length u = m" using u(2) by (simp_all add: str_at_def jst_at_def)
  have e: "string_end s = Some (Fall ?v)"
    unfolding string_end_def u(1) using un M j by (simp add: top_node_def upd_node_def Let_def N')
  have v: "jst_at h fp p {flag_next} (Some j) k N' ?v"
    using u(2) by (auto simp: str_at_def jst_at_def num_flags_diff N')
  have N'j: "j < length N'" "jn_type (N' ! j) = type_string" "jn_parent (N' ! j) = par" using j M by (simp_all add: N')
  from round_end_value [OF v, of False, OF _ _ N'j(1,3) par] obtain w where
    w: "round_end ?v = Some (Continue w)" "jst_at h fp (Suc p) (after_value par N') (after_top par j) k (close fp par j N') (w\<lparr>pos := pos w + 1\<rparr>)"
    by auto
  have "container_section 0x22 ?v = Some (Fall ?v)"
    using v N'j by (simp add: container_section_def top_node_def jst_at_def)
  then have "json_round default_settings json s = Some (Continue w)"
    using str_step [OF s _ d _ m] e w(1) flags_at [OF v] by (simp add: done_section_def)
  then show ?thesis by (rule jstepI) (rule w(2))
qed

text \<open>The quote in front of a value.\<close>

lemma string_value_start:
  assumes s: "jst_at h fp p {flag_seek_value} tp k N s" and h: "avail h = None"
    and k: "if fp then k = length N else k < length N \<and> counted (N ! k)" and d: "drop p json = 0x22 # r"
  shows "\<exists>s'. jruns json s s' \<and> str_at h fp (Suc p) {flag_string} (Suc k) (start_nodes fp k type_string tp N) k 0 0 s'"
proof -
  have b: "\<not> whitespace 0x22" "(0x22 :: u8) \<noteq> 0x5D" by (auto simp: whitespace_def)
  note v = value_start_at [OF s d b]
  obtain u where "start_value default_settings type_string (\<lambda>s. Some (Continue (s\<lparr>flags := insert flag_string (flags s),
         str_to := map_option (\<lambda>k. (k, 0)) (top s), string_length := 0\<rparr>))) (s\<lparr>flags := flags s - {flag_seek_value}\<rparr>)
      = Some (Continue (u\<lparr>flags := insert flag_string (flags u), str_to := map_option (\<lambda>k. (k, 0)) (top u), string_length := 0\<rparr>))"
    and u: "jst_at h fp p {} (Some k) (Suc k) (start_nodes fp k type_string tp N) u"
    using start_value_at [OF v(2) h k] by blast
  then have "json_round default_settings json s
      = Some (Continue (u\<lparr>flags := insert flag_string (flags u), str_to := map_option (\<lambda>k. (k, 0)) (top u), string_length := 0\<rparr>))"
    using v(1) by (simp add: value_start_def)
  then show ?thesis by (rule str_stepI) (use u in \<open>auto simp: str_at_def jst_at_def\<close>)
qed

lemma string_value_runs:
  assumes "str_text bs t"
  shows "value_runs TYPE('z) (json_string bs) ([0x22] @ t @ [0x22])"
  unfolding value_runs_def
proof (intro allI impI)
  fix h :: "'z alloc_scheme" and fp json p r par A L s
  assume h: "avail h = None" and l: "length json < 2 ^ 31" and d: "drop p json = ([0x22] @ t @ [0x22]) @ r" and par: "parent_ok fp par A"
    and s: "jst_at h fp p {flag_seek_value} par (length A) (A @ before fp (length A) par (json_string bs) L) s"
  let ?k = "length A" and ?N = "A @ before fp (length A) par (json_string bs) L"
  have lb: "length bs < 2 ^ 31 - 1" using str_text_length [OF assms] arg_cong [OF d, of length] l by simp
  have k: "if fp then ?k = length ?N else ?k < length ?N \<and> counted (?N ! ?k)"
    by (rule before_counted [OF refl]) (use lb in \<open>simp add: counted_def zero_jnode_def\<close>)
  have d0: "drop p json = 0x22 # t @ 0x22 # r" using d by simp
  define n0 where "n0 = (zero_jnode type_string par)\<lparr>jn_mem := (if fp then [] else replicate (length bs + 1) None)\<rparr>"
  have N1: "start_nodes fp ?k type_string par ?N = A @ n0 # rest fp L"
    by (cases fp) (simp_all add: before_def rest_def n0_def start_nodes_at ready_def start_nodes_def zero_jnode_def)
  from string_value_start [OF s h k d0] obtain s1 where
    s1: "jruns json s s1" "str_at h fp (Suc p) {flag_string} (Suc ?k) (A @ n0 # rest fp L) ?k 0 0 s1" unfolding N1 by blast
  have r0: "room fp ?k (0 + 0 + length bs) (A @ n0 # rest fp L)" by (simp add: room_def n0_def)
  from str_runs [OF assms s1(2) drop_Suc_Cons [OF d0] _ r0] lb obtain s2 where
    s2: "jruns json s1 s2" "str_at h fp (Suc p + length t) {flag_string} (Suc ?k) (stored fp ?k 0 bs (A @ n0 # rest fp L)) ?k 0 (length bs) s2" by auto
  let ?M = "stored fp ?k 0 bs (A @ n0 # rest fp L)"
  have M: "?k < length ?M" "jn_type (?M ! ?k) = type_string" "jn_parent (?M ! ?k) = par"
    by (simp_all add: stored_def n0_def zero_jnode_def)
  have d2: "drop (Suc p + length t) json = 0x22 # r" by (rule drop_append_at [OF drop_Suc_Cons [OF d0]])
  have r2: "room fp ?k (0 + length bs + 1) ?M" by (simp add: room_def stored_def n0_def)
  let ?N' = "(stored fp ?k (0 + length bs) [0] ?M)[?k := (stored fp ?k (0 + length bs) [0] ?M ! ?k)\<lparr>jn_length := length bs\<rparr>]"
  have N': "?N' = A @ jnodes fp ?k par (json_string bs) @ rest fp L"
    by (cases fp) (simp_all add: stored_def n0_def zero_jnode_def)
  have "parent_ok fp par ?N'" unfolding N' by (rule parent_ok_append [OF par])
  from string_value_end [OF s2(2) M d2 r2 _ refl this] lb obtain s3 where
    s3: "jruns json s2 s3" "jst_at h fp (Suc (Suc p + length t)) (after_value par ?N') (after_top par ?k) (Suc ?k) (close fp par ?k ?N') s3" by auto
  show "\<exists>s'. jruns json s s' \<and> jst_at h fp (p + length ([0x22] @ t @ [0x22])) (after_value par A) (after_top par ?k) (?k + jsize (json_string bs))
       (close fp par ?k A @ jnodes fp ?k par (json_string bs) @ rest fp L) s'"
  proof -
    have "jruns json s s3" using s1(1) s2(1) s3(1) by (meson rtranclp_trans)
    with s3(2) show ?thesis unfolding N' by (auto simp: parent_simps [OF par])
  qed
qed

section \<open>Literals\<close>

lemma literal_runs:
  assumes v: "\<And>fp k par. jnodes fp k par v = [(zero_jnode ty par)\<lparr>jn_boolean := b\<rparr>]" "jsize v = 1" and ty: "ty \<in> {type_boolean, type_null}"
    and c: "\<And>json s. value_start default_settings json c s = literal default_settings json ty cs b (s :: 'z jst)" "\<not> whitespace c" "c \<noteq> 0x5D"
  shows "value_runs TYPE('z) v (c # cs)"
  unfolding value_runs_def
proof (intro allI impI)
  fix h :: "'z alloc_scheme" and fp json p r par A L s
  assume h: "avail h = None" and d: "drop p json = (c # cs) @ r" and par: "parent_ok fp par A"
    and s: "jst_at h fp p {flag_seek_value} par (length A) (A @ before fp (length A) par v L) s"
  let ?k = "length A" and ?N = "A @ before fp (length A) par v L" and ?n = "(zero_jnode ty par)\<lparr>jn_boolean := b\<rparr>"
  have k: "if fp then ?k = length ?N else ?k < length ?N \<and> counted (?N ! ?k)"
    by (rule before_counted [OF refl]) (use ty in \<open>auto simp: v counted_def zero_jnode_def\<close>)
  have d0: "drop p json = c # cs @ r" using d by simp
  note vs = value_start_at [OF s d0 c(2,3)]
  let ?s = "s\<lparr>flags := flags s - {flag_seek_value}\<rparr>"
  have at: "jst_at h fp (p + length cs) {} par ?k ?N (?s\<lparr>pos := pos ?s + int (length cs)\<rparr>)"
    using vs(2) by (simp add: jst_at_def)
  let ?f = "\<lambda>s :: 'z jst. do {
       k \<leftarrow> top s;
       s \<leftarrow> (if b then upd_node k (\<lambda>n. n\<lparr>jn_boolean := True\<rparr>) s else Some s);
       Some (Fall (s\<lparr>flags := insert flag_next (flags s)\<rparr>))
     }"
  from start_value_at [OF at h k, of ty ?f] obtain u where
    u: "start_value default_settings ty ?f (?s\<lparr>pos := pos ?s + int (length cs)\<rparr>) = ?f u"
      "jst_at h fp (p + length cs) {} (Some ?k) (Suc ?k) (start_nodes fp ?k ty par ?N) u" by blast
  have N: "(start_nodes fp ?k ty par ?N)[?k := (start_nodes fp ?k ty par ?N ! ?k)\<lparr>jn_boolean := b\<rparr>] = A @ ?n # rest fp L"
    "if b then True else start_nodes fp ?k ty par ?N = A @ ?n # rest fp L"
    "?k < length (start_nodes fp ?k ty par ?N)"
    using ty by (cases fp; auto simp: before_def rest_def start_nodes_def v ready_def zero_jnode_def)+
  let ?w = "u\<lparr>nodes := A @ ?n # rest fp L, flags := insert flag_next (flags u)\<rparr>"
  have f: "?f u = Some (Fall ?w)"
    using u(2) N by (cases b) (simp_all add: jst_at_def upd_node_def)
  have w: "jst_at h fp (p + length cs) {flag_next} (Some ?k) (Suc ?k) (A @ ?n # rest fp L) ?w"
    using u(2) arg_cong [OF N(1), of length] by (auto simp: jst_at_def)
  have A: "?k < length (A @ ?n # rest fp L)" "jn_parent ((A @ ?n # rest fp L) ! ?k) = par" by (simp_all add: zero_jnode_def)
  from round_end_value [OF w, of False, OF _ _ A parent_ok_append [OF par]] obtain x where
    x: "round_end ?w = Some (Continue x)" "jst_at h fp (Suc (p + length cs)) (after_value par A) (after_top par ?k) (Suc ?k)
        (close fp par ?k A @ ?n # rest fp L) (x\<lparr>pos := pos x + 1\<rparr>)"
    by (auto simp: parent_simps [OF par])
  have "int (length cs) < int (length json) - int p" using arg_cong [OF d0, of length] by simp
  moreover have "take (length cs) (drop (nat (int p) + 1) json) = cs" using drop_Suc_Cons [OF d0] by simp
  moreover have "pos ?s = int p" using vs(2) by (simp add: jst_at_def)
  ultimately have "literal default_settings json ty cs b ?s = Some (Fall ?w)"
    using u(1) f by (simp add: literal_def)
  then have "json_round default_settings json s = Some (Continue x)" using vs(1) x(1) c(1) by simp
  from jstepI [OF this x(2)] show "\<exists>s'. jruns json s s' \<and> jst_at h fp (p + length (c # cs)) (after_value par A) (after_top par ?k) (?k + jsize v)
       (close fp par ?k A @ jnodes fp ?k par v @ rest fp L) s'"
    by (simp add: v)
qed

lemma bool_null_runs:
  "value_runs TYPE('z) (json_boolean True) [0x74, 0x72, 0x75, 0x65]"
  "value_runs TYPE('z) (json_boolean False) [0x66, 0x61, 0x6C, 0x73, 0x65]"
  "value_runs TYPE('z) json_null [0x6E, 0x75, 0x6C, 0x6C]"
  by (rule literal_runs; simp add: value_start_def whitespace_def zero_jnode_def)+

section \<open>Numbers\<close>

definition num_node :: "nat option \<Rightarrow> int \<Rightarrow> jnode" where
  "num_node par a = (zero_jnode type_integer par)\<lparr>jn_integer := a\<rparr>"

lemma num_node_simps [simp]:
  "jn_type (num_node par a) = type_integer" "jn_parent (num_node par a) = par" "jn_integer (num_node par a) = a"
  "(num_node par a)\<lparr>jn_integer := b\<rparr> = num_node par b" "num_node par 0 = zero_jnode type_integer par"
  by (simp_all add: num_node_def zero_jnode_def)

text \<open>Inside a number, in the first pass: \<open>m\<close> digits make the value \<open>a\<close>.\<close>

definition num_at :: "'z alloc_scheme \<Rightarrow> nat \<Rightarrow> jnode list \<Rightarrow> nat option \<Rightarrow> int \<Rightarrow> nat \<Rightarrow> bool \<Rightarrow> bool \<Rightarrow> 'z jst \<Rightarrow> bool" where
  "num_at h p A par a m z neg s \<longleftrightarrow> jst_at h True p {} (Some (length A)) (Suc (length A)) (A @ [num_node par a]) s \<and> num_digits s = m
     \<and> flag_num_e \<notin> flags s \<and> (flag_num_zero \<in> flags s) = z \<and> (flag_num_negative \<in> flags s) = neg"

lemma num_round:
  assumes s: "num_at h p A par a m z neg s" and pk: "peek json (int p) = Some b"
  shows "json_round default_settings json s = jthen (number_section b s) round_end"
proof -
  have at: "jst_at h True p {} (Some (length A)) (Suc (length A)) (A @ [num_node par a]) s" using s by (simp add: num_at_def)
  then have "container_section b s = number_section b s"
    by (simp add: container_section_def top_node_def jst_at_def nth_append)
  then show ?thesis using round_container [OF at pk] by simp
qed

lemma would_overflow_iff: "isdigit d \<Longrightarrow> would_overflow a d \<longleftrightarrow> 2 ^ 63 - 1 < a * 10 + (uint d - 48)"
proof -
  have d: "y div 10 < a \<longleftrightarrow> y < a * 10" for y :: int by presburger
  show ?thesis unfolding would_overflow_def d by (rule iffI; linarith)
qed

lemma digit_run:
  assumes s: "num_at h p A par a m False neg s" and d: "drop p json = b # r" and b: "isdigit b" and m: "m + 1 < 2 ^ 31"
    and v: "a * 10 + (uint b - 48) < 2 ^ 63"
  shows "\<exists>s'. jruns json s s' \<and> num_at h (Suc p) A par (a * 10 + (uint b - 48)) (m + 1) (m = 0 \<and> b = 0x30) neg s'"
proof -
  have at: "jst_at h True p {} (Some (length A)) (Suc (length A)) (A @ [num_node par a]) s"
    and f: "num_digits s = m" "flag_num_e \<notin> flags s" "flag_num_zero \<notin> flags s" "(flag_num_negative \<in> flags s) = neg"
    using s by (simp_all add: num_at_def)
  have n: "top s = Some (length A)" "nodes s = A @ [num_node par a]" using at by (simp_all add: jst_at_def)
  let ?u = "s\<lparr>num_digits := m + 1, flags := (if m = 0 \<and> b = 0x30 then insert flag_num_zero (flags s) else flags s),
    nodes := A @ [num_node par (a * 10 + (uint b - 48))]\<rparr>"
  have "\<not> would_overflow a b" using would_overflow_iff [OF b] v by simp
  then have "number_section b s = Some (Continue ?u)"
    using b m f n by (simp add: number_section_def digit_def top_node_def upd_node_def Let_def)
  then have "json_round default_settings json s = Some (Continue ?u)" using num_round [OF s peek_drop [OF d]] by simp
  moreover have "num_at h (Suc p) A par (a * 10 + (uint b - 48)) (m + 1) (m = 0 \<and> b = 0x30) neg (?u\<lparr>pos := pos ?u + 1\<rparr>)"
    using at f by (auto simp: num_at_def jst_at_def num_flags_def)
  ultimately show ?thesis by (intro exI conjI) (auto simp: jstep_def intro!: r_into_rtranclp)
qed

lemma isdigit_bounds: "isdigit d \<Longrightarrow> 48 \<le> uint d \<and> uint d \<le> 57"
  by (simp add: isdigit_def word_le_def)

lemma fold_ge: "(\<And>d. d \<in> set ds \<Longrightarrow> 0 \<le> (f d :: int)) \<Longrightarrow> 0 \<le> a \<Longrightarrow> a \<le> foldl (\<lambda>a d. a * 10 + f d) a ds"
proof (induction ds arbitrary: a)
  case (Cons d ds)
  have "0 \<le> f d" using Cons.prems(1) by simp
  then have "a \<le> a * 10 + f d" "0 \<le> a * 10 + f d" using Cons.prems(2) by linarith+
  with Cons.IH [of "a * 10 + f d"] Cons.prems(1) show ?case by (simp del: mult_le_cancel_left mult_le_cancel_right)
qed simp

lemma num_fold_ge: "\<forall>d\<in>set ds. isdigit d \<Longrightarrow> 0 \<le> a \<Longrightarrow> a \<le> foldl (\<lambda>a d. a * 10 + (uint d - 48)) a ds"
  by (rule fold_ge) (use isdigit_bounds in auto)

lemma digits_run:
  assumes "num_at h p A par a m z neg s" and "drop p json = ds @ r" and "\<forall>d\<in>set ds. isdigit d" and "m + length ds < 2 ^ 31"
    and "foldl (\<lambda>a d. a * 10 + (uint d - 48)) a ds < 2 ^ 63" and "0 \<le> a" and "z \<Longrightarrow> ds = []" and "m = 0 \<Longrightarrow> length ds \<le> 1 \<or> hd ds \<noteq> 0x30"
  shows "\<exists>s' z. jruns json s s' \<and> num_at h (p + length ds) A par (foldl (\<lambda>a d. a * 10 + (uint d - 48)) a ds) (m + length ds) z neg s'"
  using assms
proof (induction ds arbitrary: p a m z s)
  case (Cons d ds)
  let ?a = "a * 10 + (uint d - 48)"
  have z: "z = False" using Cons.prems(7) by auto
  have dd: "drop p json = d # (ds @ r)" using Cons.prems(2) by simp
  have dig: "isdigit d" using Cons.prems(3) by simp
  then have a: "0 \<le> ?a" using isdigit_bounds [OF dig] Cons.prems(6) by simp
  have "?a \<le> foldl (\<lambda>a d. a * 10 + (uint d - 48)) ?a ds" using num_fold_ge [of ds ?a] Cons.prems(3) a by simp
  then have "?a < 2 ^ 63" using Cons.prems(5) by simp
  from digit_run [OF Cons.prems(1) [unfolded z] dd dig _ this] Cons.prems(4) obtain s1 where
    s1: "jruns json s s1" "num_at h (Suc p) A par ?a (m + 1) (m = 0 \<and> d = 0x30) neg s1" by auto
  have c: "m = 0 \<and> d = 0x30 \<Longrightarrow> ds = []" using Cons.prems(8) by auto
  from Cons.IH [OF s1(2) drop_Suc_Cons [OF dd] _ _ _ a c] Cons.prems(3-5) obtain s2 z' where
    "jruns json s1 s2" "num_at h (Suc p + length ds) A par (foldl (\<lambda>a d. a * 10 + (uint d - 48)) ?a ds) (m + 1 + length ds) z' neg s2" by auto
  with s1(1) show ?case by (auto intro: rtranclp_trans)
qed auto

text \<open>The byte behind the number is looked at, and left to the next round.\<close>

lemma number_end:
  assumes s: "num_at h p A par a m z neg s" and p: "0 < p" and pk: "peek json (int p) = Some b" and b: "\<not> num_char b" and par: "parent_ok True par A"
  shows "\<exists>s'. jruns json s s' \<and> jst_at h True p (after_value par A) (after_top par (length A)) (Suc (length A))
    (close True par (length A) A @ [num_node par (if neg then - a else a)]) s'"
proof -
  let ?N = "A @ [num_node par (if neg then - a else a)]"
  have at: "jst_at h True p {} (Some (length A)) (Suc (length A)) (A @ [num_node par a]) s"
    and f: "num_digits s = m" "flag_num_e \<notin> flags s" "(flag_num_zero \<in> flags s) = z" "(flag_num_negative \<in> flags s) = neg"
    using s by (simp_all add: num_at_def)
  have n: "top s = Some (length A)" "nodes s = A @ [num_node par a]" using at by (simp_all add: jst_at_def)
  let ?u = "s\<lparr>nodes := ?N, flags := flags s \<union> {flag_next, flag_reproc}\<rparr>"
  have "number_section b s = Some (Fall ?u)"
    using b f n by (cases neg) (simp_all add: number_section_def num_char_def top_node_def upd_node_def)
  moreover have u: "jst_at h True p {flag_next, flag_reproc} (Some (length A)) (Suc (length A)) ?N ?u" using at by (auto simp: jst_at_def)
  have N: "length A < length ?N" "jn_parent (?N ! length A) = par" by simp_all
  from round_end_value [OF u, of True, OF _ p N parent_ok_append [OF par]] obtain w where
    "round_end ?u = Some (Continue w)" and w: "jst_at h True p (after_value par A) (after_top par (length A)) (Suc (length A))
      (close True par (length A) A @ [num_node par (if neg then - a else a)]) (w\<lparr>pos := pos w + 1\<rparr>)"
    by (auto simp: parent_simps [OF par])
  ultimately have "json_round default_settings json s = Some (Continue w)" using num_round [OF s pk] by simp
  then show ?thesis using w by (rule jstepI)
qed

lemma peek_follow:
  assumes "drop p json = r" and "follow r" and "p \<le> length json"
  shows "\<exists>b. peek json (int p) = Some b \<and> \<not> num_char b"
proof (cases r)
  case Nil
  then have "p = length json" using assms by simp
  then show ?thesis by (auto simp: peek_def num_char_def isdigit_def)
next
  case (Cons b r')
  then show ?thesis using peek_drop [of p json b r'] assms by (auto simp: follow_def)
qed

lemma num_text_chars:
  assumes "num_text i t"
  shows "t \<noteq> []" "\<forall>c\<in>set t. num_char c" "isdigit (hd t) \<or> hd t = 0x2D"
  using assms by (auto simp: num_text_def num_char_def)

lemma take_num_chars: "\<forall>c\<in>set t. num_char c \<Longrightarrow> follow r \<Longrightarrow> takeWhile num_char (t @ r) = t"
  by (cases r) (auto simp: follow_def takeWhile_append)

lemma not_special: "isdigit c \<or> c = 0x2D \<Longrightarrow> \<not> whitespace c \<and> c \<noteq> 0x5D \<and> c \<noteq> 0x7B \<and> c \<noteq> 0x5B \<and> c \<noteq> 0x22 \<and> c \<noteq> 0x74 \<and> c \<noteq> 0x66 \<and> c \<noteq> 0x6E"
  by (auto simp: whitespace_def isdigit_def)

text \<open>The first byte of a number, in both passes.\<close>

lemma number_first:
  assumes s: "jst_at h fp p {flag_seek_value} par k N s" and h: "avail h = None"
    and k: "if fp then k = length N else k < length N \<and> counted (N ! k)" and d: "drop p json = c # r" and c: "isdigit c \<or> c = 0x2D"
  shows "\<exists>u. json_round default_settings json s = jthen (number_start json c u) round_end
    \<and> jst_at h fp p {} (Some k) (Suc k) (start_nodes fp k type_integer par N) u"
proof -
  note ns = not_special [OF c]
  note v = value_start_at [OF s d]
  from start_value_at [OF v(2) h k, of type_integer "number_start json c"] ns obtain u where
    u: "start_value default_settings type_integer (number_start json c) (s\<lparr>flags := flags s - {flag_seek_value}\<rparr>) = number_start json c u"
    "jst_at h fp p {} (Some k) (Suc k) (start_nodes fp k type_integer par N) u" by auto
  then have "json_round default_settings json s = jthen (number_start json c u) round_end" using v(1) ns c by (simp add: value_start_def)
  with u(2) show ?thesis by blast
qed

lemma number_second:
  assumes t: "num_text i t" and h: "avail h = None" and d: "drop p json = t @ r" and f: "follow r" and par: "parent_ok False par A"
    and s: "jst_at h False p {flag_seek_value} par (length A) (A @ num_node par i # L) s"
  shows "\<exists>s'. jruns json s s' \<and> jst_at h False (p + length t) (after_value par A) (after_top par (length A)) (Suc (length A))
    (close False par (length A) A @ num_node par i # L) s'"
proof -
  let ?N = "A @ num_node par i # L"
  obtain c cs where c: "t = c # cs" using num_text_chars(1) [OF t] by (cases t) auto
  have d0: "drop p json = c # cs @ r" using d c by simp
  have k: "if False then length A = length ?N else length A < length ?N \<and> counted (?N ! length A)"
    by (simp add: counted_def num_node_def zero_jnode_def)
  have N: "start_nodes False (length A) type_integer par ?N = ?N"
    by (simp add: start_nodes_def ready_def)
  have hc: "isdigit c \<or> c = 0x2D" using num_text_chars(3) [OF t] c by simp
  from number_first [OF s h k d0 hc] obtain u where u: "json_round default_settings json s = jthen (number_start json c u) round_end"
    "jst_at h False p {} (Some (length A)) (Suc (length A)) ?N u" unfolding N by blast
  let ?w = "u\<lparr>pos := pos u + int (length t), flags := flags u \<union> {flag_next, flag_reproc}\<rparr>"
  have "takeWhile num_char (drop (nat (pos u)) json) = t"
    using u(2) d take_num_chars [OF num_text_chars(2) [OF t] f] by (simp add: jst_at_def)
  then have "number_start json c u = Some (Fall ?w)" using u(2) by (simp add: number_start_def jst_at_def)
  moreover have w: "jst_at h False (p + length t) {flag_next, flag_reproc} (Some (length A)) (Suc (length A)) ?N ?w"
    using u(2) by (auto simp: jst_at_def)
  have A: "length A < length ?N" "jn_parent (?N ! length A) = par" by simp_all
  from round_end_value [OF w, of True, OF _ _ A parent_ok_append [OF par]] c obtain x where
    "round_end ?w = Some (Continue x)" and x: "jst_at h False (p + length t) (after_value par A) (after_top par (length A)) (Suc (length A))
      (close False par (length A) A @ num_node par i # L) (x\<lparr>pos := pos x + 1\<rparr>)"
    by (auto simp: parent_simps [OF par])
  ultimately have "json_round default_settings json s = Some (Continue x)" using u(1) by simp
  then show ?thesis using x by (rule jstepI)
qed

lemma number_count:
  assumes t: "num_text i t" and h: "avail h = None" and l: "length json < 2 ^ 31" and d: "drop p json = t @ r" and f: "follow r"
    and par: "parent_ok True par A" and s: "jst_at h True p {flag_seek_value} par (length A) A s"
  shows "\<exists>s'. jruns json s s' \<and> jst_at h True (p + length t) (after_value par A) (after_top par (length A)) (Suc (length A))
    (close True par (length A) A @ [num_node par i]) s'"
proof -
  from t obtain ds where ds: "ds \<noteq> []" "\<forall>d\<in>set ds. isdigit d" "length ds = 1 \<or> hd ds \<noteq> 0x30" "num_val ds < 2 ^ 63"
    and ti: "t = ds \<and> i = num_val ds \<or> t = 0x2D # ds \<and> i = - num_val ds" by (auto simp: num_text_def)
  obtain c cs where c: "t = c # cs" using num_text_chars(1) [OF t] by (cases t) auto
  have d0: "drop p json = c # cs @ r" using d c by simp
  have hc: "isdigit c \<or> c = 0x2D" using num_text_chars(3) [OF t] c by simp
  have k: "if True then length A = length A else length A < length A \<and> counted (A ! length A)" by simp
  from number_first [OF s h k d0 hc] obtain u where u: "json_round default_settings json s = jthen (number_start json c u) round_end"
    "jst_at h True p {} (Some (length A)) (Suc (length A)) (A @ [num_node par 0]) u" by (auto simp: start_nodes_def)
  let ?u = "u\<lparr>flags := flags u - {flag_num_negative, flag_num_e, flag_num_e_got_sign, flag_num_e_negative, flag_num_zero}, num_digits := 0\<rparr>"
  have first: "\<exists>s1 q neg. jruns json s s1 \<and> num_at h q A par 0 0 False neg s1 \<and> drop q json = ds @ r \<and> p + length t = q + length ds
      \<and> i = (if neg then - num_val ds else num_val ds)"
  proof (cases "c = 0x2D")
    case True
    let ?w = "?u\<lparr>flags := insert flag_num_negative (flags ?u)\<rparr>"
    have td: "t = 0x2D # ds" "i = - num_val ds" using ti c True ds(1,2) by (auto simp: isdigit_def)
    have "json_round default_settings json s = Some (Continue ?w)" using u True by (simp add: number_start_def jst_at_def Let_def)
    then have "jruns json s (?w\<lparr>pos := pos ?w + 1\<rparr>)" by (auto simp: jstep_def intro!: r_into_rtranclp)
    moreover have "num_at h (Suc p) A par 0 0 False True (?w\<lparr>pos := pos ?w + 1\<rparr>)"
      using u(2) by (auto simp: num_at_def jst_at_def num_flags_def)
    moreover have "drop (Suc p) json = ds @ r" using drop_Suc_Cons [OF d0] td c by simp
    ultimately show ?thesis using td by (intro exI [of _ "?w\<lparr>pos := pos ?w + 1\<rparr>"] exI [of _ "Suc p"] exI [of _ True]) simp
  next
    case False
    let ?w = "?u\<lparr>pos := pos u - 1\<rparr>"
    have td: "t = ds" "i = num_val ds" using ti c False by auto
    have fl: "flag_reproc \<notin> flags u" "flag_next \<notin> flags u" using flags_at [OF u(2)] by simp_all
    then have "number_start json c u = Some (Fall (?u\<lparr>flags := insert flag_reproc (flags ?u)\<rparr>))"
      "round_end (?u\<lparr>flags := insert flag_reproc (flags ?u)\<rparr>) = Some (Continue ?w)"
      using u(2) False by (simp_all add: number_start_def jst_at_def round_end_def Let_def)
    then have "json_round default_settings json s = Some (Continue ?w)" using u(1) by simp
    then have "jruns json s (?w\<lparr>pos := pos ?w + 1\<rparr>)" by (auto simp: jstep_def intro!: r_into_rtranclp)
    moreover have "num_at h p A par 0 0 False False (?w\<lparr>pos := pos ?w + 1\<rparr>)"
      using u(2) by (auto simp: num_at_def jst_at_def num_flags_def)
    ultimately show ?thesis using td d by (intro exI [of _ "?w\<lparr>pos := pos ?w + 1\<rparr>"] exI [of _ p] exI [of _ False]) simp
  qed
  then obtain s1 q neg where s1: "jruns json s s1" "num_at h q A par 0 0 False neg s1" "drop q json = ds @ r" "p + length t = q + length ds"
    "i = (if neg then - num_val ds else num_val ds)" by blast
  have "0 < length ds" "length json - q = length ds + length r" using arg_cong [OF s1(3), of length] ds(1) by simp_all
  then have ql: "q + length ds \<le> length json" by arith
  from digits_run [OF s1(2,3) ds(2)] ds(3,4) ql l obtain s2 z where
    s2: "jruns json s1 s2" "num_at h (q + length ds) A par (num_val ds) (length ds) z neg s2" by (auto simp: num_val_def)
  from peek_follow [OF drop_append_at [OF s1(3)] f ql] obtain b where b: "peek json (int (q + length ds)) = Some b" "\<not> num_char b" by blast
  have "0 < q + length ds" using ds(1) by simp
  from number_end [OF s2(2) this b par] obtain s3 where s3: "jruns json s2 s3"
    "jst_at h True (q + length ds) (after_value par A) (after_top par (length A)) (Suc (length A)) (close True par (length A) A @ [num_node par i]) s3"
    unfolding s1(5) by blast
  have "jruns json s s3" using s1(1) s2(1) s3(1) by (meson rtranclp_trans)
  then show ?thesis using s3(2) s1(4) by auto
qed

lemma number_runs:
  assumes "num_text i t"
  shows "value_runs TYPE('z) (json_integer i) t"
  unfolding value_runs_def
proof (intro allI impI)
  fix h :: "'z alloc_scheme" and fp json p r par A L s
  assume h: "avail h = None" and l: "length json < 2 ^ 31" and d: "drop p json = t @ r" and f: "follow r" and par: "parent_ok fp par A"
    and s: "jst_at h fp p {flag_seek_value} par (length A) (A @ before fp (length A) par (json_integer i) L) s"
  show "\<exists>s'. jruns json s s' \<and> jst_at h fp (p + length t) (after_value par A) (after_top par (length A)) (length A + jsize (json_integer i))
       (close fp par (length A) A @ jnodes fp (length A) par (json_integer i) @ rest fp L) s'"
  proof (cases fp)
    case True
    then show ?thesis using number_count [OF assms h l d f, of par A s] par s by (simp add: before_def rest_def num_node_def)
  next
    case False
    then show ?thesis using number_second [OF assms h d f, of par A L s] par s by (simp add: before_def rest_def num_node_def)
  qed
qed

end
