(* ===== verification/Json_Containers.thy ===== *)
theory Json_Containers
  imports Json_Values
begin

text \<open>
  Runs over arrays and objects, and with them over every text of the grammar.
\<close>

section \<open>Punctuation\<close>

lemma comma_array:
  assumes s: "jst_at h fp p {flag_need_comma, flag_seek_value} tp k N s" and d: "drop p json = 0x2C # r"
  shows "\<exists>s'. jruns json s s' \<and> jst_at h fp (Suc p) {flag_seek_value} tp k N s'"
proof -
  let ?u = "s\<lparr>flags := flags s - {flag_need_comma}\<rparr>"
  have "json_round default_settings json s = Some (Continue ?u)"
    using round_seek [OF s peek_drop [OF d]] flags_at [OF s] by (simp add: value_section_def whitespace_def)
  then show ?thesis by (rule jstepI) (use s in \<open>auto simp: jst_at_def num_flags_diff\<close>)
qed

lemma colon_run:
  assumes s: "jst_at h fp p {flag_seek_value, flag_need_colon} tp k N s" and d: "drop p json = 0x3A # r"
  shows "\<exists>s'. jruns json s s' \<and> jst_at h fp (Suc p) {flag_seek_value} tp k N s'"
proof -
  let ?u = "s\<lparr>flags := flags s - {flag_need_colon}\<rparr>"
  have "json_round default_settings json s = Some (Continue ?u)"
    using round_seek [OF s peek_drop [OF d]] flags_at [OF s] by (simp add: value_section_def whitespace_def)
  then show ?thesis by (rule jstepI) (use s in \<open>auto simp: jst_at_def num_flags_diff\<close>)
qed

lemma container_object:
  assumes "jst_at h fp p F (Some j) k N s" and "j < length N" and "jn_type (N ! j) = type_object"
  shows "container_section b s = object_section b s"
  using assms by (simp add: container_section_def top_node_def jst_at_def)

lemma comma_object:
  assumes s: "jst_at h fp p {flag_need_comma} (Some j) k N s" and j: "j < length N" "jn_type (N ! j) = type_object" and d: "drop p json = 0x2C # r"
  shows "\<exists>s'. jruns json s s' \<and> jst_at h fp (Suc p) {} (Some j) k N s'"
proof -
  let ?u = "s\<lparr>flags := flags s - {flag_need_comma}\<rparr>"
  have "json_round default_settings json s = Some (Continue ?u)"
    using round_container [OF s peek_drop [OF d]] flags_at [OF s] container_object [OF s j]
    by (simp add: object_section_def whitespace_def round_end_def)
  then show ?thesis by (rule jstepI) (use s in \<open>auto simp: jst_at_def num_flags_diff\<close>)
qed

lemma quote_object:
  assumes s: "jst_at h fp p {} (Some j) k N s" and j: "j < length N" "jn_type (N ! j) = type_object" and d: "drop p json = 0x22 # r"
  shows "\<exists>s'. jruns json s s' \<and> str_at h fp (Suc p) {flag_string} k N j (jn_object_mem (N ! j)) 0 s'"
proof -
  let ?u = "s\<lparr>flags := insert flag_string (flags s), str_to := Some (j, jn_object_mem (N ! j)), string_length := 0\<rparr>"
  have "top s = Some j" "nodes s = N" using s by (simp_all add: jst_at_def)
  then have "json_round default_settings json s = Some (Continue ?u)"
    using round_container [OF s peek_drop [OF d]] flags_at [OF s] container_object [OF s j] j
    by (simp add: object_section_def whitespace_def round_end_def top_node_def)
  then show ?thesis by (rule str_stepI) (use s in \<open>auto simp: str_at_def jst_at_def\<close>)
qed

lemma close_bracket:
  assumes s: "jst_at h fp p F (Some j) k N s" and F: "F = {flag_seek_value} \<or> F = {flag_need_comma, flag_seek_value}"
    and j: "j < length N" "jn_type (N ! j) = type_array" "jn_parent (N ! j) = par" and par: "parent_ok fp par N" and d: "drop p json = 0x5D # r"
  shows "\<exists>s'. jruns json s s' \<and> jst_at h fp (Suc p) (after_value par N) (after_top par j) k (close fp par j N) s'"
proof -
  let ?u = "s\<lparr>flags := insert flag_next (flags s - {flag_need_comma, flag_seek_value})\<rparr>"
  have tn: "top s = Some j" "nodes s = N" using s by (simp_all add: jst_at_def)
  have u: "jst_at h fp p {flag_next} (Some j) k N ?u" using s F by (auto simp: jst_at_def num_flags_diff)
  from round_end_value [OF u, of False, OF _ _ j(1,3) par] obtain w where
    w: "round_end ?u = Some (Continue w)" "jst_at h fp (Suc p) (after_value par N) (after_top par j) k (close fp par j N) (w\<lparr>pos := pos w + 1\<rparr>)" by auto
  have "flag_string \<notin> F" "flag_done \<notin> F" "flag_seek_value \<in> F" using F by auto
  then have "json_round default_settings json s = jthen (value_section default_settings json 0x5D s) round_end"
    by (rule round_seek [OF s peek_drop [OF d]])
  then have "json_round default_settings json s = Some (Continue w)"
    using w(1) tn j by (simp add: value_section_def whitespace_def top_node_def)
  then show ?thesis using w(2) by (rule jstepI)
qed

lemma close_brace:
  assumes s: "jst_at h fp p F (Some j) k N s" and F: "F = {} \<or> F = {flag_need_comma}"
    and j: "j < length N" "jn_type (N ! j) = type_object" "jn_parent (N ! j) = par" and par: "parent_ok fp par N" and d: "drop p json = 0x7D # r"
  shows "\<exists>s'. jruns json s s' \<and> jst_at h fp (Suc p) (after_value par N) (after_top par j) k (close fp par j N) s'"
proof -
  let ?u = "s\<lparr>flags := insert flag_next (flags s - {flag_need_comma})\<rparr>"
  have u: "jst_at h fp p {flag_next} (Some j) k N ?u" using s F by (auto simp: jst_at_def num_flags_diff)
  from round_end_value [OF u, of False, OF _ _ j(1,3) par] obtain w where
    w: "round_end ?u = Some (Continue w)" "jst_at h fp (Suc p) (after_value par N) (after_top par j) k (close fp par j N) (w\<lparr>pos := pos w + 1\<rparr>)" by auto
  have "flag_string \<notin> F" "flag_done \<notin> F" "flag_seek_value \<notin> F" using F by auto
  then have "json_round default_settings json s = jthen (container_section 0x7D s) round_end"
    by (rule round_container [OF s peek_drop [OF d]])
  then have "json_round default_settings json s = Some (Continue w)"
    using w(1) container_object [OF s j(1,2)] by (simp add: object_section_def whitespace_def)
  then show ?thesis using w(2) by (rule jstepI)
qed

section \<open>Names\<close>

lemma object_node_simps [simp]:
  "jn_type (object_node fp par ms pend n tot) = type_object" "jn_parent (object_node fp par ms pend n tot) = par"
  "jn_length (object_node fp par ms pend n tot) = length ms"
  "jn_object_mem (object_node True par ms pend n tot) = 0" "jn_object_mem (object_node False par ms None n tot) = names_size (map fst ms)"
  "\<not> fp \<Longrightarrow> length (jn_mem (object_node fp par ms None n tot)) = names_size (map fst ms) + (tot - names_size (map fst ms))"
  "\<not> fp \<Longrightarrow> length ms < n \<Longrightarrow> length (jn_slots (object_node fp par ms pend n tot)) = n"
  by (simp_all add: object_node_def zero_jnode_def Let_def split: option.splits)

lemma array_node_simps [simp]:
  "jn_type (array_node fp par cs n) = type_array" "jn_parent (array_node fp par cs n) = par" "jn_length (array_node fp par cs n) = length cs"
  "\<not> fp \<Longrightarrow> length cs \<le> n \<Longrightarrow> length (jn_slots (array_node fp par cs n)) = n"
  by (simp_all add: array_node_def zero_jnode_def)

text \<open>The quote behind a name: in the second pass the node has got its name by then.\<close>

definition named :: "bool \<Rightarrow> nat \<Rightarrow> jnode \<Rightarrow> jnode" where
  "named fp m n = (if fp then n\<lparr>jn_names := jn_names n + m + 1\<rparr>
     else n\<lparr>jn_slots := (jn_slots n)[jn_length n := (Some (jn_object_mem n, m), snd (jn_slots n ! jn_length n))],
       jn_object_mem := jn_object_mem n + m + 1\<rparr>)"

lemma replicate_split: "k \<le> n \<Longrightarrow> replicate n x = replicate k x @ replicate (n - k) x"
  by (simp add: replicate_add [symmetric])

lemma named_object_node:
  assumes "length ms < n" and "names_size (map fst ms) + (length nm + 1) \<le> tot"
  shows "named fp (length nm) ((object_node fp par ms None n tot)\<lparr>jn_mem := (let m = jn_mem (object_node fp par ms None n tot); o' = jn_object_mem (object_node fp par ms None n tot)
      in if fp then m else take o' m @ map Some (nm @ [0]) @ drop (o' + length (nm @ [0])) m)\<rparr>)
    = object_node fp par ms (Some nm) n tot"
proof (cases fp)
  case True
  then show ?thesis by (simp add: named_def object_node_def zero_jnode_def Let_def)
next
  case False
  have r: "replicate (n - length ms) x = x # replicate (n - length ms - 1) x" for x :: "(nat \<times> nat) option \<times> nat option"
    using assms(1) by (cases "n - length ms") simp_all
  have "tot - names_size (map fst ms) - Suc (length nm) = tot - (names_size (map fst ms) + Suc (length nm))" by simp
  then show ?thesis using False assms
    by (simp add: named_def object_node_def zero_jnode_def Let_def r list_update_append nth_append)
qed

lemma name_end:
  assumes s: "str_at h fp p {flag_string} k N j off m s" and j: "j < length N" "jn_type (N ! j) = type_object"
    and sl: "fp \<or> jn_length (N ! j) < length (jn_slots (N ! j))"
    and d: "drop p json = 0x22 # r" and r: "room fp j (off + m + 1) N" and m: "m < 2 ^ 31"
  shows "\<exists>s'. jruns json s s' \<and> jst_at h fp (Suc p) {flag_seek_value, flag_need_colon} (Some j) k
    ((stored fp j (off + m) [0] N)[j := named fp m (stored fp j (off + m) [0] N ! j)]) s'"
proof -
  let ?M = "stored fp j (off + m) [0] N" let ?N' = "?M[j := named fp m (?M ! j)]"
  have n: "first_pass s = fp" using s by (simp_all add: str_at_def jst_at_def)
  have M: "jn_type (?M ! j) = type_object" "jn_length (?M ! j) = jn_length (N ! j)" "jn_slots (?M ! j) = jn_slots (N ! j)" using j by (simp_all add: stored_def)
  obtain u where u: "(if first_pass s then Some s else put_char 0 s) = Some u" "str_at h fp p {flag_string} k ?M j off m u"
    using put_zero [OF s r] by blast
  let ?v = "u\<lparr>flags := flags u - {flag_string} \<union> {flag_seek_value, flag_need_colon}, str_to := None, nodes := ?N'\<rparr>"
  have un: "top u = Some j" "nodes u = ?M" "string_length u = m" "first_pass u = fp" using u(2) by (simp_all add: str_at_def jst_at_def)
  have "string_end s = Some (Continue ?v)"
    unfolding string_end_def u(1) using un M j sl by (cases fp) (simp_all add: top_node_def upd_node_def Let_def named_def)
  then have "json_round default_settings json s = Some (Continue ?v)"
    using str_step [OF s _ d _ m] by simp
  then show ?thesis by (rule jstepI) (use u(2) in \<open>auto simp: str_at_def jst_at_def num_flags_diff\<close>)
qed

section \<open>Elements and members\<close>

definition elems_run :: "'z itself \<Rightarrow> json_value list \<Rightarrow> u8 list \<Rightarrow> bool" where
  "elems_run (_ :: 'z itself) vs t \<longleftrightarrow> (\<forall>h :: 'z alloc_scheme. \<forall>fp json p r j A pp cs n L s. avail h = None \<longrightarrow> length json < 2 ^ 31 \<longrightarrow>
     drop p json = t @ 0x5D # r \<longrightarrow> j < length A \<longrightarrow> A ! j = array_node fp pp cs n \<longrightarrow> length cs + length vs = n \<longrightarrow> n < 2 ^ 31 \<longrightarrow>
     jst_at h fp p {flag_seek_value} (Some j) (length A) (A @ (if fp then [] else jnodes_list True (length A) j vs @ L)) s \<longrightarrow>
     (\<exists>s'. jruns json s s' \<and> jst_at h fp (p + length t) (if vs = [] then {flag_seek_value} else {flag_need_comma, flag_seek_value})
       (Some j) (length A + jsizes vs) (A[j := array_node fp pp (cs @ elem_ixs (length A) vs) n] @ jnodes_list fp (length A) j vs @ rest fp L) s'))"

definition members_run :: "'z itself \<Rightarrow> (u8 list \<times> json_value) list \<Rightarrow> u8 list \<Rightarrow> bool" where
  "members_run (_ :: 'z itself) kvs t \<longleftrightarrow> (\<forall>h :: 'z alloc_scheme. \<forall>fp json p r j A pp ms n tot L s. avail h = None \<longrightarrow> length json < 2 ^ 31 \<longrightarrow>
     drop p json = t @ 0x7D # r \<longrightarrow> j < length A \<longrightarrow> A ! j = object_node fp pp ms None n tot \<longrightarrow> length ms + length kvs = n \<longrightarrow> n < 2 ^ 31 \<longrightarrow>
     names_size (map fst ms) + names_size (map fst kvs) = tot \<longrightarrow> tot < 2 ^ 31 \<longrightarrow>
     jst_at h fp p {} (Some j) (length A) (A @ (if fp then [] else jnodes_members True (length A) j kvs @ L)) s \<longrightarrow>
     (\<exists>s'. jruns json s s' \<and> jst_at h fp (p + length t) (if kvs = [] then {} else {flag_need_comma})
       (Some j) (length A + msizes kvs) (A[j := object_node fp pp (ms @ members (length A) kvs) None n tot] @ jnodes_members fp (length A) j kvs @ rest fp L) s'))"

lemma follow_ws: "ws w \<Longrightarrow> \<not> num_char c \<Longrightarrow> follow (w @ c # r)"
  by (cases w) (auto simp: follow_def ws_def whitespace_def num_char_def isdigit_def)

lemma close_array:
  assumes "A ! j = array_node fp pp cs n" and "length cs < n"
  shows "close fp (Some j) c A = A[j := array_node fp pp (cs @ [c]) n]"
proof -
  have r: "replicate (n - length cs) x = x # replicate (n - Suc (length cs)) x" for x :: "(nat \<times> nat) option \<times> nat option"
    using assms(2) by (cases "n - length cs") (simp_all add: Suc_diff_Suc)
  show ?thesis using assms by (simp add: close_def array_node_def zero_jnode_def r list_update_append nth_append)
qed

lemma close_object:
  assumes "A ! j = object_node fp pp ms (Some nm) n tot" and "length ms < n"
  shows "close fp (Some j) c A = A[j := object_node fp pp (ms @ [(nm, c)]) None n tot]"
  using assms by (simp add: close_def object_node_def zero_jnode_def Let_def list_update_append nth_append member_slots_append)

lemma parent_ok_array: "j < length A \<Longrightarrow> A ! j = array_node fp pp cs n \<Longrightarrow> length cs < n \<Longrightarrow> n < 2 ^ 31 \<Longrightarrow> parent_ok fp (Some j) A"
  by (cases fp) (simp_all add: parent_ok_def)

lemma parent_ok_object: "j < length A \<Longrightarrow> A ! j = object_node fp pp ms pend n tot \<Longrightarrow> length ms < n \<Longrightarrow> n < 2 ^ 31 \<Longrightarrow> parent_ok fp (Some j) A"
  by (cases fp) (simp_all add: parent_ok_def)

lemma value_runsD:
  assumes "value_runs TYPE('z) v t" and "avail (h :: 'z alloc_scheme) = None" and "length json < 2 ^ 31" and "drop p json = t @ r" and "follow r"
    and "parent_ok fp par A" and "jst_at h fp p {flag_seek_value} par (length A) (A @ before fp (length A) par v L) s"
  shows "\<exists>s'. jruns json s s' \<and> jst_at h fp (p + length t) (after_value par A) (after_top par (length A)) (length A + jsize v)
       (close fp par (length A) A @ jnodes fp (length A) par v @ rest fp L) s'"
  using assms unfolding value_runs_def by blast

lemma elems_runD:
  assumes "elems_run TYPE('z) vs t" and "avail (h :: 'z alloc_scheme) = None" and "length json < 2 ^ 31" and "drop p json = t @ 0x5D # r"
    and "j < length A" and "A ! j = array_node fp pp cs n" and "length cs + length vs = n" and "n < 2 ^ 31"
    and "jst_at h fp p {flag_seek_value} (Some j) (length A) (A @ (if fp then [] else jnodes_list True (length A) j vs @ L)) s"
  shows "\<exists>s'. jruns json s s' \<and> jst_at h fp (p + length t) (if vs = [] then {flag_seek_value} else {flag_need_comma, flag_seek_value})
       (Some j) (length A + jsizes vs) (A[j := array_node fp pp (cs @ elem_ixs (length A) vs) n] @ jnodes_list fp (length A) j vs @ rest fp L) s'"
  using assms unfolding elems_run_def by blast

lemma members_runD:
  assumes "members_run TYPE('z) kvs t" and "avail (h :: 'z alloc_scheme) = None" and "length json < 2 ^ 31" and "drop p json = t @ 0x7D # r"
    and "j < length A" and "A ! j = object_node fp pp ms None n tot" and "length ms + length kvs = n" and "n < 2 ^ 31"
    and "names_size (map fst ms) + names_size (map fst kvs) = tot" and "tot < 2 ^ 31"
    and "jst_at h fp p {} (Some j) (length A) (A @ (if fp then [] else jnodes_members True (length A) j kvs @ L)) s"
  shows "\<exists>s'. jruns json s s' \<and> jst_at h fp (p + length t) (if kvs = [] then {} else {flag_need_comma})
       (Some j) (length A + msizes kvs) (A[j := object_node fp pp (ms @ members (length A) kvs) None n tot] @ jnodes_members fp (length A) j kvs @ rest fp L) s'"
  using assms unfolding members_run_def by blast

text \<open>One element with the white space around it.\<close>

lemma elem_run:
  assumes v: "value_runs TYPE('z) v t" and w: "ws w" "ws w'" and h: "avail (h :: 'z alloc_scheme) = None" and l: "length json < 2 ^ 31"
    and d: "drop p json = w @ t @ w' @ c # r" and c: "\<not> num_char c" and j: "j < length A" "A ! j = array_node fp pp cs n" "length cs < n" "n < 2 ^ 31"
    and s: "jst_at h fp p {flag_seek_value} (Some j) (length A) (A @ before fp (length A) (Some j) v L) s"
  shows "\<exists>s'. jruns json s s' \<and> jst_at h fp (p + length (w @ t @ w')) {flag_need_comma, flag_seek_value} (Some j) (length A + jsize v)
       (A[j := array_node fp pp (cs @ [length A]) n] @ jnodes fp (length A) (Some j) v @ rest fp L) s'"
proof -
  from white_runs [OF w(1) s d] obtain s1 where
    s1: "jruns json s s1" "jst_at h fp (p + length w) {flag_seek_value} (Some j) (length A) (A @ before fp (length A) (Some j) v L) s1" by auto
  have par: "parent_ok fp (Some j) A" by (rule parent_ok_array [OF j])
  from value_runsD [OF v h l drop_append_at [OF d] follow_ws [OF w(2) c] par s1(2)] obtain s2 where
    s2: "jruns json s1 s2" "jst_at h fp (p + length w + length t) {flag_need_comma, flag_seek_value} (Some j) (length A + jsize v)
      (A[j := array_node fp pp (cs @ [length A]) n] @ jnodes fp (length A) (Some j) v @ rest fp L) s2"
    using j by (auto simp: after_value_def after_top_def close_array)
  from white_runs [OF w(2) s2(2) drop_append_at [OF drop_append_at [OF d]]] obtain s3 where
    s3: "jruns json s2 s3" "jst_at h fp (p + length w + length t + length w') {flag_need_comma, flag_seek_value} (Some j) (length A + jsize v)
      (A[j := array_node fp pp (cs @ [length A]) n] @ jnodes fp (length A) (Some j) v @ rest fp L) s3" by auto
  have "jruns json s s3" using s1(1) s2(1) s3(1) by (meson rtranclp_trans)
  then show ?thesis using s3(2) by (auto simp: add.assoc)
qed

lemma elems_last:
  assumes "value_runs TYPE('z) v t" and "ws w" and "ws w'"
  shows "elems_run TYPE('z) [v] (w @ t @ w')"
  unfolding elems_run_def
proof (intro allI impI)
  fix h :: "'z alloc_scheme" and fp json p r j A pp cs n L s
  assume h: "avail h = None" and l: "length json < 2 ^ 31" and d: "drop p json = (w @ t @ w') @ 0x5D # r" and j: "j < length A" "A ! j = array_node fp pp cs n"
    and n: "length cs + length [v] = n" "n < 2 ^ 31"
    and s: "jst_at h fp p {flag_seek_value} (Some j) (length A) (A @ (if fp then [] else jnodes_list True (length A) j [v] @ L)) s"
  have "length cs < n" using n by simp
  moreover have "drop p json = w @ t @ w' @ 0x5D # r" "\<not> num_char 0x5D" using d by (simp_all add: num_char_def isdigit_def)
  moreover have "jst_at h fp p {flag_seek_value} (Some j) (length A) (A @ before fp (length A) (Some j) v L) s" using s by (cases fp) (simp_all add: before_def)
  ultimately show "\<exists>s'. jruns json s s' \<and> jst_at h fp (p + length (w @ t @ w')) (if [v] = [] then {flag_seek_value} else {flag_need_comma, flag_seek_value})
       (Some j) (length A + jsizes [v]) (A[j := array_node fp pp (cs @ elem_ixs (length A) [v]) n] @ jnodes_list fp (length A) j [v] @ rest fp L) s'"
    using elem_run [OF assms h l _ _ j _ n(2)] by simp
qed

lemma elems_cons:
  assumes v: "value_runs TYPE('z) v t" "ws w" "ws w'" and vs: "vs \<noteq> []" "elems_run TYPE('z) vs t'"
  shows "elems_run TYPE('z) (v # vs) (w @ t @ w' @ [0x2C] @ t')"
  unfolding elems_run_def
proof (intro allI impI)
  fix h :: "'z alloc_scheme" and fp json p r j A pp cs n L s
  assume h: "avail h = None" and l: "length json < 2 ^ 31" and d: "drop p json = (w @ t @ w' @ [0x2C] @ t') @ 0x5D # r"
    and j: "j < length A" "A ! j = array_node fp pp cs n" and n: "length cs + length (v # vs) = n" "n < 2 ^ 31"
    and s: "jst_at h fp p {flag_seek_value} (Some j) (length A) (A @ (if fp then [] else jnodes_list True (length A) j (v # vs) @ L)) s"
  let ?L = "jnodes_list True (length A + jsize v) j vs @ L"
  let ?B = "A[j := array_node fp pp (cs @ [length A]) n] @ jnodes fp (length A) (Some j) v"
  have d0: "drop p json = w @ t @ w' @ 0x2C # (t' @ 0x5D # r)" using d by simp
  have s0: "jst_at h fp p {flag_seek_value} (Some j) (length A) (A @ before fp (length A) (Some j) v ?L) s" using s by (cases fp) (simp_all add: before_def)
  have c: "\<not> num_char 0x2C" by (simp add: num_char_def isdigit_def)
  have "length cs < n" using n by simp
  from elem_run [OF v h l d0 c j this n(2) s0] obtain s1 where s1: "jruns json s s1"
    "jst_at h fp (p + length (w @ t @ w')) {flag_need_comma, flag_seek_value} (Some j) (length ?B) (?B @ rest fp ?L) s1" by auto
  have d1: "drop (p + length (w @ t @ w')) json = 0x2C # (t' @ 0x5D # r)" using d0 by (intro drop_append_at) simp
  from comma_array [OF s1(2) d1] obtain s2 where s2: "jruns json s1 s2"
    "jst_at h fp (Suc (p + length (w @ t @ w'))) {flag_seek_value} (Some j) (length ?B) (?B @ rest fp ?L) s2" by blast
  have B: "j < length ?B" "?B ! j = array_node fp pp (cs @ [length A]) n" "length (cs @ [length A]) + length vs = n" using j n by (simp_all add: nth_append)
  have "jst_at h fp (Suc (p + length (w @ t @ w'))) {flag_seek_value} (Some j) (length ?B) (?B @ (if fp then [] else jnodes_list True (length ?B) j vs @ L)) s2"
    using s2(2) by (simp add: rest_def split: if_splits)
  from elems_runD [OF vs(2) h l drop_Suc_Cons [OF d1] B n(2) this] vs(1) obtain s3 where s3: "jruns json s2 s3"
    "jst_at h fp (Suc (p + length (w @ t @ w')) + length t') {flag_need_comma, flag_seek_value} (Some j) (length ?B + jsizes vs)
      (?B[j := array_node fp pp ((cs @ [length A]) @ elem_ixs (length ?B) vs) n] @ jnodes_list fp (length ?B) j vs @ rest fp L) s3"
    by (simp only: if_False) blast
  have "jruns json s s3" using s1(1) s2(1) s3(1) by (meson rtranclp_trans)
  then show "\<exists>s'. jruns json s s' \<and> jst_at h fp (p + length (w @ t @ w' @ [0x2C] @ t')) (if v # vs = [] then {flag_seek_value} else {flag_need_comma, flag_seek_value})
       (Some j) (length A + jsizes (v # vs)) (A[j := array_node fp pp (cs @ elem_ixs (length A) (v # vs)) n] @ jnodes_list fp (length A) j (v # vs) @ rest fp L) s'"
    using s3(2) j(1) by (intro exI [of _ s3]) (simp add: list_update_append add.assoc)
qed

lemma named_stored:
  assumes j: "j < length N" "N ! j = object_node fp pp ms None n tot" and n: "length ms < n" "names_size (map fst ms) + (length nm + 1) \<le> tot"
    and off: "off = jn_object_mem (N ! j)"
  shows "(stored fp j (off + length nm) [0] (stored fp j off nm N))[j := named fp (length nm) (stored fp j (off + length nm) [0] (stored fp j off nm N) ! j)]
    = N[j := object_node fp pp ms (Some nm) n tot]"
proof -
  have r: "room fp j (off + length nm + length [0 :: u8]) N" using j n off by (cases fp) (simp_all add: room_def)
  have "stored fp j (off + length nm) [0] (stored fp j off nm N) = stored fp j off (nm @ [0]) N" by (rule stored_stored [OF r])
  moreover have "named fp (length nm) (stored fp j off (nm @ [0]) N ! j) = object_node fp pp ms (Some nm) n tot"
    using named_object_node [OF n, of fp pp] j off by (cases fp) (simp_all add: stored_def Let_def)
  moreover have "(stored fp j off (nm @ [0]) N)[j := x] = N[j := x]" for x by (simp add: stored_def)
  ultimately show ?thesis by simp
qed

lemma name_run:
  assumes nm: "str_text nm nt" and ln: "length nm + 1 < 2 ^ 31" and d: "drop p json = ([0x22] @ nt @ [0x22]) @ r"
    and j: "j < length N" "N ! j = object_node fp pp ms None n tot" "length ms < n" "names_size (map fst ms) + (length nm + 1) \<le> tot"
    and s: "jst_at h fp p {} (Some j) k N s"
  shows "\<exists>s'. jruns json s s' \<and> jst_at h fp (p + length ([0x22] @ nt @ [0x22])) {flag_seek_value, flag_need_colon} (Some j) k
    (N[j := object_node fp pp ms (Some nm) n tot]) s'"
proof -
  let ?off = "jn_object_mem (N ! j)"
  have d0: "drop p json = 0x22 # (nt @ 0x22 # r)" using d by simp
  have ty: "jn_type (N ! j) = type_object" using j by simp
  from quote_object [OF s j(1) ty d0] obtain s1 where s1: "jruns json s s1" "str_at h fp (Suc p) {flag_string} k N j ?off 0 s1" by blast
  have rm: "room fp j (?off + length nm + 1) N" using j by (cases fp) (simp_all add: room_def)
  then have "room fp j (?off + 0 + length nm) N" by (auto simp: room_def)
  from str_runs [OF nm s1(2) drop_Suc_Cons [OF d0] _ this] ln obtain s2 where s2: "jruns json s1 s2"
    "str_at h fp (Suc p + length nt) {flag_string} k (stored fp j ?off nm N) j ?off (length nm) s2" by auto
  let ?M = "stored fp j ?off nm N"
  have M: "j < length ?M" "jn_type (?M ! j) = type_object" "fp \<or> jn_length (?M ! j) < length (jn_slots (?M ! j))"
    "room fp j (?off + length nm + 1) ?M"
    using j ty rm by (cases fp; simp add: stored_def room_def)+
  from name_end [OF s2(2) M(1-3) drop_append_at [OF drop_Suc_Cons [OF d0]] M(4)] ln obtain s3 where s3: "jruns json s2 s3"
    "jst_at h fp (Suc (Suc p + length nt)) {flag_seek_value, flag_need_colon} (Some j) k (N[j := object_node fp pp ms (Some nm) n tot]) s3"
    using named_stored [OF j refl] by auto
  have "jruns json s s3" using s1(1) s2(1) s3(1) by (meson rtranclp_trans)
  then show ?thesis using s3(2) by auto
qed

text \<open>One member with the white space around it.\<close>

lemma member_run:
  assumes v: "value_runs TYPE('z) v t" and nm: "str_text nm nt" and w: "ws w1" "ws w2" "ws w3" "ws w4" and h: "avail (h :: 'z alloc_scheme) = None"
    and l: "length json < 2 ^ 31" and d: "drop p json = (w1 @ ([0x22] @ nt @ [0x22]) @ w2 @ [0x3A] @ w3 @ t @ w4) @ c # r" and c: "\<not> num_char c"
    and j: "j < length A" "A ! j = object_node fp pp ms None n tot" "length ms < n" "n < 2 ^ 31" "names_size (map fst ms) + (length nm + 1) \<le> tot" "tot < 2 ^ 31"
    and s: "jst_at h fp p {} (Some j) (length A) (A @ before fp (length A) (Some j) v L) s"
  shows "\<exists>s'. jruns json s s' \<and> jst_at h fp (p + length (w1 @ ([0x22] @ nt @ [0x22]) @ w2 @ [0x3A] @ w3 @ t @ w4)) {flag_need_comma} (Some j) (length A + jsize v)
       (A[j := object_node fp pp (ms @ [(nm, length A)]) None n tot] @ jnodes fp (length A) (Some j) v @ rest fp L) s'"
proof -
  let ?b = "before fp (length A) (Some j) v L" and ?q = "[0x22] @ nt @ [0x22]" and ?A = "A[j := object_node fp pp ms (Some nm) n tot]"
  let ?C = "A[j := object_node fp pp (ms @ [(nm, length A)]) None n tot] @ jnodes fp (length A) (Some j) v @ rest fp L"
  have o: "object_top (Some j) (A @ ?b)" using j by (simp add: object_top_def nth_append)
  have d0: "drop p json = w1 @ ?q @ w2 @ 0x3A # w3 @ t @ w4 @ c # r" using d by simp
  from white_runs [OF w(1) s d0] o obtain s1 where s1: "jruns json s s1" "jst_at h fp (p + length w1) {} (Some j) (length A) (A @ ?b) s1" by auto
  have d1: "drop (p + length w1) json = ?q @ w2 @ 0x3A # w3 @ t @ w4 @ c # r" by (rule drop_append_at [OF d0])
  have N: "j < length (A @ ?b)" "(A @ ?b) ! j = object_node fp pp ms None n tot" using j by (simp_all add: nth_append)
  have "length nm + 1 < 2 ^ 31" using j(5,6) by simp
  from name_run [OF nm this d1 N j(3,5) s1(2)] obtain s2 where s2: "jruns json s1 s2"
    "jst_at h fp (p + length w1 + length ?q) {flag_seek_value, flag_need_colon} (Some j) (length A) (?A @ ?b) s2" using j(1) by (auto simp: list_update_append)
  have d2: "drop (p + length w1 + length ?q) json = w2 @ 0x3A # w3 @ t @ w4 @ c # r" by (rule drop_append_at [OF d1])
  from white_runs [OF w(2) s2(2) d2] obtain s3 where s3: "jruns json s2 s3"
    "jst_at h fp (p + length w1 + length ?q + length w2) {flag_seek_value, flag_need_colon} (Some j) (length A) (?A @ ?b) s3" by auto
  have d3: "drop (p + length w1 + length ?q + length w2) json = 0x3A # w3 @ t @ w4 @ c # r" by (rule drop_append_at [OF d2])
  from colon_run [OF s3(2) d3] obtain s4 where s4: "jruns json s3 s4"
    "jst_at h fp (Suc (p + length w1 + length ?q + length w2)) {flag_seek_value} (Some j) (length A) (?A @ ?b) s4" by blast
  have d4: "drop (Suc (p + length w1 + length ?q + length w2)) json = w3 @ t @ w4 @ c # r" by (rule drop_Suc_Cons [OF d3])
  from white_runs [OF w(3) s4(2) d4] obtain s5 where s5: "jruns json s4 s5"
    "jst_at h fp (Suc (p + length w1 + length ?q + length w2) + length w3) {flag_seek_value} (Some j) (length ?A) (?A @ before fp (length ?A) (Some j) v L) s5" by auto
  have A: "j < length ?A" "?A ! j = object_node fp pp ms (Some nm) n tot" using j by simp_all
  have par: "parent_ok fp (Some j) ?A" by (rule parent_ok_object [OF A j(3,4)])
  have d5: "drop (Suc (p + length w1 + length ?q + length w2) + length w3) json = t @ w4 @ c # r" by (rule drop_append_at [OF d4])
  from value_runsD [OF v h l d5 follow_ws [OF w(4) c] par s5(2)] obtain s6 where s6: "jruns json s5 s6"
    "jst_at h fp (Suc (p + length w1 + length ?q + length w2) + length w3 + length t) {flag_need_comma} (Some j) (length A + jsize v) ?C s6"
    using A by (auto simp: after_value_def after_top_def close_object [OF A(2) j(3)])
  have "object_top (Some j) ?C" using j by (simp add: object_top_def nth_append)
  with white_runs [OF w(4) s6(2) drop_append_at [OF d5]] obtain s7 where s7: "jruns json s6 s7"
    "jst_at h fp (Suc (p + length w1 + length ?q + length w2) + length w3 + length t + length w4) {flag_need_comma} (Some j) (length A + jsize v) ?C s7" by auto
  have "jruns json s s7" using s1(1) s2(1) s3(1) s4(1) s5(1) s6(1) s7(1) by (meson rtranclp_trans)
  then show ?thesis using s7(2) by (intro exI [of _ s7]) (simp add: add.assoc)
qed

lemma members_last:
  assumes "value_runs TYPE('z) v t" and "str_text nm nt" and "ws w1" "ws w2" "ws w3" "ws w4"
  shows "members_run TYPE('z) [(nm, v)] (w1 @ ([0x22] @ nt @ [0x22]) @ w2 @ [0x3A] @ w3 @ t @ w4)" (is "members_run _ _ ?t")
  unfolding members_run_def
proof (intro allI impI)
  fix h :: "'z alloc_scheme" and fp json p r j A pp ms n tot L s
  assume h: "avail h = None" and l: "length json < 2 ^ 31" and d: "drop p json = ?t @ 0x7D # r"
    and j: "j < length A" "A ! j = object_node fp pp ms None n tot"
    and n: "length ms + length [(nm, v)] = n" "n < 2 ^ 31" "names_size (map fst ms) + names_size (map fst [(nm, v)]) = tot" "tot < 2 ^ 31"
    and s: "jst_at h fp p {} (Some j) (length A) (A @ (if fp then [] else jnodes_members True (length A) j [(nm, v)] @ L)) s"
  have "length ms < n" "names_size (map fst ms) + (length nm + 1) \<le> tot" "\<not> num_char 0x7D" using n by (simp_all add: num_char_def isdigit_def)
  moreover have "jst_at h fp p {} (Some j) (length A) (A @ before fp (length A) (Some j) v L) s" using s by (cases fp) (simp_all add: before_def)
  ultimately show "\<exists>s'. jruns json s s' \<and> jst_at h fp (p + length ?t) (if [(nm, v)] = [] then {} else {flag_need_comma})
       (Some j) (length A + msizes [(nm, v)]) (A[j := object_node fp pp (ms @ members (length A) [(nm, v)]) None n tot]
         @ jnodes_members fp (length A) j [(nm, v)] @ rest fp L) s'"
    using member_run [OF assms h l d _ j _ n(2) _ n(4)] by simp
qed

lemma members_cons:
  assumes v: "value_runs TYPE('z) v t" "str_text nm nt" "ws w1" "ws w2" "ws w3" "ws w4" and kvs: "kvs \<noteq> []" "members_run TYPE('z) kvs t'"
  shows "members_run TYPE('z) ((nm, v) # kvs) (w1 @ ([0x22] @ nt @ [0x22]) @ w2 @ [0x3A] @ w3 @ t @ w4 @ [0x2C] @ t')"
  unfolding members_run_def
proof (intro allI impI)
  fix h :: "'z alloc_scheme" and fp json p r j A pp ms n tot L s
  let ?t = "w1 @ ([0x22] @ nt @ [0x22]) @ w2 @ [0x3A] @ w3 @ t @ w4"
  assume h: "avail h = None" and l: "length json < 2 ^ 31"
    and d: "drop p json = (w1 @ ([0x22] @ nt @ [0x22]) @ w2 @ [0x3A] @ w3 @ t @ w4 @ [0x2C] @ t') @ 0x7D # r"
    and j: "j < length A" "A ! j = object_node fp pp ms None n tot" and n: "length ms + length ((nm, v) # kvs) = n" "n < 2 ^ 31"
    and tot: "names_size (map fst ms) + names_size (map fst ((nm, v) # kvs)) = tot" "tot < 2 ^ 31"
    and s: "jst_at h fp p {} (Some j) (length A) (A @ (if fp then [] else jnodes_members True (length A) j ((nm, v) # kvs) @ L)) s"
  let ?L = "jnodes_members True (length A + jsize v) j kvs @ L" and ?ms = "ms @ [(nm, length A)]"
  let ?B = "A[j := object_node fp pp ?ms None n tot] @ jnodes fp (length A) (Some j) v"
  have d0: "drop p json = ?t @ 0x2C # (t' @ 0x7D # r)" using d by simp
  have s0: "jst_at h fp p {} (Some j) (length A) (A @ before fp (length A) (Some j) v ?L) s" using s by (cases fp) (simp_all add: before_def)
  have c: "\<not> num_char 0x2C" by (simp add: num_char_def isdigit_def)
  have b: "length ms < n" "names_size (map fst ms) + (length nm + 1) \<le> tot" using n tot by simp_all
  from member_run [OF v h l d0 c j b(1) n(2) b(2) tot(2) s0] obtain s1 where s1: "jruns json s s1"
    "jst_at h fp (p + length ?t) {flag_need_comma} (Some j) (length ?B) (?B @ rest fp ?L) s1" by auto
  have d1: "drop (p + length ?t) json = 0x2C # (t' @ 0x7D # r)" by (rule drop_append_at [OF d0])
  have o: "j < length (?B @ rest fp ?L)" "jn_type ((?B @ rest fp ?L) ! j) = type_object" using j by (simp_all add: nth_append)
  from comma_object [OF s1(2) o d1] obtain s2 where s2: "jruns json s1 s2"
    "jst_at h fp (Suc (p + length ?t)) {} (Some j) (length ?B) (?B @ rest fp ?L) s2" by blast
  have B: "j < length ?B" "?B ! j = object_node fp pp ?ms None n tot" "length ?ms + length kvs = n"
    "names_size (map fst ?ms) + names_size (map fst kvs) = tot" using j n tot by (simp_all add: nth_append)
  have "jst_at h fp (Suc (p + length ?t)) {} (Some j) (length ?B) (?B @ (if fp then [] else jnodes_members True (length ?B) j kvs @ L)) s2"
    using s2(2) by (simp add: rest_def split: if_splits)
  from members_runD [OF kvs(2) h l drop_Suc_Cons [OF d1] B(1-3) n(2) B(4) tot(2) this] kvs(1) obtain s3 where s3: "jruns json s2 s3"
    "jst_at h fp (Suc (p + length ?t) + length t') {flag_need_comma} (Some j) (length ?B + msizes kvs)
      (?B[j := object_node fp pp (?ms @ members (length ?B) kvs) None n tot] @ jnodes_members fp (length ?B) j kvs @ rest fp L) s3"
    by (simp only: if_False) blast
  have "jruns json s s3" using s1(1) s2(1) s3(1) by (meson rtranclp_trans)
  then show "\<exists>s'. jruns json s s' \<and> jst_at h fp (p + length (w1 @ ([0x22] @ nt @ [0x22]) @ w2 @ [0x3A] @ w3 @ t @ w4 @ [0x2C] @ t'))
       (if (nm, v) # kvs = [] then {} else {flag_need_comma}) (Some j) (length A + msizes ((nm, v) # kvs))
       (A[j := object_node fp pp (ms @ members (length A) ((nm, v) # kvs)) None n tot] @ jnodes_members fp (length A) j ((nm, v) # kvs) @ rest fp L) s'"
    using s3(2) j(1) by (intro exI [of _ s3]) (simp add: list_update_append add.assoc)
qed

section \<open>Arrays and objects\<close>

lemma ready_array: "ready (array_node True par cs n) = array_node False par [] (length cs)"
  by (simp add: ready_def array_node_def zero_jnode_def)

lemma ready_object: "ready (object_node True par ms None n (names_size (map fst ms))) = object_node False par [] None (length ms) (names_size (map fst ms))"
  by (simp add: ready_def object_node_def zero_jnode_def Let_def)

lemma array_runs:
  assumes e: "elems_run TYPE('z) vs t" and n: "length vs \<le> length t + 1"
  shows "value_runs TYPE('z) (json_array vs) ([0x5B] @ t @ [0x5D])"
  unfolding value_runs_def
proof (intro allI impI)
  fix h :: "'z alloc_scheme" and fp json p r par A L s
  assume h: "avail h = None" and l: "length json < 2 ^ 31" and d: "drop p json = ([0x5B] @ t @ [0x5D]) @ r" and par: "parent_ok fp par A"
    and s: "jst_at h fp p {flag_seek_value} par (length A) (A @ before fp (length A) par (json_array vs) L) s"
  let ?k = "length A" and ?N = "A @ before fp (length A) par (json_array vs) L" and ?B = "A @ [array_node fp par [] (length vs)]"
  have lv: "length vs < 2 ^ 31" using n arg_cong [OF d, of length] l by simp
  have k: "if fp then ?k = length ?N else ?k < length ?N \<and> counted (?N ! ?k)"
    by (rule before_counted [OF refl]) (use lv in \<open>simp add: counted_def array_node_def zero_jnode_def\<close>)
  have d0: "drop p json = (if True then 0x5B else 0x7B) # t @ 0x5D # r" using d by simp
  have N: "start_nodes fp ?k type_array par ?N = ?B @ (if fp then [] else jnodes_list True (length ?B) ?k vs @ L)"
    by (cases fp) (simp_all add: start_nodes_def before_def ready_array array_node_def [of True par "[]"] zero_jnode_def)
  from open_runs [OF s h k d0] obtain s1 where s1: "jruns json s s1"
    "jst_at h fp (Suc p) {flag_seek_value} (Some ?k) (length ?B) (?B @ (if fp then [] else jnodes_list True (length ?B) ?k vs @ L)) s1"
    unfolding N [symmetric] by auto
  have d1: "drop (Suc p) json = t @ 0x5D # r" using drop_Suc_Cons d by fastforce
  have B: "?k < length ?B" "?B ! ?k = array_node fp par [] (length vs)" "length [] + length vs = length vs" by simp_all
  let ?M = "A @ array_node fp par (elem_ixs (length ?B) vs) (length vs) # jnodes_list fp (length ?B) ?k vs @ rest fp L"
  from elems_runD [OF e h l d1 B lv s1(2)] obtain s2 where s2: "jruns json s1 s2"
    "jst_at h fp (Suc p + length t) (if vs = [] then {flag_seek_value} else {flag_need_comma, flag_seek_value}) (Some ?k) (length ?B + jsizes vs) ?M s2" by auto
  have M: "?k < length ?M" "jn_type (?M ! ?k) = type_array" "jn_parent (?M ! ?k) = par" by (simp_all add: nth_append)
  have F: "(if vs = [] then {flag_seek_value} else {flag_need_comma, flag_seek_value}) = {flag_seek_value}
      \<or> (if vs = [] then {flag_seek_value} else {flag_need_comma, flag_seek_value}) = {flag_need_comma, flag_seek_value}" by simp
  from close_bracket [OF s2(2) F M parent_ok_append [OF par] drop_append_at [OF d1]] obtain s3 where s3: "jruns json s2 s3"
    "jst_at h fp (Suc (Suc p + length t)) (after_value par ?M) (after_top par ?k) (length ?B + jsizes vs) (close fp par ?k ?M) s3" by blast
  have "jruns json s s3" using s1(1) s2(1) s3(1) by (meson rtranclp_trans)
  then show "\<exists>s'. jruns json s s' \<and> jst_at h fp (p + length ([0x5B] @ t @ [0x5D])) (after_value par A) (after_top par ?k) (?k + jsize (json_array vs))
       (close fp par ?k A @ jnodes fp ?k par (json_array vs) @ rest fp L) s'"
    using s3(2) by (intro exI [of _ s3]) (simp add: parent_simps [OF par])
qed

lemma object_runs:
  assumes e: "members_run TYPE('z) kvs t" and n: "length kvs \<le> length t + 1" "names_size (map fst kvs) \<le> length t"
  shows "value_runs TYPE('z) (json_object kvs) ([0x7B] @ t @ [0x7D])"
  unfolding value_runs_def
proof (intro allI impI)
  fix h :: "'z alloc_scheme" and fp json p r par A L s
  assume h: "avail h = None" and l: "length json < 2 ^ 31" and d: "drop p json = ([0x7B] @ t @ [0x7D]) @ r" and par: "parent_ok fp par A"
    and s: "jst_at h fp p {flag_seek_value} par (length A) (A @ before fp (length A) par (json_object kvs) L) s"
  let ?k = "length A" and ?N = "A @ before fp (length A) par (json_object kvs) L" and ?tot = "names_size (map fst kvs)"
  let ?B = "A @ [object_node fp par [] None (length kvs) ?tot]"
  have lv: "length kvs < 2 ^ 31" "?tot < 2 ^ 31" using n arg_cong [OF d, of length] l by simp_all
  have k: "if fp then ?k = length ?N else ?k < length ?N \<and> counted (?N ! ?k)"
    by (rule before_counted [OF refl]) (use lv in \<open>auto simp: counted_def object_node_def zero_jnode_def Let_def\<close>)
  have d0: "drop p json = (if False then 0x5B else 0x7B) # t @ 0x7D # r" using d by simp
  have N: "start_nodes fp ?k type_object par ?N = ?B @ (if fp then [] else jnodes_members True (length ?B) ?k kvs @ L)"
  proof (cases fp)
    case True
    then show ?thesis by (simp add: start_nodes_def before_def object_node_def zero_jnode_def Let_def)
  next
    case False
    then show ?thesis using ready_object [of par "members (?k + 1) kvs" "length kvs"] by (simp add: start_nodes_def before_def)
  qed
  from open_runs [OF s h k d0] obtain s1 where s1: "jruns json s s1"
    "jst_at h fp (Suc p) {} (Some ?k) (length ?B) (?B @ (if fp then [] else jnodes_members True (length ?B) ?k kvs @ L)) s1"
    unfolding N [symmetric] by auto
  have d1: "drop (Suc p) json = t @ 0x7D # r" using drop_Suc_Cons d by fastforce
  have B: "?k < length ?B" "?B ! ?k = object_node fp par [] None (length kvs) ?tot" "length [] + length kvs = length kvs"
    "names_size (map fst []) + ?tot = ?tot" by simp_all
  let ?M = "A @ object_node fp par (members (length ?B) kvs) None (length kvs) ?tot # jnodes_members fp (length ?B) ?k kvs @ rest fp L"
  from members_runD [OF e h l d1 B(1-3) lv(1) B(4) lv(2) s1(2)] obtain s2 where s2: "jruns json s1 s2"
    "jst_at h fp (Suc p + length t) (if kvs = [] then {} else {flag_need_comma}) (Some ?k) (length ?B + msizes kvs) ?M s2" by auto
  have M: "?k < length ?M" "jn_type (?M ! ?k) = type_object" "jn_parent (?M ! ?k) = par" by (simp_all add: nth_append)
  have F: "(if kvs = [] then {} else {flag_need_comma}) = {} \<or> (if kvs = [] then {} else {flag_need_comma}) = {flag_need_comma}" by simp
  from close_brace [OF s2(2) F M parent_ok_append [OF par] drop_append_at [OF d1]] obtain s3 where s3: "jruns json s2 s3"
    "jst_at h fp (Suc (Suc p + length t)) (after_value par ?M) (after_top par ?k) (length ?B + msizes kvs) (close fp par ?k ?M) s3" by blast
  have "jruns json s s3" using s1(1) s2(1) s3(1) by (meson rtranclp_trans)
  then show "\<exists>s'. jruns json s s' \<and> jst_at h fp (p + length ([0x7B] @ t @ [0x7D])) (after_value par A) (after_top par ?k) (?k + jsize (json_object kvs))
       (close fp par ?k A @ jnodes fp ?k par (json_object kvs) @ rest fp L) s'"
    using s3(2) by (intro exI [of _ s3]) (simp add: parent_simps [OF par])
qed

end
