(* ===== verification/Json_Theorems.thy ===== *)
theory Json_Theorems
  imports Json_Containers
begin

text \<open>
  json.c reads every text of the grammar back as the value it was written from.
\<close>

section \<open>Texts of the grammar\<close>

lemma text_bounds:
  "json_text v t \<Longrightarrow> t \<noteq> [] \<and> hd t \<noteq> 0xEF"
  "elems_text vs t \<Longrightarrow> length vs \<le> length t + 1"
  "members_text kvs t \<Longrightarrow> length kvs \<le> length t + 1 \<and> names_size (map fst kvs) \<le> length t"
proof (induction rule: json_text_elems_text_members_text.inducts)
  case (jt_integer i t)
  have "hd t \<noteq> 0xEF" using num_text_chars(3) [OF jt_integer] by (auto simp: isdigit_def)
  then show ?case using num_text_chars(1) [OF jt_integer] by simp
next
  case (mt_last w1 nm nt w2 w3 v t w4)
  then show ?case using str_text_length [OF mt_last(2)] by simp
next
  case (mt_cons w1 nm nt w2 w3 v t w4 kvs t')
  then show ?case using str_text_length [OF mt_cons(2)] by simp
qed auto

lemma text_runs:
  "json_text v t \<Longrightarrow> value_runs TYPE('z) v t"
  "elems_text vs t \<Longrightarrow> elems_run TYPE('z) vs t"
  "members_text kvs t \<Longrightarrow> members_run TYPE('z) kvs t"
proof (induction rule: json_text_elems_text_members_text.inducts)
  case (jt_array vs t)
  then show ?case using text_bounds(2) by (blast intro: array_runs)
next
  case (jt_object kvs t)
  then show ?case using text_bounds(3) by (blast intro: object_runs)
next
  case (et_nil w)
  show ?case unfolding elems_run_def
  proof (intro allI impI)
    fix h :: "'z alloc_scheme" and fp json p r j A pp cs n L s
    assume d: "drop p json = w @ 0x5D # r" and j: "A ! j = array_node fp pp cs n"
      and s: "jst_at h fp p {flag_seek_value} (Some j) (length A) (A @ (if fp then [] else jnodes_list True (length A) j [] @ L)) s"
    have "A[j := array_node fp pp cs n] = A" using j by (metis list_update_id)
    then show "\<exists>s'. jruns json s s' \<and> jst_at h fp (p + length w) (if [] = ([] :: json_value list) then {flag_seek_value} else {flag_need_comma, flag_seek_value})
       (Some j) (length A + jsizes []) (A[j := array_node fp pp (cs @ elem_ixs (length A) []) n] @ jnodes_list fp (length A) j [] @ rest fp L) s'"
      using white_runs [OF et_nil s d] by (cases fp) (simp_all add: rest_def)
  qed
next
  case (mt_nil w)
  show ?case unfolding members_run_def
  proof (intro allI impI)
    fix h :: "'z alloc_scheme" and fp json p r j A pp ms n tot L s
    assume d: "drop p json = w @ 0x7D # r" and j: "j < length A" "A ! j = object_node fp pp ms None n tot"
      and s: "jst_at h fp p {} (Some j) (length A) (A @ (if fp then [] else jnodes_members True (length A) j [] @ L)) s"
    have "A[j := object_node fp pp ms None n tot] = A" using j by (metis list_update_id)
    moreover have "object_top (Some j) (A @ (if fp then [] else jnodes_members True (length A) j [] @ L))"
      using j by (simp add: object_top_def nth_append)
    ultimately show "\<exists>s'. jruns json s s' \<and> jst_at h fp (p + length w) (if [] = ([] :: (u8 list \<times> json_value) list) then {} else {flag_need_comma})
       (Some j) (length A + msizes []) (A[j := object_node fp pp (ms @ members (length A) []) None n tot] @ jnodes_members fp (length A) j [] @ rest fp L) s'"
      using white_runs [OF mt_nil s d] by (cases fp) (simp_all add: rest_def)
  qed
qed (blast intro: string_value_runs number_runs bool_null_runs elems_last elems_cons members_last members_cons)+

section \<open>Both passes\<close>

lemma pass_text:
  assumes t: "json_text v t" and w: "ws w1" "ws w2" and h: "avail (h :: 'z alloc_scheme) = None" and l: "length (w1 @ t @ w2) < 2 ^ 31"
    and s: "jst_at h fp 0 {flag_seek_value} None 0 (if fp then [] else jnodes True 0 None v) s"
  shows "\<exists>s'. json_pass default_settings (w1 @ t @ w2) s = Some (Some (Stop s'))
    \<and> jst_at h fp (length (w1 @ t @ w2)) {flag_need_comma, flag_done} (Some 0) (jsize v) (jnodes fp 0 None v) s'"
proof -
  let ?json = "w1 @ t @ w2"
  have s0: "jst_at h fp 0 {flag_seek_value} None 0 (before fp 0 None v []) s" using s by (cases fp) (simp_all add: before_def)
  have d0: "drop 0 ?json = w1 @ t @ w2" by simp
  from white_runs [OF w(1) s0 d0] obtain s1 where s1: "jruns ?json s s1"
    "jst_at h fp (0 + length w1) {flag_seek_value} None (length ([] :: jnode list)) ([] @ before fp (length ([] :: jnode list)) None v []) s1" by auto
  have f: "follow w2" using w(2) by (cases w2) (auto simp: follow_def ws_def whitespace_def num_char_def isdigit_def)
  have par: "parent_ok fp None []" by (simp add: parent_ok_def)
  from value_runsD [OF text_runs(1) [OF t] h l drop_append_at [OF d0] f par s1(2)] obtain s2 where s2: "jruns ?json s1 s2"
    "jst_at h fp (0 + length w1 + length t) {flag_need_comma, flag_done} (Some 0) (jsize v) (jnodes fp 0 None v) s2"
    by (auto simp: after_value_def after_top_def close_def rest_def)
  have d2: "drop (0 + length w1 + length t) ?json = w2 @ []" by simp
  from white_runs [OF w(2) s2(2) d2] obtain s3 where s3: "jruns ?json s2 s3"
    "jst_at h fp (0 + length w1 + length t + length w2) {flag_need_comma, flag_done} (Some 0) (jsize v) (jnodes fp 0 None v) s3" by auto
  have "peek ?json (int (0 + length w1 + length t + length w2)) = Some 0" by (simp add: peek_def)
  from round_done [OF s3(2) this] flags_at [OF s3(2)] have "json_round default_settings ?json s3 = Some (Stop s3)"
    by (simp add: done_section_def)
  then have "json_pass default_settings ?json s3 = Some (Some (Stop s3))" by (subst json_pass.simps) simp
  moreover have "jruns ?json s s3" using s1(1) s2(1) s3(1) by (meson rtranclp_trans)
  ultimately show ?thesis using jruns_pass s3(2) by (metis add_0 add.assoc length_append)
qed

lemma first_bytes: "json_text v t \<Longrightarrow> ws w \<Longrightarrow> take 3 (w @ t @ r) \<noteq> [0xEF, 0xBB, 0xBF]"
proof -
  assume t: "json_text v t" and w: "ws w"
  have "hd (w @ t) \<noteq> 0xEF \<and> w @ t \<noteq> []" using text_bounds(1) [OF t] w by (cases w) (auto simp: ws_def whitespace_def)
  then obtain a as where "w @ t = a # as" "a \<noteq> 0xEF" by (cases "w @ t") auto
  then have e: "w @ t @ r = a # (as @ r)" "a \<noteq> 0xEF" by (metis append_assoc append_Cons)+
  show ?thesis unfolding e(1) using e(2) by simp
qed

lemma json_parse_nodes:
  assumes t: "json_text v t" and w: "ws w1" "ws w2" and h: "avail (h :: 'z alloc_scheme) = None" and l: "length (w1 @ t @ w2) < 2 ^ 31"
  shows "json_parse (w1 @ t @ w2) h = Some (Some (Parsed (jnodes False 0 None v) (Some 0) h))"
proof -
  let ?json = "w1 @ t @ w2"
  have "jst_at h True 0 {flag_seek_value} None 0 (if True then [] else jnodes True 0 None v) (init_state h)"
    by (simp add: jst_at_def init_state_def num_flags_def)
  from pass_text [OF t w h l this] obtain s1 where
    s1: "json_pass default_settings ?json (init_state h) = Some (Some (Stop s1))"
      "jst_at h True (length ?json) {flag_need_comma, flag_done} (Some 0) (jsize v) (jnodes True 0 None v) s1" by blast
  have "jst_at h False 0 {flag_seek_value} None 0 (if False then [] else jnodes True 0 None v) (second_pass s1)"
    using s1(2) by (auto simp: jst_at_def second_pass_def num_flags_def)
  from pass_text [OF t w h l this] obtain s2 where
    s2: "json_pass default_settings ?json (second_pass s1) = Some (Some (Stop s2))"
      "jst_at h False (length ?json) {flag_need_comma, flag_done} (Some 0) (jsize v) (jnodes False 0 None v) s2" by blast
  have "root s2 = Some 0" "nodes s2 = jnodes False 0 None v" "jheap s2 = h" using s2(2) by (auto simp: jst_at_def)
  then show ?thesis
    using s1(1) s2(1) first_bytes [OF t w(1), of w2] by (simp add: json_parse_def json_parse_ex_def Let_def)
qed

lemma ws_Nil: "ws []"
  by (simp add: ws_def)

text \<open>A text for the witnesses: an object with a negative number in an array.\<close>

lemma sample_text: "json_text (json_object [([0x6B], json_array [json_integer (- 7)])]) ([0x7B] @ ([] @ ([0x22] @ [0x6B] @ [0x22]) @ [] @ [0x3A] @ [] @ ([0x5B] @ ([] @ [0x2D, 0x37] @ []) @ [0x5D]) @ []) @ [0x7D])"
proof -
  have n: "num_text (- 7) [0x2D, 0x37]"
    unfolding num_text_def by (rule exI [where x = "[0x37]"]) (simp add: isdigit_def num_val_def)
  have k: "str_text [0x6B] [0x6B]" by (intro st_plain st_nil) simp_all
  show ?thesis by (intro jt_object mt_last jt_array et_last jt_integer ws_Nil n k)
qed

text \<open>
  C33: \<open>json_parse\<close> reads back every value from every text of it in the grammar \<open>json_text\<close>: strings with escapes, but without
  pairs of surrogates, integers of 63 bits and a sign, but no fractions, exponents or larger numbers, literals, arrays
  and objects in any nesting, with white space wherever JSON allows it, in a text of less than 2 ^ 31 bytes.  Both passes
  stay inside the memory that was allocated.
\<close>

theorem json_parse_reads_back:
  fixes h :: "'z alloc_scheme"
  assumes "json_text v t" and "ws w1" and "ws w2" and "mem_ok h" and "length (w1 @ t @ w2) < 2 ^ 31"
  shows "json_value_of (w1 @ t @ w2) h = Some v"
  using json_parse_nodes [OF assms] json_tree_jnodes(1) [of v "jsize v" "[]" 0 None "[]"]
  by (simp add: json_value_of_def)

theorem json_parse_reads_back_witness:
  "json_value_of ([0x20] @ [0x7B, 0x22, 0x6B, 0x22, 0x3A, 0x5B, 0x2D, 0x37, 0x5D, 0x7D] @ [10]) \<lparr>avail = None\<rparr>
    = Some (json_object [([0x6B], json_array [json_integer (- 7)])])"
  using json_parse_reads_back [where ?w1.0 = "[0x20]" and ?w2.0 = "[10]" and h = "\<lparr>avail = None\<rparr>", OF sample_text] by (simp add: ws_def whitespace_def)

section \<open>Freeing what was read\<close>

lemma free_leaf:
  assumes "length A = k" and "jn_type n \<noteq> type_array" and "jn_type n \<noteq> type_object"
  shows "free_values (A @ Some n # B) (Some k) = free_values (A @ None # B) (jn_parent n)"
proof -
  have "free_step (A @ Some n # B) k = Some (A @ None # B, jn_parent n)"
    using assms by (cases "jn_type n") (auto simp: free_step_def free_cell_def)
  then show ?thesis by (subst free_values.simps) simp
qed

lemma free_empty:
  assumes "length A = k" and "jn_type n = type_array \<or> jn_type n = type_object" and "jn_length n = 0"
  shows "free_values (A @ Some n # B) (Some k) = free_values (A @ None # B) (jn_parent n)"
  using assms by (subst free_values.simps) (auto simp: free_step_def free_cell_def)

lemma free_down:
  assumes "length A = k" and "jn_type n = type_array \<or> jn_type n = type_object" and "jn_length n = Suc l" and "l < length (jn_slots n)"
    and "snd (jn_slots n ! l) = Some c"
  shows "free_values (A @ Some n # B) (Some k) = free_values (A @ Some (n\<lparr>jn_length := l\<rparr>) # B) (Some c)"
  using assms by (subst free_values.simps) (auto simp: free_step_def last_member_def Let_def)

lemma jnodes_list_append: "jnodes_list fp k p (vs @ us) = jnodes_list fp k p vs @ jnodes_list fp (k + jsizes vs) p us"
  by (induction vs arbitrary: k) (simp_all add: ac_simps)

lemma jnodes_members_append: "jnodes_members fp k p (vs @ us) = jnodes_members fp k p vs @ jnodes_members fp (k + msizes vs) p us"
  by (induction vs arbitrary: k) (auto simp: ac_simps)

lemma sizes_append [simp]: "jsizes (vs @ us) = jsizes vs + jsizes us" "msizes (kvs @ lvs) = msizes kvs + msizes lvs"
  by (induction vs, simp_all, induction kvs, auto)

lemma elem_ixs_append: "elem_ixs k (vs @ us) = elem_ixs k vs @ elem_ixs (k + jsizes vs) us"
  by (induction vs arbitrary: k) (simp_all add: ac_simps)

lemma members_append: "members k (vs @ us) = members k vs @ members (k + msizes vs) us"
  by (induction vs arbitrary: k) (auto simp: ac_simps)

lemma map_snd_member_slots: "map snd (member_slots off ms) = map (\<lambda>(_, c). Some c) ms"
  by (induction off ms rule: member_slots.induct) simp_all

text \<open>A value whose cells lie behind \<open>A\<close> is freed as a whole.\<close>

definition freed :: "json_value \<Rightarrow> bool" where
  "freed v \<longleftrightarrow> (\<forall>A par B. free_values (A @ map Some (jnodes False (length A) par v) @ B) (Some (length A))
     = free_values (A @ replicate (jsize v) None @ B) par)"

lemma freedD: "freed v \<Longrightarrow> length A = k \<Longrightarrow> free_values (A @ map Some (jnodes False k par v) @ B) (Some k)
     = free_values (A @ replicate (jsize v) None @ B) par"
  unfolding freed_def by blast

lemma free_elems:
  assumes "\<forall>v\<in>set vs. freed v" and "length A = k" and "jn_type n = type_array" and "jn_length n = length vs"
    and "map snd (take (length vs) (jn_slots n)) = map Some (elem_ixs (k + 1) vs)"
  shows "free_values (A @ Some n # map Some (jnodes_list False (k + 1) k vs) @ B) (Some k)
    = free_values (A @ None # replicate (jsizes vs) None @ B) (jn_parent n)"
  using assms
proof (induction vs arbitrary: n B rule: rev_induct)
  case Nil
  then show ?case using free_empty [of A k n B] by simp
next
  case (snoc v vs)
  let ?c = "k + 1 + jsizes vs" and ?n = "n\<lparr>jn_length := length vs\<rparr>"
  have s: "map snd (take (Suc (length vs)) (jn_slots n)) = map Some (elem_ixs (k + 1) vs @ [?c])" using snoc.prems(5) by (simp add: elem_ixs_append)
  have l: "length vs < length (jn_slots n)" using arg_cong [OF s, of length] by (simp add: min_def split: if_splits)
  have c: "snd (jn_slots n ! length vs) = Some ?c" and p: "map snd (take (length vs) (jn_slots n)) = map Some (elem_ixs (k + 1) vs)"
    using s l by (simp_all add: take_Suc_conv_app_nth)
  have "free_values (A @ Some n # map Some (jnodes_list False (k + 1) k (vs @ [v])) @ B) (Some k)
      = free_values ((A @ Some ?n # map Some (jnodes_list False (k + 1) k vs)) @ map Some (jnodes False ?c (Some k) v) @ B) (Some ?c)"
    using free_down [OF snoc.prems(2) _ _ l c] snoc.prems(3,4) by (simp add: jnodes_list_append)
  also have "\<dots> = free_values ((A @ Some ?n # map Some (jnodes_list False (k + 1) k vs)) @ replicate (jsize v) None @ B) (Some k)"
    using snoc.prems(1,2) by (intro freedD) simp_all
  also have "\<dots> = free_values (A @ None # replicate (jsizes vs) None @ replicate (jsize v) None @ B) (jn_parent n)"
    using snoc.IH [of ?n "replicate (jsize v) None @ B"] snoc.prems(1,2,3) p by simp
  finally show ?case by (simp add: replicate_add)
qed

lemma free_members:
  assumes "\<forall>v\<in>snd ` set kvs. freed v" and "length A = k" and "jn_type n = type_object" and "jn_length n = length kvs"
    and "map snd (take (length kvs) (jn_slots n)) = map (\<lambda>(_, c). Some c) (members (k + 1) kvs)"
  shows "free_values (A @ Some n # map Some (jnodes_members False (k + 1) k kvs) @ B) (Some k)
    = free_values (A @ None # replicate (msizes kvs) None @ B) (jn_parent n)"
  using assms
proof (induction kvs arbitrary: n B rule: rev_induct)
  case Nil
  then show ?case using free_empty [of A k n B] by simp
next
  case (snoc kv kvs)
  obtain x v where kv: "kv = (x, v)" by (cases kv)
  let ?c = "k + 1 + msizes kvs" and ?n = "n\<lparr>jn_length := length kvs\<rparr>"
  have s: "map snd (take (Suc (length kvs)) (jn_slots n)) = map (\<lambda>(_, c). Some c) (members (k + 1) kvs) @ [Some ?c]"
    using snoc.prems(5) by (simp add: members_append kv)
  have l: "length kvs < length (jn_slots n)" using arg_cong [OF s, of length] by (simp add: min_def split: if_splits)
  have c: "snd (jn_slots n ! length kvs) = Some ?c"
    and p: "map snd (take (length kvs) (jn_slots n)) = map (\<lambda>(_, c). Some c) (members (k + 1) kvs)"
    using s l by (simp_all add: take_Suc_conv_app_nth)
  have "free_values (A @ Some n # map Some (jnodes_members False (k + 1) k (kvs @ [kv])) @ B) (Some k)
      = free_values ((A @ Some ?n # map Some (jnodes_members False (k + 1) k kvs)) @ map Some (jnodes False ?c (Some k) v) @ B) (Some ?c)"
    using free_down [OF snoc.prems(2) _ _ l c] snoc.prems(3,4) by (simp add: jnodes_members_append kv)
  also have "\<dots> = free_values ((A @ Some ?n # map Some (jnodes_members False (k + 1) k kvs)) @ replicate (jsize v) None @ B) (Some k)"
    using snoc.prems(1,2) by (intro freedD) (simp_all add: kv)
  also have "\<dots> = free_values (A @ None # replicate (msizes kvs) None @ replicate (jsize v) None @ B) (jn_parent n)"
    using snoc.IH [of ?n "replicate (jsize v) None @ B"] snoc.prems(1,2,3) p by simp
  finally show ?case by (simp add: replicate_add kv)
qed

lemma all_freed: "freed v"
proof (induction v)
  case (json_object kvs)
  then have all: "\<forall>v\<in>snd ` set kvs. freed v" by (fastforce simp: snds.simps)
  show ?case unfolding freed_def
  proof (intro allI)
    fix A B :: cells and par
    let ?n = "object_node False par (members (length A + 1) kvs) None (length kvs) (names_size (map fst kvs))"
    have "map snd (take (length kvs) (jn_slots ?n)) = map (\<lambda>(_, c). Some c) (members (length A + 1) kvs)"
      by (simp add: object_node_def zero_jnode_def Let_def flip: map_snd_member_slots [of 0])
    moreover have "jn_type ?n = type_object" "jn_length ?n = length kvs" "jn_parent ?n = par" by (simp_all add: object_node_def zero_jnode_def Let_def)
    ultimately show "free_values (A @ map Some (jnodes False (length A) par (json_object kvs)) @ B) (Some (length A))
        = free_values (A @ replicate (jsize (json_object kvs)) None @ B) par"
      using free_members [OF all refl, of ?n A B] by simp
  qed
next
  case (json_array vs)
  then have all: "\<forall>v\<in>set vs. freed v" by blast
  show ?case unfolding freed_def
  proof (intro allI)
    fix A B :: cells and par
    let ?n = "array_node False par (elem_ixs (length A + 1) vs) (length vs)"
    have "map snd (take (length vs) (jn_slots ?n)) = map Some (elem_ixs (length A + 1) vs)"
      by (simp add: array_node_def zero_jnode_def comp_def)
    moreover have "jn_type ?n = type_array" "jn_length ?n = length vs" "jn_parent ?n = par" by (simp_all add: array_node_def zero_jnode_def)
    ultimately show "free_values (A @ map Some (jnodes False (length A) par (json_array vs)) @ B) (Some (length A))
        = free_values (A @ replicate (jsize (json_array vs)) None @ B) par"
      using free_elems [OF all refl, of ?n A B] by simp
  qed
qed (simp_all add: freed_def free_leaf zero_jnode_def)

text \<open>
  C34: What \<open>json_parse\<close> makes of a text of the grammar \<open>json_text\<close> is a tree of values that \<open>json_value_free\<close> frees completely: it ends, touches nothing
  that was freed and leaves none of the values behind.
\<close>

theorem json_value_free_frees_all:
  fixes h :: "'z alloc_scheme"
  assumes "json_text v t" and "ws w1" and "ws w2" and "mem_ok h" and "length (w1 @ t @ w2) < 2 ^ 31"
  shows "\<exists>N r. json_parse (w1 @ t @ w2) h = Some (Some (Parsed N r h)) \<and> json_value_free (map Some N) r = Some (Some (replicate (length N) None))"
proof -
  let ?N = "jnodes False 0 None v"
  have "?N ! 0 = hd ?N" "?N \<noteq> []" "jn_parent (hd ?N) = None"
    by (cases v; simp add: array_node_def object_node_def zero_jnode_def Let_def)+
  moreover have z: "jsize v \<noteq> 0" by (metis jsize_pos less_irrefl)
  ultimately have "(map Some ?N)[0 := Some ((?N ! 0)\<lparr>jn_parent := None\<rparr>)] = map Some ?N"
    by (cases ?N) simp_all
  then have "json_value_free (map Some ?N) (Some 0) = free_values ([] @ map Some (jnodes False 0 None v) @ []) (Some 0)"
    using \<open>?N \<noteq> []\<close> by (simp add: json_value_free_def json_value_free_ex_def z)
  also have "\<dots> = free_values (replicate (jsize v) None) None" using freedD [OF all_freed, of "[]" 0 None v "[]"] by simp
  also have "\<dots> = Some (Some (replicate (length ?N) None))" by (subst free_values.simps) simp
  finally show ?thesis using json_parse_nodes [OF assms] by blast
qed

theorem json_value_free_frees_all_witness:
  "\<exists>N r. json_parse ([0x20] @ [0x7B, 0x22, 0x6B, 0x22, 0x3A, 0x5B, 0x2D, 0x37, 0x5D, 0x7D] @ [10]) \<lparr>avail = None\<rparr>
      = Some (Some (Parsed N r \<lparr>avail = None\<rparr>)) \<and> json_value_free (map Some N) r = Some (Some (replicate (length N) None))"
  using json_value_free_frees_all [where ?w1.0 = "[0x20]" and ?w2.0 = "[10]" and h = "\<lparr>avail = None\<rparr>", OF sample_text]
  by (simp add: ws_def whitespace_def)

end
