(* ===== verification/Test_Writer.thy ===== *)
theory Test_Writer
  imports Json_Theorems Harness
begin

text \<open>
  encode\_util/encode.c: it reads a secret and a public word from the terminal and writes the test case that
  decode\_inputs.c takes apart.
\<close>

section \<open>The library functions\<close>

text \<open>\<open>scanf("%s", buf)\<close>: white space is skipped and a word is stored with a NUL; without any word the buffer stays as it was.\<close>

definition isspace :: "u8 \<Rightarrow> bool" where
  "isspace b \<longleftrightarrow> b = 0x20 \<or> 9 \<le> b \<and> b \<le> 13"

definition scanf_s :: "mem \<Rightarrow> u8 list \<Rightarrow> (mem \<times> u8 list) option" where
  "scanf_s buf inp = (let inp = dropWhile isspace inp; word = takeWhile (\<lambda>b. \<not> isspace b) inp in
     if word = [] then Some (buf, inp)
     else if length word < length buf then Some (map Some (word @ [0]) @ drop (length word + 1) buf, drop (length word) inp)
     else None)"

text \<open>The C string at the start of a buffer.\<close>

fun cstr_at :: "mem \<Rightarrow> u8 list option" where
  "cstr_at (Some b # m) = (if b = 0 then Some [] else map_option ((#) b) (cstr_at m))"
| "cstr_at _ = None"

text \<open>\<open>snprintf\<close> for a format with \<open>%s\<close> only: the length of the text, and what of it is stored.\<close>

fun format_s :: "u8 list \<Rightarrow> u8 list list \<Rightarrow> u8 list option" where
  "format_s [] args = Some []"
| "format_s (c # f) args =
    (if c = 0x25 then (case (f, args) of (d # f, a # args) \<Rightarrow> if d = 0x73 then map_option ((@) a) (format_s f args) else None | _ \<Rightarrow> None)
     else map_option ((#) c) (format_s f args))"

definition snprintf :: "mem \<Rightarrow> u8 list \<Rightarrow> u8 list list \<Rightarrow> (int \<times> mem) option" where
  "snprintf buf f args = do {
     t \<leftarrow> format_s f args;
     n \<leftarrow> as_int (int (length t));
     Some (n, if buf = [] then [] else
       let t = take (length buf - 1) t in map Some (t @ [0]) @ drop (length t + 1) buf)
   }"

section \<open>main\<close>

definition json_out_template :: "u8 list" where
  "json_out_template = [0x7B, 0x0A, 0x20, 0x20, 0x22] @ PUBLIC_KEY @ [0x22, 0x3A, 0x20, 0x22, 0x25, 0x73, 0x22, 0x2C, 0x0A, 0x20, 0x20, 0x22]
     @ SECRET_KEY @ [0x22, 0x3A, 0x20, 0x22, 0x25, 0x73, 0x22, 0x0A, 0x7D]"

text \<open>One input in base64, in a block of its own; a failed \<open>malloc\<close> lets the encoder write to NULL.\<close>

definition encode_input :: "u32 \<Rightarrow> u8 list \<Rightarrow> 'z alloc_scheme \<Rightarrow> (u8 list \<times> 'z alloc_scheme) option" where
  "encode_input expected_len inp h = (case try_alloc h of
     (False, h) \<Rightarrow> None
   | (True, h) \<Rightarrow> do {
       (n, m) \<leftarrow> Base64encode (replicate (unat expected_len) None) inp (int (length inp));
       t \<leftarrow> cstr_at m;
       Some (t, h)
     })"

text \<open>From the two strings to the text of the test case, with its length and the size of its block.\<close>

definition combine :: "u8 list \<Rightarrow> u8 list \<Rightarrow> 'z alloc_scheme \<Rightarrow> ((u8 list \<times> u8 list \<times> u32 \<times> u8 list \<times> int) \<times> 'z alloc_scheme) option" where
  "combine public_input secret_input h = do {
     p \<leftarrow> Base64encode_len (int (length public_input));
     s \<leftarrow> Base64encode_len (int (length secret_input));
     let expected_len = of_nat (length json_out_template) + of_int p + of_int s in do {
     (encoded_public, h) \<leftarrow> encode_input expected_len public_input h;
     (encoded_secret, h) \<leftarrow> encode_input expected_len secret_input h;
     case try_alloc h of
       (False, h) \<Rightarrow> None
     | (True, h) \<Rightarrow> do {
         (len, m) \<leftarrow> snprintf (replicate (unat expected_len) None) json_out_template [encoded_public, encoded_secret];
         combined \<leftarrow> cstr_at m;
         Some ((encoded_public, encoded_secret, expected_len, combined, len), h)
       }
   }}"

text \<open>The buffers of the two words are \<open>old_secret\<close> and \<open>old_public\<close> before, of 80 bytes each.\<close>

definition encode_main :: "mem \<Rightarrow> mem \<Rightarrow> u8 list \<Rightarrow> 'z alloc_scheme \<Rightarrow> run option" where
  "encode_main old_secret old_public inp h = do {
     (secret_input, inp) \<leftarrow> scanf_s old_secret inp;
     (public_input, inp) \<leftarrow> scanf_s old_public inp;
     public_input \<leftarrow> cstr_at public_input;
     secret_input \<leftarrow> cstr_at secret_input;
     ((encoded_public, encoded_secret, expected_len, combined_buf, combined_buf_len), h) \<leftarrow> combine public_input secret_input h;
     let out = [Text ''enter secret:'', nl, Text ''enter public:'', nl, Text ''encoded_pub: '', Raw encoded_public, nl, Text ''encoded_sec: '',
       Raw encoded_secret, nl, Text ''template: '', Raw json_out_template, nl, Text ''expected_len: '', Num (uint expected_len), nl, nl] in
     if expected_len \<le> of_int combined_buf_len
     then Some (1, out @ [Text ''Would expect the output str to be shorter than '', Num (uint expected_len), Text '' characters, '', nl,
       Text ''RAW: '', Raw combined_buf])
     else Some (0, out @ [Text ''Combined_buf (len: '', Num combined_buf_len, Text ''): '', Raw combined_buf, nl])
   }"

section \<open>Words and strings\<close>

lemma scanf_word:
  assumes "list_all isspace w" and "word \<noteq> []" and "\<forall>b\<in>set word. \<not> isspace b" and "length word < length buf"
    and "r = [] \<or> isspace (hd r)"
  shows "scanf_s buf (w @ word @ r) = Some (map Some (word @ [0]) @ drop (length word + 1) buf, r)"
proof -
  have "dropWhile isspace (w @ word @ r) = word @ r"
    using assms(1,2,3) by (simp add: list_all_iff dropWhile_append2 dropWhile_eq_self_iff)
  moreover have "takeWhile (\<lambda>b. \<not> isspace b) (word @ r) = word"
    using assms(3,5) by (cases r) (simp_all add: takeWhile_append2 takeWhile_append)
  ultimately show ?thesis using assms(2,4) by (simp add: scanf_s_def Let_def)
qed

lemma cstr_at_map: "0 \<notin> set t \<Longrightarrow> cstr_at (map Some t @ Some 0 # m) = Some t"
  by (induction t) auto

lemma format_s_plain: "0x25 \<notin> set f \<Longrightarrow> format_s (f @ g) args = map_option ((@) f) (format_s g args)"
  by (induction f) (auto simp: option.map_comp comp_def option.map_id0 [unfolded id_def], cases "format_s g args"; simp)+

lemma format_s_arg: "format_s (0x25 # 0x73 # f) (a # args) = map_option ((@) a) (format_s f args)"
  by simp

section \<open>The text of a test case\<close>

definition testcase_text :: "u8 list \<Rightarrow> u8 list \<Rightarrow> u8 list" where
  "testcase_text p s = [0x7B] @ ([0x0A, 0x20, 0x20] @ ([0x22] @ PUBLIC_KEY @ [0x22]) @ [] @ [0x3A] @ [0x20] @ ([0x22] @ p @ [0x22]) @ [] @ [0x2C]
     @ ([0x0A, 0x20, 0x20] @ ([0x22] @ SECRET_KEY @ [0x22]) @ [] @ [0x3A] @ [0x20] @ ([0x22] @ s @ [0x22]) @ [0x0A])) @ [0x7D]"

lemma key_bytes: "PUBLIC_KEY = [0x50, 0x55, 0x42, 0x4C, 0x49, 0x43]" "SECRET_KEY = [0x53, 0x45, 0x43, 0x52, 0x45, 0x54]"
  by code_simp+

lemma format_template: "format_s json_out_template [p, s] = Some (testcase_text p s)"
proof -
  let ?A = "[0x7B, 0x0A, 0x20, 0x20, 0x22] @ PUBLIC_KEY @ [0x22, 0x3A, 0x20, 0x22]" and ?B = "[0x22, 0x2C, 0x0A, 0x20, 0x20, 0x22] @ SECRET_KEY @ [0x22, 0x3A, 0x20, 0x22]"
  have t: "json_out_template = ?A @ 0x25 # 0x73 # ?B @ 0x25 # 0x73 # [0x22, 0x0A, 0x7D] @ []" by (simp add: json_out_template_def)
  have "0x25 \<notin> set ?A" "0x25 \<notin> set ?B" "0x25 \<notin> set [0x22, 0x0A, 0x7D :: u8]" by (simp_all add: key_bytes)
  note n = this [THEN format_s_plain]
  have "format_s json_out_template [p, s] = Some (?A @ p @ ?B @ s @ [0x22, 0x0A, 0x7D] @ [])"
    unfolding t n format_s_arg format_s.simps(1) option.map by (rule refl)
  then show ?thesis by (simp add: testcase_text_def)
qed

lemma length_template: "length json_out_template = 38" "length (testcase_text p s) = 34 + length p + length s"
  by (simp_all add: json_out_template_def testcase_text_def key_bytes)

definition plain :: "u8 list \<Rightarrow> bool" where
  "plain bs \<longleftrightarrow> (\<forall>b\<in>set bs. b \<noteq> 0 \<and> b \<noteq> 0x22 \<and> b \<noteq> 0x5C)"

lemma plain_text: "plain bs \<Longrightarrow> str_text bs bs"
  by (induction bs) (auto simp: plain_def intro: st_nil st_plain)

lemma plain_keys: "plain PUBLIC_KEY" "plain SECRET_KEY"
  by (simp_all add: plain_def key_bytes)

lemma plain_digit: "is_digit64 b \<Longrightarrow> b \<noteq> 0 \<and> b \<noteq> 0x22 \<and> b \<noteq> 0x5C"
proof -
  have "\<not> is_digit64 0x22" "\<not> is_digit64 0x5C" by code_simp+
  then show "is_digit64 b \<Longrightarrow> b \<noteq> 0 \<and> b \<noteq> 0x22 \<and> b \<noteq> 0x5C" by auto
qed

lemma plain_b64: "plain (b64 bs)"
  by (induction bs rule: b64.induct) (simp_all add: plain_def plain_digit)

lemma json_testcase_text:
  assumes "plain p" and "plain s"
  shows "json_text (json_object [(PUBLIC_KEY, json_string p), (SECRET_KEY, json_string s)]) (testcase_text p s)"
proof -
  have w: "ws [0x0A, 0x20, 0x20]" "ws [0x20]" "ws [0x0A]" by (simp_all add: ws_def whitespace_def)
  show ?thesis unfolding testcase_text_def
    by (intro jt_object mt_cons mt_last jt_string plain_text assms plain_keys w ws_Nil) simp
qed

lemma plain_nonzero: "plain bs \<Longrightarrow> 0 \<notin> set bs"
  by (auto simp: plain_def)

lemma testcase_text_nonzero: "plain p \<Longrightarrow> plain s \<Longrightarrow> 0 \<notin> set (testcase_text p s)"
  by (auto simp: plain_def testcase_text_def key_bytes)

section \<open>The whole writer\<close>

lemma encode_input_ok:
  assumes "mem_ok h" and "length (b64 inp) < unat expected_len"
  shows "encode_input expected_len inp h = Some (b64 inp, h)"
  using assms Base64encode_ok [of inp "replicate (unat expected_len) None"] cstr_at_map [OF plain_nonzero [OF plain_b64], of inp]
  by (simp add: encode_input_def)

lemma combine_ok:
  fixes h :: "'z alloc_scheme"
  assumes "mem_ok h" and "length pub < 700000000" and "length sec < 700000000"
  shows "combine pub sec h = Some ((b64 pub, b64 sec, of_nat (length (b64 pub) + length (b64 sec) + 40), testcase_text (b64 pub) (b64 sec),
      int (length (b64 pub) + length (b64 sec) + 34)), h)"
proof -
  let ?p = "b64 pub" and ?s = "b64 sec"
  let ?n = "length ?p + length ?s + 40"
  have "(length pub + 2) div 3 \<le> 700000001 div 3" "(length sec + 2) div 3 \<le> 700000001 div 3" using assms(2,3) by (intro div_le_mono, simp)+
  then have l: "length ?p \<le> 933333332" "length ?s \<le> 933333332" by (simp_all add: length_b64)
  then have len: "Base64encode_len (int (length pub)) = Some (int (length ?p + 1))" "Base64encode_len (int (length sec)) = Some (int (length ?s + 1))"
    by (intro Base64encode_len_ok; simp)+
  define N :: u32 where "N = of_nat (length json_out_template) + of_int (int (length ?p + 1)) + of_int (int (length ?s + 1))"
  have N: "N = of_nat ?n" by (simp add: N_def length_template)
  have u: "unat N = ?n" unfolding N using l by (intro unat_of_nat_u32) simp
  have en: "encode_input N pub h = Some (?p, h)" "encode_input N sec h = Some (?s, h)"
    using assms(1) by (intro encode_input_ok; simp add: u)+
  let ?t = "testcase_text ?p ?s"
  have sn: "snprintf (replicate (unat N) None) json_out_template [?p, ?s]
      = Some (int (length ?t), map Some ?t @ Some 0 # replicate (?n - (length ?t + 1)) None)"
    using l unfolding u by (simp add: snprintf_def format_template as_int_def length_template Let_def)
  have st: "cstr_at (map Some ?t @ Some 0 # replicate (?n - (length ?t + 1)) None) = Some ?t"
    by (intro cstr_at_map testcase_text_nonzero plain_b64)
  have "combine pub sec h = Some ((?p, ?s, N, ?t, int (length ?t)), h)"
    unfolding combine_def len Option.bind.bind_lunit Let_def N_def [symmetric] by (simp only: en sn st assms(1) try_alloc_ok Option.bind.bind_lunit prod.case bool.case)
  then show ?thesis unfolding N by (simp add: length_template add.commute)
qed

lemma read_testcase_text:
  fixes h :: "'z alloc_scheme"
  assumes "mem_ok h" and "length pub < 700000000" and "length sec < 700000000"
  shows "\<exists>p pn s sn. find_public_and_secret_inputs_checked (\<lambda>t. json_value_of t h) (testcase_text (b64 pub) (b64 sec)) h
      = Some (Ret (((Some p, pn), (Some s, sn)), h))
    \<and> unat pn = length pub \<and> take (unat pn) p = map Some pub \<and> unat sn = length sec \<and> take (unat sn) s = map Some sec"
proof -
  let ?t = "testcase_text (b64 pub) (b64 sec)"
  have "(length pub + 2) div 3 \<le> 700000001 div 3" "(length sec + 2) div 3 \<le> 700000001 div 3" using assms(2,3) by (intro div_le_mono, simp)+
  then have l: "length (b64 pub) \<le> 933333332" "length (b64 sec) \<le> 933333332" by (simp_all add: length_b64)
  have "json_parse ([] @ ?t @ []) h = Some (Some (Parsed (jnodes False 0 None (json_object
      [(PUBLIC_KEY, json_string (b64 pub)), (SECRET_KEY, json_string (b64 sec))])) (Some 0) h))"
    using l assms(1) by (intro json_parse_nodes json_testcase_text plain_b64 ws_Nil) (simp_all add: length_template)
  then have v: "json_value_of ?t h = Some (json_object [(PUBLIC_KEY, json_string (b64 pub)), (SECRET_KEY, json_string (b64 sec))])"
    using json_tree_jnodes(1) [of _ _ "[]" 0 None "[]"] by (simp add: json_value_of_def del: jnodes.simps json_tree.simps)
  obtain p pn where 1: "decode_raw (b64 pub) h = Some ((p, pn), h)" "unat pn = length pub" "take (unat pn) p = map Some pub"
    using decode_raw_ok [of "b64 pub" h] un64_b64 [of pub] l assms(1) by auto
  obtain s sn where 2: "decode_raw (b64 sec) h = Some ((s, sn), h)" "unat sn = length sec" "take (unat sn) s = map Some sec"
    using decode_raw_ok [of "b64 sec" h] un64_b64 [of sec] l assms(1) by auto
  have "c_str PUBLIC_KEY = PUBLIC_KEY" "c_str SECRET_KEY = SECRET_KEY" by code_simp+
  then show ?thesis using 1 2 v by (simp add: find_public_and_secret_inputs_checked_def find_inputs_def)
qed

text \<open>
  C35: The program of encode\_util turns every pair of words of less than 80 characters into a test case that the
  harnesses read back, with the parser of json.c and the decoder of base64.c, as the same two inputs.
\<close>

theorem encode_main_roundtrip:
  fixes h :: "'z alloc_scheme"
  assumes "mem_ok h" and "length old_secret = 80" and "length old_public = 80"
    and "list_all isspace w1" and "list_all isspace w2" and "w2 \<noteq> []" and "w3 = [] \<or> isspace (hd w3)"
    and "sec \<noteq> []" and "pub \<noteq> []" and "\<forall>b\<in>set sec \<union> set pub. b \<noteq> 0 \<and> \<not> isspace b" and "length sec < 80" and "length pub < 80"
  shows "\<exists>out txt p pn s sn. encode_main old_secret old_public (w1 @ sec @ w2 @ pub @ w3) h = Some (0, out @ [Raw txt, nl])
    \<and> find_public_and_secret_inputs_checked (\<lambda>t. json_value_of t h) txt h = Some (Ret (((Some p, pn), (Some s, sn)), h))
    \<and> unat pn = length pub \<and> take (unat pn) p = map Some pub \<and> unat sn = length sec \<and> take (unat sn) s = map Some sec"
proof -
  have w: "w2 @ pub @ w3 = [] \<or> isspace (hd (w2 @ pub @ w3))" using assms(5,6) by (cases w2) simp_all
  have 1: "scanf_s old_secret (w1 @ sec @ w2 @ pub @ w3) = Some (map Some (sec @ [0]) @ drop (length sec + 1) old_secret, w2 @ pub @ w3)"
    using assms(2,8,10,11) by (intro scanf_word assms(4) w) auto
  have 2: "scanf_s old_public (w2 @ pub @ w3) = Some (map Some (pub @ [0]) @ drop (length pub + 1) old_public, w3)"
    using assms(3,9,10,12) by (intro scanf_word assms(5,7)) auto
  have 3: "cstr_at (map Some (sec @ [0]) @ m) = Some sec" "cstr_at (map Some (pub @ [0]) @ m) = Some pub" for m
    using cstr_at_map [of sec] cstr_at_map [of pub] assms(10) by auto
  have "length pub < 700000000" "length sec < 700000000" using assms(11,12) by simp_all
  note l = assms(1) this
  let ?n = "length (b64 pub) + length (b64 sec)"
  have "?n < 300" using assms(11,12) by (simp add: length_b64)
  then have "unat (of_nat (?n + 40) :: u32) = ?n + 40" "unat (of_int (int (?n + 34)) :: u32) = ?n + 34"
    unfolding of_int_of_nat_eq by (intro unat_of_nat_u32; simp)+
  then have "\<not> (of_nat (?n + 40) :: u32) \<le> of_int (int (?n + 34))" unfolding word_le_nat_alt by simp
  then have "\<exists>out. encode_main old_secret old_public (w1 @ sec @ w2 @ pub @ w3) h = Some (0, out @ [Raw (testcase_text (b64 pub) (b64 sec)), nl])"
    unfolding encode_main_def by (simp add: 1 2 3 combine_ok [OF l] del: map_append of_nat_add)
  then show ?thesis using read_testcase_text [OF l] by blast
qed

theorem encode_main_roundtrip_witness:
  "\<exists>out txt p pn s sn. encode_main (replicate 80 None) (replicate 80 None) [0x73, 0x33, 10, 0x70, 10] \<lparr>avail = None\<rparr> = Some (0, out @ [Raw txt, nl])
    \<and> find_public_and_secret_inputs_checked (\<lambda>t. json_value_of t \<lparr>avail = None\<rparr>) txt \<lparr>avail = None\<rparr>
      = Some (Ret (((Some p, pn), (Some s, sn)), \<lparr>avail = None\<rparr>))
    \<and> unat pn = Suc 0 \<and> take (unat pn) p = [Some 0x70] \<and> unat sn = Suc (Suc 0) \<and> take (unat sn) s = [Some 0x73, Some 0x33]"
  using encode_main_roundtrip [of "\<lparr>avail = None\<rparr>" "replicate 80 None" "replicate 80 None" "[]" "[10]" "[10]" "[0x73, 0x33]" "[0x70]"]
  by (simp add: isspace_def)

end
