(* ===== verification/Vpn_Setting.thy ===== *)
theory Vpn_Setting
  imports Harness
begin

text \<open>
  libnm-util/nm-setting-vpn.c of NetworkManager, the VPN setting whose secrets go to the log when they are
  destroyed (CVE-2011-1943), and the harness around it.  Strings are C strings without their NUL.
\<close>

type_synonym cstr = "u8 list"

abbreviation str :: "string \<Rightarrow> cstr" where
  "str s \<equiv> map of_char s"

section \<open>GLib\<close>

text \<open>
  The hash table of GLib is a parameter: its operations, on a type of tables.  Insertion and removal also give the
  values that they hand to the destroy function of the table.  \<open>g_items\<close> is the order of its iterators, \<open>g_failed\<close> the
  text that \<open>g_return_if_fail\<close> logs for a function and an expression.
\<close>

record 'g glib =
  g_new :: 'g
  g_insert :: "cstr \<Rightarrow> cstr \<Rightarrow> 'g \<Rightarrow> 'g \<times> cstr list"
  g_lookup :: "cstr \<Rightarrow> 'g \<Rightarrow> cstr option"
  g_remove :: "cstr \<Rightarrow> 'g \<Rightarrow> 'g \<times> cstr list"
  g_remove_all :: "'g \<Rightarrow> 'g \<times> cstr list"
  g_items :: "'g \<Rightarrow> (cstr \<times> cstr) list"
  g_failed :: "string \<Rightarrow> string \<Rightarrow> cstr"

text \<open>What its documentation promises.\<close>

definition glib_ok :: "'g glib \<Rightarrow> bool" where
  "glib_ok G \<longleftrightarrow> (\<lambda>x. g_lookup G x (g_new G)) = Map.empty
    \<and> (\<forall>k v t. (\<lambda>x. g_lookup G x (fst (g_insert G k v t))) = (\<lambda>x. g_lookup G x t)(k \<mapsto> v)
        \<and> snd (g_insert G k v t) = (case g_lookup G k t of None \<Rightarrow> [] | Some w \<Rightarrow> [w]))
    \<and> (\<forall>k t. (\<lambda>x. g_lookup G x (fst (g_remove G k t))) = (\<lambda>x. g_lookup G x t)(k := None)
        \<and> snd (g_remove G k t) = (case g_lookup G k t of None \<Rightarrow> [] | Some w \<Rightarrow> [w]))
    \<and> (\<forall>t. (\<lambda>x. g_lookup G x (fst (g_remove_all G t))) = Map.empty \<and> snd (g_remove_all G t) = map snd (g_items G t))
    \<and> (\<forall>t. distinct (map fst (g_items G t)) \<and> map_of (g_items G t) = (\<lambda>x. g_lookup G x t))"

text \<open>What is logged: a level and a text.\<close>

datatype log_level =
    G_LOG_FLAG_RECURSION | G_LOG_FLAG_FATAL | G_LOG_LEVEL_ERROR | G_LOG_LEVEL_CRITICAL | G_LOG_LEVEL_WARNING
  | G_LOG_LEVEL_MESSAGE | G_LOG_LEVEL_INFO | G_LOG_LEVEL_DEBUG | G_LOG_LEVEL_MASK

type_synonym log = "(log_level \<times> cstr) list"

text \<open>\<open>g_return_if_fail\<close>, one after the other: the first condition that does not hold is logged.\<close>

fun return_if_fail :: "'g glib \<Rightarrow> string \<Rightarrow> (bool \<times> string) list \<Rightarrow> log option" where
  "return_if_fail G func [] = None"
| "return_if_fail G func ((c, expr) # cs) =
    (if c then return_if_fail G func cs else Some [(G_LOG_LEVEL_CRITICAL, g_failed G func expr)])"

section \<open>The setting\<close>

record 'g vpn_setting =
  service_type :: "cstr option"
  user_name :: "cstr option"
  data :: 'g
  secrets :: 'g

definition destroy_one_secret :: "cstr \<Rightarrow> log_level \<times> cstr" where
  "destroy_one_secret secret = (G_LOG_LEVEL_MESSAGE, str ''destroy_one_secret: destroying '' @ secret)"

definition nm_setting_vpn_new :: "'g glib \<Rightarrow> 'g vpn_setting" where
  "nm_setting_vpn_new G = \<lparr>service_type = None, user_name = None, data = g_new G, secrets = g_new G\<rparr>"

definition nm_setting_vpn_get_service_type :: "'g vpn_setting \<Rightarrow> cstr option" where
  "nm_setting_vpn_get_service_type s = service_type s"

definition nm_setting_vpn_get_user_name :: "'g vpn_setting \<Rightarrow> cstr option" where
  "nm_setting_vpn_get_user_name s = user_name s"

text \<open>A NULL key or item is None; looking one up ends in the hash function.\<close>

definition nm_setting_vpn_add_data_item :: "'g glib \<Rightarrow> cstr option \<Rightarrow> cstr option \<Rightarrow> 'g vpn_setting \<Rightarrow> 'g vpn_setting \<times> log" where
  "nm_setting_vpn_add_data_item G key item s =
    (case return_if_fail G ''nm_setting_vpn_add_data_item'' [(key \<noteq> None, ''key != NULL''), (key \<noteq> Some [], ''strlen (key) > 0''),
       (item \<noteq> None, ''item != NULL''), (item \<noteq> Some [], ''strlen (item) > 0'')] of
       Some l \<Rightarrow> (s, l)
     | None \<Rightarrow> (s\<lparr>data := fst (g_insert G (the key) (the item) (data s))\<rparr>, []))"

definition nm_setting_vpn_get_data_item :: "'g glib \<Rightarrow> cstr option \<Rightarrow> 'g vpn_setting \<Rightarrow> cstr option option" where
  "nm_setting_vpn_get_data_item G key s = map_option (\<lambda>key. g_lookup G key (data s)) key"

definition nm_setting_vpn_remove_data_item :: "'g glib \<Rightarrow> cstr option \<Rightarrow> 'g vpn_setting \<Rightarrow> 'g vpn_setting option" where
  "nm_setting_vpn_remove_data_item G key s = map_option (\<lambda>key. s\<lparr>data := fst (g_remove G key (data s))\<rparr>) key"

definition nm_setting_vpn_add_secret :: "'g glib \<Rightarrow> cstr option \<Rightarrow> cstr option \<Rightarrow> 'g vpn_setting \<Rightarrow> 'g vpn_setting \<times> log" where
  "nm_setting_vpn_add_secret G key secret s =
    (case return_if_fail G ''nm_setting_vpn_add_secret'' [(key \<noteq> None, ''key != NULL''), (key \<noteq> Some [], ''strlen (key) > 0''),
       (secret \<noteq> None, ''secret != NULL''), (secret \<noteq> Some [], ''strlen (secret) > 0'')] of
       Some l \<Rightarrow> (s, l)
     | None \<Rightarrow> let (t, old) = g_insert G (the key) (the secret) (secrets s) in (s\<lparr>secrets := t\<rparr>, map destroy_one_secret old))"

definition nm_setting_vpn_get_secret :: "'g glib \<Rightarrow> cstr option \<Rightarrow> 'g vpn_setting \<Rightarrow> cstr option option" where
  "nm_setting_vpn_get_secret G key s = map_option (\<lambda>key. g_lookup G key (secrets s)) key"

definition nm_setting_vpn_remove_secret :: "'g glib \<Rightarrow> cstr option \<Rightarrow> 'g vpn_setting \<Rightarrow> ('g vpn_setting \<times> log) option" where
  "nm_setting_vpn_remove_secret G key s = map_option (\<lambda>key.
     let (t, old) = g_remove G key (secrets s) in (s\<lparr>secrets := t\<rparr>, map destroy_one_secret old)) key"

text \<open>\<open>func\<close> may change the table, which is a part \<open>hash\<close> of the state; the keys are those of the beginning.\<close>

definition foreach_item_helper :: "'g glib \<Rightarrow> ('s \<Rightarrow> 'g) \<Rightarrow> (cstr \<Rightarrow> cstr option \<Rightarrow> 's \<Rightarrow> 's) \<Rightarrow> 's \<Rightarrow> 's" where
  "foreach_item_helper G hash func s = fold (\<lambda>k s. func k (g_lookup G k (hash s)) s) (map fst (g_items G (hash s))) s"

definition nm_setting_vpn_foreach_data_item where
  "nm_setting_vpn_foreach_data_item G func s = foreach_item_helper G (\<lambda>(s, u). data s) func s"

definition nm_setting_vpn_foreach_secret where
  "nm_setting_vpn_foreach_secret G func s = foreach_item_helper G (\<lambda>(s, u). secrets s) func s"

section \<open>The methods of the class\<close>

datatype error_code =
    NM_SETTING_VPN_ERROR_MISSING_PROPERTY | NM_SETTING_VPN_ERROR_INVALID_PROPERTY | NM_SETTING_ERROR_PROPERTY_TYPE_MISMATCH
  | NM_SETTING_ERROR_PROPERTY_NOT_SECRET | NM_SETTING_ERROR_PROPERTY_NOT_FOUND

type_synonym gerror = "error_code \<times> cstr"

definition verify :: "'g vpn_setting \<Rightarrow> gerror option" where
  "verify s =
    (case service_type s of
       None \<Rightarrow> Some (NM_SETTING_VPN_ERROR_MISSING_PROPERTY, str ''service-type'')
     | Some t \<Rightarrow> if t = [] then Some (NM_SETTING_VPN_ERROR_INVALID_PROPERTY, str ''service-type'')
         else if user_name s = Some [] then Some (NM_SETTING_VPN_ERROR_INVALID_PROPERTY, str ''user-name'')
         else None)"

text \<open>The result is \<open>success\<close> with the error that was set and the log.\<close>

type_synonym 'g update = "(bool \<times> gerror option) \<times> 'g vpn_setting \<times> log"

definition update_secret_string :: "'g glib \<Rightarrow> cstr option \<Rightarrow> cstr option \<Rightarrow> 'g vpn_setting \<Rightarrow> 'g update" where
  "update_secret_string G key value s =
    (case return_if_fail G ''update_secret_string'' [(key \<noteq> None, ''key != NULL''), (value \<noteq> None, ''value != NULL'')] of
       Some l \<Rightarrow> ((False, None), s, l)
     | None \<Rightarrow>
         if the value = [] then
           ((False, Some (NM_SETTING_ERROR_PROPERTY_TYPE_MISMATCH, str ''Secret '' @ the key @ str '' was empty'')), s, [])
         else let (t, old) = g_insert G (the key) (the value) (secrets s) in
           ((True, None), s\<lparr>secrets := t\<rparr>, map destroy_one_secret old))"

text \<open>The names and values of the table are strings, but they may be empty.\<close>

fun check_secrets :: "(cstr \<times> cstr) list \<Rightarrow> gerror option" where
  "check_secrets [] = None"
| "check_secrets ((name, value) # items) =
    (if name = [] then Some (NM_SETTING_ERROR_PROPERTY_TYPE_MISMATCH, str ''Secret name was empty'')
     else if value = [] then Some (NM_SETTING_ERROR_PROPERTY_TYPE_MISMATCH, str ''Secret '' @ name @ str '' value was empty'')
     else check_secrets items)"

fun insert_secrets :: "'g glib \<Rightarrow> (cstr \<times> cstr) list \<Rightarrow> 'g \<times> log \<Rightarrow> 'g \<times> log" where
  "insert_secrets G [] r = r"
| "insert_secrets G ((name, value) # items) (t, l) =
    (if value = [] then insert_secrets G items (t, l @ [(G_LOG_LEVEL_WARNING, g_failed G ''update_secret_hash'' ''strlen (value) > 0'')])
     else let (t, old) = g_insert G name value t in insert_secrets G items (t, l @ map destroy_one_secret old))"

definition update_secret_hash :: "'g glib \<Rightarrow> 'g option \<Rightarrow> 'g vpn_setting \<Rightarrow> 'g update" where
  "update_secret_hash G new s =
    (case new of
       None \<Rightarrow> ((False, None), s, [(G_LOG_LEVEL_CRITICAL, g_failed G ''update_secret_hash'' ''secrets != NULL'')])
     | Some new \<Rightarrow>
         (case check_secrets (g_items G new) of
            Some e \<Rightarrow> ((False, Some e), s, [])
          | None \<Rightarrow> let (t, l) = insert_secrets G (g_items G new) (secrets s, []) in ((True, None), s\<lparr>secrets := t\<rparr>, l)))"

text \<open>A \<open>GValue\<close> that holds a string, a table of strings or something else.\<close>

datatype 'g gvalue =
    G_string "cstr option"
  | G_table "'g option"
  | G_other

definition update_one_secret :: "'g glib \<Rightarrow> cstr option \<Rightarrow> 'g gvalue option \<Rightarrow> 'g vpn_setting \<Rightarrow> 'g update" where
  "update_one_secret G key value s =
    (case return_if_fail G ''update_one_secret'' [(key \<noteq> None, ''key != NULL''), (value \<noteq> None, ''value != NULL'')] of
       Some l \<Rightarrow> ((False, None), s, l)
     | None \<Rightarrow> (case the value of
         G_string v \<Rightarrow> update_secret_string G key v s
       | G_table t \<Rightarrow>
           if the key \<noteq> str ''secrets'' then
             ((False, Some (NM_SETTING_ERROR_PROPERTY_NOT_SECRET, str ''Property '' @ the key @ str '' not a secret property'')), s, [])
           else update_secret_hash G t s
       | G_other \<Rightarrow> ((False, Some (NM_SETTING_ERROR_PROPERTY_TYPE_MISMATCH, the key)), s, [])))"

section \<open>Secret flags\<close>

text \<open>\<open>strtoul(s, NULL, 10)\<close>: the value, and whether it is out of range, where it is the greatest number.\<close>

definition is_white :: "u8 \<Rightarrow> bool" where
  "is_white b \<longleftrightarrow> b = 0x20 \<or> 9 \<le> b \<and> b \<le> 13"

definition dec_value :: "u8 list \<Rightarrow> nat" where
  "dec_value ds = foldl (\<lambda>n d. 10 * n + (unat d - 48)) 0 ds"

definition strtoul10 :: "cstr \<Rightarrow> u64 \<times> bool" where
  "strtoul10 s = (let s = dropWhile is_white s;
       neg = (s \<noteq> [] \<and> hd s = 0x2D);
       s = (if s \<noteq> [] \<and> (hd s = 0x2D \<or> hd s = 0x2B) then tl s else s);
       n = dec_value (takeWhile (\<lambda>b. 0x30 \<le> b \<and> b \<le> 0x39) s) in
     if 2 ^ 64 \<le> n then (- 1, True) else (if neg then - of_nat n else of_nat n, False))"

text \<open>\<open>%u\<close>.\<close>

function dec_digits :: "nat \<Rightarrow> u8 list" where
  "dec_digits n = (if n < 10 then [] else dec_digits (n div 10)) @ [of_nat (48 + n mod 10)]"
  by pat_completeness auto
termination by (relation "measure id") auto

declare dec_digits.simps [simp del]

definition NM_SETTING_SECRET_FLAGS_ALL :: u64 where
  "NM_SETTING_SECRET_FLAGS_ALL = 7"

definition flags_key :: "cstr \<Rightarrow> cstr" where
  "flags_key secret_name = secret_name @ str ''-flags''"

text \<open>The flags, if they were found, or the error.\<close>

definition get_secret_flags :: "'g glib \<Rightarrow> cstr \<Rightarrow> 'g vpn_setting \<Rightarrow> gerror + u32" where
  "get_secret_flags G secret_name s =
    (case g_lookup G (flags_key secret_name) (data s) of
       None \<Rightarrow> Inl (NM_SETTING_ERROR_PROPERTY_NOT_FOUND,
         str ''Secret flags property '' @ [39] @ flags_key secret_name @ [39] @ str '' not found'')
     | Some val \<Rightarrow> let (tmp, range) = strtoul10 val in
         if \<not> range \<and> tmp \<le> NM_SETTING_SECRET_FLAGS_ALL then Inr (ucast tmp)
         else Inl (NM_SETTING_ERROR_PROPERTY_TYPE_MISMATCH,
           str ''Failed to convert '' @ [39] @ flags_key secret_name @ [39] @ str '' value '' @ [39] @ val @ [39] @ str '' to uint''))"

definition set_secret_flags :: "'g glib \<Rightarrow> cstr \<Rightarrow> u32 \<Rightarrow> 'g vpn_setting \<Rightarrow> 'g vpn_setting" where
  "set_secret_flags G secret_name fl s =
    s\<lparr>data := fst (g_insert G (flags_key secret_name) (dec_digits (unat fl)) (data s))\<rparr>"

section \<open>Properties and the end of a setting\<close>

definition finalize :: "'g glib \<Rightarrow> 'g vpn_setting \<Rightarrow> log" where
  "finalize G s = map destroy_one_secret (snd (g_remove_all G (secrets s)))"

text \<open>\<open>g_hash_table_foreach(new_hash, copy_hash, t)\<close>; \<open>destroy\<close> is the destroy function of \<open>t\<close>.\<close>

fun copy_items :: "'g glib \<Rightarrow> (cstr \<Rightarrow> log) \<Rightarrow> (cstr \<times> cstr) list \<Rightarrow> 'g \<times> log \<Rightarrow> 'g \<times> log" where
  "copy_items G destroy [] r = r"
| "copy_items G destroy ((key, value) # items) (t, l) =
    (if value = [] then copy_items G destroy items (t, l @ [(G_LOG_LEVEL_CRITICAL, g_failed G ''copy_hash'' ''strlen (value)'')])
     else let (t, old) = g_insert G key value t in copy_items G destroy items (t, l @ concat (map destroy old)))"

definition copy_table :: "'g glib \<Rightarrow> (cstr \<Rightarrow> log) \<Rightarrow> 'g option \<Rightarrow> 'g \<Rightarrow> 'g \<times> log" where
  "copy_table G destroy new t =
    (let (t, old) = g_remove_all G t; l = concat (map destroy old) in
     case new of None \<Rightarrow> (t, l) | Some new \<Rightarrow> copy_items G destroy (g_items G new) (t, l))"

datatype 'g prop_value =
    PROP_SERVICE_TYPE "cstr option"
  | PROP_USER_NAME "cstr option"
  | PROP_DATA "'g option"
  | PROP_SECRETS "'g option"

definition set_property :: "'g glib \<Rightarrow> 'g prop_value \<Rightarrow> 'g vpn_setting \<Rightarrow> 'g vpn_setting \<times> log" where
  "set_property G v s =
    (case v of
       PROP_SERVICE_TYPE t \<Rightarrow> (s\<lparr>service_type := t\<rparr>, [])
     | PROP_USER_NAME n \<Rightarrow> (s\<lparr>user_name := n\<rparr>, [])
     | PROP_DATA new \<Rightarrow> let (t, l) = copy_table G (\<lambda>_. []) new (data s) in (s\<lparr>data := t\<rparr>, l)
     | PROP_SECRETS new \<Rightarrow> let (t, l) = copy_table G (\<lambda>v. [destroy_one_secret v]) new (secrets s) in (s\<lparr>secrets := t\<rparr>, l))"

section \<open>The harness\<close>

text \<open>
  \<open>fetchString\<close> takes a length and the bytes of a string out of an input; at its end it gives the empty string.  The
  string is None if \<open>calloc\<close> fails, which is not checked before the bytes are copied.
\<close>

definition fetchString :: "nat \<Rightarrow> nat \<Rightarrow> u8 list \<Rightarrow> nat \<Rightarrow> 'z alloc_scheme \<Rightarrow> ((cstr option \<times> nat) \<times> 'z alloc_scheme) option" where
  "fetchString minLen maxLen buf pos h = (let (ok, h) = try_alloc h in
     if pos = length buf then Some ((if ok then Some [] else None, pos), h)
     else if length buf < pos then None
     else let stringLen = unat (buf ! pos) mod (maxLen - minLen) + minLen;
         pos = pos + 1;
         stringLen = (if stringLen \<le> length buf - pos then stringLen else length buf - pos) in
       if \<not> ok then None else Some ((Some (c_str (take stringLen (drop pos buf))), pos + stringLen), h))"

definition log_prefix :: "log_level \<Rightarrow> string" where
  "log_prefix l = (case l of
     G_LOG_FLAG_RECURSION \<Rightarrow> ''RECURSION: '' | G_LOG_FLAG_FATAL \<Rightarrow> ''FATAL: '' | G_LOG_LEVEL_ERROR \<Rightarrow> ''ERROR: ''
   | G_LOG_LEVEL_CRITICAL \<Rightarrow> ''CRITICAL: '' | G_LOG_LEVEL_WARNING \<Rightarrow> ''WARNING: '' | G_LOG_LEVEL_MESSAGE \<Rightarrow> ''MESSAGE: ''
   | G_LOG_LEVEL_INFO \<Rightarrow> ''INFO: '' | G_LOG_LEVEL_DEBUG \<Rightarrow> ''DEBUG: '' | G_LOG_LEVEL_MASK \<Rightarrow> ''MASK: '')"

definition logFunc :: "log_level \<times> cstr \<Rightarrow> item list" where
  "logFunc e = [Text (log_prefix (fst e)), Raw (snd e), nl]"

definition log_out :: "log \<Rightarrow> item list" where
  "log_out l = concat (map logFunc l)"

text \<open>\<open>%s\<close> for a pointer that may be NULL, as the C library of the harness prints it.\<close>

definition percent_s :: "cstr option \<Rightarrow> item" where
  "percent_s s = (case s of None \<Rightarrow> Text ''(null)'' | Some s \<Rightarrow> Raw s)"

text \<open>One round: the setting, the two positions, the output.\<close>

type_synonym 'g vpn_state = "'g vpn_setting \<times> nat \<times> nat \<times> item list"

definition vpn_round ::
    "'g glib \<Rightarrow> u8 list \<Rightarrow> u8 list \<Rightarrow> 'g vpn_state \<Rightarrow> 'z alloc_scheme \<Rightarrow> ('g vpn_state \<times> 'z alloc_scheme) option" where
  "vpn_round G public_in secret_in st h = (case st of (s, pub_pos, sec_pos, out) \<Rightarrow>
     let fn = unat (public_in ! pub_pos) mod 7; pub_pos = pub_pos + 1 in
     if fn = 0 then Some ((s, pub_pos, sec_pos, out @ [Text ''user_name: '', percent_s (nm_setting_vpn_get_user_name s), nl]), h)
     else if fn = 1 then Some ((s, pub_pos, sec_pos, out @ [Text ''service_type: '', percent_s (nm_setting_vpn_get_service_type s), nl]), h)
     else do {
       ((key, pub_pos), h) \<leftarrow> fetchString 5 20 public_in pub_pos h;
       if fn = 2 then do {
         ((item, pub_pos), h) \<leftarrow> fetchString 5 20 public_in pub_pos h;
         let r = nm_setting_vpn_add_data_item G key item s in
         Some ((fst r, pub_pos, sec_pos, out @ log_out (snd r)), h)
       }
       else if fn = 3 then do {
         v \<leftarrow> nm_setting_vpn_get_data_item G key s;
         Some ((s, pub_pos, sec_pos, out @ [Text ''item '', percent_s key, Text '': '', percent_s v, nl]), h)
       }
       else if fn = 4 then do {
         s \<leftarrow> nm_setting_vpn_remove_data_item G key s;
         Some ((s, pub_pos, sec_pos, out), h)
       }
       else if fn = 5 then do {
         ((item, sec_pos), h) \<leftarrow> fetchString 5 20 secret_in sec_pos h;
         let r = nm_setting_vpn_add_secret G key item s in
         Some ((fst r, pub_pos, sec_pos, out @ log_out (snd r)), h)
       }
       else do {
         (s, l) \<leftarrow> nm_setting_vpn_remove_secret G key s;
         Some ((s, pub_pos, sec_pos, out @ log_out l), h)
       }
     })"

lemma fetchString_pos: "fetchString m n buf p h = Some ((x, p'), h') \<Longrightarrow> p \<le> p'"
  by (auto simp: fetchString_def Let_def split: prod.splits if_splits)

lemma vpn_round_pos: "vpn_round G pub sec (s, p, q, out) h = Some ((s', p', q', out'), h') \<Longrightarrow> p < p'"
  by (auto simp: vpn_round_def Let_def bind_eq_Some_conv split: prod.splits if_splits dest!: fetchString_pos)

function vpn_loop ::
    "'g glib \<Rightarrow> u8 list \<Rightarrow> u8 list \<Rightarrow> 'g vpn_state \<Rightarrow> 'z alloc_scheme \<Rightarrow> ('g vpn_state \<times> 'z alloc_scheme) option" where
  "vpn_loop G public_in secret_in (s, pub_pos, sec_pos, out) h =
    (if pub_pos < length public_in then
       (case vpn_round G public_in secret_in (s, pub_pos, sec_pos, out) h of
          None \<Rightarrow> None
        | Some (st, h) \<Rightarrow> vpn_loop G public_in secret_in st h)
     else Some ((s, pub_pos, sec_pos, out), h))"
  by pat_completeness auto
termination
  by (relation "measure (\<lambda>(G, pub, sec, (s, p, q, out), h). length pub - p)") (auto dest!: vpn_round_pos)

declare vpn_loop.simps [simp del]

text \<open>The function ends without a \<open>return\<close>: its result is \<open>ret\<close>.\<close>

definition vpn_harness :: "int \<Rightarrow> 'g glib \<Rightarrow> env \<Rightarrow> u8 list \<Rightarrow> 'z memstate_scheme \<Rightarrow> run option" where
  "vpn_harness ret G E Data s = read_inputs E Data s (\<lambda>public_in secret_in s. do {
     let (stack, s) = seed_and_fill_stack E secret_in s in do {
     ((_, _, _, out), _) \<leftarrow> vpn_loop G public_in secret_in
       (nm_setting_vpn_new G, 0, if length secret_in < 4 then length secret_in else 4, []) s;
     Some (ret, out)
   }})"

end
