(* ===== verification/Vpn_Theorems.thy ===== *)
theory Vpn_Theorems
  imports Vpn_Setting "HOL-Library.AList"
begin

text \<open>
  What the VPN setting does with its strings, over any hash table that keeps the promises of GLib, and what the log
  tells about the secrets.
\<close>

section \<open>The public input as a list of calls\<close>

datatype vpn_op =
    Get_user
  | Get_service
  | Add_data cstr cstr
  | Get_data cstr
  | Remove_data cstr
  | Add_secret cstr
  | Remove_secret cstr

definition fetch :: "u8 list \<Rightarrow> nat \<Rightarrow> cstr \<times> nat" where
  "fetch buf pos =
    (if length buf \<le> pos then ([], pos)
     else let n = min (unat (buf ! pos) mod 15 + 5) (length buf - (pos + 1)) in (c_str (take n (drop (pos + 1) buf)), pos + 1 + n))"

lemma fetch_pos: "p \<le> snd (fetch buf p)" "p \<le> length buf \<Longrightarrow> snd (fetch buf p) \<le> length buf"
  by (auto simp: fetch_def Let_def)

lemma fetch_ok: "mem_ok h \<Longrightarrow> p \<le> length buf \<Longrightarrow> fetchString 5 20 buf p h = Some ((Some (fst (fetch buf p)), snd (fetch buf p)), h)"
  by (auto simp: fetchString_def fetch_def Let_def min_def)

lemma fetch_less:
  assumes "p < length buf"
  shows "length buf - snd (fetch buf (Suc p)) < length buf - p"
    "length buf - snd (fetch buf (snd (fetch buf (Suc p)))) < length buf - p"
  using assms fetch_pos(1) [of "Suc p" buf] fetch_pos(1) [of "snd (fetch buf (Suc p))" buf] by linarith+

function ops_of :: "u8 list \<Rightarrow> nat \<Rightarrow> vpn_op list" where
  "ops_of pub p =
    (if length pub \<le> p then []
     else let fn = unat (pub ! p) mod 7; k = fetch pub (p + 1); i = fetch pub (snd k) in
       if fn = 0 then Get_user # ops_of pub (p + 1)
       else if fn = 1 then Get_service # ops_of pub (p + 1)
       else if fn = 2 then Add_data (fst k) (fst i) # ops_of pub (snd i)
       else if fn = 3 then Get_data (fst k) # ops_of pub (snd k)
       else if fn = 4 then Remove_data (fst k) # ops_of pub (snd k)
       else if fn = 5 then Add_secret (fst k) # ops_of pub (snd k)
       else Remove_secret (fst k) # ops_of pub (snd k))"
  by pat_completeness auto
termination
  by (relation "measure (\<lambda>(pub, p). length pub - p)") (use fetch_less in \<open>auto simp: not_le\<close>)

declare ops_of.simps [simp del]

lemma ops_of_round:
  assumes "p < length pub"
  shows "unat (pub ! p) mod 7 = 0 \<Longrightarrow> ops_of pub p = Get_user # ops_of pub (p + 1)"
    "unat (pub ! p) mod 7 = 1 \<Longrightarrow> ops_of pub p = Get_service # ops_of pub (p + 1)"
    "unat (pub ! p) mod 7 = 2 \<Longrightarrow> ops_of pub p = Add_data (fst (fetch pub (p + 1))) (fst (fetch pub (snd (fetch pub (p + 1)))))
       # ops_of pub (snd (fetch pub (snd (fetch pub (p + 1)))))"
    "unat (pub ! p) mod 7 = 3 \<Longrightarrow> ops_of pub p = Get_data (fst (fetch pub (p + 1))) # ops_of pub (snd (fetch pub (p + 1)))"
    "unat (pub ! p) mod 7 = 4 \<Longrightarrow> ops_of pub p = Remove_data (fst (fetch pub (p + 1))) # ops_of pub (snd (fetch pub (p + 1)))"
    "unat (pub ! p) mod 7 = 5 \<Longrightarrow> ops_of pub p = Add_secret (fst (fetch pub (p + 1))) # ops_of pub (snd (fetch pub (p + 1)))"
    "unat (pub ! p) mod 7 = 6 \<Longrightarrow> ops_of pub p = Remove_secret (fst (fetch pub (p + 1))) # ops_of pub (snd (fetch pub (p + 1)))"
  using assms by (simp_all add: ops_of.simps [of pub p] Let_def)

lemma ops_of_end: "length pub \<le> p \<Longrightarrow> ops_of pub p = []"
  by (simp add: ops_of.simps)

text \<open>The strings that the calls take out of the secret input.\<close>

fun items_for :: "vpn_op list \<Rightarrow> u8 list \<Rightarrow> nat \<Rightarrow> cstr list" where
  "items_for [] sec q = []"
| "items_for (Add_secret k # ops) sec q = fst (fetch sec q) # items_for ops sec (snd (fetch sec q))"
| "items_for (_ # ops) sec q = items_for ops sec q"

definition secret_items :: "u8 list \<Rightarrow> u8 list \<Rightarrow> cstr list" where
  "secret_items pub sec = items_for (ops_of pub 0) sec (min 4 (length sec))"

section \<open>The specification\<close>

text \<open>The two tables as maps: the output of the calls.\<close>

abbreviation critical :: "'g glib \<Rightarrow> string \<Rightarrow> string \<Rightarrow> item list" where
  "critical G func expr \<equiv> logFunc (G_LOG_LEVEL_CRITICAL, g_failed G func expr)"

fun vpn_spec :: "'g glib \<Rightarrow> vpn_op list \<Rightarrow> cstr list \<Rightarrow> (cstr \<rightharpoonup> cstr) \<Rightarrow> (cstr \<rightharpoonup> cstr) \<Rightarrow> item list" where
  "vpn_spec G [] items D S = []"
| "vpn_spec G (Get_user # ops) items D S = [Text ''user_name: '', Text ''(null)'', nl] @ vpn_spec G ops items D S"
| "vpn_spec G (Get_service # ops) items D S = [Text ''service_type: '', Text ''(null)'', nl] @ vpn_spec G ops items D S"
| "vpn_spec G (Add_data k v # ops) items D S =
    (if k = [] then critical G ''nm_setting_vpn_add_data_item'' ''strlen (key) > 0'' @ vpn_spec G ops items D S
     else if v = [] then critical G ''nm_setting_vpn_add_data_item'' ''strlen (item) > 0'' @ vpn_spec G ops items D S
     else vpn_spec G ops items (D(k \<mapsto> v)) S)"
| "vpn_spec G (Get_data k # ops) items D S = [Text ''item '', Raw k, Text '': '', percent_s (D k), nl] @ vpn_spec G ops items D S"
| "vpn_spec G (Remove_data k # ops) items D S = vpn_spec G ops items (D(k := None)) S"
| "vpn_spec G (Add_secret k # ops) items D S =
    (if k = [] then critical G ''nm_setting_vpn_add_secret'' ''strlen (key) > 0'' @ vpn_spec G ops (tl items) D S
     else if hd items = [] then critical G ''nm_setting_vpn_add_secret'' ''strlen (secret) > 0'' @ vpn_spec G ops (tl items) D S
     else log_out (map destroy_one_secret (case S k of None \<Rightarrow> [] | Some w \<Rightarrow> [w])) @ vpn_spec G ops (tl items) D (S(k \<mapsto> hd items)))"
| "vpn_spec G (Remove_secret k # ops) items D S =
    log_out (map destroy_one_secret (case S k of None \<Rightarrow> [] | Some w \<Rightarrow> [w])) @ vpn_spec G ops items D (S(k := None))"

lemma glib_laws:
  assumes "glib_ok G"
  shows "(\<lambda>x. g_lookup G x (g_new G)) = Map.empty"
    "(\<lambda>x. g_lookup G x (fst (g_insert G k v t))) = (\<lambda>x. g_lookup G x t)(k \<mapsto> v)"
    "snd (g_insert G k v t) = (case g_lookup G k t of None \<Rightarrow> [] | Some w \<Rightarrow> [w])"
    "(\<lambda>x. g_lookup G x (fst (g_remove G k t))) = (\<lambda>x. g_lookup G x t)(k := None)"
    "snd (g_remove G k t) = (case g_lookup G k t of None \<Rightarrow> [] | Some w \<Rightarrow> [w])"
  using assms unfolding glib_ok_def by blast+

lemma add_data_cases:
  "nm_setting_vpn_add_data_item G (Some k) (Some v) s =
    (if k = [] then (s, [(G_LOG_LEVEL_CRITICAL, g_failed G ''nm_setting_vpn_add_data_item'' ''strlen (key) > 0'')])
     else if v = [] then (s, [(G_LOG_LEVEL_CRITICAL, g_failed G ''nm_setting_vpn_add_data_item'' ''strlen (item) > 0'')])
     else (s\<lparr>data := fst (g_insert G k v (data s))\<rparr>, []))"
  by (simp add: nm_setting_vpn_add_data_item_def)

lemma add_secret_cases:
  "nm_setting_vpn_add_secret G (Some k) (Some v) s =
    (if k = [] then (s, [(G_LOG_LEVEL_CRITICAL, g_failed G ''nm_setting_vpn_add_secret'' ''strlen (key) > 0'')])
     else if v = [] then (s, [(G_LOG_LEVEL_CRITICAL, g_failed G ''nm_setting_vpn_add_secret'' ''strlen (secret) > 0'')])
     else (s\<lparr>secrets := fst (g_insert G k v (secrets s))\<rparr>, map destroy_one_secret (snd (g_insert G k v (secrets s)))))"
  by (simp add: nm_setting_vpn_add_secret_def split_beta)

lemma vpn_loop_end: "length pub \<le> p \<Longrightarrow> vpn_loop G pub sec (s, p, q, out) h = Some ((s, p, q, out), h)"
  by (simp add: vpn_loop.simps)

lemma vpn_loop_round:
  "p < length pub \<Longrightarrow> vpn_round G pub sec (s, p, q, out) h = Some (st, h') \<Longrightarrow> vpn_loop G pub sec (s, p, q, out) h = vpn_loop G pub sec st h'"
  by (simp add: vpn_loop.simps)

lemma vpn_loop_spec:
  fixes h :: "'z alloc_scheme"
  assumes "glib_ok G" and "mem_ok h" and "p \<le> length pub" and "q \<le> length sec" and "user_name s = None" and "service_type s = None"
  shows "\<exists>st. vpn_loop G pub sec (s, p, q, out) h = Some (st, h) \<and> snd (snd (snd st)) =
    out @ vpn_spec G (ops_of pub p) (items_for (ops_of pub p) sec q) (\<lambda>x. g_lookup G x (data s)) (\<lambda>x. g_lookup G x (secrets s))"
  using assms(3-)
proof (induction "length pub - p" arbitrary: p q s out rule: less_induct)
  case less
  show ?case
  proof (cases "p < length pub")
    case False
    then show ?thesis by (simp add: vpn_loop_end ops_of_end)
  next
    case True
    define k where "k = fetch pub (p + 1)"
    define i where "i = fetch pub (snd k)"
    define v where "v = fetch sec q"
    have pos: "p + 1 \<le> snd k" "snd k \<le> length pub" "p + 1 \<le> snd i" "snd i \<le> length pub" "snd v \<le> length sec"
      using True less.prems(2) fetch_pos(1) [of "p + 1" pub] fetch_pos(1) [of "snd k" pub] fetch_pos(2) [of "p + 1" pub]
        fetch_pos(2) [of "snd k" pub] fetch_pos(2) [of q sec] by (simp_all add: k_def i_def v_def)
    have f: "fetchString 5 20 pub (Suc p) h = Some ((Some (fst k), snd k), h)" "fetchString 5 20 pub (snd k) h = Some ((Some (fst i), snd i), h)"
      "fetchString 5 20 sec q h = Some ((Some (fst v), snd v), h)"
      using fetch_ok [OF assms(2)] True less.prems(2) pos by (simp_all add: k_def i_def v_def)
    note step = vpn_loop_round [OF True, of G sec s q out h] and laws = glib_laws [OF assms(1)]
      and ops = ops_of_round [OF True, folded k_def, folded i_def]
    have IH: "\<exists>st. vpn_loop G pub sec (s', p', q', out') h = Some (st, h) \<and> snd (snd (snd st)) = out' @
        vpn_spec G (ops_of pub p') (items_for (ops_of pub p') sec q') (\<lambda>x. g_lookup G x (data s')) (\<lambda>x. g_lookup G x (secrets s'))"
      if "p + 1 \<le> p'" "p' \<le> length pub" "q' \<le> length sec" "user_name s' = None" "service_type s' = None" for p' q' s' out'
      using less.hyps [of p' q' s' out'] that True by simp
    have "unat (pub ! p) mod 7 < 7" by simp
    then consider "unat (pub ! p) mod 7 = 0" | "unat (pub ! p) mod 7 = 1" | "unat (pub ! p) mod 7 = 2" | "unat (pub ! p) mod 7 = 3"
      | "unat (pub ! p) mod 7 = 4" | "unat (pub ! p) mod 7 = 5" | "unat (pub ! p) mod 7 = 6" by linarith
    then show ?thesis
    proof cases
      case 1
      then have "vpn_round G pub sec (s, p, q, out) h = Some ((s, p + 1, q, out @ [Text ''user_name: '', Text ''(null)'', nl]), h)"
        using less.prems by (simp add: vpn_round_def nm_setting_vpn_get_user_name_def percent_s_def)
      from step [OF this] show ?thesis using IH [of "p + 1" q s] True less.prems ops(1) [OF 1] by fastforce
    next
      case 2
      then have "vpn_round G pub sec (s, p, q, out) h = Some ((s, p + 1, q, out @ [Text ''service_type: '', Text ''(null)'', nl]), h)"
        using less.prems by (simp add: vpn_round_def nm_setting_vpn_get_service_type_def percent_s_def)
      from step [OF this] show ?thesis using IH [of "p + 1" q s] True less.prems ops(2) [OF 2] by fastforce
    next
      case 3
      let ?r = "nm_setting_vpn_add_data_item G (Some (fst k)) (Some (fst i)) s"
      have u: "user_name (fst ?r) = None" "service_type (fst ?r) = None" using less.prems by (simp_all add: add_data_cases)
      from 3 have "vpn_round G pub sec (s, p, q, out) h = Some ((fst ?r, snd i, q, out @ log_out (snd ?r)), h)"
        by (simp add: vpn_round_def f Let_def)
      from step [OF this] IH [OF pos(3,4) less.prems(2) u, of "out @ log_out (snd ?r)"] show ?thesis
        by (simp add: ops(3) [OF 3] add_data_cases laws log_out_def split: if_splits)
    next
      case 4
      then have "vpn_round G pub sec (s, p, q, out) h = Some ((s, snd k, q,
          out @ [Text ''item '', Raw (fst k), Text '': '', percent_s (g_lookup G (fst k) (data s)), nl]), h)"
        by (simp add: vpn_round_def f nm_setting_vpn_get_data_item_def) (simp add: percent_s_def)
      from step [OF this] show ?thesis using IH [OF pos(1,2) less.prems(2,3,4)] ops(4) [OF 4] by fastforce
    next
      case 5
      then have "vpn_round G pub sec (s, p, q, out) h = Some ((s\<lparr>data := fst (g_remove G (fst k) (data s))\<rparr>, snd k, q, out), h)"
        by (simp add: vpn_round_def f nm_setting_vpn_remove_data_item_def)
      from step [OF this] IH [OF pos(1,2) less.prems(2), of "s\<lparr>data := fst (g_remove G (fst k) (data s))\<rparr>" out] less.prems show ?thesis
        by (simp add: ops(5) [OF 5] laws)
    next
      case 6
      let ?r = "nm_setting_vpn_add_secret G (Some (fst k)) (Some (fst v)) s"
      have u: "user_name (fst ?r) = None" "service_type (fst ?r) = None" using less.prems by (simp_all add: add_secret_cases)
      from 6 have "vpn_round G pub sec (s, p, q, out) h = Some ((fst ?r, snd k, snd v, out @ log_out (snd ?r)), h)"
        by (simp add: vpn_round_def f Let_def)
      from step [OF this] IH [OF pos(1,2,5) u, of "out @ log_out (snd ?r)"] show ?thesis
        by (simp add: ops(6) [OF 6] add_secret_cases laws v_def [symmetric] split: if_splits) (simp_all add: log_out_def)
    next
      case 7
      let ?r = "g_remove G (fst k) (secrets s)"
      from 7 have "vpn_round G pub sec (s, p, q, out) h = Some ((s\<lparr>secrets := fst ?r\<rparr>, snd k, q, out @ log_out (map destroy_one_secret (snd ?r))), h)"
        by (simp add: vpn_round_def f nm_setting_vpn_remove_secret_def split_beta)
      from step [OF this] IH [OF pos(1,2) less.prems(2), of "s\<lparr>secrets := fst ?r\<rparr>" "out @ log_out (map destroy_one_secret (snd ?r))"] less.prems
      show ?thesis by (simp add: ops(7) [OF 7] laws)
    qed
  qed
qed

lemma seed_mem_ok: "mem_ok (snd (seed_and_fill_stack E sec s)) = mem_ok s"
  by (simp add: seed_and_fill_stack_def fill_stack_def SEED_MEMORY_def initRepeatedVal_def draw_pattern_def Let_def split_beta)

lemma harness_output:
  fixes s :: "'z memstate_scheme"
  assumes "glib_ok G" and "testcase E Data pub sec" and "mem_ok s"
  shows "vpn_harness ret G E Data s = Some (ret, vpn_spec G (ops_of pub 0) (secret_items pub sec) Map.empty Map.empty)"
proof -
  let ?s = "snd (seed_and_fill_stack E sec s)"
  have "mem_ok ?s" using assms(3) by (simp add: seed_mem_ok)
  from vpn_loop_spec [OF assms(1) this, of 0 pub "min 4 (length sec)" sec "nm_setting_vpn_new G" "[]"] obtain st where
    "vpn_loop G pub sec (nm_setting_vpn_new G, 0, min 4 (length sec), []) ?s = Some (st, ?s)"
    "snd (snd (snd st)) = vpn_spec G (ops_of pub 0) (secret_items pub sec) Map.empty Map.empty"
    by (auto simp: nm_setting_vpn_new_def glib_laws [OF assms(1)] secret_items_def)
  moreover have "(if length sec < 4 then length sec else 4) = min 4 (length sec)" by simp
  ultimately show ?thesis
    unfolding vpn_harness_def read_testcase [OF assms(2,3)] by (simp add: split_beta Let_def)
qed

section \<open>A hash table\<close>

text \<open>Association lists keep the promises: the runs of the witnesses use them.\<close>

definition list_glib :: "(cstr \<times> cstr) list glib" where
  "list_glib = (let old = (\<lambda>k t. case map_of t k of None \<Rightarrow> [] | Some w \<Rightarrow> [w]) in
     \<lparr>g_new = [], g_insert = (\<lambda>k v t. ((k, v) # t, old k t)), g_lookup = (\<lambda>k t. map_of t k), g_remove = (\<lambda>k t. (AList.delete k t, old k t)),
      g_remove_all = (\<lambda>t. ([], map snd (AList.clearjunk t))), g_items = AList.clearjunk,
      g_failed = (\<lambda>func expr. str (func @ '': assertion '' @ expr @ '' failed''))\<rparr>)"

lemma list_glib_ok: "glib_ok list_glib"
  by (auto simp: glib_ok_def list_glib_def Let_def delete_conv' map_of_clearjunk distinct_clearjunk fun_eq_iff)

section \<open>What the log tells\<close>

text \<open>The secrets that are replaced or removed, in order.\<close>

fun destroyed :: "vpn_op list \<Rightarrow> cstr list \<Rightarrow> (cstr \<rightharpoonup> cstr) \<Rightarrow> cstr list" where
  "destroyed [] items S = []"
| "destroyed (Add_secret k # ops) items S =
    (if k = [] \<or> hd items = [] then destroyed ops (tl items) S
     else (case S k of None \<Rightarrow> [] | Some w \<Rightarrow> [w]) @ destroyed ops (tl items) (S(k \<mapsto> hd items)))"
| "destroyed (Remove_secret k # ops) items S = (case S k of None \<Rightarrow> [] | Some w \<Rightarrow> [w]) @ destroyed ops items (S(k := None))"
| "destroyed (_ # ops) items S = destroyed ops items S"

fun adds :: "vpn_op list \<Rightarrow> nat" where
  "adds [] = 0"
| "adds (Add_secret k # ops) = Suc (adds ops)"
| "adds (_ # ops) = adds ops"

lemma length_items_for: "length (items_for ops sec q) = adds ops"
  by (induction ops sec q rule: items_for.induct) simp_all

lemma log_out_inj [simp]: "log_out (map destroy_one_secret [v]) = log_out (map destroy_one_secret [w]) \<longleftrightarrow> v = w"
  by (simp add: log_out_def logFunc_def destroy_one_secret_def)

lemma log_out_Nil [simp]: "log_out [] = []"
  by (simp add: log_out_def)

lemma length_log_out [simp]: "length (log_out (map f vs)) = 3 * length vs"
  by (induction vs) (simp_all add: log_out_def logFunc_def)

lemma log_old_eq:
  assumes "dom S = dom S'"
  shows "log_out (map destroy_one_secret (case S k of None \<Rightarrow> [] | Some w \<Rightarrow> [w])) @ a
      = log_out (map destroy_one_secret (case S' k of None \<Rightarrow> [] | Some w \<Rightarrow> [w])) @ b
    \<longleftrightarrow> (case S k of None \<Rightarrow> [] | Some w \<Rightarrow> [w]) = (case S' k of None \<Rightarrow> [] | Some w \<Rightarrow> [w]) \<and> a = b"
proof -
  have "S k = None \<longleftrightarrow> S' k = None" using assms by (metis domIff)
  then show ?thesis by (cases "S k"; cases "S' k") (auto simp: log_out_def logFunc_def destroy_one_secret_def)
qed

lemma vpn_spec_eq:
  assumes "dom S = dom S'" and "length is = adds ops" and "length is' = adds ops" and "[] \<notin> set is" and "[] \<notin> set is'"
  shows "vpn_spec G ops is D S = vpn_spec G ops is' D S' \<longleftrightarrow> destroyed ops is S = destroyed ops is' S'"
  using assms
proof (induction ops arbitrary: "is" is' D S S')
  case (Cons x ops)
  show ?case
  proof (cases x)
    case (Add_secret k)
    obtain i js j js' where e: "is = i # js" "is' = j # js'" using Cons.prems(2,3) Add_secret by (cases "is"; cases is') auto
    have d: "dom (S(k \<mapsto> i)) = dom (S'(k \<mapsto> j))" using Cons.prems(1) by simp
    have n: "S k = None \<longleftrightarrow> S' k = None" using Cons.prems(1) by (metis domIff)
    have l: "length js = adds ops" "length js' = adds ops" "[] \<notin> set js" "[] \<notin> set js'" using Cons.prems(2-) e Add_secret by simp_all
    have IH: "vpn_spec G ops js D (S(k \<mapsto> i)) = vpn_spec G ops js' D (S'(k \<mapsto> j)) \<longleftrightarrow> destroyed ops js (S(k \<mapsto> i)) = destroyed ops js' (S'(k \<mapsto> j))"
      "vpn_spec G ops js D S = vpn_spec G ops js' D S' \<longleftrightarrow> destroyed ops js S = destroyed ops js' S'"
      by (rule Cons.IH [OF d l], rule Cons.IH [OF Cons.prems(1) l])
    have "i \<noteq> []" "j \<noteq> []" using Cons.prems(4,5) e by auto
    then show ?thesis by (simp add: Add_secret e log_old_eq [OF Cons.prems(1)] IH) (use n in \<open>cases "S k"; cases "S' k"; simp\<close>)
  next
    case (Remove_secret k)
    have d: "dom (S(k := None)) = dom (S'(k := None))" using Cons.prems(1) by simp
    have n: "S k = None \<longleftrightarrow> S' k = None" using Cons.prems(1) by (metis domIff)
    have l: "length is = adds ops" "length is' = adds ops" using Cons.prems(2,3) Remove_secret by simp_all
    have IH: "vpn_spec G ops is D (S(k := None)) = vpn_spec G ops is' D (S'(k := None)) \<longleftrightarrow> destroyed ops is (S(k := None)) = destroyed ops is' (S'(k := None))"
      by (rule Cons.IH [OF d l Cons.prems(4,5)])
    show ?thesis by (simp add: Remove_secret log_old_eq [OF Cons.prems(1)] IH)
      (use n in \<open>cases "S k"; cases "S' k"; simp\<close>)
  qed (use Cons in simp_all)
qed simp

text \<open>An environment whose parser knows two test cases.\<close>

definition vpn_env :: "u8 list \<Rightarrow> u8 list \<Rightarrow> env" where
  "vpn_env pub sec = \<lparr>json_parser = (\<lambda>_. Some (json_object [(PUBLIC_KEY, json_string (b64 pub)), (SECRET_KEY, json_string (b64 sec))])),
     rand_fun = (\<lambda>_ _. 0), stack_bottom = 0, stack_top = 0, frame = 0, old_stack = (\<lambda>_. 0)\<rparr>"

lemma vpn_testcase: "length pub < 1600000000 \<Longrightarrow> length sec < 1600000000 \<Longrightarrow> testcase (vpn_env pub sec) Data pub sec"
  by (simp add: testcase_def vpn_env_def)

definition vpn_heap :: memstate where
  "vpn_heap = \<lparr>avail = None, repeatedVal = 0, rand_state = (0, 0)\<rparr>"

text \<open>A secret is added under the key abcde and removed again; of nine bytes of secret, four are the seed.\<close>

definition vpn_pub :: "u8 list" where
  "vpn_pub = [5, 0, 97, 98, 99, 100, 101, 6, 0, 97, 98, 99, 100, 101]"

text \<open>
  C36: The harness never fails and prints what the calls give on two maps, whatever the implementation of the hash tables:
  the items that were added and not removed, complaints about empty strings, and one message, with its text, for every
  secret that is replaced or removed.
\<close>

theorem vpn_harness_output:
  fixes s :: "'z memstate_scheme"
  assumes "glib_ok G" and "testcase E Data pub sec" and "mem_ok s"
  shows "vpn_harness ret G E Data s = Some (ret, vpn_spec G (ops_of pub 0) (secret_items pub sec) Map.empty Map.empty)"
  by (rule harness_output [OF assms])

theorem vpn_harness_output_witness:
  "vpn_harness 0 list_glib (vpn_env vpn_pub [1, 2, 3, 4, 0, 120, 121, 122]) [] vpn_heap
    = Some (0, [Text ''MESSAGE: '', Raw (str ''destroy_one_secret: destroying xyz''), nl])"
proof -
  have "length vpn_pub < 1600000000" "length [1, 2, 3, 4, 0, 120, 121, 122 :: u8] < 1600000000" by (simp_all add: vpn_pub_def)
  then have t: "testcase (vpn_env vpn_pub [1, 2, 3, 4, 0, 120, 121, 122]) [] vpn_pub [1, 2, 3, 4, 0, 120, 121, 122]" by (rule vpn_testcase)
  have "vpn_spec list_glib (ops_of vpn_pub 0) (secret_items vpn_pub [1, 2, 3, 4, 0, 120, 121, 122]) Map.empty Map.empty
      = [Text ''MESSAGE: '', Raw (str ''destroy_one_secret: destroying xyz''), nl]" by code_simp
  then show ?thesis using vpn_harness_output [OF list_glib_ok t, of vpn_heap 0] by (simp add: vpn_heap_def)
qed

text \<open>
  C37: Two runs on the same public input, in neither of which a secret item is empty (as it is when the secret input runs
  out), so that all of them are accepted, print the same exactly when the same secrets are
  replaced or removed, in the same order: the log tells these secrets and nothing else about the secret input.
\<close>

theorem vpn_harness_leaks:
  fixes s :: "'z memstate_scheme"
  assumes "glib_ok G" and "testcase E Data pub sec" and "testcase E' Data' pub sec'" and "mem_ok s"
    and "[] \<notin> set (secret_items pub sec)" and "[] \<notin> set (secret_items pub sec')"
  shows "vpn_harness ret G E Data s = vpn_harness ret G E' Data' s
    \<longleftrightarrow> destroyed (ops_of pub 0) (secret_items pub sec) Map.empty = destroyed (ops_of pub 0) (secret_items pub sec') Map.empty"
proof -
  have l: "length (secret_items pub x) = adds (ops_of pub 0)" for x by (simp add: secret_items_def length_items_for)
  show ?thesis unfolding harness_output [OF assms(1,2,4)] harness_output [OF assms(1,3,4)]
    using vpn_spec_eq [OF refl l l assms(5,6)] by simp
qed

theorem vpn_harness_leaks_witness:
  "vpn_harness 0 list_glib (vpn_env vpn_pub [1, 2, 3, 4, 0, 120, 121, 122]) [] vpn_heap
    \<noteq> vpn_harness 0 list_glib (vpn_env vpn_pub [1, 2, 3, 4, 0, 120, 121, 119]) [] vpn_heap"
proof -
  let ?a = "[1, 2, 3, 4, 0, 120, 121, 122 :: u8]" and ?b = "[1, 2, 3, 4, 0, 120, 121, 119 :: u8]"
  have l: "length vpn_pub < 1600000000" "length ?a < 1600000000" "length ?b < 1600000000" by (simp_all add: vpn_pub_def)
  note t = vpn_testcase [OF l(1,2), of "[]"] vpn_testcase [OF l(1,3), of "[]"]
  have "[] \<notin> set (secret_items vpn_pub ?a)" "[] \<notin> set (secret_items vpn_pub ?b)" by code_simp+
  moreover have "destroyed (ops_of vpn_pub 0) (secret_items vpn_pub ?a) Map.empty \<noteq> destroyed (ops_of vpn_pub 0) (secret_items vpn_pub ?b) Map.empty"
    by code_simp
  ultimately show ?thesis using vpn_harness_leaks [OF list_glib_ok t, of vpn_heap 0] by (simp add: vpn_heap_def)
qed

section \<open>Secret flags\<close>

lemma dec_digits_ok: "(\<forall>b\<in>set (dec_digits n). 0x30 \<le> b \<and> b \<le> 0x39) \<and> dec_digits n \<noteq> [] \<and> dec_value (dec_digits n) = n"
proof (induction n rule: dec_digits.induct)
  case (1 n)
  have d: "48 + n mod 10 < 2 ^ 8" by (simp add: order_le_less_trans [of _ "48 + 9"])
  then have u: "unat (of_nat (48 + n mod 10) :: u8) = 48 + n mod 10" unfolding unsigned_of_nat using d by (simp add: take_bit_nat_eq_self del: of_nat_add)
  then have "0x30 \<le> (of_nat (48 + n mod 10) :: u8) \<and> (of_nat (48 + n mod 10) :: u8) \<le> 0x39"
    unfolding word_le_nat_alt u by simp
  then show ?case using 1 u by (cases "n < 10") (auto simp: dec_digits.simps [of n] dec_value_def simp del: of_nat_add)
qed

lemma strtoul_dec_digits:
  assumes "n < 2 ^ 64"
  shows "strtoul10 (dec_digits n) = (of_nat n, False)"
proof -
  let ?s = "dec_digits n"
  have d: "\<forall>b\<in>set ?s. 0x30 \<le> b \<and> b \<le> 0x39" "?s \<noteq> []" "dec_value ?s = n" using dec_digits_ok [of n] by simp_all
  then have "0x30 \<le> hd ?s \<and> hd ?s \<le> 0x39" by simp
  then have h: "\<not> is_white (hd ?s)" "hd ?s \<noteq> 0x2D" "hd ?s \<noteq> 0x2B" by (auto simp: is_white_def word_le_nat_alt)
  have tw: "takeWhile (\<lambda>b. 0x30 \<le> b \<and> b \<le> 0x39) ?s = ?s" "dropWhile is_white ?s = ?s"
    using d(1,2) h(1) by (simp_all add: takeWhile_eq_all_conv dropWhile_eq_self_iff)
  show ?thesis using d(2,3) h assms by (simp add: strtoul10_def Let_def tw)
qed

text \<open>
  C38: The flags that \<open>set_secret_flags\<close> stores are those that \<open>get_secret_flags\<close> finds, as long as they are
  combinations of the three that are defined; any others are stored and then refused.
\<close>

theorem secret_flags_roundtrip:
  assumes "glib_ok G"
  shows "get_secret_flags G name (set_secret_flags G name fl s) =
    (if fl \<le> 7 then Inr fl else Inl (NM_SETTING_ERROR_PROPERTY_TYPE_MISMATCH,
       str ''Failed to convert '' @ [39] @ flags_key name @ [39] @ str '' value '' @ [39] @ dec_digits (unat fl) @ [39] @ str '' to uint''))"
proof -
  have "(\<lambda>x. g_lookup G x (data (set_secret_flags G name fl s))) (flags_key name) = Some (dec_digits (unat fl))"
    by (simp add: set_secret_flags_def fun_cong [OF glib_laws(2) [OF assms]])
  moreover have b: "unat fl < 2 ^ 64" by (rule order.strict_trans [OF unsigned_less]) simp
  moreover have "(of_nat (unat fl) :: u64) \<le> 7 \<longleftrightarrow> fl \<le> 7"
  proof -
    have "unat (of_nat (unat fl) :: u64) = unat fl" by (rule unat_of_nat_u64 [OF b])
    then show ?thesis by (simp add: word_le_nat_alt)
  qed
  moreover have "ucast (of_nat (unat fl) :: u64) = fl" by (rule bit_word_eqI) (simp add: bit_simps)
  ultimately show ?thesis by (simp add: get_secret_flags_def strtoul_dec_digits NM_SETTING_SECRET_FLAGS_ALL_def)
qed

theorem secret_flags_roundtrip_witness:
  "get_secret_flags list_glib (str ''pw'') (set_secret_flags list_glib (str ''pw'') 5 (nm_setting_vpn_new list_glib)) = Inr 5"
  using secret_flags_roundtrip [OF list_glib_ok, of "str ''pw''" 5 "nm_setting_vpn_new list_glib"] by simp

end
