(* ===== verification/Pg_Harness.thy ===== *)
theory Pg_Harness
  imports Test_Writer
begin

text \<open>
  The harness of the PostgreSQL benchmark (CVE-2021-3393, error messages that show denied columns): it stores the secret
  in a table and then runs the statements of the public input as a user who may not read it.
\<close>

type_synonym cstr = "u8 list"

abbreviation str :: "string \<Rightarrow> cstr" where
  "str s \<equiv> map of_char s"

section \<open>Commands\<close>

text \<open>The client library is a parameter: its connection, with the server behind it, is of type \<open>'d\<close>.\<close>

datatype exec_status = No_result | PGRES_COMMAND_OK | Other_status

record 'd libpq =
  PQconnectdb :: "'d \<Rightarrow> 'd"
  PQexec :: "cstr \<Rightarrow> 'd \<Rightarrow> exec_status \<times> 'd"
  PQerrorMessage :: "'d \<Rightarrow> cstr"
  PQprint :: "'d \<Rightarrow> item list"
  PQfinish :: "'d \<Rightarrow> 'd"

record 'd pg_state =
  conn :: bool
  server :: 'd
  printed :: "item list"

definition run_cmd :: "'d libpq \<Rightarrow> cstr \<Rightarrow> bool \<Rightarrow> bool \<Rightarrow> 'd pg_state \<Rightarrow> int \<times> 'd pg_state" where
  "run_cmd L cmd printResult silentErrors s =
    (let s = (if conn s then s else s\<lparr>conn := True, server := PQconnectdb L (server s)\<rparr>);
         (res, d) = PQexec L cmd (server s);
         s = s\<lparr>server := d\<rparr> in
     case res of
       No_result \<Rightarrow> (1, if silentErrors then s else s\<lparr>printed := printed s @ [Text ''  fatal error fetching result for '', Raw ([39] @ cmd @ [39]), nl,
         Text ''  PQErrorMessage: '', Raw ([39] @ PQerrorMessage L d @ [39]), nl]\<rparr>)
     | Other_status \<Rightarrow> (1, if silentErrors then s else s\<lparr>printed := printed s @ [Text ''Ran '', Raw ([39] @ cmd @ [39]), nl,
         Raw (PQerrorMessage L d)]\<rparr>)
     | PGRES_COMMAND_OK \<Rightarrow> (0, if printResult then s\<lparr>printed := printed s @ PQprint L d\<rparr> else s))"

definition reset_conn :: "'d libpq \<Rightarrow> 'd pg_state \<Rightarrow> 'd pg_state" where
  "reset_conn L s = s\<lparr>conn := False, server := (if conn s then PQfinish L (server s) else server s)\<rparr>"

text \<open>\<open>RUN_OR_BAIL\<close>: a command that fails ends the run.\<close>

definition run_or_bail :: "'d libpq \<Rightarrow> cstr \<Rightarrow> 'd pg_state \<Rightarrow> ('d pg_state \<Rightarrow> (int \<times> 'd pg_state) option) \<Rightarrow> (int \<times> 'd pg_state) option" where
  "run_or_bail L cmd s k = (let (ret, s) = run_cmd L cmd False True s in if ret \<noteq> 0 then Some (1, reset_conn L s) else k s)"

definition run_all :: "'d libpq \<Rightarrow> bool \<Rightarrow> cstr list \<Rightarrow> 'd pg_state \<Rightarrow> 'd pg_state" where
  "run_all L silentErrors cmds s = fold (\<lambda>cmd s. snd (run_cmd L cmd False silentErrors s)) cmds s"

definition pg_setup :: "cstr list" where
  "pg_setup = map (map of_char)
    [''DROP USER IF EXISTS high'', ''DROP USER IF EXISTS low'', ''CREATE USER high'', ''CREATE USER low'',
     ''CREATE TABLE errtst(a text, b text NOT NULL, c text, secret1 text, secret2 text) PARTITION BY LIST (a);'',
     ''CREATE TABLE errtst_part_1(secret2 text, c text, a text, b text NOT NULL, secret1 text);'',
     ''CREATE TABLE errtst_part_2(secret1 text, secret2 text, a text, c text, b text NOT NULL);'',
     ''ALTER TABLE errtst ATTACH PARTITION errtst_part_1 FOR VALUES IN ('' @ [CHR 39] @ ''aaa'' @ [CHR 39] @ '');'',
     ''ALTER TABLE errtst ATTACH PARTITION errtst_part_2 FOR VALUES IN ('' @ [CHR 39] @ ''aaaa'' @ [CHR 39] @ '');'',
     ''GRANT SELECT (a, b, c) ON TABLE errtst TO low;'', ''GRANT UPDATE (a, b, c) ON TABLE errtst TO low;'',
     ''GRANT INSERT (a, b, c) ON TABLE errtst TO low;'']"

section \<open>The secret\<close>

text \<open>One half of the secret, \<open>n\<close> rounds from the start of the input; quotes are doubled.\<close>

definition quote_round :: "u8 list \<Rightarrow> mem \<times> nat \<Rightarrow> (mem \<times> nat) option" where
  "quote_round secret_in sp = (case sp of (secret, off) \<Rightarrow>
     if length secret_in \<le> off then None
     else let cur = secret_in ! off in do {
       (secret, off) \<leftarrow> (if cur = 39 then put 39 (secret, off) else Some (secret, off));
       put cur (secret, off)
     })"

definition quote_half :: "u8 list \<Rightarrow> nat \<Rightarrow> mem \<Rightarrow> cstr option" where
  "quote_half secret_in n secret = do {
     (secret, off) \<leftarrow> foldM (\<lambda>i. quote_round secret_in) [0..<n] (secret, 0);
     (secret, off) \<leftarrow> put 0 (secret, off);
     cstr_at secret
   }"

definition insert_template :: cstr where
  "insert_template = str ''INSERT INTO errtst_part_1 (a, b, c, secret1, secret2) VALUES ('' @ [39] @ str ''aaa'' @ [39] @ str '', '' @ [39] @ str ''low2''
     @ [39] @ str '', '' @ [39] @ str ''low3'' @ [39] @ str '', '' @ [39, 0x25, 0x73, 39] @ str '', '' @ [39, 0x25, 0x73, 39] @ str '');''"

text \<open>The blocks come from \<open>malloc\<close> of memory.c; \<open>sprintf\<close> writes the whole command.\<close>

definition block :: "rand \<Rightarrow> nat \<Rightarrow> 'z memstate_scheme \<Rightarrow> (mem \<times> 'z memstate_scheme) option" where
  "block rand n s = (case wrap_malloc rand (of_nat n) s of Some (Some m, s) \<Rightarrow> Some (m, s) | _ \<Rightarrow> None)"

definition insert_command :: "rand \<Rightarrow> u8 list \<Rightarrow> 'z memstate_scheme \<Rightarrow> (cstr \<times> 'z memstate_scheme) option" where
  "insert_command rand secret_in s = (let secret_len = length secret_in in do {
     (secret1, s) \<leftarrow> block rand (secret_len + 1) s;
     (secret2, s) \<leftarrow> block rand (secret_len + 1) s;
     secret1 \<leftarrow> quote_half secret_in (secret_len div 2) secret1;
     secret2 \<leftarrow> quote_half secret_in (secret_len - secret_len div 2) secret2;
     (command, s) \<leftarrow> block rand (secret_len + 200) s;
     t \<leftarrow> format_s insert_template [secret1, secret2];
     if length t < length command then Some (t, s) else None
   })"

section \<open>The public statements\<close>

text \<open>\<open>strtok(s, ";")\<close> on what is left of the string.\<close>

definition strtok :: "cstr \<Rightarrow> (cstr \<times> cstr) option" where
  "strtok s = (let s = dropWhile (\<lambda>b. b = 0x3B) s; t = takeWhile (\<lambda>b. b \<noteq> 0x3B) s in
     if s = [] then None else Some (t, drop (length t + 1) s))"

lemma strtok_shorter:
  assumes "strtok s = Some (t, r)"
  shows "length r < length s"
proof -
  let ?d = "dropWhile (\<lambda>b. b = 0x3B) s"
  have "?d \<noteq> []" "r = drop (length (takeWhile (\<lambda>b. b \<noteq> 0x3B) ?d) + 1) ?d"
    using assms by (auto simp: strtok_def Let_def split: if_splits)
  then have "length r < length ?d" by simp
  then show ?thesis using length_dropWhile_le [of "\<lambda>b. b = 0x3B" s] by linarith
qed

function tokens :: "cstr \<Rightarrow> cstr list" where
  "tokens s = (case strtok s of None \<Rightarrow> [] | Some (t, r) \<Rightarrow> t # tokens r)"
  by pat_completeness auto
termination by (relation "measure length") (auto dest: strtok_shorter)

declare tokens.simps [simp del]

text \<open>\<open>commands\<close> is the public input with a NUL behind it.\<close>

definition public_commands :: "rand \<Rightarrow> u8 list \<Rightarrow> 'z memstate_scheme \<Rightarrow> (cstr list \<times> 'z memstate_scheme) option" where
  "public_commands rand public_in s = do {
     (commands, s) \<leftarrow> block rand (length public_in + 1) s;
     commands \<leftarrow> memcpy_at commands 0 (map Some public_in);
     (commands, _) \<leftarrow> put 0 (commands, length public_in);
     c \<leftarrow> cstr_at commands;
     Some (tokens c, s)
   }"

section \<open>main\<close>

definition pg_harness :: "'d libpq \<Rightarrow> env \<Rightarrow> u8 list \<Rightarrow> 'd \<Rightarrow> 'z memstate_scheme \<Rightarrow> run option" where
  "pg_harness L E Data d s = do {
     (ret, p) \<leftarrow> run_or_bail L (str ''DROP TABLE IF EXISTS errtst'') \<lparr>conn = False, server = d, printed = []\<rparr> (\<lambda>p.
       let p = run_all L True pg_setup p in
       run_or_bail L (str ''SET SESSION AUTHORIZATION DEFAULT'') p (\<lambda>p.
       run_or_bail L (str ''DELETE FROM errtst_part_1;'') p (\<lambda>p. do {
         r \<leftarrow> find_public_and_secret_inputs_checked (json_parser E) Data s;
         case r of Exit c \<Rightarrow> Some (c, p)
         | Ret (((Some public_in, public_len), (Some secret_in, secret_len)), s) \<Rightarrow> do {
             pub \<leftarrow> init_bytes (take (unat public_len) public_in);
             sec \<leftarrow> init_bytes (take (unat secret_len) secret_in);
             (command, s) \<leftarrow> insert_command (rand_fun E) sec s;
             let (res, p) = run_cmd L command False True p in
             if res \<noteq> 0 then Some (0, reset_conn L p)
             else do {
               let p = snd (run_cmd L (str ''SET SESSION AUTHORIZATION low'') False False p) in do {
               (cmds, s) \<leftarrow> public_commands (rand_fun E) pub s;
               Some (0, reset_conn L (run_all L False cmds p))
             }}
           }
         | Ret (_, s) \<Rightarrow> Some (1, reset_conn L (p\<lparr>printed := printed p @ parse_error\<rparr>))
       })));
     Some (ret, printed p)
   }"

section \<open>What the command is\<close>

text \<open>A text between two quotes that does not end the literal.\<close>

fun sql_literal :: "cstr \<Rightarrow> bool" where
  "sql_literal [] = True"
| "sql_literal (c # cs) = (if c = 39 then (case cs of d # ds \<Rightarrow> d = 39 \<and> sql_literal ds | [] \<Rightarrow> False) else sql_literal cs)"

text \<open>What \<open>n\<close> rounds write: the round after a quote passes over a byte of the secret.\<close>

fun quoted :: "u8 list \<Rightarrow> nat \<Rightarrow> nat \<Rightarrow> u8 list" where
  "quoted sec 0 p = []"
| "quoted sec (Suc n) p = (if sec ! p = 39 then 39 # 39 # quoted sec n (p + 2) else sec ! p # quoted sec n (p + 1))"

lemma length_quoted: "length (quoted sec n p) \<le> 2 * n"
  by (induction sec n p rule: quoted.induct) auto

lemma quoted_literal: "sql_literal (c_str (quoted sec n p))"
  by (induction sec n p rule: quoted.induct) (auto simp: c_str_def)

lemma quoted_plain: "39 \<notin> set sec \<Longrightarrow> p + n \<le> length sec \<Longrightarrow> quoted sec n p = take n (drop p sec)"
proof (induction sec n p rule: quoted.induct)
  case (2 sec n p)
  then have "sec ! p \<noteq> 39" by (metis Suc_leD add_Suc_right less_eq_Suc_le nth_mem order_le_less_trans le_add1 not_less)
  then show ?case using 2 by (simp add: take_Suc_conv_app_nth Cons_nth_drop_Suc [symmetric])
qed simp

lemma foldM_quote:
  "p + 2 * length xs \<le> length sec + 1 \<Longrightarrow> foldM (\<lambda>i. quote_round sec) xs (buf, p) = puts (quoted sec (length xs) p) (buf, p)"
proof (induction xs arbitrary: buf p)
  case (Cons x xs)
  have p: "p < length sec" using Cons.prems by simp
  then show ?case using Cons.IH [of "p + 2"] Cons.IH [of "p + 1"] Cons.prems
    by (auto simp: quote_round_def put_def not_le split: bind_split)
qed simp

lemma cstr_at_c_str: "cstr_at (map Some t @ Some 0 # m) = Some (c_str t)"
  by (induction t) (auto simp: c_str_def)

lemma quote_half_ok:
  assumes "2 * n \<le> length sec + 1" and "2 * n < length buf"
  shows "quote_half sec n buf = Some (c_str (quoted sec n 0))"
proof -
  let ?q = "quoted sec n 0"
  have l: "length ?q < length buf" using length_quoted [of sec n 0] assms(2) by simp
  have "quote_half sec n buf = do { (m, p) \<leftarrow> puts (?q @ [0]) (buf, 0); cstr_at m }"
    using foldM_quote [of 0 "[0..<n]" sec buf] assms(1) by (simp add: quote_half_def puts_append split: bind_split)
  also have "puts (?q @ [0]) (buf, 0) = Some (map Some (?q @ [0]) @ drop (length ?q + 1) buf, length ?q + 1)"
    using puts_ok [of 0 "?q @ [0]" buf] l by simp
  finally show ?thesis using cstr_at_c_str [of ?q] by simp
qed

lemma block_ok:
  fixes s :: "'z memstate_scheme"
  assumes "mem_ok s" and "n < 2 ^ 63"
  shows "\<exists>m s'. block rand n s = Some (m, s') \<and> length m = n + 8 \<and> mem_ok s'"
proof -
  have u: "unat (of_nat n :: u64) = n" using assms(2) by (intro unat_of_nat_u64) simp
  have "unat (of_nat n :: u64) + 8 < 2 ^ 64" unfolding u using assms(2) by simp
  from wrap_malloc_ok [OF assms(1) this, of rand] show ?thesis
    using assms(1) by (auto simp: block_def u initRepeatedVal_def draw_pattern_def split_beta)
qed

definition insert_parts :: "cstr \<Rightarrow> cstr \<Rightarrow> cstr" where
  "insert_parts a b = str ''INSERT INTO errtst_part_1 (a, b, c, secret1, secret2) VALUES ('' @ [39] @ str ''aaa'' @ [39] @ str '', '' @ [39] @ str ''low2''
     @ [39] @ str '', '' @ [39] @ str ''low3'' @ [39] @ str '', '' @ [39] @ a @ [39] @ str '', '' @ [39] @ b @ [39] @ str '');''"

lemma format_insert: "format_s insert_template [a, b] = Some (insert_parts a b)"
proof -
  let ?A = "str ''INSERT INTO errtst_part_1 (a, b, c, secret1, secret2) VALUES ('' @ [39] @ str ''aaa'' @ [39] @ str '', '' @ [39] @ str ''low2''
     @ [39] @ str '', '' @ [39] @ str ''low3'' @ [39] @ str '', '' @ [39]" and ?B = "[39] @ str '', '' @ [39]" and ?C = "[39] @ str '');''"
  have t: "insert_template = ?A @ 0x25 # 0x73 # ?B @ 0x25 # 0x73 # ?C @ []" unfolding insert_template_def append_assoc append.simps append_Nil2 by (rule refl)
  have "0x25 \<notin> set ?A" "0x25 \<notin> set ?B" "0x25 \<notin> set ?C" by code_simp+
  note n = this [THEN format_s_plain]
  have "format_s insert_template [a, b] = Some (?A @ a @ ?B @ b @ ?C @ [])"
    unfolding t n format_s_arg format_s.simps(1) option.map by (rule refl)
  then show ?thesis unfolding insert_parts_def append_assoc append_Nil2 by simp
qed

lemma length_insert: "length (insert_parts a b) = length a + length b + 93"
  by (simp add: insert_parts_def)

text \<open>
  C39: The command that stores the secret has it in two closed literals, whatever its quotes are, so that the secret
  cannot end the literal; both literals start with the first byte of the secret, and without quotes they are its first
  half and, where the second half was meant, as many bytes from its start.  The block of the command is long enough
  exactly when the two literals are at most 114 bytes longer than the secret.
\<close>

theorem insert_command_literals:
  fixes s :: "'z memstate_scheme"
  assumes "mem_ok s" and "length sec < 2 ^ 31"
  shows "let n = length sec div 2; a = c_str (quoted sec n 0); b = c_str (quoted sec (length sec - n) 0) in
    sql_literal a \<and> sql_literal b
    \<and> (39 \<notin> set sec \<longrightarrow> a = c_str (take n sec) \<and> b = c_str (take (length sec - n) sec))
    \<and> map_option fst (insert_command rand sec s) = (if length a + length b \<le> length sec + 114 then Some (insert_parts a b) else None)"
proof -
  let ?n = "length sec div 2"
  let ?a = "c_str (quoted sec ?n 0)" and ?b = "c_str (quoted sec (length sec - ?n) 0)"
  obtain m1 s1 where 1: "block rand (length sec + 1) s = Some (m1, s1)" "length m1 = length sec + 1 + 8" "mem_ok s1"
    using block_ok [OF assms(1), of "length sec + 1" rand] assms(2) by auto
  obtain m2 s2 where 2: "block rand (length sec + 1) s1 = Some (m2, s2)" "length m2 = length sec + 1 + 8" "mem_ok s2"
    using block_ok [OF 1(3), of "length sec + 1" rand] assms(2) by auto
  obtain m3 s3 where 3: "block rand (length sec + 200) s2 = Some (m3, s3)" "length m3 = length sec + 200 + 8"
    using block_ok [OF 2(3), of "length sec + 200" rand] assms(2) by auto
  have q: "quote_half sec ?n m1 = Some ?a" "quote_half sec (length sec - ?n) m2 = Some ?b"
    using 1(2) 2(2) by (intro quote_half_ok; linarith)+
  have "map_option fst (insert_command rand sec s) = (if length ?a + length ?b \<le> length sec + 114 then Some (insert_parts ?a ?b) else None)"
    by (simp add: insert_command_def Let_def 1(1) [simplified] 2(1) [simplified] 3 q format_insert length_insert)
  then show ?thesis using quoted_literal quoted_plain [of sec 0 ?n] quoted_plain [of sec 0 "length sec - ?n"] by (simp add: Let_def)
qed

theorem insert_command_literals_witness:
  "map_option fst (insert_command (\<lambda>_ _. 0) (str ''secret'') \<lparr>avail = None, repeatedVal = 1, rand_state = (0, 0)\<rparr>)
    = Some (insert_parts (str ''sec'') (str ''sec''))"
proof -
  have l: "length (str ''secret'') < 2 ^ 31" by simp
  have a: "c_str (quoted (str ''secret'') (length (str ''secret'') div 2) 0) = str ''sec''"
    "c_str (quoted (str ''secret'') (length (str ''secret'') - length (str ''secret'') div 2) 0) = str ''sec''" by code_simp+
  show ?thesis
    using insert_command_literals [OF _ l, of "\<lparr>avail = None, repeatedVal = 1, rand_state = (0, 0)\<rparr>" "\<lambda>_ _. 0"]
    unfolding Let_def a by simp
qed

end
