(* ===== verification/Rds_Info.thy ===== *)
theory Rds_Info
  imports Small_Leak_Theorems
begin

text \<open>
  The RDS benchmark (CVE-2019-16714): \<open>rds6_inc_info_copy\<close> fills a record of 50 bytes on the stack but for its last
  two members, and \<open>rds_info_copy\<close> hands it out page by page.
\<close>

section \<open>The copy to the pages\<close>

text \<open>
  \<open>%hhX\<close>: no leading zero is printed.
\<close>

definition hex_char :: "nat \<Rightarrow> u8" where
  "hex_char d = of_nat (if d < 10 then 48 + d else 55 + d)"

definition hhX :: "u8 \<Rightarrow> u8 list" where
  "hhX b = (if b < 16 then [hex_char (unat b)] else [hex_char (unat b div 16), hex_char (unat b mod 16)])"

text \<open>
  The memory of the pages is a list of blocks, \<open>addr\<close> the block that is mapped; \<open>kmap_atomic\<close> is a parameter, from the
  index of a page to its block.
\<close>

record rds_info_iterator =
  pages :: nat
  addr :: "nat option"
  it_offset :: nat

definition copy_chunk :: "nat \<Rightarrow> nat \<Rightarrow> u8 list \<Rightarrow> u8 list list \<Rightarrow> u8 list list option" where
  "copy_chunk a off bs M = (if a < length M \<and> off + length bs \<le> length (M ! a) then Some (M[a := poke off bs (M ! a)]) else None)"

text \<open>The buffer of the text has five bytes for every one of the chunk; a failed \<open>malloc\<close> is not noticed.\<close>

definition hex_line :: "rand \<Rightarrow> u8 list \<Rightarrow> 'z memstate_scheme \<Rightarrow> (item \<times> 'z memstate_scheme) option" where
  "hex_line rand bs s = (case wrap_malloc rand (of_nat (5 * length bs)) s of
     Some (Some string, s) \<Rightarrow> let t = concat (map hhX bs) @ [10] in if length t \<le> length string then Some (Raw t, s) else None
   | _ \<Rightarrow> None)"

function rds_info_copy ::
    "rand \<Rightarrow> (nat \<Rightarrow> nat) \<Rightarrow> rds_info_iterator \<Rightarrow> u8 list \<Rightarrow> u8 list list \<Rightarrow> 'z memstate_scheme
      \<Rightarrow> (item list \<times> rds_info_iterator \<times> u8 list list \<times> 'z memstate_scheme) option" where
  "rds_info_copy rand kmap_atomic iter bs M s =
    (if bs = [] then Some ([], iter, M, s)
     else if 4096 < it_offset iter then None
     else let a = (case addr iter of None \<Rightarrow> kmap_atomic (pages iter) | Some a \<Rightarrow> a);
         this = min (length bs) (4096 - it_offset iter);
         off = it_offset iter + this;
         iter' = (if off = 4096 then \<lparr>pages = pages iter + 1, addr = None, it_offset = 0\<rparr> else iter\<lparr>addr := Some a, it_offset := off\<rparr>) in
       case copy_chunk a (it_offset iter) (take this bs) M of
         None \<Rightarrow> None
       | Some M \<Rightarrow> (case hex_line rand (take this bs) s of
           None \<Rightarrow> None
         | Some (l, s) \<Rightarrow> map_option (\<lambda>(out, r). (l # out, r)) (rds_info_copy rand kmap_atomic iter' (drop this bs) M s)))"
  by pat_completeness auto
termination
  by (relation "measure (\<lambda>(_, _, iter, bs, _, _). 2 * length bs + (if it_offset iter = 4096 then 1 else 0))") (auto simp: min_def)

declare rds_info_copy.simps [simp del]

section \<open>The record\<close>

text \<open>The members of \<open>struct rds_header\<close> that are read, as they lie in memory.\<close>

record rds_header =
  h_sequence :: "u8 list"
  h_len :: "u8 list"
  h_sport :: "u8 list"
  h_dport :: "u8 list"

text \<open>
  The bytes of the packed record: \<open>seq\<close>, \<open>len\<close>, the addresses, the ports, \<open>flags\<close> and \<open>tos\<close>; \<open>be64_to_cpu\<close> turns the
  bytes of a number round.
\<close>

definition fill_minfo6 :: "rds_header \<Rightarrow> u8 list \<Rightarrow> u8 list \<Rightarrow> bool \<Rightarrow> u8 list \<Rightarrow> u8 list" where
  "fill_minfo6 hdr saddr daddr flip minfo6 =
    (let minfo6 = poke 8 (rev (h_len hdr)) (poke 0 (rev (h_sequence hdr)) minfo6) in
     if flip then poke 46 (h_sport hdr) (poke 44 (h_dport hdr) (poke 28 saddr (poke 12 daddr minfo6)))
     else poke 46 (h_dport hdr) (poke 44 (h_sport hdr) (poke 28 daddr (poke 12 saddr minfo6))))"

definition rds6_inc_info_copy where
  "rds6_inc_info_copy rand kmap_atomic old hdr iter saddr daddr flip M s =
    rds_info_copy rand kmap_atomic iter (fill_minfo6 hdr saddr daddr flip old) M s"

section \<open>The harness\<close>

text \<open>\<open>COPY_INTO\<close>: a short input ends the process.\<close>

definition copy_into :: "nat \<Rightarrow> u8 list \<Rightarrow> (u8 list \<Rightarrow> u8 list \<Rightarrow> run option) \<Rightarrow> run option" where
  "copy_into n inp k = (if n \<le> length inp then k (take n inp) (drop n inp) else Some (1, []))"

text \<open>\<open>calloc\<close> for every page: which of them succeed.\<close>

fun calloc_pages :: "nat \<Rightarrow> 'z alloc_scheme \<Rightarrow> bool list \<times> 'z alloc_scheme" where
  "calloc_pages 0 s = ([], s)"
| "calloc_pages (Suc n) s = (let (ok, s) = try_alloc s; (oks, s) = calloc_pages n s in (ok # oks, s))"

definition header_at :: "u8 list \<Rightarrow> rds_header" where
  "header_at inc = \<lparr>h_sequence = take 8 (drop 40 inc), h_len = take 4 (drop 56 inc), h_sport = take 2 (drop 60 inc), h_dport = take 2 (drop 62 inc)\<rparr>"

text \<open>
  The sizes of the connection and its path depend on the configuration of the kernel.  The bytes of \<open>struct page\<close> are
  64.  With no pages the address is read from a block without any.  \<open>calls\<close> is what the calls after the
  stack was filled do to it; the result of a run that ends without \<open>return\<close> is \<open>ret\<close>.
\<close>

definition rds_harness :: "int \<Rightarrow> nat \<Rightarrow> nat \<Rightarrow> (nat \<Rightarrow> nat) \<Rightarrow> ((nat \<Rightarrow> u8) \<Rightarrow> (nat \<Rightarrow> u8)) \<Rightarrow> env \<Rightarrow> u8 list \<Rightarrow> 'z memstate_scheme \<Rightarrow> run option" where
  "rds_harness ret sizeof_conn sizeof_path kmap_atomic calls E Data s = read_inputs E Data s (\<lambda>public_in secret_in s.
     copy_into 160 public_in (\<lambda>inc rest. copy_into sizeof_conn rest (\<lambda>_ rest. copy_into sizeof_path rest (\<lambda>_ rest. copy_into 24 rest (\<lambda>_ rest.
     case rest of
       [] \<Rightarrow> Some (1, [])
     | num_pages # rest \<Rightarrow> do {
         let (stack, s) = seed_and_fill E secret_in s in do {
         (pages, s) \<leftarrow> wrap_malloc (rand_fun E) (ucast num_pages * 8) s;
         _ \<leftarrow> guard (pages \<noteq> None \<and> num_pages \<noteq> 0);
         let (ok, s) = calloc_pages (unat num_pages) s in do {
         _ \<leftarrow> guard (hd ok);
         copy_into 16 rest (\<lambda>saddr rest. copy_into 16 rest (\<lambda>daddr rest. copy_into 4 rest (\<lambda>flip rest. do {
           (out, _) \<leftarrow> rds6_inc_info_copy (rand_fun E) kmap_atomic (local_at (calls stack) (frame E) 50) (header_at inc)
             \<lparr>pages = 0, addr = Some 0, it_offset = 0\<rparr> saddr daddr (128 < sint (of_le flip :: u32))
             (replicate (unat num_pages) (replicate 64 0)) s;
           Some (ret, out)
         })))
       }}})))))"

section \<open>What the harness tells\<close>

lemma fill_minfo6_bytes:
  assumes "length (h_sequence hdr) = 8" "length (h_len hdr) = 4" "length (h_sport hdr) = 2" "length (h_dport hdr) = 2"
    and "length saddr = 16" "length daddr = 16" "length old = 50"
  shows "fill_minfo6 hdr saddr daddr flip old = (rev (h_sequence hdr) @ rev (h_len hdr)
    @ (if flip then daddr @ saddr @ h_dport hdr @ h_sport hdr else saddr @ daddr @ h_sport hdr @ h_dport hdr)) @ drop 48 old"
  using assms by (simp add: fill_minfo6_def poke_def Let_def)

lemma length_hhX: "length (hhX b) \<le> 2"
  by (simp add: hhX_def)

lemma length_hex: "length (concat (map hhX bs)) \<le> 2 * length bs"
  using length_hhX by (induction bs) (auto intro: add_mono order_trans)

lemma hex_line_ok:
  fixes s :: "'z memstate_scheme"
  assumes "mem_ok s" and "bs \<noteq> []" and "length bs < 2 ^ 32"
  shows "\<exists>s'. hex_line rand bs s = Some (Raw (concat (map hhX bs) @ [10]), s')"
proof -
  have u: "unat (of_nat (5 * length bs) :: u64) = 5 * length bs" using assms(3) by (intro unat_of_nat_u64) simp
  have "unat (of_nat (5 * length bs) :: u64) + 8 < 2 ^ 64" unfolding u using assms(3) by simp
  from wrap_malloc_ok [OF assms(1) this, of rand] obtain raw s' where
    r: "wrap_malloc rand (of_nat (5 * length bs)) s = Some (Some raw, s')" "length raw = 5 * length bs + 8"
    unfolding u by auto
  have "length (concat (map hhX bs) @ [10]) \<le> length raw" using length_hex [of bs] r(2) by simp
  then show ?thesis using r(1) by (simp add: hex_line_def Let_def)
qed

lemma info_copy_one:
  fixes s :: "'z memstate_scheme"
  assumes "mem_ok s" and "length bs = 50" and "M \<noteq> []" and "length (hd M) = 64"
  shows "\<exists>r. rds_info_copy rand kmap \<lparr>pages = 0, addr = Some 0, it_offset = 0\<rparr> bs M s = Some ([Raw (concat (map hhX bs) @ [10])], r)"
proof -
  have "bs \<noteq> []" "length bs < 2 ^ 32" using assms(2) by auto
  from hex_line_ok [OF assms(1) this, of rand] obtain s' where h: "hex_line rand bs s = Some (Raw (concat (map hhX bs) @ [10]), s')" by blast
  have "M ! 0 = hd M" using assms(3) by (cases M) simp_all
  then have c: "copy_chunk 0 0 bs M = Some (M[0 := poke 0 bs (hd M)])" using assms by (simp add: copy_chunk_def)
  show ?thesis using h c assms(2) \<open>bs \<noteq> []\<close> by (subst rds_info_copy.simps) (simp add: rds_info_copy.simps [of _ _ _ "[]"] min_def)
qed

lemma calloc_pages_ok:
  fixes s :: "'z alloc_scheme"
  shows "mem_ok s \<Longrightarrow> calloc_pages n s = (replicate n True, s)"
  by (induction n) simp_all

lemma seed_fill_ok:
  fixes s :: "'z memstate_scheme"
  shows "mem_ok (snd (seed_and_fill E sec s)) = mem_ok s"
  by (simp add: seed_and_fill_def FILL_STACK_def SEED_MEMORY_def initRepeatedVal_def draw_pattern_def Let_def split_beta)

lemma local_tail:
  assumes "filled E 50"
  shows "drop 48 (local_at (fst (seed_and_fill E sec s)) (frame E) 50) = [le 8 (stack_pattern E sec) ! 0, le 8 (stack_pattern E sec) ! 1]"
  unfolding local_filled [OF assms] by (simp add: repeated_def drop_map upt_rec)

text \<open>What the harness makes of the public input: the header, the number of pages and the rest.\<close>

definition rds_input :: "nat \<Rightarrow> nat \<Rightarrow> u8 list \<Rightarrow> bool" where
  "rds_input nc np pub \<longleftrightarrow> 160 + nc + np + 24 + 1 + 36 \<le> length pub \<and> pub ! (160 + nc + np + 24) \<noteq> 0"

lemma rds_run:
  fixes s :: "'z memstate_scheme"
  assumes "testcase E D pub sec" and "mem_ok s" and "rds_input nc np pub" and "filled E 50"
    and "\<And>stack. local_at (calls stack) (frame E) 50 = local_at stack (frame E) 50"
  shows "\<exists>shown. length shown = 48 \<and> (\<forall>sec' D'. testcase E D' pub sec' \<longrightarrow>
    rds_harness ret nc np kmap calls E D' s = Some (ret, [Raw (concat (map hhX (shown @ [le 8 (stack_pattern E sec') ! 0, le 8 (stack_pattern E sec') ! 1])) @ [10])]))"
proof -
  let ?rest = "drop 24 (drop np (drop nc (drop 160 pub)))"
  have l: "37 \<le> length ?rest" "160 \<le> length pub" "nc \<le> length (drop 160 pub)" "np \<le> length (drop nc (drop 160 pub))"
    "24 \<le> length (drop np (drop nc (drop 160 pub)))" using assms(3) unfolding rds_input_def length_drop by arith+
  obtain k rest where r: "?rest = k # rest" using l(1) by (cases ?rest) auto
  have k: "k \<noteq> 0" using assms(3) arg_cong [OF r, of hd] l by (simp add: rds_input_def hd_drop_conv_nth add.commute)
  have rl: "16 \<le> length rest" "16 \<le> length (drop 16 rest)" "4 \<le> length (drop 16 (drop 16 rest))" using l(1) unfolding r by simp_all
  define hdr where "hdr = header_at (take 160 pub)"
  define saddr where "saddr = take 16 rest"
  define daddr where "daddr = take 16 (drop 16 rest)"
  define flip where "flip \<longleftrightarrow> 128 < sint (of_le (take 4 (drop 16 (drop 16 rest))) :: u32)"
  define shown where "shown = rev (h_sequence hdr) @ rev (h_len hdr)
    @ (if flip then daddr @ saddr @ h_dport hdr @ h_sport hdr else saddr @ daddr @ h_sport hdr @ h_dport hdr)"
  have hdr: "length (h_sequence hdr) = 8" "length (h_len hdr) = 4" "length (h_sport hdr) = 2" "length (h_dport hdr) = 2"
    using l(2) by (simp_all add: hdr_def header_at_def)
  have sd: "length saddr = 16" "length daddr = 16" using rl by (simp_all add: saddr_def daddr_def)
  have "rds_harness ret nc np kmap calls E D' s = Some (ret, [Raw (concat (map hhX (shown @ [le 8 (stack_pattern E sec') ! 0, le 8 (stack_pattern E sec') ! 1])) @ [10])])"
    if t: "testcase E D' pub sec'" for sec' D'
  proof -
    let ?s = "snd (seed_and_fill E sec' s)" and ?old = "local_at (fst (seed_and_fill E sec' s)) (frame E) 50"
    let ?minfo = "fill_minfo6 hdr saddr daddr flip ?old"
    have m: "mem_ok ?s" using assms(2) by (simp add: seed_fill_ok)
    have u: "unat (ucast k * 8 :: u64) = unat k * 8" using unsigned_less [of k, where 'a = nat]
      by (simp add: unat_word_ariths unsigned_ucast_eq take_bit_nat_eq_self)
    have "unat (ucast k * 8 :: u64) + 8 < 2 ^ 64" unfolding u using unsigned_less [of k, where 'a = nat] by simp
    from wrap_malloc_ok [OF m this, of "rand_fun E"] obtain raw s' where w: "wrap_malloc (rand_fun E) (ucast k * 8) ?s = Some (Some raw, s')" "mem_ok s'"
      using m by (auto simp: initRepeatedVal_def draw_pattern_def split_beta)
    have minfo: "?minfo = shown @ [le 8 (stack_pattern E sec') ! 0, le 8 (stack_pattern E sec') ! 1]"
      using fill_minfo6_bytes [OF hdr sd, of ?old flip] local_tail [OF assms(4), of sec' s] by (simp add: shown_def)
    have "length ?minfo = 50" unfolding minfo using hdr sd by (simp add: shown_def)
    have n: "0 < unat k" using k by (simp add: unat_gt_0)
    then obtain r where i: "rds_info_copy (rand_fun E) kmap \<lparr>pages = 0, addr = Some 0, it_offset = 0\<rparr> ?minfo (replicate (unat k) (replicate 64 0)) s'
        = Some ([Raw (concat (map hhX ?minfo) @ [10])], r)"
      using info_copy_one [OF w(2) \<open>length ?minfo = 50\<close>, of "replicate (unat k) (replicate 64 0)" "rand_fun E" kmap] by auto
    have "rds_harness ret nc np kmap calls E D' s = Some (ret, [Raw (concat (map hhX ?minfo) @ [10])])"
      unfolding rds_harness_def read_testcase [OF t assms(2)] copy_into_def
      using l rl r k w(1) i n calloc_pages_ok [OF w(2), of "unat k"]
      by (simp add: split_beta Let_def assms(5) rds6_inc_info_copy_def hdr_def saddr_def daddr_def flip_def)
    then show ?thesis unfolding minfo .
  qed
  moreover have "length shown = 48" using hdr sd by (simp add: shown_def)
  ultimately show ?thesis by blast
qed

text \<open>
  C40: The harness of the RDS benchmark never fails on a long enough input with at least one page, and of the secret it
  prints the first two bytes of the pattern on the stack, where \<open>flags\<close> and \<open>tos\<close> of the record lie, as \<open>%hhX\<close>
  writes them one after the other: runs with the same public input print the same exactly when these texts agree.
\<close>

theorem rds_harness_leaks:
  fixes s :: "'z memstate_scheme"
  assumes "testcase E D1 pub sec1" and "testcase E D2 pub sec2" and "mem_ok s" and "rds_input nc np pub" and "filled E 50"
    and "\<And>stack. local_at (calls stack) (frame E) 50 = local_at stack (frame E) 50"
  shows "rds_harness ret nc np kmap calls E D1 s \<noteq> None \<and>
    (rds_harness ret nc np kmap calls E D1 s = rds_harness ret nc np kmap calls E D2 s \<longleftrightarrow>
      (let leaked = (\<lambda>sec. hhX (le 8 (stack_pattern E sec) ! 0) @ hhX (le 8 (stack_pattern E sec) ! 1)) in leaked sec1 = leaked sec2))"
proof -
  obtain shown where r: "\<And>sec' D'. testcase E D' pub sec' \<Longrightarrow> rds_harness ret nc np kmap calls E D' s =
      Some (ret, [Raw (concat (map hhX (shown @ [le 8 (stack_pattern E sec') ! 0, le 8 (stack_pattern E sec') ! 1])) @ [10])])"
    using rds_run [OF assms(1,3,4,5,6), of ret kmap] by blast
  show ?thesis using r [OF assms(1)] r [OF assms(2)] by (simp add: Let_def)
qed

definition rds_env :: env where
  "rds_env = ex_env\<lparr>frame := 952\<rparr>"

theorem rds_harness_leaks_witness:
  "rds_harness 0 0 0 id id rds_env ([1, 0, 0, 0] @ replicate 221 1) ex_memstate \<noteq> rds_harness 0 0 0 id id rds_env ([2, 0, 0, 0] @ replicate 221 1) ex_memstate"
proof -
  have t: "testcase rds_env (sec @ replicate 221 1) (replicate 221 1) sec" if "length sec = 4" for sec
    using ex_testcase [OF that, of "replicate 221 1"] by (simp add: testcase_def rds_env_def)
  have f: "filled rds_env 50" by (simp add: filled_def rds_env_def ex_env_def)
  have i: "rds_input 0 0 (replicate 221 1)" by (simp add: rds_input_def)
  have "hhX (le 8 (stack_pattern rds_env [1, 0, 0, 0]) ! 0) @ hhX (le 8 (stack_pattern rds_env [1, 0, 0, 0]) ! 1)
      \<noteq> hhX (le 8 (stack_pattern rds_env [2, 0, 0, 0]) ! 0) @ hhX (le 8 (stack_pattern rds_env [2, 0, 0, 0]) ! 1)"
    by code_simp
  then show ?thesis using rds_harness_leaks [OF t t _ i f, of "[1, 0, 0, 0]" "[2, 0, 0, 0]" ex_memstate id 0 id]
    by (simp add: Let_def)
qed

end
