(* ===== verification/Spec2Isabelle.thy ===== *)
theory Spec2Isabelle
  imports Container_Theorems Mutator_Theorems Small_Leak_Theorems Kernel_Reply_Theorems Netlink_Theorems Usb_Theorems
    Heartbeat_Theorems Json_Theorems Test_Writer Vpn_Theorems Pg_Harness Rds_Info
begin

text \<open>
  This development models the C code that the repository info\_leak\_benchmarks itself consists of: the Grammar-Mutator,
  a custom mutator for the fuzzer AFL++ under src/experiment/Grammar-Mutator (parts of which leakage\_test has copies of), and the programs under src/experiment/leakage\_test that the fuzzer is run on, each of which is known to
  give some of its memory away.  Every definition is a translation of the C function of the same name.

  \<^bold>\<open>How the program fits together.\<close>  The mutator holds one parse tree.  It reads the tree from a file or makes it
  with the functions generated from a grammar, trims it, and hands out test cases made by three kinds of mutation; subtrees
  of all test cases are kept in the chunk store and reused.  A test case is a JSON object with a public and a secret
  string in base64.  Each program under test has a harness, which decodes the test case, seeds a memory pattern with the
  secret, fills the heap and the stack with it, calls the function under test on the public input and prints the
  reply.  Two runs with the same public input and different secrets that print differently are a leak.

  \<^bold>\<open>Conventions.\<close>  Prelude has the integer types as words and the loops of the sources as folds in the option monad.  A
  result None stands for an execution that C does not define (a NULL, freed or outside access, a signed overflow), for
  abort and exit, or for fuel that was used up.  A pointer is an address, of type nat, and NULL is None.  The heap is an
  extensible record: the allocator of Helpers (\<open>avail\<close>, the number of calls that still succeed, or None for an allocator
  that never fails, which is \<open>mem_ok\<close>), the nodes of trees (Tree\_Heap), the seeds of the random numbers (Tree\_Pick), the
  bound on trees (Mutation), the chunk store (Chunk\_Store), the files (Files) and the mutator (Grammar\_Mutator) extend
  one another, so that every operation takes the part of the state that it knows and keeps the rest.  The cells of lists
  (Linked\_List) and the memory pattern (Leak) extend the allocator on their own.  Memory that was never
  written is an argument of the definitions that read it.  What a harness prints is a list of items (Harness).

  \<^bold>\<open>The mutator.\<close>
  \<^item> Helpers: include/helpers.h, the growing buffers.
  \<^item> Tree\_Heap, Tree\_Obj, Tree\_Pick: src/tree.c and include/tree.h, first the operations on nodes, then those on whole
    trees, then the random choice of a node.  Tree\_Spec has the trees that the pointers stand for, and Tree\_Rep, Tree\_Clone,
    Tree\_Size, Tree\_Edit, Tree\_Buf, Tree\_Deser and Tree\_Lists relate the two: every operation is refined by a
    function on abstract trees, with the frame that it leaves alone.  The theorems are in Tree\_Theorems:
    the text and the serialised form of a tree, round trips, and substitution in place.
  \<^item> Rng: src/utils.c, the random numbers.  Mutation, Trimming, Recursive\_Mutation: src/tree\_mutation.c and
    src/tree\_trimming.c.  Mutation\_Theorems shows what tree each strategy returns, that the tree it was given is restored,
    that the choice of a node never fails, and that \<open>random_below\<close> ends exactly when the generator gets to an accepted value.
  \<^item> Linked\_List (src/list.c), Hash\_Map (third\_party/rxi\_map/map.c), Container\_Theorems: both refine their abstract data
    types, sequences and finite maps, which are the locales \<open>fifo\<close> and \<open>finite_map\<close>.
  \<^item> Chunk\_Store: src/chunk\_store.c and the splicing mutation.  Chunk\_Inv is the invariant of the two maps, Splicing shows
    what the store does for its clients, Chunk\_Theorems has the theorems.
  \<^item> Files: the directory functions of src/utils.c and the tree files of src/tree.c on a list of files; File\_Theorems.
  \<^item> Grammar\_Mutator: src/grammar\_mutator.c and include/custom\_mutator.h, all callbacks of AFL++, and the test case
    generator src/grammar\_generator.c.  Mutator\_Stages sees the
    fuzzing calls as a step relation and shows that it refines a schedule of four totals; Rules\_Stage, Trim\_Progress
    and Mutator\_Calls are about the deterministic stage, the trimming and the result of one call; Mutator\_Theorems.

  \<^bold>\<open>Test cases.\<close>
  \<^item> Base64, Base64\_Proofs: src/base64.c.  Decode\_Inputs: both copies of decode\_inputs.c, with the JSON parser as a
    parameter.  Input\_Theorems has the round trip and the errors.
  \<^item> Json\_Parser: json.c, the parser with its two passes and the release of values.  Json\_Text has the grammar of texts and
    the list of values that the two passes make of a text; Json\_Runs, Json\_Strings, Json\_Values and Json\_Containers show that
    the rounds of the parser do so, and Json\_Theorems that a text is read back as its value and that its memory is freed.
  \<^item> Test\_Writer: encode\_util/encode.c, and that the harnesses read back what it writes, through json.c.

  \<^bold>\<open>Programs under test.\<close>
  \<^item> Leak: memory.c and memory.h, and the locale \<open>leaky_copy\<close> of a function that copies a record some bytes of which were
    never written.  Every benchmark that does so interprets it on its own reply.  Harness: the part the harnesses share.
  \<^item> Small\_Leaks, Small\_Leak\_Theorems: underflow, example, atalk.  Kernel\_Replies, Kernel\_Reply\_Theorems: getsockopt and
    sigaltstack.  Rds\_Info: \<open>rds6_inc_info_copy\<close> and its harness.
  \<^item> Netlink, Traffic\_Control: the socket buffers, attributes, statistics, actions, matches and the classifier of
    tcf\_fill\_node/repo/fuzz\_harness.c.  Netlink\_Proofs, Traffic\_Proofs, Node\_Proofs and Node\_Safety show which bytes each
    writer appends and that it stays in the buffer; Netlink\_Theorems has the message, the errors and the leak.
  \<^item> Usb\_Driver, Usb\_Theorems: kernel\_driver\_leak, with a loop that ends only on some buffers.
  \<^item> Heartbeat, Heartbeat\_Theorems: the heartbeat extension of OpenSSL (ssl/t1\_lib.c, d1\_both.c, s3\_lib.c, s3\_clnt.c).
  \<^item> Vpn\_Setting, Vpn\_Theorems: nm-setting-vpn.c of NetworkManager and its harness.
  \<^item> Pg\_Harness: the harness of the PostgreSQL benchmark, the commands it sends and how it quotes the secret.

  The theorems about a program under test say exactly which part of the secret its output depends on: two runs on the
  same public input print the same if and only if the named part of the memory pattern is the same.

  \<^bold>\<open>Bounds and fuel.\<close>  A recursion over a pointer structure takes fuel, the depth it may reach.  The theorems ask for more
  than the height of the tree, and hold for every such amount, so that the result does not depend on it;
  deserialisation asks for more than the size.  In \<open>rrm_loop\<close> the fuel is the number of attempts, since that loop of
  the mutator may fail again and again.  The other loops whose end is not obvious are partial functions:
  \<open>random_draw\<close>, the passes of json.c and its release of values, and the loop of \<open>sr9700_rx_fixup\<close>.  There None is a
  loop that does not end, and theorems state when that happens.
  Sizes that the C code keeps in 32 bits are bounded by hypotheses where they would wrap around.  A JSON text is shorter than
  2 ^ 31 bytes where the result matters, so that the counter of digits does not overflow.

  \<^bold>\<open>Parameters.\<close>  Code that is not in the repository or is generated is an argument: the functions generated from a
  grammar (\<open>gen_funcs\<close>, \<open>node_num_rules\<close>, \<open>node_type_str\<close>, \<open>tree_from_buf\<close>), the XXH digests, \<open>rand\<close>, the addresses that
  /proc/self/maps gives, the record layer and the allocator of OpenSSL, GLib's hash table (with the promises of its
  documentation, \<open>glib_ok\<close>), libpq with the server behind it, and \<open>kmap_atomic\<close>.

  \<^bold>\<open>Not modelled.\<close>  The complete copies of OpenSSL, PostgreSQL and NetworkManager, by far the most lines under src/, are
  vendored programs; only the parts that the benchmarks are about are modelled.  The rest of the
  preprocessed kernel file of the RDS benchmark are declarations.  The IFSpec benchmarks are C++, the code generator
  of the grammars is Python, and src/benchmark/benchmark.c prints averages of running times.  In json.c the contents of
  doubles are left out.  The contents of messages to the terminal and the log are left out except where a leak is about them.
\<close>

end
